(* ===== verification/Prelude.thy ===== *)
theory Prelude
  imports Main "HOL-Library.Word"
begin

text \<open>
  Shared vocabulary of the development: the Rust integer types and the standard-library
  operations the modelled code calls on them (saturating arithmetic, \<open>clamp\<close>, big-endian
  bytes, slices that panic out of range, updates of the element found), the outcome type that
  separates a returned error from a panic, and the generic lemmas on lists, words and association lists that the component proofs use.

  Conventions.  \<open>u8\<close>, \<open>u16\<close>, \<open>u32\<close>, \<open>u64\<close> are words of that width; \<open>usize\<close> (64 bits on
  every supported target) counts elements of in-memory collections and is a natural number;
  an \<open>Instant\<close> is the number of nanoseconds since an arbitrary origin and a \<open>Duration\<close> a
  number of nanoseconds; a Rust \<open>String\<close> is its sequence of UTF-8 bytes, a \<open>string\<close> of HOL.
\<close>

named_theorems rust_std \<open>equations of the modelled standard-library operations\<close>
named_theorems no_panic \<open>operations that never panic\<close>

type_synonym u8 = "8 word"
type_synonym u16 = "16 word"
type_synonym u32 = "32 word"
type_synonym u64 = "64 word"
type_synonym instant = nat
type_synonym duration = nat

subsection \<open>Integers\<close>

text \<open>\<open>uN::saturating_add\<close> and \<open>uN::saturating_sub\<close>.\<close>

definition sat_add :: "'a::len word \<Rightarrow> 'a word \<Rightarrow> 'a word" where
  "sat_add a b = (if unat a + unat b < 2 ^ LENGTH('a) then a + b else - 1)"

definition sat_sub :: "'a::len word \<Rightarrow> 'a word \<Rightarrow> 'a word" where
  "sat_sub a b = (if b \<le> a then a - b else 0)"

text \<open>\<open>Ord::clamp\<close>.\<close>

definition clamp :: "'a::linorder \<Rightarrow> 'a \<Rightarrow> 'a \<Rightarrow> 'a" where
  "clamp lo hi x = (if x < lo then lo else if hi < x then hi else x)"

lemma unat_sat_add:
  fixes a b :: "'a::len word"
  shows "unat (sat_add a b) = min (unat a + unat b) (2 ^ LENGTH('a) - 1)"
proof (cases "unat a + unat b < 2 ^ LENGTH('a)")
  case True
  then have "unat (a + b) = unat a + unat b" by (simp add: unat_add_lem)
  with True show ?thesis by (simp add: sat_add_def)
next
  case False
  then show ?thesis by (simp add: sat_add_def unsigned_minus_1_eq_mask mask_eq_exp_minus_1)
qed

lemma unat_sat_sub: "unat (sat_sub a b) = unat a - unat b"
  by (simp add: sat_sub_def unat_sub word_le_nat_alt)

lemma unat_Suc_below:
  fixes a m :: "'a::len word"
  assumes "a < m"
  shows "unat (a + 1) = Suc (unat a)"
proof -
  have "unat a < unat m" using assms by (simp add: word_less_nat_alt)
  moreover have "unat m < 2 ^ LENGTH('a)" by simp
  moreover have "unat (1::'a word) = 1" by simp
  ultimately have "unat a + unat (1::'a word) < 2 ^ LENGTH('a)" by linarith
  then have "unat (a + 1) = unat a + unat (1::'a word)" by (simp only: unat_add_lem)
  then show ?thesis by simp
qed

lemma sat_add_one:
  fixes a b :: "'a::len word"
  assumes "a < b"
  shows "unat (sat_add a 1) = unat a + 1"
proof -
  have "unat a < unat b" using assms by (simp add: word_less_nat_alt)
  moreover have "unat b < 2 ^ LENGTH('a)" by simp
  ultimately have "unat a + 1 \<le> 2 ^ LENGTH('a) - 1" by linarith
  moreover have "unat (1::'a word) = 1" by simp
  ultimately show ?thesis by (simp only: unat_sat_add min_absorb1)
qed

lemma sat_add_0 [simp]: "sat_add 0 x = x" "sat_add x 0 = x"
  using unsigned_less [of x] by (simp_all add: sat_add_def)

lemma sat_add_le_iff:
  fixes a b c :: "'a::len word"
  assumes "unat c < 2 ^ LENGTH('a) - 1"
  shows "sat_add a b \<le> c \<longleftrightarrow> unat a + unat b \<le> unat c"
  using assms by (auto simp: word_le_nat_alt unat_sat_add)

lemma clamp_bounds: "lo \<le> hi \<Longrightarrow> lo \<le> clamp lo hi x \<and> clamp lo hi x \<le> hi"
  by (auto simp: clamp_def)

lemma clamp_id [simp]: "lo \<le> x \<Longrightarrow> x \<le> hi \<Longrightarrow> clamp lo hi x = x"
  by (auto simp: clamp_def)

subsection \<open>Outcomes\<close>

text \<open>
  A fallible Rust function returns \<open>Ok\<close> or \<open>Err\<close>; an out-of-range index or slice panics
  instead.  The panic is a value of its own, so that its absence is a theorem.
\<close>

datatype ('e, 'a) outcome = Ok 'a | Err 'e | Panic

fun obind :: "('e, 'a) outcome \<Rightarrow> ('a \<Rightarrow> ('e, 'b) outcome) \<Rightarrow> ('e, 'b) outcome" where
  "obind (Ok x) f = f x"
| "obind (Err e) f = Err e"
| "obind Panic f = Panic"

lemma obind_cong [fundef_cong]:
  "m = m' \<Longrightarrow> (\<And>x. m' = Ok x \<Longrightarrow> f x = g x) \<Longrightarrow> obind m f = obind m' g"
  by (cases m') auto

lemma obind_eq_Ok: "obind m f = Ok y \<longleftrightarrow> (\<exists>x. m = Ok x \<and> f x = Ok y)"
  by (cases m) auto

lemma obind_eq_Err: "obind m f = Err e \<longleftrightarrow> m = Err e \<or> (\<exists>x. m = Ok x \<and> f x = Err e)"
  by (cases m) auto

lemma obind_eq_Panic: "obind m f = Panic \<longleftrightarrow> m = Panic \<or> (\<exists>x. m = Ok x \<and> f x = Panic)"
  by (cases m) auto

lemmas obind_conv = obind_eq_Ok obind_eq_Err obind_eq_Panic

subsection \<open>Slices\<close>

text \<open>\<open>xs[i]\<close> and \<open>&xs[a..b]\<close>, which panic out of range.\<close>

definition idx :: "'a list \<Rightarrow> nat \<Rightarrow> ('e, 'a) outcome" where
  "idx xs i = (if i < length xs then Ok (xs ! i) else Panic)"

definition slc :: "'a list \<Rightarrow> nat \<Rightarrow> nat \<Rightarrow> ('e, 'a list) outcome" where
  "slc xs a b = (if a \<le> b \<and> b \<le> length xs then Ok (take (b - a) (drop a xs)) else Panic)"

lemma idx_Ok [simp]: "i < length xs \<Longrightarrow> idx xs i = Ok (xs ! i)"
  by (simp add: idx_def)

lemma slc_Ok [simp]: "a \<le> b \<Longrightarrow> b \<le> length xs \<Longrightarrow> slc xs a b = Ok (take (b - a) (drop a xs))"
  by (simp add: slc_def)

lemma idx_eq_Panic [simp]: "idx xs i = Panic \<longleftrightarrow> length xs \<le> i"
  by (simp add: idx_def)

lemma idx_eq_Ok [simp]: "idx xs i = Ok x \<longleftrightarrow> i < length xs \<and> xs ! i = x"
  by (simp add: idx_def)

lemma slc_eq_Panic [simp]: "slc xs a b = Panic \<longleftrightarrow> \<not> (a \<le> b \<and> b \<le> length xs)"
  by (simp add: slc_def)

lemma slc_eq_Ok [simp]:
  "slc xs a b = Ok ys \<longleftrightarrow> a \<le> b \<and> b \<le> length xs \<and> ys = take (b - a) (drop a xs)"
  by (auto simp: slc_def)

lemma idx_append [simp]: "i < length xs \<Longrightarrow> idx (xs @ ys) i = Ok (xs ! i)"
  by (simp add: idx_def nth_append)

lemma slc_append [simp]:
  "a \<le> b \<Longrightarrow> b \<le> length xs \<Longrightarrow> slc (xs @ ys) a b = Ok (take (b - a) (drop a xs))"
  by (simp add: slc_def)

subsection \<open>Big-endian bytes\<close>

text \<open>
  \<open>uN::from_be_bytes\<close> reads its byte array most significant byte first; \<open>be_bytes n\<close> is the
  \<open>n\<close>-byte \<open>to_be_bytes\<close> of a number.
\<close>

definition be_nat :: "u8 list \<Rightarrow> nat" where
  "be_nat bs = foldl (\<lambda>acc b. acc * 256 + unat b) 0 bs"

definition from_be_bytes :: "u8 list \<Rightarrow> 'a::len word" where
  "from_be_bytes bs = word_of_nat (be_nat bs)"

fun be_bytes :: "nat \<Rightarrow> nat \<Rightarrow> u8 list" where
  "be_bytes 0 k = []"
| "be_bytes (Suc n) k = be_bytes n (k div 256) @ [word_of_nat (k mod 256)]"

lemma be_nat_Nil [simp]: "be_nat [] = 0"
  by (simp add: be_nat_def)

lemma be_nat_snoc [simp]: "be_nat (bs @ [b]) = be_nat bs * 256 + unat b"
  by (simp add: be_nat_def)

lemma be_nat_bound: "be_nat bs < 256 ^ length bs"
proof (induction bs rule: rev_induct)
  case (snoc b bs)
  have "unat b < 2 ^ LENGTH(8)" by (rule unsigned_less)
  then have "unat b < 256" by simp
  with snoc have "be_nat bs * 256 + unat b < 256 ^ length bs * 256" by linarith
  then show ?case by (simp add: mult.commute)
qed simp

lemma length_be_bytes [simp]: "length (be_bytes n k) = n"
  by (induction n arbitrary: k) auto

lemma unat_byte_of_nat: "unat (word_of_nat (k mod 256) :: u8) = k mod 256"
  by (simp add: unat_of_nat)

lemma be_nat_be_bytes: "be_nat (be_bytes n k) = k mod 256 ^ n"
proof (induction n arbitrary: k)
  case (Suc n)
  have "be_nat (be_bytes (Suc n) k) = (k div 256 mod 256 ^ n) * 256 + k mod 256"
    by (simp add: Suc unat_byte_of_nat)
  also have "\<dots> = k mod (256 * 256 ^ n)"
    by (simp add: mod_mult2_eq mult.commute)
  finally show ?case by simp
qed simp

lemma be_nat_be_bytes_id [simp]: "k < 256 ^ n \<Longrightarrow> be_nat (be_bytes n k) = k"
  by (simp add: be_nat_be_bytes)

lemma unat_from_be_bytes4: "length bs = 4 \<Longrightarrow> unat (from_be_bytes bs :: u32) = be_nat bs"
  using be_nat_bound [of bs] by (simp add: from_be_bytes_def unat_of_nat)

lemma unat_from_be_bytes2: "length bs = 2 \<Longrightarrow> unat (from_be_bytes bs :: u16) = be_nat bs"
  using be_nat_bound [of bs] by (simp add: from_be_bytes_def unat_of_nat)

subsection \<open>Options\<close>

lemma case_option_ex:
  "(case x of None \<Rightarrow> False | Some m \<Rightarrow> P m) \<longleftrightarrow> (\<exists>m. x = Some m \<and> P m)"
  by (cases x) auto

lemma bind_None_iff: "Option.bind m f = None \<longleftrightarrow> (\<forall>x. m = Some x \<longrightarrow> f x = None)"
  by (cases m) auto

subsection \<open>The first element that satisfies a predicate\<close>

text \<open>\<open>iter_mut().find(p)\<close> followed by an update of the element found.\<close>

fun find_update :: "('a \<Rightarrow> bool) \<Rightarrow> ('a \<Rightarrow> 'a) \<Rightarrow> 'a list \<Rightarrow> 'a list" where
  "find_update p f [] = []"
| "find_update p f (x # xs) = (if p x then f x # xs else x # find_update p f xs)"

lemma list_all_find_update:
  "list_all P xs \<Longrightarrow> (\<And>x. List.find p xs = Some x \<Longrightarrow> P x \<Longrightarrow> P (f x)) \<Longrightarrow> list_all P (find_update p f xs)"
  by (induction xs) auto

lemma find_Some_iff_find_update:
  "List.find p xs = Some x \<Longrightarrow> p (f x) \<Longrightarrow> List.find p (find_update p f xs) = Some (f x)"
  by (induction xs) auto

lemma find_update_unique:
  "distinct (map f xs) \<Longrightarrow> f x = k \<Longrightarrow> x \<in> set xs \<Longrightarrow>
   find_update (\<lambda>y. f y = k) g xs = map (\<lambda>y. if f y = k then g y else y) xs"
  by (induction xs) (auto intro!: sym [OF map_idI] simp: rev_image_eqI)

lemma find_by_id:
  assumes "distinct (map f xs)" "x \<in> set xs" "f x = k"
  shows "find (\<lambda>y. f y = k) xs = Some x"
  using assms by (induction xs) (auto simp: rev_image_eqI)

end
