(* ===== verification/Utf8.thy ===== *)
theory Utf8
  imports Prelude
begin

text \<open>
  \<open>String::from_utf8_lossy\<close> of the Rust standard library, which the event-stream parser
  applies to header names and header string values.  It copies the maximal well-formed
  UTF-8 sequences and replaces every maximal ill-formed subpart by the replacement
  character U+FFFD.  The main facts: the result is always well-formed UTF-8, and a
  well-formed input is returned unchanged.
\<close>

definition is_cont :: "u8 \<Rightarrow> bool" where
  "is_cont b \<longleftrightarrow> 128 \<le> b \<and> b \<le> 191"

text \<open>Length of the sequence a leading byte announces; 0 for a byte that cannot lead.\<close>

definition utf8_char_width :: "u8 \<Rightarrow> nat" where
  "utf8_char_width b =
     (if b < 128 then 1 else if 194 \<le> b \<and> b \<le> 223 then 2
      else if 224 \<le> b \<and> b \<le> 239 then 3 else if 240 \<le> b \<and> b \<le> 244 then 4 else 0)"

text \<open>The second byte of a 3-byte or 4-byte sequence (no overlong forms, no surrogates).\<close>

definition second3_ok :: "u8 \<Rightarrow> u8 \<Rightarrow> bool" where
  "second3_ok b c \<longleftrightarrow>
     (b = 224 \<and> 160 \<le> c \<and> c \<le> 191) \<or> (225 \<le> b \<and> b \<le> 236 \<and> is_cont c) \<or>
     (b = 237 \<and> 128 \<le> c \<and> c \<le> 159) \<or> (238 \<le> b \<and> b \<le> 239 \<and> is_cont c)"

definition second4_ok :: "u8 \<Rightarrow> u8 \<Rightarrow> bool" where
  "second4_ok b c \<longleftrightarrow>
     (b = 240 \<and> 144 \<le> c \<and> c \<le> 191) \<or> (241 \<le> b \<and> b \<le> 243 \<and> is_cont c) \<or>
     (b = 244 \<and> 128 \<le> c \<and> c \<le> 143)"

text \<open>Byte \<open>i\<close> of the source, 0 past its end.\<close>

definition safe_get :: "u8 list \<Rightarrow> nat \<Rightarrow> u8" where
  "safe_get bs i = (if i < length bs then bs ! i else 0)"

text \<open>
  One step at a non-empty input: whether it starts with a well-formed sequence, and how many
  bytes the sequence (or the ill-formed subpart) has.
\<close>

definition utf8_step :: "u8 list \<Rightarrow> bool \<times> nat" where
  "utf8_step bs =
     (let b = safe_get bs 0; c1 = safe_get bs 1; c2 = safe_get bs 2; c3 = safe_get bs 3;
          w = utf8_char_width b
      in if w = 1 then (True, 1)
         else if w = 2 then (if is_cont c1 then (True, 2) else (False, 1))
         else if w = 3 then
           (if \<not> second3_ok b c1 then (False, 1)
            else if \<not> is_cont c2 then (False, 2) else (True, 3))
         else if w = 4 then
           (if \<not> second4_ok b c1 then (False, 1)
            else if \<not> is_cont c2 then (False, 2)
            else if \<not> is_cont c3 then (False, 3) else (True, 4))
         else (False, 1))"

definition replacement_character :: "u8 list" where
  "replacement_character = [239, 191, 189]"

lemma utf8_step_pos [simp]: "0 < snd (utf8_step bs)"
  by (auto simp: utf8_step_def Let_def)

lemma utf8_step_pos' [simp]: "utf8_step bs = (ok, n) \<Longrightarrow> 0 < n" "(ok, n) = utf8_step bs \<Longrightarrow> 0 < n"
  using utf8_step_pos [of bs] by (simp, metis snd_conv)

function lossy_bytes :: "u8 list \<Rightarrow> u8 list" where
  "lossy_bytes bs =
     (if bs = [] then []
      else let (ok, n) = utf8_step bs
           in (if ok then take n bs else replacement_character) @ lossy_bytes (drop n bs))"
  by pat_completeness auto
termination by (relation "measure length") (auto intro!: diff_less)

declare lossy_bytes.simps [simp del]

function valid_utf8 :: "u8 list \<Rightarrow> bool" where
  "valid_utf8 bs =
     (if bs = [] then True
      else if fst (utf8_step bs) then valid_utf8 (drop (snd (utf8_step bs)) bs) else False)"
  by pat_completeness auto
termination by (relation "measure length") (auto intro!: diff_less)

declare valid_utf8.simps [simp del]

text \<open>A Rust \<open>String\<close> is a HOL string of the bytes.\<close>

definition char_of_byte :: "u8 \<Rightarrow> char" where
  "char_of_byte b = char_of (unat b)"

definition from_utf8_lossy :: "u8 list \<Rightarrow> string" where
  "from_utf8_lossy bs = map char_of_byte (lossy_bytes bs)"

definition bytes_of_string :: "string \<Rightarrow> u8 list" where
  "bytes_of_string s = map (\<lambda>c. word_of_nat (of_char c)) s"

lemma lossy_bytes_Nil [simp]: "lossy_bytes [] = []"
  by (simp add: lossy_bytes.simps)

lemma valid_utf8_Nil [simp]: "valid_utf8 []"
  by (simp add: valid_utf8.simps)

lemma lossy_bytes_valid: "valid_utf8 bs \<Longrightarrow> lossy_bytes bs = bs"
proof (induction bs rule: valid_utf8.induct)
  case (1 bs)
  show ?case
  proof (cases "bs = []")
    case False
    obtain ok n where s: "utf8_step bs = (ok, n)" by force
    with False "1.prems" have "ok" "valid_utf8 (drop n bs)"
      by (simp_all add: valid_utf8.simps [of bs] split: if_splits)
    with False "1.IH" s show ?thesis by (simp add: lossy_bytes.simps [of bs])
  qed simp
qed

text \<open>A step looks at no more bytes than it consumes when it succeeds.\<close>

lemma utf8_step_True_le: "utf8_step bs = (True, n) \<Longrightarrow> bs \<noteq> [] \<Longrightarrow> n \<le> length bs"
  by (cases bs)
     (auto simp: utf8_step_def Let_def safe_get_def is_cont_def second3_ok_def second4_ok_def
      Suc_le_eq split: if_splits)

lemma utf8_step_True_cong:
  assumes step: "utf8_step bs = (True, n)" and eq: "\<And>i. i < n \<Longrightarrow> safe_get cs i = safe_get bs i"
  shows "utf8_step cs = (True, n)"
proof -
  have "safe_get cs 0 = safe_get bs 0" using eq [of 0] step by simp
  moreover have "1 < n \<Longrightarrow> safe_get cs 1 = safe_get bs 1"
    and "2 < n \<Longrightarrow> safe_get cs 2 = safe_get bs 2"
    and "3 < n \<Longrightarrow> safe_get cs 3 = safe_get bs 3" by (rule eq, assumption)+
  ultimately show ?thesis
    using step by (simp add: utf8_step_def Let_def split: if_splits)
qed

lemma utf8_step_True_append:
  assumes "utf8_step bs = (True, n)" and "bs \<noteq> []"
  shows "utf8_step (bs @ cs) = (True, n)"
  using assms(1)
  by (rule utf8_step_True_cong)
     (use utf8_step_True_le [OF assms] in \<open>simp add: safe_get_def nth_append\<close>)

lemma utf8_step_take:
  assumes "utf8_step bs = (True, n)" and "bs \<noteq> []"
  shows "utf8_step (take n bs) = (True, n)"
  using assms(1)
  by (rule utf8_step_True_cong)
     (use utf8_step_True_le [OF assms] in \<open>simp add: safe_get_def\<close>)

lemma valid_utf8_append: "valid_utf8 bs \<Longrightarrow> valid_utf8 cs \<Longrightarrow> valid_utf8 (bs @ cs)"
proof (induction bs rule: valid_utf8.induct)
  case (1 bs)
  show ?case
  proof (cases "bs = []")
    case True
    with "1.prems" show ?thesis by simp
  next
    case False
    obtain n where s: "utf8_step bs = (True, n)" and v: "valid_utf8 (drop n bs)"
      using "1.prems" False
      by (cases "utf8_step bs") (simp add: valid_utf8.simps [of bs] split: if_splits)
    have "n \<le> length bs" by (rule utf8_step_True_le [OF s False])
    with "1.IH" False v s "1.prems" have "valid_utf8 (drop n (bs @ cs))" by simp
    with utf8_step_True_append [OF s False, of cs] show ?thesis
      by (simp add: valid_utf8.simps [of "bs @ cs"])
  qed
qed

lemma valid_replacement: "valid_utf8 replacement_character"
  by (simp add: replacement_character_def valid_utf8.simps [of "_ # _"] utf8_step_def
      utf8_char_width_def second3_ok_def is_cont_def safe_get_def)

lemma valid_utf8_lossy: "valid_utf8 (lossy_bytes bs)"
proof (induction bs rule: lossy_bytes.induct)
  case (1 bs)
  show ?case
  proof (cases "bs = []")
    case False
    obtain ok n where s: "utf8_step bs = (ok, n)" by force
    have rest: "valid_utf8 (lossy_bytes (drop n bs))" using "1.IH" False s by simp
    have "valid_utf8 (if ok then take n bs else replacement_character)"
    proof (cases ok)
      case True
      with s have "utf8_step (take n bs) = (True, n)" by (simp add: utf8_step_take False)
      then show ?thesis
        by (auto simp: True valid_utf8.simps [of "take n bs"])
    qed (simp add: valid_replacement)
    with rest s False show ?thesis
      by (simp add: lossy_bytes.simps [of bs] valid_utf8_append)
  qed simp
qed

lemma lossy_bytes_idem: "lossy_bytes (lossy_bytes bs) = lossy_bytes bs"
  by (rule lossy_bytes_valid [OF valid_utf8_lossy])

lemma valid_utf8_ascii: "\<forall>b \<in> set bs. b < 128 \<Longrightarrow> valid_utf8 bs"
  by (induction bs)
     (simp_all add: valid_utf8.simps [of "_ # _"] utf8_step_def utf8_char_width_def safe_get_def)

lemma char_of_byte_inverse: "word_of_nat (of_char (char_of_byte b)) = b"
proof -
  have "unat b < 2 ^ LENGTH(8)" by (rule unsigned_less)
  then show ?thesis by (simp add: char_of_byte_def of_char_of)
qed

lemma char_of_byte_of_char: "char_of_byte (word_of_nat (of_char c)) = c"
  by (simp add: char_of_byte_def unat_of_nat)

lemma bytes_of_from_utf8_lossy: "bytes_of_string (from_utf8_lossy bs) = lossy_bytes bs"
  by (simp add: bytes_of_string_def from_utf8_lossy_def char_of_byte_inverse comp_def)

text \<open>Decoding the bytes of a string that is well-formed UTF-8 gives the string back.\<close>

lemma from_utf8_lossy_bytes_of_string:
  "valid_utf8 (bytes_of_string s) \<Longrightarrow> from_utf8_lossy (bytes_of_string s) = s"
  by (simp add: from_utf8_lossy_def lossy_bytes_valid) 
     (simp add: bytes_of_string_def char_of_byte_of_char comp_def)

lemma length_bytes_of_string [simp]: "length (bytes_of_string s) = length s"
  by (simp add: bytes_of_string_def)

subsection \<open>Character boundaries\<close>

lemma utf8_step_True_width: "utf8_step bs = (True, n) \<Longrightarrow> n = utf8_char_width (safe_get bs 0)"
  by (auto simp: utf8_step_def Let_def split: if_splits)

lemma cont_width: "is_cont b \<Longrightarrow> utf8_char_width b = 0"
  by (auto simp: is_cont_def utf8_char_width_def word_less_nat_alt word_le_nat_alt)

lemma utf8_step_lead: "utf8_step bs = (True, n) \<Longrightarrow> \<not> is_cont (safe_get bs 0)"
  using utf8_step_True_width [of bs n] cont_width [of "safe_get bs 0"] utf8_step_pos [of bs] by auto

lemma second_ok_cont: "second3_ok b c \<Longrightarrow> is_cont c" "second4_ok b c \<Longrightarrow> is_cont c"
  by (auto simp: second3_ok_def second4_ok_def is_cont_def word_le_nat_alt)

lemma utf8_step_tail:
  assumes "utf8_step bs = (True, n)" "0 < k" "k < n"
  shows "is_cont (safe_get bs k)"
proof -
  have "n \<le> 4" using utf8_step_True_width [OF assms(1)] by (simp add: utf8_char_width_def)
  with assms(2,3) have k: "k = 1 \<or> k = 2 \<or> k = 3" by linarith
  have one: "1 < n \<Longrightarrow> is_cont (safe_get bs 1)"
    using assms(1) second_ok_cont [of "safe_get bs 0" "safe_get bs 1"] unfolding utf8_step_def Let_def
    by (simp split: if_split_asm)
  have two: "2 < n \<Longrightarrow> is_cont (safe_get bs 2)" and three: "3 < n \<Longrightarrow> is_cont (safe_get bs 3)"
    using assms(1) unfolding utf8_step_def Let_def by (simp_all split: if_split_asm)
  show ?thesis using k one two three assms(3) by auto
qed

lemma valid_utf8_unfold:
  assumes "valid_utf8 bs" "bs \<noteq> []"
  obtains n where "utf8_step bs = (True, n)" "valid_utf8 (drop n bs)" "0 < n" "n \<le> length bs"
proof (cases "utf8_step bs")
  case (Pair ok n)
  with assms have "ok" "valid_utf8 (drop n bs)" by (simp_all add: valid_utf8.simps [of bs] split: if_splits)
  with Pair utf8_step_True_le [of bs n] assms that show thesis by simp
qed

text \<open>What follows a boundary of a well-formed text is well-formed.\<close>

lemma valid_utf8_drop:
  "valid_utf8 bs \<Longrightarrow> k < length bs \<Longrightarrow> \<not> is_cont (bs ! k) \<Longrightarrow> valid_utf8 (drop k bs)"
proof (induction bs arbitrary: k rule: valid_utf8.induct)
  case (1 bs)
  then have "bs \<noteq> []" by auto
  then obtain n where n: "utf8_step bs = (True, n)" "valid_utf8 (drop n bs)" "0 < n" "n \<le> length bs"
    using "1.prems"(1) valid_utf8_unfold by blast
  show ?case
  proof (cases "n \<le> k")
    case True
    with n "1.IH" [of "k - n"] "1.prems" \<open>bs \<noteq> []\<close> show ?thesis by simp
  next
    case False
    with utf8_step_tail [OF n(1)] "1.prems" n have "k = 0" by (cases "k = 0") (auto simp: safe_get_def)
    with "1.prems" show ?thesis by simp
  qed
qed

text \<open>A text that ends in the middle of a character is not well-formed, whatever it starts with.\<close>

lemma cut_character_invalid:
  assumes "valid_utf8 s" "0 < k" "k < length s" "is_cont (s ! k)"
  shows "\<not> valid_utf8 (y @ take k s)"
  using assms
proof (induction s arbitrary: k y rule: valid_utf8.induct)
  case (1 s)
  then have s: "s \<noteq> []" by auto
  then obtain n where n: "utf8_step s = (True, n)" "valid_utf8 (drop n s)" "0 < n" "n \<le> length s"
    using "1.prems"(1) valid_utf8_unfold by blast
  consider "k < n" | "k = n" | "n < k" by linarith
  then show ?case
  proof cases
    case 1
    show ?thesis
    proof
      assume v: "valid_utf8 (y @ take k s)"
      have hd: "(y @ take k s) ! length y = safe_get s 0"
        using "1.prems"(2,3) s by (simp add: nth_append safe_get_def)
      then have "valid_utf8 (take k s)"
        using valid_utf8_drop [OF v, of "length y"] utf8_step_lead [OF n(1)] "1.prems"(2,3) s by simp
      moreover have "take k s \<noteq> []" using "1.prems"(2,3) s by simp
      ultimately obtain m where m: "utf8_step (take k s) = (True, m)" "m \<le> length (take k s)"
        by (blast elim: valid_utf8_unfold)
      have "m = n"
        using utf8_step_True_width [OF m(1)] utf8_step_True_width [OF n(1)] "1.prems"(2,3) s
        by (simp add: safe_get_def)
      with m(2) \<open>k < n\<close> show False by simp
    qed
  next
    case 2
    with n(2) "1.prems"(3,4) have "utf8_step (drop n s) = (True, m) \<Longrightarrow> False" for m
      using utf8_step_lead [of "drop n s" m] by (simp add: safe_get_def)
    moreover have "drop n s \<noteq> []" using 2 "1.prems"(3) by simp
    ultimately show ?thesis using n(2) by (blast elim: valid_utf8_unfold)
  next
    case 3
    then have "take k s = take n s @ take (k - n) (drop n s)" by (metis le_add_diff_inverse less_imp_le take_add)
    with "1.IH" [of "k - n" "y @ take n s"] s n 3 "1.prems" show ?thesis by simp
  qed
qed

end
