(* ===== verification/Event_Headers.thy ===== *)
theory Event_Headers
  imports Utf8
begin

text \<open>
  The header block of an AWS event-stream message (\<open>src/kiro/parser/error.rs\<close> and
  \<open>src/kiro/parser/header.rs\<close>): the error type of the parser, the ten header value types,
  \<open>parse_header_value\<close> and the loop of \<open>parse_headers\<close>.  The lemmas: the parser never
  panics, every successful value lies inside its input, and parsing inverts the encoding of
  any list of well-formed headers (a later header of the same name wins).

  Message texts of errors are named constructors (\<open>header_failure\<close>, \<open>error_text\<close>).  Signed
  header values are kept as words in two's complement.
\<close>

subsection \<open>Errors (error.rs)\<close>

datatype header_failure = HeaderLengthOutOfBounds | EmptyHeaderName

datatype parse_error =
    Incomplete nat nat
  | PreludeCrcMismatch u32 u32
  | MessageCrcMismatch u32 u32
  | InvalidHeaderType u8
  | HeaderParseFailed header_failure
  | MessageTooLarge u32 u32
  | MessageTooSmall u32 u32
  | InvalidMessageType string
  | PayloadDeserialize string
  | Io string
  | TooManyErrors nat error_text
  | BufferOverflow nat nat
and error_text = DecoderStopped | Rendered parse_error

type_synonym 'a parse_result = "(parse_error, 'a) outcome"

subsection \<open>Header values (header.rs)\<close>

datatype header_value_type =
    T_BoolTrue | T_BoolFalse | T_Byte | T_Short | T_Integer | T_Long | T_ByteArray | T_String
  | T_Timestamp | T_Uuid

definition header_value_type_try_from :: "u8 \<Rightarrow> header_value_type parse_result" where
  "header_value_type_try_from v =
     (if v = 0 then Ok T_BoolTrue else if v = 1 then Ok T_BoolFalse
      else if v = 2 then Ok T_Byte else if v = 3 then Ok T_Short
      else if v = 4 then Ok T_Integer else if v = 5 then Ok T_Long
      else if v = 6 then Ok T_ByteArray else if v = 7 then Ok T_String
      else if v = 8 then Ok T_Timestamp else if v = 9 then Ok T_Uuid
      else Err (InvalidHeaderType v))"

datatype header_value =
    HV_Bool bool | HV_Byte "8 word" | HV_Short "16 word" | HV_Integer "32 word"
  | HV_Long "64 word" | HV_ByteArray "u8 list" | HV_String string | HV_Timestamp "64 word"
  | HV_Uuid "u8 list"

fun as_str :: "header_value \<Rightarrow> string option" where
  "as_str (HV_String s) = Some s"
| "as_str _ = None"

type_synonym headers = "string \<rightharpoonup> header_value"

definition headers_new :: headers where
  "headers_new = Map.empty"

definition headers_insert :: "string \<Rightarrow> header_value \<Rightarrow> headers \<Rightarrow> headers" where
  "headers_insert name v hs = hs(name \<mapsto> v)"

definition headers_get :: "headers \<Rightarrow> string \<Rightarrow> header_value option" where
  "headers_get hs name = hs name"

definition get_string :: "headers \<Rightarrow> string \<Rightarrow> string option" where
  "get_string hs name = Option.bind (headers_get hs name) as_str"

definition message_type :: "headers \<Rightarrow> string option" where
  "message_type hs = get_string hs '':message-type''"

definition event_type :: "headers \<Rightarrow> string option" where
  "event_type hs = get_string hs '':event-type''"

definition exception_type :: "headers \<Rightarrow> string option" where
  "exception_type hs = get_string hs '':exception-type''"

definition error_code :: "headers \<Rightarrow> string option" where
  "error_code hs = get_string hs '':error-code''"

definition ensure_bytes :: "u8 list \<Rightarrow> nat \<Rightarrow> unit parse_result" where
  "ensure_bytes data needed =
     (if length data < needed then Err (Incomplete needed (length data)) else Ok ())"

text \<open>
  The value and the advanced global offset.  \<open>[data[0], \<dots>, data[n - 1]]\<close> is the slice of the
  first \<open>n\<close> bytes.
\<close>

definition parse_header_value ::
    "u8 list \<Rightarrow> header_value_type \<Rightarrow> nat \<Rightarrow> (header_value \<times> nat) parse_result" where
  "parse_header_value data value_type global_offset =
     (case value_type of
        T_BoolTrue \<Rightarrow> Ok (HV_Bool True, global_offset)
      | T_BoolFalse \<Rightarrow> Ok (HV_Bool False, global_offset)
      | T_Byte \<Rightarrow>
          obind (ensure_bytes data 1) (\<lambda>_. obind (idx data 0) (\<lambda>b.
            Ok (HV_Byte b, global_offset + 1)))
      | T_Short \<Rightarrow>
          obind (ensure_bytes data 2) (\<lambda>_. obind (slc data 0 2) (\<lambda>bs.
            Ok (HV_Short (from_be_bytes bs), global_offset + 2)))
      | T_Integer \<Rightarrow>
          obind (ensure_bytes data 4) (\<lambda>_. obind (slc data 0 4) (\<lambda>bs.
            Ok (HV_Integer (from_be_bytes bs), global_offset + 4)))
      | T_Long \<Rightarrow>
          obind (ensure_bytes data 8) (\<lambda>_. obind (slc data 0 8) (\<lambda>bs.
            Ok (HV_Long (from_be_bytes bs), global_offset + 8)))
      | T_Timestamp \<Rightarrow>
          obind (ensure_bytes data 8) (\<lambda>_. obind (slc data 0 8) (\<lambda>bs.
            Ok (HV_Timestamp (from_be_bytes bs), global_offset + 8)))
      | T_ByteArray \<Rightarrow>
          obind (ensure_bytes data 2) (\<lambda>_. obind (slc data 0 2) (\<lambda>lb.
            let len = unat (from_be_bytes lb :: u16) in
            obind (ensure_bytes data (2 + len)) (\<lambda>_. obind (slc data 2 (2 + len)) (\<lambda>v.
              Ok (HV_ByteArray v, global_offset + (2 + len))))))
      | T_String \<Rightarrow>
          obind (ensure_bytes data 2) (\<lambda>_. obind (slc data 0 2) (\<lambda>lb.
            let len = unat (from_be_bytes lb :: u16) in
            obind (ensure_bytes data (2 + len)) (\<lambda>_. obind (slc data 2 (2 + len)) (\<lambda>v.
              Ok (HV_String (from_utf8_lossy v), global_offset + (2 + len))))))
      | T_Uuid \<Rightarrow>
          obind (ensure_bytes data 16) (\<lambda>_. obind (slc data 0 16) (\<lambda>v.
            Ok (HV_Uuid v, global_offset + 16))))"

lemma parse_header_value_offset:
  "parse_header_value data vt off = Ok (v, off') \<Longrightarrow> off \<le> off' \<and> off' \<le> off + length data"
  by (cases vt)
     (auto simp: parse_header_value_def obind_conv ensure_bytes_def Let_def Suc_le_eq
        split: if_splits)

function parse_headers_loop ::
    "u8 list \<Rightarrow> nat \<Rightarrow> nat \<Rightarrow> headers \<Rightarrow> headers parse_result" where
  "parse_headers_loop data header_length off hs =
     (if \<not> off < header_length then Ok hs
      else if length data \<le> off then Ok hs
      else obind (idx data off) (\<lambda>b.
        let name_len = unat b; off1 = off + 1 in
        if name_len = 0 then Err (HeaderParseFailed EmptyHeaderName)
        else if length data < off1 + name_len
          then Err (Incomplete name_len (length data - off1))
        else obind (slc data off1 (off1 + name_len)) (\<lambda>nb.
          let name = from_utf8_lossy nb; off2 = off1 + name_len in
          if length data \<le> off2 then Err (Incomplete 1 0)
          else obind (idx data off2) (\<lambda>tb.
            obind (header_value_type_try_from tb) (\<lambda>value_type.
              let off3 = off2 + 1 in
              obind (slc data off3 (length data)) (\<lambda>rest.
                obind (parse_header_value rest value_type off3) (\<lambda>(v, off4).
                  parse_headers_loop data header_length off4 (headers_insert name v hs))))))))"
  by pat_completeness auto
termination
  by (relation "measure (\<lambda>(data, header_length, off, hs). header_length - off)")
     (auto dest!: parse_header_value_offset)

declare parse_headers_loop.simps [simp del]

definition parse_headers :: "u8 list \<Rightarrow> nat \<Rightarrow> headers parse_result" where
  "parse_headers data header_length =
     (if length data < header_length then Err (Incomplete header_length (length data))
      else parse_headers_loop data header_length 0 headers_new)"

subsection \<open>No panic\<close>

lemma ensure_bytes_Ok [simp]: "ensure_bytes data n = Ok u \<longleftrightarrow> n \<le> length data"
  by (auto simp: ensure_bytes_def)

lemma ensure_bytes_le [simp]: "n \<le> length data \<Longrightarrow> ensure_bytes data n = Ok ()"
  by (simp add: ensure_bytes_def)

lemma ensure_bytes_no_panic [no_panic]: "ensure_bytes data n \<noteq> Panic"
  by (simp add: ensure_bytes_def)

lemma header_value_type_no_panic [no_panic]: "header_value_type_try_from b \<noteq> Panic"
  by (simp add: header_value_type_try_from_def)

lemma parse_header_value_no_panic [no_panic]: "parse_header_value data vt off \<noteq> Panic"
  by (cases vt) (auto simp: parse_header_value_def Let_def obind_conv no_panic Suc_le_eq)

lemma parse_headers_loop_no_panic [no_panic]: "parse_headers_loop data hl off hs \<noteq> Panic"
proof (induction data hl off hs rule: parse_headers_loop.induct)
  case (1 data hl off hs)
  then show ?case
    by (subst parse_headers_loop.simps) (auto simp: Let_def obind_conv no_panic)
qed

lemma parse_headers_no_panic [no_panic]: "parse_headers data hl \<noteq> Panic"
  by (simp add: parse_headers_def no_panic)

subsection \<open>Encoding and round trip\<close>

text \<open>
  The wire form of a header: name length, name, type byte, value.  The encoder is the
  specification the parser is checked against (the repository's tests build frames with it,
  for string headers).
\<close>

fun value_type_of :: "header_value \<Rightarrow> header_value_type" where
  "value_type_of (HV_Bool b) = (if b then T_BoolTrue else T_BoolFalse)"
| "value_type_of (HV_Byte _) = T_Byte"
| "value_type_of (HV_Short _) = T_Short"
| "value_type_of (HV_Integer _) = T_Integer"
| "value_type_of (HV_Long _) = T_Long"
| "value_type_of (HV_ByteArray _) = T_ByteArray"
| "value_type_of (HV_String _) = T_String"
| "value_type_of (HV_Timestamp _) = T_Timestamp"
| "value_type_of (HV_Uuid _) = T_Uuid"

fun type_code :: "header_value_type \<Rightarrow> u8" where
  "type_code T_BoolTrue = 0"
| "type_code T_BoolFalse = 1"
| "type_code T_Byte = 2"
| "type_code T_Short = 3"
| "type_code T_Integer = 4"
| "type_code T_Long = 5"
| "type_code T_ByteArray = 6"
| "type_code T_String = 7"
| "type_code T_Timestamp = 8"
| "type_code T_Uuid = 9"

fun encode_value :: "header_value \<Rightarrow> u8 list" where
  "encode_value (HV_Bool b) = []"
| "encode_value (HV_Byte b) = [b]"
| "encode_value (HV_Short w) = be_bytes 2 (unat w)"
| "encode_value (HV_Integer w) = be_bytes 4 (unat w)"
| "encode_value (HV_Long w) = be_bytes 8 (unat w)"
| "encode_value (HV_ByteArray bs) = be_bytes 2 (length bs) @ bs"
| "encode_value (HV_String t) = be_bytes 2 (length t) @ bytes_of_string t"
| "encode_value (HV_Timestamp w) = be_bytes 8 (unat w)"
| "encode_value (HV_Uuid bs) = bs"

definition encode_header :: "string \<times> header_value \<Rightarrow> u8 list" where
  "encode_header h =
     word_of_nat (length (fst h)) # bytes_of_string (fst h) @
     type_code (value_type_of (snd h)) # encode_value (snd h)"

definition encode_headers :: "(string \<times> header_value) list \<Rightarrow> u8 list" where
  "encode_headers hs = concat (map encode_header hs)"

fun wf_value :: "header_value \<Rightarrow> bool" where
  "wf_value (HV_ByteArray bs) = (length bs < 65536)"
| "wf_value (HV_String t) = (length t < 65536 \<and> valid_utf8 (bytes_of_string t))"
| "wf_value (HV_Uuid bs) = (length bs = 16)"
| "wf_value _ = True"

definition wf_header :: "string \<times> header_value \<Rightarrow> bool" where
  "wf_header h \<longleftrightarrow> 1 \<le> length (fst h) \<and> length (fst h) \<le> 255 \<and>
     valid_utf8 (bytes_of_string (fst h)) \<and> wf_value (snd h)"

definition headers_of :: "(string \<times> header_value) list \<Rightarrow> headers" where
  "headers_of hs = fold (\<lambda>(n, v). headers_insert n v) hs headers_new"

lemma try_from_type_code [simp]: "header_value_type_try_from (type_code t) = Ok t"
  by (cases t) (simp_all add: header_value_type_try_from_def)

lemma from_be_bytes_unat:
  fixes w :: "'a::len word"
  assumes "LENGTH('a) = 8 * n"
  shows "from_be_bytes (be_bytes n (unat w)) = w"
proof -
  have "unat w < 2 ^ LENGTH('a)" by (rule unsigned_less)
  with assms have "unat w < 256 ^ n" by (simp add: power_mult)
  then show ?thesis by (simp add: from_be_bytes_def)
qed

lemma parse_encoded_value:
  "wf_value v \<Longrightarrow>
   parse_header_value (encode_value v @ rest) (value_type_of v) off =
     Ok (v, off + length (encode_value v))"
  by (cases v)
     (simp_all add: parse_header_value_def from_be_bytes_unat unat_from_be_bytes2
        from_utf8_lossy_bytes_of_string)

lemma encode_header_nonempty [simp]: "encode_header h \<noteq> []"
  by (simp add: encode_header_def)

lemma parse_headers_loop_step:
  assumes wf: "wf_header h" and hl: "length pre < hl"
  shows "parse_headers_loop (pre @ encode_header h @ post) hl (length pre) m =
         parse_headers_loop (pre @ encode_header h @ post) hl
           (length pre + length (encode_header h)) (headers_insert (fst h) (snd h) m)"
proof -
  obtain n v where h: "h = (n, v)" by force
  let ?nb = "bytes_of_string n"
  have len: "unat (word_of_nat (length n) :: u8) = length n"
    using wf by (simp add: wf_header_def h unat_of_nat)
  have name: "from_utf8_lossy ?nb = n"
    using wf by (simp add: wf_header_def h from_utf8_lossy_bytes_of_string)
  have val: "parse_header_value (encode_value v @ post) (value_type_of v) off =
      Ok (v, off + length (encode_value v))" for off
    using wf by (simp add: wf_header_def h parse_encoded_value)
  have "n \<noteq> []" using wf by (auto simp: wf_header_def h)
  then show ?thesis using hl
    by (subst parse_headers_loop.simps)
       (simp add: encode_header_def h len name val nth_append Let_def add.assoc)
qed

lemma parse_headers_loop_encoded:
  assumes "list_all wf_header hs"
  shows "parse_headers_loop (pre @ encode_headers hs) (length pre + length (encode_headers hs))
           (length pre) m = Ok (fold (\<lambda>(n, v). headers_insert n v) hs m)"
  using assms
proof (induction hs arbitrary: pre m)
  case Nil
  then show ?case by (simp add: encode_headers_def parse_headers_loop.simps)
next
  case (Cons h hs)
  let ?hl = "length pre + length (encode_headers (h # hs))"
  have enc: "encode_headers (h # hs) = encode_header h @ encode_headers hs"
    by (simp add: encode_headers_def)
  have "parse_headers_loop (pre @ encode_headers (h # hs)) ?hl (length pre) m =
      parse_headers_loop (pre @ encode_header h @ encode_headers hs) ?hl
        (length pre + length (encode_header h)) (headers_insert (fst h) (snd h) m)"
    unfolding enc using Cons.prems by (intro parse_headers_loop_step) auto
  also have "\<dots> = Ok (fold (\<lambda>(n, v). headers_insert n v) hs (headers_insert (fst h) (snd h) m))"
    using Cons.IH [of "pre @ encode_header h"] Cons.prems by (simp add: enc add.assoc)
  finally show ?case by (cases h) simp
qed

lemma parse_encoded_headers:
  "list_all wf_header hs \<Longrightarrow>
   parse_headers (encode_headers hs) (length (encode_headers hs)) = Ok (headers_of hs)"
  using parse_headers_loop_encoded [of hs "[]" headers_new]
  by (simp add: parse_headers_def headers_of_def)

lemma headers_of_eq: "headers_of hs = map_of (rev hs)"
  by (induction hs rule: rev_induct)
     (auto simp: headers_of_def headers_insert_def headers_new_def)

end
