(* ===== verification/Event_Frame.thy ===== *)
theory Event_Frame
  imports Event_Headers
begin

text \<open>
  One event-stream message (\<open>src/kiro/parser/crc.rs\<close> and \<open>src/kiro/parser/frame.rs\<close>).  The
  CRC-32 implementation of the \<open>crc\<close> crate is the parameter \<open>checksum\<close> of every definition;
  no law of it is needed.  \<open>parse_frame\<close> never panics; a frame it returns lies inside the
  buffer and inside the size limits; its answer does not change when more bytes arrive
  (locale \<open>prefix_parser\<close>), which is what a streaming decoder relies on; and it inverts the
  encoding of any message with well-formed headers.
\<close>

subsection \<open>Model\<close>

definition crc32 :: "(u8 list \<Rightarrow> u32) \<Rightarrow> u8 list \<Rightarrow> u32" where
  "crc32 checksum data = checksum data"

definition PRELUDE_SIZE :: nat where "PRELUDE_SIZE = 12"
definition MIN_MESSAGE_SIZE :: nat where "MIN_MESSAGE_SIZE = PRELUDE_SIZE + 4"
definition MAX_MESSAGE_SIZE :: u32 where "MAX_MESSAGE_SIZE = 16 * 1024 * 1024"

record frame =
  frame_headers :: headers
  frame_payload :: "u8 list"

definition frame_message_type :: "frame \<Rightarrow> string option" where
  "frame_message_type f = message_type (frame_headers f)"

definition frame_event_type :: "frame \<Rightarrow> string option" where
  "frame_event_type f = event_type (frame_headers f)"

definition payload_as_str :: "frame \<Rightarrow> string" where
  "payload_as_str f = from_utf8_lossy (frame_payload f)"

definition parse_frame ::
    "(u8 list \<Rightarrow> u32) \<Rightarrow> u8 list \<Rightarrow> (frame \<times> nat) option parse_result" where
  "parse_frame checksum buffer =
     (if length buffer < PRELUDE_SIZE then Ok None
      else
        obind (slc buffer 0 4) (\<lambda>tl.
        obind (slc buffer 4 8) (\<lambda>hl.
        obind (slc buffer 8 12) (\<lambda>pc.
        let total_length = from_be_bytes tl :: u32;
            header_length = from_be_bytes hl :: u32;
            prelude_crc = from_be_bytes pc :: u32 in
        if total_length < word_of_nat MIN_MESSAGE_SIZE
        then Err (MessageTooSmall total_length (word_of_nat MIN_MESSAGE_SIZE))
        else if MAX_MESSAGE_SIZE < total_length
        then Err (MessageTooLarge total_length MAX_MESSAGE_SIZE)
        else
          let total_length = unat total_length; header_length = unat header_length in
          if length buffer < total_length then Ok None
          else
            obind (slc buffer 0 8) (\<lambda>prelude.
            let actual_prelude_crc = crc32 checksum prelude in
            if actual_prelude_crc \<noteq> prelude_crc
            then Err (PreludeCrcMismatch prelude_crc actual_prelude_crc)
            else
              obind (slc buffer (total_length - 4) total_length) (\<lambda>mc.
              obind (slc buffer 0 (total_length - 4)) (\<lambda>message.
              let message_crc = from_be_bytes mc :: u32;
                  actual_message_crc = crc32 checksum message in
              if actual_message_crc \<noteq> message_crc
              then Err (MessageCrcMismatch message_crc actual_message_crc)
              else
                let headers_start = PRELUDE_SIZE;
                    headers_end = headers_start + header_length in
                if total_length - 4 < headers_end
                then Err (HeaderParseFailed HeaderLengthOutOfBounds)
                else
                  obind (slc buffer headers_start headers_end) (\<lambda>hb.
                  obind (parse_headers hb header_length) (\<lambda>hs.
                  obind (slc buffer headers_end (total_length - 4)) (\<lambda>payload.
                    Ok (Some (\<lparr>frame_headers = hs, frame_payload = payload\<rparr>,
                              total_length))))))))))))"

subsection \<open>Safety and bounds\<close>

lemmas frame_consts = PRELUDE_SIZE_def MIN_MESSAGE_SIZE_def MAX_MESSAGE_SIZE_def

lemma total_length_ge_min:
  "\<not> (w :: u32) < word_of_nat MIN_MESSAGE_SIZE \<Longrightarrow> 16 \<le> unat w"
  by (simp add: frame_consts word_less_nat_alt)

lemma total_length_le_max: "\<not> MAX_MESSAGE_SIZE < (w :: u32) \<Longrightarrow> unat w \<le> 16777216"
  by (simp add: frame_consts word_less_nat_alt)

lemma parse_frame_no_panic [no_panic]: "parse_frame checksum buffer \<noteq> Panic"
  by (auto simp: parse_frame_def Let_def obind_conv no_panic PRELUDE_SIZE_def
      dest!: total_length_ge_min)

text \<open>What a returned frame is: the message at the front of the buffer.\<close>

lemma parse_frame_SomeD:
  assumes "parse_frame checksum buffer = Ok (Some (f, n))"
  shows "16 \<le> n \<and> n \<le> 16777216 \<and> n \<le> length buffer \<and>
    n = be_nat (take 4 buffer) \<and>
    (\<exists>hl. 12 + hl \<le> n - 4 \<and> hl = be_nat (take 4 (drop 4 buffer)) \<and>
       parse_headers (take hl (drop 12 buffer)) hl = Ok (frame_headers f) \<and>
       frame_payload f = take (n - 16 - hl) (drop (12 + hl) buffer))"
  using assms
  by (auto simp: parse_frame_def Let_def obind_conv PRELUDE_SIZE_def unat_from_be_bytes4
      dest!: total_length_ge_min total_length_le_max split: if_splits)

text \<open>More bytes behind the ones that decided an answer do not change it.\<close>

lemma parse_frame_append:
  assumes "parse_frame checksum buffer \<noteq> Ok None"
  shows "parse_frame checksum (buffer @ later) = parse_frame checksum buffer"
proof -
  let ?w = "from_be_bytes (take 4 buffer) :: u32"
  have len: "12 \<le> length buffer"
    using assms by (simp add: parse_frame_def PRELUDE_SIZE_def split: if_splits)
  consider (small) "?w < word_of_nat MIN_MESSAGE_SIZE"
    | (large) "\<not> ?w < word_of_nat MIN_MESSAGE_SIZE" "MAX_MESSAGE_SIZE < ?w"
    | (whole) "\<not> ?w < word_of_nat MIN_MESSAGE_SIZE" "\<not> MAX_MESSAGE_SIZE < ?w"
        "unat ?w \<le> length buffer"
    using assms len by (fastforce simp: parse_frame_def PRELUDE_SIZE_def Let_def)
  then show ?thesis
  proof cases
    case whole
    then have "16 \<le> unat ?w" by (simp add: total_length_ge_min)
    with whole len show ?thesis
      by (simp add: parse_frame_def PRELUDE_SIZE_def Let_def cong: if_cong)
  qed (use len in \<open>simp_all add: parse_frame_def PRELUDE_SIZE_def Let_def\<close>)
qed

subsection \<open>The interface a streaming decoder relies on\<close>

text \<open>
  A parser of one message at the front of a growing buffer: it never panics, what it consumes
  lies inside the buffer, and once it has answered with a message or an error, later bytes do
  not change the answer.
\<close>

locale prefix_parser =
  fixes parse :: "'b list \<Rightarrow> ('e, ('f \<times> nat) option) outcome"
  assumes total: "parse buf \<noteq> Panic"
    and consumed: "parse buf = Ok (Some (f, n)) \<Longrightarrow> 0 < n \<and> n \<le> length buf"
    and settled: "parse buf \<noteq> Ok None \<Longrightarrow> parse (buf @ later) = parse buf"
begin

lemma settled_frame: "parse buf = Ok (Some (f, n)) \<Longrightarrow> parse (buf @ later) = Ok (Some (f, n))"
  by (simp add: settled)

text \<open>A proper prefix of one message is incomplete: it is neither a message nor an error.\<close>

lemma proper_prefix_incomplete:
  assumes msg: "parse m = Ok (Some (f, length m))" and m: "m = p @ q" and q: "q \<noteq> []"
  shows "parse p = Ok None"
proof (rule ccontr)
  assume "parse p \<noteq> Ok None"
  then have "parse p = parse m" using settled [of p q] by (simp add: m)
  with msg have "parse p = Ok (Some (f, length m))" by simp
  then have "length m \<le> length p" by (simp add: consumed)
  with m q show False by simp
qed

text \<open>A buffer that starts with one message parses to exactly that message.\<close>

lemma message_at_front:
  "parse m = Ok (Some (f, length m)) \<Longrightarrow>
   parse (m @ rest) = Ok (Some (f, length m)) \<and> drop (length m) (m @ rest) = rest"
  by (simp add: settled_frame)

text \<open>
  Cutting a sequence of messages anywhere leaves whole messages and a rest that is empty or a
  proper prefix of the next message, on which the parser waits.
\<close>

lemma split_messages:
  assumes "\<forall>(m, f) \<in> set ms. parse m = Ok (Some (f, length m))"
    and "x @ y = concat (map fst ms)"
  shows "\<exists>ms1 ms2 p. ms = ms1 @ ms2 \<and> x = concat (map fst ms1) @ p \<and>
    p @ y = concat (map fst ms2) \<and>
    (p = [] \<or> parse p = Ok None \<and> (\<exists>m \<in> fst ` set ms. length p < length m))"
  using assms
proof (induction ms arbitrary: x)
  case Nil
  then show ?case by simp
next
  case (Cons mf ms)
  obtain m f where mf: "mf = (m, f)" by (cases mf)
  from Cons.prems have m: "parse m = Ok (Some (f, length m))"
    and xy: "x @ y = m @ concat (map fst ms)" by (auto simp: mf)
  show ?case
  proof (cases "length m \<le> length x")
    case True
    with xy obtain x' where x: "x = m @ x'" and x': "x' @ y = concat (map fst ms)"
      by (auto simp: append_eq_append_conv2)
    have "\<forall>(m, f) \<in> set ms. parse m = Ok (Some (f, length m))" using Cons.prems(1) by simp
    from Cons.IH [OF this x']
    obtain ms1 ms2 p where ms: "ms = ms1 @ ms2" "x' = concat (map fst ms1) @ p"
      "p @ y = concat (map fst ms2)"
      "p = [] \<or> parse p = Ok None \<and> (\<exists>m \<in> fst ` set ms. length p < length m)"
      by blast
    then show ?thesis
      by (intro exI [of _ "mf # ms1"] exI [of _ ms2] exI [of _ p]) (auto simp: x mf)
  next
    case False
    with xy obtain z where z: "m = x @ z" "z \<noteq> []"
      by (auto simp: append_eq_append_conv2)
    with m have "parse x = Ok None" by (rule proper_prefix_incomplete)
    moreover have "length x < length m" using False by simp
    ultimately show ?thesis
      using xy by (intro exI [of _ "[]"] exI [of _ "mf # ms"] exI [of _ x]) (auto simp: mf)
  qed
qed

end

interpretation pf: prefix_parser "parse_frame checksum" for checksum
proof
  show "0 < n \<and> n \<le> length buf" if "parse_frame checksum buf = Ok (Some (f, n))" for buf f n
    using parse_frame_SomeD [OF that] by simp
qed (simp_all add: no_panic parse_frame_append)

subsection \<open>Encoding and round trip\<close>

definition encode_frame ::
    "(u8 list \<Rightarrow> u32) \<Rightarrow> (string \<times> header_value) list \<Rightarrow> u8 list \<Rightarrow> u8 list" where
  "encode_frame checksum hs payload =
     (let hb = encode_headers hs;
          prelude = be_bytes 4 (16 + length hb + length payload) @ be_bytes 4 (length hb);
          body = prelude @ be_bytes 4 (unat (crc32 checksum prelude)) @ hb @ payload
      in body @ be_bytes 4 (unat (crc32 checksum body)))"

lemma length_encode_frame:
  "length (encode_frame checksum hs payload) = 16 + length (encode_headers hs) + length payload"
  by (simp add: encode_frame_def Let_def)

lemma from_be_bytes_u32 [simp]: "from_be_bytes (be_bytes 4 (unat (w :: u32))) = w"
  by (simp add: from_be_bytes_unat)

lemma unat_from_be_bytes_be4 [simp]:
  "k < 4294967296 \<Longrightarrow> unat (from_be_bytes (be_bytes 4 k) :: u32) = k"
  by (simp add: unat_from_be_bytes4)

lemma parse_frame_encoded:
  assumes wf: "list_all wf_header hs"
    and size: "16 + length (encode_headers hs) + length payload \<le> 16777216"
  shows "parse_frame checksum (encode_frame checksum hs payload) =
    Ok (Some (\<lparr>frame_headers = headers_of hs, frame_payload = payload\<rparr>,
              length (encode_frame checksum hs payload)))"
proof -
  let ?hb = "encode_headers hs"
  let ?n = "16 + length ?hb + length payload"
  let ?w = "from_be_bytes (be_bytes 4 ?n) :: u32"
  have w: "unat ?w = ?n" using size by simp
  have lo: "\<not> ?w < word_of_nat MIN_MESSAGE_SIZE" and hi: "\<not> MAX_MESSAGE_SIZE < ?w"
    using size by (simp_all add: frame_consts word_less_nat_alt w)
  have h: "unat (from_be_bytes (be_bytes 4 (length ?hb)) :: u32) = length ?hb"
    using size by simp
  show ?thesis
    unfolding length_encode_frame
    by (simp add: parse_frame_def encode_frame_def Let_def PRELUDE_SIZE_def w lo hi h
        parse_encoded_headers [OF wf])
qed

end
