(* ===== verification/Event_Decoder.thy ===== *)
theory Event_Decoder
  imports Event_Frame
begin

text \<open>
  The streaming decoder (\<open>src/kiro/parser/decoder.rs\<close>): its four-state machine, \<open>feed\<close>,
  \<open>decode\<close>, the recovery after a parse error and the decoding iterator, with the loop the
  response handlers run on every chunk of the upstream body (\<open>feed\<close>, then drain
  \<open>decode_iter\<close>).  Log output is not modelled.

  The lemmas: no operation panics (\<open>buffer[0]\<close>, \<open>Buf::advance\<close>); reachable decoders satisfy
  \<open>decoder_inv\<close>; an error always makes progress; no byte is lost or invented; a damaged
  message is skipped exactly; and a stream of encoded messages decodes to those messages
  whatever the chunk boundaries are.
\<close>

subsection \<open>Model\<close>

definition DEFAULT_MAX_BUFFER_SIZE :: nat where "DEFAULT_MAX_BUFFER_SIZE = 16 * 1024 * 1024"
definition DEFAULT_MAX_ERRORS :: nat where "DEFAULT_MAX_ERRORS = 5"

datatype decoder_state = Ready | Parsing | Recovering | Stopped

record event_stream_decoder =
  dec_buffer :: "u8 list"
  dec_state :: decoder_state
  frames_decoded :: nat
  error_count :: nat
  max_errors :: nat
  max_buffer_size :: nat
  bytes_skipped :: nat

definition decoder_new :: event_stream_decoder where
  "decoder_new = \<lparr>dec_buffer = [], dec_state = Ready, frames_decoded = 0, error_count = 0,
     max_errors = DEFAULT_MAX_ERRORS, max_buffer_size = DEFAULT_MAX_BUFFER_SIZE,
     bytes_skipped = 0\<rparr>"

definition feed ::
    "event_stream_decoder \<Rightarrow> u8 list \<Rightarrow> unit parse_result \<times> event_stream_decoder" where
  "feed d data =
     (let new_size = length (dec_buffer d) + length data in
      if max_buffer_size d < new_size
      then (Err (BufferOverflow new_size (max_buffer_size d)), d)
      else
        let d = d\<lparr>dec_buffer := dec_buffer d @ data\<rparr>;
            d = (if dec_state d = Recovering then d\<lparr>dec_state := Ready\<rparr> else d)
        in (Ok (), d))"

text \<open>\<open>Buf::advance\<close> panics when it is asked to go past the end.\<close>

definition buf_advance :: "nat \<Rightarrow> event_stream_decoder \<Rightarrow> event_stream_decoder parse_result" where
  "buf_advance n d =
     (if n \<le> length (dec_buffer d) then Ok (d\<lparr>dec_buffer := drop n (dec_buffer d)\<rparr>) else Panic)"

definition skip_byte :: "event_stream_decoder \<Rightarrow> event_stream_decoder parse_result" where
  "skip_byte d =
     obind (idx (dec_buffer d) 0) (\<lambda>_. obind (buf_advance 1 d) (\<lambda>d.
       Ok (d\<lparr>bytes_skipped := bytes_skipped d + 1\<rparr>)))"

definition skip_frame :: "event_stream_decoder \<Rightarrow> event_stream_decoder parse_result" where
  "skip_frame d =
     (if PRELUDE_SIZE \<le> length (dec_buffer d) then
        obind (slc (dec_buffer d) 0 4) (\<lambda>tl.
          let total_length = unat (from_be_bytes tl :: u32) in
          if 16 \<le> total_length \<and> total_length \<le> length (dec_buffer d) then
            obind (buf_advance total_length d) (\<lambda>d.
              Ok (d\<lparr>bytes_skipped := bytes_skipped d + total_length\<rparr>))
          else skip_byte d)
      else skip_byte d)"

definition try_recover ::
    "parse_error \<Rightarrow> event_stream_decoder \<Rightarrow> event_stream_decoder parse_result" where
  "try_recover error d =
     (if dec_buffer d = [] then Ok d
      else case error of
          PreludeCrcMismatch _ _ \<Rightarrow> skip_byte d
        | MessageTooSmall _ _ \<Rightarrow> skip_byte d
        | MessageTooLarge _ _ \<Rightarrow> skip_byte d
        | MessageCrcMismatch _ _ \<Rightarrow> skip_frame d
        | HeaderParseFailed _ \<Rightarrow> skip_frame d
        | _ \<Rightarrow> skip_byte d)"

definition decode ::
    "(u8 list \<Rightarrow> u32) \<Rightarrow> event_stream_decoder \<Rightarrow>
     frame option parse_result \<times> event_stream_decoder" where
  "decode checksum d =
     (if dec_state d = Stopped
      then (Err (TooManyErrors (error_count d) DecoderStopped), d)
      else if dec_buffer d = [] then (Ok None, d\<lparr>dec_state := Ready\<rparr>)
      else
        let d = d\<lparr>dec_state := Parsing\<rparr> in
        case parse_frame checksum (dec_buffer d) of
          Ok (Some (frame, consumed)) \<Rightarrow>
            (case buf_advance consumed d of
               Ok d \<Rightarrow> (Ok (Some frame),
                 d\<lparr>dec_state := Ready, frames_decoded := frames_decoded d + 1,
                   error_count := 0\<rparr>)
             | _ \<Rightarrow> (Panic, d))
        | Ok None \<Rightarrow> (Ok None, d\<lparr>dec_state := Ready\<rparr>)
        | Err e \<Rightarrow>
            let d = d\<lparr>error_count := error_count d + 1\<rparr>; error_msg = Rendered e in
            if max_errors d \<le> error_count d
            then (Err (TooManyErrors (error_count d) error_msg), d\<lparr>dec_state := Stopped\<rparr>)
            else
              (case try_recover e d of
                 Ok d \<Rightarrow> (Err e, d\<lparr>dec_state := Recovering\<rparr>)
               | _ \<Rightarrow> (Panic, d))
        | Panic \<Rightarrow> (Panic, d))"

definition pending_bytes :: "event_stream_decoder \<Rightarrow> nat" where
  "pending_bytes d = length (dec_buffer d)"

definition is_clean_eof :: "event_stream_decoder \<Rightarrow> bool" where
  "is_clean_eof d \<longleftrightarrow> dec_buffer d = []"

text \<open>\<open>DecodeIter::next\<close>.\<close>

definition decode_iter_next ::
    "(u8 list \<Rightarrow> u32) \<Rightarrow> event_stream_decoder \<Rightarrow>
     frame parse_result option \<times> event_stream_decoder" where
  "decode_iter_next checksum d =
     (case dec_state d of
        Stopped \<Rightarrow> (None, d)
      | Recovering \<Rightarrow> (None, d)
      | _ \<Rightarrow>
         (case decode checksum d of
            (Ok (Some frame), d') \<Rightarrow> (Some (Ok frame), d')
          | (Ok None, d') \<Rightarrow> (None, d')
          | (Err e, d') \<Rightarrow> (Some (Err e), d')
          | (Panic, d') \<Rightarrow> (Some Panic, d')))"

subsection \<open>One step\<close>

lemma buf_advance_eq_Ok [simp]:
  "buf_advance n d = Ok d' \<longleftrightarrow>
   n \<le> length (dec_buffer d) \<and> d' = d\<lparr>dec_buffer := drop n (dec_buffer d)\<rparr>"
  by (auto simp: buf_advance_def)

lemma buf_advance_le [simp]:
  "n \<le> length (dec_buffer d) \<Longrightarrow> buf_advance n d = Ok (d\<lparr>dec_buffer := drop n (dec_buffer d)\<rparr>)"
  by (simp add: buf_advance_def)

text \<open>\<open>skipped n d d'\<close>: recovery dropped the first \<open>n\<close> bytes of the buffer and counted them.\<close>

definition skipped :: "nat \<Rightarrow> event_stream_decoder \<Rightarrow> event_stream_decoder \<Rightarrow> bool" where
  "skipped n d d' \<longleftrightarrow> 0 < n \<and> n \<le> length (dec_buffer d) \<and>
     d' = d\<lparr>dec_buffer := drop n (dec_buffer d), bytes_skipped := bytes_skipped d + n\<rparr>"

lemma skip_byte_ok: "dec_buffer d \<noteq> [] \<Longrightarrow> \<exists>d'. skip_byte d = Ok d' \<and> skipped 1 d d'"
  by (auto simp: skip_byte_def skipped_def Suc_le_eq)

lemma skip_frame_ok:
  assumes "dec_buffer d \<noteq> []"
  shows "\<exists>n d'. skip_frame d = Ok d' \<and> skipped n d d'"
proof (cases "12 \<le> length (dec_buffer d) \<and> 16 \<le> be_nat (take 4 (dec_buffer d)) \<and>
    be_nat (take 4 (dec_buffer d)) \<le> length (dec_buffer d)")
  case True
  then show ?thesis
    by (intro exI [of _ "be_nat (take 4 (dec_buffer d))"])
       (auto simp: skip_frame_def skipped_def PRELUDE_SIZE_def Let_def unat_from_be_bytes4)
next
  case False
  then have "skip_frame d = skip_byte d"
    by (auto simp: skip_frame_def PRELUDE_SIZE_def Let_def unat_from_be_bytes4)
  with skip_byte_ok [OF assms] show ?thesis by auto
qed

lemma try_recover_ok:
  assumes "dec_buffer d \<noteq> []"
  shows "\<exists>n d'. try_recover e d = Ok d' \<and> skipped n d d'"
  using skip_byte_ok [OF assms] skip_frame_ok [OF assms] assms
  by (cases e) (auto simp: try_recover_def)

text \<open>
  The five ways \<open>decode\<close> can go.  Every later property of the decoder is an instance of this
  case distinction.
\<close>

lemma decode_cases:
  obtains
    (stopped) "dec_state d = Stopped"
      "decode checksum d = (Err (TooManyErrors (error_count d) DecoderStopped), d)"
  | (idle) "dec_state d \<noteq> Stopped"
      "dec_buffer d = [] \<or> parse_frame checksum (dec_buffer d) = Ok None"
      "decode checksum d = (Ok None, d\<lparr>dec_state := Ready\<rparr>)"
  | (frame) f n where "dec_state d \<noteq> Stopped" "0 < n" "n \<le> length (dec_buffer d)"
      "parse_frame checksum (dec_buffer d) = Ok (Some (f, n))"
      "decode checksum d = (Ok (Some f), d\<lparr>dec_buffer := drop n (dec_buffer d),
         dec_state := Ready, frames_decoded := frames_decoded d + 1, error_count := 0\<rparr>)"
  | (halt) e where "dec_state d \<noteq> Stopped" "parse_frame checksum (dec_buffer d) = Err e"
      "max_errors d \<le> error_count d + 1"
      "decode checksum d = (Err (TooManyErrors (error_count d + 1) (Rendered e)),
         d\<lparr>dec_state := Stopped, error_count := error_count d + 1\<rparr>)"
  | (recover) e n where "dec_state d \<noteq> Stopped" "error_count d + 1 < max_errors d"
      "parse_frame checksum (dec_buffer d) = Err e" "0 < n" "n \<le> length (dec_buffer d)"
      "decode checksum d = (Err e, d\<lparr>dec_buffer := drop n (dec_buffer d),
         dec_state := Recovering, error_count := error_count d + 1,
         bytes_skipped := bytes_skipped d + n\<rparr>)"
proof -
  consider "dec_state d = Stopped" | "dec_state d \<noteq> Stopped" "dec_buffer d = []"
    | "dec_state d \<noteq> Stopped" "dec_buffer d \<noteq> []" by blast
  then show thesis
  proof cases
    case 3
    show thesis
    proof (cases "parse_frame checksum (dec_buffer d)")
      case (Ok r)
      show thesis
      proof (cases r)
        case None
        with 3 Ok show thesis by (intro idle) (auto simp: decode_def)
      next
        case (Some fn)
        then obtain f n where r: "r = Some (f, n)" by (cases fn) auto
        from pf.consumed [OF Ok [unfolded r]] have "0 < n" "n \<le> length (dec_buffer d)" by auto
        with 3 Ok r show thesis by (intro frame [of n f]) (auto simp: decode_def)
      qed
    next
      case (Err e)
      show thesis
      proof (cases "max_errors d \<le> error_count d + 1")
        case True
        with 3 Err show thesis by (intro halt) (auto simp: decode_def)
      next
        case False
        let ?d = "d\<lparr>dec_state := Parsing, error_count := error_count d + 1\<rparr>"
        obtain n d' where r: "try_recover e ?d = Ok d'" and "skipped n ?d d'"
          using try_recover_ok [of ?d e] 3 by auto
        then have n: "0 < n" "n \<le> length (dec_buffer d)"
          and d': "d' = ?d\<lparr>dec_buffer := drop n (dec_buffer d),
                           bytes_skipped := bytes_skipped d + n\<rparr>"
          by (auto simp: skipped_def)
        have "decode checksum d = (Err e, d'\<lparr>dec_state := Recovering\<rparr>)"
          using 3 Err False r by (simp add: decode_def)
        with 3 Err False n d' show thesis by (intro recover [of e n]) auto
      qed
    qed (simp add: no_panic)
  qed (auto simp: decode_def intro: stopped idle)
qed

text \<open>An item is a frame, which shortens the buffer, or an error, after which the iterator ends.\<close>

definition decode_measure :: "event_stream_decoder \<Rightarrow> nat" where
  "decode_measure d =
     2 * length (dec_buffer d) + (if dec_state d \<in> {Stopped, Recovering} then 0 else 1)"

lemma decode_iter_next_decreases:
  assumes "decode_iter_next checksum d = (Some r, d')"
  shows "decode_measure d' < decode_measure d"
proof -
  have "dec_state d = Ready \<or> dec_state d = Parsing"
    using assms by (auto simp: decode_iter_next_def split: decoder_state.splits)
  then show ?thesis
    using assms
    by (cases checksum d rule: decode_cases)
       (auto simp: decode_iter_next_def decode_measure_def split: decoder_state.splits)
qed

text \<open>\<open>decode_iter\<close>, drained: the items the \<open>for\<close> loop of a caller sees, and the decoder after it.\<close>

function decode_all ::
    "(u8 list \<Rightarrow> u32) \<Rightarrow> event_stream_decoder \<Rightarrow>
     frame parse_result list \<times> event_stream_decoder" where
  "decode_all checksum d =
     (case decode_iter_next checksum d of
        (None, d') \<Rightarrow> ([], d')
      | (Some Panic, d') \<Rightarrow> ([Panic], d')
      | (Some r, d') \<Rightarrow> (let (rs, d'') = decode_all checksum d' in (r # rs, d'')))"
  by pat_completeness auto
termination
  by (relation "measure (\<lambda>(checksum, d). decode_measure d)")
     (auto dest!: sym [THEN decode_iter_next_decreases])

declare decode_all.simps [simp del]

text \<open>
  The handler's loop over the chunks of a response body: feed the chunk and take the items of
  the iterator.  The first error item is the \<open>protocol_failure\<close> of the response: the loop over
  the items breaks there and no later chunk is read, just as a full buffer ends the stream.
  (\<open>decode_all_error_last\<close> below: the iterator itself ends behind an error, so breaking out of
  it and draining it are the same.)
\<close>

definition item_failed :: "frame parse_result \<Rightarrow> bool" where
  "item_failed r \<longleftrightarrow> (case r of Ok _ \<Rightarrow> False | _ \<Rightarrow> True)"

lemma item_failed_simps [simp]:
  "\<not> item_failed (Ok f)" "item_failed (Err e)" "item_failed Panic"
  by (simp_all add: item_failed_def)

lemma no_item_failed [simp]: "\<not> list_ex item_failed (map (\<lambda>x. Ok (g x)) xs)"
  by (induction xs) simp_all

fun decode_chunks ::
    "(u8 list \<Rightarrow> u32) \<Rightarrow> event_stream_decoder \<Rightarrow> u8 list list \<Rightarrow>
     frame parse_result list \<times> event_stream_decoder" where
  "decode_chunks checksum d [] = ([], d)"
| "decode_chunks checksum d (c # cs) =
     (case feed d c of
        (Ok _, d1) \<Rightarrow>
          (let (rs, d2) = decode_all checksum d1 in
           if list_ex item_failed rs then (rs, d2)
           else let (rs', d3) = decode_chunks checksum d2 cs in (rs @ rs', d3))
      | (Err e, d1) \<Rightarrow> ([Err e], d1)
      | (Panic, d1) \<Rightarrow> ([Panic], d1))"

subsection \<open>Reachable decoders\<close>

inductive decoder_step ::
    "(u8 list \<Rightarrow> u32) \<Rightarrow> event_stream_decoder \<Rightarrow> event_stream_decoder \<Rightarrow> bool"
  for checksum where
  fed: "feed d data = (r, d') \<Longrightarrow> decoder_step checksum d d'"
| decoded: "decode checksum d = (r, d') \<Longrightarrow> decoder_step checksum d d'"

inductive_cases decoder_stepE: "decoder_step checksum d d'"

inductive decoder_reachable :: "(u8 list \<Rightarrow> u32) \<Rightarrow> event_stream_decoder \<Rightarrow> bool"
  for checksum where
  new: "decoder_reachable checksum decoder_new"
| step: "decoder_reachable checksum d \<Longrightarrow> decoder_step checksum d d' \<Longrightarrow>
    decoder_reachable checksum d'"

definition decoder_inv :: "event_stream_decoder \<Rightarrow> bool" where
  "decoder_inv d \<longleftrightarrow>
     dec_state d \<noteq> Parsing \<and>
     max_errors d = DEFAULT_MAX_ERRORS \<and> max_buffer_size d = DEFAULT_MAX_BUFFER_SIZE \<and>
     length (dec_buffer d) \<le> max_buffer_size d \<and>
     error_count d \<le> max_errors d \<and>
     (dec_state d = Stopped \<longleftrightarrow> error_count d = max_errors d) \<and>
     (dec_state d = Recovering \<longrightarrow> 0 < error_count d)"

lemma decoder_inv_new: "decoder_inv decoder_new"
  by (simp add: decoder_inv_def decoder_new_def DEFAULT_MAX_ERRORS_def)

lemma decoder_inv_feed: "decoder_inv d \<Longrightarrow> feed d data = (r, d') \<Longrightarrow> decoder_inv d'"
  by (auto simp: feed_def decoder_inv_def Let_def split: if_splits)

lemma decoder_inv_snd_feed: "decoder_inv d \<Longrightarrow> decoder_inv (snd (feed d data))"
  by (metis decoder_inv_feed prod.collapse)

lemma decoder_inv_decode:
  "decoder_inv d \<Longrightarrow> decode checksum d = (r, d') \<Longrightarrow> decoder_inv d'"
  by (cases checksum d rule: decode_cases)
     (auto simp: decoder_inv_def DEFAULT_MAX_ERRORS_def)

lemma decoder_reachable_inv: "decoder_reachable checksum d \<Longrightarrow> decoder_inv d"
  by (induction rule: decoder_reachable.induct)
     (auto intro: decoder_inv_new decoder_inv_feed decoder_inv_decode elim: decoder_stepE)

lemma decode_no_panic [no_panic]: "fst (decode checksum d) \<noteq> Panic"
  by (cases checksum d rule: decode_cases) auto

lemma decode_iter_next_no_panic [no_panic]: "fst (decode_iter_next checksum d) \<noteq> Some Panic"
  by (cases checksum d rule: decode_cases)
     (auto simp: decode_iter_next_def split: decoder_state.splits)

lemma decode_iter_next_eq:
  assumes "decode_iter_next checksum d = (r, d')"
  shows "(r = None \<and> d' = d) \<or> (\<exists>r'. decode checksum d = (r', d'))"
  using assms
  by (auto simp: decode_iter_next_def split: decoder_state.splits prod.splits outcome.splits
      option.splits)

lemma decode_all_unfold:
  "decode_all checksum d =
     (case decode_iter_next checksum d of
        (None, d') \<Rightarrow> ([], d')
      | (Some r, d') \<Rightarrow> (r # fst (decode_all checksum d'), snd (decode_all checksum d')))"
  using decode_iter_next_no_panic [of checksum d]
  by (subst decode_all.simps) (auto split: option.splits outcome.splits prod.splits)

lemma decode_all_induct [case_names item]:
  assumes "\<And>d. (\<And>r d'. decode_iter_next checksum d = (Some r, d') \<Longrightarrow> P d') \<Longrightarrow> P d"
  shows "P d"
  by (induction d rule: measure_induct_rule [where f = decode_measure])
     (blast intro: assms decode_iter_next_decreases)

lemma decode_all_no_panic [no_panic]: "Panic \<notin> set (fst (decode_all checksum d))"
proof (induction d rule: decode_all_induct [where checksum = checksum])
  case (item d)
  with decode_iter_next_no_panic [of checksum d] show ?case
    by (subst decode_all_unfold) (auto split: option.splits prod.splits)
qed

text \<open>Behind an error the iterator yields nothing: an error is always the last item.\<close>

lemma decode_iter_next_failed:
  assumes "decode_iter_next checksum d = (Some r, d')" and "item_failed r"
  shows "decode_all checksum d' = ([], d')"
proof -
  have "dec_state d' = Recovering \<or> dec_state d' = Stopped"
    using assms
    by (cases checksum d rule: decode_cases)
       (auto simp: decode_iter_next_def item_failed_def split: decoder_state.splits)
  then show ?thesis by (subst decode_all_unfold) (auto simp: decode_iter_next_def)
qed

lemma decode_all_error_last: "list_all (\<lambda>r. \<not> item_failed r) (butlast (fst (decode_all checksum d)))"
proof (induction d rule: decode_all_induct [where checksum = checksum])
  case (item d)
  show ?case
  proof (cases "decode_iter_next checksum d")
    case (Pair r d')
    then show ?thesis
      using item [of _ d'] decode_iter_next_failed [of checksum d _ d']
      by (subst decode_all_unfold) (auto split: option.splits)
  qed
qed

text \<open>Whatever one \<open>decode\<close> keeps, draining the iterator keeps.\<close>

lemma decode_all_invariant:
  assumes "\<And>d r d'. P d \<Longrightarrow> decode checksum d = (r, d') \<Longrightarrow> P d'" and "P d"
  shows "P (snd (decode_all checksum d))"
  using assms(2)
proof (induction d rule: decode_all_induct [where checksum = checksum])
  case (item d)
  have "P d'" if "decode_iter_next checksum d = (r, d')" for r d'
    using decode_iter_next_eq [OF that] item.prems assms(1) by auto
  with item show ?case
    by (subst decode_all_unfold) (auto split: option.splits prod.splits)
qed

lemma decode_all_inv: "decoder_inv d \<Longrightarrow> decoder_inv (snd (decode_all checksum d))"
  by (rule decode_all_invariant) (rule decoder_inv_decode)

lemma decode_chunks_no_panic [no_panic]: "Panic \<notin> set (fst (decode_chunks checksum d cs))"
proof (induction cs arbitrary: d)
  case (Cons c cs)
  then show ?case
    using no_panic
    by (auto simp: feed_def Let_def case_prod_beta split: if_splits)
qed simp

lemma decode_chunks_inv: "decoder_inv d \<Longrightarrow> decoder_inv (snd (decode_chunks checksum d cs))"
proof (induction cs arbitrary: d)
  case (Cons c cs)
  then show ?case
    by (auto simp: case_prod_beta split: prod.splits outcome.splits
        intro!: Cons.IH decode_all_inv decoder_inv_snd_feed)
qed simp

subsection \<open>Accounting\<close>

text \<open>
  \<open>frame_bytes checksum d\<close> is what the next \<open>decode\<close> takes as a message: the length word of a
  message that parses, and nothing otherwise.
\<close>

definition frame_bytes :: "(u8 list \<Rightarrow> u32) \<Rightarrow> event_stream_decoder \<Rightarrow> nat" where
  "frame_bytes checksum d =
     (case parse_frame checksum (dec_buffer d) of
        Ok (Some (f, n)) \<Rightarrow> (if dec_state d = Stopped then 0 else n)
      | _ \<Rightarrow> 0)"

lemma parse_frame_Nil [simp]: "parse_frame checksum [] = Ok None"
  by (simp add: parse_frame_def PRELUDE_SIZE_def)

lemma decode_accounting:
  assumes "decode checksum d = (r, d')"
  shows "bytes_skipped d \<le> bytes_skipped d' \<and>
    dec_buffer d' =
      drop (frame_bytes checksum d + (bytes_skipped d' - bytes_skipped d)) (dec_buffer d) \<and>
    length (dec_buffer d) =
      frame_bytes checksum d + (bytes_skipped d' - bytes_skipped d) + length (dec_buffer d') \<and>
    frames_decoded d' = frames_decoded d + (case r of Ok (Some _) \<Rightarrow> 1 | _ \<Rightarrow> 0)"
  using assms by (cases checksum d rule: decode_cases) (auto simp: frame_bytes_def split: outcome.splits option.splits)

text \<open>A message that is damaged behind its prelude is skipped as a whole.\<close>

definition data_stage :: "parse_error \<Rightarrow> bool" where
  "data_stage e \<longleftrightarrow> (case e of MessageCrcMismatch _ _ \<Rightarrow> True | HeaderParseFailed _ \<Rightarrow> True | _ \<Rightarrow> False)"

lemma parse_frame_data_stage_length:
  assumes "parse_frame checksum buffer = Err e" "data_stage e"
  shows "16 \<le> be_nat (take 4 buffer) \<and> be_nat (take 4 buffer) \<le> length buffer \<and> 12 \<le> length buffer"
  using assms
  by (auto simp: parse_frame_def Let_def obind_conv PRELUDE_SIZE_def unat_from_be_bytes4
      data_stage_def dest!: total_length_ge_min split: if_splits)

lemma decode_skips_damaged:
  assumes err: "parse_frame checksum (dec_buffer d) = Err e" and e: "data_stage e"
    and st: "dec_state d \<noteq> Stopped" and room: "error_count d + 1 < max_errors d"
  shows "decode checksum d =
    (Err e, d\<lparr>dec_buffer := drop (be_nat (take 4 (dec_buffer d))) (dec_buffer d),
       dec_state := Recovering, error_count := error_count d + 1,
       bytes_skipped := bytes_skipped d + be_nat (take 4 (dec_buffer d))\<rparr>)"
proof -
  have len: "16 \<le> be_nat (take 4 (dec_buffer d))"
      "be_nat (take 4 (dec_buffer d)) \<le> length (dec_buffer d)" "12 \<le> length (dec_buffer d)"
    using parse_frame_data_stage_length [OF err e] by auto
  have rec: "try_recover e d' = skip_frame d'" if "dec_buffer d' = dec_buffer d" for d'
    using e that len by (auto simp: try_recover_def data_stage_def split: parse_error.splits)
  show ?thesis
    using err st room len
    by (auto simp: decode_def rec skip_frame_def PRELUDE_SIZE_def Let_def unat_from_be_bytes4)
qed

subsection \<open>Chunk boundaries do not matter\<close>

definition message_of :: "(u8 list \<Rightarrow> u32) \<Rightarrow> u8 list \<times> frame \<Rightarrow> bool" where
  "message_of checksum mf \<longleftrightarrow>
     parse_frame checksum (fst mf) = Ok (Some (snd mf, length (fst mf)))"

definition after_frames :: "(u8 list \<times> frame) list \<Rightarrow> u8 list \<Rightarrow> event_stream_decoder \<Rightarrow>
    event_stream_decoder" where
  "after_frames ms p d =
     d\<lparr>dec_buffer := p, dec_state := Ready, frames_decoded := frames_decoded d + length ms,
       error_count := (if ms = [] then error_count d else 0)\<rparr>"

text \<open>Draining a buffer that starts with whole messages.\<close>

lemma decode_all_prefix:
  assumes "\<forall>mf \<in> set ms. message_of checksum mf"
    and "dec_state d = Ready" and "dec_buffer d = concat (map fst ms) @ p"
  shows "decode_all checksum d =
    (map (\<lambda>mf. Ok (snd mf)) ms @ fst (decode_all checksum (after_frames ms p d)),
     snd (decode_all checksum (after_frames ms p d)))"
  using assms
proof (induction ms arbitrary: d)
  case Nil
  then have "after_frames [] p d = d" by (simp add: after_frames_def)
  then show ?case by simp
next
  case (Cons mf ms)
  obtain m f where mf: "mf = (m, f)" by (cases mf)
  with Cons.prems have m: "parse_frame checksum m = Ok (Some (f, length m))"
    by (simp add: message_of_def)
  let ?rest = "concat (map fst ms) @ p"
  let ?d = "d\<lparr>dec_buffer := ?rest, dec_state := Ready,
              frames_decoded := frames_decoded d + 1, error_count := 0\<rparr>"
  have buf: "dec_buffer d = m @ ?rest" using Cons.prems by (simp add: mf)
  have "m \<noteq> []" using pf.consumed [OF m] by auto
  then have dec: "decode checksum d = (Ok (Some f), ?d)"
    using pf.message_at_front [OF m, of ?rest] Cons.prems(2) by (simp add: decode_def buf)
  have after: "after_frames ms p ?d = after_frames (mf # ms) p d"
    by (simp add: after_frames_def)
  have "decode_all checksum ?d =
      (map (\<lambda>mf. Ok (snd mf)) ms @ fst (decode_all checksum (after_frames ms p ?d)),
       snd (decode_all checksum (after_frames ms p ?d)))"
    by (rule Cons.IH) (use Cons.prems in auto)
  then show ?case
    by (subst decode_all_unfold)
       (use Cons.prems(2) dec after in \<open>simp add: decode_iter_next_def mf\<close>)
qed

lemma decode_all_messages:
  assumes "\<forall>mf \<in> set ms. message_of checksum mf" and "parse_frame checksum p = Ok None"
    and "dec_state d = Ready" and "dec_buffer d = concat (map fst ms) @ p"
  shows "decode_all checksum d = (map (\<lambda>mf. Ok (snd mf)) ms, after_frames ms p d)"
proof -
  let ?d = "after_frames ms p d"
  have "?d\<lparr>dec_state := Ready\<rparr> = ?d" by (simp add: after_frames_def)
  moreover from this have "decode checksum ?d = (Ok None, ?d)"
    using assms(2) by (cases checksum ?d rule: decode_cases) (auto simp: after_frames_def)
  ultimately have "decode_all checksum ?d = ([], ?d)"
    by (subst decode_all_unfold) (simp add: decode_iter_next_def after_frames_def)
  with decode_all_prefix [OF assms(1,3,4)] show ?thesis by simp
qed

text \<open>
  The loop over the chunks, from any decoder that is not stopped: whatever lies in the buffer
  and comes in the chunks is cut into messages the same way.
\<close>

lemma feed_ok:
  "length (dec_buffer d) + length c \<le> max_buffer_size d \<Longrightarrow> dec_state d \<in> {Ready, Recovering} \<Longrightarrow>
   feed d c = (Ok (), d\<lparr>dec_buffer := dec_buffer d @ c, dec_state := Ready\<rparr>)"
  by (auto simp: feed_def Let_def)

lemma decode_chunks_messages:
  assumes "\<forall>mf \<in> set ms. message_of checksum mf" and "dec_state d \<in> {Ready, Recovering}"
    and "dec_buffer d @ concat cs = concat (map fst ms)"
    and "\<forall>mf \<in> set ms. \<forall>c \<in> set cs. length (fst mf) + length c \<le> Suc (max_buffer_size d)"
    and "cs = [] \<longrightarrow> dec_buffer d = []"
    and "cs \<noteq> [] \<longrightarrow> length (dec_buffer d) + length (hd cs) \<le> max_buffer_size d"
  shows "fst (decode_chunks checksum d cs) = map (\<lambda>mf. Ok (snd mf)) ms \<and>
    dec_buffer (snd (decode_chunks checksum d cs)) = [] \<and>
    frames_decoded (snd (decode_chunks checksum d cs)) = frames_decoded d + length ms \<and>
    bytes_skipped (snd (decode_chunks checksum d cs)) = bytes_skipped d"
  using assms
proof (induction cs arbitrary: d ms)
  case Nil
  then have "ms = []"
    by (cases ms) (auto simp: message_of_def dest!: pf.consumed)
  with Nil show ?case by simp
next
  case (Cons c cs)
  let ?d1 = "d\<lparr>dec_buffer := dec_buffer d @ c, dec_state := Ready\<rparr>"
  have feed: "feed d c = (Ok (), ?d1)" using Cons.prems by (intro feed_ok) auto
  have all: "\<forall>(m, f) \<in> set ms. parse_frame checksum m = Ok (Some (f, length m))"
    using Cons.prems(1) by (auto simp: message_of_def)
  have "(dec_buffer d @ c) @ concat cs = concat (map fst ms)" using Cons.prems(3) by simp
  from pf.split_messages [OF all this]
  obtain ms1 ms2 p where ms: "ms = ms1 @ ms2" and buf: "dec_buffer d @ c = concat (map fst ms1) @ p"
    and rest: "p @ concat cs = concat (map fst ms2)"
    and p: "p = [] \<or> parse_frame checksum p = Ok None \<and> (\<exists>m \<in> fst ` set ms. length p < length m)"
    by blast
  have pnone: "parse_frame checksum p = Ok None" using p by auto
  have all1: "decode_all checksum ?d1 = (map (\<lambda>mf. Ok (snd mf)) ms1, after_frames ms1 p ?d1)"
    by (rule decode_all_messages) (use Cons.prems(1) ms buf pnone in auto)
  let ?d2 = "after_frames ms1 p ?d1"
  have pos: "0 < length (fst mf)" if "mf \<in> set ms" for mf
    using Cons.prems(1) that by (auto simp: message_of_def dest!: pf.consumed)
  have fits: "length p + length (hd cs) \<le> max_buffer_size d" if "cs \<noteq> []"
  proof (cases "\<exists>mf \<in> set ms. length p < length (fst mf)")
    case True
    with that Cons.prems(4) show ?thesis by (fastforce dest: hd_in_set)
  next
    case False
    with p pos have "p = []" "ms = []" by (cases ms; fastforce)+
    with rest that ms show ?thesis by (cases cs) auto
  qed
  have pempty: "p = []" if "cs = []"
  proof (cases ms2)
    case (Cons mf ms')
    with rest that have "parse_frame checksum p = Ok (Some (snd mf, length (fst mf)))"
      using Cons.prems(1) ms by (auto simp: message_of_def intro: pf.settled_frame)
    with pnone show ?thesis by simp
  qed (use rest that in simp)
  have IH: "fst (decode_chunks checksum ?d2 cs) = map (\<lambda>mf. Ok (snd mf)) ms2 \<and>
      dec_buffer (snd (decode_chunks checksum ?d2 cs)) = [] \<and>
      frames_decoded (snd (decode_chunks checksum ?d2 cs)) = frames_decoded ?d2 + length ms2 \<and>
      bytes_skipped (snd (decode_chunks checksum ?d2 cs)) = bytes_skipped ?d2"
    by (rule Cons.IH) (use Cons.prems ms rest pempty fits in \<open>auto simp: after_frames_def\<close>)
  then show ?case
    by (auto simp: feed all1 ms after_frames_def case_prod_beta)
qed

text \<open>
  A message damaged behind its prelude costs one error item.  Until its last byte is there the
  decoder waits, as it does for an intact message.
\<close>

lemma damaged_prefix_incomplete:
  assumes err: "parse_frame checksum bad = Err e" and e: "data_stage e"
    and len: "be_nat (take 4 bad) = length bad" and bad: "bad = p @ q" "q \<noteq> []"
  shows "parse_frame checksum p = Ok None"
proof (rule ccontr)
  assume "parse_frame checksum p \<noteq> Ok None"
  then have p: "parse_frame checksum p = Err e"
    using parse_frame_append [of checksum p q] err bad by simp
  from parse_frame_data_stage_length [OF p e] len bad show False by simp
qed

lemma append_cut: "a @ c = b @ d \<Longrightarrow> length b \<le> length a \<Longrightarrow> \<exists>u. a = b @ u \<and> u @ c = d"
  by (auto simp: append_eq_append_conv2)

lemma split_before_damage:
  assumes err: "parse_frame checksum bad = Err e" and e: "data_stage e"
    and len: "be_nat (take 4 bad) = length bad"
    and ms: "\<forall>mf \<in> set ms. message_of checksum mf"
    and xy: "x @ y = concat (map fst ms) @ bad @ rest"
    and x: "length x < length (concat (map fst ms)) + length bad"
  shows "\<exists>ms1 ms2 p. ms = ms1 @ ms2 \<and> x = concat (map fst ms1) @ p \<and>
    p @ y = concat (map fst ms2) @ bad @ rest \<and> parse_frame checksum p = Ok None \<and>
    (\<exists>m \<in> insert bad (fst ` set ms). length p < length m)"
proof (cases "length x \<le> length (concat (map fst ms))")
  case True
  with xy obtain z where z: "x @ z = concat (map fst ms)" "y = z @ bad @ rest"
    by (auto simp: append_eq_append_conv2)
  have "\<forall>(m, f) \<in> set ms. parse_frame checksum m = Ok (Some (f, length m))"
    using ms by (auto simp: message_of_def)
  from pf.split_messages [OF this z(1)]
  obtain ms1 ms2 p where s: "ms = ms1 @ ms2" "x = concat (map fst ms1) @ p"
    "p @ z = concat (map fst ms2)"
    "p = [] \<or> parse_frame checksum p = Ok None \<and> (\<exists>m \<in> fst ` set ms. length p < length m)"
    by blast
  have "bad \<noteq> []" using parse_frame_data_stage_length [OF err e] by auto
  with s z show ?thesis
    by (intro exI [of _ ms1] exI [of _ ms2] exI [of _ p]) auto
next
  case False
  then obtain p where p: "x = concat (map fst ms) @ p" "p @ y = bad @ rest"
    using append_cut [OF xy] by auto
  then obtain q where q: "bad = p @ q" "q \<noteq> []"
    using x append_cut [of bad rest p y] by auto
  with damaged_prefix_incomplete [OF err e len q] p show ?thesis
    by (intro exI [of _ ms] exI [of _ "[]"] exI [of _ p]) auto
qed

lemma decode_all_damaged:
  assumes err: "parse_frame checksum bad = Err e" and e: "data_stage e"
    and len: "be_nat (take 4 bad) = length bad"
    and st: "dec_state d = Ready" and room: "error_count d + 1 < max_errors d"
    and buf: "dec_buffer d = bad @ x"
  shows "decode_all checksum d =
    ([Err e], d\<lparr>dec_buffer := x, dec_state := Recovering, error_count := error_count d + 1,
                bytes_skipped := bytes_skipped d + length bad\<rparr>)"
proof -
  have err': "parse_frame checksum (dec_buffer d) = Err e"
    using parse_frame_append [of checksum bad x] err buf by simp
  have "4 \<le> length bad" using parse_frame_data_stage_length [OF err e] by simp
  then have "be_nat (take 4 (dec_buffer d)) = length bad" using len buf by simp
  with decode_skips_damaged [OF err' e _ room] st buf
  have dec: "decode checksum d =
      (Err e, d\<lparr>dec_buffer := x, dec_state := Recovering, error_count := error_count d + 1,
                bytes_skipped := bytes_skipped d + length bad\<rparr>)" by simp
  have halted: "decode_all checksum d' = ([], d')" if "dec_state d' = Recovering" for d'
    by (subst decode_all_unfold) (simp add: decode_iter_next_def that)
  show ?thesis
    by (subst decode_all_unfold) (simp add: decode_iter_next_def st dec halted)
qed

lemma decode_chunks_damaged:
  assumes err: "parse_frame checksum bad = Err e" and e: "data_stage e"
    and len: "be_nat (take 4 bad) = length bad"
    and "\<forall>mf \<in> set ms. message_of checksum mf"
    and "dec_state d \<in> {Ready, Recovering}" and "error_count d + 1 < max_errors d"
    and "dec_buffer d @ concat cs = concat (map fst ms) @ bad @ rest"
    and "length (dec_buffer d) < length (concat (map fst ms)) + length bad"
    and "\<forall>m \<in> insert bad (fst ` set ms). \<forall>c \<in> set cs. length m + length c \<le> Suc (max_buffer_size d)"
    and "length (dec_buffer d) + length (hd cs) \<le> max_buffer_size d"
  shows "\<exists>before c after d'. cs = before @ c # after \<and>
    (\<forall>later. decode_chunks checksum d (before @ c # later) =
       (map (\<lambda>mf. Ok (snd mf)) ms @ [Err e], d')) \<and>
    dec_state d' = Recovering \<and> dec_buffer d' @ concat after = rest \<and>
    frames_decoded d' = frames_decoded d + length ms \<and>
    bytes_skipped d' = bytes_skipped d + length bad \<and> max_buffer_size d' = max_buffer_size d"
  using assms(4-)
proof (induction cs arbitrary: d ms)
  case Nil
  then have "length (dec_buffer d) = length (concat (map fst ms) @ bad @ rest)" by simp
  with Nil.prems show ?case by simp
next
  case (Cons c cs)
  let ?d1 = "d\<lparr>dec_buffer := dec_buffer d @ c, dec_state := Ready\<rparr>"
  have feed: "feed d c = (Ok (), ?d1)" using Cons.prems by (intro feed_ok) auto
  have all: "(dec_buffer d @ c) @ concat cs = concat (map fst ms) @ bad @ rest"
    using Cons.prems(4) by simp
  show ?case
  proof (cases "length (dec_buffer d @ c) < length (concat (map fst ms)) + length bad")
    case True
    from split_before_damage [OF err e len Cons.prems(1) all True]
    obtain ms1 ms2 p where ms: "ms = ms1 @ ms2" and buf: "dec_buffer d @ c = concat (map fst ms1) @ p"
      and rest: "p @ concat cs = concat (map fst ms2) @ bad @ rest"
      and p: "parse_frame checksum p = Ok None" and short: "\<exists>m \<in> insert bad (fst ` set ms). length p < length m"
      by blast
    let ?d2 = "after_frames ms1 p ?d1"
    have all1: "decode_all checksum ?d1 = (map (\<lambda>mf. Ok (snd mf)) ms1, ?d2)"
      by (rule decode_all_messages) (use Cons.prems(1) ms buf p in auto)
    have below: "length p < length (concat (map fst ms2)) + length bad"
      using True ms arg_cong [OF buf, of length] by simp
    then have "cs \<noteq> []" using arg_cong [OF rest, of length] by auto
    then have fits: "length p + length (hd cs) \<le> max_buffer_size d"
      using short Cons.prems(6) by (fastforce dest: hd_in_set)
    have "\<exists>before c after d'. cs = before @ c # after \<and>
        (\<forall>later. decode_chunks checksum ?d2 (before @ c # later) =
           (map (\<lambda>mf. Ok (snd mf)) ms2 @ [Err e], d')) \<and>
        dec_state d' = Recovering \<and> dec_buffer d' @ concat after = rest \<and>
        frames_decoded d' = frames_decoded ?d2 + length ms2 \<and>
        bytes_skipped d' = bytes_skipped ?d2 + length bad \<and> max_buffer_size d' = max_buffer_size ?d2"
      by (rule Cons.IH) (use Cons.prems ms rest below fits in \<open>auto simp: after_frames_def\<close>)
    then obtain before c' after d' where tail: "cs = before @ c' # after"
      "\<forall>later. decode_chunks checksum ?d2 (before @ c' # later) =
         (map (\<lambda>mf. Ok (snd mf)) ms2 @ [Err e], d')"
      "dec_state d' = Recovering" "dec_buffer d' @ concat after = rest"
      "frames_decoded d' = frames_decoded ?d2 + length ms2"
      "bytes_skipped d' = bytes_skipped ?d2 + length bad" "max_buffer_size d' = max_buffer_size ?d2"
      by blast
    then show ?thesis
      by (intro exI [of _ "c # before"] exI [of _ c'] exI [of _ after] exI [of _ d'])
         (simp add: feed all1 ms after_frames_def)
  next
    case False
    then obtain x where x: "dec_buffer d @ c = concat (map fst ms) @ bad @ x" "x @ concat cs = rest"
      using append_cut [of "dec_buffer d @ c" "concat cs" "concat (map fst ms) @ bad" rest] all
      by auto
    let ?d2 = "after_frames ms (bad @ x) ?d1"
    let ?d3 = "?d2\<lparr>dec_buffer := x, dec_state := Recovering, error_count := error_count ?d2 + 1,
                     bytes_skipped := bytes_skipped ?d2 + length bad\<rparr>"
    have "decode_all checksum ?d2 =
        ([Err e], ?d2\<lparr>dec_buffer := x, dec_state := Recovering, error_count := error_count ?d2 + 1,
                     bytes_skipped := bytes_skipped ?d2 + length bad\<rparr>)"
      by (rule decode_all_damaged [OF err e len])
         (use Cons.prems(3) in \<open>simp_all add: after_frames_def\<close>)
    then have "decode_all checksum ?d2 = ([Err e], ?d3)" by simp
    with decode_all_prefix [of ms checksum ?d1 "bad @ x"] Cons.prems(1) x(1)
    have all1: "decode_all checksum ?d1 = (map (\<lambda>mf. Ok (snd mf)) ms @ [Err e], ?d3)"
      by simp
    have "\<forall>later. decode_chunks checksum d ([] @ c # later) =
        (map (\<lambda>mf. Ok (snd mf)) ms @ [Err e], ?d3)"
      by (simp add: feed all1)
    with x(2) show ?thesis
      by - (rule exI [of _ "[]"], rule exI [of _ c], rule exI [of _ cs], rule exI [of _ ?d3],
        simp add: after_frames_def)
  qed
qed

subsection \<open>Properties\<close>

text \<open>C1. However the bytes of a sequence of encoded messages are cut into chunks, feeding the
  chunks to a new decoder and draining the iterator after each yields exactly these messages,
  in order and without an error, with an empty buffer (a clean end of stream) and nothing
  skipped.  The size condition is the decoder's own buffer limit: a chunk fits beside an
  unfinished message.\<close>

theorem stream_decoding_ignores_chunking:
  assumes "list_all (\<lambda>(hs, payload). list_all wf_header hs \<and>
      length (encode_frame checksum hs payload) \<le> 16777216) ms"
    and "concat chunks = concat (map (\<lambda>(hs, payload). encode_frame checksum hs payload) ms)"
    and "\<forall>(hs, payload) \<in> set ms. \<forall>c \<in> set chunks.
      length (encode_frame checksum hs payload) + length c \<le> Suc DEFAULT_MAX_BUFFER_SIZE"
  shows "fst (decode_chunks checksum decoder_new chunks) =
      map (\<lambda>(hs, payload). Ok \<lparr>frame_headers = map_of (rev hs), frame_payload = payload\<rparr>) ms \<and>
    is_clean_eof (snd (decode_chunks checksum decoder_new chunks)) \<and>
    frames_decoded (snd (decode_chunks checksum decoder_new chunks)) = length ms \<and>
    bytes_skipped (snd (decode_chunks checksum decoder_new chunks)) = 0"
proof -
  define mf where "mf = (\<lambda>(hs, payload). (encode_frame checksum hs payload,
    \<lparr>frame_headers = headers_of hs, frame_payload = payload\<rparr>))"
  have frames: "map (\<lambda>x. Ok (snd x)) (map mf ms) =
      map (\<lambda>(hs, payload). Ok \<lparr>frame_headers = map_of (rev hs), frame_payload = payload\<rparr>) ms"
    by (auto simp: mf_def headers_of_eq)
  have "\<forall>x \<in> set (map mf ms). message_of checksum x"
    using assms(1)
    by (auto simp: mf_def message_of_def list_all_iff length_encode_frame
        parse_frame_encoded [unfolded length_encode_frame list_all_iff])
  moreover have "concat chunks = concat (map fst (map mf ms))"
    using assms(2) by (simp add: mf_def comp_def split_def)
  moreover have "length (hd chunks) \<le> DEFAULT_MAX_BUFFER_SIZE" if "chunks \<noteq> []"
  proof (cases ms)
    case Nil
    with that assms(2) show ?thesis by (cases chunks) auto
  next
    case (Cons a ms')
    with assms(3) hd_in_set [OF that] show ?thesis by (fastforce simp: length_encode_frame)
  qed
  ultimately have "fst (decode_chunks checksum decoder_new chunks) = map (\<lambda>x. Ok (snd x)) (map mf ms) \<and>
      dec_buffer (snd (decode_chunks checksum decoder_new chunks)) = [] \<and>
      frames_decoded (snd (decode_chunks checksum decoder_new chunks)) =
        frames_decoded decoder_new + length (map mf ms) \<and>
      bytes_skipped (snd (decode_chunks checksum decoder_new chunks)) = bytes_skipped decoder_new"
    using assms(3)
    by (intro decode_chunks_messages) (auto simp: decoder_new_def mf_def case_prod_beta)
  with frames show ?thesis by (simp add: is_clean_eof_def decoder_new_def)
qed

theorem stream_decoding_ignores_chunking_witness:
  "let m = encode_frame (\<lambda>_. 7) [(''k'', HV_Bool True)] [1, 2, 3];
       r = decode_chunks (\<lambda>_. 7) decoder_new [take 5 (m @ m), drop 5 (m @ m)]
   in length (fst r) = 2 \<and> is_clean_eof (snd r)"
proof -
  let ?hs = "[(''k'', HV_Bool True)]" and ?c = "\<lambda>_. 7"
  let ?m = "encode_frame ?c ?hs [1, 2, 3]"
  have wf: "list_all wf_header ?hs"
    by (simp add: wf_header_def valid_utf8_ascii bytes_of_string_def) 
  have len: "length ?m = 22"
    by (simp add: length_encode_frame encode_headers_def encode_header_def bytes_of_string_def)
  show ?thesis
    using stream_decoding_ignores_chunking
      [of ?c "[(?hs, [1, 2, 3]), (?hs, [1, 2, 3])]" "[take 5 (?m @ ?m), drop 5 (?m @ ?m)]"] wf len
    by (simp add: DEFAULT_MAX_BUFFER_SIZE_def Let_def del: decode_chunks.simps)
qed

text \<open>C10. A message that is damaged behind its prelude (its CRC or its header lengths are wrong)
  ends the response and costs nothing but itself.  Whatever intact messages come before it,
  whatever bytes follow it and however the stream is cut into chunks, the handler's loop over a
  new decoder yields exactly the messages before it and then that one error, and reads no chunk
  behind the one in which the damaged message ends.  The decoder has skipped the damaged
  message, no byte more or less, and is ready to go on: the bytes it holds followed by the unread
  chunks are exactly the bytes behind the damaged message, so a caller that keeps feeding it
  decodes the intact messages there to the last byte.\<close>

theorem damaged_message_is_isolated:
  assumes "parse_frame checksum bad = Err e"
    and "data_stage e" and "be_nat (take 4 bad) = length bad"
    and "list_all (message_of checksum) ms"
    and "concat chunks = concat (map fst ms) @ bad @ rest"
    and "\<forall>m \<in> insert bad (fst ` set ms). \<forall>c \<in> set chunks.
      length m + length c \<le> Suc DEFAULT_MAX_BUFFER_SIZE"
  shows "\<exists>before c unread d. chunks = before @ c # unread \<and>
    (\<forall>later. decode_chunks checksum decoder_new (before @ c # later) =
       (map (\<lambda>mf. Ok (snd mf)) ms @ [Err e], d)) \<and>
    frames_decoded d = length ms \<and> bytes_skipped d = length bad \<and>
    dec_state d = Recovering \<and> dec_buffer d @ concat unread = rest \<and>
    (\<forall>ms'. list_all (message_of checksum) ms' \<and> rest = concat (map fst ms') \<and> unread \<noteq> [] \<and>
       length (dec_buffer d) + length (hd unread) \<le> DEFAULT_MAX_BUFFER_SIZE \<and>
       (\<forall>mf \<in> set ms'. \<forall>c \<in> set unread. length (fst mf) + length c \<le> Suc DEFAULT_MAX_BUFFER_SIZE) \<longrightarrow>
       fst (decode_chunks checksum d unread) = map (\<lambda>mf. Ok (snd mf)) ms' \<and>
       is_clean_eof (snd (decode_chunks checksum d unread)))"
proof -
  have bad: "16 \<le> length bad" using parse_frame_data_stage_length [OF assms(1,2)] by simp
  then have ne: "chunks \<noteq> []" using assms(5) by auto
  have "length (hd chunks) \<le> DEFAULT_MAX_BUFFER_SIZE"
    using assms(6) hd_in_set [OF ne] bad by fastforce
  then have "\<exists>before c after d'. chunks = before @ c # after \<and>
      (\<forall>later. decode_chunks checksum decoder_new (before @ c # later) =
         (map (\<lambda>mf. Ok (snd mf)) ms @ [Err e], d')) \<and>
      dec_state d' = Recovering \<and> dec_buffer d' @ concat after = rest \<and>
      frames_decoded d' = frames_decoded decoder_new + length ms \<and>
      bytes_skipped d' = bytes_skipped decoder_new + length bad \<and>
      max_buffer_size d' = max_buffer_size decoder_new"
    by (intro decode_chunks_damaged [OF assms(1-3)])
       (use assms(4-6) bad in \<open>auto simp: decoder_new_def DEFAULT_MAX_ERRORS_def list_all_iff\<close>)
  moreover have "frames_decoded decoder_new = 0" "bytes_skipped decoder_new = 0"
    "max_buffer_size decoder_new = DEFAULT_MAX_BUFFER_SIZE" by (simp_all add: decoder_new_def)
  ultimately obtain before c after d where d: "chunks = before @ c # after"
    "\<forall>later. decode_chunks checksum decoder_new (before @ c # later) =
       (map (\<lambda>mf. Ok (snd mf)) ms @ [Err e], d)"
    "dec_state d = Recovering" "dec_buffer d @ concat after = rest"
    "frames_decoded d = length ms" "bytes_skipped d = length bad"
    "max_buffer_size d = DEFAULT_MAX_BUFFER_SIZE"
    by (metis add_0)
  have "fst (decode_chunks checksum d after) = map (\<lambda>mf. Ok (snd mf)) ms' \<and>
      is_clean_eof (snd (decode_chunks checksum d after))"
    if "list_all (message_of checksum) ms'" "rest = concat (map fst ms')" "after \<noteq> []"
      "length (dec_buffer d) + length (hd after) \<le> DEFAULT_MAX_BUFFER_SIZE"
      "\<forall>mf \<in> set ms'. \<forall>c \<in> set after. length (fst mf) + length c \<le> Suc DEFAULT_MAX_BUFFER_SIZE" for ms'
    using decode_chunks_messages [of ms' checksum d after] that d
    by (simp add: list_all_iff is_clean_eof_def)
  with d show ?thesis by blast
qed

definition damaged_example :: "u8 list" where
  "damaged_example = [0, 0, 0, 17, 0, 0, 0, 0, 0, 0, 0, 7, 9, 0, 0, 0, 8]"

theorem damaged_message_is_isolated_witness:
  "let m = encode_frame (\<lambda>_. 7) [] [1, 2, 3]; s = m @ damaged_example @ m;
       r = decode_chunks (\<lambda>_. 7) decoder_new [take 5 s, drop 5 s]
   in length (fst r) = 2 \<and> last (fst r) = Err (MessageCrcMismatch 8 7) \<and>
      bytes_skipped (snd r) = 17 \<and> frames_decoded (snd r) = 1"
proof -
  let ?c = "\<lambda>_. 7" and ?f = "\<lparr>frame_headers = headers_of [], frame_payload = [1, 2, 3]\<rparr>"
  let ?m = "encode_frame ?c [] [1, 2, 3]"
  let ?s = "?m @ damaged_example @ ?m"
  let ?cs = "[take 5 ?s, drop 5 ?s]"
  have bad: "parse_frame ?c damaged_example = Err (MessageCrcMismatch 8 7)"
    by (simp add: damaged_example_def parse_frame_def frame_consts Let_def from_be_bytes_def
        be_nat_def crc32_def)
  have "message_of ?c (?m, ?f)"
    using parse_frame_encoded [of "[]" "[1, 2, 3]" ?c]
    by (simp add: message_of_def encode_headers_def)
  then have ms: "list_all (message_of ?c) [(?m, ?f)]" by simp
  have len: "length ?m = 19" "length damaged_example = 17"
    by (simp_all add: length_encode_frame encode_headers_def damaged_example_def)
  have size: "\<forall>m \<in> insert damaged_example (fst ` set [(?m, ?f)]). \<forall>c \<in> set ?cs.
      length m + length c \<le> Suc DEFAULT_MAX_BUFFER_SIZE"
    using len by (simp add: DEFAULT_MAX_BUFFER_SIZE_def)
  have tl: "be_nat (take 4 damaged_example) = length damaged_example"
    by (simp add: damaged_example_def be_nat_def)
  have cs: "concat ?cs = concat (map fst [(?m, ?f)]) @ damaged_example @ ?m"
    by (simp del: take_append drop_append)
  from damaged_message_is_isolated [OF bad _ tl ms cs size]
  obtain before c unread d where "?cs = before @ c # unread"
    "\<forall>later. decode_chunks ?c decoder_new (before @ c # later) = ([Ok ?f] @ [Err (MessageCrcMismatch 8 7)], d)"
    "frames_decoded d = 1" "bytes_skipped d = length damaged_example"
    by (auto simp: data_stage_def)
  then show ?thesis by (simp add: Let_def len del: decode_chunks.simps)
qed

text \<open>A decoder that any sequence of \<open>feed\<close> and \<open>decode\<close> calls can lead to satisfies its
  invariant: it is never left in \<open>Parsing\<close>, its buffer is within the limit, and it is
  \<open>Stopped\<close> exactly when the limit of consecutive errors is reached; no call panics.\<close>

theorem reachable_decoder_invariant:
  assumes "decoder_reachable checksum d"
  shows "decoder_inv d \<and> fst (decode checksum d) \<noteq> Panic \<and>
    Panic \<notin> set (fst (decode_chunks checksum d chunks))"
  using assms by (simp add: decoder_reachable_inv no_panic)

theorem reachable_decoder_invariant_witness:
  "decoder_inv (snd (feed decoder_new [1, 2]))"
  using reachable_decoder_invariant
    [OF decoder_reachable.step [OF decoder_reachable.new decoder_step.fed [OF prod.collapse [symmetric]]]]
  by blast

text \<open>\<open>Stopped\<close> is absorbing: a stopped decoder answers every \<open>decode\<close> with
  \<open>TooManyErrors\<close>, its iterator is empty, and neither \<open>feed\<close> nor \<open>decode\<close> leaves the state.\<close>

theorem stopped_is_absorbing:
  assumes "dec_state d = Stopped"
  shows "decode checksum d = (Err (TooManyErrors (error_count d) DecoderStopped), d) \<and>
    decode_all checksum d = ([], d) \<and>
    (decoder_step checksum d d' \<longrightarrow> dec_state d' = Stopped \<and> error_count d' = error_count d)"
proof -
  have dec: "decode checksum d = (Err (TooManyErrors (error_count d) DecoderStopped), d)"
    using assms by (simp add: decode_def)
  moreover have "decode_all checksum d = ([], d)"
    by (subst decode_all_unfold) (simp add: decode_iter_next_def assms)
  moreover have "dec_state d' = Stopped \<and> error_count d' = error_count d"
    if "feed d data = (r, d')" for data r
    using assms that by (auto simp: feed_def Let_def split: if_splits)
  ultimately show ?thesis
    using assms by (auto elim!: decoder_stepE)
qed

theorem stopped_is_absorbing_witness:
  "decode_all (\<lambda>_. 0) (decoder_new\<lparr>dec_state := Stopped, error_count := 5\<rparr>) =
     ([], decoder_new\<lparr>dec_state := Stopped, error_count := 5\<rparr>)"
  by (rule stopped_is_absorbing [THEN conjunct2, THEN conjunct1]) simp

text \<open>No byte is lost or invented: one \<open>decode\<close> removes from the front of the buffer the
  message it returns and the bytes it counts as skipped, and nothing else, and an error of a
  decoder that does not stop always removes at least one byte.\<close>

theorem decode_accounts_for_every_byte:
  assumes "decode checksum d = (r, d')"
  shows "bytes_skipped d \<le> bytes_skipped d' \<and>
    dec_buffer d' =
      drop (frame_bytes checksum d + (bytes_skipped d' - bytes_skipped d)) (dec_buffer d) \<and>
    length (dec_buffer d) =
      frame_bytes checksum d + (bytes_skipped d' - bytes_skipped d) + length (dec_buffer d') \<and>
    frames_decoded d' = frames_decoded d + (case r of Ok (Some _) \<Rightarrow> 1 | _ \<Rightarrow> 0) \<and>
    ((\<exists>e. r = Err e) \<and> dec_state d' \<noteq> Stopped \<longrightarrow>
       length (dec_buffer d') < length (dec_buffer d))"
proof -
  have "length (dec_buffer d') < length (dec_buffer d)"
    if "r = Err e" "dec_state d' \<noteq> Stopped" for e
    using assms that by (cases checksum d rule: decode_cases) auto
  with decode_accounting [OF assms] show ?thesis by blast
qed

theorem decode_accounts_for_every_byte_witness:
  "bytes_skipped (snd (decode (\<lambda>_. 7) (decoder_new\<lparr>dec_buffer := damaged_example\<rparr>))) =
     17 - length (dec_buffer (snd (decode (\<lambda>_. 7) (decoder_new\<lparr>dec_buffer := damaged_example\<rparr>))))"
proof -
  let ?d = "decoder_new\<lparr>dec_buffer := damaged_example\<rparr>"
  have bad: "parse_frame (\<lambda>_. 7) damaged_example = Err (MessageCrcMismatch 8 7)"
    by (simp add: damaged_example_def parse_frame_def frame_consts Let_def from_be_bytes_def
        be_nat_def crc32_def)
  then have none: "frame_bytes (\<lambda>_. 7) ?d = 0" by (simp add: frame_bytes_def)
  obtain r d' where dec: "decode (\<lambda>_. 7) ?d = (r, d')"
    by (rule prod.exhaust)
  from decode_accounts_for_every_byte [OF dec]
  have "length (dec_buffer ?d) =
      frame_bytes (\<lambda>_. 7) ?d + (bytes_skipped d' - bytes_skipped ?d) + length (dec_buffer d')"
    by (elim conjE)
  then have "length damaged_example = bytes_skipped d' - bytes_skipped ?d + length (dec_buffer d')"
    by (simp add: none)
  then show ?thesis unfolding dec by (simp add: damaged_example_def decoder_new_def)
qed

text \<open>A header value of an unknown type makes the decoder skip one byte, not the message:
  the documentation of \<open>try_recover\<close> promises that header errors skip the whole damaged
  message, but only \<open>HeaderParseFailed\<close> does.\<close>

theorem invalid_header_type_skips_one_byte:
  assumes "parse_frame checksum (dec_buffer d) = Err (InvalidHeaderType t)"
    and "dec_state d \<noteq> Stopped" and "error_count d + 1 < max_errors d"
  shows "decode checksum d = (Err (InvalidHeaderType t),
    d\<lparr>dec_buffer := drop 1 (dec_buffer d), dec_state := Recovering,
      error_count := error_count d + 1, bytes_skipped := bytes_skipped d + 1\<rparr>)"
proof -
  have "dec_buffer d \<noteq> []" using assms(1) by auto
  with assms show ?thesis
    by (auto simp: decode_def try_recover_def skip_byte_def Suc_le_eq)
qed

theorem invalid_header_type_skips_one_byte_witness:
  "let m = [0, 0, 0, 19, 0, 0, 0, 3, 0, 0, 0, 7, 1, 97, 10, 0, 0, 0, 7]
   in length m = be_nat (take 4 m) \<and>
      bytes_skipped (snd (decode (\<lambda>_. 7) (decoder_new\<lparr>dec_buffer := m\<rparr>))) = 1"
proof -
  let ?m = "[0, 0, 0, 19, 0, 0, 0, 3, 0, 0, 0, 7, 1, 97, 10, 0, 0, 0, 7] :: u8 list"
  have "parse_frame (\<lambda>_. 7) (dec_buffer (decoder_new\<lparr>dec_buffer := ?m\<rparr>)) =
      Err (InvalidHeaderType 10)"
    by (simp add: parse_frame_def frame_consts Let_def from_be_bytes_def be_nat_def crc32_def
        parse_headers_def parse_headers_loop.simps header_value_type_try_from_def)
  from invalid_header_type_skips_one_byte [OF this] show ?thesis
    by (simp add: decoder_new_def DEFAULT_MAX_ERRORS_def be_nat_def)
qed

end
