(* ===== verification/Rust_Str.thy ===== *)
theory Rust_Str
  imports Prelude
begin

text \<open>
  The \<open>str\<close> methods the modelled code calls.  A \<open>str\<close> is its list of UTF-8 bytes, so \<open>trim\<close>
  spells out the UTF-8 encodings of the characters with the Unicode property White_Space and
  \<open>to_ascii_lowercase\<close> changes the bytes of the ASCII capital letters only.
\<close>

subsection \<open>Case\<close>

definition ascii_lower :: "char \<Rightarrow> char" where
  "ascii_lower c = (let n = of_char c :: nat in if 65 \<le> n \<and> n \<le> 90 then char_of (n + 32) else c)"

definition to_ascii_lowercase :: "string \<Rightarrow> string" where
  "to_ascii_lowercase s = map ascii_lower s"

definition is_ascii_digit :: "char \<Rightarrow> bool" where
  "is_ascii_digit c \<longleftrightarrow> (let n = of_char c :: nat in 48 \<le> n \<and> n \<le> 57)"

definition is_ascii_lowercase :: "char \<Rightarrow> bool" where
  "is_ascii_lowercase c \<longleftrightarrow> (let n = of_char c :: nat in 97 \<le> n \<and> n \<le> 122)"

definition is_ascii_uppercase :: "char \<Rightarrow> bool" where
  "is_ascii_uppercase c \<longleftrightarrow> (let n = of_char c :: nat in 65 \<le> n \<and> n \<le> 90)"

definition is_ascii_alphanumeric :: "char \<Rightarrow> bool" where
  "is_ascii_alphanumeric c \<longleftrightarrow> is_ascii_digit c \<or> is_ascii_lowercase c \<or> is_ascii_uppercase c"

lemma of_char_ascii_lower:
  "(of_char (ascii_lower c) :: nat) =
     (if 65 \<le> (of_char c :: nat) \<and> (of_char c :: nat) \<le> 90 then of_char c + 32 else of_char c)"
  by (simp add: ascii_lower_def Let_def)

lemma ascii_lower_idem [simp]: "ascii_lower (ascii_lower c) = ascii_lower c"
  by (simp add: ascii_lower_def Let_def)

lemma to_ascii_lowercase_idem [simp]:
  "to_ascii_lowercase (to_ascii_lowercase s) = to_ascii_lowercase s"
  by (simp add: to_ascii_lowercase_def comp_def)

lemma to_ascii_lowercase_Nil [simp]: "to_ascii_lowercase s = [] \<longleftrightarrow> s = []"
  by (simp add: to_ascii_lowercase_def)

lemma length_to_ascii_lowercase [simp]: "length (to_ascii_lowercase s) = length s"
  by (simp add: to_ascii_lowercase_def)

lemma to_ascii_lowercase_append [simp]:
  "to_ascii_lowercase (s @ t) = to_ascii_lowercase s @ to_ascii_lowercase t"
  by (simp add: to_ascii_lowercase_def)

subsection \<open>White space\<close>

definition utf8_white_space :: "nat list list" where
  "utf8_white_space =
     [[9], [10], [11], [12], [13], [32], [0xC2, 0x85], [0xC2, 0xA0], [0xE1, 0x9A, 0x80]] @
     map (\<lambda>b. [0xE2, 0x80, b]) [0x80 ..< 0x8B] @
     [[0xE2, 0x80, 0xA8], [0xE2, 0x80, 0xA9], [0xE2, 0x80, 0xAF], [0xE2, 0x81, 0x9F],
      [0xE3, 0x80, 0x80]]"

definition is_white_space :: "string \<Rightarrow> bool" where
  "is_white_space s \<longleftrightarrow> map of_char s \<in> set utf8_white_space"

text \<open>The length of the white-space character a string starts or ends with, 0 if there is none.\<close>

definition ws_front :: "string \<Rightarrow> nat" where
  "ws_front s = (if is_white_space (take 1 s) then 1 else if is_white_space (take 2 s) then 2
     else if is_white_space (take 3 s) then 3 else 0)"

definition ws_back :: "string \<Rightarrow> nat" where
  "ws_back s = (if is_white_space (drop (length s - 1) s) then 1
     else if is_white_space (drop (length s - 2) s) then 2
     else if is_white_space (drop (length s - 3) s) then 3 else 0)"

function trim_start :: "string \<Rightarrow> string" where
  "trim_start s = (if ws_front s = 0 \<or> s = [] then s else trim_start (drop (ws_front s) s))"
  by pat_completeness auto
termination by (relation "measure length") auto

function trim_end :: "string \<Rightarrow> string" where
  "trim_end s = (if ws_back s = 0 \<or> s = [] then s else trim_end (take (length s - ws_back s) s))"
  by pat_completeness auto
termination by (relation "measure length") auto

definition trim :: "string \<Rightarrow> string" where
  "trim s = trim_end (trim_start s)"

declare trim_start.simps [simp del] trim_end.simps [simp del]

lemma not_white_space_Nil [simp]: "\<not> is_white_space []"
  by (simp add: is_white_space_def utf8_white_space_def)

lemma white_space_not_letter:
  assumes "is_white_space s" "c \<in> set s"
  shows "\<not> (65 \<le> (of_char c :: nat) \<and> (of_char c :: nat) \<le> 90) \<and>
         \<not> (97 \<le> (of_char c :: nat) \<and> (of_char c :: nat) \<le> 122)"
proof -
  have all: "\<forall>w \<in> set utf8_white_space. \<forall>b \<in> set w. \<not> (65 \<le> b \<and> b \<le> 90) \<and> \<not> (97 \<le> b \<and> b \<le> 122)"
    by (simp add: utf8_white_space_def)
  have "map of_char s \<in> set utf8_white_space" "of_char c \<in> set (map of_char s :: nat list)"
    using assms by (simp_all add: is_white_space_def)
  with all show ?thesis by blast
qed

lemma ascii_lower_eq_of_char:
  assumes "(of_char (ascii_lower c) :: nat) \<notin> {97 .. 122}"
  shows "ascii_lower c = c"
  using assms by (auto simp: ascii_lower_def Let_def split: if_splits)

lemma is_white_space_lower [simp]: "is_white_space (to_ascii_lowercase s) = is_white_space s"
proof
  assume ws: "is_white_space s"
  have "to_ascii_lowercase s = s"
    unfolding to_ascii_lowercase_def
    by (rule map_idI) (use white_space_not_letter [OF ws] in \<open>auto simp: ascii_lower_def Let_def\<close>)
  with ws show "is_white_space (to_ascii_lowercase s)" by simp
next
  assume ws: "is_white_space (to_ascii_lowercase s)"
  have "to_ascii_lowercase s = s"
    unfolding to_ascii_lowercase_def
  proof (rule map_idI)
    fix c assume "c \<in> set s"
    then have "ascii_lower c \<in> set (to_ascii_lowercase s)" by (simp add: to_ascii_lowercase_def)
    from white_space_not_letter [OF ws this] show "ascii_lower c = c"
      by (intro ascii_lower_eq_of_char) simp
  qed
  with ws show "is_white_space s" by simp
qed

lemma take_to_ascii_lowercase: "take n (to_ascii_lowercase s) = to_ascii_lowercase (take n s)"
  by (simp add: to_ascii_lowercase_def take_map)

lemma drop_to_ascii_lowercase: "drop n (to_ascii_lowercase s) = to_ascii_lowercase (drop n s)"
  by (simp add: to_ascii_lowercase_def drop_map)

lemma ws_front_lower [simp]: "ws_front (to_ascii_lowercase s) = ws_front s"
  by (simp add: ws_front_def take_to_ascii_lowercase)

lemma ws_back_lower [simp]: "ws_back (to_ascii_lowercase s) = ws_back s"
  by (simp add: ws_back_def drop_to_ascii_lowercase)

lemma trim_start_lower: "trim_start (to_ascii_lowercase s) = to_ascii_lowercase (trim_start s)"
proof (induction s rule: trim_start.induct)
  case (1 s)
  show ?case
  proof (cases "ws_front s = 0 \<or> s = []")
    case True
    then show ?thesis by (subst (1 2) trim_start.simps) auto
  next
    case False
    then have "trim_start s = trim_start (drop (ws_front s) s)"
      and "trim_start (to_ascii_lowercase s) = trim_start (to_ascii_lowercase (drop (ws_front s) s))"
      by (subst trim_start.simps, simp add: drop_to_ascii_lowercase)+
    with 1 False show ?thesis by simp
  qed
qed

lemma trim_end_lower: "trim_end (to_ascii_lowercase s) = to_ascii_lowercase (trim_end s)"
proof (induction s rule: trim_end.induct)
  case (1 s)
  show ?case
  proof (cases "ws_back s = 0 \<or> s = []")
    case True
    then show ?thesis by (subst (1 2) trim_end.simps) auto
  next
    case False
    then have "trim_end s = trim_end (take (length s - ws_back s) s)"
      and "trim_end (to_ascii_lowercase s) =
        trim_end (to_ascii_lowercase (take (length s - ws_back s) s))"
      by (subst trim_end.simps, simp add: take_to_ascii_lowercase)+
    with 1 False show ?thesis by simp
  qed
qed

lemma trim_lower: "trim (to_ascii_lowercase s) = to_ascii_lowercase (trim s)"
  by (simp add: trim_def trim_start_lower trim_end_lower)

lemma ws_Nil [simp]: "ws_front [] = 0" "ws_back [] = 0"
  by (simp_all add: ws_front_def ws_back_def)

lemma ws_front_trim_start [simp]: "ws_front (trim_start s) = 0"
proof (induction s rule: trim_start.induct)
  case (1 s)
  show ?case
  proof (cases "ws_front s = 0 \<or> s = []")
    case True
    then show ?thesis by (subst trim_start.simps) auto
  next
    case False
    with 1 show ?thesis by (subst trim_start.simps) auto
  qed
qed

lemma ws_back_trim_end [simp]: "ws_back (trim_end s) = 0"
proof (induction s rule: trim_end.induct)
  case (1 s)
  show ?case
  proof (cases "ws_back s = 0 \<or> s = []")
    case True
    then show ?thesis by (subst trim_end.simps) auto
  next
    case False
    with 1 show ?thesis by (subst trim_end.simps) auto
  qed
qed

lemma trim_end_prefix: "\<exists>n. trim_end s = take n s"
proof (induction s rule: trim_end.induct)
  case (1 s)
  show ?case
  proof (cases "ws_back s = 0 \<or> s = []")
    case True
    then have "trim_end s = take (length s) s" by (subst trim_end.simps) auto
    then show ?thesis by blast
  next
    case False
    with 1 obtain n where "trim_end (take (length s - ws_back s) s) = take n (take (length s - ws_back s) s)"
      by auto
    with False have "trim_end s = take (min n (length s - ws_back s)) s"
      by (subst trim_end.simps) (simp add: take_take)
    then show ?thesis by blast
  qed
qed

lemma ws_front_eq_0: "ws_front s = 0 \<longleftrightarrow> (\<forall>k \<in> {1, 2, 3}. \<not> is_white_space (take k s))"
  by (simp add: ws_front_def)

lemma ws_front_take: "ws_front s = 0 \<Longrightarrow> ws_front (take n s) = 0"
proof -
  assume "ws_front s = 0"
  then have w: "\<not> is_white_space (take k s)" if "k \<in> {1, 2, 3}" for k
    using that by (auto simp: ws_front_eq_0)
  have "\<not> is_white_space (take k (take n s))" if "k \<in> {1, 2, 3}" for k
  proof (cases "k \<le> n")
    case True
    with w [OF that] show ?thesis by (simp add: min_def)
  next
    case False
    then have "n < 3" using that by auto
    then consider "n = 0" | "n \<in> {1, 2, 3}" by force
    then show ?thesis using False w [of n] by cases (auto simp: min_def)
  qed
  then show ?thesis by (auto simp: ws_front_eq_0)
qed

lemma trim_start_id: "ws_front s = 0 \<Longrightarrow> trim_start s = s"
  by (subst trim_start.simps) simp

lemma trim_end_id: "ws_back s = 0 \<Longrightarrow> trim_end s = s"
  by (subst trim_end.simps) simp

text \<open>A string is trimmed when it neither starts nor ends with white space.\<close>

definition trimmed :: "string \<Rightarrow> bool" where
  "trimmed s \<longleftrightarrow> ws_front s = 0 \<and> ws_back s = 0"

lemma trimmed_trim [simp]: "trimmed (trim s)"
proof -
  obtain n where "trim_end (trim_start s) = take n (trim_start s)" using trim_end_prefix by blast
  then have "ws_front (trim s) = 0" by (simp add: trim_def ws_front_take)
  then show ?thesis by (simp add: trimmed_def trim_def)
qed

lemma trim_trimmed [simp]: "trimmed s \<Longrightarrow> trim s = s"
  by (simp add: trimmed_def trim_def trim_start_id trim_end_id)

lemma trim_idem [simp]: "trim (trim s) = trim s"
  by simp

lemma trim_Nil [simp]: "trim [] = []"
  by (simp add: trimmed_def ws_front_def ws_back_def)

lemma trimmed_lower [simp]: "trimmed (to_ascii_lowercase s) = trimmed s"
  by (simp add: trimmed_def)

text \<open>Printable ASCII without blanks is trimmed.\<close>

lemma trimmed_nonblank:
  assumes "\<forall>c \<in> set s. 33 \<le> (of_char c :: nat) \<and> (of_char c :: nat) \<le> 126"
  shows "trimmed s"
proof -
  have no: "\<forall>w \<in> set utf8_white_space. w \<noteq> [] \<and> (\<forall>b \<in> set w. \<not> (33 \<le> b \<and> b \<le> 126))"
    by (simp add: utf8_white_space_def)
  have "\<not> is_white_space t" if "set t \<subseteq> set s" for t
  proof
    assume "is_white_space t"
    with no have t: "map of_char t \<noteq> ([] :: nat list)"
      "\<forall>b \<in> set (map of_char t :: nat list). \<not> (33 \<le> b \<and> b \<le> 126)"
      unfolding is_white_space_def by blast+
    then have "hd t \<in> set t" by (cases t) auto
    with t(2) that assms show False by auto
  qed
  then show ?thesis
    by (simp add: trimmed_def ws_front_def ws_back_def set_take_subset set_drop_subset)
qed

subsection \<open>Prefixes, suffixes and splitting\<close>

definition starts_with :: "string \<Rightarrow> string \<Rightarrow> bool" where
  "starts_with s p \<longleftrightarrow> take (length p) s = p"

definition strip_suffix :: "string \<Rightarrow> string \<Rightarrow> string option" where
  "strip_suffix s x =
     (if length x \<le> length s \<and> drop (length s - length x) s = x
      then Some (take (length s - length x) s) else None)"

fun str_contains :: "string \<Rightarrow> string \<Rightarrow> bool" where
  "str_contains [] p = (p = [])"
| "str_contains (c # s) p = (take (length p) (c # s) = p \<or> str_contains s p)"

text \<open>\<open>str::split(char)\<close> always yields at least one piece; \<open>split_once\<close> splits at the first match.\<close>

fun split_char :: "char \<Rightarrow> string \<Rightarrow> string list" where
  "split_char d [] = [[]]"
| "split_char d (c # s) =
     (if c = d then [] # split_char d s
      else case split_char d s of [] \<Rightarrow> [[c]] | p # ps \<Rightarrow> (c # p) # ps)"

fun split_once :: "char \<Rightarrow> string \<Rightarrow> (string \<times> string) option" where
  "split_once d [] = None"
| "split_once d (c # s) =
     (if c = d then Some ([], s)
      else map_option (\<lambda>(a, b). (c # a, b)) (split_once d s))"

lemma strip_suffix_Some: "strip_suffix s x = Some b \<longleftrightarrow> s = b @ x"
  by (auto simp: strip_suffix_def) (metis append_take_drop_id)

lemma strip_suffix_append [simp]: "strip_suffix (b @ x) x = Some b"
  by (simp add: strip_suffix_Some)

lemma starts_with_iff: "starts_with s p \<longleftrightarrow> (\<exists>t. s = p @ t)"
  unfolding starts_with_def by (metis append_eq_conv_conj)

lemma starts_with_append: "starts_with s p \<Longrightarrow> starts_with (s @ t) p"
  by (auto simp: starts_with_iff)

lemma split_char_nonempty [simp]: "split_char d s \<noteq> []"
  by (induction s) (auto split: list.splits)

lemma split_char_single: "d \<notin> set a \<Longrightarrow> split_char d a = [a]"
  by (induction a) auto

lemma split_char_Cons: "d \<notin> set a \<Longrightarrow> split_char d (a @ d # b) = a # split_char d b"
  by (induction a) auto

lemma split_once_none: "d \<notin> set a \<Longrightarrow> split_once d a = None"
  by (induction a) auto

lemma split_once_append: "d \<notin> set a \<Longrightarrow> split_once d (a @ d # b) = Some (a, b)"
  by (induction a) auto

text \<open>Appending visible ASCII to a trimmed string keeps it trimmed.\<close>

lemma white_space_bytes: "is_white_space t \<Longrightarrow> c \<in> set t \<Longrightarrow> \<not> (33 \<le> (of_char c :: nat) \<and> (of_char c :: nat) \<le> 126)"
proof -
  assume ws: "is_white_space t" and c: "c \<in> set t"
  have all: "\<forall>w \<in> set utf8_white_space. \<forall>b \<in> set w. \<not> (33 \<le> b \<and> b \<le> 126)"
    by (simp add: utf8_white_space_def)
  have "map of_char t \<in> set utf8_white_space" "of_char c \<in> set (map of_char t :: nat list)"
    using ws c by (simp_all add: is_white_space_def)
  with all show ?thesis by blast
qed

lemma trimmed_append:
  assumes m: "trimmed m" "m \<noteq> []"
    and x: "x \<noteq> []" "\<forall>c \<in> set x. 33 \<le> (of_char c :: nat) \<and> (of_char c :: nat) \<le> 126"
  shows "trimmed (m @ x)"
proof -
  have "\<not> is_white_space (take k (m @ x))" if "k \<in> {1, 2, 3}" for k
  proof (cases "k \<le> length m")
    case True
    with m that show ?thesis by (auto simp: trimmed_def ws_front_eq_0)
  next
    case False
    then obtain j where j: "k = length m + Suc j" by (metis less_iff_Suc_add not_le add_Suc_right)
    then have "hd x \<in> set (take k (m @ x))" using x(1) by (cases x) auto
    moreover have "33 \<le> (of_char (hd x) :: nat) \<and> (of_char (hd x) :: nat) \<le> 126" using x by simp
    ultimately show ?thesis using white_space_bytes by blast
  qed
  moreover have "\<not> is_white_space (drop (length (m @ x) - k) (m @ x))" if "0 < k" for k
  proof -
    have "\<not> length m + length x \<le> length m + length x - k" using that x(1) by (cases x) auto
    then have "last x \<in> set (drop (length (m @ x) - k) (m @ x))"
      using x(1) last_in_set [of "drop (length (m @ x) - k) (m @ x)"]
      by (simp add: last_drop del: drop_append)
    moreover have "33 \<le> (of_char (last x) :: nat) \<and> (of_char (last x) :: nat) \<le> 126" using x by simp
    ultimately show ?thesis using white_space_bytes by blast
  qed
  ultimately show ?thesis
    unfolding trimmed_def ws_front_eq_0 by (simp add: ws_back_def del: drop_append)
qed

end
