(* ===== verification/Model_Support.thy ===== *)
theory Model_Support
  imports Rust_Str "HOL-Library.List_Lexorder" "HOL-Library.Char_ord"
begin

text \<open>
  Which account may serve which model (\<open>src/model/model_support.rs\<close>): the normal form of a
  model name, the spellings of a Claude model (\<open>claude-sonnet-4.5\<close>, \<open>claude-sonnet-4-5\<close>,
  \<open>claude-sonnet-4-5-20250929\<close>), the suffixes \<open>-thinking\<close> and \<open>[1m]\<close>, the match of a request
  against an account's model list, and the subscription tier of an account.
  \<open>str::to_lowercase\<close> is the full Unicode case mapping; it is the parameter \<open>lowercase\<close> of
  \<open>subscription_tier_key\<close>, of which nothing is assumed.
\<close>

subsection \<open>Model\<close>

definition normalize_model_id :: "string \<Rightarrow> string option" where
  "normalize_model_id v =
     (let v = trim v in if v = [] then None else Some (to_ascii_lowercase v))"

fun normalize_supported_models_from :: "string list \<Rightarrow> string list \<Rightarrow> string list" where
  "normalize_supported_models_from out [] = out"
| "normalize_supported_models_from out (model # models) =
     (case normalize_model_id model of
        None \<Rightarrow> normalize_supported_models_from out models
      | Some normalized \<Rightarrow>
          if normalized \<in> set out then normalize_supported_models_from out models
          else normalize_supported_models_from (out @ [normalized]) models)"

definition normalize_supported_models :: "string list \<Rightarrow> string list" where
  "normalize_supported_models models = normalize_supported_models_from [] models"

definition push_unique_model :: "string list \<Rightarrow> string \<Rightarrow> string list" where
  "push_unique_model out model =
     (if trim model = [] then out else if model \<in> set out then out else out @ [model])"

definition is_yyyymmdd :: "string \<Rightarrow> bool" where
  "is_yyyymmdd v \<longleftrightarrow> length v = 8 \<and> list_all is_ascii_digit v"

text \<open>Family, major version, minor version and date.\<close>

definition parse_modern_claude_model ::
    "string list \<Rightarrow> (string \<times> string \<times> string option \<times> string option) option" where
  "parse_modern_claude_model parts =
     (if length parts < 3 \<or> parts ! 0 \<noteq> ''claude'' then None
      else let family = parts ! 1 in
      if \<not> list_all is_ascii_lowercase family then None
      else let version = parts ! 2 in
      case split_once CHR ''.'' version of
        Some (major, minor) \<Rightarrow>
          if list_all is_ascii_digit major \<and> list_all is_ascii_digit minor
          then Some (family, major, Some minor, None) else None
      | None \<Rightarrow>
          if \<not> list_all is_ascii_digit version then None
          else if length parts = 3 then Some (family, version, None, None)
          else if length parts = 4 then
            (let next = parts ! 3 in
             if is_yyyymmdd next then Some (family, version, None, Some next)
             else if list_all is_ascii_digit next then Some (family, version, Some next, None)
             else None)
          else
            (let minor = parts ! 3; date = parts ! 4 in
             if list_all is_ascii_digit minor \<and> is_yyyymmdd date
             then Some (family, version, Some minor, Some date) else None))"

definition parse_legacy_claude_35_model :: "string list \<Rightarrow> (string \<times> string option) option" where
  "parse_legacy_claude_35_model parts =
     (if length parts < 3 \<or> parts ! 0 \<noteq> ''claude'' then None
      else if parts ! 1 = ''3.5'' \<and> parts ! 2 \<in> {''sonnet'', ''haiku''}
      then Some (parts ! 2, None)
      else if parts ! 1 = ''3'' \<and> parts ! 2 = ''5'' then
        (if length parts \<le> 3 then None
         else if parts ! 3 \<in> {''sonnet'', ''haiku''}
         then Some (parts ! 3,
                    if 4 < length parts \<and> is_yyyymmdd (parts ! 4) then Some (parts ! 4) else None)
         else None)
      else None)"

definition claude_base_model_variants :: "string \<Rightarrow> string list" where
  "claude_base_model_variants model =
     (let parts = split_char CHR ''-'' model; out = [] in
      case parse_modern_claude_model parts of
        Some (family, major, minor, date) \<Rightarrow>
          (let stem = ''claude-'' @ family @ ''-'' @ major;
               dot = map_option (\<lambda>minor. stem @ ''.'' @ minor) minor;
               dash = map_option (\<lambda>minor. stem @ ''-'' @ minor) minor;
               base = (case minor of Some minor \<Rightarrow> stem @ ''-'' @ minor | None \<Rightarrow> stem);
               out = (case dot of Some d \<Rightarrow> push_unique_model out d | None \<Rightarrow> out);
               out = (case dash of Some d \<Rightarrow> push_unique_model out d | None \<Rightarrow> out);
               out = push_unique_model out base
           in case date of
                Some date \<Rightarrow>
                  push_unique_model out
                    (case minor of Some minor \<Rightarrow> stem @ ''-'' @ minor @ ''-'' @ date
                     | None \<Rightarrow> stem @ ''-'' @ date)
              | None \<Rightarrow> out)
      | None \<Rightarrow>
          (case parse_legacy_claude_35_model parts of
             Some (family, date) \<Rightarrow>
               (let out = push_unique_model out (''claude-3-5-'' @ family);
                    out = push_unique_model out (''claude-3.5-'' @ family)
                in case date of
                     Some date \<Rightarrow> push_unique_model out (''claude-3-5-'' @ family @ ''-'' @ date)
                   | None \<Rightarrow> out)
           | None \<Rightarrow> out))"

definition split_supported_model_suffix :: "string \<Rightarrow> string \<times> string option" where
  "split_supported_model_suffix model =
     (case strip_suffix model ''-thinking'' of
        Some base \<Rightarrow> (base, Some ''-thinking'')
      | None \<Rightarrow> (model, None))"

definition apply_supported_model_suffix :: "string \<Rightarrow> string option \<Rightarrow> string" where
  "apply_supported_model_suffix model suffix =
     (case suffix of Some suffix \<Rightarrow> model @ suffix | None \<Rightarrow> model)"

definition claude_model_variants :: "string \<Rightarrow> string list" where
  "claude_model_variants model =
     (let (base, suffix) = split_supported_model_suffix model;
          variants = push_unique_model [] (apply_supported_model_suffix base suffix)
      in fold (\<lambda>v variants. push_unique_model variants (apply_supported_model_suffix v suffix))
           (claude_base_model_variants base) variants)"

fun expand_claude_from :: "string list \<Rightarrow> string list \<Rightarrow> string list" where
  "expand_claude_from out [] = out"
| "expand_claude_from out (model # models) =
     (case normalize_model_id model of
        None \<Rightarrow> expand_claude_from out models
      | Some model \<Rightarrow>
          if \<not> starts_with model ''claude-'' then expand_claude_from out models
          else expand_claude_from
                 (fold (\<lambda>variant out. push_unique_model out variant)
                    (claude_model_variants model) out) models)"

definition expand_claude_supported_model_variants :: "string list \<Rightarrow> string list" where
  "expand_claude_supported_model_variants models = expand_claude_from [] models"

definition strip_context_window_suffix :: "string \<Rightarrow> string" where
  "strip_context_window_suffix model =
     (case strip_suffix model ''[1m]'' of
        Some base \<Rightarrow> base
      | None \<Rightarrow>
          (case Option.bind (strip_suffix model ''-thinking'') (\<lambda>base. strip_suffix base ''[1m]'') of
             Some base \<Rightarrow> base @ ''-thinking''
           | None \<Rightarrow> model))"

definition support_match_variants :: "string \<Rightarrow> string list" where
  "support_match_variants model =
     (let model = strip_context_window_suffix model;
          variants = expand_claude_supported_model_variants [model];
          variants = variants @
            (case strip_suffix model ''-thinking'' of
               Some base \<Rightarrow> expand_claude_supported_model_variants [base]
             | None \<Rightarrow> expand_claude_supported_model_variants [model @ ''-thinking'']);
          variants = (if variants = [] then [model] else variants)
      in remdups_adj (sort variants))"

definition model_is_supported_by_list :: "string list \<Rightarrow> string option list \<Rightarrow> bool" where
  "model_is_supported_by_list models candidates =
     (if models = [] then True
      else
        let supported_models =
              concat (map support_match_variants (normalize_supported_models models)) in
        if supported_models = [] then False
        else list_ex (\<lambda>candidate.
               case normalize_model_id candidate of
                 None \<Rightarrow> False
               | Some model \<Rightarrow>
                   list_ex (\<lambda>supported. supported \<in> set (support_match_variants model))
                     supported_models)
             (List.map_filter id candidates))"

definition subscription_tier_key :: "(string \<Rightarrow> string) \<Rightarrow> string option \<Rightarrow> string" where
  "subscription_tier_key lowercase title =
     (case title of
        None \<Rightarrow> ''unknown''
      | Some title \<Rightarrow>
          (let title = trim title in
           if title = [] then ''unknown''
           else
             let lower = lowercase title; compact = filter is_ascii_alphanumeric lower in
             if str_contains compact ''student'' then ''students''
             else if str_contains compact ''power'' then ''power''
             else if str_contains compact ''promax'' then ''pro_max''
             else if str_contains lower ''pro+'' \<or> str_contains lower ''pro plus'' \<or>
               str_contains lower ''pro_plus'' \<or> str_contains lower ''pro-plus'' \<or>
               str_contains compact ''proplus'' then ''pro_plus''
             else if str_contains lower ''trial'' \<or>
               str_contains lower (map char_of [0xE8 :: nat, 0xAF, 0x95, 0xE7, 0x94, 0xA8])
             then ''free''
             else if str_contains lower ''free'' \<or>
               str_contains lower (map char_of [0xE5 :: nat, 0x85, 0x8D, 0xE8, 0xB4, 0xB9])
             then ''free''
             else if str_contains lower ''pro'' then ''pro''
             else ''unknown''))"

subsection \<open>Normal forms\<close>

lemma normalize_model_id_Some:
  "normalize_model_id v = Some n \<Longrightarrow> normalize_model_id n = Some n"
  by (auto simp: normalize_model_id_def Let_def trim_lower split: if_splits)

lemma normalize_from_spec:
  "distinct out \<Longrightarrow>
   distinct (normalize_supported_models_from out models) \<and>
   set (normalize_supported_models_from out models) =
     set out \<union> {n. \<exists>m \<in> set models. normalize_model_id m = Some n}"
  by (induction out models rule: normalize_supported_models_from.induct)
     (auto split: option.splits)

lemma set_normalize_supported_models:
  "set (normalize_supported_models models) = {n. \<exists>m \<in> set models. normalize_model_id m = Some n}"
  using normalize_from_spec [of "[]" models] by (simp add: normalize_supported_models_def)

lemma distinct_normalize_supported_models: "distinct (normalize_supported_models models)"
  using normalize_from_spec [of "[]" models] by (simp add: normalize_supported_models_def)

lemma normalize_from_normal:
  "distinct (out @ models) \<Longrightarrow> \<forall>m \<in> set models. normalize_model_id m = Some m \<Longrightarrow>
   normalize_supported_models_from out models = out @ models"
  by (induction models arbitrary: out) auto

lemma normalize_supported_models_idem:
  "normalize_supported_models (normalize_supported_models models) = normalize_supported_models models"
  using normalize_from_normal [of "[]" "normalize_supported_models models"]
  by (auto simp: distinct_normalize_supported_models set_normalize_supported_models
      normalize_supported_models_def [of "normalize_supported_models models"]
      dest: normalize_model_id_Some)

lemma support_match_variants_nonempty [simp]: "support_match_variants m \<noteq> []"
proof -
  have "sort vs \<noteq> []" if "vs \<noteq> []" for vs :: "string list"
    using that by (metis length_0_conv length_sort)
  then show ?thesis by (simp add: support_match_variants_def Let_def)
qed

text \<open>What the list match means: a request is served if one of its spellings is one of a listed model's.\<close>

lemma model_is_supported_iff:
  "model_is_supported_by_list models candidates \<longleftrightarrow>
     models = [] \<or>
     (\<exists>listed \<in> set models. \<exists>n. normalize_model_id listed = Some n \<and>
        (\<exists>c m. Some c \<in> set candidates \<and> normalize_model_id c = Some m \<and>
           set (support_match_variants n) \<inter> set (support_match_variants m) \<noteq> {}))"
proof (cases "models = []")
  case False
  let ?sup = "concat (map support_match_variants (normalize_supported_models models))"
  have sup: "s \<in> set ?sup \<longleftrightarrow> (\<exists>listed \<in> set models. \<exists>n. normalize_model_id listed = Some n \<and>
      s \<in> set (support_match_variants n))" for s
    by (auto simp: set_normalize_supported_models)
  have cands: "set (List.map_filter id candidates) = {c. Some c \<in> set candidates}"
    by (force simp: List.map_filter_def)
  have ne: "?sup = [] \<longleftrightarrow> (\<forall>s. s \<notin> set ?sup)" by (metis list.set_intros(1) neq_Nil_conv empty_iff empty_set)
  have "model_is_supported_by_list models candidates \<longleftrightarrow>
      (\<exists>c m. Some c \<in> set candidates \<and> normalize_model_id c = Some m \<and>
         (\<exists>s \<in> set ?sup. s \<in> set (support_match_variants m)))"
    using False
    by (simp add: model_is_supported_by_list_def Let_def list_ex_iff cands case_option_ex ne
        del: set_concat)
  also have "\<dots> \<longleftrightarrow> (\<exists>c m s listed n. Some c \<in> set candidates \<and> normalize_model_id c = Some m \<and>
      listed \<in> set models \<and> normalize_model_id listed = Some n \<and>
      s \<in> set (support_match_variants n) \<and> s \<in> set (support_match_variants m))"
    unfolding Bex_def sup by iprover
  also have "\<dots> \<longleftrightarrow> (\<exists>listed \<in> set models. \<exists>n. normalize_model_id listed = Some n \<and>
      (\<exists>c m. Some c \<in> set candidates \<and> normalize_model_id c = Some m \<and>
         set (support_match_variants n) \<inter> set (support_match_variants m) \<noteq> {}))"
    unfolding Bex_def by (simp only: ex_in_conv [symmetric] Int_iff) iprover
  finally show ?thesis using False by simp
qed (simp add: model_is_supported_by_list_def)

subsection \<open>Suffixes and spellings\<close>

lemma normalize_model_id_trimmed:
  "trimmed m \<Longrightarrow> m \<noteq> [] \<Longrightarrow> normalize_model_id m = Some (to_ascii_lowercase m)"
  by (simp add: normalize_model_id_def)

lemma normalize_model_id_append:
  assumes "trimmed m" "m \<noteq> []" "x \<noteq> []"
    and "\<forall>c \<in> set x. 33 \<le> (of_char c :: nat) \<and> (of_char c :: nat) \<le> 126"
    and "to_ascii_lowercase x = x"
  shows "normalize_model_id (m @ x) = Some (to_ascii_lowercase m @ x)"
  using trimmed_append [OF assms(1-4)] assms(2,5) by (simp add: normalize_model_id_trimmed)

lemma set_support_match_variants:
  "set (support_match_variants model) =
     (let model = strip_context_window_suffix model;
          vs = set (expand_claude_supported_model_variants [model]) \<union>
            (case strip_suffix model ''-thinking'' of
               Some base \<Rightarrow> set (expand_claude_supported_model_variants [base])
             | None \<Rightarrow> set (expand_claude_supported_model_variants [model @ ''-thinking'']))
      in if vs = {} then {model} else vs)"
  by (simp add: support_match_variants_def Let_def split: option.splits)

text \<open>The \<open>[1m]\<close> suffix never changes the spellings.\<close>

lemma strip_context_fixed:
  assumes "strip_context_window_suffix m = m"
  shows "strip_suffix m ''[1m]'' = None"
proof (cases "strip_suffix m ''[1m]''")
  case (Some b)
  then have "strip_context_window_suffix m = b" "m = b @ ''[1m]''"
    by (simp_all add: strip_context_window_suffix_def strip_suffix_Some)
  with assms show ?thesis by simp
qed

lemma strip_context_thinking:
  assumes "strip_context_window_suffix m = m"
  shows "strip_context_window_suffix (m @ ''-thinking'') = m @ ''-thinking''"
proof -
  have "strip_suffix (m @ ''-thinking'') ''[1m]'' = None" by (simp add: strip_suffix_def)
  with strip_context_fixed [OF assms] show ?thesis by (simp add: strip_context_window_suffix_def)
qed

lemma variants_1m:
  "strip_context_window_suffix m = m \<Longrightarrow>
   support_match_variants (m @ ''[1m]'') = support_match_variants m"
proof -
  assume "strip_context_window_suffix m = m"
  moreover have "strip_context_window_suffix (m @ ''[1m]'') = m"
    by (simp add: strip_context_window_suffix_def)
  ultimately show ?thesis by (simp add: support_match_variants_def)
qed

text \<open>For Claude models \<open>-thinking\<close> does not change them either.\<close>

lemma push_unique_mono: "set out \<subseteq> set (push_unique_model out m)"
  by (auto simp: push_unique_model_def)

lemma push_unique_set: "trim m \<noteq> [] \<Longrightarrow> set (push_unique_model out m) = insert m (set out)"
  by (auto simp: push_unique_model_def)

lemma set_fold_push:
  "set (fold (\<lambda>v out. push_unique_model out (f v)) vs out) =
     set out \<union> f ` {v \<in> set vs. trim (f v) \<noteq> []}"
  by (induction vs arbitrary: out) (auto simp: push_unique_model_def)

lemma expand_single:
  "set (expand_claude_supported_model_variants [m]) =
     (case normalize_model_id m of
        None \<Rightarrow> {}
      | Some n \<Rightarrow> if starts_with n ''claude-''
                 then {v \<in> set (claude_model_variants n). trim v \<noteq> []} else {})"
  using set_fold_push [of "\<lambda>v. v"]
  by (simp add: expand_claude_supported_model_variants_def split: option.splits)

lemma set_claude_model_variants:
  "set (claude_model_variants m) =
     (let (base, x) = split_supported_model_suffix m in
      {v. trim v \<noteq> [] \<and> (v = m \<or>
            (\<exists>b \<in> set (claude_base_model_variants base). v = apply_supported_model_suffix b x))})"
proof -
  obtain base x where bx: "split_supported_model_suffix m = (base, x)" by force
  have "apply_supported_model_suffix base x = m"
    using bx by (auto simp: split_supported_model_suffix_def apply_supported_model_suffix_def
        strip_suffix_Some split: option.splits)
  then show ?thesis
    using set_fold_push [of "\<lambda>v. apply_supported_model_suffix v x" "claude_base_model_variants base"]
    by (auto simp: claude_model_variants_def bx push_unique_model_def)
qed

lemma thinking_chars:
  "\<forall>c \<in> set ''-thinking''. 33 \<le> (of_char c :: nat) \<and> (of_char c :: nat) \<le> 126"
  "to_ascii_lowercase ''-thinking'' = ''-thinking''"
  by (simp_all add: to_ascii_lowercase_def ascii_lower_def)

lemma m1_chars:
  "\<forall>c \<in> set ''[1m]''. 33 \<le> (of_char c :: nat) \<and> (of_char c :: nat) \<le> 126"
  "to_ascii_lowercase ''[1m]'' = ''[1m]''"
  by (simp_all add: to_ascii_lowercase_def ascii_lower_def)

lemma variants_thinking:
  assumes n: "normalize_model_id m = Some m" and claude: "starts_with m ''claude-''"
    and strip: "strip_context_window_suffix m = m" and base: "strip_suffix m ''-thinking'' = None"
  shows "set (support_match_variants (m @ ''-thinking'')) = set (support_match_variants m)"
proof -
  have m: "trimmed m" "m \<noteq> []" "to_ascii_lowercase m = m"
    using n by (auto simp: normalize_model_id_def Let_def split: if_splits)
       (metis trimmed_trim trimmed_lower to_ascii_lowercase_idem)+
  note strip' = strip_context_thinking [OF strip]
  have "m \<in> set (claude_model_variants m)"
    using m by (simp add: set_claude_model_variants split_def Let_def)
  then have "m \<in> set (expand_claude_supported_model_variants [m])"
    using n claude m by (simp add: expand_single)
  then show ?thesis
    by (auto simp: set_support_match_variants Let_def strip strip' base)
qed

text \<open>The three spellings of a version have the dashed one in common.\<close>

lemma digits_visible:
  "list_all is_ascii_digit s \<Longrightarrow> \<forall>c \<in> set s. 33 \<le> (of_char c :: nat) \<and> (of_char c :: nat) \<le> 126 \<and>
     ascii_lower c = c \<and> c \<noteq> CHR ''-'' \<and> c \<noteq> CHR ''.''"
  by (auto simp: list_all_iff is_ascii_digit_def ascii_lower_def Let_def)

lemma letters_visible:
  "list_all is_ascii_lowercase s \<Longrightarrow> \<forall>c \<in> set s. 33 \<le> (of_char c :: nat) \<and> (of_char c :: nat) \<le> 126 \<and>
     ascii_lower c = c \<and> c \<noteq> CHR ''-''"
  by (auto simp: list_all_iff is_ascii_lowercase_def ascii_lower_def Let_def)

definition version_name :: "string \<Rightarrow> string \<Rightarrow> string" where
  "version_name family version = ''claude-'' @ family @ ''-'' @ version"

definition spellings :: "string \<Rightarrow> string \<Rightarrow> string \<Rightarrow> string \<Rightarrow> string set" where
  "spellings family major minor date =
     {version_name family (major @ ''.'' @ minor), version_name family (major @ ''-'' @ minor),
      version_name family (major @ ''-'' @ minor @ ''-'' @ date)}"

definition spelled :: "string \<Rightarrow> string \<Rightarrow> string \<Rightarrow> string \<Rightarrow> bool" where
  "spelled family major minor date \<longleftrightarrow>
     list_all is_ascii_lowercase family \<and> list_all is_ascii_digit major \<and>
     list_all is_ascii_digit minor \<and> minor \<noteq> [] \<and> length minor \<noteq> 8 \<and> is_yyyymmdd date"

definition visible :: "char \<Rightarrow> bool" where
  "visible c \<longleftrightarrow> 33 \<le> (of_char c :: nat) \<and> (of_char c :: nat) \<le> 126 \<and> ascii_lower c = c"

lemma visible_name:
  "list_all visible (version_name family v) \<longleftrightarrow> list_all visible family \<and> list_all visible v"
  by (simp add: version_name_def) (simp add: visible_def ascii_lower_def)

lemma visible_marks [simp]: "visible CHR ''.''" "visible CHR ''-''"
  by (simp_all add: visible_def ascii_lower_def)

lemma spelling_visible:
  assumes "spelled family major minor date" "s \<in> spellings family major minor date"
  shows "\<forall>c \<in> set s. visible c"
proof -
  have d: "list_all visible t" if "list_all is_ascii_digit t" for t
    using digits_visible [OF that] by (auto simp: list_all_iff visible_def)
  have l: "list_all visible t" if "list_all is_ascii_lowercase t" for t
    using letters_visible [OF that] by (auto simp: list_all_iff visible_def)
  have "list_all visible s"
    using assms by (auto simp: spellings_def spelled_def is_yyyymmdd_def visible_name d l)
  then show ?thesis by (simp add: list_all_iff)
qed

lemma spelling_normal:
  assumes "spelled family major minor date" "s \<in> spellings family major minor date"
  shows "normalize_model_id s = Some s"
proof -
  have "trimmed s" by (rule trimmed_nonblank) (use spelling_visible [OF assms] in \<open>simp add: visible_def\<close>)
  moreover have "s \<noteq> []" using assms(2) by (auto simp: spellings_def version_name_def)
  moreover have "to_ascii_lowercase s = s"
    unfolding to_ascii_lowercase_def by (rule map_idI) (use spelling_visible [OF assms] in \<open>simp add: visible_def\<close>)
  ultimately show ?thesis by (simp add: normalize_model_id_trimmed)
qed

lemma spelling_last_digit:
  assumes "spelled family major minor date" "s \<in> spellings family major minor date"
  shows "is_ascii_digit (last s)"
proof -
  have "last s \<in> set minor \<or> last s \<in> set date"
    using assms by (auto simp: spellings_def version_name_def spelled_def is_yyyymmdd_def)
  with assms(1) show ?thesis by (auto simp: spelled_def is_yyyymmdd_def list_all_iff)
qed

lemma strip_suffix_last: "is_ascii_digit (last s) \<Longrightarrow> \<not> is_ascii_digit (last x) \<Longrightarrow> x \<noteq> [] \<Longrightarrow> strip_suffix s x = None"
  by (cases "strip_suffix s x") (auto simp: strip_suffix_Some)

lemma spelling_no_suffix:
  assumes "spelled family major minor date" "s \<in> spellings family major minor date"
  shows "strip_suffix s ''[1m]'' = None" "strip_suffix s ''-thinking'' = None"
    "strip_context_window_suffix s = s"
proof -
  show 1: "strip_suffix s ''[1m]'' = None" "strip_suffix s ''-thinking'' = None"
    by (rule strip_suffix_last [OF spelling_last_digit [OF assms]]; simp add: is_ascii_digit_def)+
  then show "strip_context_window_suffix s = s" by (simp add: strip_context_window_suffix_def)
qed

lemma dashed_in_base_variants:
  assumes sp: "spelled family major minor date" and s: "s \<in> spellings family major minor date"
  shows "version_name family (major @ ''-'' @ minor) \<in> set (claude_base_model_variants s)"
proof -
  let ?dash = "version_name family (major @ ''-'' @ minor)"
  have fam: "CHR ''-'' \<notin> set family" using sp letters_visible by (auto simp: spelled_def)
  have maj: "CHR ''-'' \<notin> set major" "CHR ''.'' \<notin> set major"
    using sp digits_visible by (auto simp: spelled_def)
  have min: "CHR ''-'' \<notin> set minor" "CHR ''.'' \<notin> set minor"
    using sp digits_visible by (auto simp: spelled_def)
  have date: "CHR ''-'' \<notin> set date" using sp digits_visible by (auto simp: spelled_def is_yyyymmdd_def)
  have head: "split_char CHR ''-'' (version_name family v) = ''claude'' # family # split_char CHR ''-'' v" for v
    using split_char_Cons [of "CHR ''-''" "''claude''" "family @ CHR ''-'' # v"]
      split_char_Cons [OF fam, of v] by (simp add: version_name_def)
  have dot: "split_char CHR ''-'' (major @ CHR ''.'' # minor) = [major @ CHR ''.'' # minor]"
    by (rule split_char_single) (use maj min in auto)
  have dash: "split_char CHR ''-'' (major @ CHR ''-'' # minor) = [major, minor]"
    using split_char_Cons [OF maj(1), of minor] split_char_single [OF min(1)] by simp
  have dated: "split_char CHR ''-'' (major @ CHR ''-'' # minor @ CHR ''-'' # date) = [major, minor, date]"
    using split_char_Cons [OF maj(1), of "minor @ CHR ''-'' # date"] split_char_Cons [OF min(1), of date]
      split_char_single [OF date] by simp
  have v: "split_once CHR ''.'' (major @ CHR ''.'' # minor) = Some (major, minor)"
      "split_once CHR ''.'' major = None"
    using split_once_append [OF maj(2), of minor] split_once_none [OF maj(2)] by auto
  have ok: "list_all is_ascii_lowercase family" "list_all is_ascii_digit major"
      "list_all is_ascii_digit minor" "\<not> is_yyyymmdd minor" "is_yyyymmdd date"
    using sp by (auto simp: spelled_def is_yyyymmdd_def)
  have "\<exists>d. parse_modern_claude_model (split_char CHR ''-'' s) = Some (family, major, Some minor, d)"
    using s unfolding spellings_def
    by (elim insertE emptyE) (simp_all add: head dot dash dated parse_modern_claude_model_def v ok)
  moreover have "trim ?dash \<noteq> []"
    using spelling_normal [OF sp, of ?dash] by (auto simp: spellings_def normalize_model_id_def Let_def)
  ultimately show ?thesis
    using push_unique_mono
    by (fastforce simp: claude_base_model_variants_def Let_def version_name_def push_unique_set
        split: option.splits)
qed

lemma dashed_in_variants:
  assumes sp: "spelled family major minor date" and s: "s \<in> spellings family major minor date"
  shows "version_name family (major @ ''-'' @ minor) \<in> set (support_match_variants s)"
proof -
  let ?dash = "version_name family (major @ ''-'' @ minor)"
  have dash: "?dash \<in> spellings family major minor date" by (simp add: spellings_def)
  have t: "trim ?dash \<noteq> []"
    using spelling_normal [OF sp dash] by (auto simp: normalize_model_id_def Let_def)
  have "?dash \<in> set (claude_model_variants s)"
    using dashed_in_base_variants [OF sp s] spelling_no_suffix(2) [OF sp s] t
    by (auto simp: set_claude_model_variants split_supported_model_suffix_def
        apply_supported_model_suffix_def)
  moreover have "starts_with s ''claude-''" using s by (auto simp: spellings_def version_name_def starts_with_def)
  ultimately have "?dash \<in> set (expand_claude_supported_model_variants [s])"
    using spelling_normal [OF sp s] t by (simp add: expand_single)
  then show ?thesis
    by (auto simp: set_support_match_variants Let_def spelling_no_suffix(3) [OF sp s])
qed

lemma supported_cong:
  assumes "normalize_model_id a = Some n" "normalize_model_id b = Some m"
    and "set (support_match_variants n) = set (support_match_variants m)"
  shows "model_is_supported_by_list models [Some a] = model_is_supported_by_list models [Some b]"
  using assms by (simp add: model_is_supported_iff)

lemma variants_1m_thinking:
  assumes "strip_context_window_suffix m = m"
  shows "support_match_variants (m @ ''[1m]'' @ ''-thinking'') = support_match_variants (m @ ''-thinking'')"
proof -
  note no = strip_context_fixed [OF assms]
  have "strip_suffix (x @ ''-thinking'') ''[1m]'' = None" for x by (simp add: strip_suffix_def)
  then have "strip_context_window_suffix ((m @ ''[1m]'') @ ''-thinking'') = m @ ''-thinking''"
      "strip_context_window_suffix (m @ ''-thinking'') = m @ ''-thinking''"
    using no by (simp_all only: strip_context_window_suffix_def strip_suffix_append bind.simps option.case)
  then show ?thesis by (simp add: support_match_variants_def)
qed

subsection \<open>Properties\<close>

text \<open>The suffixes of a Claude model, \<open>-thinking\<close> and \<open>[1m]\<close> in either order, never change
  which account may serve it: the request is matched like the base model against every list.\<close>

theorem suffixes_do_not_change_support:
  assumes m: "trimmed m" and claude: "starts_with (to_ascii_lowercase m) ''claude-''"
    and strip: "strip_context_window_suffix (to_ascii_lowercase m) = to_ascii_lowercase m"
    and base: "strip_suffix (to_ascii_lowercase m) ''-thinking'' = None"
    and x: "x \<in> {''-thinking'', ''[1m]'', ''-thinking[1m]'', ''[1m]-thinking''}"
  shows "model_is_supported_by_list models [Some (m @ x)] = model_is_supported_by_list models [Some m]"
proof (rule supported_cong)
  let ?m = "to_ascii_lowercase m"
  have ne: "m \<noteq> []" using claude by (auto simp: starts_with_def to_ascii_lowercase_def)
  have low: "to_ascii_lowercase x = x" "x \<noteq> []"
    "\<forall>c \<in> set x. 33 \<le> (of_char c :: nat) \<and> (of_char c :: nat) \<le> 126"
    using x by (auto simp: to_ascii_lowercase_def ascii_lower_def)
  show "normalize_model_id (m @ x) = Some (?m @ x)"
    using normalize_model_id_append [OF m ne low(2,3,1)] .
  show n: "normalize_model_id m = Some ?m" by (rule normalize_model_id_trimmed [OF m ne])
  have t: "set (support_match_variants (?m @ ''-thinking'')) = set (support_match_variants ?m)"
    by (rule variants_thinking [OF _ claude strip base]) (use normalize_model_id_Some [OF n] in simp)
  note v = variants_1m [OF strip_context_thinking [OF strip]] variants_1m [OF strip]
    variants_1m_thinking [OF strip] t
  from x show "set (support_match_variants (?m @ x)) = set (support_match_variants ?m)"
    by (elim insertE emptyE) (use v in simp_all)
qed

theorem suffixes_do_not_change_support_witness:
  "model_is_supported_by_list [''claude-sonnet-4.5''] [Some ''claude-sonnet-4.5[1m]-thinking''] =
   model_is_supported_by_list [''claude-sonnet-4.5''] [Some ''claude-sonnet-4.5'']"
  using suffixes_do_not_change_support
    [of "''claude-sonnet-4.5''" "''[1m]-thinking''" "[''claude-sonnet-4.5'']"]
  by (simp add: trimmed_nonblank to_ascii_lowercase_def ascii_lower_def starts_with_def
      strip_context_window_suffix_def strip_suffix_def)

text \<open>The dotted, the dashed and the dated spelling of a Claude version stand for each
  other: an account whose list names one of them serves a request that names any of them.\<close>

theorem spellings_stand_for_each_other:
  assumes "spelled family major minor date"
    and "listed \<in> spellings family major minor date"
    and "requested \<in> spellings family major minor date"
  shows "model_is_supported_by_list (before @ [listed] @ behind) [Some requested]"
  using dashed_in_variants [OF assms(1,2)] dashed_in_variants [OF assms(1,3)]
    spelling_normal [OF assms(1,2)] spelling_normal [OF assms(1,3)]
  by (auto simp: model_is_supported_iff)

theorem spellings_stand_for_each_other_witness:
  "model_is_supported_by_list [''auto'', ''claude-sonnet-4.5''] [Some ''claude-sonnet-4-5-20250929'']"
proof -
  have sp: "spelled ''sonnet'' ''4'' ''5'' ''20250929''"
    by (simp add: spelled_def is_ascii_lowercase_def is_ascii_digit_def is_yyyymmdd_def)
  show ?thesis
    using spellings_stand_for_each_other [OF sp, of "''claude-sonnet-4.5''" "''claude-sonnet-4-5-20250929''" "[''auto'']" "[]"]
    by (simp add: spellings_def version_name_def)
qed

text \<open>An empty list allows every model; a listed model that is not blank is always served,
  in any capitalisation and with blanks around it; and lengthening a list that is not empty
  takes no model away.\<close>

theorem model_lists_admit_what_they_name:
  "model_is_supported_by_list [] candidates \<and>
   (listed \<in> set models \<and> trim listed \<noteq> [] \<longrightarrow>
      model_is_supported_by_list models [Some listed]) \<and>
   (models \<noteq> [] \<and> model_is_supported_by_list models candidates \<longrightarrow>
      model_is_supported_by_list (models @ added) candidates)"
proof -
  have "set (support_match_variants n) \<noteq> {}" for n by simp
  moreover have "\<exists>n. normalize_model_id listed = Some n" if "trim listed \<noteq> []"
    using that by (simp add: normalize_model_id_def)
  ultimately have "model_is_supported_by_list models [Some listed]"
    if "listed \<in> set models" "trim listed \<noteq> []"
    using that by (fastforce simp: model_is_supported_iff)
  moreover have "model_is_supported_by_list (models @ added) candidates"
    if "models \<noteq> []" "model_is_supported_by_list models candidates"
    using that by (simp add: model_is_supported_iff bex_Un)
  moreover have "model_is_supported_by_list [] candidates" by (simp add: model_is_supported_by_list_def)
  ultimately show ?thesis by blast
qed

theorem model_lists_admit_what_they_name_witness:
  "model_is_supported_by_list [''auto''] [Some ''auto'']"
  using model_lists_admit_what_they_name [of "[]" "''auto''" "[''auto'']" "[]"]
  by (simp add: trim_trimmed trimmed_nonblank)

end
