(* ===== verification/Account_State.thy ===== *)
theory Account_State
  imports Model_Support "HOL-Library.AList"
begin

text \<open>
  The scheduler's view of one account
  (\<open>src/kiro/token_manager/account_state.rs\<close>, \<open>types.rs\<close>, the scheduling fields of
  \<open>src/kiro/model/credentials.rs\<close> and \<open>SchedulerHealthState\<close> of \<open>src/storage/redis_cache.rs\<close>)
  and the rule which models an account may take.

  Floating-point fields have the type parameter \<open>'f\<close>: no definition here computes with them,
  and the components that do take the operations of \<open>f64\<close> as arguments.  A \<open>HashMap\<close> that is
  iterated is an association list in iteration order, one that is only looked up is a map.
  Fields of \<open>KiroCredentials\<close> that no modelled operation reads (tokens, regions, identifiers
  of the identity provider) are left out.
\<close>

subsection \<open>Enumerations\<close>

datatype disabled_reason = Manual | TooManyFailures | TooManyRefreshFailures | QuotaExceeded
  | InvalidRefreshToken | InvalidConfig | TemporarilySuspended | AccountSuspended | AccountLocked

fun disabled_reason_as_str :: "disabled_reason \<Rightarrow> string" where
  "disabled_reason_as_str Manual = ''Manual''"
| "disabled_reason_as_str TooManyFailures = ''TooManyFailures''"
| "disabled_reason_as_str TooManyRefreshFailures = ''TooManyRefreshFailures''"
| "disabled_reason_as_str QuotaExceeded = ''QuotaExceeded''"
| "disabled_reason_as_str InvalidRefreshToken = ''InvalidRefreshToken''"
| "disabled_reason_as_str InvalidConfig = ''InvalidConfig''"
| "disabled_reason_as_str TemporarilySuspended = ''TemporarilySuspended''"
| "disabled_reason_as_str AccountSuspended = ''AccountSuspended''"
| "disabled_reason_as_str AccountLocked = ''AccountLocked''"

definition disabled_reason_from_str :: "string \<Rightarrow> disabled_reason option" where
  "disabled_reason_from_str v =
     (if v = ''Manual'' then Some Manual
      else if v = ''TooManyFailures'' then Some TooManyFailures
      else if v = ''TooManyRefreshFailures'' then Some TooManyRefreshFailures
      else if v = ''QuotaExceeded'' then Some QuotaExceeded
      else if v = ''InvalidRefreshToken'' then Some InvalidRefreshToken
      else if v = ''InvalidConfig'' then Some InvalidConfig
      else if v = ''TemporarilySuspended'' then Some TemporarilySuspended
      else if v = ''AccountSuspended'' then Some AccountSuspended
      else if v = ''AccountLocked'' then Some AccountLocked
      else None)"

datatype risk_control_reason = RC_TemporarilySuspended | RC_AccountSuspended | RC_AccountLocked

fun risk_disabled_reason :: "risk_control_reason \<Rightarrow> disabled_reason" where
  "risk_disabled_reason RC_TemporarilySuspended = TemporarilySuspended"
| "risk_disabled_reason RC_AccountSuspended = AccountSuspended"
| "risk_disabled_reason RC_AccountLocked = AccountLocked"

definition risk_event_reason :: "risk_control_reason \<Rightarrow> string" where
  "risk_event_reason r = disabled_reason_as_str (risk_disabled_reason r)"

datatype in_flight_kind = Kind_Api | Kind_Stream | Kind_Mcp | Kind_Test

fun in_flight_kind_as_str :: "in_flight_kind \<Rightarrow> string" where
  "in_flight_kind_as_str Kind_Api = ''api''"
| "in_flight_kind_as_str Kind_Stream = ''stream''"
| "in_flight_kind_as_str Kind_Mcp = ''mcp''"
| "in_flight_kind_as_str Kind_Test = ''test''"

definition in_flight_kind_from_str :: "string \<Rightarrow> in_flight_kind" where
  "in_flight_kind_from_str v =
     (if v = ''stream'' then Kind_Stream else if v = ''mcp'' then Kind_Mcp
      else if v = ''test'' then Kind_Test else Kind_Api)"

datatype dispatch_admission = Admission_New | Admission_Retry

datatype acquire_mode = WaitForCapacity | FailFastOnCapacity
  | FailFastOnCapacityWaitForRedis duration | WaitForCapacityRedisDegradedMax duration
  | WaitForCapacityMax duration

definition is_fail_fast :: "acquire_mode \<Rightarrow> bool" where
  "is_fail_fast m \<longleftrightarrow>
     (case m of FailFastOnCapacity \<Rightarrow> True | FailFastOnCapacityWaitForRedis _ \<Rightarrow> True | _ \<Rightarrow> False)"

definition waits_for_capacity :: "acquire_mode \<Rightarrow> bool" where
  "waits_for_capacity m \<longleftrightarrow> \<not> is_fail_fast m"

definition is_redis_degraded_fail_fast :: "acquire_mode \<Rightarrow> bool" where
  "is_redis_degraded_fail_fast m \<longleftrightarrow> (case m of FailFastOnCapacity \<Rightarrow> True | _ \<Rightarrow> False)"

definition max_wait_override :: "acquire_mode \<Rightarrow> duration option" where
  "max_wait_override m = (case m of FailFastOnCapacityWaitForRedis d \<Rightarrow> Some d
     | WaitForCapacityMax d \<Rightarrow> Some d | _ \<Rightarrow> None)"

definition redis_degraded_max_wait_override :: "acquire_mode \<Rightarrow> duration option" where
  "redis_degraded_max_wait_override m = (case m of FailFastOnCapacityWaitForRedis d \<Rightarrow> Some d
     | WaitForCapacityRedisDegradedMax d \<Rightarrow> Some d | _ \<Rightarrow> None)"

subsection \<open>Records\<close>

record kiro_credentials =
  priority :: u32
  fast :: u32
  max_concurrent_requests :: "u32 option"
  rpm :: "u32 option"
  subscription_title :: "string option"
  supported_models :: "string list"
  proxy_url :: "string option"
  proxy_resource_id :: "u64 option"
  cred_disabled :: bool

record 'f scheduler_health_state =
  transient_failure_streak :: u32
  recent_error_rate :: 'f
  latency_ewma_ms :: "'f option"
  last_error_kind :: "string option"
  last_error_reason :: "string option"
  last_error_at_ms :: "int option"
  probation_until_ms :: "int option"
  selection_count :: u64
  recent_selection_count_10s :: u32
  recent_selection_count_60s :: u32
  recent_selection_count_5m :: u32

record credential_model_cooldown =
  mc_model :: string
  mc_until :: instant
  mc_reason :: "string option"

record in_flight_lease =
  lease_id :: u64
  acquired_at :: instant
  last_seen_at :: instant
  lease_kind :: in_flight_kind
  weight_units :: u32
  locally_owned :: bool

record session_binding =
  binding_credential_id :: u64
  last_used_at :: int
  soft_failure_count :: u32

record 'f degrade_score =
  degrade_value :: 'f
  updated_at_ms :: int
  suspended :: bool

record proxy_resource_runtime =
  resource_id :: u64
  resource_name :: string
  resource_proxy_url :: string
  resource_username :: "string option"
  resource_password :: "string option"
  resource_enabled :: bool

datatype proxy_resource_availability = Available proxy_resource_runtime | Missing u64
  | Disabled proxy_resource_runtime

record subscription_model_list =
  list_models :: "string list"
  list_source :: string
  list_updated_at :: "string option"
  source_credential_id :: "u64 option"

type_synonym subscription_model_lists = "string \<rightharpoonup> subscription_model_list"

record 'f credential_entry =
  entry_id :: u64
  credentials :: kiro_credentials
  failure_count :: u32
  refresh_failure_count :: u32
  runtime_revision :: u64
  runtime_generation :: u64
  runtime_persistence_degraded :: bool
  runtime_persistence_quarantined :: bool
  disabled :: bool
  disabled_reason :: "disabled_reason option"
  account_quota_blocked :: bool
  account_quota_block_reason :: "string option"
  success_count :: u64
  total_selection_count :: u64
  entry_last_used_at :: "string option"
  cooldown_until :: "instant option"
  cooldown_reason :: "string option"
  model_cooldowns :: "(string \<times> credential_model_cooldown) list"
  rate_limit_available_at :: "instant option"
  in_flight_requests :: u32
  in_flight_leases :: "in_flight_lease list"
  warmup_remaining :: u32
  health :: "'f scheduler_health_state"
  model_health :: "string \<rightharpoonup> 'f scheduler_health_state"
  selection_events :: "instant list"
  last_auto_heal_at :: "instant option"
  auto_heal_consecutive_rounds :: u32
  upstream_fault_streak :: u32
  upstream_fault_seq :: u64
  redis_full_until :: "instant option"
  last_upstream_fault_concentrated :: bool
  degrade_scores :: "(string \<times> 'f degrade_score) list"

abbreviation has_id :: "u64 \<Rightarrow> 'f credential_entry \<Rightarrow> bool" where
  "has_id i \<equiv> (\<lambda>e. entry_id e = i)"

subsection \<open>Models an account may take (credentials.rs)\<close>

definition supports_model :: "kiro_credentials \<Rightarrow> string option list \<Rightarrow> bool" where
  "supports_model c candidates = model_is_supported_by_list (supported_models c) candidates"

definition subscription_tier :: "(string \<Rightarrow> string) \<Rightarrow> kiro_credentials \<Rightarrow> string" where
  "subscription_tier lowercase c = subscription_tier_key lowercase (subscription_title c)"

definition tier_models ::
    "(string \<Rightarrow> string) \<Rightarrow> kiro_credentials \<Rightarrow> subscription_model_lists \<Rightarrow> string list option" where
  "tier_models lowercase c tier_lists =
     (if supported_models c \<noteq> [] then None
      else case tier_lists (subscription_tier lowercase c) of
          None \<Rightarrow> None
        | Some l \<Rightarrow> if list_models l = [] then None else Some (list_models l))"

definition supports_model_with_tier_lists ::
    "(string \<Rightarrow> string) \<Rightarrow> kiro_credentials \<Rightarrow> string option list \<Rightarrow> subscription_model_lists \<Rightarrow> bool"
  where
  "supports_model_with_tier_lists lowercase c candidates tier_lists =
     (if supported_models c \<noteq> [] then supports_model c candidates
      else case tier_models lowercase c tier_lists of
          Some models \<Rightarrow> model_is_supported_by_list models candidates
        | None \<Rightarrow> True)"

subsection \<open>Properties\<close>

text \<open>The persisted names of disable reasons and of request kinds read back as what was
  written, and a name is read as a disable reason only if it is the name of that reason.\<close>

theorem persisted_names_round_trip:
  "disabled_reason_from_str (disabled_reason_as_str r) = Some r \<and>
   in_flight_kind_from_str (in_flight_kind_as_str k) = k \<and>
   (disabled_reason_from_str v = Some r' \<longleftrightarrow> v = disabled_reason_as_str r')"
proof -
  have rt: "disabled_reason_from_str (disabled_reason_as_str r) = Some r" for r
    by (cases r) (simp_all add: disabled_reason_from_str_def)
  have "in_flight_kind_from_str (in_flight_kind_as_str k) = k"
    by (cases k) (simp_all add: in_flight_kind_from_str_def)
  moreover have "v = disabled_reason_as_str r'" if "disabled_reason_from_str v = Some r'"
    using that by (auto simp: disabled_reason_from_str_def split: if_splits)
  ultimately show ?thesis using rt by metis
qed

end
