(* ===== verification/Availability.thy ===== *)
theory Availability
  imports Account_State
begin

text \<open>
  When an account can be dispatched to (\<open>cooldown.rs\<close>, \<open>rpm.rs\<close>, \<open>capacity.rs\<close>, \<open>queue.rs\<close> and
  the selection window of \<open>strategy.rs\<close> in \<open>src/kiro/token_manager\<close>): cooldowns of the account
  and of one model, the requests-per-minute window over the recorded selections, proxy
  availability, the weighted concurrency limit, and the queue statistics over all accounts.

  \<open>VecDeque::partition_point\<close> is specified only on a partitioned sequence; it is modelled as
  the length of the longest prefix that satisfies the predicate, and \<open>record_local_selection\<close>
  is shown to keep the events in time order, so that every call is in its contract.
  \<open>entry_has_concurrency_capacity\<close> reads the clock itself; the instant it reads is the
  parameter \<open>clock\<close>.
\<close>

subsection \<open>Clock arithmetic\<close>

definition secs :: "nat \<Rightarrow> duration" where "secs n = n * 1000000000"
definition millis :: "nat \<Rightarrow> duration" where "millis n = n * 1000000"

definition checked_duration_since :: "instant \<Rightarrow> instant \<Rightarrow> duration option" where
  "checked_duration_since later earlier = (if earlier \<le> later then Some (later - earlier) else None)"

definition saturating_duration_since :: "instant \<Rightarrow> instant \<Rightarrow> duration" where
  "saturating_duration_since later earlier = later - earlier"

definition partition_point :: "('a \<Rightarrow> bool) \<Rightarrow> 'a list \<Rightarrow> nat" where
  "partition_point p xs = length (takeWhile p xs)"

definition longer_wait :: "duration option \<Rightarrow> duration option \<Rightarrow> duration option" where
  "longer_wait a b = (case (a, b) of
       (Some a, Some b) \<Rightarrow> Some (max a b)
     | (Some a, None) \<Rightarrow> Some a
     | (None, Some b) \<Rightarrow> Some b
     | (None, None) \<Rightarrow> None)"

subsection \<open>Cooldowns (cooldown.rs)\<close>

definition model_state_key :: "string \<Rightarrow> string" where
  "model_state_key model = to_ascii_lowercase (trim model)"

definition entry_global_cooldown_remaining ::
    "'f credential_entry \<Rightarrow> instant \<Rightarrow> duration option" where
  "entry_global_cooldown_remaining e now =
     Option.bind (cooldown_until e) (\<lambda>until. checked_duration_since until now)"

definition entry_model_cooldown ::
    "'f credential_entry \<Rightarrow> string option \<Rightarrow> credential_model_cooldown option" where
  "entry_model_cooldown e model =
     (if model_cooldowns e = [] then None
      else Option.bind (map_option model_state_key model) (map_of (model_cooldowns e)))"

definition entry_model_cooldown_remaining ::
    "'f credential_entry \<Rightarrow> string option \<Rightarrow> instant \<Rightarrow> duration option" where
  "entry_model_cooldown_remaining e model now =
     Option.bind (entry_model_cooldown e model) (\<lambda>c. checked_duration_since (mc_until c) now)"

definition entry_cooldown_remaining ::
    "'f credential_entry \<Rightarrow> string option \<Rightarrow> instant \<Rightarrow> duration option" where
  "entry_cooldown_remaining e model now =
     longer_wait (entry_global_cooldown_remaining e now) (entry_model_cooldown_remaining e model now)"

definition max_option :: "'a::linorder list \<Rightarrow> 'a option" where
  "max_option xs = (if xs = [] then None else Some (Max (set xs)))"

definition min_option :: "'a::linorder list \<Rightarrow> 'a option" where
  "min_option xs = (if xs = [] then None else Some (Min (set xs)))"

definition entry_any_cooldown_remaining :: "'f credential_entry \<Rightarrow> instant \<Rightarrow> duration option" where
  "entry_any_cooldown_remaining e now =
     max_option
       (List.map_filter (\<lambda>c. checked_duration_since (mc_until (snd c)) now) (model_cooldowns e) @
        (case entry_global_cooldown_remaining e now of None \<Rightarrow> [] | Some d \<Rightarrow> [d]))"

record cooldown_snapshot =
  snap_model :: "string option"
  snap_global :: bool
  snap_remaining_secs :: nat
  snap_reason :: "string option"

text \<open>\<open>as_secs().saturating_add(1)\<close>; the sort by model name is stable.\<close>

definition entry_cooldown_snapshots ::
    "'f credential_entry \<Rightarrow> instant \<Rightarrow> cooldown_snapshot list" where
  "entry_cooldown_snapshots e now =
     (case entry_global_cooldown_remaining e now of
        Some remaining \<Rightarrow> [\<lparr>snap_model = None, snap_global = True,
          snap_remaining_secs = remaining div secs 1 + 1, snap_reason = cooldown_reason e\<rparr>]
      | None \<Rightarrow> []) @
     List.map_filter
       (\<lambda>c. map_option
          (\<lambda>remaining. \<lparr>snap_model = Some (mc_model c), snap_global = False,
             snap_remaining_secs = remaining div secs 1 + 1, snap_reason = mc_reason c\<rparr>)
          (checked_duration_since (mc_until c) now))
       (sort_key mc_model (map snd (model_cooldowns e)))"

subsection \<open>Requests per minute (rpm.rs)\<close>

definition RPM_WINDOW :: duration where "RPM_WINDOW = secs 60"

definition effective_rpm :: "'f credential_entry \<Rightarrow> u32 \<Rightarrow> u32" where
  "effective_rpm e global_rpm =
     (case rpm (credentials e) of Some r \<Rightarrow> r | None \<Rightarrow> global_rpm)"

definition entry_rate_limit_window_remaining ::
    "'f credential_entry \<Rightarrow> u32 \<Rightarrow> instant \<Rightarrow> duration option" where
  "entry_rate_limit_window_remaining e global_rpm now =
     (let limit = effective_rpm e global_rpm in
      if limit = 0 then None
      else
        let events = selection_events e;
            first_in_window = partition_point
              (\<lambda>selected_at. RPM_WINDOW < saturating_duration_since now selected_at) events;
            count = length events - first_in_window in
        if count < unat limit then None
        else if first_in_window < length events
          then checked_duration_since (events ! first_in_window + RPM_WINDOW) now
          else None)"

definition entry_rate_limit_remaining ::
    "'f credential_entry \<Rightarrow> u32 \<Rightarrow> instant \<Rightarrow> duration option" where
  "entry_rate_limit_remaining e global_rpm now =
     (let explicit_remaining =
            Option.bind (rate_limit_available_at e) (\<lambda>until. checked_duration_since until now);
          window_remaining = entry_rate_limit_window_remaining e global_rpm now
      in longer_wait explicit_remaining window_remaining)"

definition rate_limit_interval_for_rpm :: "u32 \<Rightarrow> duration option" where
  "rate_limit_interval_for_rpm r =
     (if r = 0 then None else Some (millis (max (60000 div unat r) 1)))"

subsection \<open>Recorded selections (strategy.rs)\<close>

definition SELECTION_WINDOW_10S :: duration where "SELECTION_WINDOW_10S = secs 10"
definition SELECTION_WINDOW_60S :: duration where "SELECTION_WINDOW_60S = secs 60"
definition SELECTION_WINDOW_5M :: duration where "SELECTION_WINDOW_5M = secs (5 * 60)"

definition selections_within :: "instant list \<Rightarrow> instant \<Rightarrow> duration \<Rightarrow> u32" where
  "selections_within events now window =
     (let first = partition_point
            (\<lambda>selected_at. window < saturating_duration_since now selected_at) events
      in word_of_nat (min (length events - first) 4294967295))"

definition prune_local_selection_events ::
    "'f credential_entry \<Rightarrow> instant \<Rightarrow> 'f credential_entry" where
  "prune_local_selection_events e now =
     (let events = dropWhile
            (\<lambda>selected_at. SELECTION_WINDOW_5M < saturating_duration_since now selected_at)
            (selection_events e)
      in e\<lparr>selection_events := events,
           health := (health e)
             \<lparr>recent_selection_count_10s := selections_within events now SELECTION_WINDOW_10S,
              recent_selection_count_60s := selections_within events now SELECTION_WINDOW_60S,
              recent_selection_count_5m := word_of_nat (min (length events) 4294967295)\<rparr>\<rparr>)"

definition record_local_selection ::
    "'f credential_entry \<Rightarrow> instant \<Rightarrow> u32 \<Rightarrow> 'f credential_entry" where
  "record_local_selection e now weight =
     (let e = e\<lparr>total_selection_count := sat_add (total_selection_count e) 1,
                health := (health e)\<lparr>selection_count := sat_add (selection_count (health e)) 1\<rparr>\<rparr>;
          events = selection_events e;
          at = (if events = [] then now else max (last events) now);
          e = e\<lparr>selection_events := events @ replicate (unat (clamp 1 64 weight)) at\<rparr>
      in prune_local_selection_events e now)"

definition refresh_local_selection_windows_locked ::
    "'f credential_entry list \<Rightarrow> instant \<Rightarrow> 'f credential_entry list" where
  "refresh_local_selection_windows_locked entries now =
     map (\<lambda>e. prune_local_selection_events e now) entries"

subsection \<open>Capacity (capacity.rs)\<close>

definition credential_is_usable_for_model ::
    "(string \<Rightarrow> string) \<Rightarrow> 'f credential_entry \<Rightarrow> string option \<Rightarrow> subscription_model_lists \<Rightarrow> bool" where
  "credential_is_usable_for_model lowercase e model tiers \<longleftrightarrow>
     \<not> disabled e \<and> \<not> account_quota_blocked e \<and>
     supports_model_with_tier_lists lowercase (credentials e) [model] tiers"

definition credential_catalog_lists_model :: "'f credential_entry \<Rightarrow> string option \<Rightarrow> bool" where
  "credential_catalog_lists_model e model \<longleftrightarrow>
     (case model of Some m \<Rightarrow> trim m \<noteq> [] | None \<Rightarrow> False) \<and>
     supported_models (credentials e) \<noteq> [] \<and> supports_model (credentials e) [model]"

definition credential_proxy_availability ::
    "kiro_credentials \<Rightarrow> (u64 \<rightharpoonup> proxy_resource_runtime) \<Rightarrow> proxy_resource_availability option" where
  "credential_proxy_availability c proxy_resources =
     (if proxy_url c \<noteq> None then None
      else case proxy_resource_id c of
          None \<Rightarrow> None
        | Some rid \<Rightarrow>
            (case proxy_resources rid of
               None \<Rightarrow> Some (Missing rid)
             | Some resource \<Rightarrow>
                 if \<not> resource_enabled resource then Some (Disabled resource)
                 else Some (Available resource)))"

definition credential_proxy_is_dispatchable ::
    "kiro_credentials \<Rightarrow> (u64 \<rightharpoonup> proxy_resource_runtime) \<Rightarrow> bool" where
  "credential_proxy_is_dispatchable c proxy_resources \<longleftrightarrow>
     (case credential_proxy_availability c proxy_resources of
        Some (Missing _) \<Rightarrow> False
      | Some (Disabled _) \<Rightarrow> False
      | Some (Available _) \<Rightarrow> True
      | None \<Rightarrow> True)"

definition effective_max_concurrent_requests :: "'f credential_entry \<Rightarrow> u32 \<Rightarrow> u32" where
  "effective_max_concurrent_requests e global_max =
     (case max_concurrent_requests (credentials e) of Some m \<Rightarrow> m | None \<Rightarrow> global_max)"

definition REDIS_FULL_HINT_TTL :: duration where "REDIS_FULL_HINT_TTL = millis 500"

definition entry_redis_full_hint_active :: "'f credential_entry \<Rightarrow> instant \<Rightarrow> bool" where
  "entry_redis_full_hint_active e now \<longleftrightarrow>
     (case redis_full_until e of Some until \<Rightarrow> now < until | None \<Rightarrow> False)"

definition normalize_capacity_weight_units :: "u32 \<Rightarrow> u32" where
  "normalize_capacity_weight_units v = clamp 1 64 v"

definition effective_weight_for_limit :: "u32 \<Rightarrow> u32 \<Rightarrow> u32" where
  "effective_weight_for_limit request_weight limit =
     (let weight = normalize_capacity_weight_units request_weight in
      if 0 < limit then min weight limit else weight)"

definition entry_has_concurrency_capacity ::
    "instant \<Rightarrow> 'f credential_entry \<Rightarrow> u32 \<Rightarrow> u32 \<Rightarrow> bool" where
  "entry_has_concurrency_capacity clock e global_max request_weight =
     (if entry_redis_full_hint_active e clock then False
      else
        let limit = effective_max_concurrent_requests e global_max;
            weight = effective_weight_for_limit request_weight limit
        in limit = 0 \<or> sat_add (in_flight_requests e) weight \<le> limit)"

definition global_has_concurrency_capacity :: "u32 \<Rightarrow> u32 \<Rightarrow> u32 \<Rightarrow> bool" where
  "global_has_concurrency_capacity global_in_flight global_max request_weight =
     (let weight = effective_weight_for_limit request_weight global_max
      in global_max = 0 \<or> sat_add global_in_flight weight \<le> global_max)"

text \<open>
  The arguments the scheduler passes to every one of these predicates: the proxies, the model,
  the instant, the global limits and the tier lists.
\<close>

record dispatch_env =
  proxy_resources :: "u64 \<rightharpoonup> proxy_resource_runtime"
  req_model :: "string option"
  env_now :: instant
  env_clock :: instant
  env_max_concurrent :: u32
  env_rpm :: u32
  env_weight :: u32
  env_tiers :: subscription_model_lists
  env_excluded :: "u64 set"
  env_lowercase :: "string \<Rightarrow> string"

definition credential_is_dispatchable :: "dispatch_env \<Rightarrow> 'f credential_entry \<Rightarrow> bool" where
  "credential_is_dispatchable v e \<longleftrightarrow>
     credential_is_usable_for_model (env_lowercase v) e (req_model v) (env_tiers v) \<and>
     credential_proxy_is_dispatchable (credentials e) (proxy_resources v) \<and>
     entry_cooldown_remaining e (req_model v) (env_now v) = None \<and>
     entry_rate_limit_remaining e (env_rpm v) (env_now v) = None \<and>
     entry_has_concurrency_capacity (env_clock v) e (env_max_concurrent v) (env_weight v)"

definition credential_is_temporarily_available :: "dispatch_env \<Rightarrow> 'f credential_entry \<Rightarrow> bool" where
  "credential_is_temporarily_available v e \<longleftrightarrow>
     credential_is_usable_for_model (env_lowercase v) e (req_model v) (env_tiers v) \<and>
     credential_proxy_is_dispatchable (credentials e) (proxy_resources v) \<and>
     entry_cooldown_remaining e (req_model v) (env_now v) = None \<and>
     entry_rate_limit_remaining e (env_rpm v) (env_now v) = None"

definition credential_is_dispatch_candidate :: "dispatch_env \<Rightarrow> 'f credential_entry \<Rightarrow> bool" where
  "credential_is_dispatch_candidate v e \<longleftrightarrow>
     entry_id e \<notin> env_excluded v \<and>
     credential_is_usable_for_model (env_lowercase v) e (req_model v) (env_tiers v) \<and>
     credential_proxy_is_dispatchable (credentials e) (proxy_resources v)"

subsection \<open>Queue statistics (queue.rs)\<close>

definition entry_wait :: "dispatch_env \<Rightarrow> 'f credential_entry \<Rightarrow> duration option" where
  "entry_wait v e =
     longer_wait (entry_cooldown_remaining e (req_model v) (env_now v))
       (entry_rate_limit_remaining e (env_rpm v) (env_now v))"

definition min_dispatch_wait :: "dispatch_env \<Rightarrow> 'f credential_entry list \<Rightarrow> duration option" where
  "min_dispatch_wait v entries =
     min_option (List.map_filter (entry_wait v)
       (filter (credential_is_dispatch_candidate v) entries))"

definition concurrency_blocked_count :: "dispatch_env \<Rightarrow> bool \<Rightarrow> 'f credential_entry list \<Rightarrow> nat" where
  "concurrency_blocked_count v global_has_capacity entries =
     length (filter (\<lambda>e. credential_is_dispatch_candidate v e \<and>
       entry_cooldown_remaining e (req_model v) (env_now v) = None \<and>
       entry_rate_limit_remaining e (env_rpm v) (env_now v) = None \<and>
       (\<not> global_has_capacity \<or>
        \<not> entry_has_concurrency_capacity (env_clock v) e (env_max_concurrent v) (env_weight v)))
       entries)"

definition rate_limit_blocked_count :: "dispatch_env \<Rightarrow> 'f credential_entry list \<Rightarrow> nat" where
  "rate_limit_blocked_count v entries =
     length (filter (\<lambda>e. credential_is_dispatch_candidate v e \<and>
       entry_cooldown_remaining e (req_model v) (env_now v) = None \<and>
       entry_rate_limit_remaining e (env_rpm v) (env_now v) \<noteq> None) entries)"

definition effective_concurrency_range_for_candidates ::
    "dispatch_env \<Rightarrow> 'f credential_entry list \<Rightarrow> (u32 \<times> u32) option" where
  "effective_concurrency_range_for_candidates v entries =
     fold (\<lambda>x range. Some (case range of Some (lo, hi) \<Rightarrow> (min lo x, max hi x) | None \<Rightarrow> (x, x)))
       (map (\<lambda>e. effective_max_concurrent_requests e (env_max_concurrent v))
          (filter (credential_is_dispatch_candidate v) entries)) None"

subsection \<open>The selection window\<close>

text \<open>
  The interface of a time window over recorded instants: dropping a prefix of a time-ordered
  list of events by age is the same as filtering by age.
\<close>

lemma sorted_takeWhile_filter:
  fixes xs :: "'a::linorder list"
  assumes "sorted xs" and "\<And>x y. x \<le> y \<Longrightarrow> p y \<Longrightarrow> p x"
  shows "takeWhile p xs = filter p xs \<and> dropWhile p xs = filter (\<lambda>x. \<not> p x) xs"
  using assms(1)
proof (induction xs)
  case (Cons x xs)
  show ?case
  proof (cases "p x")
    case False
    then have "\<forall>y \<in> set xs. \<not> p y" using Cons.prems assms(2) by auto
    with False show ?thesis by (simp add: filter_False)
  qed (use Cons in simp)
qed simp

definition aged :: "duration \<Rightarrow> instant \<Rightarrow> instant \<Rightarrow> bool" where
  "aged window now at \<longleftrightarrow> window < saturating_duration_since now at"

lemma aged_mono: "x \<le> y \<Longrightarrow> aged w now y \<Longrightarrow> aged w now x"
  by (auto simp: aged_def saturating_duration_since_def)

lemma dropWhile_aged: "sorted xs \<Longrightarrow> dropWhile (aged w now) xs = filter (\<lambda>x. \<not> aged w now x) xs"
  using sorted_takeWhile_filter [of xs "aged w now"] aged_mono by blast

text \<open>The number of selections not older than a window.\<close>

definition within :: "duration \<Rightarrow> instant \<Rightarrow> instant list \<Rightarrow> nat" where
  "within w now events = length (filter (\<lambda>at. now - at \<le> w) events)"

lemma not_aged: "\<not> aged w now at \<longleftrightarrow> now - at \<le> w"
  by (auto simp: aged_def saturating_duration_since_def)

lemma length_after_partition_point:
  assumes "sorted xs"
  shows "length xs - partition_point (aged w now) xs = within w now xs"
proof -
  have "length xs = partition_point (aged w now) xs + length (dropWhile (aged w now) xs)"
    unfolding partition_point_def by (metis length_append takeWhile_dropWhile_id)
  then show ?thesis by (simp add: dropWhile_aged [OF assms] within_def not_aged)
qed

lemma rate_limit_window_eq:
  assumes "sorted (selection_events e)"
  shows "entry_rate_limit_window_remaining e g now =
    (let limit = effective_rpm e g in
     if limit = 0 \<or> within RPM_WINDOW now (selection_events e) < unat limit then None
     else Some (Min {at \<in> set (selection_events e). now - at \<le> RPM_WINDOW} + RPM_WINDOW - now))"
proof (cases "effective_rpm e g = 0 \<or> within RPM_WINDOW now (selection_events e) < unat (effective_rpm e g)")
  case True
  then show ?thesis
    using length_after_partition_point [OF assms, of RPM_WINDOW now]
    by (auto simp: entry_rate_limit_window_remaining_def Let_def aged_def [abs_def])
next
  case False
  let ?xs = "selection_events e" and ?p = "aged RPM_WINDOW now"
  have "0 < unat (effective_rpm e g)" using False by (metis unat_gt_0)
  with False have pos: "0 < within RPM_WINDOW now ?xs" by linarith
  have count: "length ?xs - partition_point ?p ?xs = within RPM_WINDOW now ?xs"
    by (rule length_after_partition_point [OF assms])
  with pos have lt: "partition_point ?p ?xs < length ?xs" by linarith
  have dw: "dropWhile ?p ?xs = filter (\<lambda>at. now - at \<le> RPM_WINDOW) ?xs"
    using dropWhile_aged [OF assms] by (simp add: not_aged)
  have nth: "?xs ! partition_point ?p ?xs = hd (filter (\<lambda>at. now - at \<le> RPM_WINDOW) ?xs)"
    unfolding dw [symmetric] using lt
    by (metis dropWhile_eq_drop hd_drop_conv_nth partition_point_def)
  let ?ys = "filter (\<lambda>at. now - at \<le> RPM_WINDOW) ?xs"
  have ne: "?ys \<noteq> []" using pos by (auto simp: within_def)
  have "sorted ?ys" using assms by (simp add: sorted_wrt_filter)
  then have hd_le: "\<forall>y \<in> set ?ys. hd ?ys \<le> y" using ne by (cases ?ys) auto
  have min: "Min {at \<in> set ?xs. now - at \<le> RPM_WINDOW} = hd ?ys"
    by (rule Min_eqI) (use hd_le hd_in_set [OF ne] in auto)
  have "now - hd ?ys \<le> RPM_WINDOW" using hd_in_set [OF ne] by simp
  then show ?thesis
    using False count lt nth
    by (simp add: entry_rate_limit_window_remaining_def Let_def aged_def [abs_def] min
        checked_duration_since_def)
qed

lemma record_local_selection_events:
  "selection_events (record_local_selection e now w) =
     dropWhile (aged SELECTION_WINDOW_5M now)
       (selection_events e @ replicate (unat (clamp 1 64 w))
          (if selection_events e = [] then now else max (last (selection_events e)) now))"
  by (simp add: record_local_selection_def prune_local_selection_events_def Let_def
      aged_def [abs_def])

lemma sorted_dropWhile_aged: "sorted xs \<Longrightarrow> sorted (dropWhile p xs)"
  by (induction xs) auto

lemma sorted_snoc_max:
  assumes "sorted xs"
  shows "sorted (xs @ replicate n (if xs = [] then now else max (last xs) (now :: nat)))"
proof -
  have "\<forall>x \<in> set xs. x \<le> last xs"
    using assms by (induction xs) auto
  then show ?thesis using assms by (auto simp: sorted_append intro: order_trans)
qed

lemma record_local_selection_sorted:
  "sorted (selection_events e) \<Longrightarrow> sorted (selection_events (record_local_selection e now w))"
  by (simp add: record_local_selection_events sorted_dropWhile_aged sorted_snoc_max)

lemma within_prune:
  assumes "sorted xs" "w \<le> w'"
  shows "within w now (dropWhile (aged w' now) xs) = within w now xs"
proof -
  have "filter (\<lambda>at. now - at \<le> w) (filter (\<lambda>at. now - at \<le> w') xs) =
        filter (\<lambda>at. now - at \<le> w) xs"
    using assms(2) by (auto intro: filter_cong)
  then show ?thesis using assms(1) by (simp add: dropWhile_aged not_aged within_def)
qed

lemma within_append [simp]: "within w now (xs @ ys) = within w now xs + within w now ys"
  by (simp add: within_def)

lemma within_replicate: "now - at \<le> w \<Longrightarrow> within w now (replicate n at) = n"
  by (simp add: within_def)

lemma record_local_selection_within:
  assumes "sorted (selection_events e)" "w \<le> SELECTION_WINDOW_5M"
  shows "within w now (selection_events (record_local_selection e now weight)) =
    within w now (selection_events e) + unat (clamp 1 64 weight)"
  using assms
  by (simp add: record_local_selection_events within_prune sorted_snoc_max within_replicate)

lemma longer_wait_eq_None [simp]: "longer_wait a b = None \<longleftrightarrow> a = None \<and> b = None"
  by (cases a; cases b) (simp_all add: longer_wait_def)

lemma longer_wait_le: "longer_wait a b = Some d \<Longrightarrow> (a = Some d \<or> b = Some d)"
  by (cases a; cases b) (auto simp: longer_wait_def max_def split: if_splits)

lemma checked_duration_since_later:
  "checked_duration_since until now = Some d \<Longrightarrow> t \<le> d \<Longrightarrow>
   checked_duration_since until (now + t) = Some (d - t)"
  by (auto simp: checked_duration_since_def split: if_splits)

text \<open>A wait that is announced at some instant is not over before it has elapsed.\<close>

lemma rate_limit_window_later:
  assumes s: "sorted (selection_events e)"
    and d: "entry_rate_limit_window_remaining e g now = Some d" and t: "t \<le> d"
  shows "entry_rate_limit_window_remaining e g (now + t) \<noteq> None"
proof -
  let ?xs = "selection_events e" and ?in = "\<lambda>now. {at \<in> set (selection_events e). now - at \<le> RPM_WINDOW}"
  from d have full: "effective_rpm e g \<noteq> 0" "unat (effective_rpm e g) \<le> within RPM_WINDOW now ?xs"
    and d': "d = Min (?in now) + RPM_WINDOW - now"
    by (auto simp: rate_limit_window_eq [OF s] Let_def split: if_splits)
  have "now + t - at \<le> RPM_WINDOW" if at: "at \<in> ?in now" for at
  proof -
    have "Min (?in now) \<le> at" using at by (intro Min_le) auto
    moreover have "now - at \<le> RPM_WINDOW" using at by simp
    ultimately show ?thesis using t d' by linarith
  qed
  then have "filter (\<lambda>at. now + t - at \<le> RPM_WINDOW) ?xs = filter (\<lambda>at. now - at \<le> RPM_WINDOW) ?xs"
    by (intro filter_cong) auto
  with full show ?thesis
    by (simp add: rate_limit_window_eq [OF s] Let_def within_def)
qed

lemma entry_wait_later:
  assumes s: "sorted (selection_events e)" and d: "entry_wait v e = Some d" and t: "t \<le> d"
  shows "entry_wait (v\<lparr>env_now := env_now v + t\<rparr>) e \<noteq> None"
proof -
  let ?now = "env_now v"
  have cool: "entry_cooldown_remaining e (req_model v) (?now + t) \<noteq> None"
    if "entry_cooldown_remaining e (req_model v) ?now = Some d"
    using longer_wait_le [OF that [unfolded entry_cooldown_remaining_def]] t
    by (auto simp: entry_cooldown_remaining_def entry_global_cooldown_remaining_def
        entry_model_cooldown_remaining_def bind_eq_Some_conv dest: checked_duration_since_later)
  have rate: "entry_rate_limit_remaining e (env_rpm v) (?now + t) \<noteq> None"
    if "entry_rate_limit_remaining e (env_rpm v) ?now = Some d"
    using longer_wait_le [OF that [unfolded entry_rate_limit_remaining_def Let_def]] t
    by (auto simp: entry_rate_limit_remaining_def bind_eq_Some_conv
        dest: checked_duration_since_later rate_limit_window_later [OF s])
  show ?thesis
    using longer_wait_le [OF d [unfolded entry_wait_def]] cool rate
    by (auto simp: entry_wait_def)
qed

text \<open>Each condition of the dispatch predicate, in words of its own.\<close>

lemma proxy_dispatchable_iff:
  "credential_proxy_is_dispatchable c pr \<longleftrightarrow>
     (\<forall>rid. proxy_url c = None \<and> proxy_resource_id c = Some rid \<longrightarrow>
        (\<exists>r. pr rid = Some r \<and> resource_enabled r))"
  by (auto simp: credential_proxy_is_dispatchable_def credential_proxy_availability_def
      split: option.splits)

lemma checked_duration_since_None [simp]: "checked_duration_since until now = None \<longleftrightarrow> until < now"
  by (auto simp: checked_duration_since_def)

lemma cooldown_None_iff:
  "entry_cooldown_remaining e model now = None \<longleftrightarrow>
     (\<forall>until. cooldown_until e = Some until \<longrightarrow> until < now) \<and>
     (\<forall>c. entry_model_cooldown e model = Some c \<longrightarrow> mc_until c < now)"
  by (auto simp: entry_cooldown_remaining_def entry_global_cooldown_remaining_def
      entry_model_cooldown_remaining_def bind_None_iff)

lemma rate_limit_None_iff:
  "sorted (selection_events e) \<Longrightarrow>
   entry_rate_limit_remaining e g now = None \<longleftrightarrow>
     (\<forall>until. rate_limit_available_at e = Some until \<longrightarrow> until < now) \<and>
     (effective_rpm e g = 0 \<or> within RPM_WINDOW now (selection_events e) < unat (effective_rpm e g))"
  by (auto simp: entry_rate_limit_remaining_def rate_limit_window_eq Let_def bind_None_iff
      split: if_splits)

lemma effective_weight_pos: "0 < unat (effective_weight_for_limit w limit)"
  by (auto simp: effective_weight_for_limit_def normalize_capacity_weight_units_def clamp_def
      Let_def min_def word_less_nat_alt split: if_splits)

lemma capacity_iff:
  assumes "effective_max_concurrent_requests e g < - 1"
  shows "entry_has_concurrency_capacity clock e g w \<longleftrightarrow>
    (\<forall>until. redis_full_until e = Some until \<longrightarrow> until \<le> clock) \<and>
    (let limit = effective_max_concurrent_requests e g in
     limit = 0 \<or> unat (in_flight_requests e) + unat (effective_weight_for_limit w limit) \<le> unat limit)"
proof -
  have "unat (effective_max_concurrent_requests e g) < 2 ^ LENGTH(32) - 1"
    using assms by (simp add: word_less_nat_alt unsigned_minus_1_eq_mask mask_eq_exp_minus_1)
  from sat_add_le_iff [OF this] show ?thesis
    by (auto simp: entry_has_concurrency_capacity_def entry_redis_full_hint_active_def Let_def
        not_less split: option.splits)
qed

subsection \<open>Properties\<close>

text \<open>The requests-per-minute check is the sliding window it stands for: an account is held
  back exactly when its limit is positive and at least that many selections were recorded in the
  last 60 seconds, and then until the oldest of them leaves the window.\<close>

theorem rate_limit_is_a_sliding_window:
  assumes "sorted (selection_events e)"
  shows "entry_rate_limit_window_remaining e global_rpm now =
    (let limit = effective_rpm e global_rpm;
         recent = filter (\<lambda>at. now - at \<le> secs 60) (selection_events e) in
     if limit = 0 \<or> length recent < unat limit then None
     else Some (Min (set recent) + secs 60 - now))"
  using rate_limit_window_eq [OF assms, of global_rpm now]
  by (simp add: Let_def within_def RPM_WINDOW_def)

definition example_credentials :: kiro_credentials where
  "example_credentials = \<lparr>priority = 0, fast = 0, max_concurrent_requests = Some 2, rpm = Some 2,
     subscription_title = None, supported_models = [], proxy_url = None, proxy_resource_id = None,
     cred_disabled = False\<rparr>"

definition example_health :: "unit scheduler_health_state" where
  "example_health = \<lparr>transient_failure_streak = 0, recent_error_rate = (), latency_ewma_ms = None,
     last_error_kind = None, last_error_reason = None, last_error_at_ms = None,
     probation_until_ms = None, selection_count = 0, recent_selection_count_10s = 0,
     recent_selection_count_60s = 0, recent_selection_count_5m = 0\<rparr>"

definition example_entry :: "unit credential_entry" where
  "example_entry = \<lparr>entry_id = 1, credentials = example_credentials, failure_count = 0,
     refresh_failure_count = 0, runtime_revision = 0, runtime_generation = 0,
     runtime_persistence_degraded = False, runtime_persistence_quarantined = False,
     disabled = False, disabled_reason = None, account_quota_blocked = False,
     account_quota_block_reason = None, success_count = 0, total_selection_count = 0,
     entry_last_used_at = None, cooldown_until = None, cooldown_reason = None,
     model_cooldowns = [], rate_limit_available_at = None, in_flight_requests = 0,
     in_flight_leases = [], warmup_remaining = 0, health = example_health,
     model_health = Map.empty, selection_events = [secs 10, secs 20], last_auto_heal_at = None,
     auto_heal_consecutive_rounds = 0, upstream_fault_streak = 0, upstream_fault_seq = 0,
     redis_full_until = None, last_upstream_fault_concentrated = False, degrade_scores = []\<rparr>"

theorem rate_limit_is_a_sliding_window_witness:
  "entry_rate_limit_window_remaining example_entry 0 (secs 65) = Some (secs 5)"
  using rate_limit_is_a_sliding_window [of example_entry 0 "secs 65"]
  by (simp add: example_entry_def example_credentials_def effective_rpm_def secs_def)

text \<open>Recording a selection keeps the events in time order even when the caller's instant is
  behind the last event, adds exactly its weight (between 1 and 64) to every window up to five
  minutes, so pruning never loses a selection a window still counts; and a selection made while
  the window had room overshoots the limit by less than its weight.\<close>

theorem recorded_selections_stay_in_the_window:
  assumes "sorted (selection_events e)"
  shows "sorted (selection_events (record_local_selection e now weight)) \<and>
    (w \<le> secs 300 \<longrightarrow>
       within w now (selection_events (record_local_selection e now weight)) =
       within w now (selection_events e) + unat (clamp 1 64 weight)) \<and>
    (entry_rate_limit_window_remaining e global_rpm now = None \<and> effective_rpm e global_rpm \<noteq> 0 \<longrightarrow>
       within RPM_WINDOW now (selection_events (record_local_selection e now weight))
         < unat (effective_rpm e global_rpm) + unat (clamp 1 64 weight))"
proof -
  have "RPM_WINDOW \<le> SELECTION_WINDOW_5M"
    by (simp add: RPM_WINDOW_def SELECTION_WINDOW_5M_def secs_def)
  moreover have "within RPM_WINDOW now (selection_events e) < unat (effective_rpm e global_rpm)"
    if "entry_rate_limit_window_remaining e global_rpm now = None" "effective_rpm e global_rpm \<noteq> 0"
    using that by (auto simp: rate_limit_window_eq [OF assms] Let_def split: if_splits)
  ultimately show ?thesis
    using record_local_selection_sorted [OF assms] record_local_selection_within [OF assms]
    by (simp add: SELECTION_WINDOW_5M_def)
qed

theorem recorded_selections_stay_in_the_window_witness:
  "within (secs 60) (secs 65) (selection_events (record_local_selection example_entry (secs 65) 1)) = 3"
proof -
  have s: "sorted (selection_events example_entry)"
    by (simp add: example_entry_def secs_def)
  show ?thesis
    using recorded_selections_stay_in_the_window [OF s, of "secs 65" 1 "secs 60"]
    by (simp add: within_def example_entry_def secs_def)
qed

text \<open>What it means that an account is dispatchable: it is enabled and within quota, it may
  take the model, a proxy it is bound to exists and is enabled (there is no fallback to a direct
  connection), no cooldown or explicit rate limit reaches the present instant, the minute window
  has room, Redis did not just report it full, and its weighted load stays within its limit.\<close>

theorem dispatchable_spec:
  assumes "sorted (selection_events e)"
    and "effective_max_concurrent_requests e (env_max_concurrent v) < - 1"
  shows "credential_is_dispatchable v e \<longleftrightarrow>
    \<not> disabled e \<and> \<not> account_quota_blocked e \<and>
    supports_model_with_tier_lists (env_lowercase v) (credentials e) [req_model v] (env_tiers v) \<and>
    (\<forall>rid. proxy_url (credentials e) = None \<and> proxy_resource_id (credentials e) = Some rid \<longrightarrow>
       (\<exists>r. proxy_resources v rid = Some r \<and> resource_enabled r)) \<and>
    (\<forall>until. cooldown_until e = Some until \<longrightarrow> until < env_now v) \<and>
    (\<forall>c. entry_model_cooldown e (req_model v) = Some c \<longrightarrow> mc_until c < env_now v) \<and>
    (\<forall>until. rate_limit_available_at e = Some until \<longrightarrow> until < env_now v) \<and>
    (effective_rpm e (env_rpm v) = 0 \<or>
       within RPM_WINDOW (env_now v) (selection_events e) < unat (effective_rpm e (env_rpm v))) \<and>
    (\<forall>until. redis_full_until e = Some until \<longrightarrow> until \<le> env_clock v) \<and>
    (let limit = effective_max_concurrent_requests e (env_max_concurrent v) in
     limit = 0 \<or>
     unat (in_flight_requests e) + unat (effective_weight_for_limit (env_weight v) limit) \<le> unat limit)"
  unfolding credential_is_dispatchable_def credential_is_usable_for_model_def
    proxy_dispatchable_iff cooldown_None_iff rate_limit_None_iff [OF assms(1)]
    capacity_iff [OF assms(2)]
  by (simp only: conj_assoc)

theorem dispatchable_spec_witness:
  "credential_is_dispatchable
     \<lparr>proxy_resources = Map.empty, req_model = Some ''auto'', env_now = secs 100,
      env_clock = secs 100, env_max_concurrent = 0, env_rpm = 0, env_weight = 1,
      env_tiers = Map.empty, env_excluded = {}, env_lowercase = to_ascii_lowercase\<rparr> example_entry"
proof -
  let ?v = "\<lparr>proxy_resources = Map.empty, req_model = Some ''auto'', env_now = secs 100,
      env_clock = secs 100, env_max_concurrent = 0, env_rpm = 0, env_weight = 1,
      env_tiers = Map.empty, env_excluded = {}, env_lowercase = to_ascii_lowercase\<rparr>"
  have s: "sorted (selection_events example_entry)"
    and l: "effective_max_concurrent_requests example_entry (env_max_concurrent ?v) < - 1"
    by (simp_all add: example_entry_def example_credentials_def secs_def
        effective_max_concurrent_requests_def)
  show ?thesis
    unfolding dispatchable_spec [OF s l]
    by (simp add: example_entry_def example_credentials_def secs_def within_def RPM_WINDOW_def
        effective_rpm_def effective_max_concurrent_requests_def effective_weight_for_limit_def
        normalize_capacity_weight_units_def clamp_def Let_def entry_model_cooldown_def
        supports_model_with_tier_lists_def tier_models_def)
qed

text \<open>The wait the dispatch queue computes is never too long: if it is \<open>d\<close>, then every
  candidate that is held back by a cooldown or a rate limit is still held back at any instant up
  to \<open>d\<close> later, so that sleeping for \<open>d\<close> misses none; without a wait no candidate is held back.\<close>

theorem min_dispatch_wait_misses_nothing:
  assumes "\<forall>e \<in> set entries. sorted (selection_events e)"
  shows "case min_dispatch_wait v entries of
      None \<Rightarrow> \<forall>e \<in> set entries. credential_is_dispatch_candidate v e \<longrightarrow> entry_wait v e = None
    | Some d \<Rightarrow> \<forall>e \<in> set entries. \<forall>t \<le> d. credential_is_dispatch_candidate v e \<and> entry_wait v e \<noteq> None \<longrightarrow>
        entry_wait (v\<lparr>env_now := env_now v + t\<rparr>) e \<noteq> None"
proof -
  let ?waits = "List.map_filter (entry_wait v) (filter (credential_is_dispatch_candidate v) entries)"
  have waits: "d \<in> set ?waits \<longleftrightarrow>
      (\<exists>e \<in> set entries. credential_is_dispatch_candidate v e \<and> entry_wait v e = Some d)" for d
    by (force simp: List.map_filter_def)
  show ?thesis
  proof (cases "?waits = []")
    case True
    then have "min_dispatch_wait v entries = None" by (simp add: min_dispatch_wait_def min_option_def)
    moreover have "entry_wait v e = None" if "e \<in> set entries" "credential_is_dispatch_candidate v e" for e
      using waits that True by (cases "entry_wait v e") auto
    ultimately show ?thesis by simp
  next
    case False
    then have m: "min_dispatch_wait v entries = Some (Min (set ?waits))"
      by (simp add: min_dispatch_wait_def min_option_def)
    have "entry_wait (v\<lparr>env_now := env_now v + t\<rparr>) e \<noteq> None"
      if e: "e \<in> set entries" "credential_is_dispatch_candidate v e" "entry_wait v e \<noteq> None"
        and t: "t \<le> Min (set ?waits)" for e t
    proof -
      obtain d where d: "entry_wait v e = Some d" using e(3) by auto
      then have "d \<in> set ?waits" using waits e by auto
      then have "Min (set ?waits) \<le> d" by simp
      with t have "t \<le> d" by linarith
      with entry_wait_later [OF _ d] assms e(1) show ?thesis by auto
    qed
    with m show ?thesis by simp
  qed
qed

theorem min_dispatch_wait_misses_nothing_witness:
  "let v = \<lparr>proxy_resources = Map.empty, req_model = None, env_now = secs 65,
      env_clock = secs 65, env_max_concurrent = 0, env_rpm = 0, env_weight = 1,
      env_tiers = Map.empty, env_excluded = {}, env_lowercase = to_ascii_lowercase\<rparr>
   in min_dispatch_wait v [example_entry] = Some (secs 5) \<and>
      entry_wait (v\<lparr>env_now := env_now v + secs 4\<rparr>) example_entry \<noteq> None"
proof -
  let ?v = "\<lparr>proxy_resources = Map.empty, req_model = None, env_now = secs 65,
      env_clock = secs 65, env_max_concurrent = 0, env_rpm = 0, env_weight = 1,
      env_tiers = Map.empty, env_excluded = {}, env_lowercase = to_ascii_lowercase\<rparr>"
  have cand: "credential_is_dispatch_candidate ?v example_entry"
    by (simp add: credential_is_dispatch_candidate_def credential_is_usable_for_model_def
        proxy_dispatchable_iff example_entry_def example_credentials_def
        supports_model_with_tier_lists_def tier_models_def)
  have wait: "entry_wait ?v example_entry = Some (secs 5)"
    by (simp add: entry_wait_def entry_cooldown_remaining_def entry_global_cooldown_remaining_def
        entry_model_cooldown_remaining_def entry_model_cooldown_def entry_rate_limit_remaining_def
        entry_rate_limit_window_remaining_def effective_rpm_def partition_point_def RPM_WINDOW_def
        saturating_duration_since_def checked_duration_since_def longer_wait_def secs_def Let_def
        example_entry_def example_credentials_def)
  have min: "min_dispatch_wait ?v [example_entry] = Some (secs 5)"
    by (simp add: min_dispatch_wait_def cand wait List.map_filter_def min_option_def)
  have s: "\<forall>e \<in> set [example_entry]. sorted (selection_events e)"
    by (simp add: example_entry_def secs_def)
  have "secs 4 \<le> secs 5" by (simp add: secs_def)
  with min_dispatch_wait_misses_nothing [OF s, of ?v] min cand wait show ?thesis
    by (auto simp: Let_def)
qed

text \<open>The queue statistics account for every candidate once: candidates are in a cooldown, or
  held back by a rate limit, or by concurrency, or free; and an account is dispatchable exactly
  when it is a free candidate that is not excluded.\<close>

theorem queue_counts_partition_candidates:
  "length (filter (credential_is_dispatch_candidate v) entries) =
     length (filter (\<lambda>e. credential_is_dispatch_candidate v e \<and>
       entry_cooldown_remaining e (req_model v) (env_now v) \<noteq> None) entries) +
     rate_limit_blocked_count v entries +
     concurrency_blocked_count v True entries +
     length (filter (\<lambda>e. entry_id e \<notin> env_excluded v \<and> credential_is_dispatchable v e) entries)"
  by (induction entries)
     (auto simp: rate_limit_blocked_count_def concurrency_blocked_count_def
        credential_is_dispatchable_def credential_is_dispatch_candidate_def)

end
