(* ===== verification/Degrade.thy ===== *)
theory Degrade
  imports Availability
begin

text \<open>
  The degradation score of an account per model (\<open>src/kiro/token_manager/degrade.rs\<close>):
  suspicious failures add up, successes and time decay the score, an account whose score
  reaches the suspend line is taken out until the score has fallen below the lower resume line.

  The operations of \<open>f64\<close> are the record \<open>f64\<close> of functions, the parameter \<open>F\<close> of every
  definition that computes with floats; nothing is assumed of them, so the theorems hold for
  IEEE arithmetic with its rounding, infinities and NaN.  A \<open>HashMap\<close> is an association list
  with distinct keys in its iteration order.
\<close>

subsection \<open>Floating point\<close>

text \<open>\<open>f_lit n d\<close> is the literal whose decimal value is the fraction \<open>n / d\<close>.\<close>

record 'f f64 =
  f_lit :: "nat \<Rightarrow> nat \<Rightarrow> 'f"
  f_of_nat :: "nat \<Rightarrow> 'f"
  f_of_int :: "int \<Rightarrow> 'f"
  f_add :: "'f \<Rightarrow> 'f \<Rightarrow> 'f"
  f_sub :: "'f \<Rightarrow> 'f \<Rightarrow> 'f"
  f_mul :: "'f \<Rightarrow> 'f \<Rightarrow> 'f"
  f_div :: "'f \<Rightarrow> 'f \<Rightarrow> 'f"
  f_max :: "'f \<Rightarrow> 'f \<Rightarrow> 'f"
  f_min :: "'f \<Rightarrow> 'f \<Rightarrow> 'f"
  f_clamp :: "'f \<Rightarrow> 'f \<Rightarrow> 'f \<Rightarrow> 'f"
  f_powf :: "'f \<Rightarrow> 'f \<Rightarrow> 'f"
  f_ln_1p :: "'f \<Rightarrow> 'f"
  f_less :: "'f \<Rightarrow> 'f \<Rightarrow> bool"
  f_le :: "'f \<Rightarrow> 'f \<Rightarrow> bool"
  f_eq :: "'f \<Rightarrow> 'f \<Rightarrow> bool"
  f_is_nan :: "'f \<Rightarrow> bool"

subsection \<open>Model\<close>

definition MAX_MODELS_PER_CREDENTIAL :: nat where "MAX_MODELS_PER_CREDENTIAL = 8"
definition SCORE_EPSILON :: "'f f64 \<Rightarrow> 'f" where "SCORE_EPSILON F = f_lit F 1 100"
definition THRESHOLD_EPSILON :: "'f f64 \<Rightarrow> 'f" where "THRESHOLD_EPSILON F = f_lit F 1 1000000"

type_synonym 'f degrade_scores = "(string \<times> 'f degrade_score) list"

text \<open>\<open>now_ms.saturating_sub(updated_at_ms).max(0)\<close>; the difference of two clock readings fits.\<close>

definition effective :: "'f f64 \<Rightarrow> 'f degrade_score \<Rightarrow> int \<Rightarrow> 'f \<Rightarrow> 'f" where
  "effective F s now_ms half_life_ms =
     (let elapsed_ms = f_of_int F (max (now_ms - updated_at_ms s) 0);
          half_life_ms = f_max F half_life_ms (f_lit F 1 1)
      in f_mul F (degrade_value s) (f_powf F (f_lit F 1 2) (f_div F elapsed_ms half_life_ms)))"

definition model_key :: "string option \<Rightarrow> string" where
  "model_key model = (case model of Some m \<Rightarrow> to_ascii_lowercase (trim m) | None \<Rightarrow> [])"

definition is_suspended ::
    "'f f64 \<Rightarrow> 'f degrade_scores \<Rightarrow> string option \<Rightarrow> int \<Rightarrow> 'f \<Rightarrow> 'f \<Rightarrow> bool" where
  "is_suspended F scores model now_ms half_life_ms resume_score =
     (case map_of scores (model_key model) of
        None \<Rightarrow> False
      | Some s \<Rightarrow> suspended s \<and>
          f_le F resume_score
            (f_add F (effective F s now_ms half_life_ms) (f_mul F resume_score (THRESHOLD_EPSILON F))))"

definition effective_score ::
    "'f f64 \<Rightarrow> 'f degrade_scores \<Rightarrow> string option \<Rightarrow> int \<Rightarrow> 'f \<Rightarrow> 'f" where
  "effective_score F scores model now_ms half_life_ms =
     (case map_of scores (model_key model) of
        None \<Rightarrow> f_lit F 0 1
      | Some s \<Rightarrow> effective F s now_ms half_life_ms)"

text \<open>The scan for the lowest score keeps the first of equal ones.\<close>

definition lowest_key :: "'f f64 \<Rightarrow> 'f degrade_scores \<Rightarrow> int \<Rightarrow> 'f \<Rightarrow> (string \<times> 'f) option" where
  "lowest_key F scores now_ms half_life_ms =
     fold (\<lambda>(key, s) lowest.
       let e = effective F s now_ms half_life_ms in
       if (case lowest of None \<Rightarrow> True | Some (_, lowest_score) \<Rightarrow> f_less F e lowest_score)
       then Some (key, e) else lowest) scores None"

definition evict_lowest :: "'f f64 \<Rightarrow> 'f degrade_scores \<Rightarrow> int \<Rightarrow> 'f \<Rightarrow> 'f degrade_scores" where
  "evict_lowest F scores now_ms half_life_ms =
     (case lowest_key F scores now_ms half_life_ms of
        Some (key, _) \<Rightarrow> AList.delete key scores
      | None \<Rightarrow> scores)"

definition add_failure ::
    "'f f64 \<Rightarrow> 'f degrade_scores \<Rightarrow> string option \<Rightarrow> 'f \<Rightarrow> int \<Rightarrow> 'f \<Rightarrow> 'f \<Rightarrow> 'f degrade_scores" where
  "add_failure F scores model weight now_ms half_life_ms suspend_score =
     (if f_is_nan F weight \<or> f_le F weight (f_lit F 0 1) then scores
      else
        let key = model_key model;
            current = (case map_of scores key of
                None \<Rightarrow> f_lit F 0 1 | Some s \<Rightarrow> effective F s now_ms half_life_ms);
            scores = (if map_of scores key = None \<and> MAX_MODELS_PER_CREDENTIAL \<le> length scores
              then evict_lowest F scores now_ms half_life_ms else scores);
            next = f_add F current weight;
            was_suspended = (case map_of scores key of None \<Rightarrow> False | Some s \<Rightarrow> suspended s)
        in AList.update key
             \<lparr>degrade_value = next, updated_at_ms = now_ms,
              suspended = was_suspended \<or>
                (f_less F (f_lit F 0 1) suspend_score \<and>
                 f_le F suspend_score
                   (f_add F next (f_mul F suspend_score (THRESHOLD_EPSILON F))))\<rparr> scores)"

definition apply_success ::
    "'f f64 \<Rightarrow> 'f degrade_scores \<Rightarrow> string option \<Rightarrow> 'f \<Rightarrow> int \<Rightarrow> 'f \<Rightarrow> 'f \<Rightarrow> 'f degrade_scores" where
  "apply_success F scores model decay now_ms half_life_ms resume_score =
     (let key = model_key model in
      case map_of scores key of
        None \<Rightarrow> scores
      | Some existing \<Rightarrow>
          (let next = f_mul F (effective F existing now_ms half_life_ms)
                        (f_clamp F (f_lit F 0 1) (f_lit F 1 1) decay)
           in if f_le F next (SCORE_EPSILON F) then AList.delete key scores
              else AList.update key
                     \<lparr>degrade_value = next, updated_at_ms = now_ms,
                      suspended = suspended existing \<and> f_le F resume_score next\<rparr> scores))"

subsection \<open>The table\<close>

definition degrade_inv :: "'f degrade_scores \<Rightarrow> bool" where
  "degrade_inv scores \<longleftrightarrow>
     distinct (map fst scores) \<and> length scores \<le> MAX_MODELS_PER_CREDENTIAL"

lemma lowest_key_member:
  assumes "scores \<noteq> []"
  shows "\<exists>k e. lowest_key F scores n h = Some (k, e) \<and> k \<in> fst ` set scores"
proof -
  let ?f = "\<lambda>(key, s) lowest. let e = effective F s n h in
    if (case lowest of None \<Rightarrow> True | Some (_, l) \<Rightarrow> f_less F e l) then Some (key, e) else lowest"
  let ?P = "\<lambda>r. \<exists>k e. r = Some (k, e) \<and> k \<in> fst ` set scores"
  obtain x xs where s: "scores = x # xs" using assms by (cases scores) auto
  have "?P (fold ?f xs (?f x None))"
  proof (rule fold_invariant [where Q = "\<lambda>x. x \<in> set scores"])
    show "?P (?f x None)" by (auto simp: s Let_def case_prod_beta)
    show "?P (?f y r)" if "y \<in> set scores" "?P r" for y r
      using that by (auto simp: Let_def case_prod_beta)
  qed (simp add: s)
  then show ?thesis by (simp add: lowest_key_def s)
qed

lemma length_delete_member:
  "distinct (map fst xs) \<Longrightarrow> k \<in> fst ` set xs \<Longrightarrow> length (AList.delete k xs) < length xs"
  by (induction xs) (auto simp: AList.delete_eq intro: le_imp_less_Suc length_filter_le)

lemma length_update:
  "length (AList.update k v xs) = (if k \<in> fst ` set xs then length xs else Suc (length xs))"
  by (induction xs) (auto simp: image_iff)

lemma length_delete_le: "length (AList.delete k xs) \<le> length xs"
  by (simp add: AList.delete_eq)

text \<open>Room is made for a new model only, and only when the table is full.\<close>

definition make_room :: "'f f64 \<Rightarrow> 'f degrade_scores \<Rightarrow> string \<Rightarrow> int \<Rightarrow> 'f \<Rightarrow> 'f degrade_scores" where
  "make_room F scores key n h =
     (if map_of scores key = None \<and> MAX_MODELS_PER_CREDENTIAL \<le> length scores
      then evict_lowest F scores n h else scores)"

lemma make_room_spec:
  assumes inv: "degrade_inv scores"
  shows "distinct (map fst (make_room F scores key n h)) \<and>
    map_of (make_room F scores key n h) key = map_of scores key \<and>
    (key \<notin> fst ` set scores \<longrightarrow> length (make_room F scores key n h) < MAX_MODELS_PER_CREDENTIAL) \<and>
    length (make_room F scores key n h) \<le> length scores \<and>
    (\<forall>k. map_of (make_room F scores key n h) k \<in> {map_of scores k, None})"
proof (cases "map_of scores key = None \<and> MAX_MODELS_PER_CREDENTIAL \<le> length scores")
  case True
  then have "scores \<noteq> []" by (auto simp: MAX_MODELS_PER_CREDENTIAL_def)
  from lowest_key_member [OF this, of F n h]
  obtain k e where k: "lowest_key F scores n h = Some (k, e)" "k \<in> fst ` set scores"
    by (elim exE conjE)
  have mr: "make_room F scores key n h = AList.delete k scores"
    using True k by (simp add: make_room_def evict_lowest_def)
  have "key \<notin> fst ` set scores" using True by (simp add: map_of_eq_None_iff)
  with k have "k \<noteq> key" by auto
  moreover have "length (AList.delete k scores) < length scores"
    using inv k by (intro length_delete_member) (simp_all add: degrade_inv_def)
  moreover have "length scores \<le> MAX_MODELS_PER_CREDENTIAL" "distinct (map fst scores)"
    using inv by (simp_all add: degrade_inv_def)
  ultimately show ?thesis
    unfolding mr by (simp add: distinct_delete delete_conv')
next
  case False
  then have mr: "make_room F scores key n h = scores" unfolding make_room_def by (rule if_not_P)
  have "length scores < MAX_MODELS_PER_CREDENTIAL" if "key \<notin> fst ` set scores"
    using False that by (simp add: map_of_eq_None_iff)
  then show ?thesis unfolding mr using inv by (simp add: degrade_inv_def)
qed

lemma add_failure_eq:
  "\<not> (f_is_nan F w \<or> f_le F w (f_lit F 0 1)) \<Longrightarrow> degrade_inv scores \<Longrightarrow>
   add_failure F scores m w n h line =
     (let key = model_key m;
          next = f_add F (effective_score F scores m n h) w in
      AList.update key
        \<lparr>degrade_value = next, updated_at_ms = n,
         suspended = (case map_of scores key of None \<Rightarrow> False | Some s \<Rightarrow> suspended s) \<or>
           (f_less F (f_lit F 0 1) line \<and>
            f_le F line (f_add F next (f_mul F line (THRESHOLD_EPSILON F))))\<rparr>
        (make_room F scores key n h))"
  using make_room_spec [of scores F "model_key m" n h]
  by (simp add: add_failure_def effective_score_def make_room_def Let_def)

lemma add_failure_inv:
  assumes inv: "degrade_inv scores"
  shows "degrade_inv (add_failure F scores m w n h line)"
proof (cases "f_is_nan F w \<or> f_le F w (f_lit F 0 1)")
  case True
  with inv show ?thesis by (auto simp: add_failure_def)
next
  case False
  let ?r = "make_room F scores (model_key m) n h"
  have "fst ` set ?r = dom (map_of ?r)" by (simp add: dom_map_of_conv_image_fst)
  then have mem: "model_key m \<in> fst ` set ?r \<longleftrightarrow> model_key m \<in> fst ` set scores"
    using make_room_spec [OF inv, of F "model_key m" n h]
    by (metis domIff dom_map_of_conv_image_fst)
  show ?thesis
    unfolding add_failure_eq [OF False inv] Let_def
    using make_room_spec [OF inv, of F "model_key m" n h] inv mem
    by (auto simp: degrade_inv_def distinct_update length_update)
qed

lemma apply_success_inv: "degrade_inv scores \<Longrightarrow> degrade_inv (apply_success F scores m d n h r)"
  by (auto simp: apply_success_def degrade_inv_def Let_def distinct_update distinct_delete
      length_update map_of_eq_None_iff image_iff dom_map_of_conv_image_fst
      split: option.splits intro: order_trans [OF length_delete_le])

subsection \<open>Properties\<close>

text \<open>The degradation table of an account stays a map of at most eight models whatever
  failures and successes are reported, for any arithmetic of the scores.\<close>

theorem degrade_table_stays_bounded:
  assumes "degrade_inv scores"
  shows "degrade_inv (add_failure F scores model weight now_ms half_life_ms suspend_score) \<and>
    degrade_inv (apply_success F scores model decay now_ms half_life_ms resume_score)"
  using assms by (simp add: add_failure_inv apply_success_inv)

definition unit_f64 :: "unit f64" where
  "unit_f64 = \<lparr>f_lit = \<lambda>_ _. (), f_of_nat = \<lambda>_. (), f_of_int = \<lambda>_. (), f_add = \<lambda>_ _. (),
     f_sub = \<lambda>_ _. (), f_mul = \<lambda>_ _. (), f_div = \<lambda>_ _. (), f_max = \<lambda>_ _. (), f_min = \<lambda>_ _. (),
     f_clamp = \<lambda>_ _ _. (), f_powf = \<lambda>_ _. (), f_ln_1p = \<lambda>_. (), f_less = \<lambda>_ _. False,
     f_le = \<lambda>_ _. False, f_eq = \<lambda>_ _. True, f_is_nan = \<lambda>_. False\<rparr>"

theorem degrade_table_stays_bounded_witness:
  "degrade_inv (add_failure unit_f64 [] (Some ''opus'') () 0 () ())"
  using degrade_table_stays_bounded [of "[]" unit_f64 "Some ''opus''" "()" 0 "()" "()"]
  by (simp add: degrade_inv_def)

text \<open>Suspension has hysteresis and is kept per model: a failure never lifts the suspension of
  its model and leaves any other model's score as it was unless it is the one evicted; a success
  lifts the suspension only when the decayed score is below the resume line or negligible, and
  touches no other model.\<close>

theorem suspension_has_hysteresis:
  assumes inv: "degrade_inv scores" and s: "map_of scores (model_key model) = Some s"
    and susp: "suspended s" and other: "k \<noteq> model_key model"
  shows "(\<exists>s'. map_of (add_failure F scores model weight now_ms hl line) (model_key model) = Some s' \<and>
        suspended s') \<and>
    map_of (add_failure F scores model weight now_ms hl line) k \<in> {map_of scores k, None} \<and>
    map_of (apply_success F scores model decay now_ms hl line) k = map_of scores k \<and>
    (let next = f_mul F (effective F s now_ms hl) (f_clamp F (f_lit F 0 1) (f_lit F 1 1) decay) in
     (case map_of (apply_success F scores model decay now_ms hl line) (model_key model) of
        None \<Rightarrow> f_le F next (SCORE_EPSILON F)
      | Some s' \<Rightarrow> degrade_value s' = next \<and> (suspended s' \<longleftrightarrow> f_le F line next)))"
proof -
  have "(\<exists>s'. map_of (add_failure F scores model weight now_ms hl line) (model_key model) = Some s' \<and>
        suspended s') \<and>
    map_of (add_failure F scores model weight now_ms hl line) k \<in> {map_of scores k, None}"
  proof (cases "f_is_nan F weight \<or> f_le F weight (f_lit F 0 1)")
    case True
    with s susp show ?thesis by (auto simp: add_failure_def)
  next
    case False
    show ?thesis
      unfolding add_failure_eq [OF False inv] Let_def
      using make_room_spec [OF inv, of F "model_key model" now_ms hl] s susp other
      by (simp add: update_conv')
  qed
  moreover have "map_of (apply_success F scores model decay now_ms hl line) k = map_of scores k"
    using s other by (simp add: apply_success_def Let_def update_conv' delete_conv')
  moreover have "let next = f_mul F (effective F s now_ms hl) (f_clamp F (f_lit F 0 1) (f_lit F 1 1) decay) in
     (case map_of (apply_success F scores model decay now_ms hl line) (model_key model) of
        None \<Rightarrow> f_le F next (SCORE_EPSILON F)
      | Some s' \<Rightarrow> degrade_value s' = next \<and> (suspended s' \<longleftrightarrow> f_le F line next))"
    using s susp by (simp add: apply_success_def Let_def update_conv' delete_conv')
  ultimately show ?thesis by blast
qed

theorem suspension_has_hysteresis_witness:
  "\<exists>s'. map_of (add_failure unit_f64
      [(''opus'', \<lparr>degrade_value = (), updated_at_ms = 0, suspended = True\<rparr>)]
      (Some ''opus'') () 1 () ()) (model_key (Some ''opus'')) = Some s' \<and> suspended s'"
proof -
  have key: "model_key (Some ''opus'') = ''opus''"
    by (simp add: model_key_def trimmed_nonblank to_ascii_lowercase_def ascii_lower_def)
  show ?thesis
    by (rule suspension_has_hysteresis
          [where k = "[]" and s = "\<lparr>degrade_value = (), updated_at_ms = 0, suspended = True\<rparr>",
           THEN conjunct1])
       (simp_all add: degrade_inv_def MAX_MODELS_PER_CREDENTIAL_def key)
qed

end
