(* ===== verification/Selection.thy ===== *)
theory Selection
  imports Degrade "HOL-Library.Product_Lexorder" "HOL-Library.Option_ord"
begin

text \<open>
  Which dispatchable account a request takes (\<open>selection.rs\<close> and the scoring part of
  \<open>strategy.rs\<close> in \<open>src/kiro/token_manager\<close>): catalog preference, removal of degraded accounts,
  Fast tier, priority tier, warm-up share, and the order of the load-balancing mode.

  The draws of \<open>fastrand\<close> are parameters: \<open>draw_u32\<close> is the value of \<open>u32(0..100)\<close>, \<open>draw_f64\<close>
  that of \<open>f64()\<close>.  Floats are as in theory Degrade.
\<close>

subsection \<open>Configuration and modes\<close>

record 'f scheduler_config =
  credential_max_concurrent_requests :: u32
  scheduler_priority_weight :: 'f
  scheduler_load_weight :: 'f
  scheduler_error_weight :: 'f
  scheduler_latency_weight :: 'f
  scheduler_probation_weight :: 'f
  scheduler_selection_pressure_weight :: 'f
  scheduler_total_selection_weight :: 'f
  scheduler_top_k :: u32
  credential_warmup_selection_percent :: u32
  credential_warmup_max_selection_percent :: u32
  credential_degrade_enabled :: bool
  credential_degrade_suspend_score :: 'f
  credential_degrade_resume_ratio :: 'f
  credential_degrade_half_life_secs :: u64
  credential_degrade_probe_percent :: u32

datatype load_balancing_mode = Priority | Balanced | HealthBalanced | WeightedLeastInflight

fun mode_as_str :: "load_balancing_mode \<Rightarrow> string" where
  "mode_as_str Priority = ''priority''"
| "mode_as_str Balanced = ''balanced''"
| "mode_as_str HealthBalanced = ''health_balanced''"
| "mode_as_str WeightedLeastInflight = ''weighted_least_inflight''"

definition all_modes :: "load_balancing_mode list" where
  "all_modes = [Priority, Balanced, HealthBalanced, WeightedLeastInflight]"

definition mode_from_str :: "string \<Rightarrow> load_balancing_mode option" where
  "mode_from_str v = List.find (\<lambda>mode. mode_as_str mode = v) all_modes"

definition fills_priority_tiers_in_order :: "load_balancing_mode \<Rightarrow> bool" where
  "fills_priority_tiers_in_order mode \<longleftrightarrow> mode = Priority"

definition uses_scores :: "load_balancing_mode \<Rightarrow> bool" where
  "uses_scores mode \<longleftrightarrow> mode = HealthBalanced \<or> mode = WeightedLeastInflight"

subsection \<open>Scores (strategy.rs)\<close>

definition entry_effective_health ::
    "'f credential_entry \<Rightarrow> string option \<Rightarrow> 'f scheduler_health_state" where
  "entry_effective_health e model =
     (case model of
        None \<Rightarrow> health e
      | Some m \<Rightarrow> (case model_health e (model_state_key m) of Some h \<Rightarrow> h | None \<Rightarrow> health e))"

definition scheduler_score_with_config ::
    "'f f64 \<Rightarrow> 'f credential_entry \<Rightarrow> string option \<Rightarrow> int \<Rightarrow> 'f \<Rightarrow> 'f scheduler_config \<Rightarrow> 'f" where
  "scheduler_score_with_config F e model now_ms pressure config =
     (let zero = f_lit F 0 1; one = f_lit F 1 1;
          max_concurrent = effective_max_concurrent_requests e
            (credential_max_concurrent_requests config);
          in_flight = f_of_nat F (unat (in_flight_requests e));
          load = (if 0 < max_concurrent
            then f_div F in_flight (f_of_nat F (unat max_concurrent)) else in_flight);
          h = entry_effective_health e model;
          probation = f_of_nat F
            (case probation_until_ms h of Some until_ms \<Rightarrow> if now_ms < until_ms then 1 else 0
             | None \<Rightarrow> 0);
          weight = (\<lambda>w. f_max F w zero);
          a = f_mul F (f_of_nat F (unat (priority (credentials e))))
                (weight (scheduler_priority_weight config));
          a = f_add F a (f_mul F load (weight (scheduler_load_weight config)));
          a = f_add F a (f_mul F (f_clamp F zero one (recent_error_rate h))
                (weight (scheduler_error_weight config)));
          a = f_add F a (f_mul F
                (f_max F (case latency_ewma_ms h of Some l \<Rightarrow> l | None \<Rightarrow> zero) zero)
                (weight (scheduler_latency_weight config)));
          a = f_add F a (f_mul F probation (weight (scheduler_probation_weight config)));
          a = f_add F a (f_mul F (f_max F pressure zero)
                (weight (scheduler_selection_pressure_weight config)))
      in f_add F a (f_mul F (f_ln_1p F (f_of_nat F (unat (total_selection_count e))))
           (weight (scheduler_total_selection_weight config))))"

definition selection_pressure_from_totals ::
    "'f f64 \<Rightarrow> 'f credential_entry \<Rightarrow> nat \<Rightarrow> nat \<Rightarrow> 'f" where
  "selection_pressure_from_totals F e total_recent candidate_count =
     (if candidate_count \<le> 1 \<or> total_recent = 0 then f_lit F 0 1
      else
        let share = f_div F (f_of_nat F (unat (recent_selection_count_60s (health e))))
              (f_of_nat F total_recent);
            expected_share = f_div F (f_lit F 1 1) (f_of_nat F candidate_count)
        in f_max F (f_sub F (f_div F share expected_share) (f_lit F 1 1)) (f_lit F 0 1))"

definition warmup_target_share_with_config :: "'f f64 \<Rightarrow> 'f scheduler_config \<Rightarrow> nat \<Rightarrow> 'f" where
  "warmup_target_share_with_config F config warming_count =
     (if warming_count = 0 then f_lit F 0 1
      else
        let per_warming = f_div F
              (f_of_nat F (unat (min (credential_warmup_selection_percent config) 100)))
              (f_lit F 100 1);
            max_share = f_div F
              (f_of_nat F (unat (min (credential_warmup_max_selection_percent config) 100)))
              (f_lit F 100 1)
        in f_min F (f_min F (f_mul F per_warming (f_of_nat F warming_count)) max_share) (f_lit F 1 1))"

definition should_select_warming_from_totals ::
    "'f f64 \<Rightarrow> 'f scheduler_config \<Rightarrow> nat \<Rightarrow> nat \<Rightarrow> nat \<Rightarrow> nat \<Rightarrow> bool" where
  "should_select_warming_from_totals F config ready_count warming_count total_recent warming_recent =
     (if warming_count = 0 then False
      else if ready_count = 0 then True
      else
        let target_share = warmup_target_share_with_config F config warming_count in
        if f_le F target_share (f_lit F 0 1) then False
        else if total_recent = 0 then True
        else f_less F (f_div F (f_of_nat F warming_recent) (f_of_nat F total_recent)) target_share)"

text \<open>
  One step of the insertion into the \<open>top_k\<close> best: the position is the first entry that is
  worse, or the end.
\<close>

definition top_insert ::
    "'f f64 \<Rightarrow> nat \<Rightarrow> ('f credential_entry \<times> 'f) list \<Rightarrow> 'f credential_entry \<Rightarrow> 'f \<Rightarrow>
     ('f credential_entry \<times> 'f) list" where
  "top_insert F top_k best e score =
     (let insert_at = length (takeWhile (\<lambda>(existing, existing_score).
            \<not> (f_less F score existing_score \<or>
               f_eq F score existing_score \<and> entry_id e < entry_id existing)) best)
      in if insert_at < top_k then
           (let best = take insert_at best @ [(e, score)] @ drop insert_at best
            in if top_k < length best then butlast best else best)
         else best)"

definition score_weight :: "'f f64 \<Rightarrow> 'f \<Rightarrow> 'f \<Rightarrow> 'f" where
  "score_weight F worst score =
     f_max F (f_add F (f_sub F worst score) (f_lit F 1 1)) (f_lit F 1 100)"

fun roll_select :: "'f f64 \<Rightarrow> 'f \<Rightarrow> 'f \<Rightarrow> ('f credential_entry \<times> 'f) list \<Rightarrow> 'f credential_entry option"
  where
  "roll_select F worst roll [] = None"
| "roll_select F worst roll ((e, score) # rest) =
     (let roll = f_sub F roll (score_weight F worst score) in
      if f_le F roll (f_lit F 0 1) then Some e else roll_select F worst roll rest)"

definition top_candidates ::
    "'f f64 \<Rightarrow> 'f credential_entry list \<Rightarrow> string option \<Rightarrow> int \<Rightarrow> 'f scheduler_config \<Rightarrow>
     ('f credential_entry \<times> 'f) list" where
  "top_candidates F candidates model now_ms config =
     (let candidate_count = length candidates;
          total_recent = sum_list (map (\<lambda>c. unat (recent_selection_count_60s (health c))) candidates);
          top_k = min (unat (max (scheduler_top_k config) 1)) candidate_count
      in fold (\<lambda>e best.
           let pressure = selection_pressure_from_totals F e total_recent candidate_count
           in top_insert F top_k best e
                (scheduler_score_with_config F e model now_ms pressure config)) candidates [])"

definition select_health_weighted ::
    "'f f64 \<Rightarrow> 'f \<Rightarrow> 'f credential_entry list \<Rightarrow> string option \<Rightarrow> int \<Rightarrow> 'f scheduler_config \<Rightarrow>
     'f credential_entry option" where
  "select_health_weighted F draw_f64 candidates model now_ms config =
     (let best = top_candidates F candidates model now_ms config in
      if best = [] then None
      else
        let worst_score = snd (last best);
            total_weight = fold (\<lambda>(_, score) acc. f_add F acc (score_weight F worst_score score))
              best (f_lit F 0 1);
            roll = f_mul F draw_f64 total_weight
        in case roll_select F worst_score roll best of
             Some e \<Rightarrow> Some e
           | None \<Rightarrow> Some (fst (last best)))"

subsection \<open>Selection (selection.rs)\<close>

definition preferred_priority :: "'f credential_entry list \<Rightarrow> u32 option" where
  "preferred_priority candidates = min_option (map (\<lambda>e. priority (credentials e)) candidates)"

record sticky_tier =
  tier_fast :: u32
  tier_priority :: u32

definition sticky_tier_of :: "kiro_credentials \<Rightarrow> sticky_tier" where
  "sticky_tier_of c = \<lparr>tier_fast = fast c, tier_priority = priority c\<rparr>"

definition is_better_than :: "sticky_tier \<Rightarrow> sticky_tier \<Rightarrow> bool \<Rightarrow> bool" where
  "is_better_than a b compare_priority \<longleftrightarrow>
     tier_fast b < tier_fast a \<or>
     (compare_priority \<and> tier_fast a = tier_fast b \<and> tier_priority a < tier_priority b)"

definition retain_preferred_priority_tier :: "'f credential_entry list \<Rightarrow> 'f credential_entry list" where
  "retain_preferred_priority_tier available =
     (case preferred_priority available of
        Some preferred \<Rightarrow> filter (\<lambda>e. priority (credentials e) = preferred) available
      | None \<Rightarrow> available)"

definition prefer_catalog_listed ::
    "'f credential_entry list \<Rightarrow> string option \<Rightarrow> 'f credential_entry list" where
  "prefer_catalog_listed dispatchable model =
     (if \<not> list_ex (\<lambda>e. credential_catalog_lists_model e model) dispatchable then dispatchable
      else filter (\<lambda>e. credential_catalog_lists_model e model) dispatchable)"

definition retain_non_degraded ::
    "'f f64 \<Rightarrow> nat \<Rightarrow> 'f credential_entry list \<Rightarrow> string option \<Rightarrow> int \<Rightarrow> 'f scheduler_config \<Rightarrow>
     'f credential_entry list" where
  "retain_non_degraded F draw_u32 available model now_ms config =
     (let threshold = credential_degrade_suspend_score config;
          resume_score = f_max F
            (f_mul F threshold
              (f_clamp F (f_lit F 0 1) (f_lit F 1 1) (credential_degrade_resume_ratio config)))
            (f_lit F 0 1) in
      if \<not> credential_degrade_enabled config \<or> f_le F resume_score (f_lit F 0 1) \<or>
         length available \<le> 1 then available
      else
        let half_life_ms = f_mul F
              (f_of_nat F (unat (max (credential_degrade_half_life_secs config) 1)))
              (f_lit F 1000 1);
            is_degraded = (\<lambda>e. is_suspended F (degrade_scores e) model now_ms half_life_ms resume_score);
            healthy_count = length (filter (\<lambda>e. \<not> is_degraded e) available) in
        if healthy_count = 0 \<or> healthy_count = length available then available
        else
          let probe_percent = min (credential_degrade_probe_percent config) 100 in
          if 0 < probe_percent \<and> draw_u32 < unat probe_percent then available
          else filter (\<lambda>e. \<not> is_degraded e) available)"

definition retain_top_fast_tier :: "'f credential_entry list \<Rightarrow> 'f credential_entry list" where
  "retain_top_fast_tier available =
     (let top_fast = (case max_option (map (\<lambda>e. fast (credentials e)) available) of
            Some m \<Rightarrow> m | None \<Rightarrow> 0)
      in if 0 < top_fast then filter (\<lambda>e. fast (credentials e) = top_fast) available else available)"

definition warmup_group ::
    "'f f64 \<Rightarrow> 'f credential_entry list \<Rightarrow> 'f scheduler_config \<Rightarrow> 'f credential_entry list" where
  "warmup_group F available config =
     (let recent = (\<lambda>e. unat (recent_selection_count_60s (health e)));
          warming = filter (\<lambda>e. 0 < warmup_remaining e) available;
          ready = filter (\<lambda>e. \<not> 0 < warmup_remaining e) available;
          warming_recent = sum_list (map recent warming);
          total_recent = warming_recent + sum_list (map recent ready)
      in if should_select_warming_from_totals F config (length ready) (length warming)
              total_recent warming_recent
         then warming else ready)"

definition spread_key ::
    "'f credential_entry \<Rightarrow> u32 \<Rightarrow> u32 \<Rightarrow> u32 \<times> nat \<times> u32 \<times> u32 \<times> instant option \<times> u64" where
  "spread_key e global_max bound_sessions =
     (let max_concurrent = effective_max_concurrent_requests e global_max;
          load_per_mille = (if 0 < max_concurrent
            then unat (in_flight_requests e) * 1000 div unat max_concurrent else 0)
      in (priority (credentials e), load_per_mille, bound_sessions,
          recent_selection_count_60s (health e),
          if selection_events e = [] then None else Some (last (selection_events e)),
          entry_id e))"

text \<open>\<open>Iterator::min_by_key\<close> returns the first of equal minima.\<close>

fun min_by_key :: "('a \<Rightarrow> 'k::linorder) \<Rightarrow> 'a list \<Rightarrow> 'a option" where
  "min_by_key key [] = None"
| "min_by_key key (x # xs) =
     (case min_by_key key xs of
        None \<Rightarrow> Some x
      | Some y \<Rightarrow> if key y < key x then Some y else Some x)"

definition order_by_mode ::
    "'f f64 \<Rightarrow> 'f \<Rightarrow> load_balancing_mode \<Rightarrow> 'f credential_entry list \<Rightarrow> string option \<Rightarrow> int \<Rightarrow>
     'f scheduler_config \<Rightarrow> (u64 \<rightharpoonup> u32) \<Rightarrow> 'f credential_entry option" where
  "order_by_mode F draw_f64 mode candidates model now_ms config bound_sessions =
     (if uses_scores mode then select_health_weighted F draw_f64 candidates model now_ms config
      else min_by_key (\<lambda>e. spread_key e (credential_max_concurrent_requests config)
             (case bound_sessions (entry_id e) of Some n \<Rightarrow> n | None \<Rightarrow> 0)) candidates)"

definition select_candidate ::
    "'f f64 \<Rightarrow> nat \<Rightarrow> 'f \<Rightarrow> load_balancing_mode \<Rightarrow> 'f credential_entry list \<Rightarrow> string option \<Rightarrow> int \<Rightarrow>
     'f scheduler_config \<Rightarrow> (u64 \<rightharpoonup> u32) \<Rightarrow> 'f credential_entry option" where
  "select_candidate F draw_u32 draw_f64 mode dispatchable model now_ms config bound_sessions =
     (let available = prefer_catalog_listed dispatchable model in
      if available = [] then None
      else
        let available = retain_non_degraded F draw_u32 available model now_ms config;
            available = retain_top_fast_tier available;
            available = (if fills_priority_tiers_in_order mode
              then retain_preferred_priority_tier available else available);
            candidates = warmup_group F available config
        in order_by_mode F draw_f64 mode candidates model now_ms config bound_sessions)"

subsection \<open>Every stage keeps a candidate\<close>

text \<open>
  The contract of one stage of the selection: it keeps some of the candidates, and at least
  one if there is any.  Stages compose.
\<close>

locale selection_stage =
  fixes stage :: "'e list \<Rightarrow> 'e list"
  assumes subset: "set (stage xs) \<subseteq> set xs"
    and nonempty: "xs \<noteq> [] \<Longrightarrow> stage xs \<noteq> []"
begin

lemma picks: "e \<in> set (stage xs) \<Longrightarrow> e \<in> set xs"
  using subset by blast

lemma empty_iff: "stage xs = [] \<longleftrightarrow> xs = []"
  using subset [of xs] nonempty by auto

end

lemma list_ex_filter: "list_ex p xs \<longleftrightarrow> filter p xs \<noteq> []"
  by (induction xs) auto

interpretation catalog_stage: selection_stage "\<lambda>xs. prefer_catalog_listed xs model" for model
  by unfold_locales (auto simp: prefer_catalog_listed_def list_ex_filter)

lemma max_option_Some: "max_option xs = Some m \<Longrightarrow> m \<in> set xs \<and> (\<forall>x \<in> set xs. x \<le> m)"
  by (auto simp: max_option_def split: if_splits)

lemma min_option_Some: "min_option xs = Some m \<Longrightarrow> m \<in> set xs \<and> (\<forall>x \<in> set xs. m \<le> x)"
  by (auto simp: min_option_def split: if_splits)

lemma max_option_None: "max_option xs = None \<longleftrightarrow> xs = []"
  by (simp add: max_option_def)

lemma min_option_None: "min_option xs = None \<longleftrightarrow> xs = []"
  by (simp add: min_option_def)

lemma filter_ne: "x \<in> set xs \<Longrightarrow> p x \<Longrightarrow> filter p xs \<noteq> []"
  by (auto simp: filter_empty_conv)

interpretation fast_stage: selection_stage retain_top_fast_tier
proof
  show "retain_top_fast_tier xs \<noteq> []" if "xs \<noteq> []" for xs :: "'a credential_entry list"
    using that max_option_Some [of "map (\<lambda>e. fast (credentials e)) xs"]
    by (auto simp: retain_top_fast_tier_def Let_def max_option_None filter_empty_conv
        split: option.splits)
qed (auto simp: retain_top_fast_tier_def Let_def)

interpretation priority_stage: selection_stage retain_preferred_priority_tier
proof
  show "retain_preferred_priority_tier xs \<noteq> []" if "xs \<noteq> []" for xs :: "'a credential_entry list"
    using that min_option_Some [of "map (\<lambda>e. priority (credentials e)) xs"]
    by (auto simp: retain_preferred_priority_tier_def preferred_priority_def min_option_None
        filter_empty_conv split: option.splits)
qed (auto simp: retain_preferred_priority_tier_def split: option.splits)

interpretation degrade_stage: selection_stage
  "\<lambda>xs. retain_non_degraded F draw_u32 xs model now_ms config" for F draw_u32 model now_ms config
  by unfold_locales (auto simp: retain_non_degraded_def Let_def filter_empty_conv split: if_splits)

interpretation warmup_stage: selection_stage "\<lambda>xs. warmup_group F xs config" for F config
  by unfold_locales
     (auto simp: warmup_group_def Let_def should_select_warming_from_totals_def filter_empty_conv
       split: if_splits)

lemma min_by_key_spec:
  "(min_by_key key xs = None \<longleftrightarrow> xs = []) \<and>
   (\<forall>x. min_by_key key xs = Some x \<longrightarrow> x \<in> set xs \<and> (\<forall>y \<in> set xs. key x \<le> key y))"
  by (induction xs) (auto simp: not_less intro: order_trans split: option.splits if_splits)

lemma top_insert_subset: "fst ` set (top_insert F k best e score) \<subseteq> insert e (fst ` set best)"
proof -
  let ?S = "insert (e, score) (set best)"
  have a: "set (take n best @ (e, score) # drop n best) \<subseteq> ?S" for n
    by (auto dest: in_set_takeD in_set_dropD)
  have b: "set (butlast ys) \<subseteq> ?S" if "set ys \<subseteq> ?S" for ys
    using that by (auto dest: in_set_butlastD)
  have "set (top_insert F k best e score) \<subseteq> ?S"
    using a b [OF a] by (simp add: top_insert_def Let_def subset_insertI del: set_append set_simps)
  then show ?thesis by auto
qed

lemma top_insert_nonempty:
  assumes "0 < k"
  shows "top_insert F k best e score \<noteq> []"
proof -
  have "length (takeWhile p best) < k \<or> best \<noteq> []" for p using assms by (cases best) auto
  moreover have "butlast xs \<noteq> []" if "k < length xs" for xs :: "('a credential_entry \<times> 'a) list"
    using that assms by (cases xs) auto
  ultimately show ?thesis by (auto simp: top_insert_def Let_def)
qed

lemma fold_top_insert:
  "fst ` set (fold (\<lambda>e best. top_insert F k best e (g e)) xs best) \<subseteq> set xs \<union> fst ` set best"
proof (induction xs arbitrary: best)
  case (Cons x xs)
  then show ?case
    using Cons.IH [of "top_insert F k best x (g x)"] top_insert_subset [of F k best x "g x"] by auto
qed simp

lemma fold_top_insert_nonempty:
  "0 < k \<Longrightarrow> xs \<noteq> [] \<or> best \<noteq> [] \<Longrightarrow> fold (\<lambda>e best. top_insert F k best e (g e)) xs best \<noteq> []"
  by (induction xs arbitrary: best) (auto simp: top_insert_nonempty)

lemma top_candidates_spec:
  "fst ` set (top_candidates F candidates model now_ms config) \<subseteq> set candidates \<and>
   (candidates \<noteq> [] \<longrightarrow> top_candidates F candidates model now_ms config \<noteq> [])"
proof -
  have "0 < unat (max (scheduler_top_k config) 1)"
    by (metis max.cobounded2 unat_gt_0 word_le_0_iff zero_neq_one)
  then have k: "0 < min (unat (max (scheduler_top_k config) 1)) (length candidates)"
    if "candidates \<noteq> []" using that by simp
  let ?g = "\<lambda>e. scheduler_score_with_config F e model now_ms
    (selection_pressure_from_totals F e
       (sum_list (map (\<lambda>c. unat (recent_selection_count_60s (health c))) candidates))
       (length candidates)) config"
  show ?thesis
    using fold_top_insert [of F "min (unat (max (scheduler_top_k config) 1)) (length candidates)" ?g candidates "[]"]
      fold_top_insert_nonempty [OF k, of candidates "[]" F ?g]
    by (simp add: top_candidates_def Let_def)
qed

lemma roll_select_member: "roll_select F w r xs = Some e \<Longrightarrow> e \<in> fst ` set xs"
  by (induction F w r xs rule: roll_select.induct) (auto simp: Let_def split: if_splits)

lemma select_health_weighted_spec:
  "(select_health_weighted F d candidates model now_ms config = None \<longleftrightarrow> candidates = []) \<and>
   (select_health_weighted F d candidates model now_ms config = Some e \<longrightarrow> e \<in> set candidates)"
proof -
  let ?t = "top_candidates F candidates model now_ms config"
  have nil: "?t = [] \<longleftrightarrow> candidates = []"
    using top_candidates_spec [of F candidates model now_ms config]
    by (auto simp: top_candidates_def)
  moreover have "fst (last ?t) \<in> set candidates" if "?t \<noteq> []"
    using top_candidates_spec [of F candidates model now_ms config] last_in_set [OF that] by auto
  ultimately show ?thesis
    using top_candidates_spec [of F candidates model now_ms config]
    by (auto simp: select_health_weighted_def Let_def dest!: roll_select_member split: option.splits)
qed

text \<open>The pool the tiers are taken from, and the group the mode orders.\<close>

definition pool where
  "pool F draw dispatchable model now_ms config =
     retain_non_degraded F draw (prefer_catalog_listed dispatchable model) model now_ms config"

definition tiered where
  "tiered mode available =
     (if fills_priority_tiers_in_order mode
      then retain_preferred_priority_tier (retain_top_fast_tier available)
      else retain_top_fast_tier available)"

interpretation tier_stage: selection_stage "tiered mode" for mode
  by unfold_locales
     (auto simp: tiered_def fast_stage.empty_iff priority_stage.empty_iff
       dest: fast_stage.picks priority_stage.picks)

interpretation pool_stage: selection_stage "\<lambda>xs. pool F draw xs model now_ms config"
  for F draw model now_ms config
  by unfold_locales
     (auto simp: pool_def catalog_stage.empty_iff degrade_stage.empty_iff
       dest: catalog_stage.picks degrade_stage.picks)

lemma select_candidate_eq:
  "select_candidate F du df mode dispatchable model now_ms config bound =
     order_by_mode F df mode
       (warmup_group F (tiered mode (pool F du dispatchable model now_ms config)) config)
       model now_ms config bound"
proof (cases "prefer_catalog_listed dispatchable model = []")
  case True
  then have "pool F du dispatchable model now_ms config = []"
    by (simp add: pool_def degrade_stage.empty_iff)
  then have "warmup_group F (tiered mode (pool F du dispatchable model now_ms config)) config = []"
    by (simp add: tier_stage.empty_iff warmup_stage.empty_iff)
  moreover have "select_health_weighted F df [] model now_ms config = None"
    by (simp add: select_health_weighted_spec)
  ultimately show ?thesis using True by (simp add: select_candidate_def order_by_mode_def)
next
  case False
  then show ?thesis by (simp add: select_candidate_def Let_def pool_def tiered_def)
qed

lemma order_by_mode_spec:
  "(order_by_mode F d mode candidates model now_ms config bound = None \<longleftrightarrow> candidates = []) \<and>
   (order_by_mode F d mode candidates model now_ms config bound = Some e \<longrightarrow> e \<in> set candidates)"
  using select_health_weighted_spec [of F d candidates model now_ms config e]
    min_by_key_spec [of "\<lambda>e. spread_key e (credential_max_concurrent_requests config)
      (case bound (entry_id e) of Some n \<Rightarrow> n | None \<Rightarrow> 0)" candidates]
  by (simp add: order_by_mode_def)

lemma fast_top:
  "e \<in> set (retain_top_fast_tier available) \<Longrightarrow> x \<in> set available \<Longrightarrow>
   fast (credentials x) \<le> fast (credentials e) \<and>
   (fast (credentials x) = fast (credentials e) \<longrightarrow> x \<in> set (retain_top_fast_tier available))"
proof -
  assume e: "e \<in> set (retain_top_fast_tier available)" and x: "x \<in> set available"
  then obtain m where m: "max_option (map (\<lambda>e. fast (credentials e)) available) = Some m"
    by (cases available) (auto simp: max_option_def)
  with max_option_Some [OF m] e x show ?thesis
    by (auto simp: retain_top_fast_tier_def word_gt_0 split: if_splits)
qed

lemma priority_top:
  "e \<in> set (retain_preferred_priority_tier available) \<Longrightarrow> x \<in> set available \<Longrightarrow>
   priority (credentials e) \<le> priority (credentials x)"
  by (auto simp: retain_preferred_priority_tier_def preferred_priority_def min_option_None
      dest!: min_option_Some split: option.splits)

lemma tiered_top:
  assumes e: "e \<in> set (tiered mode available)" and x: "x \<in> set available"
  shows "fast (credentials x) \<le> fast (credentials e) \<and>
    (mode = Priority \<and> fast (credentials x) = fast (credentials e) \<longrightarrow>
       priority (credentials e) \<le> priority (credentials x))"
proof -
  have "e \<in> set (retain_top_fast_tier available)"
    using e by (auto simp: tiered_def dest: priority_stage.picks split: if_splits)
  note fast_top [OF this x]
  moreover have "priority (credentials e) \<le> priority (credentials x)"
    if "mode = Priority" "x \<in> set (retain_top_fast_tier available)"
    using e that by (auto simp: tiered_def fills_priority_tiers_in_order_def intro: priority_top)
  ultimately show ?thesis by blast
qed

lemma select_candidate_spec:
  "(select_candidate F draw_u32 draw_f64 mode dispatchable model now_ms config bound = None \<longleftrightarrow>
      dispatchable = []) \<and>
   (select_candidate F draw_u32 draw_f64 mode dispatchable model now_ms config bound = Some e \<longrightarrow>
      e \<in> set dispatchable)"
  unfolding select_candidate_eq
  using order_by_mode_spec
    [of F draw_f64 mode "warmup_group F (tiered mode (pool F draw_u32 dispatchable model now_ms config)) config"
      model now_ms config bound e]
  by (auto simp: warmup_stage.empty_iff tier_stage.empty_iff pool_stage.empty_iff
      dest: warmup_stage.picks tier_stage.picks pool_stage.picks)

subsection \<open>Properties\<close>

text \<open>C4. Selection never invents and never loses capacity: the selected account is one of the
  dispatchable ones, and as long as there is a dispatchable account one is selected, whatever
  mode, configuration, degradation, random draws and floating-point results are.\<close>

theorem selection_is_total_and_sound:
  "(select_candidate F draw_u32 draw_f64 mode dispatchable model now_ms config bound = None \<longleftrightarrow>
      dispatchable = []) \<and>
   (select_candidate F draw_u32 draw_f64 mode dispatchable model now_ms config bound = Some e \<longrightarrow>
      e \<in> set dispatchable)"
  by (rule select_candidate_spec)

definition example_config :: "unit scheduler_config" where
  "example_config = \<lparr>credential_max_concurrent_requests = 4, scheduler_priority_weight = (),
     scheduler_load_weight = (), scheduler_error_weight = (), scheduler_latency_weight = (),
     scheduler_probation_weight = (), scheduler_selection_pressure_weight = (),
     scheduler_total_selection_weight = (), scheduler_top_k = 3,
     credential_warmup_selection_percent = 10, credential_warmup_max_selection_percent = 30,
     credential_degrade_enabled = True, credential_degrade_suspend_score = (),
     credential_degrade_resume_ratio = (), credential_degrade_half_life_secs = 120,
     credential_degrade_probe_percent = 5\<rparr>"

theorem selection_is_total_and_sound_witness:
  "select_candidate unit_f64 0 () Priority [example_entry] None 0 example_config Map.empty =
     Some example_entry"
  using selection_is_total_and_sound
    [of unit_f64 0 "()" Priority "[example_entry]" None 0 example_config Map.empty]
  by auto

text \<open>The selected account is in the highest Fast tier of the accounts left after the catalog
  preference and the removal of degraded accounts, and in priority mode no account of that tier
  has a smaller priority value; an account whose catalog names the model is preferred to one
  whose catalog does not.\<close>

theorem selection_respects_tiers:
  assumes sel: "select_candidate F draw_u32 draw_f64 mode dispatchable model now_ms config bound = Some e"
    and x: "x \<in> set (retain_non_degraded F draw_u32 (prefer_catalog_listed dispatchable model)
              model now_ms config)"
  shows "fast (credentials x) \<le> fast (credentials e) \<and>
    (mode = Priority \<and> fast (credentials x) = fast (credentials e) \<longrightarrow>
       priority (credentials e) \<le> priority (credentials x)) \<and>
    ((\<exists>y \<in> set dispatchable. credential_catalog_lists_model y model) \<longrightarrow>
       credential_catalog_lists_model e model)"
proof -
  let ?pool = "pool F draw_u32 dispatchable model now_ms config"
  have "e \<in> set (warmup_group F (tiered mode ?pool) config)"
    using sel order_by_mode_spec [of F draw_f64 mode "warmup_group F (tiered mode ?pool) config"
        model now_ms config bound e]
    by (simp add: select_candidate_eq)
  then have t: "e \<in> set (tiered mode ?pool)" by (rule warmup_stage.picks)
  then have "e \<in> set (prefer_catalog_listed dispatchable model)"
    by (auto simp: pool_def dest!: tier_stage.picks degrade_stage.picks)
  then have "(\<exists>y \<in> set dispatchable. credential_catalog_lists_model y model) \<longrightarrow>
      credential_catalog_lists_model e model"
    by (auto simp: prefer_catalog_listed_def list_ex_iff split: if_splits)
  with tiered_top [OF t] x show ?thesis by (simp add: pool_def)
qed

definition example_entry2 :: "unit credential_entry" where
  "example_entry2 = example_entry\<lparr>entry_id := 2, credentials := example_credentials\<lparr>priority := 7\<rparr>,
     degrade_scores := [([], \<lparr>degrade_value = (), updated_at_ms = 0, suspended = True\<rparr>)]\<rparr>"

theorem selection_respects_tiers_witness:
  "\<exists>e. select_candidate unit_f64 99 () Priority [example_entry2, example_entry] None 0 example_config
       Map.empty = Some e \<and> priority (credentials e) \<le> 0"
proof -
  let ?sel = "select_candidate unit_f64 99 () Priority [example_entry2, example_entry] None 0
    example_config Map.empty"
  have "?sel \<noteq> None" by (simp add: select_candidate_spec)
  then obtain e where e: "?sel = Some e" by blast
  have x: "example_entry \<in> set (retain_non_degraded unit_f64 99
      (prefer_catalog_listed [example_entry2, example_entry] None) None 0 example_config)"
    by (simp add: retain_non_degraded_def prefer_catalog_listed_def credential_catalog_lists_model_def
        example_config_def unit_f64_def is_suspended_def example_entry_def)
  have all: "fast (credentials a) = 0" if "a \<in> {example_entry, example_entry2}" for a
    using that by (auto simp: example_entry_def example_entry2_def example_credentials_def)
  have "e \<in> set [example_entry2, example_entry]"
    using select_candidate_spec [of unit_f64 99 "()" Priority "[example_entry2, example_entry]"
        None 0 example_config Map.empty e] e by simp
  then have "fast (credentials e) = 0" using all by auto
  with selection_respects_tiers [OF e x] e all show ?thesis
    by (simp add: example_entry_def example_credentials_def)
qed

text \<open>A degraded account is not selected while a healthy one is left and the request is not a
  probe: if degradation is on, some account of the catalog choice is healthy and the draw is not
  below the probe share, the selected account is healthy.\<close>

theorem degraded_accounts_yield_to_healthy_ones:
  assumes sel: "select_candidate F draw_u32 draw_f64 mode dispatchable model now_ms config bound = Some e"
    and on: "credential_degrade_enabled config"
    and resume: "resume_score = f_max F (f_mul F (credential_degrade_suspend_score config)
        (f_clamp F (f_lit F 0 1) (f_lit F 1 1) (credential_degrade_resume_ratio config))) (f_lit F 0 1)"
    and line: "\<not> f_le F resume_score (f_lit F 0 1)"
    and hl: "half_life_ms = f_mul F (f_of_nat F (unat (max (credential_degrade_half_life_secs config) 1)))
        (f_lit F 1000 1)"
    and healthy: "x \<in> set (prefer_catalog_listed dispatchable model)"
      "\<not> is_suspended F (degrade_scores x) model now_ms half_life_ms resume_score"
    and probe: "unat (min (credential_degrade_probe_percent config) 100) \<le> draw_u32"
  shows "\<not> is_suspended F (degrade_scores e) model now_ms half_life_ms resume_score"
proof -
  let ?pool = "pool F draw_u32 dispatchable model now_ms config"
    and ?cat = "prefer_catalog_listed dispatchable model"
  let ?healthy = "\<lambda>e. \<not> is_suspended F (degrade_scores e) model now_ms half_life_ms resume_score"
  have "e \<in> set (warmup_group F (tiered mode ?pool) config)"
    using sel order_by_mode_spec [of F draw_f64 mode "warmup_group F (tiered mode ?pool) config"
        model now_ms config bound e]
    by (simp add: select_candidate_eq)
  then have e: "e \<in> set ?pool" by (blast dest: warmup_stage.picks tier_stage.picks)
  have "filter ?healthy ?cat \<noteq> []" using healthy by (auto simp: filter_empty_conv)
  moreover have "length ?cat \<le> 1 \<Longrightarrow> filter ?healthy ?cat = ?cat"
    using healthy by (cases ?cat) auto
  moreover have "length (filter ?healthy ?cat) = length ?cat \<Longrightarrow> filter ?healthy ?cat = ?cat"
    by (metis length_filter_less filter_id_conv nat_neq_iff)
  ultimately have "?pool = filter ?healthy ?cat"
    unfolding pool_def retain_non_degraded_def Let_def resume [symmetric] hl [symmetric]
    using on line probe by auto
  with e show ?thesis by simp
qed

theorem degraded_accounts_yield_to_healthy_ones_witness:
  "\<not> is_suspended unit_f64 (degrade_scores (the (select_candidate unit_f64 99 () Balanced
      [example_entry2, example_entry] None 0 example_config Map.empty))) None 0 () ()"
proof -
  let ?sel = "select_candidate unit_f64 99 () Balanced [example_entry2, example_entry] None 0
    example_config Map.empty"
  have "?sel \<noteq> None" by (simp add: select_candidate_spec)
  then obtain e where e: "?sel = Some e" by blast
  have "\<not> is_suspended unit_f64 (degrade_scores e) None 0 () ()"
    by (rule degraded_accounts_yield_to_healthy_ones [OF e, where x = example_entry])
       (simp_all add: example_config_def unit_f64_def prefer_catalog_listed_def
         credential_catalog_lists_model_def is_suspended_def example_entry_def)
  with e show ?thesis by simp
qed

text \<open>The persisted name of a load-balancing mode parses back to it and nothing else parses;
  and the order by which a bound session moves to a better tier is irreflexive, asymmetric and
  transitive, so sessions cannot be moved in circles.\<close>

theorem modes_and_sticky_tiers:
  "(mode_from_str v = Some mode \<longleftrightarrow> v = mode_as_str mode) \<and>
   \<not> is_better_than a a cp \<and>
   (is_better_than a b cp \<longrightarrow> \<not> is_better_than b a cp) \<and>
   (is_better_than a b cp \<and> is_better_than b c cp \<longrightarrow> is_better_than a c cp)"
proof -
  have "mode_from_str v = Some mode \<longleftrightarrow> v = mode_as_str mode"
    by (cases mode) (auto simp: mode_from_str_def all_modes_def)
  then show ?thesis by (auto simp: is_better_than_def)
qed

theorem modes_and_sticky_tiers_witness:
  "is_better_than \<lparr>tier_fast = 2, tier_priority = 0\<rparr> \<lparr>tier_fast = 0, tier_priority = 0\<rparr> False"
  using modes_and_sticky_tiers [of "''priority''" Priority "\<lparr>tier_fast = 2, tier_priority = 0\<rparr>" False
      "\<lparr>tier_fast = 1, tier_priority = 0\<rparr>" "\<lparr>tier_fast = 0, tier_priority = 0\<rparr>"]
  by (simp add: is_better_than_def)

end
