(* ===== verification/Session_Bindings.thy ===== *)
theory Session_Bindings
  imports Account_State
begin

text \<open>
  Sticky sessions (\<open>src/kiro/token_manager/sticky.rs\<close>): the table that binds a session to an
  account, its pruning by age and size, and the counter of soft failures.  The table is a
  \<open>HashMap\<close>, an association list with distinct keys in iteration order.  \<open>Utc::now()\<close> is a
  parameter \<open>now\<close>, in nanoseconds since the epoch; the static \<open>LAST_PRUNE_AT\<close> is a field of
  the state.  A function that reads the clock twice (once to prune, once to stamp) has the
  parameters \<open>now\<close> and \<open>stamp\<close>.
\<close>

definition SESSION_BINDING_TTL_SECS :: int where "SESSION_BINDING_TTL_SECS = 6 * 60 * 60"
definition MAX_SESSION_BINDINGS :: nat where "MAX_SESSION_BINDINGS = 10000"
definition SESSION_BINDING_PRUNE_INTERVAL_SECS :: int where "SESSION_BINDING_PRUNE_INTERVAL_SECS = 60"
definition MAX_SESSION_SOFT_FAILURES :: u32 where "MAX_SESSION_SOFT_FAILURES = 2"

record session_table =
  bindings :: "(string \<times> session_binding) list"
  last_prune_at :: int

text \<open>\<open>DateTime::timestamp\<close> rounds down, \<open>TimeDelta::num_seconds\<close> towards zero.\<close>

definition timestamp :: "int \<Rightarrow> int" where "timestamp t = t div 1000000000"

definition num_seconds :: "int \<Rightarrow> int" where
  "num_seconds d = (if 0 \<le> d then d div 1000000000 else - ((- d) div 1000000000))"

definition session_table_new :: session_table where
  "session_table_new = \<lparr>bindings = [], last_prune_at = - (2 ^ 63)\<rparr>"

definition remove_keys :: "string list \<Rightarrow> (string \<times> session_binding) list \<Rightarrow> (string \<times> session_binding) list"
  where
  "remove_keys ks bs = fold AList.delete ks bs"

definition prune_session_bindings_locked :: "int \<Rightarrow> session_table \<Rightarrow> session_table" where
  "prune_session_bindings_locked now t =
     (let now_secs = timestamp now; last = last_prune_at t in
      if length (bindings t) \<le> MAX_SESSION_BINDINGS \<and>
         now_secs - last < SESSION_BINDING_PRUNE_INTERVAL_SECS then t
      else
        let t = t\<lparr>last_prune_at := now_secs\<rparr>;
            bs = filter (\<lambda>(_, b). num_seconds (now - last_used_at b) \<le> SESSION_BINDING_TTL_SECS)
                   (bindings t) in
        if length bs \<le> MAX_SESSION_BINDINGS then t\<lparr>bindings := bs\<rparr>
        else
          let sessions_by_age = sort_key snd (map (\<lambda>(s, b). (s, last_used_at b)) bs);
              remove_count = length bs - MAX_SESSION_BINDINGS
          in t\<lparr>bindings := remove_keys (map fst (take remove_count sessions_by_age)) bs\<rparr>)"

definition bound_credential_id :: "session_table \<Rightarrow> string \<Rightarrow> u64 option" where
  "bound_credential_id t session_id =
     map_option binding_credential_id (map_of (bindings t) session_id)"

definition cache_redis_binding ::
    "int \<Rightarrow> session_table \<Rightarrow> string \<Rightarrow> session_binding option \<Rightarrow> session_table" where
  "cache_redis_binding now t session_id binding =
     (let t = prune_session_bindings_locked now t in
      case binding of
        Some b \<Rightarrow> t\<lparr>bindings := AList.update session_id b (bindings t)\<rparr>
      | None \<Rightarrow> t\<lparr>bindings := AList.delete session_id (bindings t)\<rparr>)"

definition bind_session_to_credential ::
    "int \<Rightarrow> int \<Rightarrow> session_table \<Rightarrow> string \<Rightarrow> u64 \<Rightarrow> session_table" where
  "bind_session_to_credential now stamp t session_id credential_id =
     (let t = prune_session_bindings_locked now t;
          fresh = \<lparr>binding_credential_id = credential_id, last_used_at = stamp,
                   soft_failure_count = 0\<rparr> in
      case map_of (bindings t) session_id of
        Some b \<Rightarrow>
          if binding_credential_id b = credential_id
          then t\<lparr>bindings := AList.update session_id (b\<lparr>last_used_at := stamp\<rparr>) (bindings t)\<rparr>
          else t\<lparr>bindings := AList.update session_id fresh (bindings t)\<rparr>
      | None \<Rightarrow> t\<lparr>bindings := AList.update session_id fresh (bindings t)\<rparr>)"

definition unbind_session_if_bound_to :: "session_table \<Rightarrow> string \<Rightarrow> u64 \<Rightarrow> session_table" where
  "unbind_session_if_bound_to t session_id credential_id =
     (case map_of (bindings t) session_id of
        Some b \<Rightarrow> if binding_credential_id b = credential_id
                 then t\<lparr>bindings := AList.delete session_id (bindings t)\<rparr> else t
      | None \<Rightarrow> t)"

definition unbind_sessions_for_credential :: "session_table \<Rightarrow> u64 \<Rightarrow> session_table" where
  "unbind_sessions_for_credential t credential_id =
     t\<lparr>bindings := filter (\<lambda>(_, b). binding_credential_id b \<noteq> credential_id) (bindings t)\<rparr>"

definition record_session_soft_failure ::
    "int \<Rightarrow> session_table \<Rightarrow> string \<Rightarrow> u64 \<Rightarrow> bool \<times> session_table" where
  "record_session_soft_failure now t session_id credential_id =
     (case map_of (bindings t) session_id of
        Some b \<Rightarrow>
          if binding_credential_id b = credential_id then
            (let b = b\<lparr>last_used_at := now,
                       soft_failure_count := sat_add (soft_failure_count b) 1\<rparr>
             in (MAX_SESSION_SOFT_FAILURES \<le> soft_failure_count b,
                 t\<lparr>bindings := AList.update session_id b (bindings t)\<rparr>))
          else (False, t)
      | None \<Rightarrow> (False, t))"

definition clear_session_soft_failure :: "int \<Rightarrow> session_table \<Rightarrow> string \<Rightarrow> u64 \<Rightarrow> session_table" where
  "clear_session_soft_failure now t session_id credential_id =
     (case map_of (bindings t) session_id of
        Some b \<Rightarrow>
          if binding_credential_id b = credential_id then
            t\<lparr>bindings := AList.update session_id
                (b\<lparr>last_used_at := now, soft_failure_count := 0\<rparr>) (bindings t)\<rparr>
          else t
      | None \<Rightarrow> t)"

subsection \<open>Pruning\<close>

definition fresh_binding :: "int \<Rightarrow> session_binding \<Rightarrow> bool" where
  "fresh_binding now b \<longleftrightarrow> num_seconds (now - last_used_at b) \<le> SESSION_BINDING_TTL_SECS"

lemma delete_filter: "AList.delete k bs = filter (\<lambda>kv. fst kv \<noteq> k) bs"
  by (induction bs) (auto simp: AList.delete_eq)

lemma remove_keys_eq: "remove_keys ks bs = filter (\<lambda>kv. fst kv \<notin> set ks) bs"
proof (induction ks arbitrary: bs)
  case (Cons k ks)
  have "remove_keys (k # ks) bs = remove_keys ks (AList.delete k bs)"
    by (simp add: remove_keys_def)
  also have "\<dots> = filter (\<lambda>kv. fst kv \<noteq> k \<and> fst kv \<notin> set ks) bs"
    unfolding Cons.IH delete_filter filter_filter ..
  also have "\<dots> = filter (\<lambda>kv. fst kv \<notin> set (k # ks)) bs"
    by (rule filter_cong) auto
  finally show ?case .
qed (simp add: remove_keys_def)

text \<open>Removing the first \<open>n\<close> keys of a sorted permutation removes \<open>n\<close> entries, the smallest.\<close>

lemma remove_oldest:
  fixes bs :: "(string \<times> session_binding) list"
  assumes d: "distinct (map fst bs)" and n: "n \<le> length bs"
  defines "old \<equiv> set (map fst (take n (sort_key snd (map (\<lambda>(s, b). (s, last_used_at b)) bs))))"
  shows "length (filter (\<lambda>kv. fst kv \<notin> old) bs) = length bs - n"
    and "kv \<in> set bs \<Longrightarrow> fst kv \<in> old \<Longrightarrow> kv' \<in> set bs \<Longrightarrow> fst kv' \<notin> old \<Longrightarrow>
      last_used_at (snd kv) \<le> last_used_at (snd kv')"
proof -
  let ?ages = "map (\<lambda>(s, b). (s, last_used_at b)) bs"
  let ?s = "sort_key snd ?ages"
  have keys: "map fst ?ages = map fst bs" by (simp add: comp_def case_prod_beta)
  have ds: "distinct (map fst ?s)"
  proof -
    have "distinct ?ages \<and> inj_on fst (set ?ages)" using d unfolding keys [symmetric] distinct_map .
    then show ?thesis by (simp add: distinct_map del: set_map)
  qed
  have mem: "set ?s = (\<lambda>kv. (fst kv, last_used_at (snd kv))) ` set bs"
    by (simp add: case_prod_beta)
  have card_old: "card old = n"
  proof -
    have "distinct (map fst (take n ?s))" using ds by (simp only: take_map [symmetric] distinct_take)
    then have "card old = length (map fst (take n ?s))" unfolding old_def by (rule distinct_card)
    then show ?thesis using n by simp
  qed
  have "set (map fst (filter (\<lambda>kv. fst kv \<notin> old) bs)) = fst ` set bs - old" by auto
  moreover have "distinct (map fst (filter (\<lambda>kv. fst kv \<notin> old) bs))"
    using d by (simp add: distinct_map_filter)
  ultimately have "length (filter (\<lambda>kv. fst kv \<notin> old) bs) = card (fst ` set bs - old)"
    by (metis distinct_card length_map)
  moreover have "old \<subseteq> fst ` set bs"
  proof
    fix k assume "k \<in> old"
    then obtain y where "y \<in> set (take n ?s)" "k = fst y" unfolding old_def by auto
    then have "y \<in> (\<lambda>kv. (fst kv, last_used_at (snd kv))) ` set bs" unfolding mem [symmetric] by (blast dest: in_set_takeD)
    with \<open>k = fst y\<close> show "k \<in> fst ` set bs" by force
  qed
  moreover have "card (fst ` set bs) = length bs"
    using d by (metis distinct_card length_map list.set_map)
  ultimately show "length (filter (\<lambda>kv. fst kv \<notin> old) bs) = length bs - n"
    using card_old by (simp add: card_Diff_subset finite_subset)
  show "last_used_at (snd kv) \<le> last_used_at (snd kv')"
    if kv: "kv \<in> set bs" "fst kv \<in> old" "kv' \<in> set bs" "fst kv' \<notin> old"
  proof -
    obtain a where a: "(fst kv, a) \<in> set (take n ?s)"
      using kv(2) unfolding old_def by auto
    then have "(fst kv, a) \<in> set ?s" by (rule in_set_takeD)
    then obtain x where "x \<in> set bs" "fst x = fst kv" "a = last_used_at (snd x)"
      unfolding mem by auto
    with d kv(1) have a': "a = last_used_at (snd kv)" by (metis eq_key_imp_eq_value prod.collapse)
    have "(fst kv', last_used_at (snd kv')) \<in> set ?s" using kv(3) unfolding mem by blast
    moreover have "(fst kv', last_used_at (snd kv')) \<notin> set (take n ?s)"
      using kv(4) unfolding old_def by force
    ultimately have "(fst kv', last_used_at (snd kv')) \<in> set (drop n ?s)"
      by (metis Un_iff append_take_drop_id set_append)
    moreover have "sorted (map snd (take n ?s @ drop n ?s))" by simp
    ultimately show ?thesis
      using a a' unfolding map_append sorted_append by force
  qed
qed

lemma prune_cases:
  obtains
    (skip) "length (bindings t) \<le> MAX_SESSION_BINDINGS" "prune_session_bindings_locked now t = t"
  | (expire) bs where "bs = filter (\<lambda>kv. fresh_binding now (snd kv)) (bindings t)"
      "length bs \<le> MAX_SESSION_BINDINGS"
      "bindings (prune_session_bindings_locked now t) = bs"
  | (shrink) bs old where "bs = filter (\<lambda>kv. fresh_binding now (snd kv)) (bindings t)"
      "MAX_SESSION_BINDINGS < length bs"
      "old = set (map fst (take (length bs - MAX_SESSION_BINDINGS)
         (sort_key snd (map (\<lambda>(s, b). (s, last_used_at b)) bs))))"
      "bindings (prune_session_bindings_locked now t) = filter (\<lambda>kv. fst kv \<notin> old) bs"
proof -
  have f: "filter (\<lambda>(_, b). num_seconds (now - last_used_at b) \<le> SESSION_BINDING_TTL_SECS) (bindings t) =
      filter (\<lambda>kv. fresh_binding now (snd kv)) (bindings t)"
    by (auto simp: fresh_binding_def intro!: filter_cong)
  let ?bs = "filter (\<lambda>kv. fresh_binding now (snd kv)) (bindings t)"
  consider "length (bindings t) \<le> MAX_SESSION_BINDINGS"
      "timestamp now - last_prune_at t < SESSION_BINDING_PRUNE_INTERVAL_SECS"
    | "\<not> (length (bindings t) \<le> MAX_SESSION_BINDINGS \<and>
        timestamp now - last_prune_at t < SESSION_BINDING_PRUNE_INTERVAL_SECS)"
      "length ?bs \<le> MAX_SESSION_BINDINGS"
    | "\<not> (length (bindings t) \<le> MAX_SESSION_BINDINGS \<and>
        timestamp now - last_prune_at t < SESSION_BINDING_PRUNE_INTERVAL_SECS)"
      "MAX_SESSION_BINDINGS < length ?bs"
    by linarith
  then show thesis
  proof cases
    case 1
    then show ?thesis by (intro skip) (simp_all add: prune_session_bindings_locked_def)
  next
    case 2
    show ?thesis
      by (rule expire [OF refl 2(2)])
         (simp add: prune_session_bindings_locked_def Let_def if_not_P [OF 2(1)] f 2(2))
  next
    case 3
    then have "\<not> length ?bs \<le> MAX_SESSION_BINDINGS" by simp
    then show ?thesis
      by (intro shrink [OF refl 3(2) refl])
         (simp add: prune_session_bindings_locked_def Let_def if_not_P [OF 3(1)] f remove_keys_eq)
  qed
qed

definition session_inv :: "session_table \<Rightarrow> bool" where
  "session_inv t \<longleftrightarrow> distinct (map fst (bindings t)) \<and> length (bindings t) \<le> Suc MAX_SESSION_BINDINGS"

text \<open>What pruning promises: a bounded table, and nothing lost that is neither expired nor older
  than everything kept.\<close>

definition prune_ok :: "int \<Rightarrow> session_table \<Rightarrow> session_table \<Rightarrow> bool" where
  "prune_ok now t t' \<longleftrightarrow>
     distinct (map fst (bindings t')) \<and> length (bindings t') \<le> MAX_SESSION_BINDINGS \<and>
     set (bindings t') \<subseteq> set (bindings t) \<and>
     (\<forall>kv \<in> set (bindings t) - set (bindings t'). \<not> fresh_binding now (snd kv) \<or>
        (length (bindings t') = MAX_SESSION_BINDINGS \<and>
         (\<forall>kv' \<in> set (bindings t'). last_used_at (snd kv) \<le> last_used_at (snd kv'))))"

lemma prune_spec:
  assumes d: "distinct (map fst (bindings t))"
  shows "prune_ok now t (prune_session_bindings_locked now t)"
proof (cases now t rule: prune_cases)
  case skip
  then show ?thesis using d by (simp add: prune_ok_def)
next
  case (expire bs)
  then show ?thesis using d by (auto simp: prune_ok_def distinct_map_filter)
next
  case (shrink bs old)
  have dbs: "distinct (map fst bs)" using d shrink(1) by (simp add: distinct_map_filter)
  have n: "length bs - MAX_SESSION_BINDINGS \<le> length bs" by simp
  note r = remove_oldest [OF dbs n, folded shrink(3)]
  have len: "length (filter (\<lambda>kv. fst kv \<notin> old) bs) = MAX_SESSION_BINDINGS"
    using r(1) shrink(2) by simp
  have "\<not> fresh_binding now (snd kv) \<or>
      (\<forall>kv' \<in> set (filter (\<lambda>kv. fst kv \<notin> old) bs). last_used_at (snd kv) \<le> last_used_at (snd kv'))"
    if "kv \<in> set (bindings t)" "kv \<notin> set (filter (\<lambda>kv. fst kv \<notin> old) bs)" for kv
    using that shrink(1) r(2) [of kv] by auto
  moreover have "distinct (map fst (filter (\<lambda>kv. fst kv \<notin> old) bs))"
    using dbs by (rule distinct_map_filter)
  ultimately show ?thesis
    using len shrink(1) unfolding prune_ok_def shrink(4) by auto
qed

lemma length_alist_update: "length (AList.update k v xs) \<le> Suc (length xs)"
  by (induction xs) auto

subsection \<open>Operations\<close>

lemma session_inv_new: "session_inv session_table_new"
  by (simp add: session_inv_def session_table_new_def)

lemma session_inv_update:
  "distinct (map fst (bindings t)) \<Longrightarrow> length (bindings t) \<le> MAX_SESSION_BINDINGS \<Longrightarrow>
   session_inv (t\<lparr>bindings := AList.update k v (bindings t)\<rparr>)"
  using length_alist_update [of k v "bindings t"] by (simp add: session_inv_def distinct_update)

lemma length_alist_overwrite: "k \<in> fst ` set xs \<Longrightarrow> length (AList.update k v xs) = length xs"
  by (induction xs) auto

lemma session_inv_overwrite:
  assumes "session_inv t" "map_of (bindings t) k = Some b"
  shows "session_inv (t\<lparr>bindings := AList.update k v (bindings t)\<rparr>)"
proof -
  have "k \<in> fst ` set (bindings t)"
    using assms(2) by (metis domI dom_map_of_conv_image_fst)
  then show ?thesis
    using assms(1) by (simp add: session_inv_def distinct_update length_alist_overwrite)
qed

lemma session_inv_delete: "session_inv t \<Longrightarrow> session_inv (t\<lparr>bindings := AList.delete k (bindings t)\<rparr>)"
  by (auto simp: session_inv_def delete_filter distinct_map_filter intro: order_trans [OF length_filter_le])

lemma prune_inv: "session_inv t \<Longrightarrow> session_inv (prune_session_bindings_locked now t)"
  using prune_spec [of t now] by (auto simp: session_inv_def prune_ok_def)

lemma prune_room:
  "session_inv t \<Longrightarrow> distinct (map fst (bindings (prune_session_bindings_locked now t))) \<and>
   length (bindings (prune_session_bindings_locked now t)) \<le> MAX_SESSION_BINDINGS"
  using prune_spec [of t now] by (auto simp: session_inv_def prune_ok_def)

lemma cache_redis_binding_inv: "session_inv t \<Longrightarrow> session_inv (cache_redis_binding now t s b)"
  by (auto simp: cache_redis_binding_def Let_def prune_room session_inv_update prune_inv
      session_inv_delete split: option.splits)

lemma bind_session_inv: "session_inv t \<Longrightarrow> session_inv (bind_session_to_credential now stamp t s c)"
  by (auto simp: bind_session_to_credential_def Let_def prune_room session_inv_update
      split: option.splits)

lemma record_soft_failure_inv: "session_inv t \<Longrightarrow> session_inv (snd (record_session_soft_failure now t s c))"
  by (auto simp: record_session_soft_failure_def Let_def session_inv_overwrite split: option.splits)

lemma clear_soft_failure_inv: "session_inv t \<Longrightarrow> session_inv (clear_session_soft_failure now t s c)"
  by (auto simp: clear_session_soft_failure_def session_inv_overwrite split: option.splits)

lemma unbind_inv:
  "session_inv t \<Longrightarrow> session_inv (unbind_session_if_bound_to t s c) \<and>
   session_inv (unbind_sessions_for_credential t c)"
  by (auto simp: unbind_session_if_bound_to_def unbind_sessions_for_credential_def session_inv_delete
      split: option.splits)
     (auto simp: session_inv_def distinct_map_filter intro: order_trans [OF length_filter_le])

text \<open>One step of the table: any of its operations, at any time.\<close>

inductive session_step :: "session_table \<Rightarrow> session_table \<Rightarrow> bool" where
  cached: "session_step t (cache_redis_binding now t s b)"
| bound: "session_step t (bind_session_to_credential now stamp t s c)"
| unbound: "session_step t (unbind_session_if_bound_to t s c)"
| unbound_all: "session_step t (unbind_sessions_for_credential t c)"
| failed: "session_step t (snd (record_session_soft_failure now t s c))"
| cleared: "session_step t (clear_session_soft_failure now t s c)"

inductive_cases session_stepE: "session_step t t'"

lemma session_step_inv: "session_step t t' \<Longrightarrow> session_inv t \<Longrightarrow> session_inv t'"
  by (auto elim!: session_stepE simp: cache_redis_binding_inv bind_session_inv unbind_inv
      record_soft_failure_inv clear_soft_failure_inv)

subsection \<open>Properties\<close>

text \<open>The table of sticky sessions is bounded: whatever sequence of operations runs on it, at
  any times, it stays a map of at most 10001 sessions (pruning runs before an insertion, so the
  limit of 10000 can be exceeded by the entry that is inserted).\<close>

theorem session_table_stays_bounded:
  assumes "session_step\<^sup>*\<^sup>* session_table_new t"
  shows "distinct (map fst (bindings t)) \<and> length (bindings t) \<le> 10001"
proof -
  have "session_inv t"
    using assms by (induction rule: rtranclp_induct) (auto intro: session_inv_new session_step_inv)
  then show ?thesis by (simp add: session_inv_def MAX_SESSION_BINDINGS_def)
qed

theorem session_table_stays_bounded_witness:
  "length (bindings (bind_session_to_credential 5 6 session_table_new ''s'' 1)) \<le> 10001"
  using session_table_stays_bounded [OF r_into_rtranclp [of session_step, OF session_step.bound]] by simp

text \<open>Pruning is fair: a session that loses its binding was idle for more than six hours, or the
  table was over its limit and every session that is kept was used at least as recently.\<close>

theorem pruning_drops_only_expired_or_oldest:
  assumes "distinct (map fst (bindings t))"
    and "(s, b) \<in> set (bindings t)" and "(s, b) \<notin> set (bindings (prune_session_bindings_locked now t))"
  shows "21600 < num_seconds (now - last_used_at b) \<or>
    (length (bindings (prune_session_bindings_locked now t)) = 10000 \<and>
     (\<forall>(s', b') \<in> set (bindings (prune_session_bindings_locked now t)).
        last_used_at b \<le> last_used_at b'))"
proof -
  let ?t = "prune_session_bindings_locked now t"
  have "\<not> fresh_binding now b \<or> (length (bindings ?t) = MAX_SESSION_BINDINGS \<and>
      (\<forall>kv' \<in> set (bindings ?t). last_used_at b \<le> last_used_at (snd kv')))"
    using prune_spec [OF assms(1), of now] assms(2,3) unfolding prune_ok_def
    by (metis Diff_iff snd_conv)
  then show ?thesis
    by (auto simp: fresh_binding_def SESSION_BINDING_TTL_SECS_def MAX_SESSION_BINDINGS_def)
qed

theorem pruning_drops_only_expired_or_oldest_witness:
  "let b = \<lparr>binding_credential_id = 1, last_used_at = 0, soft_failure_count = 0\<rparr>;
       now = 30000 * 1000000000;
       t = \<lparr>bindings = [(''s'', b)], last_prune_at = 0\<rparr>
   in bindings (prune_session_bindings_locked now t) = [] \<and> 21600 < num_seconds (now - last_used_at b)"
proof -
  let ?b = "\<lparr>binding_credential_id = 1, last_used_at = 0, soft_failure_count = 0\<rparr>"
  let ?t = "\<lparr>bindings = [(''s'', ?b)], last_prune_at = 0\<rparr>"
  have gone: "bindings (prune_session_bindings_locked (30000 * 1000000000) ?t) = []"
    by (simp add: prune_session_bindings_locked_def Let_def timestamp_def num_seconds_def
        MAX_SESSION_BINDINGS_def SESSION_BINDING_PRUNE_INTERVAL_SECS_def SESSION_BINDING_TTL_SECS_def)
  with pruning_drops_only_expired_or_oldest [of ?t "''s''" ?b "30000 * 1000000000"]
  show ?thesis by (simp add: Let_def)
qed

text \<open>A bound session finds its account: after binding, the lookup returns that account; after
  unbinding an account no session is bound to it; a soft failure allows a fallback exactly from
  the second one in a row on the bound account, and clearing starts the count again.\<close>

theorem bindings_and_soft_failures:
  "bound_credential_id (bind_session_to_credential now stamp t s c) s = Some c \<and>
   c \<notin> binding_credential_id ` snd ` set (bindings (unbind_sessions_for_credential t c)) \<and>
   (map_of (bindings t) s = Some b \<and> binding_credential_id b = c \<longrightarrow>
      (fst (record_session_soft_failure now t s c) \<longleftrightarrow> soft_failure_count b \<noteq> 0) \<and>
      \<not> fst (record_session_soft_failure now' (clear_session_soft_failure now t s c) s c)) \<and>
   (map_of (bindings t) s = Some b \<and> binding_credential_id b \<noteq> c \<longrightarrow>
      record_session_soft_failure now t s c = (False, t))"
proof -
  have two: "2 \<le> sat_add n 1 \<longleftrightarrow> n \<noteq> 0" for n :: u32
    by (auto simp: word_le_nat_alt unat_sat_add unat_eq_0 [symmetric] simp del: unat_eq_0)
  have "bound_credential_id (bind_session_to_credential now stamp t s c) s = Some c"
    by (auto simp: bound_credential_id_def bind_session_to_credential_def Let_def update_conv'
        split: option.splits)
  then show ?thesis
    using two [of "soft_failure_count b"] two [of 0]
    by (auto simp: unbind_sessions_for_credential_def record_session_soft_failure_def Let_def
        clear_session_soft_failure_def update_conv' MAX_SESSION_SOFT_FAILURES_def)
qed

theorem bindings_and_soft_failures_witness:
  "let t = bind_session_to_credential 5 6 session_table_new ''s'' 1 in
   \<not> fst (record_session_soft_failure 7 t ''s'' 1) \<and>
   fst (record_session_soft_failure 8 (snd (record_session_soft_failure 7 t ''s'' 1)) ''s'' 1)"
proof -
  let ?t = "bind_session_to_credential 5 6 session_table_new ''s'' 1"
  let ?b = "\<lparr>binding_credential_id = 1, last_used_at = 6, soft_failure_count = 0\<rparr>"
  have t: "map_of (bindings ?t) ''s'' = Some ?b"
    by (simp add: bind_session_to_credential_def prune_session_bindings_locked_def Let_def
        session_table_new_def timestamp_def MAX_SESSION_BINDINGS_def
        SESSION_BINDING_PRUNE_INTERVAL_SECS_def)
  let ?t2 = "snd (record_session_soft_failure 7 ?t ''s'' 1)"
  have t2: "map_of (bindings ?t2) ''s'' = Some (?b\<lparr>last_used_at := 7, soft_failure_count := 1\<rparr>)"
    using t by (simp add: record_session_soft_failure_def Let_def update_conv' sat_add_def)
  show ?thesis
    using bindings_and_soft_failures [where t = ?t and s = "''s''" and c = 1 and b = ?b and now = 7] t
      bindings_and_soft_failures [where t = ?t2 and s = "''s''" and c = 1
        and b = "?b\<lparr>last_used_at := 7, soft_failure_count := 1\<rparr>" and now = 8] t2
    by (simp add: Let_def)
qed

end
