(* ===== verification/Leases.thy ===== *)
theory Leases
  imports Availability
begin

text \<open>
  In-flight leases (\<open>src/kiro/token_manager/manager.rs\<close>, the acquisition, expiry and clearing of
  slots, and \<open>concurrency.rs\<close>, their release): the entries of the pool are a list, an operation
  works on the first entry with the given id as \<open>iter_mut().find\<close> does.  Instants read by an
  operation are parameters.  Clearing is modelled for a deployment without Redis; with Redis
  the store answers.
\<close>

subsection \<open>Access to an entry\<close>

fun remove_at :: "nat \<Rightarrow> 'a list \<Rightarrow> 'a list" where
  "remove_at i [] = []"
| "remove_at 0 (x # xs) = xs"
| "remove_at (Suc i) (x # xs) = x # remove_at i xs"

fun position :: "('a \<Rightarrow> bool) \<Rightarrow> 'a list \<Rightarrow> nat option" where
  "position p [] = None"
| "position p (x # xs) = (if p x then Some 0 else map_option Suc (position p xs))"

type_synonym 'f entries = "'f credential_entry list"

subsection \<open>Acquisition (manager.rs)\<close>

definition new_lease :: "u64 \<Rightarrow> instant \<Rightarrow> u32 \<Rightarrow> in_flight_lease" where
  "new_lease lid now w = \<lparr>lease_id = lid, acquired_at = now, last_seen_at = now,
     lease_kind = Kind_Api, weight_units = w, locally_owned = True\<rparr>"

definition add_lease :: "u64 \<Rightarrow> instant \<Rightarrow> u32 \<Rightarrow> 'f credential_entry \<Rightarrow> 'f credential_entry" where
  "add_lease lid now w e =
     e\<lparr>in_flight_requests := sat_add (in_flight_requests e) w,
       in_flight_leases := in_flight_leases e @ [new_lease lid now w]\<rparr>"

text \<open>\<open>iter().sum()\<close> of \<open>u32\<close>, which wraps in a release build.\<close>

definition global_in_flight :: "'f entries \<Rightarrow> u32" where
  "global_in_flight entries = sum_list (map in_flight_requests entries)"

definition acquire_local_in_flight_slot_with_id ::
    "instant \<Rightarrow> 'f entries \<Rightarrow> u64 \<Rightarrow> u64 \<Rightarrow> instant \<Rightarrow> u32 \<Rightarrow> u32 \<Rightarrow> u32 \<Rightarrow> bool \<times> 'f entries" where
  "acquire_local_in_flight_slot_with_id clock entries i lid now max_concurrent global_max request_weight =
     (case List.find (has_id i) entries of
        None \<Rightarrow> (False, entries)
      | Some e \<Rightarrow>
          if disabled e then (False, entries)
          else
            let w = effective_weight_for_limit request_weight max_concurrent;
                w = effective_weight_for_limit w global_max in
            if 0 < global_max \<and> global_max < sat_add (global_in_flight entries) w
            then (False, entries)
            else if \<not> entry_has_concurrency_capacity clock e max_concurrent w
            then (False, entries)
            else (True, find_update (has_id i) (add_lease lid now w) entries))"

definition owned_weight :: "in_flight_lease list \<Rightarrow> u32" where
  "owned_weight leases =
     fold (\<lambda>l total. sat_add total (weight_units l)) (filter locally_owned leases) 0"

definition acquire_provisional_local_in_flight_slot_with_id ::
    "'f entries \<Rightarrow> u64 \<Rightarrow> u64 \<Rightarrow> instant \<Rightarrow> u32 \<Rightarrow> u32 \<Rightarrow> u32 \<Rightarrow> bool \<times> 'f entries" where
  "acquire_provisional_local_in_flight_slot_with_id entries i lid now max_concurrent global_max request_weight =
     (let owned_global = owned_weight (concat (map in_flight_leases entries)) in
      case List.find (has_id i) entries of
        None \<Rightarrow> (False, entries)
      | Some e \<Rightarrow>
          if disabled e then (False, entries)
          else
            let owned_credential = owned_weight (in_flight_leases e);
                limit = effective_max_concurrent_requests e max_concurrent;
                w = effective_weight_for_limit request_weight limit;
                w = effective_weight_for_limit w global_max in
            if 0 < global_max \<and> global_max < sat_add owned_global w then (False, entries)
            else if 0 < limit \<and> limit < sat_add owned_credential w then (False, entries)
            else (True, find_update (has_id i) (add_lease lid now w) entries))"

subsection \<open>Release, touch and kind (concurrency.rs)\<close>

definition release_lease_at :: "nat \<Rightarrow> 'f credential_entry \<Rightarrow> 'f credential_entry" where
  "release_lease_at index e =
     (let lease = in_flight_leases e ! index; w = max (weight_units lease) 1 in
      e\<lparr>redis_full_until := None,
        in_flight_leases := remove_at index (in_flight_leases e),
        in_flight_requests :=
          (if w \<le> in_flight_requests e then in_flight_requests e - w else 0)\<rparr>)"

definition release_in_flight_lease_from_entries ::
    "'f entries \<Rightarrow> u64 \<Rightarrow> u64 \<Rightarrow> u32 option \<times> 'f entries" where
  "release_in_flight_lease_from_entries entries cid lid =
     (case List.find (has_id cid) entries of
        None \<Rightarrow> (None, entries)
      | Some e \<Rightarrow>
          (case position (\<lambda>l. lease_id l = lid) (in_flight_leases e) of
             Some index \<Rightarrow>
               (Some (max (weight_units (in_flight_leases e ! index)) 1),
                find_update (has_id cid) (release_lease_at index) entries)
           | None \<Rightarrow> (None, entries)))"

definition touch_in_flight_lease_from_entries ::
    "instant \<Rightarrow> 'f entries \<Rightarrow> u64 \<Rightarrow> u64 \<Rightarrow> 'f entries" where
  "touch_in_flight_lease_from_entries now entries cid lid =
     find_update (has_id cid)
       (\<lambda>e. e\<lparr>in_flight_leases := find_update (\<lambda>l. lease_id l = lid)
          (\<lambda>l. l\<lparr>last_seen_at := now\<rparr>) (in_flight_leases e)\<rparr>) entries"

definition set_in_flight_lease_kind_from_entries ::
    "instant \<Rightarrow> 'f entries \<Rightarrow> u64 \<Rightarrow> u64 \<Rightarrow> in_flight_kind \<Rightarrow> 'f entries" where
  "set_in_flight_lease_kind_from_entries now entries cid lid kind =
     find_update (has_id cid)
       (\<lambda>e. e\<lparr>in_flight_leases := find_update (\<lambda>l. lease_id l = lid)
          (\<lambda>l. l\<lparr>lease_kind := kind, last_seen_at := now\<rparr>) (in_flight_leases e)\<rparr>) entries"

subsection \<open>Expiry and clearing (manager.rs)\<close>

definition removed_weight :: "in_flight_lease list \<Rightarrow> u32" where
  "removed_weight leases = fold (\<lambda>l total. sat_add total (max (weight_units l) 1)) leases 0"

definition retain_leases :: "(in_flight_lease \<Rightarrow> bool) \<Rightarrow> 'f credential_entry \<Rightarrow> nat \<times> 'f credential_entry"
  where
  "retain_leases keep e =
     (let leases = in_flight_leases e; kept = filter keep leases;
          gone = removed_weight (filter (\<lambda>l. \<not> keep l) leases);
          removed = length leases - length kept;
          e = e\<lparr>in_flight_leases := kept\<rparr>
      in (removed,
          if 0 < removed then e\<lparr>in_flight_requests := sat_sub (in_flight_requests e) gone\<rparr> else e))"

definition LOCAL_IN_FLIGHT_LEASE_SCAN_MIN_INTERVAL :: duration where
  "LOCAL_IN_FLIGHT_LEASE_SCAN_MIN_INTERVAL = secs 1"

text \<open>The number of leases cleaned, the instant of the next scan, and the entries.\<close>

definition cleanup_expired_local_in_flight_leases ::
    "'f entries \<Rightarrow> duration \<Rightarrow> instant \<Rightarrow> nat \<times> instant \<times> 'f entries" where
  "cleanup_expired_local_in_flight_leases entries max_age now =
     (let keep = (\<lambda>l. saturating_duration_since now (last_seen_at l) \<le> max_age);
          rs = map (retain_leases keep) entries;
          kept = concat (map (\<lambda>e. filter keep (in_flight_leases e)) entries);
          next_expiry = min_option (map (\<lambda>l. last_seen_at l + max_age) kept);
          rescan_at = now + LOCAL_IN_FLIGHT_LEASE_SCAN_MIN_INTERVAL
      in (sum_list (map fst rs),
          case next_expiry of None \<Rightarrow> rescan_at | Some expiry \<Rightarrow> min expiry rescan_at,
          map snd rs))"

definition clear_in_flight_leases ::
    "'f entries \<Rightarrow> instant \<Rightarrow> u64 \<Rightarrow> duration option \<Rightarrow> nat \<times> 'f entries" where
  "clear_in_flight_leases entries now cid min_idle =
     (let keep = (\<lambda>l. case min_idle of
            Some idle \<Rightarrow> saturating_duration_since now (last_seen_at l) < idle
          | None \<Rightarrow> False)
      in case List.find (has_id cid) entries of
           None \<Rightarrow> (0, entries)
         | Some e \<Rightarrow> (fst (retain_leases keep e),
                      find_update (has_id cid) (\<lambda>e. snd (retain_leases keep e)) entries))"

subsection \<open>The dispatch queue counter\<close>

text \<open>
  One successful pass of the compare-and-exchange loops; a failed exchange repeats the load.
\<close>

definition try_enter_local_dispatch_queue :: "u32 \<Rightarrow> u32 \<Rightarrow> bool \<times> u32" where
  "try_enter_local_dispatch_queue queued max_queued =
     (if 0 < max_queued \<and> max_queued \<le> queued then (False, queued) else (True, queued + 1))"

definition leave_local_dispatch_queue :: "u32 \<Rightarrow> u32" where
  "leave_local_dispatch_queue queued = queued - 1"

definition dispatch_queue_limit :: "u32 \<Rightarrow> dispatch_admission \<Rightarrow> u32" where
  "dispatch_queue_limit max_queued admission =
     (case admission of Admission_New \<Rightarrow> max_queued | Admission_Retry \<Rightarrow> 0)"

subsection \<open>The ledger\<close>

text \<open>
  The counter of an entry is the sum of the weights of its leases, lease ids are unique, and a
  weight is between 1 and 64.
\<close>

definition lease_total :: "in_flight_lease list \<Rightarrow> nat" where
  "lease_total leases = sum_list (map (\<lambda>l. unat (weight_units l)) leases)"

definition ledger :: "'f credential_entry \<Rightarrow> bool" where
  "ledger e \<longleftrightarrow>
     unat (in_flight_requests e) = lease_total (in_flight_leases e) \<and>
     list_all (\<lambda>l. 1 \<le> unat (weight_units l) \<and> unat (weight_units l) \<le> 64) (in_flight_leases e) \<and>
     distinct (map lease_id (in_flight_leases e))"

definition pool_inv :: "'f entries \<Rightarrow> bool" where
  "pool_inv entries \<longleftrightarrow> list_all ledger entries"

lemma lease_total_simps [simp]:
  "lease_total [] = 0"
  "lease_total (l # ls) = unat (weight_units l) + lease_total ls"
  "lease_total (ls @ ls') = lease_total ls + lease_total ls'"
  by (simp_all add: lease_total_def)

text \<open>An operation on one entry that keeps its ledger, and lifts to the pool.\<close>

locale entry_operation =
  fixes op :: "'f credential_entry \<Rightarrow> 'f credential_entry"
  assumes keeps_ledger: "ledger e \<Longrightarrow> ledger (op e)"
begin

lemma keeps_pool: "pool_inv entries \<Longrightarrow> pool_inv (find_update p op entries)"
  by (auto simp: pool_inv_def intro!: list_all_find_update keeps_ledger)

lemma keeps_pool_map: "pool_inv entries \<Longrightarrow> pool_inv (map op entries)"
  by (auto simp: pool_inv_def list_all_iff keeps_ledger)

end

lemma find_update_map: "(\<And>x. g (f x) = g x) \<Longrightarrow> map g (find_update p f xs) = map g xs"
  by (induction xs) auto

lemma map_unfold_total:
  "(\<And>l. weight_units (f l) = weight_units l) \<Longrightarrow> lease_total (find_update p f ls) = lease_total ls"
  by (simp add: lease_total_def find_update_map)

interpretation touch_op: entry_operation
  "\<lambda>e. e\<lparr>in_flight_leases := find_update q (\<lambda>l. l\<lparr>last_seen_at := now\<rparr>) (in_flight_leases e)\<rparr>" for q now
  by unfold_locales
     (auto simp: ledger_def map_unfold_total find_update_map intro!: list_all_find_update)

interpretation kind_op: entry_operation
  "\<lambda>e. e\<lparr>in_flight_leases := find_update q (\<lambda>l. l\<lparr>lease_kind := k, last_seen_at := now\<rparr>)
     (in_flight_leases e)\<rparr>" for q k now
  by unfold_locales
     (auto simp: ledger_def map_unfold_total find_update_map intro!: list_all_find_update)

lemma max_weight: "1 \<le> unat (w :: u32) \<Longrightarrow> max w 1 = w"
  by (rule max_absorb1) (simp add: word_le_nat_alt)

lemma fold_sat_weights:
  fixes acc :: u32
  assumes "list_all (\<lambda>l. 1 \<le> unat (weight_units l)) ls" "unat acc + lease_total ls < 2 ^ 32"
  shows "unat (fold (\<lambda>l total. sat_add total (max (weight_units l) 1)) ls acc) = unat acc + lease_total ls"
  using assms
proof (induction ls arbitrary: acc)
  case (Cons l ls)
  have "max (weight_units l) 1 = weight_units l"
    using Cons.prems(1) by (simp add: max_weight)
  moreover have "unat (sat_add acc (weight_units l)) = unat acc + unat (weight_units l)"
    using Cons.prems(2) by (simp add: unat_sat_add)
  ultimately show ?case using Cons by simp
qed simp

lemma removed_weight_total:
  "list_all (\<lambda>l. 1 \<le> unat (weight_units l)) ls \<Longrightarrow> lease_total ls < 2 ^ 32 \<Longrightarrow>
   unat (removed_weight ls) = lease_total ls"
  using fold_sat_weights [of ls 0] by (simp add: removed_weight_def)

lemma lease_total_partition:
  "lease_total (filter p ls) + lease_total (filter (\<lambda>l. \<not> p l) ls) = lease_total ls"
  by (induction ls) auto

lemma list_all_filter: "list_all P xs \<Longrightarrow> list_all P (filter q xs)"
  by (auto simp: list_all_iff)

lemma retain_leases_ledger:
  assumes e: "ledger e"
  shows "ledger (snd (retain_leases keep e))"
proof -
  let ?ls = "in_flight_leases e"
  have w: "list_all (\<lambda>l. 1 \<le> unat (weight_units l)) (filter (\<lambda>l. \<not> keep l) ?ls)"
    using e by (auto simp: ledger_def list_all_iff)
  have total: "unat (in_flight_requests e) = lease_total ?ls" using e by (simp add: ledger_def)
  have "unat (in_flight_requests e) < 2 ^ LENGTH(32)" by (rule unsigned_less)
  then have "lease_total (filter (\<lambda>l. \<not> keep l) ?ls) < 2 ^ 32"
    using total lease_total_partition [of keep ?ls] by simp
  with w have gone: "unat (removed_weight (filter (\<lambda>l. \<not> keep l) ?ls)) =
      lease_total (filter (\<lambda>l. \<not> keep l) ?ls)"
    by (rule removed_weight_total)
  have kept: "lease_total (filter keep ?ls) = lease_total ?ls - lease_total (filter (\<lambda>l. \<not> keep l) ?ls)"
    using lease_total_partition [of keep ?ls] by simp
  have all: "filter keep ?ls = ?ls" if "length ?ls \<le> length (filter keep ?ls)"
    using that by (metis length_filter_less filter_id_conv not_le)
  show ?thesis
    using e total gone kept all
    by (auto simp: retain_leases_def Let_def ledger_def unat_sat_sub list_all_filter
        distinct_map_filter not_less)
qed

interpretation retain_op: entry_operation "\<lambda>e. snd (retain_leases keep e)" for keep
  by unfold_locales (rule retain_leases_ledger)

lemma position_Some:
  "position p xs = Some i \<Longrightarrow> i < length xs \<and> p (xs ! i)"
  by (induction xs arbitrary: i) (auto split: if_splits)

lemma lease_total_remove_at:
  "i < length ls \<Longrightarrow> lease_total (remove_at i ls) + unat (weight_units (ls ! i)) = lease_total ls"
  by (induction i ls rule: remove_at.induct) auto

lemma set_remove_at: "set (remove_at i xs) \<subseteq> set xs"
  by (induction i xs rule: remove_at.induct) auto

lemma map_remove_at: "map f (remove_at i xs) = remove_at i (map f xs)"
  by (induction i xs rule: remove_at.induct) auto

lemma distinct_remove_at: "distinct xs \<Longrightarrow> distinct (remove_at i xs)"
  by (induction i xs rule: remove_at.induct) (use set_remove_at in fastforce)+

lemma release_lease_at_ledger:
  assumes e: "ledger e" and i: "i < length (in_flight_leases e)"
  shows "ledger (release_lease_at i e)"
    and "unat (in_flight_requests (release_lease_at i e)) + unat (weight_units (in_flight_leases e ! i)) =
      unat (in_flight_requests e)"
proof -
  let ?w = "weight_units (in_flight_leases e ! i)"
  have "1 \<le> unat ?w" using e i by (auto simp: ledger_def list_all_length)
  then have m: "max ?w 1 = ?w" by (rule max_weight)
  have sum: "lease_total (remove_at i (in_flight_leases e)) + unat ?w = unat (in_flight_requests e)"
    using lease_total_remove_at [OF i] e by (simp add: ledger_def)
  then have le: "?w \<le> in_flight_requests e" by (simp add: word_le_nat_alt)
  with sum have u: "unat (in_flight_requests (release_lease_at i e)) =
      lease_total (remove_at i (in_flight_leases e))"
    unfolding release_lease_at_def Let_def m by (simp add: unat_sub)
  have leases: "in_flight_leases (release_lease_at i e) = remove_at i (in_flight_leases e)"
    by (simp add: release_lease_at_def Let_def)
  show "ledger (release_lease_at i e)"
    using e u set_remove_at [of i "in_flight_leases e"]
    by (auto simp: ledger_def leases list_all_iff map_remove_at distinct_remove_at)
  show "unat (in_flight_requests (release_lease_at i e)) + unat ?w = unat (in_flight_requests e)"
    using u sum by simp
qed

lemma find_has_id: "List.find (has_id i) entries = Some e \<Longrightarrow> e \<in> set entries \<and> entry_id e = i"
  by (auto simp: find_Some_iff)

lemma release_pool_inv:
  assumes inv: "pool_inv entries"
  shows "pool_inv (snd (release_in_flight_lease_from_entries entries cid lid))"
proof (cases "List.find (has_id cid) entries")
  case (Some e)
  show ?thesis
  proof (cases "position (\<lambda>l. lease_id l = lid) (in_flight_leases e)")
    case (Some i)
    then have "i < length (in_flight_leases e)" using position_Some by fast
    then have "list_all ledger (find_update (has_id cid) (release_lease_at i) entries)"
      using inv \<open>List.find _ _ = _\<close>
      by (intro list_all_find_update) (auto simp: pool_inv_def intro: release_lease_at_ledger)
    with Some \<open>List.find _ _ = _\<close> show ?thesis
      by (simp add: release_in_flight_lease_from_entries_def pool_inv_def)
  qed (use inv Some in \<open>simp add: release_in_flight_lease_from_entries_def\<close>)
qed (use inv in \<open>simp add: release_in_flight_lease_from_entries_def\<close>)

lemma effective_weight_le: "unat (effective_weight_for_limit w limit) \<le> 64"
  by (auto simp: effective_weight_for_limit_def normalize_capacity_weight_units_def clamp_def
      Let_def min_def word_less_nat_alt word_le_nat_alt)

lemma effective_weight_limit: "0 < limit \<Longrightarrow> effective_weight_for_limit w limit \<le> limit"
  by (simp add: effective_weight_for_limit_def Let_def)

lemma add_lease_ledger:
  assumes e: "ledger e" and fresh: "lid \<notin> lease_id ` set (in_flight_leases e)"
    and room: "lease_total (in_flight_leases e) < 2 ^ 32 - 64"
    and w: "1 \<le> unat w" "unat w \<le> 64"
  shows "ledger (add_lease lid now w e)"
proof -
  have "unat (sat_add (in_flight_requests e) w) = unat (in_flight_requests e) + unat w"
    using e room w by (simp add: unat_sat_add ledger_def)
  with e fresh w show ?thesis
    by (auto simp: ledger_def add_lease_def new_lease_def)
qed

lemma acquire_pool_inv:
  assumes inv: "pool_inv entries"
    and fresh: "\<forall>e \<in> set entries. lid \<notin> lease_id ` set (in_flight_leases e)"
    and room: "\<forall>e \<in> set entries. lease_total (in_flight_leases e) < 2 ^ 32 - 64"
  shows "pool_inv (snd (acquire_local_in_flight_slot_with_id clock entries i lid now m g w))"
    and "pool_inv (snd (acquire_provisional_local_in_flight_slot_with_id entries i lid now m g w))"
proof -
  have step: "pool_inv (find_update (has_id i) (add_lease lid now (effective_weight_for_limit w' g)) entries)" for w'
    unfolding pool_inv_def
    by (rule list_all_find_update)
       (use inv fresh room effective_weight_pos [of w' g] effective_weight_le [of w' g]
        in \<open>auto simp: pool_inv_def Suc_le_eq dest!: find_has_id intro!: add_lease_ledger\<close>)
  show "pool_inv (snd (acquire_local_in_flight_slot_with_id clock entries i lid now m g w))"
    using inv step by (simp add: acquire_local_in_flight_slot_with_id_def Let_def split: option.split)
  show "pool_inv (snd (acquire_provisional_local_in_flight_slot_with_id entries i lid now m g w))"
    using inv step
    by (simp add: acquire_provisional_local_in_flight_slot_with_id_def Let_def split: option.split)
qed

text \<open>
  The pool as a transition system.  Lease ids come from a counter, so a new one is fresh; the
  bound on the total keeps the counter of an entry, 32 bits wide, from saturating (it takes
  more than 67 million open leases on one account to reach it).
\<close>

inductive pool_step :: "'f entries \<Rightarrow> 'f entries \<Rightarrow> bool" where
  acquired: "\<forall>e \<in> set entries. lid \<notin> lease_id ` set (in_flight_leases e) \<Longrightarrow>
    \<forall>e \<in> set entries. lease_total (in_flight_leases e) < 2 ^ 32 - 64 \<Longrightarrow>
    pool_step entries (snd (acquire_local_in_flight_slot_with_id clock entries i lid now m g w))"
| provisional: "\<forall>e \<in> set entries. lid \<notin> lease_id ` set (in_flight_leases e) \<Longrightarrow>
    \<forall>e \<in> set entries. lease_total (in_flight_leases e) < 2 ^ 32 - 64 \<Longrightarrow>
    pool_step entries (snd (acquire_provisional_local_in_flight_slot_with_id entries i lid now m g w))"
| released: "pool_step entries (snd (release_in_flight_lease_from_entries entries cid lid))"
| touched: "pool_step entries (touch_in_flight_lease_from_entries now entries cid lid)"
| kinded: "pool_step entries (set_in_flight_lease_kind_from_entries now entries cid lid kind)"
| expired: "pool_step entries (snd (snd (cleanup_expired_local_in_flight_leases entries max_age now)))"
| cleared: "pool_step entries (snd (clear_in_flight_leases entries now cid min_idle))"

inductive_cases pool_stepE: "pool_step entries entries'"

lemma cleanup_pool_inv:
  assumes "pool_inv entries"
  shows "pool_inv (snd (snd (cleanup_expired_local_in_flight_leases entries max_age now)))"
  using retain_op.keeps_pool_map [OF assms]
  by (simp add: cleanup_expired_local_in_flight_leases_def Let_def comp_def)

lemma clear_pool_inv:
  assumes "pool_inv entries"
  shows "pool_inv (snd (clear_in_flight_leases entries now cid min_idle))"
  using assms retain_op.keeps_pool [OF assms]
  by (simp add: clear_in_flight_leases_def Let_def split: option.split)

lemma pool_step_inv: "pool_step entries entries' \<Longrightarrow> pool_inv entries \<Longrightarrow> pool_inv entries'"
  by (erule pool_stepE)
     (simp_all add: acquire_pool_inv release_pool_inv cleanup_pool_inv clear_pool_inv
       touch_op.keeps_pool kind_op.keeps_pool touch_in_flight_lease_from_entries_def
       set_in_flight_lease_kind_from_entries_def)

subsection \<open>Limits\<close>

lemma owned_weight_le:
  assumes "lease_total (filter locally_owned ls) < 2 ^ 32"
  shows "unat (owned_weight ls) = lease_total (filter locally_owned ls)"
proof -
  have "unat (fold (\<lambda>l total. sat_add total (weight_units l)) xs acc) = unat acc + lease_total xs"
    if "unat acc + lease_total xs < 2 ^ 32" for xs and acc :: u32
    using that
  proof (induction xs arbitrary: acc)
    case (Cons x xs)
    then have "unat (sat_add acc (weight_units x)) = unat acc + unat (weight_units x)"
      by (simp add: unat_sat_add)
    with Cons show ?case by simp
  qed simp
  from this [of 0 "filter locally_owned ls"] assms show ?thesis by (simp add: owned_weight_def)
qed

lemma provisional_cases:
  assumes "acquire_provisional_local_in_flight_slot_with_id entries i lid now m g w = (True, entries')"
  obtains e lw where "List.find (has_id i) entries = Some e" "\<not> disabled e"
    "lw = effective_weight_for_limit
       (effective_weight_for_limit w (effective_max_concurrent_requests e m)) g"
    "0 < g \<longrightarrow> sat_add (owned_weight (concat (map in_flight_leases entries))) lw \<le> g"
    "0 < effective_max_concurrent_requests e m \<longrightarrow>
       sat_add (owned_weight (in_flight_leases e)) lw \<le> effective_max_concurrent_requests e m"
    "entries' = find_update (has_id i) (add_lease lid now lw) entries"
  using assms
  by (auto simp: acquire_provisional_local_in_flight_slot_with_id_def Let_def not_less
      split: option.splits if_splits)

lemma acquire_cases:
  assumes "acquire_local_in_flight_slot_with_id clock entries i lid now m g w = (True, entries')"
  obtains e lw where "List.find (has_id i) entries = Some e" "\<not> disabled e"
    "lw = effective_weight_for_limit (effective_weight_for_limit w m) g"
    "0 < g \<longrightarrow> sat_add (global_in_flight entries) lw \<le> g"
    "entry_has_concurrency_capacity clock e m lw"
    "entries' = find_update (has_id i) (add_lease lid now lw) entries"
  using assms
  by (auto simp: acquire_local_in_flight_slot_with_id_def Let_def not_less
      split: option.splits if_splits)

lemma sat_add_le_limit:
  "sat_add a b \<le> limit \<Longrightarrow> limit < (- 1 :: u32) \<Longrightarrow> unat a + unat b \<le> unat limit"
  by (simp add: word_le_nat_alt word_less_nat_alt unat_sat_add unsigned_minus_1_eq_mask
      mask_eq_exp_minus_1)

lemma effective_weight_min:
  "0 < limit \<Longrightarrow> effective_weight_for_limit w limit = min (clamp 1 64 w) limit"
  by (simp add: effective_weight_for_limit_def normalize_capacity_weight_units_def)

lemma effective_weight_normal:
  "1 \<le> unat w \<Longrightarrow> unat w \<le> 64 \<Longrightarrow>
   effective_weight_for_limit w limit = (if 0 < limit then min w limit else w)"
proof -
  assume "1 \<le> unat w" "unat w \<le> 64"
  then have "clamp 1 64 w = w" by (intro clamp_id) (simp_all add: word_le_nat_alt)
  then show ?thesis by (simp add: effective_weight_for_limit_def normalize_capacity_weight_units_def)
qed

lemma effective_weight_twice:
  assumes "0 < m"
  shows "effective_weight_for_limit (effective_weight_for_limit w m) g \<le> m"
proof -
  have "effective_weight_for_limit (effective_weight_for_limit w m) g \<le> effective_weight_for_limit w m"
    using effective_weight_pos [of w m] effective_weight_le [of w m]
    by (simp add: effective_weight_normal Suc_le_eq)
  also have "\<dots> \<le> m" by (rule effective_weight_limit [OF assms])
  finally show ?thesis .
qed

lemma inherited_limit:
  assumes cap: "entry_has_concurrency_capacity clock e m lw"
    and inh: "max_concurrent_requests (credentials e) = None" and m: "0 < m"
    and w: "1 \<le> unat lw" "unat lw \<le> 64" and le: "lw \<le> m"
  shows "in_flight_requests (add_lease lid now lw e) \<le> m"
proof -
  have "effective_weight_for_limit lw m = lw"
    using m le by (simp add: effective_weight_normal [OF w] min_absorb1)
  moreover have "m \<noteq> 0" using m by auto
  ultimately show ?thesis
    using cap inh
    by (simp add: entry_has_concurrency_capacity_def effective_max_concurrent_requests_def
        add_lease_def Let_def split: if_splits)
qed

text \<open>A lease that was just added is found at the end, and releasing it undoes the addition.\<close>

lemma position_last: "\<forall>y \<in> set xs. \<not> p y \<Longrightarrow> p x \<Longrightarrow> position p (xs @ [x]) = Some (length xs)"
  by (induction xs) auto

lemma position_none: "\<forall>y \<in> set xs. \<not> p y \<Longrightarrow> position p xs = None"
  by (induction xs) auto

lemma remove_at_last: "remove_at (length xs) (xs @ [x]) = xs"
  by (induction xs) auto

lemma add_lease_simps [simp]:
  "entry_id (add_lease lid now w e) = entry_id e"
  "in_flight_leases (add_lease lid now w e) = in_flight_leases e @ [new_lease lid now w]"
  by (simp_all add: add_lease_def)

lemma release_lease_at_simps [simp]:
  "entry_id (release_lease_at n e) = entry_id e"
  "in_flight_leases (release_lease_at n e) = remove_at n (in_flight_leases e)"
  by (simp_all add: release_lease_at_def Let_def)

lemma release_added_count:
  assumes e: "ledger e" and fresh: "lid \<notin> lease_id ` set (in_flight_leases e)"
    and room: "lease_total (in_flight_leases e) < 2 ^ 32 - 64" and w: "1 \<le> unat w" "unat w \<le> 64"
  shows "in_flight_requests (release_lease_at (length (in_flight_leases e)) (add_lease lid now w e)) =
    in_flight_requests e"
proof -
  let ?e' = "add_lease lid now w e" and ?n = "length (in_flight_leases e)"
  have "unat (in_flight_requests (release_lease_at ?n ?e')) + unat w = unat (in_flight_requests ?e')"
    using release_lease_at_ledger(2) [OF add_lease_ledger [OF e fresh room w], of ?n now]
    by (simp add: new_lease_def)
  moreover have "unat (in_flight_requests ?e') = unat (in_flight_requests e) + unat w"
    using e room w by (simp add: add_lease_def unat_sat_add ledger_def)
  ultimately show ?thesis by (simp add: word_unat_eq_iff)
qed

lemma release_added:
  assumes e: "List.find (has_id i) entries = Some e" and fresh: "lid \<notin> lease_id ` set (in_flight_leases e)"
    and w: "1 \<le> unat w"
  shows "release_in_flight_lease_from_entries (find_update (has_id i) (add_lease lid now w) entries) i lid =
    (Some w, find_update (has_id i) (release_lease_at (length (in_flight_leases e)))
       (find_update (has_id i) (add_lease lid now w) entries))"
proof -
  have "entry_id e = i" using find_has_id [OF e] by simp
  then have e': "List.find (has_id i) (find_update (has_id i) (add_lease lid now w) entries) =
      Some (add_lease lid now w e)"
    by (intro find_Some_iff_find_update [OF e]) simp
  have "position (\<lambda>l. lease_id l = lid) (in_flight_leases e @ [new_lease lid now w]) =
      Some (length (in_flight_leases e))"
    by (rule position_last) (use fresh in \<open>force simp: new_lease_def\<close>)+
  then show ?thesis
    by (simp add: release_in_flight_lease_from_entries_def e') (simp add: new_lease_def max_weight [OF w])
qed

subsection \<open>Properties\<close>

text \<open>The concurrency ledger is exact: in every state the pool can reach from empty accounts by
  acquiring, releasing, touching, expiring and clearing leases, the counter of an account is the
  sum of the weights of its open leases, so an account without leases is free.\<close>

theorem in_flight_counter_is_the_sum_of_leases:
  assumes "list_all (\<lambda>e. in_flight_leases e = [] \<and> in_flight_requests e = 0) entries"
    and "pool_step\<^sup>*\<^sup>* entries entries'"
  shows "\<forall>e \<in> set entries'. unat (in_flight_requests e) =
      sum_list (map (\<lambda>l. unat (weight_units l)) (in_flight_leases e)) \<and>
    distinct (map lease_id (in_flight_leases e))"
proof -
  have "pool_inv entries" using assms(1) by (auto simp: pool_inv_def ledger_def list_all_iff)
  with assms(2) have "pool_inv entries'"
    by (induction rule: rtranclp_induct) (auto intro: pool_step_inv)
  then show ?thesis by (auto simp: pool_inv_def ledger_def list_all_iff lease_total_def)
qed

theorem in_flight_counter_is_the_sum_of_leases_witness:
  "list_all (\<lambda>e. unat (in_flight_requests e) = sum_list (map (\<lambda>l. unat (weight_units l)) (in_flight_leases e)))
     (snd (acquire_provisional_local_in_flight_slot_with_id [example_entry] 1 9 0 0 0 1))"
proof -
  have "pool_step [example_entry]
      (snd (acquire_provisional_local_in_flight_slot_with_id [example_entry] 1 9 0 0 0 1))"
    by (rule pool_step.provisional) (simp_all add: example_entry_def)
  then have "pool_step\<^sup>*\<^sup>* [example_entry]
      (snd (acquire_provisional_local_in_flight_slot_with_id [example_entry] 1 9 0 0 0 1))"
    by (rule r_into_rtranclp)
  from in_flight_counter_is_the_sum_of_leases [OF _ this] show ?thesis
    unfolding list_all_iff by (simp add: example_entry_def)
qed

text \<open>A provisional acquisition respects both limits: afterwards the weight of the leases this
  process owns is within the account's own limit, if it has one, and within the global limit, if
  there is one; the account was enabled, and it got exactly one new lease.\<close>

theorem provisional_acquisition_respects_limits:
  assumes acq: "acquire_provisional_local_in_flight_slot_with_id entries i lid now m g w = (True, entries')"
    and total: "lease_total (filter locally_owned (concat (map in_flight_leases entries))) < 2 ^ 32"
    and lim: "g < - 1" "\<forall>e \<in> set entries. effective_max_concurrent_requests e m < - 1"
  shows "\<exists>e lw. List.find (has_id i) entries = Some e \<and> \<not> disabled e \<and>
    entries' = find_update (has_id i) (add_lease lid now lw) entries \<and> 1 \<le> unat lw \<and>
    (0 < effective_max_concurrent_requests e m \<longrightarrow>
       lease_total (filter locally_owned (in_flight_leases (add_lease lid now lw e)))
         \<le> unat (effective_max_concurrent_requests e m)) \<and>
    (0 < g \<longrightarrow> lease_total (filter locally_owned (concat (map in_flight_leases entries))) + unat lw
         \<le> unat g)"
proof -
  obtain e lw where e: "List.find (has_id i) entries = Some e" "\<not> disabled e"
    and lw: "lw = effective_weight_for_limit
       (effective_weight_for_limit w (effective_max_concurrent_requests e m)) g"
    and glob: "0 < g \<longrightarrow> sat_add (owned_weight (concat (map in_flight_leases entries))) lw \<le> g"
    and own: "0 < effective_max_concurrent_requests e m \<longrightarrow>
       sat_add (owned_weight (in_flight_leases e)) lw \<le> effective_max_concurrent_requests e m"
    and entries': "entries' = find_update (has_id i) (add_lease lid now lw) entries"
    using acq by (rule provisional_cases)
  have mem: "e \<in> set entries" using find_has_id [OF e(1)] by simp
  then obtain xs ys where "entries = xs @ e # ys" by (auto dest: split_list)
  then have "lease_total (filter locally_owned (in_flight_leases e)) < 2 ^ 32"
    using total by simp
  then have "unat (owned_weight (in_flight_leases e)) = lease_total (filter locally_owned (in_flight_leases e))"
    by (rule owned_weight_le)
  with own lim(2) mem have "0 < effective_max_concurrent_requests e m \<longrightarrow>
      lease_total (filter locally_owned (in_flight_leases (add_lease lid now lw e)))
        \<le> unat (effective_max_concurrent_requests e m)"
    by (auto simp: add_lease_def new_lease_def dest!: sat_add_le_limit)
  moreover have "0 < g \<longrightarrow> lease_total (filter locally_owned (concat (map in_flight_leases entries))) +
      unat lw \<le> unat g"
    using glob lim(1) owned_weight_le [OF total] by (auto dest!: sat_add_le_limit)
  moreover have "1 \<le> unat lw" using effective_weight_pos by (simp add: lw Suc_le_eq)
  ultimately show ?thesis using e entries' by blast
qed

theorem provisional_acquisition_respects_limits_witness:
  "fst (acquire_provisional_local_in_flight_slot_with_id [example_entry] 1 9 0 0 3 10) \<and>
   (\<exists>e lw. List.find (has_id 1) [example_entry] = Some e \<and> 1 \<le> unat lw \<and>
      lease_total (filter locally_owned (in_flight_leases (add_lease 9 0 lw e))) \<le> 2)"
proof -
  let ?r = "acquire_provisional_local_in_flight_slot_with_id [example_entry] 1 9 0 0 3 10"
  have ok: "fst ?r"
    by (simp add: acquire_provisional_local_in_flight_slot_with_id_def Let_def example_entry_def
        example_credentials_def effective_max_concurrent_requests_def effective_weight_for_limit_def
        normalize_capacity_weight_units_def clamp_def owned_weight_def sat_add_def)
  then have acq: "?r = (True, snd ?r)" by (metis prod.collapse)
  have lim: "effective_max_concurrent_requests example_entry 0 = 2"
    by (simp add: effective_max_concurrent_requests_def example_entry_def example_credentials_def)
  have "\<exists>e lw. List.find (has_id 1) [example_entry] = Some e \<and> 1 \<le> unat lw \<and>
      (0 < effective_max_concurrent_requests e 0 \<longrightarrow>
         lease_total (filter locally_owned (in_flight_leases (add_lease 9 0 lw e)))
           \<le> unat (effective_max_concurrent_requests e 0))"
    using provisional_acquisition_respects_limits [OF acq] lim
    by (auto simp: example_entry_def)
  then show ?thesis using ok lim by (auto simp: example_entry_def)
qed

text \<open>Without Redis, an acquisition for an account that inherits the global per-account limit
  keeps the account within that limit, and a lease can be given back exactly once: releasing it
  restores the account's counter and leases and returns its weight, releasing it again changes
  nothing.\<close>

theorem local_acquisition_and_release:
  assumes acq: "acquire_local_in_flight_slot_with_id clock entries i lid now m g w = (True, entries')"
    and e: "List.find (has_id i) entries = Some e" and ledger: "ledger e"
    and fresh: "lid \<notin> lease_id ` set (in_flight_leases e)"
    and room: "lease_total (in_flight_leases e) < 2 ^ 32 - 64"
  shows "\<exists>e' lw. List.find (has_id i) entries' = Some e' \<and>
    (max_concurrent_requests (credentials e) = None \<and> 0 < m \<and> m < - 1 \<longrightarrow> in_flight_requests e' \<le> m) \<and>
    fst (release_in_flight_lease_from_entries entries' i lid) = Some lw \<and>
    (\<exists>e''. List.find (has_id i) (snd (release_in_flight_lease_from_entries entries' i lid)) = Some e'' \<and>
       in_flight_requests e'' = in_flight_requests e \<and> in_flight_leases e'' = in_flight_leases e \<and>
       release_in_flight_lease_from_entries
         (snd (release_in_flight_lease_from_entries entries' i lid)) i lid =
       (None, snd (release_in_flight_lease_from_entries entries' i lid)))"
proof -
  obtain lw where lw: "lw = effective_weight_for_limit (effective_weight_for_limit w m) g"
    and cap: "entry_has_concurrency_capacity clock e m lw"
    and entries': "entries' = find_update (has_id i) (add_lease lid now lw) entries"
    using acq e by (auto elim: acquire_cases)
  have w: "1 \<le> unat lw" "unat lw \<le> 64"
    using effective_weight_pos effective_weight_le by (simp_all add: lw Suc_le_eq)
  let ?e' = "add_lease lid now lw e" and ?n = "length (in_flight_leases e)"
  let ?e'' = "release_lease_at ?n ?e'" and ?released = "find_update (has_id i) (release_lease_at ?n) entries'"
  have id: "entry_id e = i" using find_has_id [OF e] by simp
  have e': "List.find (has_id i) entries' = Some ?e'"
    unfolding entries' by (rule find_Some_iff_find_update [OF e]) (simp add: id)
  have e'': "List.find (has_id i) ?released = Some ?e''"
    by (rule find_Some_iff_find_update [OF e']) (simp add: id)
  have rel: "release_in_flight_lease_from_entries entries' i lid = (Some lw, ?released)"
    unfolding entries' by (rule release_added [OF e fresh w(1)])
  have again: "release_in_flight_lease_from_entries ?released i lid = (None, ?released)"
    using fresh position_none [of "in_flight_leases e" "\<lambda>l. lease_id l = lid"]
    by (force simp: release_in_flight_lease_from_entries_def e'' remove_at_last)
  have "in_flight_requests ?e' \<le> m" if "max_concurrent_requests (credentials e) = None" "0 < m"
    using inherited_limit [OF cap that w] effective_weight_twice [OF that(2)] lw by simp
  with e' rel e'' again release_added_count [OF ledger fresh room w] show ?thesis
    by (simp add: remove_at_last)
qed

theorem local_acquisition_and_release_witness:
  "let r = acquire_local_in_flight_slot_with_id 0 [example_entry] 1 9 0 5 0 1 in
   fst r \<and> fst (release_in_flight_lease_from_entries (snd r) 1 9) \<noteq> None"
proof -
  let ?r = "acquire_local_in_flight_slot_with_id 0 [example_entry] 1 9 0 5 0 1"
  have ok: "fst ?r"
    by (simp add: acquire_local_in_flight_slot_with_id_def Let_def example_entry_def
        example_credentials_def effective_max_concurrent_requests_def effective_weight_for_limit_def
        normalize_capacity_weight_units_def clamp_def sat_add_def entry_has_concurrency_capacity_def
        entry_redis_full_hint_active_def)
  then have acq: "?r = (True, snd ?r)" by (metis prod.collapse)
  have e: "List.find (has_id 1) [example_entry] = Some example_entry"
    by (simp add: example_entry_def)
  have l: "ledger example_entry" "9 \<notin> lease_id ` set (in_flight_leases example_entry)"
      "lease_total (in_flight_leases example_entry) < 2 ^ 32 - 64"
    by (simp_all add: ledger_def example_entry_def)
  from local_acquisition_and_release [OF acq e l] ok show ?thesis by (auto simp: Let_def)
qed

text \<open>Without Redis, an acquisition can exceed an account's own concurrency limit: the weight of
  the lease is clamped to the limit passed in, the global one, while the check clamps it again to
  the account's own limit, so a request heavier than the account's own limit is admitted with its
  whole weight.\<close>

theorem local_acquisition_can_exceed_own_limit:
  assumes e: "List.find (has_id i) entries = Some e" and on: "\<not> disabled e" "redis_full_until e = None"
    and own: "max_concurrent_requests (credentials e) = Some own" "0 < own" "own < w"
    and idle: "in_flight_requests e = 0" and w: "unat w \<le> 64" and m: "m = 0 \<or> w \<le> m"
  shows "\<exists>entries' e'. acquire_local_in_flight_slot_with_id clock entries i lid now m 0 w = (True, entries') \<and>
    List.find (has_id i) entries' = Some e' \<and> own < in_flight_requests e'"
proof -
  have id: "entry_id e = i" using find_has_id [OF e] by simp
  have w1: "1 \<le> unat w" using own by (simp add: word_less_nat_alt)
  have lw: "effective_weight_for_limit (effective_weight_for_limit w m) 0 = w"
    using m by (auto simp: effective_weight_normal [OF w1 w] min_absorb1)
  have "effective_weight_for_limit w own = own"
    using own by (simp add: effective_weight_normal [OF w1 w] min_absorb2)
  then have cap: "entry_has_concurrency_capacity clock e m w"
    using on own idle
    by (simp add: entry_has_concurrency_capacity_def entry_redis_full_hint_active_def
        effective_max_concurrent_requests_def)
  have "acquire_local_in_flight_slot_with_id clock entries i lid now m 0 w =
      (True, find_update (has_id i) (add_lease lid now w) entries)"
    using e on cap by (simp add: acquire_local_in_flight_slot_with_id_def lw)
  moreover have "List.find (has_id i) (find_update (has_id i) (add_lease lid now w) entries) =
      Some (add_lease lid now w e)"
    by (rule find_Some_iff_find_update [OF e]) (simp add: id)
  moreover have "in_flight_requests (add_lease lid now w e) = w"
    using idle by (simp add: add_lease_def)
  ultimately show ?thesis using own by auto
qed

theorem local_acquisition_can_exceed_own_limit_witness:
  "\<exists>e'. List.find (has_id 1) (snd (acquire_local_in_flight_slot_with_id 0 [example_entry] 1 9 0 0 0 10)) =
     Some e' \<and> max_concurrent_requests (credentials example_entry) = Some 2 \<and> 2 < in_flight_requests e'"
  using local_acquisition_can_exceed_own_limit
    [of 1 "[example_entry]" example_entry 2 10 0 0 9 0]
  by (auto simp: example_entry_def example_credentials_def)

lemma retain_leases_simps [simp]:
  "in_flight_leases (snd (retain_leases keep e)) = filter keep (in_flight_leases e)"
  "fst (retain_leases keep e) = length (in_flight_leases e) - length (filter keep (in_flight_leases e))"
  by (simp_all add: retain_leases_def Let_def)

lemma min_option_le: "x \<in> set xs \<Longrightarrow> \<exists>m. min_option xs = Some m \<and> m \<le> x"
  by (auto simp: min_option_def)

text \<open>The scan for abandoned leases removes exactly the leases that were not seen for longer
  than the allowed age, counts them, and schedules the next scan no later than the moment the
  first of the remaining leases can expire.\<close>

theorem expiry_removes_exactly_stale_leases:
  assumes "cleanup_expired_local_in_flight_leases entries max_age now = (cleaned, next_scan, entries')"
  shows "map in_flight_leases entries' =
      map (\<lambda>e. filter (\<lambda>l. now - last_seen_at l \<le> max_age) (in_flight_leases e)) entries \<and>
    cleaned + length (concat (map in_flight_leases entries')) =
      length (concat (map in_flight_leases entries)) \<and>
    (\<forall>e \<in> set entries'. \<forall>l \<in> set (in_flight_leases e). next_scan \<le> last_seen_at l + max_age) \<and>
    next_scan \<le> now + secs 1"
proof -
  let ?keep = "\<lambda>l. now - last_seen_at l \<le> max_age"
  let ?kept = "concat (map (\<lambda>e. filter ?keep (in_flight_leases e)) entries)"
  have leases: "map in_flight_leases entries' = map (\<lambda>e. filter ?keep (in_flight_leases e)) entries"
    and cleaned: "cleaned = sum_list (map (\<lambda>e. fst (retain_leases ?keep e)) entries)"
    and scan: "next_scan = (case min_option (map (\<lambda>l. last_seen_at l + max_age) ?kept) of
        None \<Rightarrow> now + LOCAL_IN_FLIGHT_LEASE_SCAN_MIN_INTERVAL
      | Some expiry \<Rightarrow> min expiry (now + LOCAL_IN_FLIGHT_LEASE_SCAN_MIN_INTERVAL))"
    using assms
    by (auto simp: cleanup_expired_local_in_flight_leases_def Let_def comp_def
        saturating_duration_since_def)
  have "sum_list (map (\<lambda>e. fst (retain_leases ?keep e)) es) +
      length (concat (map (\<lambda>e. filter ?keep (in_flight_leases e)) es)) =
      length (concat (map in_flight_leases es))" for es :: "'a entries"
  proof (induction es)
    case (Cons e es)
    then show ?case
      using length_filter_le [of ?keep "in_flight_leases e"]
      unfolding list.map sum_list.Cons concat.simps length_append retain_leases_simps by linarith
  qed simp
  then have count: "cleaned + length (concat (map in_flight_leases entries')) =
      length (concat (map in_flight_leases entries))"
    unfolding leases cleaned .
  have "next_scan \<le> last_seen_at l + max_age" if "l \<in> set ?kept" for l
  proof -
    have "last_seen_at l + max_age \<in> set (map (\<lambda>l. last_seen_at l + max_age) ?kept)"
      using that unfolding set_map by (rule imageI)
    from min_option_le [OF this] show ?thesis unfolding scan by auto
  qed
  moreover have "l \<in> set ?kept" if "e \<in> set entries'" "l \<in> set (in_flight_leases e)" for e l
  proof -
    have "l \<in> set (concat (map in_flight_leases entries'))" using that by auto
    then show ?thesis unfolding leases .
  qed
  ultimately have "\<forall>e \<in> set entries'. \<forall>l \<in> set (in_flight_leases e). next_scan \<le> last_seen_at l + max_age"
    by blast
  moreover have "next_scan \<le> now + secs 1" 
    by (simp add: scan LOCAL_IN_FLIGHT_LEASE_SCAN_MIN_INTERVAL_def split: option.split)
  ultimately show ?thesis using leases count by blast
qed

theorem expiry_removes_exactly_stale_leases_witness:
  "fst (cleanup_expired_local_in_flight_leases
      [example_entry\<lparr>in_flight_leases := [new_lease 7 0 1, new_lease 8 (secs 50) 1],
         in_flight_requests := 2\<rparr>] (secs 30) (secs 60)) = 1"
proof -
  let ?es = "[example_entry\<lparr>in_flight_leases := [new_lease 7 0 1, new_lease 8 (secs 50) 1],
         in_flight_requests := 2\<rparr>]"
  obtain c n es' where r: "cleanup_expired_local_in_flight_leases ?es (secs 30) (secs 60) = (c, n, es')"
    by (rule prod_cases3)
  from expiry_removes_exactly_stale_leases [OF r] have "c = 1"
    by (auto simp: new_lease_def secs_def)
  then show ?thesis unfolding r by simp
qed

end
