(* ===== verification/Release_Dispatcher.thy ===== *)
theory Release_Dispatcher
  imports Availability
begin

text \<open>
  The release side of leases in \<open>src/kiro/token_manager/concurrency.rs\<close>: the set of released
  leases that a stale Redis snapshot must not bring back (tombstones), the dispatcher that
  retries releases until Redis has applied them, its back-off, the per-session counters and the
  periodic-work reservation.

  A mutex-protected operation is a function on the state; instants it reads are parameters.
  The Redis calls of a batch run between two critical sections of the dispatcher and their
  results are a parameter of the second.  An \<open>anyhow\<close> error is the list of the texts of its
  causes.
\<close>

subsection \<open>Tombstones\<close>

type_synonym lease_key = "u64 \<times> u64"

definition TOMBSTONE_TTL :: duration where "TOMBSTONE_TTL = secs (15 * 60)"
definition TOMBSTONE_HARD_LIMIT :: nat where "TOMBSTONE_HARD_LIMIT = 200000"

record tombstone_set =
  released_at :: "lease_key \<rightharpoonup> instant"
  tomb_order :: "(lease_key \<times> instant) list"

definition tombstones_empty :: tombstone_set where
  "tombstones_empty = \<lparr>released_at = Map.empty, tomb_order = []\<rparr>"

definition tombstone_contains_key :: "tombstone_set \<Rightarrow> lease_key \<Rightarrow> bool" where
  "tombstone_contains_key t key \<longleftrightarrow> released_at t key \<noteq> None"

definition tombstone_insert :: "tombstone_set \<Rightarrow> lease_key \<Rightarrow> instant \<Rightarrow> tombstone_set" where
  "tombstone_insert t key now =
     t\<lparr>released_at := (released_at t)(key \<mapsto> now), tomb_order := tomb_order t @ [(key, now)]\<rparr>"

fun tombstone_prune_from ::
    "instant \<Rightarrow> (lease_key \<rightharpoonup> instant) \<Rightarrow> (lease_key \<times> instant) list \<Rightarrow> tombstone_set" where
  "tombstone_prune_from now m [] = \<lparr>released_at = m, tomb_order = []\<rparr>"
| "tombstone_prune_from now m ((key, at) # rest) =
     (if saturating_duration_since now at \<le> TOMBSTONE_TTL \<and>
         length ((key, at) # rest) \<le> TOMBSTONE_HARD_LIMIT
      then \<lparr>released_at = m, tomb_order = (key, at) # rest\<rparr>
      else tombstone_prune_from now (if m key = Some at then m(key := None) else m) rest)"

definition tombstone_prune :: "tombstone_set \<Rightarrow> instant \<Rightarrow> tombstone_set" where
  "tombstone_prune t now = tombstone_prune_from now (released_at t) (tomb_order t)"

definition record_released_in_flight_lease_tombstone ::
    "instant \<Rightarrow> tombstone_set \<Rightarrow> u64 \<Rightarrow> u64 \<Rightarrow> tombstone_set" where
  "record_released_in_flight_lease_tombstone now t cid lid =
     tombstone_prune (tombstone_insert t (cid, lid) now) now"

text \<open>The lease ids of a snapshot per account; an empty snapshot leaves the tombstones alone.\<close>

definition filter_released_in_flight_leases ::
    "instant \<Rightarrow> tombstone_set \<Rightarrow> (u64 \<times> u64 list) list \<Rightarrow> tombstone_set \<times> (u64 \<times> u64 list) list" where
  "filter_released_in_flight_leases now t states =
     (if states = [] then (t, states)
      else
        let t = tombstone_prune t now in
        if dom (released_at t) = {} then (t, states)
        else (t, map (\<lambda>(cid, leases). (cid, filter (\<lambda>l. \<not> tombstone_contains_key t (cid, l)) leases)) states))"

subsection \<open>Session counters\<close>

type_synonym session_key = "string \<times> u64"

definition session_slot_acquire :: "(session_key \<rightharpoonup> u32) \<Rightarrow> session_key \<Rightarrow> (session_key \<rightharpoonup> u32)" where
  "session_slot_acquire counts key =
     counts(key \<mapsto> (case counts key of Some n \<Rightarrow> n | None \<Rightarrow> 0) + 1)"

definition session_slot_drop :: "(session_key \<rightharpoonup> u32) \<Rightarrow> session_key \<Rightarrow> (session_key \<rightharpoonup> u32)" where
  "session_slot_drop counts key =
     (case counts key of
        None \<Rightarrow> counts
      | Some n \<Rightarrow> (let n = sat_sub n 1 in
                  if n = 0 then counts(key := None) else counts(key \<mapsto> n)))"

definition session_in_flight_on :: "(session_key \<rightharpoonup> u32) \<Rightarrow> string \<Rightarrow> u64 \<Rightarrow> u32" where
  "session_in_flight_on counts session_id cid =
     (case counts (session_id, cid) of Some n \<Rightarrow> n | None \<Rightarrow> 0)"

subsection \<open>Back-off\<close>

definition REDIS_CRITICAL_RETRY_DELAY_MS :: nat where "REDIS_CRITICAL_RETRY_DELAY_MS = 50"
definition RELEASE_RETRY_MAX_DELAY_MS :: nat where "RELEASE_RETRY_MAX_DELAY_MS = 30000"
definition RELEASE_TIMEOUT_RETRY_MAX_DELAY_MS :: nat where "RELEASE_TIMEOUT_RETRY_MAX_DELAY_MS = 1000"

text \<open>Durations of the back-off are whole milliseconds.\<close>

definition stable_release_retry_jitter :: "nat \<Rightarrow> u64 \<Rightarrow> nat" where
  "stable_release_retry_jitter base attempt =
     (let base_millis = max base 1; spread = max (base_millis div 10) 1;
          mixed = xor ((attempt + 0x9e3779b97f4a7c15) * 0xbf58476d1ce4e5b9) (word_rotl 27 attempt);
          reduction = unat mixed mod (spread + 1)
      in base_millis - reduction)"

definition release_retry_base :: "u32 \<Rightarrow> nat" where
  "release_retry_base failures =
     min (REDIS_CRITICAL_RETRY_DELAY_MS * 2 ^ min (unat (sat_sub failures 1)) 16)
         RELEASE_RETRY_MAX_DELAY_MS"

definition scheduler_release_retry_delay :: "u32 \<Rightarrow> nat" where
  "scheduler_release_retry_delay failures =
     stable_release_retry_jitter (release_retry_base failures) (ucast failures)"

definition scheduler_release_error_is_timeout :: "string list \<Rightarrow> bool" where
  "scheduler_release_error_is_timeout error = list_ex (\<lambda>c. str_contains c ''timed out after'') error"

definition scheduler_release_error_is_intent_scoped :: "string list \<Rightarrow> bool" where
  "scheduler_release_error_is_intent_scoped error = list_ex (\<lambda>c. str_contains c ''WRONGTYPE'') error"

definition scheduler_redis_lease_touch_interval :: "duration option \<Rightarrow> duration" where
  "scheduler_redis_lease_touch_interval max_age =
     clamp (millis 250) (secs 30) (case max_age of Some a \<Rightarrow> a div 3 | None \<Rightarrow> secs 30)"

text \<open>One successful pass of the compare-and-exchange loop.\<close>

definition reserve_periodic_work :: "u64 \<Rightarrow> u64 \<Rightarrow> u64 \<Rightarrow> bool \<times> u64" where
  "reserve_periodic_work next_at now_millis interval_millis =
     (if now_millis < next_at then (False, next_at)
      else (True, sat_add now_millis (max interval_millis 1)))"

subsection \<open>The dispatcher\<close>

datatype release_intent = InFlight u64 u64 bool | DispatchQueue string

record pending_release =
  pr_failures :: u32
  next_attempt_at :: instant

record release_dispatcher =
  pending :: "release_intent \<rightharpoonup> pending_release"
  intent_order :: "release_intent list"
  system_failures :: u32
  system_retry_at :: "instant option"
  worker_running :: bool
  permits :: nat
  reservations :: nat

definition SCHEDULER_REDIS_RELEASE_CAPACITY :: nat where "SCHEDULER_REDIS_RELEASE_CAPACITY = 65536"
definition SCHEDULER_REDIS_RELEASE_BATCH_SIZE :: nat where "SCHEDULER_REDIS_RELEASE_BATCH_SIZE = 16"

definition dispatcher_new :: release_dispatcher where
  "dispatcher_new = \<lparr>pending = Map.empty, intent_order = [], system_failures = 0,
     system_retry_at = None, worker_running = False,
     permits = SCHEDULER_REDIS_RELEASE_CAPACITY, reservations = 0\<rparr>"

definition try_reserve :: "release_dispatcher \<Rightarrow> bool \<times> release_dispatcher" where
  "try_reserve d =
     (if permits d = 0 then (False, d)
      else (True, d\<lparr>permits := permits d - 1, reservations := reservations d + 1\<rparr>))"

text \<open>Dropping a reservation gives its permit back.\<close>

definition drop_reservation :: "release_dispatcher \<Rightarrow> release_dispatcher" where
  "drop_reservation d = d\<lparr>permits := permits d + 1, reservations := reservations d - 1\<rparr>"

text \<open>
  The caller's reservation is taken into the pending entry, or dropped if the intent is already
  pending.  \<open>runtime\<close> says whether the call runs inside the Tokio runtime; without it the worker
  is not started and the intent waits for the next call.
\<close>

definition enqueue :: "bool \<Rightarrow> instant \<Rightarrow> release_intent \<Rightarrow> release_dispatcher \<Rightarrow> release_dispatcher" where
  "enqueue runtime now intent d =
     (let d = (if pending d intent = None then
                 d\<lparr>intent_order := intent_order d @ [intent],
                   pending := (pending d)(intent \<mapsto> \<lparr>pr_failures = 0, next_attempt_at = now\<rparr>),
                   reservations := reservations d - 1\<rparr>
               else drop_reservation d)
      in if worker_running d then d
         else if runtime then d\<lparr>worker_running := True\<rparr> else d)"

text \<open>
  The scan of \<open>next_ready_batch\<close> pops each of the intents that were in the queue at its start
  once: one that is no longer pending is dropped, any other goes to the back.
\<close>

fun ready_scan ::
    "(release_intent \<rightharpoonup> pending_release) \<Rightarrow> instant \<Rightarrow> nat \<Rightarrow> release_intent list \<Rightarrow> release_intent list \<Rightarrow>
     release_intent list \<Rightarrow> instant option \<Rightarrow> release_intent list \<times> release_intent list \<times> instant option"
  where
  "ready_scan m now limit [] back batch next = (back, batch, next)"
| "ready_scan m now limit (i # xs) back batch next =
     (if limit \<le> length batch then (i # xs @ back, batch, next)
      else case m i of
          None \<Rightarrow> ready_scan m now limit xs back batch next
        | Some p \<Rightarrow>
            if next_attempt_at p \<le> now
            then ready_scan m now limit xs (back @ [i]) (batch @ [i]) next
            else ready_scan m now limit xs (back @ [i]) batch
                   (Some (case next of Some n \<Rightarrow> min n (next_attempt_at p) | None \<Rightarrow> next_attempt_at p)))"

definition next_ready_batch ::
    "instant \<Rightarrow> nat \<Rightarrow> release_dispatcher \<Rightarrow>
     release_intent list \<times> instant option \<times> release_dispatcher" where
  "next_ready_batch now limit d =
     (case system_retry_at d of
        Some retry_at \<Rightarrow>
          if now < retry_at then ([], Some retry_at, d)
          else let d = d\<lparr>system_retry_at := None\<rparr>;
                   (order, batch, next) = ready_scan (pending d) now limit (intent_order d) [] [] None
               in (batch, next, d\<lparr>intent_order := order\<rparr>)
      | None \<Rightarrow>
          let (order, batch, next) = ready_scan (pending d) now limit (intent_order d) [] [] None
          in (batch, next, d\<lparr>intent_order := order\<rparr>))"

text \<open>The first critical section of the worker loop: stop, or take a batch.\<close>

definition worker_poll ::
    "instant \<Rightarrow> release_dispatcher \<Rightarrow>
     (release_intent list \<times> instant option) option \<times> release_dispatcher" where
  "worker_poll now d =
     (if dom (pending d) = {} then (None, d\<lparr>intent_order := [], worker_running := False\<rparr>)
      else case next_ready_batch now SCHEDULER_REDIS_RELEASE_BATCH_SIZE d of
        (batch, next, d) \<Rightarrow> (Some (batch, next), d))"

text \<open>The second one: the results of the batch, \<open>None\<close> for success or the error.\<close>

record result_tally =
  completed :: nat
  failed :: nat
  system_failed :: bool
  only_timeouts :: bool

fun apply_results ::
    "instant \<Rightarrow> (release_intent \<times> string list option) list \<Rightarrow> release_dispatcher \<times> result_tally \<Rightarrow>
     release_dispatcher \<times> result_tally" where
  "apply_results now [] st = st"
| "apply_results now ((intent, None) # rs) (d, t) =
     apply_results now rs
       (if pending d intent \<noteq> None
        then (d\<lparr>pending := (pending d)(intent := None), permits := permits d + 1\<rparr>,
              t\<lparr>completed := completed t + 1\<rparr>)
        else (d, t))"
| "apply_results now ((intent, Some error) # rs) (d, t) =
     apply_results now rs
       (let t = t\<lparr>failed := failed t + 1\<rparr> in
        if scheduler_release_error_is_intent_scoped error then
          (case pending d intent of
             None \<Rightarrow> (d, t)
           | Some p \<Rightarrow>
               (let f = sat_add (pr_failures p) 1 in
                (d\<lparr>pending := (pending d)(intent \<mapsto>
                     \<lparr>pr_failures = f,
                      next_attempt_at = now + millis (scheduler_release_retry_delay f)\<rparr>)\<rparr>, t)))
        else (d, t\<lparr>only_timeouts := only_timeouts t \<and> scheduler_release_error_is_timeout error,
                  system_failed := True\<rparr>))"

definition process_results ::
    "instant \<Rightarrow> (release_intent \<times> string list option) list \<Rightarrow> release_dispatcher \<Rightarrow> release_dispatcher"
  where
  "process_results now results d =
     (let (d, t) = apply_results now results
            (d, \<lparr>completed = 0, failed = 0, system_failed = False, only_timeouts = True\<rparr>) in
      if system_failed t then
        (let f = sat_add (system_failures d) 1;
             delay = scheduler_release_retry_delay f;
             delay = (if only_timeouts t then min delay RELEASE_TIMEOUT_RETRY_MAX_DELAY_MS else delay)
         in d\<lparr>system_failures := f, system_retry_at := Some (now + millis delay)\<rparr>)
      else if 0 < completed t then d\<lparr>system_failures := 0, system_retry_at := None\<rparr>
      else d)"

subsection \<open>Tombstones outlive stale snapshots\<close>

lemma prune_from_keeps:
  assumes "m key = Some at" "(key, at) \<in> set order"
    and "now - at \<le> TOMBSTONE_TTL" "length order \<le> TOMBSTONE_HARD_LIMIT"
  shows "released_at (tombstone_prune_from now m order) key = Some at \<and>
    (key, at) \<in> set (tomb_order (tombstone_prune_from now m order))"
  using assms
proof (induction now m order rule: tombstone_prune_from.induct)
  case (2 now m k a rest)
  show ?case
  proof (cases "saturating_duration_since now a \<le> TOMBSTONE_TTL \<and>
      length ((k, a) # rest) \<le> TOMBSTONE_HARD_LIMIT")
    case False
    with 2 have ne: "(k, a) \<noteq> (key, at)" by (auto simp: saturating_duration_since_def)
    then have "(if m k = Some a then m(k := None) else m) key = Some at" using 2 by auto
    with 2 ne have "released_at (tombstone_prune_from now (if m k = Some a then m(k := None) else m) rest) key = Some at \<and>
      (key, at) \<in> set (tomb_order (tombstone_prune_from now (if m k = Some a then m(k := None) else m) rest))"
      by (intro 2 False) auto
    with False show ?thesis by (simp only: tombstone_prune_from.simps if_False)
  qed (use 2 in simp)
qed simp

lemma prune_from_length: "length (tomb_order (tombstone_prune_from now m order)) \<le> min (length order) TOMBSTONE_HARD_LIMIT"
  by (induction now m order rule: tombstone_prune_from.induct) auto

definition tomb_inv :: "tombstone_set \<Rightarrow> bool" where
  "tomb_inv t \<longleftrightarrow> (\<forall>key at. released_at t key = Some at \<longrightarrow> (key, at) \<in> set (tomb_order t))"

lemma prune_from_inv:
  "\<forall>key at. m key = Some at \<longrightarrow> (key, at) \<in> set order \<Longrightarrow> tomb_inv (tombstone_prune_from now m order)"
proof (induction now m order rule: tombstone_prune_from.induct)
  case (2 now m k a rest)
  have "\<forall>key at. (if m k = Some a then m(k := None) else m) key = Some at \<longrightarrow> (key, at) \<in> set rest"
  proof (intro allI impI)
    fix key at
    assume *: "(if m k = Some a then m(k := None) else m) key = Some at"
    then have "m key = Some at" "(key, at) \<noteq> (k, a)" by (auto split: if_splits)
    with "2.prems" show "(key, at) \<in> set rest" by (metis set_ConsD)
  qed
  with 2 show ?case by (auto simp: tomb_inv_def simp del: fun_upd_apply)
qed (simp add: tomb_inv_def)

lemma tomb_inv_prune: "tomb_inv t \<Longrightarrow> tomb_inv (tombstone_prune t now)"
  using prune_from_inv [of "released_at t" "tomb_order t" now] by (simp add: tomb_inv_def tombstone_prune_def)

lemma tomb_inv_insert: "tomb_inv t \<Longrightarrow> tomb_inv (tombstone_insert t key now)"
  by (auto simp: tomb_inv_def tombstone_insert_def)

text \<open>The operations between two instants, with the table below its hard limit.\<close>

inductive tomb_run :: "instant \<Rightarrow> tombstone_set \<Rightarrow> tombstone_set \<Rightarrow> bool" for start t where
  start: "tomb_run start t t"
| recorded: "tomb_run start t t' \<Longrightarrow> start \<le> now \<Longrightarrow> now \<le> start + TOMBSTONE_TTL \<Longrightarrow>
    length (tomb_order t') < TOMBSTONE_HARD_LIMIT \<Longrightarrow>
    tomb_run start t (record_released_in_flight_lease_tombstone now t' cid lid)"
| filtered: "tomb_run start t t' \<Longrightarrow> now \<le> start + TOMBSTONE_TTL \<Longrightarrow>
    length (tomb_order t') \<le> TOMBSTONE_HARD_LIMIT \<Longrightarrow>
    tomb_run start t (fst (filter_released_in_flight_leases now t' states))"

definition entombed :: "instant \<Rightarrow> tombstone_set \<Rightarrow> lease_key \<Rightarrow> bool" where
  "entombed start t key \<longleftrightarrow>
     (\<exists>at. released_at t key = Some at \<and> (key, at) \<in> set (tomb_order t) \<and> start \<le> at)"

lemma entombed_prune:
  "entombed start t key \<Longrightarrow> now \<le> start + TOMBSTONE_TTL \<Longrightarrow>
   length (tomb_order t) \<le> TOMBSTONE_HARD_LIMIT \<Longrightarrow> entombed start (tombstone_prune t now) key"
  using prune_from_keeps [of "released_at t" key _ "tomb_order t" now]
  by (fastforce simp: entombed_def tombstone_prune_def)

lemma entombed_insert:
  "entombed start t key \<Longrightarrow> start \<le> now \<Longrightarrow> entombed start (tombstone_insert t k now) key"
  by (auto simp: entombed_def tombstone_insert_def)

lemma tomb_run_entombed: "tomb_run start t t' \<Longrightarrow> entombed start t key \<Longrightarrow> entombed start t' key"
proof (induction rule: tomb_run.induct)
  case (recorded t' now cid lid)
  then have "entombed start (tombstone_insert t' (cid, lid) now) key" by (simp add: entombed_insert)
  then show ?case
    using recorded by (auto simp: record_released_in_flight_lease_tombstone_def
        tombstone_insert_def intro!: entombed_prune)
next
  case (filtered t' now states)
  then show ?case by (auto simp: filter_released_in_flight_leases_def Let_def entombed_prune)
qed

lemma record_entombs:
  assumes "length (tomb_order t) < TOMBSTONE_HARD_LIMIT"
  shows "entombed now (record_released_in_flight_lease_tombstone now t cid lid) (cid, lid)"
proof -
  have "entombed now (tombstone_insert t (cid, lid) now) (cid, lid)"
    by (simp add: entombed_def tombstone_insert_def)
  then show ?thesis
    using assms
    by (auto simp: record_released_in_flight_lease_tombstone_def tombstone_insert_def
        intro!: entombed_prune)
qed

subsection \<open>Session counters are exact\<close>

text \<open>The slots that are open, as the list of their keys, next to the table.\<close>

inductive session_slots :: "(session_key \<rightharpoonup> u32) \<Rightarrow> session_key list \<Rightarrow> bool" where
  none: "session_slots Map.empty []"
| opened: "session_slots counts slots \<Longrightarrow> length slots < 2 ^ 32 - 1 \<Longrightarrow>
    session_slots (session_slot_acquire counts key) (key # slots)"
| dropped: "session_slots counts slots \<Longrightarrow> key \<in> set slots \<Longrightarrow>
    session_slots (session_slot_drop counts key) (remove1 key slots)"

lemma count_list_remove1: "count_list (remove1 a xs) b = count_list xs b - (if a = b then 1 else 0)"
proof (induction xs)
  case (Cons x xs)
  have "0 < count_list xs a" if "a \<in> set xs" using that count_list_0_iff [of xs a] by (simp add: neq0_conv [symmetric] del: neq0_conv)
  with Cons show ?case by (auto simp: count_list_0_iff)
qed simp

definition slot_counted :: "(session_key \<rightharpoonup> u32) \<Rightarrow> session_key list \<Rightarrow> session_key \<Rightarrow> bool" where
  "slot_counted counts slots key =
     (case counts key of
        None \<Rightarrow> count_list slots key = 0
      | Some n \<Rightarrow> unat n = count_list slots key \<and> n \<noteq> 0)"

lemma slot_counted_acquire:
  assumes "slot_counted counts slots key" "slot_counted counts slots k" "length slots < 2 ^ 32 - 1"
  shows "slot_counted (session_slot_acquire counts key) (key # slots) k"
proof (cases "k = key")
  case True
  have le: "count_list slots key < 2 ^ 32 - 1"
    using count_le_length [of slots key] assms by linarith
  have u: "unat ((case counts key of Some n \<Rightarrow> n | None \<Rightarrow> 0) + 1) = Suc (count_list slots key)"
    using assms le by (auto simp: slot_counted_def unat_word_ariths split: option.splits)
  then have "(case counts key of Some n \<Rightarrow> n | None \<Rightarrow> 0) + 1 \<noteq> 0"
    by (metis nat.distinct(1) unat_0)
  with u True show ?thesis by (simp add: slot_counted_def session_slot_acquire_def)
qed (use assms in \<open>auto simp: slot_counted_def session_slot_acquire_def split: option.splits\<close>)

lemma slot_counted_drop:
  assumes "slot_counted counts slots key" "slot_counted counts slots k" "key \<in> set slots"
  shows "slot_counted (session_slot_drop counts key) (remove1 key slots) k"
proof -
  obtain n where n: "counts key = Some n" "unat n = count_list slots key"
    using assms by (cases "counts key") (auto simp: slot_counted_def count_list_0_iff)
  have u: "unat (sat_sub n 1) = count_list slots key - 1" by (simp add: unat_sat_sub n)
  then have z: "sat_sub n 1 = 0 \<longleftrightarrow> count_list slots key - 1 = 0" by (metis unat_eq_zero)
  show ?thesis
  proof (cases "k = key")
    case True
    with n u z show ?thesis
      by (simp add: slot_counted_def session_slot_drop_def Let_def count_list_remove1)
  next
    case False
    with assms n show ?thesis
      by (auto simp: slot_counted_def session_slot_drop_def Let_def count_list_remove1
          split: option.splits)
  qed
qed

lemma session_slots_count:
  "session_slots counts slots \<Longrightarrow> length slots < 2 ^ 32 \<and> (\<forall>key. slot_counted counts slots key)"
proof (induction rule: session_slots.induct)
  case none
  show ?case by (simp add: slot_counted_def)
next
  case (opened counts slots key)
  then show ?case by (simp add: slot_counted_acquire del: split_paired_All)
next
  case (dropped counts slots key)
  moreover have "length (remove1 key slots) < 2 ^ 32"
    using dropped by (simp add: length_remove1 del: split_paired_All) linarith
  ultimately show ?case by (simp add: slot_counted_drop del: split_paired_All)
qed

subsection \<open>The scan of the queue\<close>

lemma ready_scan_batch_length:
  "ready_scan m now limit xs bk batch nx = (bk', batch', nx') \<Longrightarrow>
   length batch \<le> limit \<Longrightarrow> length batch' \<le> limit"
  by (induction m now limit xs bk batch nx rule: ready_scan.induct)
     (auto split: if_splits option.splits)

lemma ready_scan_batch_ready:
  "ready_scan m now limit xs bk batch nx = (bk', batch', nx') \<Longrightarrow>
   set batch' \<subseteq> set batch \<union> {i \<in> set xs. \<exists>p. m i = Some p \<and> next_attempt_at p \<le> now}"
  by (induction m now limit xs bk batch nx rule: ready_scan.induct)
     (fastforce split: if_splits option.splits)+

lemma ready_scan_keeps_pending:
  "ready_scan m now limit xs bk batch nx = (bk', batch', nx') \<Longrightarrow>
   (set xs \<union> set bk) \<inter> dom m \<subseteq> set bk' \<and> set bk' \<subseteq> set xs \<union> set bk"
  by (induction m now limit xs bk batch nx rule: ready_scan.induct)
     (fastforce split: if_splits option.splits)+

lemma ready_scan_batch_mono:
  "ready_scan m now limit xs bk batch nx = (bk', batch', nx') \<Longrightarrow> set batch \<subseteq> set batch'"
  by (induction m now limit xs bk batch nx rule: ready_scan.induct)
     (fastforce split: if_splits option.splits)+

lemma ready_scan_progress:
  "ready_scan m now limit xs bk batch nx = (bk', batch', nx') \<Longrightarrow> 0 < limit \<Longrightarrow>
   i \<in> set xs \<Longrightarrow> m i = Some p \<Longrightarrow> next_attempt_at p \<le> now \<Longrightarrow> batch' \<noteq> []"
proof (induction m now limit xs bk batch nx rule: ready_scan.induct)
  case (2 m now limit j xs bk batch nx)
  show ?case
  proof (cases "limit \<le> length batch \<or> j \<noteq> i")
    case True
    with 2 show ?thesis by (auto split: if_splits option.splits)
  next
    case False
    with 2 have "ready_scan m now limit xs (bk @ [i]) (batch @ [i]) nx = (bk', batch', nx')"
      by simp
    from ready_scan_batch_mono [OF this] show ?thesis by auto
  qed
qed simp

definition opt_le :: "instant option \<Rightarrow> instant \<Rightarrow> bool" where
  "opt_le nx t \<longleftrightarrow> (\<exists>n. nx = Some n \<and> n \<le> t)"

lemma ready_scan_next_mono:
  "ready_scan m now limit xs bk batch nx = (bk', batch', nx') \<Longrightarrow> opt_le nx t \<Longrightarrow> opt_le nx' t"
  by (induction m now limit xs bk batch nx rule: ready_scan.induct)
     (auto simp: opt_le_def min_le_iff_disj split: if_splits option.splits)

lemma ready_scan_next:
  "ready_scan m now limit xs bk batch nx = (bk', batch', nx') \<Longrightarrow> length batch' < limit \<Longrightarrow>
   i \<in> set xs \<Longrightarrow> m i = Some p \<Longrightarrow> \<not> next_attempt_at p \<le> now \<Longrightarrow> opt_le nx' (next_attempt_at p)"
proof (induction m now limit xs bk batch nx rule: ready_scan.induct)
  case (2 m now limit j xs bk batch nx)
  show ?case
  proof (cases "limit \<le> length batch \<or> j \<noteq> i")
    case True
    with 2 show ?thesis by (auto split: if_splits option.splits)
  next
    case False
    with 2 have "ready_scan m now limit xs (bk @ [i]) batch
        (Some (case nx of Some n \<Rightarrow> min n (next_attempt_at p) | None \<Rightarrow> next_attempt_at p))
        = (bk', batch', nx')" by simp
    from ready_scan_next_mono [OF this] show ?thesis
      by (auto simp: opt_le_def split: option.splits)
  qed
qed simp

lemma ready_scan_next_future:
  "ready_scan m now limit xs bk batch nx = (bk', batch', nx') \<Longrightarrow>
   (\<forall>n. nx = Some n \<longrightarrow> now < n) \<Longrightarrow> nx' = Some t \<Longrightarrow> now < t"
  by (induction m now limit xs bk batch nx rule: ready_scan.induct)
     (auto split: if_splits option.splits)

lemma next_ready_batch_cases:
  assumes "next_ready_batch now limit d = (batch, nx, d')"
  obtains (backed_off) retry_at where "system_retry_at d = Some retry_at" "now < retry_at"
      "batch = []" "nx = Some retry_at" "d' = d"
    | (scanned) order where "\<forall>retry_at. system_retry_at d = Some retry_at \<longrightarrow> retry_at \<le> now"
      "ready_scan (pending d) now limit (intent_order d) [] [] None = (order, batch, nx)"
      "d' = d\<lparr>system_retry_at := None, intent_order := order\<rparr>"
  using assms by (auto simp: next_ready_batch_def Let_def split: option.splits if_splits prod.splits)

subsection \<open>The dispatcher as a transition system\<close>

text \<open>
  The dispatcher together with the batch its worker is executing.  Each critical section is one
  step, so callers interleave with the worker between taking a batch and applying its results.
\<close>

datatype rd_label =
  Reserve | DropReservation | Enqueue instant release_intent | Poll instant
| Results instant "(release_intent \<times> string list option) list"

inductive rd_step ::
    "rd_label \<Rightarrow> release_dispatcher \<times> release_intent list option \<Rightarrow>
     release_dispatcher \<times> release_intent list option \<Rightarrow> bool" where
  reserve: "try_reserve d = (True, d') \<Longrightarrow> rd_step Reserve (d, w) (d', w)"
| dropped: "0 < reservations d \<Longrightarrow> rd_step DropReservation (d, w) (drop_reservation d, w)"
| enqueued: "0 < reservations d \<Longrightarrow> rd_step (Enqueue now i) (d, w) (enqueue True now i d, w)"
| polled: "worker_running d \<Longrightarrow> worker_poll now d = (r, d') \<Longrightarrow>
    rd_step (Poll now) (d, None)
      (d', case r of Some (b # bs, _) \<Rightarrow> Some (b # bs) | _ \<Rightarrow> None)"
| results: "map fst rs = batch \<Longrightarrow>
    rd_step (Results now rs) (d, Some batch) (process_results now rs d, None)"

inductive rd_reachable :: "release_dispatcher \<times> release_intent list option \<Rightarrow> bool" where
  initial: "rd_reachable (dispatcher_new, None)"
| stepped: "rd_reachable s \<Longrightarrow> rd_step l s s' \<Longrightarrow> rd_reachable s'"

definition rd_inv :: "release_dispatcher \<times> release_intent list option \<Rightarrow> bool" where
  "rd_inv s \<longleftrightarrow>
     (let d = fst s in
      finite (dom (pending d)) \<and>
      permits d + reservations d + card (dom (pending d)) = SCHEDULER_REDIS_RELEASE_CAPACITY \<and>
      (\<forall>i. pending d i \<noteq> None \<longrightarrow> i \<in> set (intent_order d) \<and> worker_running d) \<and>
      (snd s \<noteq> None \<longrightarrow> worker_running d))"

lemma apply_results_fields:
  "apply_results now rs (d, t) = (d', t') \<Longrightarrow>
   intent_order d' = intent_order d \<and> worker_running d' = worker_running d \<and>
   reservations d' = reservations d \<and> (\<forall>i. pending d' i \<noteq> None \<longrightarrow> pending d i \<noteq> None) \<and>
   system_failures d' = system_failures d \<and> system_retry_at d' = system_retry_at d"
proof (induction now rs "(d, t)" arbitrary: d t rule: apply_results.induct)
  case (2 now i rs d t)
  then show ?case by (cases "pending d i") (auto split: if_splits)
next
  case (3 now i e rs d t)
  then show ?case
    by (cases "pending d i"; cases "scheduler_release_error_is_intent_scoped e")
       (auto simp: Let_def split: if_splits)
qed simp

lemma apply_results_permits:
  "apply_results now rs (d, t) = (d', t') \<Longrightarrow> finite (dom (pending d)) \<Longrightarrow>
   permits d' + card (dom (pending d')) = permits d + card (dom (pending d))"
proof (induction now rs "(d, t)" arbitrary: d t rule: apply_results.induct)
  case (2 now i rs d t)
  show ?case
  proof (cases "pending d i")
    case (Some p)
    then have "i \<in> dom (pending d)" by auto
    with 2(3) have "Suc (card (dom (pending d) - {i})) = card (dom (pending d))"
      by (rule card_Suc_Diff1)
    with 2 Some show ?thesis by (simp add: dom_fun_upd)
  qed (use 2 in simp)
next
  case (3 now i e rs d t)
  show ?case
  proof (cases "pending d i")
    case (Some p)
    then have "insert i (dom (pending d)) = dom (pending d)" by auto
    with 3 Some show ?thesis by (simp add: Let_def split: if_splits)
  qed (use 3 in \<open>simp add: Let_def split: if_splits\<close>)
qed simp

lemma apply_results_keeps:
  "apply_results now rs (d, t) = (d', t') \<Longrightarrow> i \<in> dom (pending d) \<Longrightarrow> (i, None) \<notin> set rs \<Longrightarrow>
   i \<in> dom (pending d')"
  by (induction now rs "(d, t)" arbitrary: d t rule: apply_results.induct)
     (auto simp: Let_def split: if_splits option.splits)

definition new_tally :: result_tally where
  "new_tally = \<lparr>completed = 0, failed = 0, system_failed = False, only_timeouts = True\<rparr>"

lemma process_results_fields:
  "apply_results now rs (d, new_tally) = (d1, t) \<Longrightarrow>
   pending (process_results now rs d) = pending d1 \<and> permits (process_results now rs d) = permits d1 \<and>
   intent_order (process_results now rs d) = intent_order d1 \<and>
   worker_running (process_results now rs d) = worker_running d1 \<and>
   reservations (process_results now rs d) = reservations d1"
  by (simp add: process_results_def new_tally_def Let_def)

lemma rd_inv_results: "rd_inv (d, Some batch) \<Longrightarrow> rd_inv (process_results now rs d, None)"
proof -
  assume inv: "rd_inv (d, Some batch)"
  obtain d1 t where a: "apply_results now rs (d, new_tally) = (d1, t)" by fastforce
  have "dom (pending d1) \<subseteq> dom (pending d)" using apply_results_fields [OF a] by auto
  then have "finite (dom (pending d1))"
    using inv finite_subset by (auto simp: rd_inv_def Let_def)
  with inv apply_results_fields [OF a] apply_results_permits [OF a] process_results_fields [OF a]
  show ?thesis by (auto simp: rd_inv_def Let_def)
qed

lemma rd_inv_poll:
  assumes inv: "rd_inv (d, None)" and run: "worker_running d" and p: "worker_poll now d = (r, d')"
  shows "rd_inv (d', case r of Some (b # bs, _) \<Rightarrow> Some (b # bs) | _ \<Rightarrow> None)"
proof (cases "dom (pending d) = {}")
  case True
  with p inv show ?thesis by (auto simp: worker_poll_def rd_inv_def Let_def)
next
  case False
  then obtain batch nx where n: "next_ready_batch now SCHEDULER_REDIS_RELEASE_BATCH_SIZE d = (batch, nx, d')"
    using p by (auto simp: worker_poll_def split: prod.splits)
  have "pending d' = pending d \<and> permits d' = permits d \<and> reservations d' = reservations d \<and>
      worker_running d' = worker_running d \<and>
      (\<forall>i. pending d i \<noteq> None \<longrightarrow> i \<in> set (intent_order d'))"
    using n
  proof (cases rule: next_ready_batch_cases)
    case backed_off
    then show ?thesis using inv by (simp add: rd_inv_def)
  next
    case (scanned order)
    then show ?thesis using inv ready_scan_keeps_pending [OF scanned(2)] by (auto simp: rd_inv_def)
  qed
  then show ?thesis using inv run by (simp add: rd_inv_def Let_def)
qed

lemma rd_inv_enqueue:
  assumes "rd_inv (d, w)" "0 < reservations d"
  shows "rd_inv (enqueue True now i d, w)"
proof (cases "pending d i")
  case None
  then have "i \<notin> dom (pending d)" by auto
  then have "finite (dom (pending d)) \<Longrightarrow> card (insert i (dom (pending d))) = Suc (card (dom (pending d)))"
    by simp
  with None assms show ?thesis
    by (auto simp: rd_inv_def enqueue_def Let_def simp del: card_insert_disjoint)
next
  case (Some p)
  with assms show ?thesis by (auto simp: rd_inv_def enqueue_def drop_reservation_def Let_def)
qed

lemma rd_inv_step: "rd_step l s s' \<Longrightarrow> rd_inv s \<Longrightarrow> rd_inv s'"
proof (induction rule: rd_step.induct)
  case (reserve d d' w)
  then show ?case by (auto simp: rd_inv_def try_reserve_def Let_def split: if_splits)
next
  case (dropped d w)
  then show ?case by (auto simp: rd_inv_def drop_reservation_def Let_def)
next
  case (enqueued d now i w)
  then show ?case by (simp add: rd_inv_enqueue)
next
  case (polled d now r d')
  then show ?case by (simp add: rd_inv_poll)
next
  case (results rs batch now d)
  then show ?case by (simp add: rd_inv_results)
qed

lemma rd_inv_reachable: "rd_reachable s \<Longrightarrow> rd_inv s"
proof (induction rule: rd_reachable.induct)
  case initial
  show ?case by (simp add: rd_inv_def dispatcher_new_def)
qed (simp add: rd_inv_step)

lemma rd_step_keeps_pending:
  "rd_step l s s' \<Longrightarrow> pending (fst s) i \<noteq> None \<Longrightarrow>
   pending (fst s') i \<noteq> None \<or> (\<exists>now rs. l = Results now rs \<and> (i, None) \<in> set rs)"
proof (induction rule: rd_step.induct)
  case (reserve d d' w)
  then show ?case by (auto simp: try_reserve_def split: if_splits)
next
  case (dropped d w)
  then show ?case by (simp add: drop_reservation_def)
next
  case (enqueued d now j w)
  then show ?case by (simp add: enqueue_def drop_reservation_def Let_def)
next
  case (polled d now r d')
  then have "pending d' = pending d"
    by (auto simp: worker_poll_def split: if_splits prod.splits elim!: next_ready_batch_cases)
  then show ?case using polled by simp
next
  case (results rs batch now d)
  obtain d1 t where a: "apply_results now rs (d, new_tally) = (d1, t)" by fastforce
  have "i \<in> dom (pending d)" using results by auto
  then show ?case using apply_results_keeps [OF a] process_results_fields [OF a] by auto
qed

subsection \<open>Back-off\<close>

lemma jitter_bounds:
  assumes "0 < base"
  shows "stable_release_retry_jitter base a \<le> base \<and>
    base - max (base div 10) 1 \<le> stable_release_retry_jitter base a"
proof -
  define mixed :: u64 where
    "mixed = xor ((a + 0x9e3779b97f4a7c15) * 0xbf58476d1ce4e5b9) (word_rotl 27 a)"
  have "unat mixed mod (max (base div 10) 1 + 1) \<le> max (base div 10) 1"
    using mod_less_divisor [of "max (base div 10) 1 + 1" "unat mixed"] by linarith
  moreover have "stable_release_retry_jitter base a = base - unat mixed mod (max (base div 10) 1 + 1)"
    using assms unfolding stable_release_retry_jitter_def Let_def mixed_def by (simp add: max_absorb1)
  ultimately show ?thesis by linarith
qed

lemma release_retry_base_bounds:
  "50 \<le> release_retry_base f \<and> release_retry_base f \<le> 30000"
  by (simp add: release_retry_base_def REDIS_CRITICAL_RETRY_DELAY_MS_def RELEASE_RETRY_MAX_DELAY_MS_def)

lemma release_retry_base_mono: "f \<le> g \<Longrightarrow> release_retry_base f \<le> release_retry_base g"
proof -
  assume "f \<le> g"
  then have "unat (sat_sub f 1) \<le> unat (sat_sub g 1)" by (simp add: unat_sat_sub word_le_nat_alt diff_le_mono)
  then have "(2::nat) ^ min (unat (sat_sub f 1)) 16 \<le> 2 ^ min (unat (sat_sub g 1)) 16"
    by (intro power_increasing) auto
  then show ?thesis
    unfolding release_retry_base_def by (intro min.mono mult_le_mono2) auto
qed

lemma release_retry_delay_bounds:
  "45 \<le> scheduler_release_retry_delay f \<and> scheduler_release_retry_delay f \<le> release_retry_base f"
proof -
  have b: "50 \<le> release_retry_base f" using release_retry_base_bounds by simp
  then have "45 \<le> release_retry_base f - max (release_retry_base f div 10) 1" by linarith
  moreover have "0 < release_retry_base f" using b by linarith
  ultimately show ?thesis
    using jitter_bounds [of "release_retry_base f" "ucast f"]
    unfolding scheduler_release_retry_delay_def by linarith
qed

subsection \<open>Properties\<close>

text \<open>A lease whose release is recorded is absent from every snapshot filtered in the next
  fifteen minutes, whatever other releases and snapshots come in between, as long as the
  table does not overflow; and a snapshot loses no lease that has no tombstone.\<close>

theorem released_leases_stay_hidden:
  assumes "length (tomb_order t) < TOMBSTONE_HARD_LIMIT"
    and "tomb_run start (record_released_in_flight_lease_tombstone start t cid lid) t'"
    and "now \<le> start + TOMBSTONE_TTL" "length (tomb_order t') \<le> TOMBSTONE_HARD_LIMIT"
    and "filter_released_in_flight_leases now t' states = (t'', states')"
  shows "(\<forall>(c, leases) \<in> set states'. c = cid \<longrightarrow> lid \<notin> set leases) \<and>
    states' = map (\<lambda>(c, leases). (c, filter (\<lambda>l. released_at t'' (c, l) = None) leases)) states"
proof -
  have "entombed start t' (cid, lid)"
    using tomb_run_entombed [OF assms(2)] record_entombs [OF assms(1)] by blast
  from entombed_prune [OF this assms(3) assms(4)] obtain at where
    at: "released_at (tombstone_prune t' now) (cid, lid) = Some at" by (auto simp: entombed_def)
  then have ne: "dom (released_at (tombstone_prune t' now)) \<noteq> {}" by blast
  show ?thesis
  proof (cases "states = []")
    case False
    with assms(5) ne have "t'' = tombstone_prune t' now" and
      "states' = map (\<lambda>(c, leases). (c, filter (\<lambda>l. released_at t'' (c, l) = None) leases)) states"
      by (auto simp: filter_released_in_flight_leases_def Let_def tombstone_contains_key_def)
    with at show ?thesis by auto
  qed (use assms(5) in \<open>simp add: filter_released_in_flight_leases_def\<close>)
qed

theorem released_leases_stay_hidden_witness:
  "snd (filter_released_in_flight_leases 7
      (record_released_in_flight_lease_tombstone 5 tombstones_empty 1 2) [(1, [2, 3])]) = [(1, [3])]"
proof -
  let ?t = "record_released_in_flight_lease_tombstone 5 tombstones_empty 1 2"
  have t: "?t = \<lparr>released_at = [(1, 2) \<mapsto> 5], tomb_order = [((1, 2), 5)]\<rparr>"
    by (simp add: tombstones_empty_def record_released_in_flight_lease_tombstone_def
      tombstone_prune_def tombstone_insert_def saturating_duration_since_def TOMBSTONE_TTL_def
      TOMBSTONE_HARD_LIMIT_def secs_def)
  obtain t'' states' where f: "filter_released_in_flight_leases 7 ?t [(1, [2, 3])] = (t'', states')"
    by fastforce
  have "released_at t'' = [(1, 2) \<mapsto> 5]"
    using f unfolding t
    by (auto simp: filter_released_in_flight_leases_def Let_def tombstone_prune_def
        saturating_duration_since_def TOMBSTONE_TTL_def TOMBSTONE_HARD_LIMIT_def secs_def)
  moreover have "states' = map (\<lambda>(c, leases). (c, filter (\<lambda>l. released_at t'' (c, l) = None) leases)) [(1, [2, 3])]"
    by (rule conjunct2 [OF released_leases_stay_hidden [OF _ tomb_run.start _ _ f]])
       (simp_all add: t, simp_all add: tombstones_empty_def TOMBSTONE_TTL_def TOMBSTONE_HARD_LIMIT_def secs_def)
  ultimately show ?thesis by (simp add: f)
qed

text \<open>The per-session counter of an account is the number of open slots of that session on
  that account, after any sequence of acquisitions and drops.\<close>

theorem session_counters_are_exact:
  assumes "session_slots counts slots"
  shows "unat (session_in_flight_on counts sid cid) = count_list slots (sid, cid) \<and>
    (counts (sid, cid) = None \<longleftrightarrow> (sid, cid) \<notin> set slots)"
  using spec [OF conjunct2 [OF session_slots_count [OF assms]], of "(sid, cid)"]
  by (auto simp: slot_counted_def session_in_flight_on_def count_list_0_iff unat_eq_zero
      split: option.splits) (metis count_notin unat_eq_zero)

theorem session_counters_are_exact_witness:
  "unat (session_in_flight_on (session_slot_drop (session_slot_acquire
     (session_slot_acquire Map.empty (''s'', 1)) (''s'', 1)) (''s'', 1)) ''s'' 1) = 1"
  using session_counters_are_exact [OF session_slots.dropped [OF session_slots.opened
      [OF session_slots.opened [OF session_slots.none]]], of "(''s'', 1)" "(''s'', 1)" "(''s'', 1)" "''s''" 1]
  by simp

text \<open>In every reachable state of the dispatcher the free permits, the reservations and the
  pending releases add up to the capacity, every pending release is in the retry queue, and a
  worker is running while any is pending.\<close>

theorem dispatcher_accounts_for_every_permit:
  assumes "rd_reachable (d, w)"
  shows "permits d + reservations d + card (dom (pending d)) = SCHEDULER_REDIS_RELEASE_CAPACITY \<and>
    dom (pending d) \<subseteq> set (intent_order d) \<and> (pending d i \<noteq> None \<longrightarrow> worker_running d)"
  using rd_inv_reachable [OF assms] by (auto simp: rd_inv_def Let_def)

theorem dispatcher_accounts_for_every_permit_witness:
  "let d = enqueue True 3 (InFlight 1 2 True) (snd (try_reserve dispatcher_new)) in
   permits d + reservations d + card (dom (pending d)) = SCHEDULER_REDIS_RELEASE_CAPACITY \<and>
   worker_running d"
proof -
  let ?r = "snd (try_reserve dispatcher_new)"
  have "rd_step Reserve (dispatcher_new, None) (?r, None)"
    by (intro rd_step.reserve)
       (simp add: try_reserve_def dispatcher_new_def SCHEDULER_REDIS_RELEASE_CAPACITY_def)
  moreover have "rd_step (Enqueue 3 (InFlight 1 2 True)) (?r, None)
      (enqueue True 3 (InFlight 1 2 True) ?r, None)"
    by (intro rd_step.enqueued)
       (simp add: try_reserve_def dispatcher_new_def SCHEDULER_REDIS_RELEASE_CAPACITY_def)
  ultimately have "rd_reachable (enqueue True 3 (InFlight 1 2 True) ?r, None)"
    by (meson rd_reachable.intros)
  from dispatcher_accounts_for_every_permit [OF this, of "InFlight 1 2 True"] show ?thesis
    by (simp add: Let_def) (simp add: enqueue_def try_reserve_def dispatcher_new_def
        SCHEDULER_REDIS_RELEASE_CAPACITY_def)
qed

text \<open>C8. A pending release leaves the dispatcher only when a batch reports that Redis applied
  it: no other step, failure or interleaving loses it.\<close>

theorem no_release_is_lost:
  assumes "rd_step l (d, w) (d', w')" "i \<in> dom (pending d)" "i \<notin> dom (pending d')"
  shows "\<exists>now rs. l = Results now rs \<and> w = Some (map fst rs) \<and> (i, None) \<in> set rs"
proof -
  from assms(2,3) have "pending d i \<noteq> None" "pending d' i = None" by auto
  with rd_step_keeps_pending [OF assms(1), of i] obtain now rs where
    r: "l = Results now rs" "(i, None) \<in> set rs" by auto
  with assms(1) show ?thesis by (auto elim: rd_step.cases)
qed

definition sample_dispatcher :: release_dispatcher where
  "sample_dispatcher = enqueue True 3 (DispatchQueue ''q'') (snd (try_reserve dispatcher_new))"

lemmas sample_defs = sample_dispatcher_def enqueue_def try_reserve_def dispatcher_new_def
  SCHEDULER_REDIS_RELEASE_CAPACITY_def process_results_def Let_def

theorem no_release_is_lost_witness:
  "\<exists>now rs. Results 9 [(DispatchQueue ''q'', None)] = Results now rs \<and>
    Some [DispatchQueue ''q''] = Some (map fst rs) \<and> (DispatchQueue ''q'', None) \<in> set rs"
  by (rule no_release_is_lost [of "Results 9 [(DispatchQueue ''q'', None)]" sample_dispatcher
        "Some [DispatchQueue ''q'']" "process_results 9 [(DispatchQueue ''q'', None)] sample_dispatcher"
        None "DispatchQueue ''q''"], rule rd_step.results)
     (simp_all add: sample_defs)

text \<open>A batch has at most \<open>limit\<close> intents, each pending and due.  Unless the whole
  dispatcher is backing off, a batch is empty only if no pending release is due, and then the
  instant the worker sleeps until is after now and not after any pending release's next
  attempt.\<close>

theorem ready_batch_is_sound_and_makes_progress:
  assumes "rd_reachable (d, w)" "next_ready_batch now limit d = (batch, wake, d')" "0 < limit"
    and "\<forall>retry_at. system_retry_at d = Some retry_at \<longrightarrow> retry_at \<le> now"
  shows "length batch \<le> limit \<and>
    (\<forall>i \<in> set batch. \<exists>p. pending d i = Some p \<and> next_attempt_at p \<le> now) \<and>
    (batch = [] \<longrightarrow> (\<forall>i p. pending d i = Some p \<longrightarrow>
       now < next_attempt_at p \<and> (\<exists>t. wake = Some t \<and> now < t \<and> t \<le> next_attempt_at p)))"
  using assms(2)
proof (cases rule: next_ready_batch_cases)
  case backed_off
  with assms(4) show ?thesis by auto
next
  case (scanned order)
  note scan = scanned(2)
  have "now < next_attempt_at p \<and> (\<exists>t. wake = Some t \<and> now < t \<and> t \<le> next_attempt_at p)"
    if e: "batch = []" and p: "pending d i = Some p" for i p
  proof -
    have i: "i \<in> set (intent_order d)"
      using rd_inv_reachable [OF assms(1)] p by (simp add: rd_inv_def Let_def)
    have "\<not> next_attempt_at p \<le> now" using ready_scan_progress [OF scan assms(3) i p] e by auto
    with ready_scan_next [OF scan _ i p] e assms(3) have "opt_le wake (next_attempt_at p)" by simp
    with ready_scan_next_future [OF scan] \<open>\<not> next_attempt_at p \<le> now\<close> show ?thesis
      by (auto simp: opt_le_def)
  qed
  then show ?thesis
    using ready_scan_batch_length [OF scan] ready_scan_batch_ready [OF scan] by fastforce
qed

theorem ready_batch_is_sound_and_makes_progress_witness:
  "length (fst (next_ready_batch 9 16 sample_dispatcher)) \<le> 16 \<and>
   fst (next_ready_batch 9 16 sample_dispatcher) \<noteq> []"
proof -
  have 1: "rd_step Reserve (dispatcher_new, None) (snd (try_reserve dispatcher_new), None)"
    by (intro rd_step.reserve) (simp add: sample_defs)
  have 2: "rd_step (Enqueue 3 (DispatchQueue ''q'')) (snd (try_reserve dispatcher_new), None)
      (sample_dispatcher, None)"
    unfolding sample_dispatcher_def by (intro rd_step.enqueued) (simp add: sample_defs)
  have "rd_reachable (sample_dispatcher, None)"
    using rd_reachable.stepped [OF rd_reachable.stepped [OF rd_reachable.initial 1] 2] .
  moreover obtain batch wake d' where
    n: "next_ready_batch 9 16 sample_dispatcher = (batch, wake, d')" by (metis prod_cases3)
  moreover have "pending sample_dispatcher (DispatchQueue ''q'') =
      Some \<lparr>pr_failures = 0, next_attempt_at = 3\<rparr>" by (simp add: sample_defs)
  moreover have "system_retry_at sample_dispatcher = None" by (simp add: sample_defs)
  ultimately show ?thesis
    using ready_batch_is_sound_and_makes_progress [of sample_dispatcher None 9 16 batch wake d']
    by fastforce
qed

text \<open>Retries back off: the delay after a failure is between 45 ms and 30 s and at most the
  doubling base, which grows with the number of failures; a batch that only timed out delays the
  dispatcher by at most one second.\<close>

theorem release_retries_back_off:
  "45 \<le> scheduler_release_retry_delay f \<and> scheduler_release_retry_delay f \<le> release_retry_base f \<and>
   release_retry_base f \<le> RELEASE_RETRY_MAX_DELAY_MS \<and>
   (f \<le> g \<longrightarrow> release_retry_base f \<le> release_retry_base g) \<and>
   (scheduler_release_error_is_timeout e \<and> \<not> scheduler_release_error_is_intent_scoped e \<longrightarrow>
     (\<exists>t. system_retry_at (process_results now [(i, Some e)] d) = Some t \<and>
       now + millis 45 \<le> t \<and> t \<le> now + millis RELEASE_TIMEOUT_RETRY_MAX_DELAY_MS))"
proof -
  have "system_retry_at (process_results now [(i, Some e)] d) =
      Some (now + millis (min (scheduler_release_retry_delay (sat_add (system_failures d) 1))
        RELEASE_TIMEOUT_RETRY_MAX_DELAY_MS))"
    if "scheduler_release_error_is_timeout e" "\<not> scheduler_release_error_is_intent_scoped e"
    using that by (simp add: process_results_def Let_def)
  then show ?thesis
    using release_retry_delay_bounds [of f] release_retry_base_bounds [of f]
      release_retry_base_mono [of f g]
      release_retry_delay_bounds [of "sat_add (system_failures d) 1"]
    by (auto simp: RELEASE_RETRY_MAX_DELAY_MS_def RELEASE_TIMEOUT_RETRY_MAX_DELAY_MS_def millis_def)
qed

theorem release_retries_back_off_witness:
  "\<exists>t. system_retry_at (process_results 0 [(DispatchQueue ''q'', Some [''timed out after 50ms''])]
      sample_dispatcher) = Some t \<and> millis 45 \<le> t \<and> t \<le> millis 1000"
proof -
  have "scheduler_release_error_is_timeout [''timed out after 50ms'']"
    "\<not> scheduler_release_error_is_intent_scoped [''timed out after 50ms'']" by code_simp+
  with release_retries_back_off [of 1 1 "[''timed out after 50ms'']" 0 "DispatchQueue ''q''" sample_dispatcher]
  show ?thesis by (simp add: RELEASE_TIMEOUT_RETRY_MAX_DELAY_MS_def)
qed

end
