(* ===== verification/Capacity_Signal.thy ===== *)
theory Capacity_Signal
  imports Prelude
begin

text \<open>
  The wake-up accounting of \<open>src/common/capacity_signal.rs\<close>: how many waiters are registered,
  how many of them may be woken for freed capacity (credits), and the generation of the
  scheduler state.

  Tokio's \<open>Notify\<close> is not modelled: a step of \<open>wait_for_change\<close> that finds neither a credit nor
  a new generation blocks, and \<open>capacity_released\<close> answers with the number of \<open>notify_one\<close>
  calls it makes.  A load followed by a compare-and-exchange is the pair of the loaded values and
  the exchange, so that other operations can come between (\<open>capacity_released_exchange\<close>); the
  operation without interference loads and exchanges at once.  A retried exchange loads again.
\<close>

subsection \<open>Model\<close>

record capacity_signal =
  waiters :: nat
  credits :: nat
  state_generation :: u64
  capacity_epoch :: u64

definition signal_default :: capacity_signal where
  "signal_default = \<lparr>waiters = 0, credits = 0, state_generation = 0, capacity_epoch = 0\<rparr>"

record capacity_waiter =
  observed_state_generation :: u64
  waiter_active :: bool

definition register :: "capacity_signal \<Rightarrow> capacity_waiter \<times> capacity_signal" where
  "register s =
     (let s = s\<lparr>waiters := waiters s + 1\<rparr>
      in (\<lparr>observed_state_generation = state_generation s, waiter_active = True\<rparr>, s))"

text \<open>
  One pass of the loop with the loaded \<open>w\<close> and \<open>current\<close>: \<open>None\<close> is a failed exchange, a number
  the notifications sent.  Adding to the credits saturates at the largest \<open>usize\<close>.
\<close>

definition capacity_released_exchange ::
    "nat \<Rightarrow> nat \<Rightarrow> nat \<Rightarrow> capacity_signal \<Rightarrow> nat option \<times> capacity_signal" where
  "capacity_released_exchange w current units s =
     (let target = min (min (current + units) (2 ^ 64 - 1)) w in
      if target \<le> current then (Some 0, s)
      else if credits s = current then (Some (target - current), s\<lparr>credits := target\<rparr>)
      else (None, s))"

definition capacity_released :: "nat \<Rightarrow> capacity_signal \<Rightarrow> nat \<times> capacity_signal" where
  "capacity_released units s =
     (if units = 0 then (0, s)
      else
        let s = s\<lparr>capacity_epoch := capacity_epoch s + 1\<rparr> in
        case capacity_released_exchange (waiters s) (credits s) units s of
          (Some added, s) \<Rightarrow> (added, s)
        | (None, s) \<Rightarrow> (0, s))"

definition notify_state_changed :: "capacity_signal \<Rightarrow> capacity_signal" where
  "notify_state_changed s =
     s\<lparr>capacity_epoch := capacity_epoch s + 1, state_generation := state_generation s + 1\<rparr>"

definition consume_credit :: "capacity_signal \<Rightarrow> bool \<times> capacity_signal" where
  "consume_credit s =
     (if 0 < credits s then (True, s\<lparr>credits := credits s - 1\<rparr>) else (False, s))"

text \<open>The two halves of \<open>unregister\<close>: the count, then the trim to what remained of it.\<close>

definition unregister_count :: "capacity_signal \<Rightarrow> nat option \<times> capacity_signal" where
  "unregister_count s =
     (if waiters s = 0 then (None, s)
      else (Some (waiters s - 1), s\<lparr>waiters := waiters s - 1\<rparr>))"

definition unregister_trim :: "nat \<Rightarrow> capacity_signal \<Rightarrow> capacity_signal" where
  "unregister_trim remaining s = (if remaining < credits s then s\<lparr>credits := remaining\<rparr> else s)"

definition unregister :: "capacity_signal \<Rightarrow> capacity_signal" where
  "unregister s =
     (case unregister_count s of
        (None, s) \<Rightarrow> s
      | (Some remaining, s) \<Rightarrow> unregister_trim remaining s)"

text \<open>One check of \<open>wait_for_change\<close>: whether it returns, or would sleep.\<close>

definition wait_check :: "capacity_waiter \<Rightarrow> capacity_signal \<Rightarrow> bool \<times> capacity_waiter \<times> capacity_signal" where
  "wait_check w s =
     (case consume_credit s of
        (True, s) \<Rightarrow> (True, w, s)
      | (False, s) \<Rightarrow>
          if state_generation s \<noteq> observed_state_generation w
          then (True, w\<lparr>observed_state_generation := state_generation s\<rparr>, s)
          else (False, w, s))"

definition finish_acquired :: "capacity_waiter \<Rightarrow> capacity_signal \<Rightarrow> capacity_waiter \<times> capacity_signal" where
  "finish_acquired w s =
     (if \<not> waiter_active w then (w, s) else (w\<lparr>waiter_active := False\<rparr>, unregister s))"

definition drop_waiter :: "capacity_waiter \<Rightarrow> capacity_signal \<Rightarrow> capacity_signal" where
  "drop_waiter w s = (if waiter_active w then unregister s else s)"

subsection \<open>Accounting\<close>

text \<open>The signal with the waiters that exist; every operation runs without interference.\<close>

inductive signal_step ::
    "capacity_signal \<times> capacity_waiter list \<Rightarrow> capacity_signal \<times> capacity_waiter list \<Rightarrow> bool" where
  registered: "length ws < 2 ^ 64 - 1 \<Longrightarrow> register s = (w, s') \<Longrightarrow> signal_step (s, ws) (s', ws @ [w])"
| released: "capacity_released units s = (n, s') \<Longrightarrow> signal_step (s, ws) (s', ws)"
| changed: "signal_step (s, ws) (notify_state_changed s, ws)"
| checked: "i < length ws \<Longrightarrow> waiter_active (ws ! i) \<Longrightarrow> wait_check (ws ! i) s = (r, w, s') \<Longrightarrow>
    signal_step (s, ws) (s', ws[i := w])"
| finished: "i < length ws \<Longrightarrow> finish_acquired (ws ! i) s = (w, s') \<Longrightarrow> signal_step (s, ws) (s', ws[i := w])"
| dropped: "i < length ws \<Longrightarrow> s' = drop_waiter (ws ! i) s \<Longrightarrow>
    signal_step (s, ws) (s', take i ws @ drop (Suc i) ws)"

inductive signal_reachable :: "capacity_signal \<times> capacity_waiter list \<Rightarrow> bool" where
  initial: "signal_reachable (signal_default, [])"
| stepped: "signal_reachable c \<Longrightarrow> signal_step c c' \<Longrightarrow> signal_reachable c'"

definition active_count :: "capacity_waiter list \<Rightarrow> nat" where
  "active_count ws = length (filter waiter_active ws)"

definition signal_inv :: "capacity_signal \<times> capacity_waiter list \<Rightarrow> bool" where
  "signal_inv c \<longleftrightarrow> waiters (fst c) = active_count (snd c) \<and> credits (fst c) \<le> waiters (fst c) \<and>
     length (snd c) < 2 ^ 64"

lemma active_count_split:
  "i < length ws \<Longrightarrow> active_count ws =
   active_count (take i ws @ drop (Suc i) ws) + of_bool (waiter_active (ws ! i))"
  by (subst (1) id_take_nth_drop) (auto simp: active_count_def)

lemma active_count_update:
  "i < length ws \<Longrightarrow> active_count (ws[i := w]) =
   active_count (take i ws @ drop (Suc i) ws) + of_bool (waiter_active w)"
  by (simp add: upd_conv_take_nth_drop active_count_def)

lemma active_count_le: "active_count ws \<le> length ws"
  by (simp add: active_count_def)

lemma capacity_released_spec:
  assumes "capacity_released units s = (n, s')" "credits s \<le> waiters s" "waiters s < 2 ^ 64"
  shows "n = min units (waiters s - credits s) \<and> credits s' = credits s + n \<and>
    waiters s' = waiters s \<and> state_generation s' = state_generation s"
  using assms
  by (auto simp: capacity_released_def capacity_released_exchange_def Let_def min_def
      split: if_splits option.splits)

lemma unregister_spec:
  "credits s \<le> waiters s \<Longrightarrow>
   waiters (unregister s) = waiters s - 1 \<and> credits (unregister s) = min (credits s) (waiters s - 1)"
  by (auto simp: unregister_def unregister_count_def unregister_trim_def)

lemma wait_check_spec:
  assumes "wait_check w s = (r, w', s')"
  shows "waiters s' = waiters s \<and> waiter_active w' = waiter_active w \<and>
    state_generation s' = state_generation s \<and>
    credits s' = credits s - (if 0 < credits s then 1 else 0) \<and>
    (r \<longleftrightarrow> 0 < credits s \<or> state_generation s \<noteq> observed_state_generation w)"
  using assms by (auto simp: wait_check_def consume_credit_def split: if_splits)

lemma signal_inv_step: "signal_step c c' \<Longrightarrow> signal_inv c \<Longrightarrow> signal_inv c'"
proof (induction rule: signal_step.induct)
  case (registered ws s w s')
  then show ?case by (auto simp: signal_inv_def register_def Let_def active_count_def)
next
  case (released units s n s' ws)
  then have "waiters s < 2 ^ 64" using active_count_le [of ws] by (simp add: signal_inv_def)
  with released capacity_released_spec [OF released(1)] show ?case by (auto simp: signal_inv_def)
next
  case (changed s ws)
  then show ?case by (simp add: signal_inv_def notify_state_changed_def)
next
  case (checked i ws s r w s')
  with wait_check_spec [OF checked(3)] show ?case
    by (auto simp: signal_inv_def active_count_split [of i] active_count_update)
next
  case (finished i ws s w s')
  then show ?case
    using unregister_spec [of s] active_count_split [of i ws]
    by (auto simp: signal_inv_def finish_acquired_def active_count_update split: if_splits)
next
  case (dropped i ws s' s)
  then show ?case
    using unregister_spec [of s] active_count_split [of i ws]
    by (auto simp: signal_inv_def drop_waiter_def)
qed

lemma signal_inv_reachable: "signal_reachable c \<Longrightarrow> signal_inv c"
proof (induction rule: signal_reachable.induct)
  case initial
  show ?case by (simp add: signal_inv_def signal_default_def active_count_def)
qed (rule signal_inv_step)

text \<open>How many checks of active waiters return because of credits.\<close>

fun checks :: "capacity_waiter list \<Rightarrow> capacity_signal \<Rightarrow> nat" where
  "checks [] s = 0"
| "checks (w # ws) s = (case wait_check w s of (r, _, s') \<Rightarrow> of_bool r + checks ws s')"

lemma checks_credits:
  "\<forall>w \<in> set ws. observed_state_generation w = state_generation s \<Longrightarrow>
   checks ws s = min (length ws) (credits s)"
proof (induction ws arbitrary: s)
  case (Cons w ws)
  obtain r w' s' where c: "wait_check w s = (r, w', s')" by (metis prod_cases3)
  from Cons wait_check_spec [OF c] show ?case by (auto simp: c)
qed simp

subsection \<open>Properties\<close>

text \<open>When \<open>units\<close> of capacity are released, as many further waiters as there are units are
  notified and can return from \<open>wait_for_change\<close>, up to the number of waiters; a waiter that
  got its slot takes no credit from the others; and the credits never exceed the waiters.\<close>

theorem released_capacity_wakes_that_many_waiters:
  assumes "signal_reachable (s, ws)" "capacity_released units s = (n, s')"
    and "\<forall>w \<in> set ws. waiter_active w \<longrightarrow> observed_state_generation w = state_generation s"
  shows "credits s \<le> waiters s \<and> waiters s = active_count ws \<and>
    n = min units (waiters s - credits s) \<and>
    checks (filter waiter_active ws) s' = min (active_count ws) (credits s + units) \<and>
    credits (unregister s') = min (credits s') (waiters s - 1)"
proof -
  have inv: "signal_inv (s, ws)" using assms(1) by (rule signal_inv_reachable)
  then have "waiters s < 2 ^ 64" using active_count_le [of ws] by (simp add: signal_inv_def)
  with inv have sp: "n = min units (waiters s - credits s) \<and> credits s' = credits s + n \<and>
      waiters s' = waiters s \<and> state_generation s' = state_generation s"
    by (intro capacity_released_spec [OF assms(2)]) (auto simp: signal_inv_def)
  then have "checks (filter waiter_active ws) s' = min (active_count ws) (credits s')"
    using checks_credits [of "filter waiter_active ws" s'] assms(3) by (auto simp: active_count_def)
  with sp inv unregister_spec [of s'] show ?thesis by (auto simp: signal_inv_def)
qed

theorem released_capacity_wakes_that_many_waiters_witness:
  "fst (capacity_released 3 (snd (register (snd (register signal_default))))) = 2"
proof -
  let ?w = "\<lparr>observed_state_generation = 0, waiter_active = True\<rparr>"
  let ?s = "snd (register (snd (register signal_default)))"
  have "signal_step (signal_default, []) (snd (register signal_default), [] @ [?w])"
    by (intro signal_step.registered) (simp_all add: register_def signal_default_def Let_def)
  moreover have "signal_step (snd (register signal_default), [?w]) (?s, [?w] @ [?w])"
    by (intro signal_step.registered) (simp_all add: register_def signal_default_def Let_def)
  ultimately have "signal_reachable (?s, [?w, ?w])"
    using signal_reachable.intros by (metis append_Cons append_Nil)
  moreover have "waiters ?s = 2" "credits ?s = 0" "state_generation ?s = 0"
    by (simp_all add: register_def signal_default_def Let_def)
  ultimately have "fst (capacity_released 3 ?s) = min 3 (waiters ?s - credits ?s)"
    using released_capacity_wakes_that_many_waiters [of ?s "[?w, ?w]" 3 "fst (capacity_released 3 ?s)"
      "snd (capacity_released 3 ?s)"] by simp
  with \<open>waiters ?s = 2\<close> \<open>credits ?s = 0\<close> show ?thesis by simp
qed

text \<open>A release that loaded the counters before two waiters left exchanges successfully after
  them: the credits then exceed the waiters, which no later trim repairs, and the next
  waiter to register returns at once although nothing was released since.\<close>

theorem stale_release_leaves_unclaimable_credits:
  "let s0 = snd (register (snd (register signal_default)));
       s1 = unregister (unregister s0);
       (added, s2) = capacity_released_exchange (waiters s0) (credits s0) 2 s1;
       (w, s3) = register s2
   in added = Some 2 \<and> waiters s2 = 0 \<and> credits s2 = 2 \<and> unregister s2 = s2 \<and>
      fst (wait_check w s3)"
  by (simp add: Let_def register_def signal_default_def unregister_def unregister_count_def
      unregister_trim_def capacity_released_exchange_def wait_check_def consume_credit_def)

end
