(* ===== verification/Lease_Guard.thy ===== *)
theory Lease_Guard
  imports Leases Release_Dispatcher Capacity_Signal
begin

text \<open>
  The guards of \<open>src/kiro/token_manager/concurrency.rs\<close> that own a credential slot
  (\<open>InFlightLeaseGuard\<close>) or a place in the dispatch queue (\<open>DispatchQueueGuard\<close>), and give them
  back on every path, also by being dropped.

  The shared objects a guard points to (the entries, the session counters, the tombstones, the
  release dispatcher, the capacity signal and the queue counter) are one record, \<open>lease_world\<close>;
  an optional pointer of the guard is a flag.  Instants are parameters.  A task that is spawned
  for Redis is a result of the operation, the answer of Redis to a renewal a parameter.
  \<open>debug_assert\<close> is not compiled into the release build and has no effect here.
\<close>

subsection \<open>State\<close>

record 'f lease_world =
  w_entries :: "'f entries"
  w_sessions :: "session_key \<rightharpoonup> u32"
  w_tombstones :: tombstone_set
  w_dispatcher :: release_dispatcher
  w_signal :: capacity_signal
  w_queued :: u32

datatype redis_lease_acquisition_state = NotStarted | CommitUnknown | Definitive bool

record lease_guard =
  g_redis :: bool
  g_dispatcher :: bool
  g_reservation :: bool
  g_tombstones :: bool
  g_credential_id :: u64
  g_lease_id :: u64
  g_weight_units :: u32
  g_acquisition :: redis_lease_acquisition_state
  g_touch_interval_millis :: u64
  g_next_redis_touch_at_millis :: u64
  g_next_local_touch_at_millis :: u64
  g_redis_touch_in_flight :: bool
  g_released :: bool
  g_session_slot :: "session_key option"

datatype redis_task = TouchInFlightLease u64 u64 | SetInFlightLeaseKind u64 u64 string

definition duration_millis :: "duration \<Rightarrow> u64" where
  "duration_millis d = word_of_nat (min (d div 1000000) (2 ^ 64 - 1))"

subsection \<open>The lease guard\<close>

definition guard_new :: "bool \<Rightarrow> bool \<Rightarrow> bool \<Rightarrow> bool \<Rightarrow> u64 \<Rightarrow> u64 \<Rightarrow> u32 \<Rightarrow> lease_guard" where
  "guard_new redis dispatcher reservation tombstones credential_id lid w =
     (let interval = duration_millis (scheduler_redis_lease_touch_interval None) in
      \<lparr>g_redis = redis, g_dispatcher = dispatcher, g_reservation = reservation,
       g_tombstones = tombstones, g_credential_id = credential_id, g_lease_id = lid,
       g_weight_units = max w 1, g_acquisition = NotStarted,
       g_touch_interval_millis = interval, g_next_redis_touch_at_millis = interval,
       g_next_local_touch_at_millis = 0, g_redis_touch_in_flight = False,
       g_released = False, g_session_slot = None\<rparr>)"

text \<open>Emptying the slot drops what it held.\<close>

definition drop_session_slot :: "lease_guard \<Rightarrow> 'f lease_world \<Rightarrow> 'f lease_world" where
  "drop_session_slot g w =
     (case g_session_slot g of
        None \<Rightarrow> w
      | Some key \<Rightarrow> w\<lparr>w_sessions := session_slot_drop (w_sessions w) key\<rparr>)"

definition attach_session_slot ::
    "session_key \<Rightarrow> lease_guard \<times> 'f lease_world \<Rightarrow> lease_guard \<times> 'f lease_world" where
  "attach_session_slot slot gw =
     (case gw of (g, w) \<Rightarrow> (g\<lparr>g_session_slot := Some slot\<rparr>, drop_session_slot g w))"

definition arm_redis_commit_unknown :: "lease_guard \<Rightarrow> lease_guard" where
  "arm_redis_commit_unknown g = g\<lparr>g_acquisition := CommitUnknown\<rparr>"

definition confirm_redis_acquired :: "lease_guard \<Rightarrow> lease_guard" where
  "confirm_redis_acquired g = g\<lparr>g_acquisition := Definitive True\<rparr>"

definition configure_redis_touch_interval :: "duration option \<Rightarrow> lease_guard \<Rightarrow> lease_guard" where
  "configure_redis_touch_interval max_age g =
     (let interval = duration_millis (scheduler_redis_lease_touch_interval max_age)
      in g\<lparr>g_touch_interval_millis := interval, g_next_redis_touch_at_millis := interval\<rparr>)"

definition confirm_redis_not_acquired ::
    "lease_guard \<times> 'f lease_world \<Rightarrow> lease_guard \<times> 'f lease_world" where
  "confirm_redis_not_acquired gw =
     (case gw of (g, w) \<Rightarrow>
        (g\<lparr>g_acquisition := Definitive False, g_reservation := False, g_tombstones := False\<rparr>,
         if g_reservation g then w\<lparr>w_dispatcher := drop_reservation (w_dispatcher w)\<rparr> else w))"

definition release_kind :: "redis_lease_acquisition_state \<Rightarrow> bool option" where
  "release_kind s =
     (case s of
        NotStarted \<Rightarrow> None
      | Definitive acquired \<Rightarrow> if acquired then Some False else None
      | CommitUnknown \<Rightarrow> Some True)"

definition guard_release ::
    "bool \<Rightarrow> instant \<Rightarrow> instant \<Rightarrow> lease_guard \<times> 'f lease_world \<Rightarrow> lease_guard \<times> 'f lease_world" where
  "guard_release runtime tombstone_now enqueue_now gw =
     (case gw of (g, w) \<Rightarrow>
        if g_released g then (g, w)
        else
          let w = drop_session_slot g w;
              g = g\<lparr>g_released := True, g_session_slot := None\<rparr>;
              kind = release_kind (g_acquisition g);
              w = (if kind \<noteq> None \<and> g_tombstones g
                   then w\<lparr>w_tombstones := record_released_in_flight_lease_tombstone tombstone_now
                            (w_tombstones w) (g_credential_id g) (g_lease_id g)\<rparr>
                   else w);
              (released_weight, es) = release_in_flight_lease_from_entries (w_entries w)
                  (g_credential_id g) (g_lease_id g);
              w = w\<lparr>w_entries := es\<rparr>;
              w = (case released_weight of
                     Some rw \<Rightarrow> w\<lparr>w_signal := snd (capacity_released (unat rw) (w_signal w))\<rparr>
                   | None \<Rightarrow> w);
              reservation = g_reservation g;
              g = g\<lparr>g_reservation := False\<rparr>;
              w = (case kind of
                     Some tombstone \<Rightarrow>
                       if g_dispatcher g \<and> reservation
                       then w\<lparr>w_dispatcher := enqueue runtime enqueue_now
                                (InFlight (g_credential_id g) (g_lease_id g) tombstone) (w_dispatcher w)\<rparr>
                       else if reservation
                       then w\<lparr>w_dispatcher := drop_reservation (w_dispatcher w)\<rparr> else w
                   | None \<Rightarrow>
                       if reservation
                       then w\<lparr>w_dispatcher := drop_reservation (w_dispatcher w)\<rparr> else w)
          in (g, w))"

definition LOCAL_LEASE_TOUCH_INTERVAL_MILLIS :: u64 where "LOCAL_LEASE_TOUCH_INTERVAL_MILLIS = 1000"

definition guard_touch ::
    "instant \<Rightarrow> u64 \<Rightarrow> lease_guard \<times> 'f lease_world \<Rightarrow> redis_task option \<times> lease_guard \<times> 'f lease_world"
  where
  "guard_touch now elapsed_millis gw =
     (case gw of (g, w) \<Rightarrow>
        let (touch_local, next_local) = reserve_periodic_work (g_next_local_touch_at_millis g)
              elapsed_millis LOCAL_LEASE_TOUCH_INTERVAL_MILLIS;
            g = g\<lparr>g_next_local_touch_at_millis := next_local\<rparr>;
            w = (if touch_local
                 then w\<lparr>w_entries := touch_in_flight_lease_from_entries now (w_entries w)
                          (g_credential_id g) (g_lease_id g)\<rparr>
                 else w)
        in if \<not> g_redis g then (None, g, w)
           else
             let (touch_redis, next_redis) = reserve_periodic_work (g_next_redis_touch_at_millis g)
                   elapsed_millis (g_touch_interval_millis g);
                 g = g\<lparr>g_next_redis_touch_at_millis := next_redis\<rparr>
             in if \<not> touch_redis \<or> g_redis_touch_in_flight g then (None, g, w)
                else (Some (TouchInFlightLease (g_credential_id g) (g_lease_id g)),
                      g\<lparr>g_redis_touch_in_flight := True\<rparr>, w))"

text \<open>The spawned task clears the flag when it ends, whatever its result.\<close>

definition redis_touch_done :: "lease_guard \<Rightarrow> lease_guard" where
  "redis_touch_done g = g\<lparr>g_redis_touch_in_flight := False\<rparr>"

definition guard_set_kind ::
    "instant \<Rightarrow> in_flight_kind \<Rightarrow> lease_guard \<times> 'f lease_world \<Rightarrow>
     redis_task option \<times> lease_guard \<times> 'f lease_world" where
  "guard_set_kind now kind gw =
     (case gw of (g, w) \<Rightarrow>
        (if g_redis g
         then Some (SetInFlightLeaseKind (g_credential_id g) (g_lease_id g) (in_flight_kind_as_str kind))
         else None,
         g, w\<lparr>w_entries := set_in_flight_lease_kind_from_entries now (w_entries w)
                (g_credential_id g) (g_lease_id g) kind\<rparr>))"

subsection \<open>The queue guard\<close>

definition DISPATCH_QUEUE_LEASE_RENEW_INTERVAL_MAX_SECS :: u64 where
  "DISPATCH_QUEUE_LEASE_RENEW_INTERVAL_MAX_SECS = 20"

record queue_guard =
  q_redis :: bool
  q_dispatcher :: bool
  q_reservation :: bool
  q_redis_lease_id :: "string option"
  q_acquisition :: redis_lease_acquisition_state
  q_redis_lease_ttl_secs :: u64
  q_redis_renewal_required :: bool
  q_next_redis_renew_at :: "instant option"
  q_released :: bool

definition queue_guard_new :: "bool \<Rightarrow> bool \<Rightarrow> bool \<Rightarrow> string option \<Rightarrow> u64 \<Rightarrow> bool \<Rightarrow> queue_guard" where
  "queue_guard_new redis dispatcher reservation redis_lease_id ttl_secs renewal_required =
     \<lparr>q_redis = redis, q_dispatcher = dispatcher, q_reservation = reservation,
      q_redis_lease_id = redis_lease_id, q_acquisition = NotStarted,
      q_redis_lease_ttl_secs = ttl_secs, q_redis_renewal_required = renewal_required,
      q_next_redis_renew_at = None, q_released = False\<rparr>"

definition queue_arm_redis_commit_unknown :: "queue_guard \<Rightarrow> queue_guard" where
  "queue_arm_redis_commit_unknown q = q\<lparr>q_acquisition := CommitUnknown\<rparr>"

definition renew_interval :: "queue_guard \<Rightarrow> duration" where
  "renew_interval q =
     secs (unat (clamp 1 DISPATCH_QUEUE_LEASE_RENEW_INTERVAL_MAX_SECS (q_redis_lease_ttl_secs q div 3)))"

definition queue_confirm_redis_acquired :: "instant \<Rightarrow> queue_guard \<Rightarrow> queue_guard" where
  "queue_confirm_redis_acquired now q =
     q\<lparr>q_acquisition := Definitive True,
       q_next_redis_renew_at := (if q_redis_renewal_required q then Some (now + renew_interval q) else None)\<rparr>"

definition queue_confirm_redis_not_acquired ::
    "queue_guard \<times> 'f lease_world \<Rightarrow> queue_guard \<times> 'f lease_world" where
  "queue_confirm_redis_not_acquired qw =
     (case qw of (q, w) \<Rightarrow>
        (q\<lparr>q_acquisition := Definitive False, q_reservation := False, q_next_redis_renew_at := None\<rparr>,
         if q_reservation q then w\<lparr>w_dispatcher := drop_reservation (w_dispatcher w)\<rparr> else w))"

definition redis_renewal_is_due :: "instant \<Rightarrow> queue_guard \<Rightarrow> bool" where
  "redis_renewal_is_due now q \<longleftrightarrow>
     \<not> q_released q \<and> (case q_next_redis_renew_at q of Some renew_at \<Rightarrow> renew_at \<le> now | None \<Rightarrow> False)"

definition has_redis_lease :: "queue_guard \<Rightarrow> bool" where
  "has_redis_lease q \<longleftrightarrow> q_redis_lease_id q \<noteq> None"

text \<open>
  \<open>answer\<close> is what the renewal in Redis returns: an error (a timeout included), or whether the
  lease was still there.
\<close>

definition renew_if_needed ::
    "instant \<Rightarrow> instant \<Rightarrow> (string list + bool) \<Rightarrow> queue_guard \<Rightarrow> (string list + unit) \<times> queue_guard" where
  "renew_if_needed now done_at answer q =
     (if q_released q \<or> (case q_next_redis_renew_at q of Some renew_at \<Rightarrow> now < renew_at | None \<Rightarrow> True)
      then (Inr (), q)
      else if \<not> (q_redis q \<and> q_redis_lease_id q \<noteq> None)
      then (Inr (), q\<lparr>q_next_redis_renew_at := None\<rparr>)
      else case answer of
          Inl e \<Rightarrow> (Inl e, q)
        | Inr renewed \<Rightarrow>
            if \<not> renewed then (Inl [''Redis dispatch queue lease expired before renewal''], q)
            else (Inr (), q\<lparr>q_next_redis_renew_at := Some (done_at + renew_interval q)\<rparr>))"

definition queue_release ::
    "bool \<Rightarrow> instant \<Rightarrow> queue_guard \<times> 'f lease_world \<Rightarrow> queue_guard \<times> 'f lease_world" where
  "queue_release runtime now qw =
     (case qw of (q, w) \<Rightarrow>
        if q_released q then (q, w)
        else
          let q = q\<lparr>q_released := True\<rparr>;
              w = w\<lparr>w_queued := leave_local_dispatch_queue (w_queued w)\<rparr> in
          if release_kind (q_acquisition q) \<noteq> None then
            (case q_redis_lease_id q of
               Some lid \<Rightarrow>
                 if q_dispatcher q \<and> q_reservation q
                 then (q\<lparr>q_reservation := False\<rparr>,
                       w\<lparr>w_dispatcher := enqueue runtime now (DispatchQueue lid) (w_dispatcher w)\<rparr>)
                 else if q_reservation q
                 then (q\<lparr>q_reservation := False\<rparr>,
                       w\<lparr>w_dispatcher := drop_reservation (w_dispatcher w)\<rparr>)
                 else (q, w)
             | None \<Rightarrow>
                 if q_reservation q
                 then (q\<lparr>q_reservation := False\<rparr>,
                       w\<lparr>w_dispatcher := drop_reservation (w_dispatcher w)\<rparr>)
                 else (q, w))
          else (q, w))"

text \<open>Dropping a guard releases it and then drops its fields.\<close>

definition guard_drop ::
    "bool \<Rightarrow> instant \<Rightarrow> instant \<Rightarrow> lease_guard \<times> 'f lease_world \<Rightarrow> 'f lease_world" where
  "guard_drop runtime tombstone_now enqueue_now gw =
     (case guard_release runtime tombstone_now enqueue_now gw of (g, w) \<Rightarrow>
        let w = drop_session_slot g w in
        if g_reservation g then w\<lparr>w_dispatcher := drop_reservation (w_dispatcher w)\<rparr> else w)"

definition queue_guard_drop ::
    "bool \<Rightarrow> instant \<Rightarrow> queue_guard \<times> 'f lease_world \<Rightarrow> 'f lease_world" where
  "queue_guard_drop runtime now qw =
     (case queue_release runtime now qw of (q, w) \<Rightarrow>
        if q_reservation q then w\<lparr>w_dispatcher := drop_reservation (w_dispatcher w)\<rparr> else w)"

subsection \<open>What a release leaves behind\<close>

lemma position_None: "position p xs = None \<longleftrightarrow> (\<forall>x \<in> set xs. \<not> p x)"
  by (induction xs) auto

lemma remove_at_position:
  "distinct (map f xs) \<Longrightarrow> position (\<lambda>x. f x = k) xs = Some i \<Longrightarrow> k \<notin> f ` set (remove_at i xs)"
proof (induction xs arbitrary: i)
  case (Cons x xs)
  show ?case
  proof (cases "f x = k")
    case True
    with Cons.prems show ?thesis by (auto simp: image_iff)
  next
    case False
    with Cons.prems obtain j where j: "i = Suc j" "position (\<lambda>x. f x = k) xs = Some j" by auto
    from Cons.IH [OF _ j(2)] Cons.prems(1) False j(1) show ?thesis by auto
  qed
qed simp

lemma released_lease_is_gone:
  assumes "pool_inv entries"
    and "List.find (has_id cid) (snd (release_in_flight_lease_from_entries entries cid lid)) = Some e"
  shows "lid \<notin> lease_id ` set (in_flight_leases e)"
proof (cases "List.find (has_id cid) entries")
  case None
  with assms(2) show ?thesis by (simp add: release_in_flight_lease_from_entries_def)
next
  case (Some e0)
  then have "ledger e0" and id: "entry_id e0 = cid"
    using assms(1) find_has_id [OF Some] by (auto simp: pool_inv_def list_all_iff)
  then have d: "distinct (map lease_id (in_flight_leases e0))" by (simp add: ledger_def)
  show ?thesis
  proof (cases "position (\<lambda>l. lease_id l = lid) (in_flight_leases e0)")
    case None
    with Some assms(2) show ?thesis
      by (auto simp: release_in_flight_lease_from_entries_def position_None)
  next
    case (Some i)
    have "List.find (has_id cid) (find_update (has_id cid) (release_lease_at i) entries) =
        Some (release_lease_at i e0)"
      using \<open>List.find (has_id cid) entries = Some e0\<close> id by (intro find_Some_iff_find_update) simp_all
    with \<open>List.find (has_id cid) entries = Some e0\<close> Some assms(2) have "e = release_lease_at i e0"
      by (simp add: release_in_flight_lease_from_entries_def)
    with remove_at_position [OF d Some] show ?thesis by simp
  qed
qed

lemma enqueue_pending: "pending (enqueue rt now i d) i \<noteq> None"
  by (simp add: enqueue_def Let_def drop_reservation_def)

lemma enqueue_reservations: "reservations (enqueue rt now i d) = reservations d - 1"
  by (simp add: enqueue_def Let_def drop_reservation_def)

lemma drop_reservation_simps [simp]:
  "pending (drop_reservation d) = pending d" "reservations (drop_reservation d) = reservations d - 1"
  by (simp_all add: drop_reservation_def)

lemma drop_session_slot_simps [simp]:
  "w_entries (drop_session_slot g w) = w_entries w"
  "w_tombstones (drop_session_slot g w) = w_tombstones w"
  "w_dispatcher (drop_session_slot g w) = w_dispatcher w"
  "w_signal (drop_session_slot g w) = w_signal w"
  by (simp_all add: drop_session_slot_def split: option.splits)

lemma w_sessions_drop [simp]:
  "w_sessions (drop_session_slot g w) =
   (case g_session_slot g of None \<Rightarrow> w_sessions w | Some k \<Rightarrow> session_slot_drop (w_sessions w) k)"
  by (simp add: drop_session_slot_def split: option.splits)

text \<open>The shared state after the first release, component by component.\<close>

lemma guard_release_components:
  assumes "\<not> g_released g" "guard_release rt t1 t2 (g, w) = (g', w')"
  shows "w_entries w' = snd (release_in_flight_lease_from_entries (w_entries w) (g_credential_id g) (g_lease_id g))"
    and "w_sessions w' = w_sessions (drop_session_slot g w)"
    and "w_tombstones w' = (if release_kind (g_acquisition g) \<noteq> None \<and> g_tombstones g
      then record_released_in_flight_lease_tombstone t1 (w_tombstones w) (g_credential_id g) (g_lease_id g)
      else w_tombstones w)"
    and "w_dispatcher w' = (if \<not> g_reservation g then w_dispatcher w
      else case release_kind (g_acquisition g) of
          Some tombstone \<Rightarrow> if g_dispatcher g
            then enqueue rt t2 (InFlight (g_credential_id g) (g_lease_id g) tombstone) (w_dispatcher w)
            else drop_reservation (w_dispatcher w)
        | None \<Rightarrow> drop_reservation (w_dispatcher w))"
    and "g' = g\<lparr>g_released := True, g_session_slot := None, g_reservation := False\<rparr>"
  using assms
  by (auto simp: guard_release_def Let_def split: option.splits prod.splits if_splits)

lemma guard_release_again: "g_released g \<Longrightarrow> guard_release rt t1 t2 (g, w) = (g, w)"
  by (simp add: guard_release_def)

subsection \<open>Properties\<close>

text \<open>C2. The first release of a lease guard takes the lease off the credential, gives the session
  share back, and consumes the guard's reservation: into a pending release that carries the
  commit-unknown flag if Redis may hold the lease, else back to the dispatcher; it leaves a
  tombstone exactly if Redis may hold the lease.  A second release changes nothing.\<close>

theorem guard_releases_everything_once:
  assumes "pool_inv (w_entries w)" "\<not> g_released g"
    and "guard_release rt t1 t2 (g, w) = (g', w')"
    and "length (tomb_order (w_tombstones w)) < TOMBSTONE_HARD_LIMIT"
  shows "pool_inv (w_entries w') \<and>
    (\<forall>e. List.find (has_id (g_credential_id g)) (w_entries w') = Some e \<longrightarrow>
       g_lease_id g \<notin> lease_id ` set (in_flight_leases e)) \<and>
    w_sessions w' = (case g_session_slot g of None \<Rightarrow> w_sessions w
       | Some key \<Rightarrow> session_slot_drop (w_sessions w) key) \<and>
    reservations (w_dispatcher w') = reservations (w_dispatcher w) - (if g_reservation g then 1 else 0) \<and>
    (g_acquisition g \<in> {CommitUnknown, Definitive True} \<longrightarrow>
       (g_dispatcher g \<and> g_reservation g \<longrightarrow> pending (w_dispatcher w')
          (InFlight (g_credential_id g) (g_lease_id g) (g_acquisition g = CommitUnknown)) \<noteq> None) \<and>
       (g_tombstones g \<longrightarrow> released_at (w_tombstones w') (g_credential_id g, g_lease_id g) \<noteq> None)) \<and>
    (g_acquisition g \<in> {NotStarted, Definitive False} \<longrightarrow>
       pending (w_dispatcher w') = pending (w_dispatcher w) \<and> w_tombstones w' = w_tombstones w) \<and>
    guard_release rt' t3 t4 (g', w'') = (g', w'')"
proof -
  note c = guard_release_components [OF assms(2,3)]
  have tomb: "released_at (record_released_in_flight_lease_tombstone t1 (w_tombstones w)
      (g_credential_id g) (g_lease_id g)) (g_credential_id g, g_lease_id g) \<noteq> None"
    using record_entombs [OF assms(4), of t1 "g_credential_id g" "g_lease_id g"] by (auto simp: entombed_def)
  have "pool_inv (w_entries w')" using release_pool_inv [OF assms(1)] by (simp add: c(1))
  moreover have "g_lease_id g \<notin> lease_id ` set (in_flight_leases e)"
    if "List.find (has_id (g_credential_id g)) (w_entries w') = Some e" for e
    using released_lease_is_gone [OF assms(1)] that by (simp add: c(1))
  moreover have "reservations (w_dispatcher w') = reservations (w_dispatcher w) - (if g_reservation g then 1 else 0)"
    by (simp add: c(4) enqueue_reservations split: option.splits)
  moreover have "pending (w_dispatcher w')
      (InFlight (g_credential_id g) (g_lease_id g) (g_acquisition g = CommitUnknown)) \<noteq> None"
    if "g_acquisition g \<in> {CommitUnknown, Definitive True}" "g_dispatcher g" "g_reservation g"
    using that enqueue_pending by (auto simp: c(4) release_kind_def)
  moreover have "released_at (w_tombstones w') (g_credential_id g, g_lease_id g) \<noteq> None"
    if "g_acquisition g \<in> {CommitUnknown, Definitive True}" "g_tombstones g"
    using that tomb by (auto simp: c(3) release_kind_def)
  moreover have "pending (w_dispatcher w') = pending (w_dispatcher w) \<and> w_tombstones w' = w_tombstones w"
    if "g_acquisition g \<in> {NotStarted, Definitive False}"
    using that by (auto simp: c(3,4) release_kind_def)
  moreover have "w_sessions w' = (case g_session_slot g of None \<Rightarrow> w_sessions w
       | Some key \<Rightarrow> session_slot_drop (w_sessions w) key)" by (simp add: c(2))
  moreover have "guard_release rt' t3 t4 (g', w'') = (g', w'')"
    by (rule guard_release_again) (simp add: c(5))
  ultimately show ?thesis by blast
qed

definition example_world :: "unit lease_world" where
  "example_world = \<lparr>w_entries = [example_entry], w_sessions = [(''s'', 1) \<mapsto> 1],
     w_tombstones = tombstones_empty, w_dispatcher = snd (try_reserve dispatcher_new),
     w_signal = signal_default, w_queued = 0\<rparr>"

definition example_guard :: lease_guard where
  "example_guard = arm_redis_commit_unknown (guard_new True True True True 1 9 1)"

theorem guard_releases_everything_once_witness:
  "pending (w_dispatcher (snd (guard_release True 5 6 (example_guard, example_world)))) (InFlight 1 9 True) \<noteq> None"
proof -
  have "pool_inv (w_entries example_world)" "length (tomb_order (w_tombstones example_world)) < TOMBSTONE_HARD_LIMIT"
    by (simp_all add: example_world_def pool_inv_def ledger_def example_entry_def tombstones_empty_def
        TOMBSTONE_HARD_LIMIT_def)
  moreover have g: "\<not> g_released example_guard" "g_dispatcher example_guard" "g_reservation example_guard"
    "g_acquisition example_guard = CommitUnknown" "g_credential_id example_guard = 1"
    "g_lease_id example_guard = 9"
    by (simp_all add: example_guard_def arm_redis_commit_unknown_def guard_new_def Let_def)
  ultimately show ?thesis
    using guard_releases_everything_once [of example_world example_guard True 5 6
      "fst (guard_release True 5 6 (example_guard, example_world))"
      "snd (guard_release True 5 6 (example_guard, example_world))" True 0 0 example_world]
    by (simp add: g)
qed

text \<open>Touching a lease costs at most one refresh of the local entry per second and one Redis
  task per interval, with at most one such task running; a touch that comes early changes
  neither.\<close>

theorem touches_are_throttled:
  assumes "guard_touch now t (g, w) = (r, g', w')"
  shows "(t < g_next_local_touch_at_millis g \<longrightarrow> w' = w) \<and>
    (g_next_local_touch_at_millis g \<le> t \<longrightarrow> g_next_local_touch_at_millis g' = sat_add t 1000) \<and>
    (r \<noteq> None \<longrightarrow> g_redis g \<and> \<not> g_redis_touch_in_flight g \<and> g_redis_touch_in_flight g' \<and>
       g_next_redis_touch_at_millis g \<le> t \<and>
       g_next_redis_touch_at_millis g' = sat_add t (max (g_touch_interval_millis g) 1)) \<and>
    (g_redis g \<and> \<not> g_redis_touch_in_flight g \<and> g_next_redis_touch_at_millis g \<le> t \<longrightarrow>
       r = Some (TouchInFlightLease (g_credential_id g) (g_lease_id g)))"
proof -
  have "max (1000 :: u64) 1 = 1000" by (simp add: max_def word_le_nat_alt)
  with assms show ?thesis
    by (auto simp: guard_touch_def Let_def reserve_periodic_work_def LOCAL_LEASE_TOUCH_INTERVAL_MILLIS_def
        split: if_splits)
qed

theorem touches_are_throttled_witness:
  "fst (guard_touch 0 30000 (example_guard, example_world)) = Some (TouchInFlightLease 1 9)"
  using touches_are_throttled [of 0 30000 example_guard example_world
      "fst (guard_touch 0 30000 (example_guard, example_world))"
      "fst (snd (guard_touch 0 30000 (example_guard, example_world)))"
      "snd (snd (guard_touch 0 30000 (example_guard, example_world)))"]
  by (simp add: example_guard_def arm_redis_commit_unknown_def guard_new_def Let_def
      scheduler_redis_lease_touch_interval_def duration_millis_def clamp_def secs_def millis_def)

text \<open>A queue guard leaves the local queue exactly once, its Redis lease (if it may exist) is
  handed to the dispatcher, and when it is dropped its reservation is gone on every path.\<close>

theorem queue_guard_leaves_once:
  assumes "queue_release rt now (q, w) = (q', w')"
  shows "q_released q' \<and>
    w_queued w' = (if q_released q then w_queued w else w_queued w - 1) \<and>
    queue_release rt' now' (q', w'') = (q', w'') \<and>
    (\<not> q_released q \<and> q_acquisition q \<in> {CommitUnknown, Definitive True} \<and> q_dispatcher q \<and>
       q_reservation q \<and> q_redis_lease_id q = Some lid \<longrightarrow>
       pending (w_dispatcher w') (DispatchQueue lid) \<noteq> None) \<and>
    reservations (w_dispatcher (queue_guard_drop rt now (q, w))) =
      reservations (w_dispatcher w) - (if q_reservation q then 1 else 0)"
  using assms enqueue_pending [of rt now "DispatchQueue lid" "w_dispatcher w"]
  by (auto simp: queue_release_def queue_guard_drop_def Let_def leave_local_dispatch_queue_def
      release_kind_def enqueue_reservations split: if_splits option.splits redis_lease_acquisition_state.splits)

theorem queue_guard_leaves_once_witness:
  "pending (w_dispatcher (snd (queue_release True 7
     (queue_arm_redis_commit_unknown (queue_guard_new True True True (Some ''q'') 60 False), example_world))))
     (DispatchQueue ''q'') \<noteq> None"
  using queue_guard_leaves_once [of True 7
     "queue_arm_redis_commit_unknown (queue_guard_new True True True (Some ''q'') 60 False)" example_world
     "fst (queue_release True 7
       (queue_arm_redis_commit_unknown (queue_guard_new True True True (Some ''q'') 60 False), example_world))"
     "snd (queue_release True 7
       (queue_arm_redis_commit_unknown (queue_guard_new True True True (Some ''q'') 60 False), example_world))"
     True 0 example_world "''q''"]
  by (simp add: queue_arm_redis_commit_unknown_def queue_guard_new_def)

end
