(* ===== verification/Attempt_Budget.thy ===== *)
theory Attempt_Budget
  imports Prelude
begin

text \<open>
  The request-wide budgets of upstream sends in \<open>src/anthropic/inference_attempt_budget.rs\<close>.

  The number of consumed inference attempts and the flag that the downstream response has begun
  share one 32-bit word, updated by compare-and-exchange.  Each atomic access is one operation
  here: \<open>reserve_cas\<close> is the \<open>fetch_update\<close> of the word together with the classification of a
  refusal, \<open>reserve_count\<close> the following \<open>fetch_add\<close> of the channel's counter, and \<open>reserve\<close>
  their composition.  The transition system at the end interleaves them for any number of
  concurrent callers, each of which reads the limit before its exchange.  Instants read from the
  clock are parameters; the attribution sink is not part of the state.
\<close>

unbundle bit_operations_syntax

subsection \<open>Constants and kinds\<close>

definition MIN_INFERENCE_UPSTREAM_MAX_ATTEMPTS :: u32 where "MIN_INFERENCE_UPSTREAM_MAX_ATTEMPTS = 1"
definition MAX_INFERENCE_UPSTREAM_MAX_ATTEMPTS :: u32 where "MAX_INFERENCE_UPSTREAM_MAX_ATTEMPTS = 10"
definition MIN_AUXILIARY_UPSTREAM_MAX_ATTEMPTS :: u32 where "MIN_AUXILIARY_UPSTREAM_MAX_ATTEMPTS = 1"
definition MAX_AUXILIARY_UPSTREAM_MAX_ATTEMPTS :: u32 where "MAX_AUXILIARY_UPSTREAM_MAX_ATTEMPTS = 10"

definition DOWNSTREAM_COMMITTED_BIT :: u32 where "DOWNSTREAM_COMMITTED_BIT = push_bit 31 1"
definition CONSUMED_MASK :: u32 where "CONSUMED_MASK = DOWNSTREAM_COMMITTED_BIT - 1"

datatype inference_attempt_kind = LocalCredential | ExternalPool | Mcp
datatype inference_attempt_rejection = Exhausted | ReservedForFallback | DownstreamCommitted

datatype auxiliary_attempt_kind = TokenRefresh | ProfileDiscovery

fun auxiliary_kind_as_str :: "auxiliary_attempt_kind \<Rightarrow> string" where
  "auxiliary_kind_as_str TokenRefresh = ''token_refresh''"
| "auxiliary_kind_as_str ProfileDiscovery = ''profile_discovery''"

subsection \<open>The auxiliary budget\<close>

record auxiliary_attempt_budget =
  ab_max_attempts :: u32
  ab_consumed :: u32
  ab_token_refresh_attempts :: u32
  ab_profile_discovery_attempts :: u32

record auxiliary_budget_exhausted =
  abe_kind :: auxiliary_attempt_kind
  abe_max_attempts :: u32
  abe_consumed :: u32

record auxiliary_attempt_snapshot =
  as_max_attempts :: u32
  as_consumed :: u32
  as_token_refresh_attempts :: u32
  as_profile_discovery_attempts :: u32
  as_exhausted :: bool

definition auxiliary_new :: "u32 \<Rightarrow> auxiliary_attempt_budget" where
  "auxiliary_new max_attempts =
     \<lparr>ab_max_attempts = clamp MIN_AUXILIARY_UPSTREAM_MAX_ATTEMPTS MAX_AUXILIARY_UPSTREAM_MAX_ATTEMPTS max_attempts,
      ab_consumed = 0, ab_token_refresh_attempts = 0, ab_profile_discovery_attempts = 0\<rparr>"

fun auxiliary_count :: "auxiliary_attempt_kind \<Rightarrow> auxiliary_attempt_budget \<Rightarrow> auxiliary_attempt_budget" where
  "auxiliary_count TokenRefresh b = b\<lparr>ab_token_refresh_attempts := ab_token_refresh_attempts b + 1\<rparr>"
| "auxiliary_count ProfileDiscovery b =
     b\<lparr>ab_profile_discovery_attempts := ab_profile_discovery_attempts b + 1\<rparr>"

definition auxiliary_reserve ::
    "auxiliary_attempt_kind \<Rightarrow> auxiliary_attempt_budget \<Rightarrow>
     (auxiliary_budget_exhausted + u32) \<times> auxiliary_attempt_budget" where
  "auxiliary_reserve kind b =
     (if ab_consumed b < ab_max_attempts b
      then (Inr (ab_consumed b + 1), auxiliary_count kind (b\<lparr>ab_consumed := ab_consumed b + 1\<rparr>))
      else (Inl \<lparr>abe_kind = kind, abe_max_attempts = ab_max_attempts b, abe_consumed = ab_consumed b\<rparr>, b))"

definition auxiliary_ensure_available ::
    "auxiliary_attempt_kind \<Rightarrow> auxiliary_attempt_budget \<Rightarrow> auxiliary_budget_exhausted + unit" where
  "auxiliary_ensure_available kind b =
     (let consumed = ab_consumed b in
      if ab_max_attempts b \<le> consumed
      then Inl \<lparr>abe_kind = kind, abe_max_attempts = ab_max_attempts b, abe_consumed = consumed\<rparr>
      else Inr ())"

definition auxiliary_available_attempts :: "auxiliary_attempt_budget \<Rightarrow> u32" where
  "auxiliary_available_attempts b = sat_sub (ab_max_attempts b) (ab_consumed b)"

definition auxiliary_snapshot :: "auxiliary_attempt_budget \<Rightarrow> auxiliary_attempt_snapshot" where
  "auxiliary_snapshot b =
     \<lparr>as_max_attempts = ab_max_attempts b, as_consumed = ab_consumed b,
      as_token_refresh_attempts = ab_token_refresh_attempts b,
      as_profile_discovery_attempts = ab_profile_discovery_attempts b,
      as_exhausted = (ab_max_attempts b \<le> ab_consumed b)\<rparr>"

subsection \<open>The inference budget\<close>

record inference_attempt_budget =
  max_attempts :: u32
  budget_state :: u32
  local_attempts :: u32
  external_attempts :: u32
  mcp_attempts :: u32
  exhausted :: bool
  auxiliary :: auxiliary_attempt_budget
  started_at :: instant
  dispatch_deadline :: "instant option"
  dispatch_route :: "string option"
  empty_turn_credential_ids :: "u64 set"
  credential_dispatch_elapsed_ms :: u64
  upstream_header_wait_ms :: u64

record inference_attempt_snapshot =
  is_max_attempts :: u32
  is_consumed :: u32
  is_local_attempts :: u32
  is_external_attempts :: u32
  is_mcp_attempts :: u32
  is_exhausted :: bool
  is_downstream_committed :: bool

definition with_auxiliary_max_attempts :: "instant \<Rightarrow> u32 \<Rightarrow> u32 \<Rightarrow> inference_attempt_budget" where
  "with_auxiliary_max_attempts now max_att auxiliary_max_attempts =
     \<lparr>max_attempts = clamp MIN_INFERENCE_UPSTREAM_MAX_ATTEMPTS MAX_INFERENCE_UPSTREAM_MAX_ATTEMPTS max_att,
      budget_state = 0, local_attempts = 0, external_attempts = 0, mcp_attempts = 0,
      exhausted = False, auxiliary = auxiliary_new auxiliary_max_attempts, started_at = now,
      dispatch_deadline = None, dispatch_route = None, empty_turn_credential_ids = {},
      credential_dispatch_elapsed_ms = 0, upstream_header_wait_ms = 0\<rparr>"

text \<open>Durations are nanoseconds; the counters are milliseconds that saturate.\<close>

definition saturating_add_ms :: "u64 \<Rightarrow> duration \<Rightarrow> u64" where
  "saturating_add_ms current elapsed =
     sat_add current (word_of_nat (min (elapsed div 1000000) (2 ^ 64 - 1)))"

definition nonzero_ms :: "u64 \<Rightarrow> u64 option" where
  "nonzero_ms x = (if 0 < x then Some x else None)"

definition record_credential_dispatch_elapsed ::
    "duration \<Rightarrow> inference_attempt_budget \<Rightarrow> inference_attempt_budget" where
  "record_credential_dispatch_elapsed elapsed b =
     b\<lparr>credential_dispatch_elapsed_ms := saturating_add_ms (credential_dispatch_elapsed_ms b) elapsed\<rparr>"

definition record_upstream_header_wait ::
    "duration \<Rightarrow> inference_attempt_budget \<Rightarrow> inference_attempt_budget" where
  "record_upstream_header_wait elapsed b =
     b\<lparr>upstream_header_wait_ms := saturating_add_ms (upstream_header_wait_ms b) elapsed\<rparr>"

definition raise_max_attempts :: "u32 \<Rightarrow> inference_attempt_budget \<Rightarrow> inference_attempt_budget" where
  "raise_max_attempts required b =
     b\<lparr>max_attempts := max (max_attempts b) (min required CONSUMED_MASK)\<rparr>"

definition set_dispatch_deadline_after ::
    "duration \<Rightarrow> inference_attempt_budget \<Rightarrow> inference_attempt_budget" where
  "set_dispatch_deadline_after duration b =
     (case dispatch_deadline b of
        Some _ \<Rightarrow> b
      | None \<Rightarrow> b\<lparr>dispatch_deadline := Some (started_at b + max duration 1000000)\<rparr>)"

definition set_dispatch_route :: "string \<Rightarrow> inference_attempt_budget \<Rightarrow> inference_attempt_budget" where
  "set_dispatch_route route b =
     (case dispatch_route b of Some _ \<Rightarrow> b | None \<Rightarrow> b\<lparr>dispatch_route := Some route\<rparr>)"

definition exclude_empty_turn_credential ::
    "u64 \<Rightarrow> inference_attempt_budget \<Rightarrow> inference_attempt_budget" where
  "exclude_empty_turn_credential credential_id b =
     b\<lparr>empty_turn_credential_ids := insert credential_id (empty_turn_credential_ids b)\<rparr>"

definition dispatch_remaining :: "instant \<Rightarrow> inference_attempt_budget \<Rightarrow> duration option" where
  "dispatch_remaining now b = map_option (\<lambda>deadline. deadline - now) (dispatch_deadline b)"

definition effective_limit :: "u32 \<Rightarrow> u32 \<Rightarrow> u32" where
  "effective_limit max_att preserve_attempts =
     sat_sub max_att (min preserve_attempts (sat_sub max_att 1))"

definition reserve_cas ::
    "u32 \<Rightarrow> u32 \<Rightarrow> inference_attempt_budget \<Rightarrow>
     (inference_attempt_rejection + u32) \<times> inference_attempt_budget" where
  "reserve_cas max_att preserve_attempts b =
     (let state = budget_state b in
      if state AND DOWNSTREAM_COMMITTED_BIT \<noteq> 0 then (Inl DownstreamCommitted, b)
      else if state AND CONSUMED_MASK < effective_limit max_att preserve_attempts
      then (Inr ((state AND CONSUMED_MASK) + 1), b\<lparr>budget_state := (state AND CONSUMED_MASK) + 1\<rparr>)
      else if state AND CONSUMED_MASK < max_att then (Inl ReservedForFallback, b)
      else (Inl Exhausted, b\<lparr>exhausted := True\<rparr>))"

fun reserve_count :: "inference_attempt_kind \<Rightarrow> inference_attempt_budget \<Rightarrow> inference_attempt_budget" where
  "reserve_count LocalCredential b = b\<lparr>local_attempts := local_attempts b + 1\<rparr>"
| "reserve_count ExternalPool b = b\<lparr>external_attempts := external_attempts b + 1\<rparr>"
| "reserve_count Mcp b = b\<lparr>mcp_attempts := mcp_attempts b + 1\<rparr>"

definition reserve ::
    "inference_attempt_kind \<Rightarrow> u32 \<Rightarrow> inference_attempt_budget \<Rightarrow>
     (inference_attempt_rejection + u32) \<times> inference_attempt_budget" where
  "reserve kind preserve_attempts b =
     (case reserve_cas (max_attempts b) preserve_attempts b of
        (Inl e, b) \<Rightarrow> (Inl e, b)
      | (Inr n, b) \<Rightarrow> (Inr n, reserve_count kind b))"

definition mark_downstream_committed :: "inference_attempt_budget \<Rightarrow> inference_attempt_budget" where
  "mark_downstream_committed b = b\<lparr>budget_state := budget_state b OR DOWNSTREAM_COMMITTED_BIT\<rparr>"

definition available_attempts :: "u32 \<Rightarrow> inference_attempt_budget \<Rightarrow> u32" where
  "available_attempts preserve_attempts b =
     (let state = budget_state b in
      if state AND DOWNSTREAM_COMMITTED_BIT \<noteq> 0 then 0
      else sat_sub (sat_sub (max_attempts b) (min preserve_attempts (sat_sub (max_attempts b) 1)))
             (state AND CONSUMED_MASK))"

definition inference_snapshot :: "inference_attempt_budget \<Rightarrow> inference_attempt_snapshot" where
  "inference_snapshot b =
     (let state = budget_state b; consumed = state AND CONSUMED_MASK in
      \<lparr>is_max_attempts = max_attempts b, is_consumed = consumed,
       is_local_attempts = local_attempts b, is_external_attempts = external_attempts b,
       is_mcp_attempts = mcp_attempts b,
       is_exhausted = (max_attempts b \<le> consumed \<or> exhausted b),
       is_downstream_committed = (state AND DOWNSTREAM_COMMITTED_BIT \<noteq> 0)\<rparr>)"

subsection \<open>The two halves of the state word\<close>

definition consumed :: "inference_attempt_budget \<Rightarrow> nat" where
  "consumed b = unat (budget_state b AND CONSUMED_MASK)"

definition committed :: "inference_attempt_budget \<Rightarrow> bool" where
  "committed b \<longleftrightarrow> budget_state b AND DOWNSTREAM_COMMITTED_BIT \<noteq> 0"

lemma CONSUMED_MASK_mask: "CONSUMED_MASK = mask 31"
  by (simp add: CONSUMED_MASK_def DOWNSTREAM_COMMITTED_BIT_def mask_eq_decr_exp)

lemma consumed_take_bit: "w AND CONSUMED_MASK = take_bit 31 w"
  by (simp add: CONSUMED_MASK_mask take_bit_eq_mask)

lemma unat_CONSUMED_MASK: "unat CONSUMED_MASK = 2147483647"
  by (simp add: CONSUMED_MASK_def DOWNSTREAM_COMMITTED_BIT_def)

lemma committed_bit: "w AND DOWNSTREAM_COMMITTED_BIT \<noteq> 0 \<longleftrightarrow> bit w 31"
  by (simp add: DOWNSTREAM_COMMITTED_BIT_def bit_iff_and_push_bit_not_eq_0)

lemma unat_masked: "unat (w AND CONSUMED_MASK) = unat w mod 2147483648"
  by (simp add: consumed_take_bit take_bit_eq_mod unat_mod_distrib)

lemma masked_small: "unat w < 2147483648 \<Longrightarrow> w AND CONSUMED_MASK = w"
  by (rule word_unat_eq_iff [THEN iffD2]) (simp add: unat_masked)

lemma bit31_small: "unat (w :: u32) < 2147483648 \<Longrightarrow> \<not> bit w 31"
proof -
  assume "unat w < 2147483648"
  then have "w div 2147483648 = 0" by (intro word_unat_eq_iff [THEN iffD2]) (simp add: unat_div_distrib)
  then show ?thesis by (simp add: bit_iff_odd)
qed

lemma bit_DOWNSTREAM: "bit DOWNSTREAM_COMMITTED_BIT n \<longleftrightarrow> n = 31"
  unfolding DOWNSTREAM_COMMITTED_BIT_def by (simp only: bit_push_bit_iff bit_1_iff) auto

lemma masked_or: "(w OR DOWNSTREAM_COMMITTED_BIT) AND CONSUMED_MASK = w AND CONSUMED_MASK"
  by (rule bit_word_eqI) (auto simp: CONSUMED_MASK_mask bit_DOWNSTREAM bit_simps)

lemma masked_le: "unat (w AND CONSUMED_MASK) \<le> 2147483647"
  by (simp add: unat_masked flip: less_Suc_eq_le)

lemma unat_effective_limit:
  "unat (effective_limit m p) = unat m - min (unat p) (unat m - 1)"
  by (simp add: effective_limit_def unat_sat_sub min_def word_le_nat_alt)

lemma available_attempts_spec:
  "unat (available_attempts p b) =
   (if committed b then 0 else unat (effective_limit (max_attempts b) p) - consumed b)"
  by (simp add: available_attempts_def Let_def committed_def consumed_def unat_sat_sub effective_limit_def)

lemma DOWNSTREAM_nonzero [simp]: "DOWNSTREAM_COMMITTED_BIT \<noteq> 0"
  by (simp add: DOWNSTREAM_COMMITTED_BIT_def)

lemma mark_downstream_committed_simps [simp]:
  "consumed (mark_downstream_committed b) = consumed b"
  "committed (mark_downstream_committed b)"
  "max_attempts (mark_downstream_committed b) = max_attempts b"
  by (simp_all add: consumed_def committed_def mark_downstream_committed_def masked_or)

lemma reserve_count_simps [simp]:
  "consumed (reserve_count k b) = consumed b"
  "committed (reserve_count k b) = committed b"
  "max_attempts (reserve_count k b) = max_attempts b"
  by (cases k; simp add: consumed_def committed_def)+

lemma raise_max_attempts_simps [simp]:
  "consumed (raise_max_attempts r b) = consumed b"
  "committed (raise_max_attempts r b) = committed b"
  "max_attempts b \<le> max_attempts (raise_max_attempts r b)"
  by (simp_all add: consumed_def committed_def raise_max_attempts_def)

lemma budget_state_upd:
  "consumed (b\<lparr>budget_state := w\<rparr>) = unat w mod 2147483648"
  "committed (b\<lparr>budget_state := w\<rparr>) \<longleftrightarrow> bit w 31"
  by (simp_all add: consumed_def committed_def unat_masked committed_bit)

text \<open>The exchange on every branch, in terms of the two halves.\<close>

lemma reserve_cas_cases:
  assumes "reserve_cas m p b = (r, b')" "unat m \<le> unat CONSUMED_MASK"
  obtains (committed) "committed b" "r = Inl DownstreamCommitted" "b' = b"
    | (taken) "\<not> committed b" "consumed b < unat (effective_limit m p)"
        "r = Inr (word_of_nat (Suc (consumed b)))" "consumed b' = Suc (consumed b)"
        "\<not> committed b'" "b' = b\<lparr>budget_state := budget_state b'\<rparr>"
    | (fallback) "\<not> committed b" "unat (effective_limit m p) \<le> consumed b" "consumed b < unat m"
        "r = Inl ReservedForFallback" "b' = b"
    | (full) "\<not> committed b" "unat m \<le> consumed b" "r = Inl Exhausted" "b' = b\<lparr>exhausted := True\<rparr>"
proof -
  let ?c = "budget_state b AND CONSUMED_MASK"
  consider (c) "committed b" | (t) "\<not> committed b" "?c < effective_limit m p"
    | (f) "\<not> committed b" "\<not> ?c < effective_limit m p" "?c < m"
    | (x) "\<not> committed b" "\<not> ?c < effective_limit m p" "\<not> ?c < m" by blast
  then show thesis
  proof cases
    case c
    with assms(1) show thesis by (intro committed) (auto simp: reserve_cas_def committed_def)
  next
    case t
    then have lt: "consumed b < unat (effective_limit m p)" by (simp add: consumed_def word_less_nat_alt)
    then have small: "Suc (consumed b) < 2147483648"
      using assms(2) by (simp add: unat_effective_limit unat_CONSUMED_MASK)
    have n: "?c + 1 = word_of_nat (Suc (consumed b))" by (simp add: consumed_def)
    have u: "unat (word_of_nat (Suc (consumed b)) :: u32) = Suc (consumed b)"
      using small by (simp add: unat_of_nat take_bit_eq_mod del: of_nat_Suc)
    from assms(1) t have "r = Inr (word_of_nat (Suc (consumed b)))"
      "b' = b\<lparr>budget_state := word_of_nat (Suc (consumed b))\<rparr>"
      by (auto simp: reserve_cas_def committed_def n Let_def)
    with t(1) lt u small show thesis
      by (intro taken) (simp_all add: budget_state_upd bit31_small del: of_nat_Suc)
  next
    case f
    with assms(1) show thesis
      by (intro fallback) (auto simp: reserve_cas_def committed_def consumed_def word_less_nat_alt Let_def)
  next
    case x
    with assms(1) show thesis
      by (intro full) (auto simp: reserve_cas_def committed_def consumed_def word_less_nat_alt Let_def)
  qed
qed

subsection \<open>Bounded counters\<close>

text \<open>
  Both budgets are counters that a caller can take from until a limit: how many of a series of
  takes succeed, and that the limit is never passed, follows from three laws.
\<close>

locale bounded_counter =
  fixes take_one :: "'b \<Rightarrow> bool \<times> 'b" and used limit :: "'b \<Rightarrow> nat" and ok :: "'b \<Rightarrow> bool"
  assumes below: "ok b \<Longrightarrow> used b < limit b \<Longrightarrow> take_one b = (t, b') \<Longrightarrow>
      t \<and> used b' = Suc (used b) \<and> limit b' = limit b \<and> ok b'"
    and full: "ok b \<Longrightarrow> limit b \<le> used b \<Longrightarrow> take_one b = (t, b') \<Longrightarrow>
      \<not> t \<and> used b' = used b \<and> limit b' = limit b \<and> ok b'"
begin

fun takes :: "nat \<Rightarrow> 'b \<Rightarrow> nat \<times> 'b" where
  "takes 0 b = (0, b)"
| "takes (Suc n) b =
     (let (t, b) = take_one b; (k, b) = takes n b in (if t then Suc k else k, b))"

lemma takes_count:
  assumes "ok b" "takes n b = (k, b')"
  shows "k = min n (limit b - used b) \<and> used b' = used b + k \<and> limit b' = limit b \<and> ok b'"
  using assms
proof (induction n arbitrary: b k b')
  case (Suc n)
  obtain t b1 where t: "take_one b = (t, b1)" by fastforce
  obtain k1 where k: "takes n b1 = (k1, b')" "k = (if t then Suc k1 else k1)"
    using Suc.prems t by (auto simp: Let_def split: prod.splits)
  show ?case
  proof (cases "used b < limit b")
    case True
    from below [OF Suc.prems(1) this t] Suc.IH [OF _ k(1)] k(2) True show ?thesis
      by (auto simp: min_def)
  next
    case False
    with full [OF Suc.prems(1) _ t] Suc.IH [OF _ k(1)] k(2) show ?thesis by auto
  qed
qed simp

end

definition succeeds :: "('e + 'a) \<times> 'b \<Rightarrow> bool \<times> 'b" where
  "succeeds r = ((case fst r of Inl _ \<Rightarrow> False | Inr _ \<Rightarrow> True), snd r)"

definition auxiliary_ok :: "auxiliary_attempt_budget \<Rightarrow> bool" where
  "auxiliary_ok b \<longleftrightarrow> ab_consumed b \<le> ab_max_attempts b \<and>
     unat (ab_consumed b) = unat (ab_token_refresh_attempts b) + unat (ab_profile_discovery_attempts b)"

lemma auxiliary_counter:
  assumes "auxiliary_ok b" "ab_consumed b < ab_max_attempts b"
  shows "auxiliary_ok (auxiliary_count k (b\<lparr>ab_consumed := ab_consumed b + 1\<rparr>))"
proof -
  have c: "unat (ab_consumed b + 1) = Suc (unat (ab_consumed b))" using assms(2) by (rule unat_Suc_below)
  have lt: "unat (ab_consumed b) < unat (ab_max_attempts b)" using assms(2) by (simp add: word_less_nat_alt)
  have "unat (x + 1) = Suc (unat x)" if "unat x \<le> unat (ab_consumed b)" for x :: u32
    using lt that unat_Suc_below [of x "ab_max_attempts b"] by (simp add: word_less_nat_alt)
  then show ?thesis
    using assms(1) c lt by (cases k) (auto simp: auxiliary_ok_def word_le_nat_alt)
qed

interpretation auxiliary_counter: bounded_counter
  "\<lambda>b. succeeds (auxiliary_reserve k b)" "\<lambda>b. unat (ab_consumed b)" "\<lambda>b. unat (ab_max_attempts b)" auxiliary_ok
proof (unfold_locales, goal_cases)
  case (1 b t b')
  then have "ab_consumed b < ab_max_attempts b" by (simp add: word_less_nat_alt)
  with 1 auxiliary_counter [of b k] unat_Suc_below [of "ab_consumed b" "ab_max_attempts b"] show ?case
    by (cases k) (auto simp: succeeds_def auxiliary_reserve_def)
next
  case (2 b t b')
  then show ?case by (auto simp: succeeds_def auxiliary_reserve_def word_less_nat_alt)
qed

definition budget_ok :: "inference_attempt_budget \<Rightarrow> bool" where
  "budget_ok b \<longleftrightarrow> 1 \<le> unat (max_attempts b) \<and> unat (max_attempts b) \<le> unat CONSUMED_MASK \<and>
     consumed b \<le> unat (max_attempts b)"

lemma budget_ok_new: "budget_ok (with_auxiliary_max_attempts now m a)"
proof -
  have "clamp 1 10 m \<in> {1..10}" using clamp_bounds [of "1::u32" 10 m] by simp
  then have "1 \<le> unat (clamp 1 10 m)" "unat (clamp 1 10 m) \<le> 10"
    by (simp_all add: word_le_nat_alt)
  then show ?thesis
    by (simp add: budget_ok_def with_auxiliary_max_attempts_def consumed_def unat_CONSUMED_MASK
        MIN_INFERENCE_UPSTREAM_MAX_ATTEMPTS_def MAX_INFERENCE_UPSTREAM_MAX_ATTEMPTS_def)
qed

lemma reserve_cases:
  assumes "reserve k p b = (r, b')" "budget_ok b"
  obtains (committed) "committed b" "r = Inl DownstreamCommitted" "b' = b"
    | (taken) "\<not> committed b" "consumed b < unat (effective_limit (max_attempts b) p)"
        "r = Inr (word_of_nat (Suc (consumed b)))" "consumed b' = Suc (consumed b)"
        "\<not> committed b'" "max_attempts b' = max_attempts b" "exhausted b' = exhausted b"
    | (fallback) "\<not> committed b" "unat (effective_limit (max_attempts b) p) \<le> consumed b"
        "consumed b < unat (max_attempts b)" "r = Inl ReservedForFallback" "b' = b"
    | (full) "\<not> committed b" "unat (max_attempts b) \<le> consumed b" "r = Inl Exhausted"
        "b' = b\<lparr>exhausted := True\<rparr>"
proof -
  obtain r1 b1 where c: "reserve_cas (max_attempts b) p b = (r1, b1)" by fastforce
  have m: "unat (max_attempts b) \<le> unat CONSUMED_MASK" using assms(2) by (simp add: budget_ok_def)
  from c m show thesis
  proof (cases rule: reserve_cas_cases)
    case taken
    have "max_attempts b1 = max_attempts b" "exhausted b1 = exhausted b"
      using arg_cong [OF taken(6), of max_attempts] arg_cong [OF taken(6), of exhausted] by simp_all
    moreover have "exhausted (reserve_count k b1) = exhausted b1" by (cases k) simp_all
    ultimately show thesis
      using assms(1) c taken(1-5) by (intro that(2)) (auto simp: reserve_def)
  next
    case committed
    with assms(1) c show thesis by (intro that(1)) (auto simp: reserve_def)
  next
    case fallback
    with assms(1) c show thesis by (intro that(3)) (auto simp: reserve_def)
  next
    case full
    with assms(1) c show thesis by (intro that(4)) (auto simp: reserve_def)
  qed
qed

interpretation inference_counter: bounded_counter
  "\<lambda>b. succeeds (reserve k p b)" consumed "\<lambda>b. unat (effective_limit (max_attempts b) p)"
  "\<lambda>b. budget_ok b \<and> \<not> committed b"
proof (unfold_locales, goal_cases)
  case (1 b t b')
  obtain r where r: "reserve k p b = (r, b')" "t = (case r of Inl _ \<Rightarrow> False | Inr _ \<Rightarrow> True)"
    using 1(3) by (cases "reserve k p b") (auto simp: succeeds_def)
  have le: "unat (effective_limit (max_attempts b) p) \<le> unat (max_attempts b)"
    by (simp add: unat_effective_limit)
  from r(1) 1(1) have "budget_ok b" by simp
  with r(1) show ?case
    by (cases rule: reserve_cases) (use 1 r(2) le in \<open>auto simp: budget_ok_def\<close>)
next
  case (2 b t b')
  obtain r where r: "reserve k p b = (r, b')" "t = (case r of Inl _ \<Rightarrow> False | Inr _ \<Rightarrow> True)"
    using 2(3) by (cases "reserve k p b") (auto simp: succeeds_def)
  have x: "consumed (b\<lparr>exhausted := True\<rparr>) = consumed b" "committed (b\<lparr>exhausted := True\<rparr>) = committed b"
    by (simp_all add: consumed_def committed_def)
  from r(1) 2(1) have "budget_ok b" by simp
  with r(1) show ?case
    by (cases rule: reserve_cases) (use 2 r(2) x in \<open>auto simp: budget_ok_def\<close>)
qed

subsection \<open>Concurrent callers\<close>

text \<open>
  The budget, the callers that have read the limit but not yet exchanged the word (with the
  limit they read), and the kinds whose counter increment is still owed.
\<close>

type_synonym budget_system =
  "inference_attempt_budget \<times> (inference_attempt_kind \<times> u32 \<times> u32) list \<times> inference_attempt_kind list"

inductive budget_step :: "budget_system \<Rightarrow> budget_system \<Rightarrow> bool" where
  enter: "budget_step (b, ws, os) (b, (k, p, max_attempts b) # ws, os)"
| refused: "(k, p, m) \<in> set ws \<Longrightarrow> reserve_cas m p b = (Inl e, b') \<Longrightarrow>
    budget_step (b, ws, os) (b', remove1 (k, p, m) ws, os)"
| taken: "(k, p, m) \<in> set ws \<Longrightarrow> reserve_cas m p b = (Inr n, b') \<Longrightarrow>
    budget_step (b, ws, os) (b', remove1 (k, p, m) ws, k # os)"
| counted: "k \<in> set os \<Longrightarrow> budget_step (b, ws, os) (reserve_count k b, ws, remove1 k os)"
| commit: "budget_step (b, ws, os) (mark_downstream_committed b, ws, os)"
| raised: "budget_step (b, ws, os) (raise_max_attempts n b, ws, os)"

inductive budget_reachable :: "instant \<Rightarrow> u32 \<Rightarrow> u32 \<Rightarrow> budget_system \<Rightarrow> bool" for now m a where
  initial: "budget_reachable now m a (with_auxiliary_max_attempts now m a, [], [])"
| stepped: "budget_reachable now m a s \<Longrightarrow> budget_step s s' \<Longrightarrow> budget_reachable now m a s'"

definition counters :: "inference_attempt_budget \<Rightarrow> nat" where
  "counters b = unat (local_attempts b) + unat (external_attempts b) + unat (mcp_attempts b)"

fun budget_inv :: "budget_system \<Rightarrow> bool" where
  "budget_inv (b, ws, os) \<longleftrightarrow>
     budget_ok b \<and> (\<forall>(k, p, m) \<in> set ws. m \<le> max_attempts b) \<and>
     consumed b = counters b + length os"

lemma counters_upd [simp]:
  "counters (b\<lparr>budget_state := w\<rparr>) = counters b" "counters (b\<lparr>exhausted := e\<rparr>) = counters b"
  "counters (mark_downstream_committed b) = counters b" "counters (raise_max_attempts n b) = counters b"
  by (simp_all add: counters_def mark_downstream_committed_def raise_max_attempts_def)

lemma counters_reserve_count:
  assumes "counters b < 2147483648"
  shows "counters (reserve_count k b) = Suc (counters b)"
proof -
  have "unat (x + 1) = Suc (unat x)" if "unat x \<le> counters b" for x :: u32
    using that assms by (simp add: unat_word_ariths)
  then show ?thesis by (cases k) (simp_all add: counters_def)
qed

lemma reserve_cas_inv:
  assumes inv: "budget_inv (b, ws, os)" and r: "reserve_cas m p b = (r, b')" and m: "m \<le> max_attempts b"
  shows "budget_ok b' \<and> max_attempts b' = max_attempts b \<and>
    consumed b' = counters b' + length os + (case r of Inl _ \<Rightarrow> 0 | Inr _ \<Rightarrow> 1)"
proof -
  have ok: "budget_ok b" and c: "consumed b = counters b + length os" using inv by simp_all
  have le: "unat m \<le> unat (max_attempts b)" using m by (simp add: word_le_nat_alt)
  then have "unat m \<le> unat CONSUMED_MASK" using ok by (simp add: budget_ok_def)
  with r show ?thesis
  proof (cases rule: reserve_cas_cases)
    case taken
    have "max_attempts b' = max_attempts b" "counters b' = counters b"
      using arg_cong [OF taken(6), of max_attempts] arg_cong [OF taken(6), of counters] by simp_all
    moreover have "consumed b < unat (max_attempts b)"
      using taken(2) le by (simp add: unat_effective_limit)
    ultimately show ?thesis using taken(3,4) ok c by (simp add: budget_ok_def)
  qed (use ok c in \<open>auto simp: budget_ok_def consumed_def\<close>)
qed

lemma readers_remove1:
  "\<forall>(k, p, m) \<in> set ws. m \<le> x \<Longrightarrow> \<forall>(k, p, m) \<in> set (remove1 w ws). m \<le> (x :: u32)"
  using set_remove1_subset [of w ws] by fastforce

lemma budget_inv_step: "budget_step s s' \<Longrightarrow> budget_inv s \<Longrightarrow> budget_inv s'"
proof (induction rule: budget_step.induct)
  case (refused k p m ws b e b' os)
  then have "m \<le> max_attempts b" by auto
  from reserve_cas_inv [OF refused.prems refused(2) this] refused.prems readers_remove1 [of ws "max_attempts b" "(k, p, m)"]
  show ?case by simp
next
  case (taken k p m ws b n b' os)
  then have "m \<le> max_attempts b" by auto
  from reserve_cas_inv [OF taken.prems taken(2) this] taken.prems readers_remove1 [of ws "max_attempts b" "(k, p, m)"]
  show ?case by simp
next
  case (counted k os b ws)
  then have "counters b < 2147483648"
    by (simp add: budget_ok_def unat_CONSUMED_MASK)
  moreover have "length os = Suc (length (remove1 k os))"
    using counted(1) length_pos_if_in_set [of k os] by (simp add: length_remove1)
  ultimately show ?case
    using counted.prems counters_reserve_count [of b k] by (simp add: budget_ok_def)
next
  case (raised b ws os n)
  have "unat (max (max_attempts b) (min n CONSUMED_MASK)) \<le> unat CONSUMED_MASK"
    using raised by (simp add: budget_ok_def max_def min_def word_le_nat_alt)
  moreover have "max_attempts b \<le> max_attempts (raise_max_attempts n b)" by simp
  ultimately show ?case
    using raised by (fastforce simp: budget_ok_def raise_max_attempts_def [of n b] word_le_nat_alt
        consumed_def counters_def intro: order_trans)
qed (auto simp: budget_ok_def)

lemma budget_inv_reachable: "budget_reachable now m a s \<Longrightarrow> budget_inv s"
proof (induction rule: budget_reachable.induct)
  case initial
  show ?case using budget_ok_new
    by (simp add: with_auxiliary_max_attempts_def consumed_def counters_def)
qed (rule budget_inv_step)

subsection \<open>Properties\<close>

text \<open>C9. However many callers reserve concurrently, raise the limit or commit the response,
  the consumed attempts never exceed the limit in force, the counter never reaches the
  committed flag's bit, and the channel counters plus the increments still under way account
  for every consumed attempt.\<close>

theorem concurrent_reservations_stay_within_budget:
  assumes "budget_reachable now m a (b, ws, os)"
  shows "consumed b \<le> unat (max_attempts b) \<and> unat (max_attempts b) < 2 ^ 31 \<and>
    consumed b = unat (local_attempts b) + unat (external_attempts b) + unat (mcp_attempts b) + length os"
  using budget_inv_reachable [OF assms]
  by (simp add: budget_ok_def counters_def unat_CONSUMED_MASK)

theorem concurrent_reservations_stay_within_budget_witness:
  "consumed (mark_downstream_committed (with_auxiliary_max_attempts 0 4 2)) \<le> 4"
  using concurrent_reservations_stay_within_budget [OF budget_reachable.stepped
      [OF budget_reachable.initial budget_step.commit], of 0 4 2]
  by (simp add: with_auxiliary_max_attempts_def MIN_INFERENCE_UPSTREAM_MAX_ATTEMPTS_def
      MAX_INFERENCE_UPSTREAM_MAX_ATTEMPTS_def clamp_def)

text \<open>The outcome of a reservation is determined by the state: refused as committed once the
  response has begun; otherwise granted below the limit less the attempts kept for a fallback,
  of which at least one is always usable; otherwise refused as reserved or as exhausted; and
  the attempts reported as available are exactly those that a series of reservations gets.\<close>

theorem reserve_outcomes:
  assumes "budget_ok b" "reserve k p b = (r, b')"
  shows "(committed b \<longleftrightarrow> r = Inl DownstreamCommitted) \<and>
    (\<not> committed b \<longrightarrow>
      (consumed b < unat (max_attempts b) - min (unat p) (unat (max_attempts b) - 1) \<longrightarrow>
         r = Inr (word_of_nat (Suc (consumed b))) \<and> consumed b' = Suc (consumed b)) \<and>
      (unat (max_attempts b) - min (unat p) (unat (max_attempts b) - 1) \<le> consumed b \<and>
         consumed b < unat (max_attempts b) \<longrightarrow> r = Inl ReservedForFallback \<and> b' = b) \<and>
      (unat (max_attempts b) \<le> consumed b \<longrightarrow> r = Inl Exhausted \<and> is_exhausted (inference_snapshot b'))) \<and>
    (\<not> committed b \<longrightarrow>
      fst (bounded_counter.takes (\<lambda>b. succeeds (reserve k p b)) n b) = min n (unat (available_attempts p b)))"
proof -
  have "fst (bounded_counter.takes (\<lambda>b. succeeds (reserve k p b)) n b) =
      min n (unat (available_attempts p b))" if "\<not> committed b"
    using inference_counter.takes_count [of b k p n] assms(1) that
    by (cases "bounded_counter.takes (\<lambda>b. succeeds (reserve k p b)) n b")
       (simp add: available_attempts_spec)
  moreover from assms(2,1) have "(committed b \<longleftrightarrow> r = Inl DownstreamCommitted) \<and>
    (\<not> committed b \<longrightarrow>
      (consumed b < unat (max_attempts b) - min (unat p) (unat (max_attempts b) - 1) \<longrightarrow>
         r = Inr (word_of_nat (Suc (consumed b))) \<and> consumed b' = Suc (consumed b)) \<and>
      (unat (max_attempts b) - min (unat p) (unat (max_attempts b) - 1) \<le> consumed b \<and>
         consumed b < unat (max_attempts b) \<longrightarrow> r = Inl ReservedForFallback \<and> b' = b) \<and>
      (unat (max_attempts b) \<le> consumed b \<longrightarrow> r = Inl Exhausted \<and> is_exhausted (inference_snapshot b')))"
    by (cases rule: reserve_cases) (auto simp: unat_effective_limit inference_snapshot_def Let_def)
  ultimately show ?thesis by blast
qed

theorem reserve_outcomes_witness:
  "fst (reserve ExternalPool 1 (with_auxiliary_max_attempts 0 4 2)) = Inr 1"
  using reserve_outcomes [OF budget_ok_new, of ExternalPool 1 0 4 2
      "fst (reserve ExternalPool 1 (with_auxiliary_max_attempts 0 4 2))"
      "snd (reserve ExternalPool 1 (with_auxiliary_max_attempts 0 4 2))"]
  by (simp add: with_auxiliary_max_attempts_def MIN_INFERENCE_UPSTREAM_MAX_ATTEMPTS_def
      MAX_INFERENCE_UPSTREAM_MAX_ATTEMPTS_def clamp_def consumed_def committed_def)

end
