(* ===== verification/Rotation.thy ===== *)
theory Rotation
  imports Rust_Str
begin

text \<open>
  The rotation policy of \<open>src/kiro/retry_pipeline.rs\<close>: the plan read from the configuration and
  the cursor over accounts, endpoints and rounds, with the one place of \<open>src/kiro/provider.rs\<close>
  that moves the cursor: what the request loop decides after an attempt that the upstream answered
  with a transient error.  A \<open>Duration\<close> is in nanoseconds.
\<close>

subsection \<open>The plan\<close>

definition MAX_BERSERK_ROUNDS :: u32 where "MAX_BERSERK_ROUNDS = 10"

definition KIRO_ROTATION_REGIONS :: "string list" where
  "KIRO_ROTATION_REGIONS = [''us-east-1'', ''eu-central-1'']"

definition rotation_regions_for :: "string \<Rightarrow> string list" where
  "rotation_regions_for credential_region =
     (let region = trim credential_region in
      if region = ''eu-central-1'' \<or> starts_with region ''eu-''
      then [''eu-central-1'', ''us-east-1''] else [''us-east-1'', ''eu-central-1''])"

record rotation_config =
  local_berserk_mode_enabled :: bool
  kiro_upstream_region_rotation_enabled :: bool
  local_berserk_max_rounds :: u32
  local_berserk_round_delay_ms :: u64

record berserk_plan =
  bp_enabled :: bool
  bp_region_rotation_enabled :: bool
  bp_rounds :: u32
  bp_round_delay :: duration

definition plan_from_config :: "rotation_config \<Rightarrow> berserk_plan" where
  "plan_from_config config =
     \<lparr>bp_enabled = local_berserk_mode_enabled config,
      bp_region_rotation_enabled = kiro_upstream_region_rotation_enabled config,
      bp_rounds = clamp 1 MAX_BERSERK_ROUNDS (local_berserk_max_rounds config),
      bp_round_delay = unat (min (local_berserk_round_delay_ms config) 60000) * 1000000\<rparr>"

definition region_slots :: "berserk_plan \<Rightarrow> nat" where
  "region_slots plan = (if bp_region_rotation_enabled plan then length KIRO_ROTATION_REGIONS else 1)"

definition region_at :: "berserk_plan \<Rightarrow> string \<Rightarrow> nat \<Rightarrow> string option" where
  "region_at plan credential_region index =
     (if \<not> bp_region_rotation_enabled plan then None
      else let regions = rotation_regions_for credential_region in
        if index < length regions then Some (regions ! index) else None)"

text \<open>\<open>usize::saturating_mul\<close>.\<close>

definition usize_sat_mul :: "nat \<Rightarrow> nat \<Rightarrow> nat" where
  "usize_sat_mul a b = min (a * b) (2 ^ 64 - 1)"

definition attempt_budget :: "berserk_plan \<Rightarrow> nat \<Rightarrow> nat option" where
  "attempt_budget plan total_credentials =
     (if \<not> bp_enabled plan then None
      else let accounts = max total_credentials 1 in
        Some (min (usize_sat_mul (usize_sat_mul accounts (region_slots plan)) (unat (bp_rounds plan))) 2000))"

subsection \<open>The cursor\<close>

record rotation_cursor =
  region_index :: nat
  cursor_slots :: nat
  cursor_round :: u32
  max_rounds :: u32
  normal_region_owner :: "u64 option"
  pool_wide_regions :: bool

datatype rotation_step = NextRegion nat | NextRound u32 duration | RotationExhausted

definition cursor_new :: "berserk_plan \<Rightarrow> rotation_cursor" where
  "cursor_new plan =
     \<lparr>region_index = 0, cursor_slots = region_slots plan, cursor_round = 1,
      max_rounds = bp_rounds plan, normal_region_owner = None, pool_wide_regions = bp_enabled plan\<rparr>"

definition region_index_for :: "rotation_cursor \<Rightarrow> u64 \<Rightarrow> nat" where
  "region_index_for c credential_id =
     (case normal_region_owner c of
        Some owner \<Rightarrow> if owner \<noteq> credential_id then 0 else region_index c
      | None \<Rightarrow> region_index c)"

definition advance_region_for_normal_retry :: "u64 \<Rightarrow> rotation_cursor \<Rightarrow> nat \<times> rotation_cursor" where
  "advance_region_for_normal_retry credential_id c =
     (let c = (if 1 < cursor_slots c then
                 let current = region_index_for c credential_id in
                 c\<lparr>region_index := (current + 1) mod cursor_slots c,
                   normal_region_owner := (if \<not> pool_wide_regions c then Some credential_id else None)\<rparr>
               else c)
      in (region_index c, c))"

definition advance_after_accounts_exhausted ::
    "berserk_plan \<Rightarrow> rotation_cursor \<Rightarrow> rotation_step \<times> rotation_cursor" where
  "advance_after_accounts_exhausted plan c =
     (let c = c\<lparr>normal_region_owner := None\<rparr> in
      if region_index c + 1 < cursor_slots c
      then let c = c\<lparr>region_index := region_index c + 1\<rparr> in (NextRegion (region_index c), c)
      else if cursor_round c < max_rounds c
      then let c = c\<lparr>cursor_round := cursor_round c + 1, region_index := 0\<rparr>
           in (NextRound (cursor_round c) (bp_round_delay plan), c)
      else (RotationExhausted, c))"

subsection \<open>After a failed attempt\<close>

text \<open>
  The decision of the request loop after a 408, 429 or 5xx: what it knows of the failed attempt
  (whether another account is left after the exclusions is \<open>fa_target_available\<close>), and whether it
  tries again, after which wait, and whether the excluded accounts are taken back first.
\<close>

record failed_attempt =
  fa_attempt :: nat
  fa_max_retries :: nat
  fa_credential :: u64
  fa_rate_limited :: bool
  fa_retry_after :: bool
  fa_target_available :: bool

datatype retry_wait = Immediately | Round_delay duration | Backoff nat

datatype rotation_outcome = Give_up | Retry_with bool retry_wait

definition rotate_after_failure ::
    "berserk_plan \<Rightarrow> failed_attempt \<Rightarrow> rotation_cursor \<Rightarrow> rotation_outcome \<times> rotation_cursor" where
  "rotate_after_failure plan f c =
     (let berserk_applies = bp_enabled plan \<and> fa_rate_limited f \<and> \<not> fa_retry_after f;
          can_retry = (fa_attempt f + 1 < fa_max_retries f);
          (retry_target_available, clear_excluded, round_delay, c) =
            (if berserk_applies \<and> \<not> fa_target_available f \<and> fa_attempt f + 1 < fa_max_retries f
             then (case advance_after_accounts_exhausted plan c of
                 (NextRegion _, c) \<Rightarrow> (True, True, None, c)
               | (NextRound _ delay, c) \<Rightarrow> (True, True, Some delay, c)
               | (RotationExhausted, c) \<Rightarrow> (False, False, None, c))
             else if \<not> berserk_applies \<and> bp_region_rotation_enabled plan \<and> fa_target_available f
             then (True, False, None, snd (advance_region_for_normal_retry (fa_credential f) c))
             else (fa_target_available f, False, None, c))
      in (if can_retry \<and> retry_target_available
          then Retry_with clear_excluded
            (case round_delay of
               Some delay \<Rightarrow> if delay = 0 then Immediately else Round_delay delay
             | None \<Rightarrow> if berserk_applies then Immediately else Backoff (fa_attempt f))
          else Give_up, c))"

text \<open>
  A request whose attempts all fail this way: the place (round and endpoint index) each attempt is
  sent to, until the loop gives up.
\<close>

definition place_of :: "rotation_cursor \<Rightarrow> u64 \<Rightarrow> nat \<times> nat" where
  "place_of c credential_id = (unat (cursor_round c), region_index_for c credential_id)"

fun failing_run :: "berserk_plan \<Rightarrow> failed_attempt list \<Rightarrow> rotation_cursor \<Rightarrow> (nat \<times> nat) list" where
  "failing_run plan [] c = []"
| "failing_run plan (f # fs) c = place_of c (fa_credential f) #
     (case rotate_after_failure plan f c of
        (Give_up, _) \<Rightarrow> []
      | (Retry_with _ _, c') \<Rightarrow> failing_run plan fs c')"

definition plain_429 :: "failed_attempt \<Rightarrow> bool" where
  "plain_429 f \<longleftrightarrow> fa_rate_limited f \<and> \<not> fa_retry_after f"

definition exhausted_passes :: "failed_attempt list \<Rightarrow> nat" where
  "exhausted_passes fs = length (filter (\<lambda>f. \<not> fa_target_available f) fs)"

subsection \<open>The places of a plan\<close>

definition places_left :: "rotation_cursor \<Rightarrow> (nat \<times> nat) list" where
  "places_left c =
     map (Pair (unat (cursor_round c))) [region_index c..<cursor_slots c] @
     List.product [Suc (unat (cursor_round c))..<Suc (unat (max_rounds c))] [0..<cursor_slots c]"

definition cursor_ok :: "rotation_cursor \<Rightarrow> bool" where
  "cursor_ok c \<longleftrightarrow> region_index c < cursor_slots c \<and> cursor_round c \<le> max_rounds c \<and> 1 \<le> cursor_round c"

lemma product_Cons_upt:
  "a < b \<Longrightarrow> List.product [a..<b] ys = map (Pair a) ys @ List.product [Suc a..<b] ys"
  by (simp add: upt_conv_Cons)

lemma advance_cases:
  assumes "cursor_ok c" "advance_after_accounts_exhausted plan c = (s, c')"
  obtains (region) "s = NextRegion (region_index c')" "cursor_ok c'"
      "places_left c = (unat (cursor_round c), region_index c) # places_left c'"
    | (round) "s = NextRound (cursor_round c') (bp_round_delay plan)" "cursor_ok c'"
      "places_left c = (unat (cursor_round c), region_index c) # places_left c'"
    | (finished) "s = RotationExhausted" "places_left c = [(unat (cursor_round c), region_index c)]"
proof -
  consider (r) "region_index c + 1 < cursor_slots c"
    | (d) "region_index c + 1 = cursor_slots c" "cursor_round c < max_rounds c"
    | (e) "region_index c + 1 = cursor_slots c" "cursor_round c = max_rounds c"
    using assms(1) by (cases "Suc (region_index c) < cursor_slots c") (auto simp: cursor_ok_def le_less)
  then show thesis
  proof cases
    case r
    then show thesis
      using assms by (intro region)
        (auto simp: advance_after_accounts_exhausted_def Let_def cursor_ok_def places_left_def upt_conv_Cons)
  next
    case d
    then have u: "unat (cursor_round c + 1) = Suc (unat (cursor_round c))"
      using unsigned_less [of "max_rounds c", where ?'a = nat]
      by (simp add: word_less_nat_alt unat_word_ariths)
    from d(2) have lt: "unat (cursor_round c) < unat (max_rounds c)" by (simp add: word_less_nat_alt)
    from d assms u lt show thesis
      by (intro round) (auto simp: advance_after_accounts_exhausted_def Let_def cursor_ok_def
          places_left_def upt_conv_Cons word_le_nat_alt product_Cons_upt simp del: upt_Suc)
  next
    case e
    with assms show thesis
      by (intro finished) (auto simp: advance_after_accounts_exhausted_def Let_def places_left_def
          upt_conv_Cons cursor_ok_def)
  qed
qed

text \<open>The cursor never leaves the plan, whichever way it is moved.\<close>

definition cursor_in :: "berserk_plan \<Rightarrow> rotation_cursor \<Rightarrow> bool" where
  "cursor_in plan c \<longleftrightarrow> cursor_ok c \<and> cursor_slots c = region_slots plan \<and> max_rounds c = bp_rounds plan"

lemma advance_keeps:
  assumes "cursor_in plan c" "advance_after_accounts_exhausted plan c = (s, c')"
  shows "cursor_in plan c' \<and> cursor_round c \<le> cursor_round c' \<and> normal_region_owner c' = None"
proof -
  have le: "cursor_round c \<le> cursor_round c + 1" if "cursor_round c < m" for m
    using that unsigned_less [of m, where ?'a = nat]
    by (simp add: word_le_nat_alt word_less_nat_alt unat_word_ariths)
  have fields: "cursor_slots c' = cursor_slots c" "max_rounds c' = max_rounds c"
    "normal_region_owner c' = None" "cursor_round c \<le> cursor_round c'"
    using assms(2) le by (auto simp: advance_after_accounts_exhausted_def Let_def split: if_splits)
  moreover have "cursor_ok c'"
    using assms
    by (auto simp: cursor_in_def cursor_ok_def advance_after_accounts_exhausted_def Let_def inc_le
        split: if_splits intro: order_trans [OF _ le])
  ultimately show ?thesis using assms(1) by (simp add: cursor_in_def)
qed

lemma normal_retry_keeps:
  assumes "cursor_in plan c"
  shows "cursor_in plan (snd (advance_region_for_normal_retry i c)) \<and>
    cursor_round (snd (advance_region_for_normal_retry i c)) = cursor_round c"
  using assms by (auto simp: advance_region_for_normal_retry_def Let_def cursor_in_def cursor_ok_def)

lemma rotate_keeps:
  assumes "cursor_in plan c" "rotate_after_failure plan f c = (r, c')"
  shows "cursor_in plan c' \<and> cursor_round c \<le> cursor_round c'"
  using assms advance_keeps [OF assms(1)] normal_retry_keeps [OF assms(1)]
  by (auto simp: rotate_after_failure_def Let_def split: if_splits prod.splits rotation_step.splits)

lemma failing_run_places:
  assumes "cursor_in plan c"
  shows "(\<forall>(r, i) \<in> set (failing_run plan fs c).
      unat (cursor_round c) \<le> r \<and> r \<le> unat (bp_rounds plan) \<and> i < region_slots plan) \<and>
    sorted (map fst (failing_run plan fs c))"
  using assms
proof (induction fs arbitrary: c)
  case (Cons f fs)
  obtain i where p: "place_of c (fa_credential f) = (unat (cursor_round c), i)" "i < region_slots plan"
    and le: "unat (cursor_round c) \<le> unat (bp_rounds plan)"
    using Cons.prems
    by (auto simp: place_of_def region_index_for_def cursor_in_def cursor_ok_def word_le_nat_alt
        split: option.splits)
  obtain r c' where step: "rotate_after_failure plan f c = (r, c')" by (rule prod.exhaust)
  have keeps: "cursor_in plan c'" "unat (cursor_round c) \<le> unat (cursor_round c')"
    using rotate_keeps [OF Cons.prems step] by (simp_all add: word_le_nat_alt)
  have rest: "unat (cursor_round c) \<le> x \<and> x \<le> unat (bp_rounds plan) \<and> y < region_slots plan"
    if "(x, y) \<in> set (failing_run plan fs c')" for x y
    using Cons.IH [OF keeps(1)] that keeps(2) by fastforce
  have "sorted (map fst (failing_run plan fs c'))" using Cons.IH [OF keeps(1)] by simp
  with rest p le step show ?case by (cases r) auto
qed simp

text \<open>When every failure is a plain 429 the attempts go through the places in order.\<close>

lemma rotate_plain:
  assumes "bp_enabled plan" "plain_429 f"
  shows "rotate_after_failure plan f c =
    (if \<not> fa_attempt f + 1 < fa_max_retries f then (Give_up, c)
     else if fa_target_available f then (Retry_with False Immediately, c)
     else case advance_after_accounts_exhausted plan c of
         (NextRegion _, c') \<Rightarrow> (Retry_with True Immediately, c')
       | (NextRound _ d, c') \<Rightarrow> (Retry_with True (if d = 0 then Immediately else Round_delay d), c')
       | (RotationExhausted, c') \<Rightarrow> (Give_up, c'))"
  using assms
  by (auto simp: rotate_after_failure_def plain_429_def Let_def split: prod.splits rotation_step.splits)

definition follows_places :: "(nat \<times> nat) list \<Rightarrow> failed_attempt list \<Rightarrow> (nat \<times> nat) list \<Rightarrow> bool" where
  "follows_places todo fs places \<longleftrightarrow> length places \<le> length fs \<and>
     (\<forall>k<length places. exhausted_passes (take k fs) < length todo \<and>
        places ! k = todo ! exhausted_passes (take k fs)) \<and>
     (length places < length fs \<longrightarrow> (\<exists>f. places \<noteq> [] \<and> f = fs ! (length places - 1) \<and>
        (fa_max_retries f \<le> fa_attempt f + 1 \<or>
         exhausted_passes (take (length places) fs) = length todo)))"

lemma follows_places_stop:
  assumes "fa_max_retries f \<le> fa_attempt f + 1 \<or> \<not> fa_target_available f \<and> ps = []"
  shows "follows_places (p # ps) (f # fs) [p]"
  using assms by (auto simp: follows_places_def exhausted_passes_def)

lemma follows_places_same:
  assumes "follows_places (p # ps) fs places" "fa_target_available f"
  shows "follows_places (p # ps) (f # fs) (p # places)"
  unfolding follows_places_def
proof (intro conjI allI impI)
  fix k assume "k < length (p # places)"
  then show "exhausted_passes (take k (f # fs)) < length (p # ps)"
    "(p # places) ! k = (p # ps) ! exhausted_passes (take k (f # fs))"
    using assms by (cases k; simp add: follows_places_def exhausted_passes_def)+
next
  assume "length (p # places) < length (f # fs)"
  then show "\<exists>g. p # places \<noteq> [] \<and> g = (f # fs) ! (length (p # places) - 1) \<and>
      (fa_max_retries g \<le> fa_attempt g + 1 \<or>
       exhausted_passes (take (length (p # places)) (f # fs)) = length (p # ps))"
    using assms by (auto simp: follows_places_def exhausted_passes_def nth_Cons')
qed (use assms in \<open>simp add: follows_places_def\<close>)

lemma follows_places_next:
  assumes "follows_places ps fs places" "\<not> fa_target_available f"
  shows "follows_places (p # ps) (f # fs) (p # places)"
  unfolding follows_places_def
proof (intro conjI allI impI)
  fix k assume "k < length (p # places)"
  then show "exhausted_passes (take k (f # fs)) < length (p # ps)"
    "(p # places) ! k = (p # ps) ! exhausted_passes (take k (f # fs))"
    using assms by (cases k; simp add: follows_places_def exhausted_passes_def)+
next
  assume "length (p # places) < length (f # fs)"
  then show "\<exists>g. p # places \<noteq> [] \<and> g = (f # fs) ! (length (p # places) - 1) \<and>
      (fa_max_retries g \<le> fa_attempt g + 1 \<or>
       exhausted_passes (take (length (p # places)) (f # fs)) = length (p # ps))"
    using assms by (auto simp: follows_places_def exhausted_passes_def nth_Cons')
qed (use assms in \<open>simp add: follows_places_def\<close>)

lemma failing_run_plain:
  assumes "bp_enabled plan" "cursor_ok c" "normal_region_owner c = None" "list_all plain_429 fs"
  shows "follows_places (places_left c) fs (failing_run plan fs c)"
  using assms(2-)
proof (induction fs arbitrary: c)
  case Nil
  then show ?case by (simp add: follows_places_def)
next
  case (Cons f fs)
  let ?p = "place_of c (fa_credential f)"
  have p: "?p = (unat (cursor_round c), region_index c)"
    using Cons.prems by (simp add: place_of_def region_index_for_def)
  obtain s c' where adv: "advance_after_accounts_exhausted plan c = (s, c')" by (rule prod.exhaust)
  have owner: "normal_region_owner c' = None"
    using adv by (auto simp: advance_after_accounts_exhausted_def Let_def split: if_splits)
  note run = rotate_plain [OF assms(1), of f c]
  have plain: "plain_429 f" "list_all plain_429 fs" using Cons.prems by simp_all
  from Cons.prems(1) adv obtain ps where ps: "places_left c = ?p # ps"
    unfolding p by (rule advance_cases) auto
  show ?case
  proof (cases "fa_attempt f + 1 < fa_max_retries f")
    case False
    with run plain ps show ?thesis by (simp add: follows_places_stop)
  next
    case more: True
    show ?thesis
    proof (cases "fa_target_available f")
      case True
      then show ?thesis
        using run plain more ps Cons.IH [OF Cons.prems(1,2) plain(2)] by (simp add: follows_places_same)
    next
      case False
      note next_place = follows_places_next [OF Cons.IH [OF _ owner plain(2)] False]
      from Cons.prems(1) adv show ?thesis
      proof (cases rule: advance_cases)
        case region
        with next_place [of ?p] show ?thesis using run plain more False adv p by simp
      next
        case round
        with next_place [of ?p] show ?thesis using run plain more False adv p by simp
      next
        case finished
        then show ?thesis using run plain more False adv p by (simp add: follows_places_stop)
      qed
    qed
  qed
qed

lemma bp_rounds_bounds: "1 \<le> unat (bp_rounds (plan_from_config cfg)) \<and> unat (bp_rounds (plan_from_config cfg)) \<le> 10"
proof -
  have "1 \<le> bp_rounds (plan_from_config cfg) \<and> bp_rounds (plan_from_config cfg) \<le> 10"
    using clamp_bounds [of "1::u32" 10] by (simp add: plan_from_config_def MAX_BERSERK_ROUNDS_def)
  then show ?thesis by (simp add: word_le_nat_alt)
qed

lemma region_slots_bounds: "region_slots plan \<in> {1, 2}"
  by (simp add: region_slots_def KIRO_ROTATION_REGIONS_def)

lemma cursor_new_ok: "cursor_ok (cursor_new (plan_from_config cfg))"
  using bp_rounds_bounds [of cfg] region_slots_bounds [of "plan_from_config cfg"]
  by (auto simp: cursor_ok_def cursor_new_def word_le_nat_alt)

lemma places_left_new:
  "places_left (cursor_new (plan_from_config cfg)) =
   List.product [1..<Suc (unat (bp_rounds (plan_from_config cfg)))] [0..<region_slots (plan_from_config cfg)]"
  using bp_rounds_bounds [of cfg]
  by (simp add: places_left_def cursor_new_def product_Cons_upt del: upt_Suc)

lemma budget_of_places:
  assumes "1 \<le> unat (bp_rounds plan)" "bp_enabled plan" "0 < accounts"
  shows "attempt_budget plan accounts =
    Some (min 2000 (accounts * (unat (bp_rounds plan) * region_slots plan)))"
proof -
  let ?a = accounts and ?b = "region_slots plan" and ?c = "unat (bp_rounds plan)"
  have "min (usize_sat_mul (usize_sat_mul ?a ?b) ?c) 2000 = min 2000 (?a * (?c * ?b))"
  proof (cases "?a * ?b \<le> 2 ^ 64 - 1")
    case True
    then show ?thesis by (simp add: usize_sat_mul_def min_def mult.assoc mult.commute mult.left_commute)
  next
    case False
    have "?a * ?b * 1 \<le> ?a * ?b * ?c" using assms(1) by (intro mult_le_mono2)
    moreover have "?a * (?c * ?b) = ?a * ?b * ?c" by simp
    moreover have "2000 \<le> ?a * ?b * 1" using False by simp
    ultimately have big: "2000 \<le> ?a * (?c * ?b)" by (metis order_trans)
    have "(2 ^ 64 - 1 :: nat) * 1 \<le> (2 ^ 64 - 1) * ?c" using assms(1) by (intro mult_le_mono2)
    with False have "2000 \<le> usize_sat_mul (usize_sat_mul ?a ?b) ?c" by (simp add: usize_sat_mul_def)
    with big show ?thesis by (simp add: min_absorb1 min_absorb2)
  qed
  then show ?thesis using assms by (simp add: attempt_budget_def Let_def max_absorb1 Suc_le_eq)
qed

subsection \<open>Properties\<close>

text \<open>C35. A request whose attempts are answered with transient errors follows its rotation plan.
  Whatever mixture of 408, 429 and 5xx it meets, every attempt is sent in a round between one and
  the number of the plan, at most ten, and to an endpoint of the plan, and the rounds never go
  back.  When all the errors are plain 429s in berserk mode, the attempts go through the places
  of the plan, the endpoints within the rounds, in order: an attempt is sent to the next place
  exactly when no account was left at the one before, and the request is given up before its
  attempts run out only when no account is left at the last place.  In berserk mode the budget
  allows every account once at every place, up to the cap of 2000.\<close>

theorem rotation_follows_its_plan:
  fixes fs :: "failed_attempt list"
  assumes "plan = plan_from_config cfg"
  defines "places \<equiv> failing_run plan fs (cursor_new plan)"
    and "all_places \<equiv> List.product [1..<Suc (unat (bp_rounds plan))] [0..<region_slots plan]"
  shows "(\<forall>(r, i) \<in> set places. 1 \<le> r \<and> r \<le> unat (bp_rounds plan) \<and> r \<le> 10 \<and> i < region_slots plan \<and>
      (bp_region_rotation_enabled plan \<longrightarrow> region_at plan region i \<noteq> None)) \<and>
    sorted (map fst places) \<and>
    (bp_enabled plan \<and> list_all plain_429 fs \<longrightarrow> follows_places all_places fs places) \<and>
    (bp_enabled plan \<and> 0 < accounts \<longrightarrow>
      attempt_budget plan accounts = Some (min 2000 (accounts * length all_places)))"
proof -
  let ?c = "cursor_new plan"
  have ok: "cursor_ok ?c" and rounds: "1 \<le> unat (bp_rounds plan)" "unat (bp_rounds plan) \<le> 10"
    using cursor_new_ok [of cfg] bp_rounds_bounds [of cfg] by (simp_all add: assms(1))
  then have "cursor_in plan ?c" by (simp add: cursor_in_def cursor_new_def)
  note general = failing_run_places [OF this, of fs]
  have "region_at plan region i \<noteq> None" if "bp_region_rotation_enabled plan" "i < region_slots plan" for i
    using that by (auto simp: region_at_def region_slots_def rotation_regions_for_def
        KIRO_ROTATION_REGIONS_def Let_def)
  with general rounds have "\<forall>(r, i) \<in> set places. 1 \<le> r \<and> r \<le> unat (bp_rounds plan) \<and> r \<le> 10 \<and>
      i < region_slots plan \<and> (bp_region_rotation_enabled plan \<longrightarrow> region_at plan region i \<noteq> None)"
    by (fastforce simp: places_def cursor_new_def)
  moreover have "follows_places all_places fs places" if "bp_enabled plan" "list_all plain_429 fs"
    using failing_run_plain [OF that(1) ok _ that(2)] places_left_new [of cfg]
    by (simp add: assms(1) places_def all_places_def cursor_new_def del: upt_Suc)
  ultimately show ?thesis
    using general budget_of_places [of plan accounts] rounds
    by (simp add: places_def all_places_def mult.commute del: upt_Suc)
qed

definition failed_429 :: "nat \<Rightarrow> u64 \<Rightarrow> bool \<Rightarrow> failed_attempt" where
  "failed_429 k cid left = \<lparr>fa_attempt = k, fa_max_retries = 8, fa_credential = cid,
     fa_rate_limited = True, fa_retry_after = False, fa_target_available = left\<rparr>"

definition two_rounds :: rotation_config where
  "two_rounds = \<lparr>local_berserk_mode_enabled = True, kiro_upstream_region_rotation_enabled = True,
     local_berserk_max_rounds = 2, local_berserk_round_delay_ms = 5\<rparr>"

lemma two_rounds_run:
  "failing_run (plan_from_config two_rounds) [failed_429 0 1 True, failed_429 1 2 False,
     failed_429 2 2 True, failed_429 3 1 False, failed_429 4 1 True] (cursor_new (plan_from_config two_rounds)) =
   [(1, 0), (1, 0), (1, 1), (1, 1), (2, 0)]"
  by (simp add: rotate_after_failure_def failed_429_def two_rounds_def plan_from_config_def cursor_new_def
      MAX_BERSERK_ROUNDS_def clamp_def region_slots_def KIRO_ROTATION_REGIONS_def place_of_def
      region_index_for_def advance_after_accounts_exhausted_def Let_def)

theorem rotation_follows_its_plan_witness:
  "follows_places (List.product [1..<3] [0..<2])
     [failed_429 0 1 True, failed_429 1 2 False, failed_429 2 2 True, failed_429 3 1 False, failed_429 4 1 True]
     [(1, 0), (1, 0), (1, 1), (1, 1), (2, 0)]"
proof -
  let ?fs = "[failed_429 0 1 True, failed_429 1 2 False, failed_429 2 2 True, failed_429 3 1 False,
    failed_429 4 1 True]"
  have "bp_enabled (plan_from_config two_rounds)" "list_all plain_429 ?fs"
    "Suc (unat (bp_rounds (plan_from_config two_rounds))) = 3"
    "region_slots (plan_from_config two_rounds) = 2"
    by (simp_all add: plan_from_config_def two_rounds_def plain_429_def failed_429_def clamp_def
        MAX_BERSERK_ROUNDS_def region_slots_def KIRO_ROTATION_REGIONS_def)
  then show ?thesis
    using rotation_follows_its_plan [OF refl, of two_rounds ?fs]
    unfolding two_rounds_run by (simp del: upt_rec_numeral)
qed

text \<open>Outside berserk mode an endpoint switch belongs to the account that failed: that account
  is sent to the next endpoint of its own order, any other account to its own primary one, and
  with rotation off the index stays at the account's primary endpoint.\<close>

theorem endpoint_switch_belongs_to_the_account:
  assumes "cursor_ok c" "\<not> pool_wide_regions c"
    and "advance_region_for_normal_retry cid c = (i, c')"
  shows "cursor_ok c' \<and> i = region_index_for c' cid \<and>
    (1 < cursor_slots c \<longrightarrow> i = (region_index_for c cid + 1) mod cursor_slots c \<and>
      (\<forall>other. other \<noteq> cid \<longrightarrow> region_index_for c' other = 0)) \<and>
    (cursor_slots c = 1 \<longrightarrow> c' = c \<and> i = 0)"
  using assms
  by (auto simp: advance_region_for_normal_retry_def Let_def cursor_ok_def region_index_for_def
      split: if_splits option.splits)

theorem endpoint_switch_belongs_to_the_account_witness:
  "let c = snd (advance_region_for_normal_retry 7 (cursor_new (plan_from_config
      \<lparr>local_berserk_mode_enabled = False, kiro_upstream_region_rotation_enabled = True,
       local_berserk_max_rounds = 0, local_berserk_round_delay_ms = 0\<rparr>)))
   in region_index_for c 7 = 1 \<and> region_index_for c 8 = 0"
  using endpoint_switch_belongs_to_the_account [OF cursor_new_ok [of
      "\<lparr>local_berserk_mode_enabled = False, kiro_upstream_region_rotation_enabled = True,
       local_berserk_max_rounds = 0, local_berserk_round_delay_ms = 0\<rparr>"], of 7]
  by (simp add: cursor_new_def plan_from_config_def region_slots_def KIRO_ROTATION_REGIONS_def
      advance_region_for_normal_retry_def Let_def region_index_for_def)

end
