(* ===== verification/Tool_Pairing.thy ===== *)
theory Tool_Pairing
  imports Rust_Str
begin

text \<open>
  The repair of tool-use histories in \<open>src/anthropic/converter/tool_pairing.rs\<close> and its use in
  \<open>src/anthropic/converter.rs\<close>: Kiro refuses a conversation in which a tool use has no result in
  the next message or a result has no tool use in the previous one.

  The messages are the records of \<open>src/kiro/model/requests\<close>; JSON values, tool specifications
  and signed reasoning, which the code only copies, have the type variable \<open>'j\<close>.  A \<open>HashSet\<close> is
  a set; nothing depends on its order but the sequence of log lines, which are not modelled.
\<close>

subsection \<open>Messages\<close>

record 'j tool_result =
  tr_tool_use_id :: string
  tr_content :: "'j list"
  tr_status :: "string option"
  tr_is_error :: bool

record 'j tool_use_entry =
  tu_tool_use_id :: string
  tu_name :: string
  tu_input :: 'j

record kiro_image =
  ki_format :: string
  ki_source_bytes :: "string option"

record 'j user_input_message_context =
  tool_results :: "'j tool_result list"
  tools :: "'j list"

record 'j user_message =
  um_content :: string
  um_model_id :: string
  um_origin :: "string option"
  um_images :: "kiro_image list"
  um_context :: "'j user_input_message_context"

record 'j assistant_message =
  am_content :: string
  am_tool_uses :: "'j tool_use_entry list option"
  am_reasoning_content :: "'j option"

datatype 'j message = User "'j user_message" | Assistant "'j assistant_message"

record proxy_warnings =
  prefill_dropped :: u32
  orphan_tool_results :: u32
  orphan_tool_results_textified :: u32
  orphan_tool_uses :: u32
  duplicate_tool_results :: u32
  duplicate_tool_results_textified :: u32
  tool_result_content_placeholders :: u32
  empty_content_placeholders :: u32
  sanitized_assistant_history_leaks :: u32
  sanitized_assistant_history_leak_chars :: u32

definition EMPTY_USER_CONTENT_PLACEHOLDER :: string where "EMPTY_USER_CONTENT_PLACEHOLDER = ''.''"

definition user_results :: "'j user_message \<Rightarrow> 'j tool_result list" where
  "user_results u = tool_results (um_context u)"

definition assistant_use_ids :: "'j assistant_message \<Rightarrow> string list" where
  "assistant_use_ids a = (case am_tool_uses a of Some uses \<Rightarrow> map tu_tool_use_id uses | None \<Rightarrow> [])"

subsection \<open>Sanitising the history\<close>

fun retain_results ::
    "string set \<Rightarrow> string set \<Rightarrow> 'j tool_result list \<Rightarrow> proxy_warnings \<Rightarrow> 'j tool_result list \<times> proxy_warnings"
  where
  "retain_results valid seen [] w = ([], w)"
| "retain_results valid seen (r # rs) w =
     (if tr_tool_use_id r \<notin> valid
      then retain_results valid seen rs (w\<lparr>orphan_tool_results := sat_add (orphan_tool_results w) 1\<rparr>)
      else if tr_tool_use_id r \<in> seen
      then retain_results valid seen rs
             (w\<lparr>duplicate_tool_results := sat_add (duplicate_tool_results w) 1\<rparr>)
      else case retain_results valid (insert (tr_tool_use_id r) seen) rs w of
          (kept, w) \<Rightarrow> (r # kept, w))"

definition sanitize_user ::
    "string set \<Rightarrow> 'j user_message \<Rightarrow> proxy_warnings \<Rightarrow> 'j user_message \<times> proxy_warnings" where
  "sanitize_user valid u w =
     (let results = user_results u in
      if results = [] then (u, w)
      else case retain_results valid {} results w of
        (kept, w) \<Rightarrow>
          let u = u\<lparr>um_context := (um_context u)\<lparr>tool_results := kept\<rparr>\<rparr> in
          (if kept = [] \<and> trim (um_content u) = []
           then u\<lparr>um_content := EMPTY_USER_CONTENT_PLACEHOLDER\<rparr> else u, w))"

text \<open>
  The loop over the indices: the ids that a message may answer are those of the message before
  it, which is an assistant message the loop does not change.
\<close>

fun sanitize_from ::
    "string set \<Rightarrow> 'j message list \<Rightarrow> proxy_warnings \<Rightarrow> 'j message list \<times> proxy_warnings" where
  "sanitize_from valid [] w = ([], w)"
| "sanitize_from valid (Assistant a # ms) w =
     (case sanitize_from (set (assistant_use_ids a)) ms w of (ms, w) \<Rightarrow> (Assistant a # ms, w))"
| "sanitize_from valid (User u # ms) w =
     (case sanitize_user valid u w of (u, w) \<Rightarrow>
        case sanitize_from {} ms w of (ms, w) \<Rightarrow> (User u # ms, w))"

definition sanitize_history_tool_results ::
    "'j message list \<Rightarrow> proxy_warnings \<Rightarrow> 'j message list \<times> proxy_warnings" where
  "sanitize_history_tool_results history w = sanitize_from {} history w"

subsection \<open>Validating the pairing\<close>

record pairing_scan =
  all_tool_use_ids :: "string set"
  history_tool_result_ids :: "string set"
  unpaired_tool_use_ids :: "string set"
  pending_assistant_tool_use_ids :: "string list option"

definition scan_start :: pairing_scan where
  "scan_start = \<lparr>all_tool_use_ids = {}, history_tool_result_ids = {}, unpaired_tool_use_ids = {},
     pending_assistant_tool_use_ids = None\<rparr>"

definition pending_ids :: "pairing_scan \<Rightarrow> string set" where
  "pending_ids s = (case pending_assistant_tool_use_ids s of Some ids \<Rightarrow> set ids | None \<Rightarrow> {})"

fun scan_message :: "'j message \<Rightarrow> pairing_scan \<Rightarrow> pairing_scan" where
  "scan_message (Assistant a) s =
     (let s = s\<lparr>unpaired_tool_use_ids := unpaired_tool_use_ids s \<union> pending_ids s,
                pending_assistant_tool_use_ids := None\<rparr> in
      case am_tool_uses a of
        None \<Rightarrow> s
      | Some uses \<Rightarrow>
          let ids = map tu_tool_use_id uses;
              s = s\<lparr>all_tool_use_ids := all_tool_use_ids s \<union> set ids\<rparr>
          in if ids = [] then s else s\<lparr>pending_assistant_tool_use_ids := Some ids\<rparr>)"
| "scan_message (User u) s =
     (let paired_ids = set (map tr_tool_use_id (user_results u))
      in s\<lparr>history_tool_result_ids := history_tool_result_ids s \<union> paired_ids,
           unpaired_tool_use_ids := unpaired_tool_use_ids s \<union> (pending_ids s - paired_ids),
           pending_assistant_tool_use_ids := None\<rparr>)"

text \<open>
  The loop over the results of the current message: the kept results, the ids still unpaired,
  the ids that were paired, and the warnings.
\<close>

fun match_results ::
    "string set \<Rightarrow> string set \<Rightarrow> 'j tool_result list \<Rightarrow> string set \<Rightarrow> proxy_warnings \<Rightarrow>
     'j tool_result list \<times> string set \<times> string set \<times> proxy_warnings" where
  "match_results current seen [] unpaired w = ([], unpaired, {}, w)"
| "match_results current seen (r # rs) unpaired w =
     (let i = tr_tool_use_id r in
      if i \<in> current \<and> i \<notin> seen then
        (case match_results current (insert i seen) rs (unpaired - {i}) w of
           (kept, unpaired, paired, w) \<Rightarrow> (r # kept, unpaired, insert i paired, w))
      else if i \<in> current then
        match_results current seen rs unpaired
          (w\<lparr>duplicate_tool_results := sat_add (duplicate_tool_results w) 1\<rparr>)
      else
        match_results current seen rs unpaired
          (w\<lparr>orphan_tool_results := sat_add (orphan_tool_results w) 1\<rparr>))"

definition count_orphans :: "string set \<Rightarrow> proxy_warnings \<Rightarrow> proxy_warnings" where
  "count_orphans ids w = w\<lparr>orphan_tool_uses := ((\<lambda>n. sat_add n 1) ^^ card ids) (orphan_tool_uses w)\<rparr>"

definition validate_tool_pairing ::
    "'j message list \<Rightarrow> 'j tool_result list \<Rightarrow> proxy_warnings \<Rightarrow>
     'j tool_result list \<times> string set \<times> proxy_warnings" where
  "validate_tool_pairing history results w =
     (let s = fold scan_message history scan_start;
          current = pending_ids s;
          unpaired = unpaired_tool_use_ids s \<union> current
      in case match_results current {} results unpaired w of
           (kept, unpaired, paired, w) \<Rightarrow>
             let unpaired = unpaired - paired;
                 unpaired = unpaired \<union> (current - paired)
             in (kept, unpaired, count_orphans unpaired w))"

subsection \<open>Removing orphaned uses\<close>

definition remove_from_assistant :: "string set \<Rightarrow> 'j assistant_message \<Rightarrow> 'j assistant_message" where
  "remove_from_assistant orphans a =
     (case am_tool_uses a of
        None \<Rightarrow> a
      | Some uses \<Rightarrow>
          let uses = filter (\<lambda>u. tu_tool_use_id u \<notin> orphans) uses
          in if uses = [] then a\<lparr>am_tool_uses := None\<rparr> else a\<lparr>am_tool_uses := Some uses\<rparr>)"

definition remove_orphaned_tool_uses :: "'j message list \<Rightarrow> string set \<Rightarrow> 'j message list" where
  "remove_orphaned_tool_uses history orphans =
     (if orphans = {} then history
      else map (\<lambda>m. case m of Assistant a \<Rightarrow> Assistant (remove_from_assistant orphans a) | User u \<Rightarrow> User u)
             history)"

subsection \<open>The step of the conversion\<close>

definition PAIRING_ERROR :: string where
  "PAIRING_ERROR = ''tool_use/tool_result history is not strictly paired''"

definition pair_tools ::
    "bool \<Rightarrow> bool \<Rightarrow> 'j message list \<Rightarrow> 'j tool_result list \<Rightarrow> proxy_warnings \<Rightarrow>
     string + 'j message list \<times> 'j tool_result list \<times> proxy_warnings" where
  "pair_tools repair strict history results w =
     (let (history, w) = (if repair \<or> strict then sanitize_history_tool_results history w else (history, w));
          (validated, orphans, w) =
            (if repair \<or> strict then validate_tool_pairing history results w else (results, {}, w))
      in if strict \<and> (0 < orphan_tool_results w \<or> 0 < orphan_tool_uses w \<or>
                      0 < duplicate_tool_results w \<or> orphans \<noteq> {})
         then Inl PAIRING_ERROR
         else Inr (if \<not> strict \<and> repair then remove_orphaned_tool_uses history orphans else history,
                   validated, w))"

subsection \<open>What a paired conversation is\<close>

text \<open>
  \<open>paired open ms cur\<close>: with the tool uses \<open>open\<close> waiting for a result, every message of \<open>ms\<close>
  answers exactly the uses of the message before it, once each, and the results \<open>cur\<close> of the
  current message answer what the history leaves open.
\<close>

definition result_ids :: "'j tool_result list \<Rightarrow> string list" where
  "result_ids rs = map tr_tool_use_id rs"

lemma result_ids_simps [simp]:
  "result_ids [] = []" "result_ids (r # rs) = tr_tool_use_id r # result_ids rs"
  by (simp_all add: result_ids_def)

fun paired :: "string set \<Rightarrow> 'j message list \<Rightarrow> string list \<Rightarrow> bool" where
  "paired open_ids [] cur \<longleftrightarrow> distinct cur \<and> set cur = open_ids"
| "paired open_ids (User u # ms) cur \<longleftrightarrow>
     distinct (result_ids (user_results u)) \<and> set (result_ids (user_results u)) = open_ids \<and> paired {} ms cur"
| "paired open_ids (Assistant a # ms) cur \<longleftrightarrow> open_ids = {} \<and> paired (set (assistant_use_ids a)) ms cur"

text \<open>Every result answers a use of the message before it.\<close>

fun answered :: "string set \<Rightarrow> 'j message list \<Rightarrow> bool" where
  "answered open_ids [] \<longleftrightarrow> True"
| "answered open_ids (User u # ms) \<longleftrightarrow>
     distinct (result_ids (user_results u)) \<and> set (result_ids (user_results u)) \<subseteq> open_ids \<and> answered {} ms"
| "answered open_ids (Assistant a # ms) \<longleftrightarrow> answered (set (assistant_use_ids a)) ms"

text \<open>The uses that are left open at the end, and those that were never answered before it.\<close>

fun left_open :: "string set \<Rightarrow> 'j message list \<Rightarrow> string set" where
  "left_open open_ids [] = open_ids"
| "left_open open_ids (User u # ms) = left_open {} ms"
| "left_open open_ids (Assistant a # ms) = left_open (set (assistant_use_ids a)) ms"

fun unanswered :: "string set \<Rightarrow> 'j message list \<Rightarrow> string set" where
  "unanswered open_ids [] = {}"
| "unanswered open_ids (User u # ms) = (open_ids - set (result_ids (user_results u))) \<union> unanswered {} ms"
| "unanswered open_ids (Assistant a # ms) = open_ids \<union> unanswered (set (assistant_use_ids a)) ms"

fun all_uses :: "'j message list \<Rightarrow> string set" where
  "all_uses [] = {}"
| "all_uses (User u # ms) = all_uses ms"
| "all_uses (Assistant a # ms) = set (assistant_use_ids a) \<union> all_uses ms"

text \<open>No id is used by two assistant messages.\<close>

fun uses_distinct :: "'j message list \<Rightarrow> bool" where
  "uses_distinct [] \<longleftrightarrow> True"
| "uses_distinct (User u # ms) \<longleftrightarrow> uses_distinct ms"
| "uses_distinct (Assistant a # ms) \<longleftrightarrow> set (assistant_use_ids a) \<inter> all_uses ms = {} \<and> uses_distinct ms"

lemma left_open_subset: "left_open x ms \<subseteq> x \<union> all_uses ms"
  by (induction x ms rule: left_open.induct) auto

lemma unanswered_subset: "unanswered x ms \<subseteq> x \<union> all_uses ms"
  by (induction x ms rule: unanswered.induct) auto

subsection \<open>The loops\<close>

lemma retain_results_spec:
  "retain_results valid seen rs w = (kept, w') \<Longrightarrow>
   distinct (result_ids kept) \<and> set (result_ids kept) \<subseteq> valid - seen"
  by (induction valid seen rs w arbitrary: kept rule: retain_results.induct)
     (fastforce simp: result_ids_def split: if_splits prod.splits)+

lemma retain_results_all:
  "distinct (result_ids rs) \<Longrightarrow> set (result_ids rs) \<subseteq> valid - seen \<Longrightarrow> retain_results valid seen rs w = (rs, w)"
proof (induction rs arbitrary: seen)
  case (Cons r rs)
  then have "set (result_ids rs) \<subseteq> valid - insert (tr_tool_use_id r) seen" by auto
  with Cons show ?case by simp
qed simp

lemma sanitize_user_spec:
  assumes "sanitize_user valid u w = (u', w')"
  shows "distinct (result_ids (user_results u')) \<and> set (result_ids (user_results u')) \<subseteq> valid"
proof (cases "user_results u = []")
  case True
  with assms show ?thesis by (auto simp: sanitize_user_def result_ids_def)
next
  case False
  obtain kept w1 where k: "retain_results valid {} (user_results u) w = (kept, w1)" by fastforce
  with assms False have "user_results u' = kept"
    by (auto simp: sanitize_user_def Let_def user_results_def)
  with retain_results_spec [OF k] show ?thesis by simp
qed

lemma sanitize_from_answered: "sanitize_from valid ms w = (ms', w') \<Longrightarrow> answered valid ms'"
  by (induction valid ms w arbitrary: ms' w' rule: sanitize_from.induct)
     (auto split: prod.splits dest: sanitize_user_spec)

lemma sanitize_from_uses:
  "sanitize_from valid ms w = (ms', w') \<Longrightarrow> all_uses ms' = all_uses ms \<and> uses_distinct ms' = uses_distinct ms"
  by (induction valid ms w arbitrary: ms' w' rule: sanitize_from.induct) (fastforce split: prod.splits)+

lemma sanitize_user_id:
  assumes "distinct (result_ids (user_results u))" "set (result_ids (user_results u)) \<subseteq> valid"
  shows "sanitize_user valid u w = (u, w)"
proof (cases "user_results u = []")
  case False
  have "retain_results valid {} (user_results u) w = (user_results u, w)"
    using assms by (intro retain_results_all) auto
  moreover have "u\<lparr>um_context := (um_context u)\<lparr>tool_results := user_results u\<rparr>\<rparr> = u"
    by (cases u; cases "um_context u") (simp add: user_results_def)
  ultimately show ?thesis using False by (simp add: sanitize_user_def Let_def)
qed (simp add: sanitize_user_def)

lemma sanitize_from_id: "answered valid ms \<Longrightarrow> sanitize_from valid ms w = (ms, w)"
  by (induction valid ms w rule: sanitize_from.induct) (auto simp: sanitize_user_id)

lemma scan_message_spec:
  "pending_ids (scan_message m s) = left_open (pending_ids s) [m] \<and>
   unpaired_tool_use_ids (scan_message m s) = unpaired_tool_use_ids s \<union> unanswered (pending_ids s) [m]"
  by (cases m) (auto simp: Let_def pending_ids_def assistant_use_ids_def result_ids_def split: option.splits)

lemma left_open_Cons: "left_open x (m # ms) = left_open (left_open x [m]) ms"
  by (cases m) auto

lemma unanswered_Cons: "unanswered x (m # ms) = unanswered x [m] \<union> unanswered (left_open x [m]) ms"
  by (cases m) auto

lemma scan_spec:
  "pending_ids (fold scan_message ms s) = left_open (pending_ids s) ms \<and>
   unpaired_tool_use_ids (fold scan_message ms s) = unpaired_tool_use_ids s \<union> unanswered (pending_ids s) ms"
proof (induction ms arbitrary: s)
  case (Cons m ms)
  from Cons [of "scan_message m s"] scan_message_spec [of m s] show ?case
    using left_open_Cons [of "pending_ids s" m ms] unanswered_Cons [of "pending_ids s" m ms] by auto
qed simp

lemma match_results_spec:
  "match_results current seen rs unp w = (kept, unp', matched, w') \<Longrightarrow>
   distinct (result_ids kept) \<and> set (result_ids kept) = matched \<and>
   matched = (current - seen) \<inter> set (result_ids rs) \<and> unp' = unp - matched"
proof (induction current seen rs unp w arbitrary: kept unp' matched w' rule: match_results.induct)
  case (2 current seen r rs unp w)
  let ?i = "tr_tool_use_id r"
  consider (new) "?i \<in> current" "?i \<notin> seen" | (other) "\<not> (?i \<in> current \<and> ?i \<notin> seen)" by blast
  then show ?case
  proof cases
    case new
    with "2.prems" obtain kept1 matched1 where
      m: "match_results current (insert ?i seen) rs (unp - {?i}) w = (kept1, unp', matched1, w')"
      "kept = r # kept1" "matched = insert ?i matched1"
      by (auto simp: Let_def split: prod.splits)
    from "2.IH"(1) [OF refl _ m(1)] new m(2,3) show ?thesis by (auto simp: result_ids_def)
  next
    case other
    with 2 show ?thesis by (fastforce simp: Let_def result_ids_def split: if_splits)
  qed
qed (simp add: result_ids_def)

lemma validate_spec:
  assumes "validate_tool_pairing h rs w = (kept, orphans, w')"
  shows "distinct (result_ids kept) \<and>
    set (result_ids kept) = left_open {} h \<inter> set (result_ids rs) \<and>
    orphans = (unanswered {} h - set (result_ids kept)) \<union> (left_open {} h - set (result_ids kept))"
proof -
  let ?s = "fold scan_message h scan_start"
  obtain unp matched w1 where m: "match_results (pending_ids ?s) {} rs
      (unpaired_tool_use_ids ?s \<union> pending_ids ?s) w = (kept, unp, matched, w1)"
    and o: "orphans = (unp - matched) \<union> (pending_ids ?s - matched)"
    using assms by (auto simp: validate_tool_pairing_def Let_def split: prod.splits)
  have "pending_ids scan_start = {}" "unpaired_tool_use_ids scan_start = {}"
    by (simp_all add: scan_start_def pending_ids_def)
  with scan_spec [of h scan_start] match_results_spec [OF m] o show ?thesis by auto
qed

subsection \<open>Repair\<close>

lemma remove_from_assistant_ids:
  "set (assistant_use_ids (remove_from_assistant orphans a)) = set (assistant_use_ids a) - orphans"
  by (auto simp: remove_from_assistant_def assistant_use_ids_def Let_def filter_empty_conv split: option.splits)

definition strip_orphans :: "string set \<Rightarrow> 'j message \<Rightarrow> 'j message" where
  "strip_orphans orphans m =
     (case m of Assistant a \<Rightarrow> Assistant (remove_from_assistant orphans a) | User u \<Rightarrow> User u)"

lemma strip_orphans_simps [simp]:
  "strip_orphans orphans (User u) = User u"
  "strip_orphans orphans (Assistant a) = Assistant (remove_from_assistant orphans a)"
  by (simp_all add: strip_orphans_def)

lemma orphans_of_open:
  "R \<subseteq> P \<Longrightarrow> P \<inter> A = {} \<Longrightarrow> X \<subseteq> A \<Longrightarrow> orphans \<inter> (P \<union> A) = (P - R) \<union> X \<Longrightarrow>
   P - orphans = R \<and> orphans \<inter> A = X"
  by blast

lemma strip_pairs:
  assumes "answered open_ids ms" "uses_distinct ms" "open_ids \<inter> all_uses ms = {}"
    and "orphans \<inter> (open_ids \<union> all_uses ms) =
      unanswered open_ids ms \<union> (left_open open_ids ms - set cur)"
    and "distinct cur" "set cur \<subseteq> left_open open_ids ms"
  shows "paired (open_ids - orphans) (map (strip_orphans orphans) ms) cur"
  using assms
proof (induction open_ids ms rule: answered.induct)
  case (1 open_ids)
  then show ?case by auto
next
  case (2 open_ids u ms)
  have sub: "left_open {} ms \<subseteq> all_uses ms" "unanswered {} ms \<subseteq> all_uses ms"
    using left_open_subset [of "{}" ms] unanswered_subset [of "{}" ms] by auto
  let ?X = "unanswered {} ms \<union> (left_open {} ms - set cur)"
  have "open_ids - orphans = set (result_ids (user_results u)) \<and> orphans \<inter> all_uses ms = ?X"
    using 2 sub by (intro orphans_of_open) auto
  with 2 show ?case by auto
next
  case (3 open_ids a ms)
  let ?ids = "set (assistant_use_ids a)"
  have sub: "left_open ?ids ms \<subseteq> ?ids \<union> all_uses ms" "unanswered ?ids ms \<subseteq> ?ids \<union> all_uses ms"
    using left_open_subset [of ?ids ms] unanswered_subset [of ?ids ms] by auto
  have "orphans \<inter> (?ids \<union> all_uses ms) = unanswered ?ids ms \<union> (left_open ?ids ms - set cur)"
    using 3 sub by auto
  with 3 have "paired (?ids - orphans) (map (strip_orphans orphans) ms) cur" by auto
  moreover have "open_ids - orphans = {}" using 3 by auto
  ultimately show ?case by (simp add: remove_from_assistant_ids)
qed

lemma paired_answered: "paired x ms cur \<Longrightarrow> answered x ms \<and> unanswered x ms = {} \<and> left_open x ms = set cur \<and> distinct cur"
  by (induction x ms cur rule: paired.induct) auto

lemma answered_paired:
  "answered x ms \<Longrightarrow> unanswered x ms = {} \<Longrightarrow> left_open x ms = set cur \<Longrightarrow> distinct cur \<Longrightarrow> paired x ms cur"
  by (induction x ms cur rule: paired.induct) auto

lemma match_results_all:
  "distinct (result_ids rs) \<Longrightarrow> set (result_ids rs) \<subseteq> current - seen \<Longrightarrow>
   match_results current seen rs unp w = (rs, unp - set (result_ids rs), set (result_ids rs), w)"
proof (induction rs arbitrary: seen unp)
  case (Cons r rs)
  then have "set (result_ids rs) \<subseteq> current - insert (tr_tool_use_id r) seen" by auto
  with Cons show ?case by (auto simp: Let_def)
qed simp

lemma validate_paired:
  assumes "paired {} h (result_ids rs)"
  shows "validate_tool_pairing h rs w = (rs, {}, w)"
proof -
  have p: "answered {} h" "unanswered {} h = {}" "left_open {} h = set (result_ids rs)" "distinct (result_ids rs)"
    using paired_answered [OF assms] by auto
  have s: "pending_ids scan_start = {}" "unpaired_tool_use_ids scan_start = {}"
    by (simp_all add: scan_start_def pending_ids_def)
  have "match_results (set (result_ids rs)) {} rs (set (result_ids rs)) w =
      (rs, {}, set (result_ids rs), w)"
    using match_results_all [OF p(4), of "set (result_ids rs)" "{}"] by simp
  moreover have "count_orphans {} w = w" by (simp add: count_orphans_def)
  ultimately show ?thesis
    using scan_spec [of h scan_start] p s by (simp add: validate_tool_pairing_def Let_def)
qed

subsection \<open>Strict conversion\<close>

definition quiet :: "proxy_warnings \<Rightarrow> bool" where
  "quiet w \<longleftrightarrow> orphan_tool_results w = 0 \<and> orphan_tool_uses w = 0 \<and> duplicate_tool_results w = 0"

lemma sat_add_one_nonzero: "sat_add n 1 \<noteq> (0 :: u32)"
proof -
  have "unat (sat_add n 1) \<noteq> 0" by (simp add: unat_sat_add)
  then show ?thesis by (metis unat_0)
qed

lemma retain_results_quiet:
  "retain_results valid seen rs w = (kept, w') \<Longrightarrow> quiet w' \<Longrightarrow> kept = rs \<and> w' = w"
  by (induction valid seen rs w arbitrary: kept rule: retain_results.induct)
     (fastforce simp: quiet_def sat_add_one_nonzero split: if_splits prod.splits)+

lemma sanitize_user_quiet:
  assumes "sanitize_user valid u w = (u', w')" "quiet w'"
  shows "u' = u \<and> w' = w"
proof (cases "user_results u = []")
  case True
  with assms show ?thesis by (simp add: sanitize_user_def)
next
  case False
  obtain kept w1 where k: "retain_results valid {} (user_results u) w = (kept, w1)" by fastforce
  with assms False have "quiet w1" by (auto simp: sanitize_user_def Let_def)
  with retain_results_quiet [OF k] have q: "kept = user_results u" "w1 = w" by auto
  moreover have "u\<lparr>um_context := (um_context u)\<lparr>tool_results := user_results u\<rparr>\<rparr> = u"
    by (cases u; cases "um_context u") (simp add: user_results_def)
  ultimately show ?thesis using assms(1) False k by (simp add: sanitize_user_def Let_def)
qed

lemma sanitize_from_quiet:
  "sanitize_from valid ms w = (ms', w') \<Longrightarrow> quiet w' \<Longrightarrow> ms' = ms \<and> w' = w"
proof (induction valid ms w arbitrary: ms' rule: sanitize_from.induct)
  case (3 valid u ms w)
  obtain u1 w1 where u: "sanitize_user valid u w = (u1, w1)" by fastforce
  obtain ms1 where m: "sanitize_from {} ms w1 = (ms1, w')" "ms' = User u1 # ms1"
    using "3.prems"(1) u by (auto split: prod.splits)
  from "3.IH" [OF u [symmetric] m(1) "3.prems"(2)] have "ms1 = ms" "w' = w1" by auto
  with sanitize_user_quiet [OF u] "3.prems"(2) m(2) show ?case by auto
qed (auto split: prod.splits)

lemma match_results_quiet:
  "match_results current seen rs unp w = (kept, unp', matched, w') \<Longrightarrow> quiet w' \<Longrightarrow> kept = rs \<and> w' = w"
  by (induction current seen rs unp w arbitrary: kept unp' matched rule: match_results.induct)
     (fastforce simp: quiet_def sat_add_one_nonzero Let_def split: if_splits prod.splits)+

lemma validate_quiet:
  assumes "validate_tool_pairing h rs w = (kept, {}, w')" "quiet w'"
  shows "kept = rs \<and> w' = w"
proof -
  let ?s = "fold scan_message h scan_start"
  obtain unp matched w1 where m: "match_results (pending_ids ?s) {} rs
      (unpaired_tool_use_ids ?s \<union> pending_ids ?s) w = (kept, unp, matched, w1)"
    and c: "unp - matched \<union> (pending_ids ?s - matched) = {}"
      "w' = count_orphans (unp - matched \<union> (pending_ids ?s - matched)) w1"
    using assms(1) by (auto simp: validate_tool_pairing_def Let_def split: prod.splits)
  from c(2) have "w' = w1" unfolding c(1) by (simp add: count_orphans_def)
  with match_results_quiet [OF m] assms(2) show ?thesis by simp
qed

lemma unanswered_left_disjoint:
  "uses_distinct ms \<Longrightarrow> x \<inter> all_uses ms = {} \<Longrightarrow> unanswered x ms \<inter> left_open x ms = {}"
proof (induction x ms rule: unanswered.induct)
  case (2 x u ms)
  with left_open_subset [of "{}" ms] show ?case by auto
next
  case (3 x a ms)
  with left_open_subset [of "set (assistant_use_ids a)" ms] show ?case by auto
qed simp

lemma validated_paired:
  assumes "validate_tool_pairing h rs w = (kept, {}, w')" "quiet w'" "answered {} h" "uses_distinct h"
  shows "paired {} h (result_ids rs)"
proof -
  have k: "kept = rs" using validate_quiet [OF assms(1,2)] by simp
  note v = validate_spec [OF assms(1)]
  have "left_open {} h = set (result_ids rs)" using v k by auto
  moreover have "unanswered {} h = {}"
    using v k unanswered_left_disjoint [OF assms(4), of "{}"] by auto
  ultimately show ?thesis using v k assms(3) by (intro answered_paired) auto
qed

subsection \<open>Properties\<close>

text \<open>C6. Repair pairs every tool use: if no id is used by two assistant messages, then after the
  repair every message answers exactly the tool uses of the message before it, once each, and
  the results of the current message answer exactly the tool uses the history leaves open.\<close>

theorem repair_pairs_every_tool_use:
  assumes "uses_distinct h" "pair_tools True False h rs w = Inr (h', rs', w')"
  shows "paired {} h' (result_ids rs')"
proof -
  obtain h1 w1 where s: "sanitize_from {} h w = (h1, w1)" by fastforce
  obtain orphans w2 where v: "validate_tool_pairing h1 rs w1 = (rs', orphans, w2)"
    and h': "h' = remove_orphaned_tool_uses h1 orphans"
    using assms(2) s by (auto simp: pair_tools_def sanitize_history_tool_results_def Let_def split: prod.splits)
  have a: "answered {} h1" using sanitize_from_answered [OF s] .
  have d: "uses_distinct h1" using sanitize_from_uses [OF s] assms(1) by simp
  note vs = validate_spec [OF v]
  have sub: "unanswered {} h1 \<inter> set (result_ids rs') = {}"
    using vs unanswered_left_disjoint [OF d, of "{}"] by auto
  then have o: "orphans = unanswered {} h1 \<union> (left_open {} h1 - set (result_ids rs'))"
    using vs by auto
  moreover have "orphans \<inter> ({} \<union> all_uses h1) = orphans"
    using o left_open_subset [of "{}" h1] unanswered_subset [of "{}" h1] by auto
  ultimately have p: "paired ({} - orphans) (map (strip_orphans orphans) h1) (result_ids rs')"
    using a d vs by (intro strip_pairs) auto
  show ?thesis
  proof (cases "orphans = {}")
    case True
    with o vs a show ?thesis by (auto simp: h' remove_orphaned_tool_uses_def intro!: answered_paired)
  next
    case False
    with p show ?thesis by (simp add: h' remove_orphaned_tool_uses_def strip_orphans_def [abs_def])
  qed
qed

definition sample_use :: "string \<Rightarrow> unit message" where
  "sample_use i = Assistant \<lparr>am_content = ''a'',
     am_tool_uses = Some [\<lparr>tu_tool_use_id = i, tu_name = ''read'', tu_input = ()\<rparr>],
     am_reasoning_content = None\<rparr>"

definition sample_result :: "string \<Rightarrow> unit tool_result" where
  "sample_result i = \<lparr>tr_tool_use_id = i, tr_content = [], tr_status = None, tr_is_error = False\<rparr>"

definition sample_user :: "string list \<Rightarrow> unit message" where
  "sample_user ids = User \<lparr>um_content = ''u'', um_model_id = ''m'', um_origin = None, um_images = [],
     um_context = \<lparr>tool_results = map sample_result ids, tools = []\<rparr>\<rparr>"

definition no_warnings :: proxy_warnings where
  "no_warnings = \<lparr>prefill_dropped = 0, orphan_tool_results = 0, orphan_tool_results_textified = 0,
     orphan_tool_uses = 0, duplicate_tool_results = 0, duplicate_tool_results_textified = 0,
     tool_result_content_placeholders = 0, empty_content_placeholders = 0,
     sanitized_assistant_history_leaks = 0, sanitized_assistant_history_leak_chars = 0\<rparr>"

lemmas sample_pairing = sample_use_def sample_result_def sample_user_def no_warnings_def
  assistant_use_ids_def user_results_def pair_tools_def sanitize_history_tool_results_def
  sanitize_user_def validate_tool_pairing_def scan_start_def pending_ids_def count_orphans_def
  remove_orphaned_tool_uses_def remove_from_assistant_def Let_def result_ids_def

theorem repair_pairs_every_tool_use_witness:
  "\<exists>h' rs' w'. pair_tools True False [sample_use ''x'', sample_user [''y''], sample_use ''z'']
      [sample_result ''z''] no_warnings = Inr (h', rs', w') \<and> paired {} h' (result_ids rs')"
proof -
  let ?h = "[sample_use ''x'', sample_user [''y''], sample_use ''z'']"
  obtain h' rs' w' where p: "pair_tools True False ?h [sample_result ''z''] no_warnings = Inr (h', rs', w')"
    by (simp add: sample_pairing)
  have "uses_distinct ?h" by (simp add: sample_use_def sample_user_def assistant_use_ids_def)
  from repair_pairs_every_tool_use [OF this p] p show ?thesis by blast
qed

text \<open>Repair leaves a conversation that is already paired as it is, without a warning.\<close>

theorem repair_keeps_paired_conversations:
  assumes "paired {} h (result_ids rs)"
  shows "pair_tools True False h rs w = Inr (h, rs, w)"
proof -
  have "sanitize_from {} h w = (h, w)" using paired_answered [OF assms] by (simp add: sanitize_from_id)
  then show ?thesis
    using validate_paired [OF assms, of w]
    by (simp add: pair_tools_def sanitize_history_tool_results_def remove_orphaned_tool_uses_def)
qed

theorem repair_keeps_paired_conversations_witness:
  "pair_tools True False [sample_use ''x'', sample_user [''x'']] [] no_warnings =
   Inr ([sample_use ''x'', sample_user [''x'']], [], no_warnings)"
  by (rule repair_keeps_paired_conversations)
     (simp add: sample_use_def sample_user_def assistant_use_ids_def user_results_def sample_result_def)

text \<open>A strict conversion accepts exactly the paired conversations, unchanged, and answers the
  error otherwise, if no id is used by two assistant messages.\<close>

theorem strict_conversion_accepts_exactly_paired:
  assumes "uses_distinct h" "quiet w"
  shows "pair_tools repair True h rs w =
    (if paired {} h (result_ids rs) then Inr (h, rs, w) else Inl PAIRING_ERROR)"
proof (cases "paired {} h (result_ids rs)")
  case True
  then have "sanitize_from {} h w = (h, w)" using paired_answered [OF True] by (simp add: sanitize_from_id)
  with True validate_paired [OF True, of w] assms(2) show ?thesis
    by (simp add: pair_tools_def sanitize_history_tool_results_def quiet_def)
next
  case False
  obtain h1 w1 where s: "sanitize_from {} h w = (h1, w1)" by fastforce
  obtain kept orphans w2 where v: "validate_tool_pairing h1 rs w1 = (kept, orphans, w2)" by (metis prod_cases3)
  have "\<not> (quiet w2 \<and> orphans = {})"
  proof
    assume q: "quiet w2 \<and> orphans = {}"
    with v have v': "validate_tool_pairing h1 rs w1 = (kept, {}, w2)" by simp
    from validate_quiet [OF v'] q have "quiet w1" by simp
    with sanitize_from_quiet [OF s] have "h1 = h" by simp
    with validated_paired [OF v'] q sanitize_from_answered [OF s] assms(1) False show False by simp
  qed
  with s v False show ?thesis
    by (auto simp: pair_tools_def sanitize_history_tool_results_def quiet_def word_gt_0)
qed

theorem strict_conversion_accepts_exactly_paired_witness:
  "pair_tools False True [sample_use ''x'', sample_user []] [] no_warnings = Inl PAIRING_ERROR"
proof -
  have "uses_distinct [sample_use ''x'', sample_user []]" "quiet no_warnings"
    "\<not> paired {} [sample_use ''x'', sample_user []] (result_ids [])"
    by (simp_all add: sample_use_def sample_user_def assistant_use_ids_def user_results_def quiet_def no_warnings_def)
  then show ?thesis
    using strict_conversion_accepts_exactly_paired [of "[sample_use ''x'', sample_user []]" no_warnings False "[]"]
    by simp
qed

text \<open>Ids used by two assistant messages defeat the repair: the unanswered use of the first
  message puts the id among the orphans, the answered use of the second message is removed with
  it, and its result is left in the history without a tool use.\<close>

theorem reused_id_loses_its_answered_use:
  "\<exists>h' rs' w'. pair_tools True False
      [sample_use ''x'', sample_user [], sample_use ''x'', sample_user [''x'']] [] no_warnings =
      Inr (h', rs', w') \<and> all_uses h' = {} \<and> last h' = sample_user [''x''] \<and> \<not> paired {} h' (result_ids rs')"
  by (simp add: sample_pairing)

end
