(* ===== verification/Redis_Breaker.thy ===== *)
theory Redis_Breaker
  imports Release_Dispatcher
begin

text \<open>
  The circuit breaker around the scheduler's Redis calls
  (\<open>SchedulerRedisBreaker\<close> and \<open>SchedulerRedisOperationAdmission\<close> in
  \<open>src/kiro/token_manager/manager.rs\<close>).

  Each critical section of the breaker's mutex is one function.  Waiting for a permit of the
  Tokio semaphore happens between two of them; whether the permit arrived before the deadline is
  a parameter, as are the instants and the process's scheduling delay (\<open>RuntimeLag::recent_max\<close>).
  An error is the list of the texts of its causes.  Durations of the back-off are milliseconds.
\<close>

subsection \<open>State\<close>

datatype admission_error = BreakerOpen | LocalSchedulerOverloaded
datatype breaker_phase = Closed | Open instant | HalfOpen
datatype breaker_kind = CapacityBreaker | SnapshotBreaker | AffinityBreaker

fun breaker_kind_as_str :: "breaker_kind \<Rightarrow> string" where
  "breaker_kind_as_str CapacityBreaker = ''capacity''"
| "breaker_kind_as_str SnapshotBreaker = ''snapshot''"
| "breaker_kind_as_str AffinityBreaker = ''affinity''"

record breaker_stats =
  bs_admitted :: u64
  bs_local_saturated :: u64
  bs_fail_fast :: u64
  bs_recovery_probes :: u64
  bs_failures :: u64
  bs_recoveries :: u64
  bs_cancelled_probes :: u64
  bs_stale_successes :: u64
  bs_stale_failures :: u64
  bs_suppressed :: u64
  bs_local_lag_timeouts :: u64
  bs_consecutive_excused_timeouts :: u64

record breaker =
  br_kind :: breaker_kind
  failure_generation :: u64
  consecutive_failures :: u32
  phase :: breaker_phase
  stats :: breaker_stats
  jitter_seed :: u64

record admission =
  adm_failure_generation :: u64
  adm_recovery_probe :: bool

definition TIMEOUT_FAILURES_TO_OPEN :: u32 where "TIMEOUT_FAILURES_TO_OPEN = 3"
definition LOCAL_LAG_EXCUSES_TIMEOUT :: duration where "LOCAL_LAG_EXCUSES_TIMEOUT = millis 50"
definition MAX_CONSECUTIVE_EXCUSED_TIMEOUTS :: u64 where "MAX_CONSECUTIVE_EXCUSED_TIMEOUTS = 20"
definition DEGRADED_BACKOFF_BASE_MS :: nat where "DEGRADED_BACKOFF_BASE_MS = 2000"
definition DEGRADED_BACKOFF_MAX_MS :: nat where "DEGRADED_BACKOFF_MAX_MS = 30000"

text \<open>The UTF-8 bytes of the text that marks an exceeded deadline in an error.\<close>

definition DEADLINE_TEXT :: string where
  "DEADLINE_TEXT = map char_of
     [232, 182, 133, 232, 191, 135, 229, 133, 177, 228, 186, 171, 230, 128, 187, 230, 156, 159, 233, 153, 144 :: nat]"

definition breaker_new :: "breaker_kind \<Rightarrow> u64 \<Rightarrow> breaker" where
  "breaker_new kind seed =
     \<lparr>br_kind = kind, failure_generation = 0, consecutive_failures = 0, phase = Closed,
      stats = \<lparr>bs_admitted = 0, bs_local_saturated = 0, bs_fail_fast = 0, bs_recovery_probes = 0,
        bs_failures = 0, bs_recoveries = 0, bs_cancelled_probes = 0, bs_stale_successes = 0,
        bs_stale_failures = 0, bs_suppressed = 0, bs_local_lag_timeouts = 0,
        bs_consecutive_excused_timeouts = 0\<rparr>,
      jitter_seed = seed\<rparr>"

subsection \<open>Back-off\<close>

definition stable_scheduler_backoff_jitter :: "nat \<Rightarrow> u64 \<Rightarrow> nat" where
  "stable_scheduler_backoff_jitter base seed =
     (let base_millis = max base 1; spread = max (base_millis div 10) 1;
          mixed = xor ((seed + 0x9e3779b97f4a7c15) * 0xbf58476d1ce4e5b9) (word_rotl 27 seed);
          reduction = unat mixed mod (spread + 1)
      in base_millis - reduction)"

definition base_backoff_for_failure :: "u32 \<Rightarrow> nat" where
  "base_backoff_for_failure failures =
     (let shift = min (sat_sub failures 1) 4
      in min (DEGRADED_BACKOFF_BASE_MS * 2 ^ unat shift) DEGRADED_BACKOFF_MAX_MS)"

definition backoff_for_failure :: "breaker \<Rightarrow> u32 \<Rightarrow> u64 \<Rightarrow> nat" where
  "backoff_for_failure b failures generation =
     stable_scheduler_backoff_jitter (base_backoff_for_failure failures)
       (xor (xor (jitter_seed b) (generation * 0x9e3779b97f4a7c15)) (word_rotl 17 (ucast failures)))"

subsection \<open>Operations\<close>

definition bump_fail_fast :: "breaker \<Rightarrow> breaker" where
  "bump_fail_fast b =
     b\<lparr>stats := (stats b)\<lparr>bs_fail_fast := bs_fail_fast (stats b) + 1,
         bs_suppressed := bs_suppressed (stats b) + 1\<rparr>\<rparr>"

text \<open>The first critical section of \<open>begin_until\<close>.\<close>

definition begin_admission :: "instant \<Rightarrow> breaker \<Rightarrow> (admission_error + admission) \<times> breaker" where
  "begin_admission now b =
     (case phase b of
        Closed \<Rightarrow> (Inr \<lparr>adm_failure_generation = failure_generation b, adm_recovery_probe = False\<rparr>, b)
      | Open until_at \<Rightarrow>
          if now < until_at then (Inl BreakerOpen, bump_fail_fast b)
          else (Inr \<lparr>adm_failure_generation = failure_generation b, adm_recovery_probe = True\<rparr>,
                b\<lparr>phase := HalfOpen,
                  stats := (stats b)\<lparr>bs_recovery_probes := bs_recovery_probes (stats b) + 1\<rparr>\<rparr>)
      | HalfOpen \<Rightarrow> (Inl BreakerOpen, bump_fail_fast b))"

definition still_current :: "breaker \<Rightarrow> admission \<Rightarrow> bool" where
  "still_current b a \<longleftrightarrow> failure_generation b = adm_failure_generation a \<and>
     (if adm_recovery_probe a then phase b = HalfOpen else phase b = Closed)"

text \<open>
  The second one, after the permit: the operation may start, or the admission is void; a void
  admission is marked completed, so that dropping it does not cancel a probe.
\<close>

definition confirm_admission :: "breaker \<Rightarrow> admission \<Rightarrow> (admission_error + unit) \<times> breaker" where
  "confirm_admission b a =
     (if \<not> still_current b a then (Inl BreakerOpen, bump_fail_fast b)
      else (Inr (), b\<lparr>stats := (stats b)\<lparr>bs_admitted := bs_admitted (stats b) + 1\<rparr>\<rparr>))"

definition cancel_probe :: "instant \<Rightarrow> u64 \<Rightarrow> breaker \<Rightarrow> breaker" where
  "cancel_probe now generation b =
     (if failure_generation b \<noteq> generation \<or> phase b \<noteq> HalfOpen then b
      else
        let backoff = backoff_for_failure b (max (consecutive_failures b) 1) (failure_generation b)
        in b\<lparr>phase := Open (now + millis backoff),
             stats := (stats b)\<lparr>bs_cancelled_probes := bs_cancelled_probes (stats b) + 1\<rparr>\<rparr>)"

text \<open>Dropping an admission that was neither a success nor a failure.\<close>

definition drop_admission :: "instant \<Rightarrow> admission \<Rightarrow> breaker \<Rightarrow> breaker" where
  "drop_admission now a b =
     (if adm_recovery_probe a then cancel_probe now (adm_failure_generation a) b else b)"

text \<open>No permit before the deadline: the admission is dropped as it is.\<close>

definition permit_timeout :: "instant \<Rightarrow> admission \<Rightarrow> breaker \<Rightarrow> admission_error \<times> breaker" where
  "permit_timeout now a b =
     (LocalSchedulerOverloaded,
      drop_admission now a (b\<lparr>stats := (stats b)\<lparr>bs_local_saturated := bs_local_saturated (stats b) + 1\<rparr>\<rparr>))"

definition complete_success :: "u64 \<Rightarrow> bool \<Rightarrow> breaker \<Rightarrow> breaker" where
  "complete_success generation recovery_probe b =
     (let b = b\<lparr>stats := (stats b)\<lparr>bs_consecutive_excused_timeouts := 0\<rparr>\<rparr>;
          stale = b\<lparr>stats := (stats b)\<lparr>bs_stale_successes := bs_stale_successes (stats b) + 1\<rparr>\<rparr> in
      if failure_generation b \<noteq> generation then stale
      else case (recovery_probe, phase b) of
          (True, HalfOpen) \<Rightarrow>
            b\<lparr>phase := Closed, consecutive_failures := 0,
              stats := (stats b)\<lparr>bs_recoveries := bs_recoveries (stats b) + 1, bs_suppressed := 0\<rparr>\<rparr>
        | (False, Closed) \<Rightarrow> b\<lparr>consecutive_failures := 0\<rparr>
        | _ \<Rightarrow> stale)"

definition is_timeout_failure :: "string list \<Rightarrow> bool" where
  "is_timeout_failure err = list_ex (\<lambda>c. str_contains c DEADLINE_TEXT) err"

text \<open>The excuse for a timeout of a lagging process; the counter moves only if it gets that far.\<close>

definition try_excuse :: "bool \<Rightarrow> bool \<Rightarrow> duration \<Rightarrow> breaker \<Rightarrow> bool \<times> breaker" where
  "try_excuse timeout_failure recovery_probe lag b =
     (if timeout_failure \<and> \<not> recovery_probe \<and> LOCAL_LAG_EXCUSES_TIMEOUT \<le> lag
      then let count = bs_consecutive_excused_timeouts (stats b);
               b = b\<lparr>stats := (stats b)\<lparr>bs_consecutive_excused_timeouts := count + 1\<rparr>\<rparr>
           in if count < MAX_CONSECUTIVE_EXCUSED_TIMEOUTS
              then (True, b\<lparr>stats := (stats b)\<lparr>bs_local_lag_timeouts := bs_local_lag_timeouts (stats b) + 1\<rparr>\<rparr>)
              else (False, b)
      else (False, b))"

definition complete_failure ::
    "instant \<Rightarrow> duration \<Rightarrow> u64 \<Rightarrow> bool \<Rightarrow> string list \<Rightarrow> breaker \<Rightarrow> breaker" where
  "complete_failure now lag generation recovery_probe err b =
     (let b = b\<lparr>stats := (stats b)\<lparr>bs_failures := bs_failures (stats b) + 1\<rparr>\<rparr>;
          timeout_failure = is_timeout_failure err;
          (excused, b) = try_excuse timeout_failure recovery_probe lag b in
      if excused then b
      else if failure_generation b \<noteq> generation
      then b\<lparr>stats := (stats b)\<lparr>bs_stale_failures := bs_stale_failures (stats b) + 1\<rparr>\<rparr>
      else
        let b = b\<lparr>consecutive_failures := max (sat_add (consecutive_failures b) 1) 1\<rparr> in
        if br_kind b = SnapshotBreaker \<and> \<not> recovery_probe then b
        else if br_kind b = CapacityBreaker \<and> timeout_failure \<and> \<not> recovery_probe \<and>
          consecutive_failures b < TIMEOUT_FAILURES_TO_OPEN then b
        else
          let b = b\<lparr>failure_generation := failure_generation b + 1\<rparr>;
              backoff_failures =
                (if br_kind b = CapacityBreaker \<and> timeout_failure
                 then max (sat_sub (consecutive_failures b) (TIMEOUT_FAILURES_TO_OPEN - 1)) 1
                 else consecutive_failures b);
              backoff = backoff_for_failure b backoff_failures (failure_generation b)
          in b\<lparr>phase := Open (now + millis backoff), stats := (stats b)\<lparr>bs_suppressed := 0\<rparr>\<rparr>)"

definition admission_success :: "admission \<Rightarrow> breaker \<Rightarrow> breaker" where
  "admission_success a b = complete_success (adm_failure_generation a) (adm_recovery_probe a) b"

definition admission_failure :: "instant \<Rightarrow> duration \<Rightarrow> string list \<Rightarrow> admission \<Rightarrow> breaker \<Rightarrow> breaker" where
  "admission_failure now lag err a b =
     complete_failure now lag (adm_failure_generation a) (adm_recovery_probe a) err b"

definition recovery_probe_due :: "instant \<Rightarrow> breaker \<Rightarrow> bool" where
  "recovery_probe_due now b \<longleftrightarrow> (case phase b of Open until_at \<Rightarrow> until_at \<le> now | _ \<Rightarrow> False)"

definition retry_after :: "instant \<Rightarrow> breaker \<Rightarrow> duration option" where
  "retry_after now b =
     (case phase b of
        Closed \<Rightarrow> None
      | Open until_at \<Rightarrow> Some (case checked_duration_since until_at now of Some d \<Rightarrow> d | None \<Rightarrow> millis 1)
      | HalfOpen \<Rightarrow> Some (millis 1))"

subsection \<open>The back-off is bounded\<close>

lemma jitter_same: "stable_scheduler_backoff_jitter = stable_release_retry_jitter"
  by (intro ext) (simp add: stable_scheduler_backoff_jitter_def stable_release_retry_jitter_def)

lemma base_backoff_bounds:
  "2000 \<le> base_backoff_for_failure f \<and> base_backoff_for_failure f \<le> 30000"
  by (simp add: base_backoff_for_failure_def Let_def DEGRADED_BACKOFF_BASE_MS_def DEGRADED_BACKOFF_MAX_MS_def)

lemma backoff_bounds:
  "1800 \<le> backoff_for_failure b f g \<and> backoff_for_failure b f g \<le> base_backoff_for_failure f"
proof -
  let ?base = "base_backoff_for_failure f"
  have b: "2000 \<le> ?base" using base_backoff_bounds by simp
  then have "1800 \<le> ?base - max (?base div 10) 1" by linarith
  with b jitter_bounds [of ?base "xor (xor (jitter_seed b) (g * 0x9e3779b97f4a7c15)) (word_rotl 17 (ucast f))"]
  show ?thesis
    unfolding backoff_for_failure_def jitter_same by linarith
qed

subsection \<open>What the operations do to the phase and the generation\<close>

definition core :: "breaker \<Rightarrow> u64 \<times> breaker_phase" where
  "core b = (failure_generation b, phase b)"

lemma core_upd [simp]:
  "core (b\<lparr>stats := x\<rparr>) = core b" "core (b\<lparr>consecutive_failures := n\<rparr>) = core b"
  "core (bump_fail_fast b) = core b"
  by (simp_all add: core_def bump_fail_fast_def)

lemma core_begin:
  assumes "begin_admission now b = (r, b')"
  shows "(\<exists>e. r = Inl e \<and> core b' = core b) \<or>
    (r = Inr \<lparr>adm_failure_generation = failure_generation b, adm_recovery_probe = False\<rparr> \<and>
       phase b = Closed \<and> core b' = core b) \<or>
    (\<exists>t. r = Inr \<lparr>adm_failure_generation = failure_generation b, adm_recovery_probe = True\<rparr> \<and>
       phase b = Open t \<and> t \<le> now \<and> core b' = (failure_generation b, HalfOpen))"
  using assms by (auto simp: begin_admission_def core_def bump_fail_fast_def split: breaker_phase.splits if_splits)

lemma core_confirm: "core (snd (confirm_admission b a)) = core b"
  by (simp add: confirm_admission_def)

lemma core_success:
  "core (complete_success g probe b) =
   (if failure_generation b = g \<and> probe \<and> phase b = HalfOpen then (g, Closed) else core b)"
  by (auto simp: complete_success_def core_def Let_def split: breaker_phase.splits bool.splits)

lemma core_cancel:
  "core (cancel_probe now g b) = core b \<and> \<not> (failure_generation b = g \<and> phase b = HalfOpen) \<or>
   failure_generation b = g \<and> phase b = HalfOpen \<and>
   (\<exists>ms. 1800 \<le> ms \<and> ms \<le> 30000 \<and> core (cancel_probe now g b) = (g, Open (now + millis ms)))"
proof (cases "failure_generation b = g \<and> phase b = HalfOpen")
  case True
  then show ?thesis
    using backoff_bounds [of b "max (consecutive_failures b) 1" g]
      base_backoff_bounds [of "max (consecutive_failures b) 1"]
    by (auto simp: cancel_probe_def core_def Let_def)
qed (auto simp: cancel_probe_def)

lemma try_excuse_fields:
  "try_excuse t probe lag b = (x, b') \<Longrightarrow> core b' = core b \<and> br_kind b' = br_kind b \<and>
   consecutive_failures b' = consecutive_failures b \<and> (x \<longrightarrow> t \<and> \<not> probe)"
  by (auto simp: try_excuse_def core_def Let_def split: if_splits)

lemma core_failure:
  "core (complete_failure now lag g probe err b) = core b \<and> \<not> (probe \<and> failure_generation b = g) \<or>
   failure_generation b = g \<and>
   (\<exists>ms. 1800 \<le> ms \<and> ms \<le> 30000 \<and>
      core (complete_failure now lag g probe err b) = (g + 1, Open (now + millis ms)))"
proof -
  let ?b0 = "b\<lparr>stats := (stats b)\<lparr>bs_failures := bs_failures (stats b) + 1\<rparr>\<rparr>"
  obtain x b1 where e: "try_excuse (is_timeout_failure err) probe lag ?b0 = (x, b1)" by fastforce
  note f = try_excuse_fields [OF e]
  let ?b2 = "b1\<lparr>consecutive_failures := max (sat_add (consecutive_failures b1) 1) 1\<rparr>"
  let ?b3 = "?b2\<lparr>failure_generation := failure_generation b1 + 1\<rparr>"
  let ?n = "if br_kind b1 = CapacityBreaker \<and> is_timeout_failure err
      then max (sat_sub (consecutive_failures ?b2) (TIMEOUT_FAILURES_TO_OPEN - 1)) 1
      else consecutive_failures ?b2"
  have bo: "1800 \<le> backoff_for_failure ?b3 ?n (g + 1) \<and> backoff_for_failure ?b3 ?n (g + 1) \<le> 30000"
    using backoff_bounds [of ?b3 ?n "g + 1"] base_backoff_bounds [of ?n] by linarith
  have g1: "failure_generation b1 = failure_generation b" using f by (simp add: core_def)
  show ?thesis
  proof (cases "x \<or> failure_generation b \<noteq> g")
    case True
    with e f g1 show ?thesis by (auto simp: complete_failure_def Let_def core_def)
  next
    case False
    then show ?thesis
    proof (cases "core (complete_failure now lag g probe err b) = core b \<and> \<not> probe")
      case nope: False
      have "core (complete_failure now lag g probe err b) = core b1 \<and> \<not> probe \<or>
          core (complete_failure now lag g probe err b) =
            (g + 1, Open (now + millis (backoff_for_failure ?b3 ?n (g + 1))))"
        using False e g1 by (auto simp: complete_failure_def Let_def core_def)
      with nope f bo False show ?thesis by auto
    qed (rule disjI1, blast)
  qed
qed

subsection \<open>Interleavings of the operations\<close>

text \<open>
  The breaker together with the admissions that callers hold, waiting for a permit or running.
  A step is one critical section, for any holder in any order, at any instant.  Generations are
  compared for equality after a wrapping increment; the step that opens the breaker is taken
  only while the counter has not run through all \<open>2 ^ 64\<close> values.
\<close>

inductive breaker_step :: "breaker \<times> admission list \<Rightarrow> breaker \<times> admission list \<Rightarrow> bool" where
  begun: "begin_admission now b = (Inr a, b') \<Longrightarrow> breaker_step (b, held) (b', a # held)"
| refused: "begin_admission now b = (Inl e, b') \<Longrightarrow> breaker_step (b, held) (b', held)"
| confirmed: "a \<in> set held \<Longrightarrow> confirm_admission b a = (Inr (), b') \<Longrightarrow> breaker_step (b, held) (b', held)"
| voided: "a \<in> set held \<Longrightarrow> confirm_admission b a = (Inl e, b') \<Longrightarrow>
    breaker_step (b, held) (b', remove1 a held)"
| saturated: "a \<in> set held \<Longrightarrow> permit_timeout now a b = (e, b') \<Longrightarrow>
    breaker_step (b, held) (b', remove1 a held)"
| succeeded: "a \<in> set held \<Longrightarrow> breaker_step (b, held) (admission_success a b, remove1 a held)"
| failed: "a \<in> set held \<Longrightarrow> failure_generation b \<noteq> - 1 \<Longrightarrow>
    breaker_step (b, held) (admission_failure now lag err a b, remove1 a held)"
| dropped: "a \<in> set held \<Longrightarrow> breaker_step (b, held) (drop_admission now a b, remove1 a held)"

inductive breaker_reachable :: "breaker_kind \<Rightarrow> u64 \<Rightarrow> breaker \<times> admission list \<Rightarrow> bool"
  for kind seed where
  start: "breaker_reachable kind seed (breaker_new kind seed, [])"
| step: "breaker_reachable kind seed s \<Longrightarrow> breaker_step s s' \<Longrightarrow> breaker_reachable kind seed s'"

definition current_probe :: "u64 \<times> breaker_phase \<Rightarrow> admission \<Rightarrow> bool" where
  "current_probe c a \<longleftrightarrow> adm_recovery_probe a \<and> adm_failure_generation a = fst c"

text \<open>
  The invariant, over the generation and the phase alone: nobody holds an admission of a later
  generation; the half-open phase has exactly one owner; outside the closed phase the only
  admissions of the current generation are recovery probes.
\<close>

definition held_ok :: "u64 \<times> breaker_phase \<Rightarrow> admission list \<Rightarrow> bool" where
  "held_ok c held \<longleftrightarrow>
     list_all (\<lambda>a. adm_failure_generation a \<le> fst c) held \<and>
     length (filter (current_probe c) held) = (if snd c = HalfOpen then 1 else 0) \<and>
     (snd c \<noteq> Closed \<longrightarrow> list_all (\<lambda>a. adm_failure_generation a = fst c \<longrightarrow> adm_recovery_probe a) held)"

lemma list_all_remove1: "list_all P xs \<Longrightarrow> list_all P (remove1 x xs)"
  using set_remove1_subset [of x xs] by (auto simp: list_all_iff)

lemma length_filter_remove1:
  "x \<in> set xs \<Longrightarrow>
   length (filter P (remove1 x xs)) = (if P x then length (filter P xs) - 1 else length (filter P xs))"
  by (simp add: filter_remove1 length_remove1)

lemma owner_phase:
  assumes "held_ok c held" "a \<in> set held" "current_probe c a"
  shows "snd c = HalfOpen"
proof (rule ccontr)
  assume "snd c \<noteq> HalfOpen"
  with assms(1) have "filter (current_probe c) held = []" by (simp add: held_ok_def)
  with assms(2,3) show False by (simp add: filter_empty_conv)
qed

lemma held_ok_begin_closed:
  "held_ok (g, Closed) held \<Longrightarrow>
   held_ok (g, Closed) (\<lparr>adm_failure_generation = g, adm_recovery_probe = False\<rparr> # held)"
  by (simp add: held_ok_def current_probe_def)

lemma current_probe_phase: "current_probe (g, p) = current_probe (g, q)"
  by (simp add: current_probe_def fun_eq_iff)

lemma held_ok_begin_probe:
  "held_ok (g, Open t) held \<Longrightarrow>
   held_ok (g, HalfOpen) (\<lparr>adm_failure_generation = g, adm_recovery_probe = True\<rparr> # held)"
  using current_probe_phase [of g HalfOpen "Open t"] by (simp add: held_ok_def current_probe_def)

text \<open>An admission that does not own the half-open phase may go at any time.\<close>

lemma held_ok_leave:
  "held_ok c held \<Longrightarrow> a \<in> set held \<Longrightarrow> \<not> current_probe c a \<Longrightarrow> held_ok c (remove1 a held)"
  by (simp add: held_ok_def list_all_remove1 length_filter_remove1)

text \<open>When the owner goes, the phase must not stay half-open.\<close>

lemma held_ok_owner_leaves:
  "held_ok (g, HalfOpen) held \<Longrightarrow> a \<in> set held \<Longrightarrow> current_probe (g, HalfOpen) a \<Longrightarrow> p \<noteq> HalfOpen \<Longrightarrow>
   held_ok (g, p) (remove1 a held)"
  by (simp add: held_ok_def list_all_remove1 length_filter_remove1 current_probe_phase [of g p HalfOpen])

lemma held_ok_opened:
  assumes "held_ok (g, p) held" "g \<noteq> - 1"
  shows "held_ok (g + 1, Open t) (remove1 a held)"
proof -
  have "1 + g \<noteq> 0" using assms(2) by (metis add_eq_0_iff)
  then have "unat (g + 1) = Suc (unat g)" by (metis add.commute unatSuc)
  then have less: "x \<le> g \<Longrightarrow> x \<le> g + 1 \<and> x \<noteq> g + 1" for x by (auto simp: word_le_nat_alt)
  have "list_all (\<lambda>x. adm_failure_generation x \<le> g) (remove1 a held)"
    using assms(1) by (simp add: held_ok_def list_all_remove1)
  then have "list_all (\<lambda>x. adm_failure_generation x \<le> g + 1 \<and> adm_failure_generation x \<noteq> g + 1) (remove1 a held)"
    using less by (auto simp: list_all_iff)
  then show ?thesis
    by (auto simp: held_ok_def current_probe_def list_all_iff filter_empty_conv)
qed

lemma core_eq [simp]: "fst (core b) = failure_generation b" "snd (core b) = phase b"
  by (simp_all add: core_def)

lemma held_ok_success:
  assumes "held_ok (core b) held" "a \<in> set held"
  shows "held_ok (core (admission_success a b)) (remove1 a held)"
proof (cases "current_probe (core b) a")
  case True
  with owner_phase [OF assms True] have "core b = (adm_failure_generation a, HalfOpen)"
    and "core (admission_success a b) = (adm_failure_generation a, Closed)"
    by (simp_all add: core_def [of b] admission_success_def core_success current_probe_def)
  with held_ok_owner_leaves [of "adm_failure_generation a" held a Closed] assms True show ?thesis by simp
next
  case False
  then have "core (admission_success a b) = core b"
    by (auto simp: admission_success_def core_success current_probe_def)
  with held_ok_leave [OF assms False] show ?thesis by simp
qed

lemma held_ok_drop:
  assumes "held_ok (core b) held" "a \<in> set held"
  shows "held_ok (core (drop_admission now a b)) (remove1 a held)"
proof (cases "current_probe (core b) a")
  case True
  with owner_phase [OF assms True] have h: "core b = (adm_failure_generation a, HalfOpen)"
    by (simp add: core_def [of b] current_probe_def)
  with True core_cancel [of now "adm_failure_generation a" b]
  obtain t where "core (drop_admission now a b) = (adm_failure_generation a, Open t)"
    by (auto simp: drop_admission_def current_probe_def core_def)
  with held_ok_owner_leaves [of "adm_failure_generation a" held a "Open t"] assms True h show ?thesis by simp
next
  case False
  then have "core (drop_admission now a b) = core b"
    by (auto simp: drop_admission_def cancel_probe_def current_probe_def)
  with held_ok_leave [OF assms False] show ?thesis by simp
qed

lemma held_ok_failure:
  assumes "held_ok (core b) held" "a \<in> set held" "failure_generation b \<noteq> - 1"
  shows "held_ok (core (admission_failure now lag err a b)) (remove1 a held)"
  using core_failure [of now lag "adm_failure_generation a" "adm_recovery_probe a" err b]
proof (elim disjE conjE exE)
  assume "core (complete_failure now lag (adm_failure_generation a) (adm_recovery_probe a) err b) = core b"
    "\<not> (adm_recovery_probe a \<and> failure_generation b = adm_failure_generation a)"
  with held_ok_leave [OF assms(1,2)] show ?thesis
    by (simp add: admission_failure_def current_probe_def) metis
next
  fix ms
  assume "failure_generation b = adm_failure_generation a"
    "core (complete_failure now lag (adm_failure_generation a) (adm_recovery_probe a) err b) =
     (adm_failure_generation a + 1, Open (now + millis ms))"
  with held_ok_opened [of "failure_generation b" "phase b" held] assms show ?thesis
    by (simp add: admission_failure_def core_def [of b])
qed

lemma held_ok_step:
  "breaker_step s s' \<Longrightarrow> held_ok (core (fst s)) (snd s) \<Longrightarrow> held_ok (core (fst s')) (snd s')"
proof (induction rule: breaker_step.induct)
  case (begun now b a b' held)
  with core_begin [OF begun(1)] held_ok_begin_closed [of "failure_generation b" held]
    held_ok_begin_probe [of "failure_generation b" _ held]
  show ?case by (auto simp: core_def)
next
  case (refused now b e b' held)
  with core_begin [OF refused(1)] show ?case by auto
next
  case (confirmed a held b b')
  with core_confirm [of b a] show ?case by simp
next
  case (voided a held b e b')
  then have "\<not> still_current b a" "core b' = core b"
    using core_confirm [of b a] by (auto simp: confirm_admission_def split: if_splits)
  moreover have "\<not> current_probe (core b) a"
  proof
    assume "current_probe (core b) a"
    with voided owner_phase [of "core b" held a] \<open>\<not> still_current b a\<close> show False
      by (auto simp: still_current_def current_probe_def)
  qed
  ultimately show ?case using voided held_ok_leave [of "core b" held a] by simp
next
  case (saturated a held now b e b')
  then have "b' = drop_admission now a (b\<lparr>stats := (stats b)\<lparr>bs_local_saturated := bs_local_saturated (stats b) + 1\<rparr>\<rparr>)"
    by (simp add: permit_timeout_def)
  with saturated held_ok_drop show ?case by simp
qed (simp_all add: held_ok_success held_ok_failure held_ok_drop)

lemma held_ok_reachable: "breaker_reachable kind seed s \<Longrightarrow> held_ok (core (fst s)) (snd s)"
proof (induction rule: breaker_reachable.induct)
  case start
  then show ?case by (simp add: held_ok_def breaker_new_def core_def)
qed (rule held_ok_step)

text \<open>C7. 
  Under every interleaving the half-open phase has exactly one owner, a recovery probe of the
  current generation that somebody still holds, and no other phase has one.  That probe is never
  voided while it waits for its permit; its success closes the breaker, and its failure or its
  being dropped opens the breaker again for between 1.8 and 30 seconds, so the breaker is never
  left half-open with nobody to decide it.
\<close>

theorem half_open_has_exactly_one_owner:
  assumes "breaker_reachable kind seed (b, held)"
  shows "length (filter (\<lambda>a. adm_recovery_probe a \<and> adm_failure_generation a = failure_generation b) held) =
      (if phase b = HalfOpen then 1 else 0) \<and>
    (a \<in> set held \<and> adm_recovery_probe a \<and> adm_failure_generation a = failure_generation b \<longrightarrow>
      fst (confirm_admission b a) = Inr () \<and> phase (admission_success a b) = Closed \<and>
      (\<exists>ms. 1800 \<le> ms \<and> ms \<le> 30000 \<and> phase (admission_failure now lag err a b) = Open (now + millis ms)) \<and>
      (\<exists>ms. 1800 \<le> ms \<and> ms \<le> 30000 \<and> phase (drop_admission now a b) = Open (now + millis ms)))"
    (is "?unique \<and> (?probe \<longrightarrow> ?confirmed \<and> ?closes \<and> ?fails \<and> ?drops)")
proof (intro conjI impI)
  have ok: "held_ok (core b) held" using held_ok_reachable [OF assms] by simp
  then show ?unique by (simp add: held_ok_def current_probe_def [abs_def])
  assume a: ?probe
  then have h: "phase b = HalfOpen" using owner_phase [OF ok, of a] by (simp add: current_probe_def)
  show ?confirmed using a h by (simp add: confirm_admission_def still_current_def)
  show ?closes
    using a h core_success [of "adm_failure_generation a" True b] by (simp add: admission_success_def core_def)
  show ?fails
    using a core_failure [of now lag "adm_failure_generation a" True err b]
    by (auto simp: admission_failure_def core_def)
  show ?drops
    using a h core_cancel [of now "adm_failure_generation a" b] by (auto simp: drop_admission_def core_def)
qed

text \<open>
  While the breaker is open or half-open, the answers to operations that were admitted before it
  opened do not move it: whether such an operation succeeds, fails with any error or is dropped,
  the generation and the phase stay, and an operation still waiting for its permit is refused.
\<close>

theorem late_answers_do_not_move_the_breaker:
  assumes "breaker_reachable kind seed (b, held)" "phase b \<noteq> Closed"
    and "a \<in> set held" "\<not> adm_recovery_probe a"
  shows "phase (admission_success a b) = phase b \<and> failure_generation (admission_success a b) = failure_generation b"
    and "phase (admission_failure now lag err a b) = phase b \<and>
      failure_generation (admission_failure now lag err a b) = failure_generation b"
    and "drop_admission now a b = b" and "fst (confirm_admission b a) = Inl BreakerOpen"
proof -
  have "held_ok (core b) held" using held_ok_reachable [OF assms(1)] by simp
  with assms have g: "failure_generation b \<noteq> adm_failure_generation a"
    by (auto simp: held_ok_def list_all_iff)
  then show "phase (admission_success a b) = phase b \<and> failure_generation (admission_success a b) = failure_generation b"
    using core_success [of "adm_failure_generation a" False b] assms(4) by (simp add: admission_success_def core_def)
  show "phase (admission_failure now lag err a b) = phase b \<and>
      failure_generation (admission_failure now lag err a b) = failure_generation b"
    using g core_failure [of now lag "adm_failure_generation a" False err b] assms(4)
    by (auto simp: admission_failure_def core_def)
  show "drop_admission now a b = b" using assms(4) by (simp add: drop_admission_def)
  show "fst (confirm_admission b a) = Inl BreakerOpen"
    using g by (simp add: confirm_admission_def still_current_def)
qed

text \<open>
  A sample run: two operations begin, one of them is refused by Redis and the breaker opens; forty
  seconds later a recovery probe begins while the other operation is still out.
\<close>

definition sample_admission :: "bool \<Rightarrow> admission" where
  "sample_admission probe = \<lparr>adm_failure_generation = (if probe then 1 else 0), adm_recovery_probe = probe\<rparr>"

definition sample_open :: breaker where
  "sample_open = admission_failure 0 0 [''connection refused''] (sample_admission False) (breaker_new CapacityBreaker 7)"

definition sample_half_open :: breaker where
  "sample_half_open = snd (begin_admission (millis 40000) sample_open)"

lemma no_deadline_text: "\<not> is_timeout_failure [''connection refused'']"
  by code_simp

lemma sample_core: "\<exists>ms \<le> 30000. core sample_open = (1, Open (millis ms))"
proof -
  let ?b = "breaker_new CapacityBreaker 7"
  have "core sample_open \<noteq> core ?b"
    using no_deadline_text
    by (simp add: sample_open_def admission_failure_def complete_failure_def try_excuse_def sample_admission_def
        breaker_new_def core_def Let_def)
  with core_failure [of 0 0 0 False "[''connection refused'']" ?b] show ?thesis
    by (auto simp: sample_open_def admission_failure_def sample_admission_def)
qed

lemma sample_begin: "begin_admission (millis 40000) sample_open = (Inr (sample_admission True), sample_half_open)"
  using sample_core by (auto simp: core_def begin_admission_def sample_half_open_def sample_admission_def millis_def)

lemma sample_phase: "phase sample_half_open = HalfOpen" "failure_generation sample_half_open = 1"
  using sample_core by (auto simp: core_def begin_admission_def sample_half_open_def millis_def)

lemma sample_reachable_open: "breaker_reachable CapacityBreaker 7 (sample_open, [sample_admission False])"
proof -
  let ?b = "breaker_new CapacityBreaker 7" and ?a = "sample_admission False"
  have "begin_admission 0 ?b = (Inr ?a, ?b)"
    by (simp add: begin_admission_def breaker_new_def sample_admission_def)
  then have "breaker_step (?b, held) (?b, ?a # held)" for held by (rule begun)
  then have "breaker_reachable CapacityBreaker 7 (?b, [?a, ?a])"
    by (meson breaker_reachable.intros)
  moreover have "breaker_step (?b, [?a, ?a]) (sample_open, remove1 ?a [?a, ?a])"
    unfolding sample_open_def by (rule failed) (simp_all add: breaker_new_def)
  ultimately show ?thesis using breaker_reachable.step by fastforce
qed

lemma sample_reachable:
  "breaker_reachable CapacityBreaker 7 (sample_half_open, [sample_admission True, sample_admission False])"
  using sample_reachable_open sample_begin begun breaker_reachable.step by blast

theorem half_open_has_exactly_one_owner_witness:
  "length (filter (\<lambda>a. adm_recovery_probe a \<and> adm_failure_generation a = failure_generation sample_half_open)
     [sample_admission True, sample_admission False]) = 1 \<and>
   fst (confirm_admission sample_half_open (sample_admission True)) = Inr () \<and>
   phase (admission_success (sample_admission True) sample_half_open) = Closed"
  using half_open_has_exactly_one_owner [OF sample_reachable] sample_phase by (simp add: sample_admission_def)

theorem late_answers_do_not_move_the_breaker_witness:
  "phase (admission_success (sample_admission False) sample_half_open) = HalfOpen \<and>
   phase (admission_failure 5 0 [''connection refused''] (sample_admission False) sample_half_open) = HalfOpen"
  using late_answers_do_not_move_the_breaker(1,2) [OF sample_reachable, of "sample_admission False"] sample_phase
  by (simp add: sample_admission_def)

subsection \<open>Timeouts and outages\<close>

definition fail_each :: "u64 \<Rightarrow> (instant \<times> duration) list \<Rightarrow> string list \<Rightarrow> breaker \<Rightarrow> breaker" where
  "fail_each g events err =
     fold (\<lambda>(now, lag). admission_failure now lag err \<lparr>adm_failure_generation = g, adm_recovery_probe = False\<rparr>) events"

definition excused_count :: "breaker \<Rightarrow> nat" where
  "excused_count b = unat (bs_consecutive_excused_timeouts (stats b))"

text \<open>How many more timeouts the closed capacity breaker can sit through at most.\<close>

definition timeouts_left :: "breaker \<Rightarrow> nat" where
  "timeouts_left b = (20 - excused_count b) + (3 - unat (consecutive_failures b))"

definition closed_capacity :: "u64 \<Rightarrow> breaker \<Rightarrow> bool" where
  "closed_capacity g b \<longleftrightarrow> br_kind b = CapacityBreaker \<and> failure_generation b = g \<and> phase b = Closed \<and>
     unat (consecutive_failures b) \<le> 2"

lemma counted_increment: "unat n \<le> 2 \<Longrightarrow> unat (max (sat_add (n :: u32) 1) 1) = unat n + 1"
  by (simp add: max_def word_le_nat_alt unat_sat_add)

lemma unat_inc: "unat (x :: 'a::len word) + 1 < 2 ^ LENGTH('a) \<Longrightarrow> unat (x + 1) = unat x + 1"
  by (metis unat_add_lem unsigned_1)

lemma try_excuse_counts:
  assumes "try_excuse True False lag b = (x, b')" "excused_count b < 2 ^ 64 - 1"
  shows "br_kind b' = br_kind b" "failure_generation b' = failure_generation b" "phase b' = phase b"
    "consecutive_failures b' = consecutive_failures b"
    "excused_count b \<le> excused_count b'" "excused_count b' \<le> excused_count b + 1"
    "x \<Longrightarrow> excused_count b < 20 \<and> excused_count b' = excused_count b + 1"
  using assms unat_inc [of "bs_consecutive_excused_timeouts (stats b)"]
  by (auto simp: try_excuse_def excused_count_def Let_def MAX_CONSECUTIVE_EXCUSED_TIMEOUTS_def word_less_nat_alt
      split: if_splits)

lemma capacity_timeout:
  fixes now :: instant and lag :: duration
  assumes c: "closed_capacity g b" and t: "is_timeout_failure err" and few: "excused_count b < 2 ^ 64 - 1"
  defines "b' \<equiv> admission_failure now lag err \<lparr>adm_failure_generation = g, adm_recovery_probe = False\<rparr> b"
  shows "closed_capacity g b' \<and> unat (consecutive_failures b') \<le> unat (consecutive_failures b) + 1 \<and>
      excused_count b' \<le> excused_count b + 1 \<and> timeouts_left b' < timeouts_left b \<or>
    (\<exists>ms. 1800 \<le> ms \<and> ms \<le> 2000 \<and> unat (consecutive_failures b) = 2 \<and>
       core b' = (g + 1, Open (now + millis ms)))"
proof -
  let ?b0 = "b\<lparr>stats := (stats b)\<lparr>bs_failures := bs_failures (stats b) + 1\<rparr>\<rparr>"
  obtain x b1 where e: "try_excuse True False lag ?b0 = (x, b1)" by fastforce
  have "excused_count ?b0 < 2 ^ 64 - 1" using few by (simp add: excused_count_def)
  note x = try_excuse_counts [OF e this]
  have x0: "excused_count ?b0 = excused_count b" by (simp add: excused_count_def)
  let ?n = "max (sat_add (consecutive_failures b) 1) 1"
  have n: "unat ?n = unat (consecutive_failures b) + 1" using c by (simp add: closed_capacity_def counted_increment)
  show ?thesis
  proof (cases "x \<or> unat (consecutive_failures b) < 2")
    case True
    then have "b' = (if x then b1 else b1\<lparr>consecutive_failures := ?n\<rparr>)"
      using c e t x n unfolding b'_def
      by (auto simp: admission_failure_def complete_failure_def closed_capacity_def
          TIMEOUT_FAILURES_TO_OPEN_def word_less_nat_alt)
    with True x n c x0 show ?thesis
      by (cases x) (auto simp: closed_capacity_def timeouts_left_def excused_count_def)
  next
    case False
    then have two: "consecutive_failures b = 2" and three: "?n = 3"
      using c n by (auto simp: closed_capacity_def word_unat_eq_iff)
    let ?b3 = "b1\<lparr>consecutive_failures := 3, failure_generation := g + 1\<rparr>"
    have "core b' = (g + 1, Open (now + millis (backoff_for_failure ?b3 1 (g + 1))))"
      using False c e t x three unfolding b'_def
      by (simp add: admission_failure_def complete_failure_def closed_capacity_def two
          TIMEOUT_FAILURES_TO_OPEN_def sat_sub_def core_def Let_def)
    moreover have "base_backoff_for_failure 1 = 2000"
      by (simp add: base_backoff_for_failure_def DEGRADED_BACKOFF_BASE_MS_def DEGRADED_BACKOFF_MAX_MS_def sat_sub_def)
    ultimately show ?thesis using backoff_bounds [of ?b3 1 "g + 1"] two by auto
  qed
qed

lemma open_stays:
  assumes "core b = (g + 1, p)"
  shows "core (admission_failure now lag err \<lparr>adm_failure_generation = g, adm_recovery_probe = False\<rparr> b) = core b"
  using core_failure [of now lag g False err b] assms by (auto simp: admission_failure_def core_def)

lemma fail_each_open: "core b = (g + 1, p) \<Longrightarrow> core (fail_each g events err b) = core b"
  unfolding fail_each_def
  by (induction events arbitrary: b) (auto simp: open_stays)

lemma fail_each_Cons:
  "fail_each g ((now, lag) # events) err b =
   fail_each g events err (admission_failure now lag err \<lparr>adm_failure_generation = g, adm_recovery_probe = False\<rparr> b)"
  by (simp add: fail_each_def)

lemma few_timeouts_tolerated:
  assumes "is_timeout_failure err" "closed_capacity g b" "excused_count b + length events < 2 ^ 64"
    "unat (consecutive_failures b) + length events \<le> 2"
  shows "phase (fail_each g events err b) = Closed"
  using assms(2-)
proof (induction events arbitrary: b)
  case Nil
  then show ?case by (simp add: fail_each_def closed_capacity_def)
next
  case (Cons e events)
  obtain now lag where e: "e = (now, lag)" by fastforce
  from Cons.prems capacity_timeout [OF Cons.prems(1) assms(1), of now lag] Cons.IH show ?case
    by (simp add: e fail_each_Cons)
qed

lemma enough_timeouts_open:
  assumes "is_timeout_failure err" "closed_capacity g b" "excused_count b + length events < 2 ^ 64"
    "timeouts_left b \<le> length events"
  shows "\<exists>now ms. now \<in> fst ` set events \<and> 1800 \<le> ms \<and> ms \<le> 2000 \<and>
    phase (fail_each g events err b) = Open (now + millis ms)"
  using assms(2-)
proof (induction events arbitrary: b)
  case Nil
  then show ?case by (simp add: timeouts_left_def closed_capacity_def)
next
  case (Cons e events)
  obtain now lag where e: "e = (now, lag)" by fastforce
  let ?b = "admission_failure now lag err \<lparr>adm_failure_generation = g, adm_recovery_probe = False\<rparr> b"
  have few: "excused_count b < 2 ^ 64 - 1" using Cons.prems by simp
  from capacity_timeout [OF Cons.prems(1) assms(1) few, of now lag] show ?case
  proof (elim disjE conjE exE)
    assume "closed_capacity g ?b" "excused_count ?b \<le> excused_count b + 1" "timeouts_left ?b < timeouts_left b"
    with Cons.prems Cons.IH [of ?b] show ?case by (auto simp: e fail_each_Cons)
  next
    fix ms
    assume "1800 \<le> ms" "ms \<le> 2000" "core ?b = (g + 1, Open (now + millis ms))"
    with fail_each_open [of ?b g "Open (now + millis ms)" events err] show ?case
      by (auto simp: e fail_each_Cons core_def)
  qed
qed

text \<open>
  From a closed capacity breaker, one or two timeouts in a row never open it.  A Redis that only
  times out does open it, however much the process lags: after at most 23 timeouts without a
  success (twenty that the lag may excuse and three that count), and for between 1.8 and 2
  seconds after one of them.
\<close>

theorem hung_redis_opens_the_capacity_breaker:
  assumes "br_kind b = CapacityBreaker" "phase b = Closed" "consecutive_failures b = 0"
    and "bs_consecutive_excused_timeouts (stats b) = 0" and "is_timeout_failure err"
  shows "(length events \<le> 2 \<longrightarrow> phase (fail_each (failure_generation b) events err b) = Closed) \<and>
    (length events = 23 \<longrightarrow> (\<exists>now ms. now \<in> fst ` set events \<and> 1800 \<le> ms \<and> ms \<le> 2000 \<and>
      phase (fail_each (failure_generation b) events err b) = Open (now + millis ms)))"
proof -
  have c: "closed_capacity (failure_generation b) b" and "excused_count b = 0" "timeouts_left b = 23"
    using assms by (simp_all add: closed_capacity_def excused_count_def timeouts_left_def)
  then show ?thesis
    using few_timeouts_tolerated [OF assms(5) c, of events] enough_timeouts_open [OF assms(5) c, of events] assms(3)
    by simp
qed

theorem hung_redis_opens_the_capacity_breaker_witness:
  "phase (fail_each 0 [(1, millis 60), (2, 0)] [DEADLINE_TEXT] (breaker_new CapacityBreaker 7)) = Closed \<and>
   phase (fail_each 0 (replicate 23 (5, millis 60)) [DEADLINE_TEXT] (breaker_new CapacityBreaker 7)) \<noteq> Closed"
proof -
  let ?b = "breaker_new CapacityBreaker 7"
  have "is_timeout_failure [DEADLINE_TEXT]" by code_simp
  note run = hung_redis_opens_the_capacity_breaker [of ?b, OF _ _ _ _ this]
  show ?thesis
    using run [of "[(1, millis 60), (2, 0)]"] run [of "replicate 23 (5, millis 60)"]
    by (auto simp: breaker_new_def)
qed

lemma snapshot_core:
  assumes "br_kind b = SnapshotBreaker"
  shows "br_kind (complete_failure now lag g False err b) = SnapshotBreaker \<and>
    phase (complete_failure now lag g False err b) = phase b"
  using assms by (auto simp: complete_failure_def try_excuse_def Let_def split: prod.splits if_splits)

lemma snapshot_step:
  assumes "breaker_step s s'"
    and "br_kind (fst s) = SnapshotBreaker \<and> phase (fst s) = Closed \<and> list_all (\<lambda>a. \<not> adm_recovery_probe a) (snd s)"
  shows "br_kind (fst s') = SnapshotBreaker \<and> phase (fst s') = Closed \<and> list_all (\<lambda>a. \<not> adm_recovery_probe a) (snd s')"
  using assms
proof (induction rule: breaker_step.induct)
  case (failed a held b now lag err)
  then have "\<not> adm_recovery_probe a" by (simp add: list_all_iff)
  with failed show ?case by (simp add: admission_failure_def snapshot_core list_all_remove1)
next
  case (succeeded a held b)
  then have "\<not> adm_recovery_probe a" by (simp add: list_all_iff)
  with succeeded show ?case
    by (auto simp: admission_success_def complete_success_def Let_def list_all_remove1 split: bool.splits)
qed (auto simp: begin_admission_def confirm_admission_def permit_timeout_def drop_admission_def bump_fail_fast_def
    list_all_iff notin_set_remove1 split: if_splits)

text \<open>
  The snapshot breaker never opens: whatever happens to its operations, it stays closed and
  admits every one of them, so that a failing snapshot is retried with the local cache in use.
\<close>

theorem snapshot_breaker_never_opens:
  assumes "breaker_reachable SnapshotBreaker seed (b, held)"
  shows "phase b = Closed \<and> (\<exists>a. begin_admission now b = (Inr a, b))"
proof -
  have "br_kind (fst s) = SnapshotBreaker \<and> phase (fst s) = Closed \<and> list_all (\<lambda>a. \<not> adm_recovery_probe a) (snd s)"
    if "breaker_reachable SnapshotBreaker seed s" for s
    using that
  proof (induction rule: breaker_reachable.induct)
    case start
    show ?case by (simp add: breaker_new_def)
  qed (rule snapshot_step)
  from this [OF assms] show ?thesis by (simp add: begin_admission_def)
qed

theorem snapshot_breaker_never_opens_witness:
  "phase (breaker_new SnapshotBreaker 7) = Closed \<and>
   (\<exists>a. begin_admission 5 (breaker_new SnapshotBreaker 7) = (Inr a, breaker_new SnapshotBreaker 7))"
  using snapshot_breaker_never_opens [OF breaker_reachable.start] .

subsection \<open>What the breaker relies on to tell its own delay from a slow Redis\<close>

lemma excused_timeout_changes_nothing:
  assumes "is_timeout_failure err" "\<not> adm_recovery_probe a" "LOCAL_LAG_EXCUSES_TIMEOUT \<le> lag"
    "bs_consecutive_excused_timeouts (stats b) < 20"
  shows "phase (admission_failure now lag err a b) = phase b \<and>
    failure_generation (admission_failure now lag err a b) = failure_generation b \<and>
    consecutive_failures (admission_failure now lag err a b) = consecutive_failures b"
  using assms
  by (simp add: admission_failure_def complete_failure_def try_excuse_def MAX_CONSECUTIVE_EXCUSED_TIMEOUTS_def Let_def)

text \<open>A timeout that is not excused, of an admission that is still current.\<close>

definition counts_timeout :: "instant \<Rightarrow> breaker \<Rightarrow> breaker \<Rightarrow> bool" where
  "counts_timeout now b b' \<longleftrightarrow> consecutive_failures b' = sat_add (consecutive_failures b) 1 \<and>
     (if consecutive_failures b < 2 then phase b' = phase b else \<exists>t. phase b' = Open t \<and> now < t)"

lemma counted_timeout_opens:
  assumes "is_timeout_failure err" "\<not> adm_recovery_probe a"
    "lag < LOCAL_LAG_EXCUSES_TIMEOUT \<or> 20 \<le> bs_consecutive_excused_timeouts (stats b)"
    "br_kind b = CapacityBreaker" "failure_generation b = adm_failure_generation a"
  shows "counts_timeout now b (admission_failure now lag err a b)"
proof -
  let ?b = "admission_failure now lag err a b"
  have one: "max (sat_add (n :: u32) 1) 1 = sat_add n 1" for n
    by (intro max.absorb1) (simp add: word_le_nat_alt unat_sat_add)
  have three: "sat_add (n :: u32) 1 < 3 \<longleftrightarrow> n < 2" for n
    by (auto simp: word_less_nat_alt unat_sat_add)
  have n: "consecutive_failures ?b = sat_add (consecutive_failures b) 1"
    "consecutive_failures b < 2 \<Longrightarrow> phase ?b = phase b"
    "\<not> consecutive_failures b < 2 \<Longrightarrow> failure_generation ?b = failure_generation b + 1"
    using assms
    by (auto simp: admission_failure_def complete_failure_def try_excuse_def one three
        MAX_CONSECUTIVE_EXCUSED_TIMEOUTS_def TIMEOUT_FAILURES_TO_OPEN_def Let_def)
  moreover have "\<exists>t. phase ?b = Open t \<and> now < t" if "\<not> consecutive_failures b < 2"
    using n(3) [OF that] core_failure [of now lag "adm_failure_generation a" "adm_recovery_probe a" err b]
    by (auto simp: admission_failure_def core_def millis_def)
  ultimately show ?thesis by (simp add: counts_timeout_def)
qed

text \<open>
  The contract of the meter behind \<open>RuntimeLag::recent_max\<close>: its reading reaches the excusing
  threshold when the process is stalled and stays below it when the process is punctual.
\<close>

locale lag_meter =
  fixes reading :: "'s \<Rightarrow> instant \<Rightarrow> duration"
    and stalled :: "'s \<Rightarrow> instant \<Rightarrow> bool"
    and punctual :: "'s \<Rightarrow> instant \<Rightarrow> bool"
  assumes stalled_reading: "stalled m now \<Longrightarrow> LOCAL_LAG_EXCUSES_TIMEOUT \<le> reading m now"
    and punctual_reading: "punctual m now \<Longrightarrow> reading m now < LOCAL_LAG_EXCUSES_TIMEOUT"
begin

lemma timeout_of_stalled_process_is_excused:
  assumes "is_timeout_failure err" "\<not> adm_recovery_probe a" "stalled m now"
    "bs_consecutive_excused_timeouts (stats b) < 20"
  shows "phase (admission_failure now (reading m now) err a b) = phase b \<and>
    failure_generation (admission_failure now (reading m now) err a b) = failure_generation b \<and>
    consecutive_failures (admission_failure now (reading m now) err a b) = consecutive_failures b"
  using assms stalled_reading by (intro excused_timeout_changes_nothing) auto

lemma timeout_of_punctual_process_counts:
  assumes "is_timeout_failure err" "\<not> adm_recovery_probe a" "punctual m now"
    "br_kind b = CapacityBreaker" "failure_generation b = adm_failure_generation a"
  shows "counts_timeout now b (admission_failure now (reading m now) err a b)"
  using assms punctual_reading by (intro counted_timeout_opens) auto

end

end
