(* ===== verification/Upstream_Faults.thy ===== *)
theory Upstream_Faults
  imports Availability
begin

text \<open>
  Whose fault an upstream error is (\<open>UpstreamFaultLog\<close> and \<open>note_upstream_fault\<close> in
  \<open>src/kiro/token_manager/manager.rs\<close>): faults that hit most of the pool say nothing about one
  account, faults that stay with one account cool it down at the third in a row.

  \<open>note_upstream_fault\<close> runs under the lock of the entries and takes the lock of the log inside;
  it is one function on both.  The abstract counterpart of the bounded log is the list of all
  accounts that ever faulted, oldest first.
\<close>

subsection \<open>Operations\<close>

definition UPSTREAM_FAULT_STREAK_COOLDOWN :: u32 where "UPSTREAM_FAULT_STREAK_COOLDOWN = 3"
definition UPSTREAM_FAULT_ACTIVE_WINDOW :: duration where "UPSTREAM_FAULT_ACTIVE_WINDOW = secs 60"
definition UPSTREAM_FAULT_LOG_CAPACITY :: nat where "UPSTREAM_FAULT_LOG_CAPACITY = 256"

record upstream_fault_log =
  next_seq :: u64
  recent :: "(u64 \<times> u64) list"

definition fault_log_new :: upstream_fault_log where
  "fault_log_new = \<lparr>next_seq = 0, recent = []\<rparr>"

definition record_fault :: "upstream_fault_log \<Rightarrow> u64 \<Rightarrow> u64 \<Rightarrow> (u64 \<times> nat option) \<times> upstream_fault_log" where
  "record_fault l credential_id since_seq =
     (let reaches_back = (case recent l of [] \<Rightarrow> True | (oldest, _) # _ \<Rightarrow> oldest \<le> sat_add since_seq 1);
          others_since =
            (if reaches_back
             then Some (length (remdups (map snd (filter (\<lambda>(seq, i). since_seq < seq \<and> i \<noteq> credential_id) (recent l)))))
             else None);
          seq = next_seq l + 1;
          kept = (if UPSTREAM_FAULT_LOG_CAPACITY \<le> length (recent l) then tl (recent l) else recent l)
      in ((seq, others_since), \<lparr>next_seq = seq, recent = kept @ [(seq, credential_id)]\<rparr>))"

definition recently_selected :: "instant \<Rightarrow> 'f credential_entry \<Rightarrow> bool" where
  "recently_selected now e \<longleftrightarrow> selection_events e \<noteq> [] \<and>
     saturating_duration_since now (last (selection_events e)) \<le> UPSTREAM_FAULT_ACTIVE_WINDOW"

definition enabled_others :: "u64 \<Rightarrow> 'f credential_entry list \<Rightarrow> 'f credential_entry list" where
  "enabled_others i entries = filter (\<lambda>e. entry_id e \<noteq> i \<and> \<not> disabled e) entries"

definition other_usable :: "instant \<Rightarrow> u64 \<Rightarrow> 'f credential_entry list \<Rightarrow> nat" where
  "other_usable now i entries =
     (let active_others = length (filter (recently_selected now) (enabled_others i entries))
      in if 0 < active_others then active_others else length (enabled_others i entries))"

definition note_entry_fault :: "u64 \<Rightarrow> bool \<Rightarrow> 'f credential_entry \<Rightarrow> 'f credential_entry" where
  "note_entry_fault seq concentrated e =
     e\<lparr>upstream_fault_seq := seq,
       upstream_fault_streak :=
         (if 0 < upstream_fault_streak e \<and> concentrated then sat_add (upstream_fault_streak e) 1 else 1),
       last_upstream_fault_concentrated := concentrated\<rparr>"

definition note_upstream_fault ::
    "instant \<Rightarrow> u64 \<Rightarrow> 'f credential_entry list \<Rightarrow> upstream_fault_log \<Rightarrow>
     bool \<times> 'f credential_entry list \<times> upstream_fault_log" where
  "note_upstream_fault now i entries log =
     (let usable = other_usable now i entries in
      case find (\<lambda>e. entry_id e = i) entries of
        None \<Rightarrow> (False, entries, log)
      | Some e \<Rightarrow>
          let ((seq, others_since), log) = record_fault log i (upstream_fault_seq e);
              concentrated = (usable = 0 \<or> (case others_since of None \<Rightarrow> False | Some n \<Rightarrow> n * 2 < usable));
              e = note_entry_fault seq concentrated e
          in (UPSTREAM_FAULT_STREAK_COOLDOWN \<le> upstream_fault_streak e,
              find_update (\<lambda>e. entry_id e = i) (\<lambda>_. e) entries, log))"

definition last_upstream_fault_was_concentrated :: "u64 \<Rightarrow> 'f credential_entry list \<Rightarrow> bool" where
  "last_upstream_fault_was_concentrated i entries =
     (case find (\<lambda>e. entry_id e = i) entries of None \<Rightarrow> False | Some e \<Rightarrow> last_upstream_fault_concentrated e)"

subsection \<open>The log against the whole history\<close>

text \<open>The log after the faults \<open>h\<close>: the last 256 of them, numbered from one.\<close>

definition numbered :: "u64 list \<Rightarrow> (u64 \<times> u64) list" where
  "numbered h = zip (map word_of_nat [1..<Suc (length h)]) h"

definition log_of :: "u64 list \<Rightarrow> upstream_fault_log \<Rightarrow> bool" where
  "log_of h l \<longleftrightarrow> next_seq l = word_of_nat (length h) \<and>
     recent l = drop (length h - UPSTREAM_FAULT_LOG_CAPACITY) (numbered h)"

lemma length_numbered [simp]: "length (numbered h) = length h"
  by (simp add: numbered_def del: upt_Suc)

lemma numbered_nth: "k < length h \<Longrightarrow> numbered h ! k = (word_of_nat (Suc k), h ! k)"
  by (simp add: numbered_def del: upt_Suc)

lemma numbered_snoc: "numbered (h @ [i]) = numbered h @ [(word_of_nat (Suc (length h)), i)]"
  by (rule nth_equalityI) (auto simp: numbered_nth nth_append less_Suc_eq)

lemma log_of_new: "log_of [] fault_log_new"
  by (simp add: log_of_def fault_log_new_def numbered_def)

lemma log_of_record:
  assumes "log_of h l"
  shows "fst (fst (record_fault l i s)) = word_of_nat (length (h @ [i])) \<and> log_of (h @ [i]) (snd (record_fault l i s))"
proof -
  have n: "next_seq l + 1 = word_of_nat (length (h @ [i]))" using assms by (simp add: log_of_def)
  have "(if UPSTREAM_FAULT_LOG_CAPACITY \<le> length (recent l) then tl (recent l) else recent l) =
      drop (Suc (length h) - UPSTREAM_FAULT_LOG_CAPACITY) (numbered h)"
  proof (cases "UPSTREAM_FAULT_LOG_CAPACITY \<le> length h")
    case True
    with assms show ?thesis by (simp add: log_of_def tl_drop drop_Suc Suc_diff_le flip: drop_Suc)
  next
    case False
    with assms show ?thesis by (simp add: log_of_def)
  qed
  with n show ?thesis
    by (simp add: record_fault_def Let_def log_of_def numbered_snoc UPSTREAM_FAULT_LOG_CAPACITY_def)
qed

lemma others_in_log:
  assumes "length h < 2 ^ 64" "d \<le> unat s"
  shows "set (map snd (filter (\<lambda>(seq, j). s < seq \<and> j \<noteq> i) (drop d (numbered h)))) = set (drop (unat s) h) - {i}"
    (is "?L = ?R")
proof -
  have seq: "s < (word_of_nat (Suc k) :: u64) \<longleftrightarrow> unat s \<le> k" if "k < length h" for k
    using that assms(1) by (simp add: word_less_nat_alt unat_of_nat less_Suc_eq_le del: of_nat_Suc)
  show ?thesis
  proof (intro set_eqI iffI)
    fix x assume "x \<in> ?L"
    then obtain k where "k < length h - d" "snd (numbered h ! (d + k)) = x" "s < fst (numbered h ! (d + k))" "x \<noteq> i"
      by (auto simp: in_set_conv_nth)
    with seq [of "d + k"] have "unat s \<le> d + k" "h ! (d + k) = x" "d + k < length h" "x \<noteq> i"
      by (auto simp: numbered_nth)
    then show "x \<in> ?R" by (auto simp: in_set_conv_nth intro!: exI [of _ "d + k - unat s"])
  next
    fix x assume "x \<in> ?R"
    then obtain k where k: "k < length h - unat s" "h ! (unat s + k) = x" "x \<noteq> i"
      by (auto simp: in_set_conv_nth)
    with seq [of "unat s + k"] have "numbered h ! (unat s + k) = (word_of_nat (Suc (unat s + k)), x)"
      "s < word_of_nat (Suc (unat s + k))"
      by (simp_all add: numbered_nth)
    moreover have "numbered h ! (unat s + k) \<in> set (drop d (numbered h))"
      using k assms(2) by (auto simp: in_set_conv_nth intro!: exI [of _ "unat s + k - d"])
    ultimately show "x \<in> ?L" using k by force
  qed
qed

lemma record_others:
  assumes l: "log_of h l" and h: "length h < 2 ^ 64"
  shows "snd (fst (record_fault l i s)) =
    (if length h - 256 \<le> unat s then Some (card (set (drop (unat s) h) - {i})) else None)"
proof -
  let ?d = "length h - UPSTREAM_FAULT_LOG_CAPACITY"
  have r: "recent l = drop ?d (numbered h)" using l by (simp add: log_of_def)
  have "(case recent l of [] \<Rightarrow> True | (oldest, _) # _ \<Rightarrow> oldest \<le> sat_add s 1) \<longleftrightarrow> ?d \<le> unat s"
  proof (cases "h = []")
    case True
    then show ?thesis by (simp add: r numbered_def)
  next
    case False
    then have d: "?d < length h" by (simp add: UPSTREAM_FAULT_LOG_CAPACITY_def)
    then have "recent l = (word_of_nat (Suc ?d), h ! ?d) # drop (Suc ?d) (numbered h)"
      by (simp add: r Cons_nth_drop_Suc [symmetric] numbered_nth)
    moreover have "unat (word_of_nat (Suc ?d) :: u64) = Suc ?d" using d h by (simp add: unat_of_nat del: of_nat_Suc)
    moreover have "Suc ?d \<le> 2 ^ 64 - 1" using d h by simp
    ultimately show ?thesis by (auto simp: word_le_nat_alt unat_sat_add simp del: of_nat_Suc)
  qed
  moreover have "length (remdups xs) = card (set xs)" for xs :: "u64 list" by (simp add: length_remdups_card_conv)
  ultimately show ?thesis
    using others_in_log [OF h, of ?d s i]
    by (simp add: record_fault_def Let_def r UPSTREAM_FAULT_LOG_CAPACITY_def del: set_map)
qed

text \<open>
  The bounded fault log answers as the whole history would.  After any sequence of fewer than
  \<open>2 ^ 64\<close> faults it holds at most 256 of them and gives the next fault its place in the history;
  the number of other accounts that faulted since an earlier place is exact whenever the log
  still reaches back that far, and otherwise it says so instead of guessing.
\<close>

theorem fault_log_answers_as_the_history:
  assumes "log_of h l" "length h < 2 ^ 64"
  shows "fst (record_fault l i s) =
      (word_of_nat (length h + 1),
       if length h - 256 \<le> unat s then Some (card (set (drop (unat s) h) - {i})) else None) \<and>
    log_of (h @ [i]) (snd (record_fault l i s)) \<and> length (recent (snd (record_fault l i s))) \<le> 256"
proof -
  have "log_of (h @ [i]) (snd (record_fault l i s))" using log_of_record [OF assms(1)] by blast
  then show ?thesis
    using log_of_record [OF assms(1), of i s] record_others [OF assms, of i s]
    by (simp add: prod_eq_iff) (simp add: log_of_def UPSTREAM_FAULT_LOG_CAPACITY_def)
qed

theorem fault_log_answers_as_the_history_witness:
  "fst (record_fault \<lparr>next_seq = 3, recent = [(1, 7), (2, 8), (3, 9)]\<rparr> 7 1) = (4, Some 2)"
proof -
  have "log_of [7, 8, 9] \<lparr>next_seq = 3, recent = [(1, 7), (2, 8), (3, 9)]\<rparr>"
    by (simp add: log_of_def numbered_def UPSTREAM_FAULT_LOG_CAPACITY_def)
  from fault_log_answers_as_the_history [OF this, of 7 1] show ?thesis
    by (simp add: prod_eq_iff insert_Diff_if)
qed

subsection \<open>Pool-wide faults and faults of one account\<close>

text \<open>A run of faults, each at its own instant; the answers in order.\<close>

fun note_faults ::
    "(instant \<times> u64) list \<Rightarrow> 'f credential_entry list \<Rightarrow> upstream_fault_log \<Rightarrow>
     bool list \<times> 'f credential_entry list \<times> upstream_fault_log" where
  "note_faults [] entries log = ([], entries, log)"
| "note_faults ((now, i) # faults) entries log =
     (let (cool, entries, log) = note_upstream_fault now i entries log;
          (answers, entries, log) = note_faults faults entries log
      in (cool # answers, entries, log))"

text \<open>The faults after the last one of an account, latest first, and the place of that one.\<close>

definition since_last :: "u64 list \<Rightarrow> u64 \<Rightarrow> u64 list" where
  "since_last h i = takeWhile (\<lambda>j. j \<noteq> i) (rev h)"

definition last_place :: "u64 list \<Rightarrow> u64 \<Rightarrow> nat" where
  "last_place h i = length h - length (since_last h i)"

lemma since_last_snoc: "since_last (h @ [j]) i = (if j = i then [] else j # since_last h i)"
  by (simp add: since_last_def)

lemma since_last_le: "length (since_last h i) \<le> length h"
  using length_takeWhile_le [of "\<lambda>j. j \<noteq> i" "rev h"] by (simp add: since_last_def)

lemma last_place_snoc: "last_place (h @ [j]) i = (if j = i then Suc (length h) else last_place h i)"
  using since_last_le [of h i] by (simp add: last_place_def since_last_snoc)

lemma since_last_other: "i \<notin> set (since_last h i)"
  by (auto simp: since_last_def dest: set_takeWhileD)

lemma drop_last_place: "set (drop (last_place h i) h) = set (since_last h i)"
proof -
  have "drop (last_place h i) h = rev (take (length (since_last h i)) (rev h))"
    using since_last_le [of h i] by (simp add: last_place_def take_rev)
  moreover have "take (length (since_last h i)) (rev h) = since_last h i"
    by (simp add: since_last_def takeWhile_eq_take [symmetric])
  ultimately show ?thesis by simp
qed

text \<open>
  Every account's last place is recorded, and an account that never faulted has no streak.
\<close>

definition seqs_ok :: "u64 list \<Rightarrow> 'f credential_entry list \<Rightarrow> bool" where
  "seqs_ok h entries \<longleftrightarrow> distinct (map entry_id entries) \<and>
     list_all (\<lambda>e. upstream_fault_seq e = word_of_nat (last_place h (entry_id e))) entries"

text \<open>One fault of a known account, in terms of the history.\<close>

lemma note_known:
  fixes now :: instant
  assumes "log_of h l" "length h < 2 ^ 64" "seqs_ok h entries" "e \<in> set entries"
  defines "i \<equiv> entry_id e"
  defines "u \<equiv> other_usable now i entries"
    and "n \<equiv> card (set (since_last h i))"
  defines "c \<equiv> u = 0 \<or> length h - 256 \<le> last_place h i \<and> n * 2 < u"
  defines "e' \<equiv> note_entry_fault (word_of_nat (Suc (length h))) c e"
  shows "\<exists>l'. note_upstream_fault now i entries l =
      (3 \<le> upstream_fault_streak e', map (\<lambda>x. if entry_id x = i then e' else x) entries, l') \<and>
    log_of (h @ [i]) l' \<and> seqs_ok (h @ [i]) (map (\<lambda>x. if entry_id x = i then e' else x) entries)"
proof -
  have d: "distinct (map entry_id entries)" and s: "upstream_fault_seq e = word_of_nat (last_place h i)"
    using assms by (auto simp: seqs_ok_def list_all_iff)
  have "last_place h i \<le> length h" by (simp add: last_place_def)
  then have u: "unat (upstream_fault_seq e) = last_place h i"
    using assms(2) by (simp add: s unat_of_nat)
  have others: "set (drop (last_place h i) h) - {i} = set (since_last h i)"
    using since_last_other [of i h] by (simp add: drop_last_place)
  obtain l' where r: "record_fault l i (upstream_fault_seq e) =
      ((word_of_nat (Suc (length h)), if length h - 256 \<le> last_place h i then Some n else None), l')"
    and l': "log_of (h @ [i]) l'"
    using log_of_record [OF assms(1), of i "upstream_fault_seq e"]
      record_others [OF assms(1,2), of i "upstream_fault_seq e"] others
    by (cases "record_fault l i (upstream_fault_seq e)") (auto simp: u n_def prod_eq_iff)
  have f: "find (\<lambda>x. entry_id x = i) entries = Some e"
    using d assms(4) i_def find_by_id by fastforce
  have m: "find_update (\<lambda>x. entry_id x = i) (\<lambda>_. e') entries = map (\<lambda>x. if entry_id x = i then e' else x) entries"
    using find_update_unique [OF d, of e i] assms(4) by (simp add: i_def)
  have c: "c \<longleftrightarrow> u = 0 \<or> (case (if length h - 256 \<le> last_place h i then Some n else None) of
      None \<Rightarrow> False | Some n \<Rightarrow> n * 2 < u)"
    by (simp add: c_def)
  have "note_upstream_fault now i entries l =
      (3 \<le> upstream_fault_streak e', map (\<lambda>x. if entry_id x = i then e' else x) entries, l')"
    unfolding note_upstream_fault_def Let_def f r option.case prod.case u_def [symmetric] c [symmetric]
      e'_def [symmetric] m UPSTREAM_FAULT_STREAK_COOLDOWN_def by (rule refl)
  moreover have "seqs_ok (h @ [i]) (map (\<lambda>x. if entry_id x = i then e' else x) entries)" (is "seqs_ok _ ?es")
  proof -
    have e': "entry_id e' = i" "upstream_fault_seq e' = word_of_nat (Suc (length h))"
      by (simp_all add: e'_def note_entry_fault_def i_def)
    then have ids: "map entry_id ?es = map entry_id entries" by simp
    have "upstream_fault_seq x = word_of_nat (last_place (h @ [i]) (entry_id x))" if "x \<in> set ?es" for x
    proof (cases "entry_id x = i")
      case True
      with that e' have "x = e'" by (auto split: if_splits)
      with e' show ?thesis by (simp add: last_place_snoc)
    next
      case False
      with that e' have "x \<in> set entries" by (auto split: if_splits)
      with assms(3) False show ?thesis by (simp add: seqs_ok_def list_all_iff last_place_snoc)
    qed
    then show ?thesis unfolding seqs_ok_def ids using d by (simp only: list_all_iff) blast
  qed
  ultimately show ?thesis using l' by blast
qed

text \<open>
  A run is spread over the pool when an account faults again only after at least half of the
  other enabled accounts have faulted in between (and there is another enabled account).
\<close>

fun spread_faults :: "'f credential_entry list \<Rightarrow> u64 list \<Rightarrow> u64 list \<Rightarrow> bool" where
  "spread_faults entries h [] \<longleftrightarrow> True"
| "spread_faults entries h (i # faults) \<longleftrightarrow>
     (i \<in> set h \<longrightarrow> enabled_others i entries \<noteq> [] \<and>
        length (enabled_others i entries) \<le> 2 * card (set (since_last h i))) \<and>
     spread_faults entries (h @ [i]) faults"

definition idle_streaks :: "u64 list \<Rightarrow> 'f credential_entry list \<Rightarrow> bool" where
  "idle_streaks h entries \<longleftrightarrow>
     list_all (\<lambda>e. upstream_fault_streak e \<le> 1 \<and> (entry_id e \<notin> set h \<longrightarrow> upstream_fault_streak e = 0)) entries"

lemma other_usable_bounds:
  "other_usable now i entries \<le> length (enabled_others i entries)"
  "enabled_others i entries \<noteq> [] \<Longrightarrow> 0 < other_usable now i entries"
  by (simp_all add: other_usable_def Let_def)

lemma enabled_others_cong:
  assumes "entry_id e' = i" "entry_id e = i" "disabled e' = disabled e" "e \<in> set entries"
    "distinct (map entry_id entries)"
  shows "length (enabled_others j (map (\<lambda>x. if entry_id x = i then e' else x) entries)) =
    length (enabled_others j entries)"
proof -
  have same: "x = e" if "x \<in> set entries" "entry_id x = i" for x
    using that assms(2,4,5) by (simp add: distinct_map inj_on_def)
  have "length (enabled_others j (map (\<lambda>x. if entry_id x = i then e' else x) entries)) =
      length (filter (\<lambda>x. entry_id (if entry_id x = i then e' else x) \<noteq> j \<and> \<not> disabled (if entry_id x = i then e' else x)) entries)"
    by (simp add: enabled_others_def filter_map o_def)
  also have "filter (\<lambda>x. entry_id (if entry_id x = i then e' else x) \<noteq> j \<and> \<not> disabled (if entry_id x = i then e' else x)) entries =
      enabled_others j entries"
    unfolding enabled_others_def
  proof (rule filter_cong [OF refl])
    fix x assume "x \<in> set entries"
    with same assms(1-3) show "(entry_id (if entry_id x = i then e' else x) \<noteq> j \<and>
        \<not> disabled (if entry_id x = i then e' else x)) = (entry_id x \<noteq> j \<and> \<not> disabled x)"
      by (cases "entry_id x = i") simp_all
  qed
  finally show ?thesis .
qed

lemma spread_faults_cong:
  "(\<And>j. length (enabled_others j entries) = length (enabled_others j entries')) \<Longrightarrow>
   spread_faults entries h faults \<longleftrightarrow> spread_faults entries' h faults"
  by (induction faults arbitrary: h) (simp_all flip: length_greater_0_conv)

lemma spread_run_cools_nobody:
  assumes "log_of h l" "seqs_ok h entries" "idle_streaks h entries" "spread_faults entries h (map snd faults)"
    "length h + length faults < 2 ^ 64" "set (map snd faults) \<subseteq> entry_id ` set entries"
  shows "list_all Not (fst (note_faults faults entries l))"
  using assms
proof (induction faults arbitrary: h l entries)
  case Nil
  then show ?case by simp
next
  case (Cons f faults)
  obtain now i where f: "f = (now, i)" by fastforce
  from Cons.prems(6) f obtain e where e: "e \<in> set entries" "i = entry_id e" by auto
  define c where "c \<longleftrightarrow> other_usable now i entries = 0 \<or>
    length h - 256 \<le> last_place h i \<and> card (set (since_last h i)) * 2 < other_usable now i entries"
  define e' where "e' = note_entry_fault (word_of_nat (Suc (length h))) c e"
  let ?es = "map (\<lambda>x. if entry_id x = i then e' else x) entries"
  have "length h < 2 ^ 64" using Cons.prems(5) by simp
  from note_known [OF Cons.prems(1) this Cons.prems(2) e(1), where now = now] obtain l' where
    noted: "note_upstream_fault now i entries l = (3 \<le> upstream_fault_streak e', ?es, l')"
    and l': "log_of (h @ [i]) l'" and s': "seqs_ok (h @ [i]) ?es"
    unfolding e(2) [symmetric] c_def [symmetric] e'_def [symmetric] by blast
  have idle: "i \<notin> set h \<Longrightarrow> upstream_fault_streak e = 0"
    using Cons.prems(3) e by (auto simp: idle_streaks_def list_all_iff)
  have "i \<in> set h \<Longrightarrow> \<not> c"
    using Cons.prems(4) other_usable_bounds [where now = now and i = i and entries = entries] by (simp add: f c_def)
  with idle have one: "upstream_fault_streak e' = 1"
    by (cases "i \<in> set h") (simp_all add: e'_def note_entry_fault_def)
  have e'_id: "entry_id e' = i" "disabled e' = disabled e" by (simp_all add: e'_def note_entry_fault_def e(2))
  have "idle_streaks (h @ [i]) ?es"
    using Cons.prems(3) one e'_id unfolding idle_streaks_def list_all_iff by fastforce
  moreover have "spread_faults ?es (h @ [i]) (map snd faults)"
  proof -
    have "length (enabled_others j ?es) = length (enabled_others j entries)" for j
      using enabled_others_cong [OF e'_id(1) e(2) [symmetric] e'_id(2) e(1)] Cons.prems(2) by (simp add: seqs_ok_def)
    from spread_faults_cong [OF this] Cons.prems(4) show ?thesis by (simp add: f)
  qed
  moreover have "map entry_id ?es = map entry_id entries" using e'_id by simp
  from arg_cong [where f = set, OF this] have "entry_id ` set ?es = entry_id ` set entries" by (simp only: set_map)
  with Cons.prems(6) have "set (map snd faults) \<subseteq> entry_id ` set ?es" by (simp only: f) simp
  ultimately have "list_all Not (fst (note_faults faults ?es l'))"
    using Cons.prems(5) Cons.IH [OF l' s'] by simp
  with noted one show ?case by (auto simp: f word_le_nat_alt split: prod.splits)
qed

text \<open>Faults of one account with nobody else's in between are concentrated.\<close>

lemma note_alone:
  assumes "log_of h l" "length h < 2 ^ 64" "seqs_ok h entries" "e \<in> set entries"
    and "since_last h (entry_id e) = []" "0 < upstream_fault_streak e" "upstream_fault_streak e < 3"
  shows "\<exists>e' entries' l'. note_upstream_fault now (entry_id e) entries l = (3 \<le> upstream_fault_streak e', entries', l') \<and>
    log_of (h @ [entry_id e]) l' \<and> seqs_ok (h @ [entry_id e]) entries' \<and> e' \<in> set entries' \<and>
    entry_id e' = entry_id e \<and> upstream_fault_streak e' = upstream_fault_streak e + 1"
proof -
  let ?e' = "note_entry_fault (word_of_nat (Suc (length h))) True e"
  have "sat_add (upstream_fault_streak e) 1 = upstream_fault_streak e + 1"
    using assms(7) by (simp add: sat_add_def word_less_nat_alt)
  then have e': "entry_id ?e' = entry_id e" "upstream_fault_streak ?e' = upstream_fault_streak e + 1"
    using assms(6) by (simp_all add: note_entry_fault_def)
  have c: "(other_usable now (entry_id e) entries = 0 \<or> length h - 256 \<le> last_place h (entry_id e) \<and>
      card (set (since_last h (entry_id e))) * 2 < other_usable now (entry_id e) entries) \<longleftrightarrow> True"
    using assms(5) by (auto simp: last_place_def)
  have "?e' \<in> set (map (\<lambda>x. if entry_id x = entry_id e then ?e' else x) entries)"
    using assms(4) by force
  with e' note_known [OF assms(1-4), where now = now] show ?thesis unfolding c by blast
qed

lemma note_first:
  assumes "log_of h l" "length h < 2 ^ 64" "seqs_ok h entries" "e \<in> set entries" "upstream_fault_streak e = 0"
  shows "\<exists>e' entries' l'. note_upstream_fault now (entry_id e) entries l = (3 \<le> upstream_fault_streak e', entries', l') \<and>
    log_of (h @ [entry_id e]) l' \<and> seqs_ok (h @ [entry_id e]) entries' \<and> e' \<in> set entries' \<and>
    entry_id e' = entry_id e \<and> upstream_fault_streak e' = 1"
proof -
  have e': "entry_id (note_entry_fault s c e) = entry_id e \<and> upstream_fault_streak (note_entry_fault s c e) = 1"
    for s c using assms(5) by (simp add: note_entry_fault_def)
  have "x \<in> set (map (\<lambda>y. if entry_id y = entry_id e then x else y) entries)" for x
    using assms(4) by force
  with e' note_known [OF assms(1-4), where now = now] show ?thesis by blast
qed

lemma three_in_a_row:
  assumes l: "log_of h l" "length h < 2 ^ 64 - 3" and s: "seqs_ok h entries" and e: "e \<in> set entries"
    and "upstream_fault_streak e = 0"
  shows "fst (note_faults [(t1, entry_id e), (t2, entry_id e), (t3, entry_id e)] entries l) = [False, False, True]"
proof -
  let ?i = "entry_id e"
  have "length h < 2 ^ 64" using l(2) by simp
  from note_first [OF l(1) this s e assms(5), where now = t1] obtain e1 es1 l1 where
    n1: "note_upstream_fault t1 ?i entries l = (3 \<le> upstream_fault_streak e1, es1, l1)"
    and l1: "log_of (h @ [?i]) l1" "seqs_ok (h @ [?i]) es1" "e1 \<in> set es1"
    and e1: "entry_id e1 = ?i" "upstream_fault_streak e1 = 1"
    by blast
  have len: "length (h @ [?i]) < 2 ^ 64" "length (h @ [?i, ?i]) < 2 ^ 64" using l(2) by simp_all
  from note_alone [OF l1(1) len(1) l1(2,3), where now = t2] e1 obtain e2 es2 l2 where
    n2: "note_upstream_fault t2 ?i es1 l1 = (3 \<le> upstream_fault_streak e2, es2, l2)"
    and l2: "log_of (h @ [?i, ?i]) l2" "seqs_ok (h @ [?i, ?i]) es2" "e2 \<in> set es2"
    and e2: "entry_id e2 = ?i" "upstream_fault_streak e2 = 2"
    by (auto simp: since_last_snoc)
  from note_alone [OF l2(1) len(2) l2(2,3), where now = t3] e2 obtain es3 l3 where
    n3: "note_upstream_fault t3 ?i es2 l2 = (True, es3, l3)"
    using since_last_snoc [of "h @ [?i]" ?i ?i] by auto
  show ?thesis by (simp add: n1 n2 n3 e1 e2 word_le_nat_alt)
qed

text \<open>C33. 
  Upstream faults are held against an account only when they are its own.  In an outage that goes
  round the pool, where an account faults again only after at least half of the other enabled
  accounts did, no fault of the run asks for a cooldown, however long it is and whenever it
  happens.  After any such run, or any other history, an account without a streak that faults
  three times with nobody else faulting in between is cooled down at the third fault and not
  before.
\<close>

theorem faults_are_held_against_the_right_account:
  assumes "distinct (map entry_id entries)"
    and "list_all (\<lambda>e. upstream_fault_seq e = 0 \<and> upstream_fault_streak e = 0) entries"
  shows "(spread_faults entries [] (map snd faults) \<and> length faults < 2 ^ 64 \<and>
        set (map snd faults) \<subseteq> entry_id ` set entries \<longrightarrow>
      list_all Not (fst (note_faults faults entries fault_log_new))) \<and>
    (log_of h l \<and> length h < 2 ^ 64 - 3 \<and> seqs_ok h pool \<and> e \<in> set pool \<and> upstream_fault_streak e = 0 \<longrightarrow>
      fst (note_faults [(t1, entry_id e), (t2, entry_id e), (t3, entry_id e)] pool l) = [False, False, True])"
proof -
  have "seqs_ok [] entries" "idle_streaks [] entries"
    using assms by (simp_all add: seqs_ok_def idle_streaks_def list_all_iff last_place_def)
  from spread_run_cools_nobody [OF log_of_new this, of faults] three_in_a_row [of h l pool e t1 t2 t3]
  show ?thesis by auto
qed

definition example_pool :: "unit credential_entry list" where
  "example_pool = [example_entry, example_entry\<lparr>entry_id := 2\<rparr>, example_entry\<lparr>entry_id := 3\<rparr>]"

theorem faults_are_held_against_the_right_account_witness:
  "list_all Not (fst (note_faults [(5, 1), (6, 2), (7, 1), (8, 3), (9, 2)] example_pool fault_log_new)) \<and>
   fst (note_faults [(5, 2), (6, 2), (7, 2)] example_pool fault_log_new) = [False, False, True]"
proof -
  have p: "distinct (map entry_id example_pool)"
    "list_all (\<lambda>e. upstream_fault_seq e = 0 \<and> upstream_fault_streak e = 0) example_pool"
    "seqs_ok [] example_pool" "example_entry\<lparr>entry_id := 2\<rparr> \<in> set example_pool"
    by (simp_all add: example_pool_def example_entry_def seqs_ok_def last_place_def)
  have "spread_faults example_pool [] [1, 2, 1, 3, 2]" "set [1, 2, 1, 3, 2] \<subseteq> entry_id ` set example_pool"
    by (simp_all add: example_pool_def example_entry_def enabled_others_def since_last_def)
  with faults_are_held_against_the_right_account [OF p(1,2), of "[(5, 1), (6, 2), (7, 1), (8, 3), (9, 2)]"
      "[]" fault_log_new example_pool "example_entry\<lparr>entry_id := 2\<rparr>" 5 6 7] p(3,4) log_of_new
  show ?thesis by (simp add: example_entry_def)
qed

end
