(* ===== verification/Runtime_Lag.thy ===== *)
theory Runtime_Lag
  imports Availability
begin

text \<open>
  How late the process runs its tasks (\<open>src/common/runtime_lag.rs\<close>): a ring of four buckets of
  half a second holds the largest delay of a probe task, and the overdue part of the probe's
  current sleep counts as well.  The breaker around the scheduler's Redis calls asks it whether a
  timeout was the process's own fault.

  Instants and durations are nanoseconds; the two readings of the clock after a sleep are one
  instant.  The probe task is the only writer; each of its atomic
  stores between two waits is one function, so a reader sees the state between two of them.
\<close>

subsection \<open>Operations\<close>

definition PROBE_INTERVAL :: duration where "PROBE_INTERVAL = millis 20"
definition BUCKETS :: nat where "BUCKETS = 4"
definition BUCKET_SPAN :: duration where "BUCKET_SPAN = millis 500"

definition as_micros :: "duration \<Rightarrow> nat" where "as_micros d = d div 1000"
definition as_millis :: "duration \<Rightarrow> nat" where "as_millis d = d div 1000000"

record runtime_lag =
  origin :: instant
  bucket_index :: "u64 list"
  bucket_max_micros :: "u64 list"
  sleeping_since_micros :: u64

definition runtime_lag_new :: "instant \<Rightarrow> runtime_lag" where
  "runtime_lag_new now =
     \<lparr>origin = now, bucket_index = replicate BUCKETS 0, bucket_max_micros = replicate BUCKETS 0,
      sleeping_since_micros = 0\<rparr>"

definition micros_since_origin :: "runtime_lag \<Rightarrow> instant \<Rightarrow> u64" where
  "micros_since_origin l at =
     word_of_nat (min (as_micros (saturating_duration_since at (origin l))) (2 ^ 64 - 2))"

definition bucket_of :: "runtime_lag \<Rightarrow> instant \<Rightarrow> u64" where
  "bucket_of l at = word_of_nat (as_millis (saturating_duration_since at (origin l)) div as_millis BUCKET_SPAN)"

definition lag_micros :: "duration \<Rightarrow> u64" where
  "lag_micros late = word_of_nat (min (as_micros late) (2 ^ 64 - 1))"

definition record_lag :: "instant \<Rightarrow> duration \<Rightarrow> runtime_lag \<Rightarrow> runtime_lag" where
  "record_lag at late l =
     (let index = bucket_of l at; slot = unat index mod BUCKETS; micros = lag_micros late;
          previous = bucket_index l ! slot;
          l = l\<lparr>bucket_index := (bucket_index l)[slot := index]\<rparr>
      in l\<lparr>bucket_max_micros := (bucket_max_micros l)[slot :=
             (if previous \<noteq> index then micros else max (bucket_max_micros l ! slot) micros)]\<rparr>)"

text \<open>One round of the probe: the sleep begins, and it ends at \<open>woken\<close>.\<close>

definition probe_sleep :: "instant \<Rightarrow> runtime_lag \<Rightarrow> runtime_lag" where
  "probe_sleep asked_at l = l\<lparr>sleeping_since_micros := micros_since_origin l asked_at + 1\<rparr>"

definition probe_wake :: "instant \<Rightarrow> instant \<Rightarrow> runtime_lag \<Rightarrow> runtime_lag" where
  "probe_wake asked_at woken l =
     record_lag woken (saturating_duration_since woken asked_at - PROBE_INTERVAL) (l\<lparr>sleeping_since_micros := 0\<rparr>)"

definition overdue :: "instant \<Rightarrow> runtime_lag \<Rightarrow> u64" where
  "overdue now l =
     (if 0 < sleeping_since_micros l
      then sat_sub (sat_sub (micros_since_origin l now) (sleeping_since_micros l - 1))
             (word_of_nat (as_micros PROBE_INTERVAL))
      else 0)"

definition recent_max_at :: "instant \<Rightarrow> runtime_lag \<Rightarrow> duration" where
  "recent_max_at now l =
     (let current = bucket_of l now; oldest = sat_sub current (word_of_nat (BUCKETS - 1));
          m = fold (\<lambda>slot m. let index = bucket_index l ! slot in
                 if oldest \<le> index \<and> index \<le> current then max m (bucket_max_micros l ! slot) else m)
               [0..<BUCKETS] (overdue now l)
      in unat m * 1000)"

subsection \<open>The ring against the list of all samples\<close>

text \<open>A sample is its bucket and its delay; \<open>peak\<close> is the largest delay among some of them.\<close>

type_synonym lag_sample = "u64 \<times> u64"

definition peak :: "(lag_sample \<Rightarrow> bool) \<Rightarrow> lag_sample list \<Rightarrow> u64" where
  "peak p ss = fold max (map snd (filter p ss)) 0"

definition slot_of :: "u64 \<Rightarrow> nat" where "slot_of b = unat b mod 4"

definition slot_ok :: "lag_sample list \<Rightarrow> nat \<Rightarrow> u64 \<Rightarrow> u64 \<Rightarrow> bool" where
  "slot_ok ss k index m \<longleftrightarrow>
     (index = 0 \<or> (\<exists>s \<in> set ss. fst s = index \<and> slot_of index = k)) \<and>
     (\<forall>s \<in> set ss. slot_of (fst s) = k \<longrightarrow> fst s \<le> index) \<and>
     m = peak (\<lambda>s. fst s = index \<and> slot_of (fst s) = k) ss"

definition ring_ok :: "lag_sample list \<Rightarrow> runtime_lag \<Rightarrow> bool" where
  "ring_ok ss l \<longleftrightarrow> length (bucket_index l) = 4 \<and> length (bucket_max_micros l) = 4 \<and>
     (\<forall>k < 4. slot_ok ss k (bucket_index l ! k) (bucket_max_micros l ! k))"

lemma fold_max_le: "fold max xs (a :: 'a::linorder) \<le> c \<longleftrightarrow> a \<le> c \<and> (\<forall>x \<in> set xs. x \<le> c)"
  by (induction xs arbitrary: a) auto

lemma peak_le: "peak p ss \<le> c \<longleftrightarrow> (\<forall>s \<in> set ss. p s \<longrightarrow> snd s \<le> c)"
  by (auto simp: peak_def fold_max_le)

lemma peak_snoc: "peak p (ss @ [s]) = (if p s then max (peak p ss) (snd s) else peak p ss)"
  by (simp add: peak_def max.commute)

lemma peak_none: "(\<And>s. s \<in> set ss \<Longrightarrow> \<not> p s) \<Longrightarrow> peak p ss = 0"
  by (simp add: peak_def)

lemma slot_ok_other:
  "slot_ok ss k i m \<Longrightarrow> slot_of (fst s) \<noteq> k \<Longrightarrow> slot_ok (ss @ [s]) k i m"
  by (auto simp: slot_ok_def peak_snoc)

lemma slot_ok_hit:
  assumes "slot_ok ss k i m" "slot_of b = k" "\<forall>s \<in> set ss. fst s \<le> b"
  shows "slot_ok (ss @ [(b, x)]) k b (if i \<noteq> b then x else max m x)"
proof (cases "i = b")
  case True
  with assms show ?thesis by (auto simp: slot_ok_def peak_snoc)
next
  case False
  have "i \<le> b" using assms by (auto simp: slot_ok_def)
  with False have "peak (\<lambda>s. fst s = b \<and> slot_of (fst s) = k) ss = 0"
    using assms(1) by (intro peak_none) (auto simp: slot_ok_def)
  with False assms show ?thesis by (auto simp: slot_ok_def peak_snoc)
qed

lemma ring_ok_new: "ring_ok [] (runtime_lag_new now)"
  by (simp add: ring_ok_def slot_ok_def runtime_lag_new_def peak_def BUCKETS_def)

lemma ring_ok_record:
  assumes "ring_ok ss l" "\<forall>s \<in> set ss. fst s \<le> bucket_of l at"
  shows "ring_ok (ss @ [(bucket_of l at, lag_micros late)]) (record_lag at late l)"
proof -
  let ?b = "bucket_of l at"
  have "slot_of ?b < 4" by (simp add: slot_of_def)
  have "slot_ok (ss @ [(?b, lag_micros late)]) k (bucket_index (record_lag at late l) ! k)
      (bucket_max_micros (record_lag at late l) ! k)" if "k < 4" for k
  proof (cases "slot_of ?b = k")
    case True
    then show ?thesis
      using assms that slot_ok_hit [of ss k "bucket_index l ! k" "bucket_max_micros l ! k" ?b "lag_micros late"]
      by (auto simp: ring_ok_def record_lag_def Let_def slot_of_def BUCKETS_def split: if_splits)
  next
    case False
    then show ?thesis
      using assms that slot_ok_other [of ss k "bucket_index l ! k" "bucket_max_micros l ! k" "(?b, lag_micros late)"]
      by (simp add: ring_ok_def record_lag_def Let_def slot_of_def BUCKETS_def)
  qed
  then show ?thesis using assms by (simp add: ring_ok_def record_lag_def Let_def)
qed

lemma fold_window_le:
  "fold (\<lambda>k m. if p k then max m (f k) else m) ks (a :: 'a::linorder) \<le> c \<longleftrightarrow>
   a \<le> c \<and> (\<forall>k \<in> set ks. p k \<longrightarrow> f k \<le> c)"
  by (induction ks arbitrary: a) auto

lemma same_slot_in_window:
  assumes "unat c - 3 \<le> unat a" "a \<le> b" "b \<le> c" "slot_of a = slot_of b"
  shows "a = b"
proof -
  have "unat a \<le> unat b" "unat b \<le> unat c" using assms by (simp_all add: word_le_nat_alt)
  moreover from assms(1) this have "unat b - unat a < 4" by linarith
  moreover have "(unat b - unat a) mod 4 = 0"
    using assms(4) mod_eq_dvd_iff_nat [of "unat a" "unat b" 4] calculation(1) by (simp add: slot_of_def)
  ultimately have "unat a = unat b" by simp
  then show ?thesis by (simp add: word_unat_eq_iff)
qed

lemma recent_max_eq:
  assumes ring: "ring_ok ss l" and past: "\<forall>s \<in> set ss. fst s \<le> bucket_of l now"
  shows "recent_max_at now l =
    unat (max (overdue now l) (peak (\<lambda>s. unat (bucket_of l now) - 3 \<le> unat (fst s)) ss)) * 1000"
proof -
  let ?c = "bucket_of l now" and ?f = "\<lambda>k. bucket_max_micros l ! k" and ?i = "\<lambda>k. bucket_index l ! k"
  define p where "p k \<longleftrightarrow> sat_sub ?c 3 \<le> ?i k \<and> ?i k \<le> ?c" for k
  have ok: "slot_ok ss k (?i k) (?f k)" if "k < 4" for k using ring that by (simp add: ring_ok_def)
  have peaks: "(\<forall>k < 4. p k \<longrightarrow> ?f k \<le> x) \<longleftrightarrow> (\<forall>s \<in> set ss. unat ?c - 3 \<le> unat (fst s) \<longrightarrow> snd s \<le> x)"
    (is "?L = ?R") for x
  proof
    assume L: ?L
    show ?R
    proof (intro ballI impI)
      fix s assume s: "s \<in> set ss" "unat ?c - 3 \<le> unat (fst s)"
      let ?k = "slot_of (fst s)"
      have k: "?k < 4" by (simp add: slot_of_def)
      from ok [OF k] s have le: "fst s \<le> ?i ?k"
        and src: "?i ?k = 0 \<or> (\<exists>t \<in> set ss. fst t = ?i ?k \<and> slot_of (?i ?k) = ?k)"
        and m: "?f ?k = peak (\<lambda>t. fst t = ?i ?k \<and> slot_of (fst t) = ?k) ss"
        by (auto simp: slot_ok_def)
      have cur: "?i ?k \<le> ?c" using src past by auto
      have "fst s = ?i ?k"
        using src
      proof
        assume "?i ?k = 0" with le show ?thesis by simp
      next
        assume "\<exists>t \<in> set ss. fst t = ?i ?k \<and> slot_of (?i ?k) = ?k"
        then show ?thesis using same_slot_in_window [OF s(2) le cur] by auto
      qed
      then have "p ?k" and "snd s \<le> ?f ?k"
        using s cur peak_le [of "\<lambda>t. fst t = ?i ?k \<and> slot_of (fst t) = ?k" ss "?f ?k"] m
        by (auto simp: p_def word_le_nat_alt unat_sat_sub)
      with L k show "snd s \<le> x" by fastforce
    qed
  next
    assume R: ?R
    show ?L
    proof (intro allI impI)
      fix k assume k: "k < (4 :: nat)" "p k"
      then have "unat ?c - 3 \<le> unat (?i k)" by (simp add: p_def word_le_nat_alt unat_sat_sub)
      with ok [OF k(1)] R show "?f k \<le> x" by (auto simp: slot_ok_def peak_le)
    qed
  qed
  let ?m = "fold (\<lambda>k m. if p k then max m (?f k) else m) [0..<4] (overdue now l)"
  have "?m \<le> x \<longleftrightarrow> max (overdue now l) (peak (\<lambda>s. unat ?c - 3 \<le> unat (fst s)) ss) \<le> x" for x
    unfolding fold_window_le max.bounded_iff peak_le using peaks [of x] by auto
  then have "?m = max (overdue now l) (peak (\<lambda>s. unat ?c - 3 \<le> unat (fst s)) ss)"
    by (meson antisym order_refl)
  then show ?thesis by (simp add: recent_max_at_def Let_def BUCKETS_def p_def)
qed

subsection \<open>Runs of the probe\<close>

definition probe_rounds :: "(instant \<times> instant) list \<Rightarrow> runtime_lag \<Rightarrow> runtime_lag" where
  "probe_rounds = fold (\<lambda>(asked, woken) l. probe_wake asked woken (probe_sleep asked l))"

definition late_of :: "instant \<times> instant \<Rightarrow> duration" where
  "late_of r = snd r - fst r - PROBE_INTERVAL"

definition samples_of :: "instant \<Rightarrow> (instant \<times> instant) list \<Rightarrow> lag_sample list" where
  "samples_of t0 rounds = map (\<lambda>r. (bucket_of (runtime_lag_new t0) (snd r), lag_micros (late_of r))) rounds"

text \<open>The rounds of a probe that started at \<open>t0\<close>, the last of which ended by \<open>now\<close>.\<close>

definition rounds_ok :: "instant \<Rightarrow> (instant \<times> instant) list \<Rightarrow> instant \<Rightarrow> bool" where
  "rounds_ok t0 rounds now \<longleftrightarrow> t0 \<le> now \<and> now - t0 < 2 ^ 63 \<and> sorted (map snd rounds) \<and>
     list_all (\<lambda>r. t0 \<le> fst r \<and> fst r \<le> snd r \<and> snd r \<le> now) rounds"

lemma bucket_of_unat:
  assumes "at - origin l < 2 ^ 63"
  shows "unat (bucket_of l at) = (at - origin l) div 500000000"
proof -
  have "(at - origin l) div 500000000 < 2 ^ 64" using assms by (simp add: div_less_dividend less_mult_imp_div_less)
  then show ?thesis
    by (simp add: bucket_of_def as_millis_def BUCKET_SPAN_def millis_def saturating_duration_since_def unat_of_nat
        flip: div_mult2_eq)
qed

lemma origin_cong: "origin l = origin l' \<Longrightarrow> bucket_of l = bucket_of l'"
  by (simp add: bucket_of_def fun_eq_iff)

lemma origin_rounds: "origin (probe_rounds rounds l) = origin l"
  unfolding probe_rounds_def
  by (induction rounds arbitrary: l) (simp_all add: split_beta probe_wake_def probe_sleep_def record_lag_def Let_def)

lemma bucket_mono:
  assumes "a \<le> b" "b - origin l < 2 ^ 63"
  shows "bucket_of l a \<le> bucket_of l b"
  using assms bucket_of_unat [of a l] bucket_of_unat [of b l]
  by (simp add: word_le_nat_alt div_le_mono diff_le_mono)

lemma rounds_ok_init:
  "rounds_ok t0 (rounds @ [r]) now \<Longrightarrow> rounds_ok t0 rounds (snd r)"
  by (auto simp: rounds_ok_def sorted_append list_all_iff)

lemma ring_ok_rounds:
  "rounds_ok t0 rounds now \<Longrightarrow> ring_ok (samples_of t0 rounds) (probe_rounds rounds (runtime_lag_new t0))"
proof (induction rounds arbitrary: now rule: rev_induct)
  case Nil
  then show ?case by (simp add: samples_of_def probe_rounds_def ring_ok_new)
next
  case (snoc r rounds)
  let ?l = "probe_rounds rounds (runtime_lag_new t0)"
  let ?l' = "(probe_sleep (fst r) ?l)\<lparr>sleeping_since_micros := 0\<rparr>"
  have r: "rounds_ok t0 rounds (snd r)" using snoc.prems by (rule rounds_ok_init)
  have b: "bucket_of ?l' = bucket_of (runtime_lag_new t0)"
    by (rule origin_cong) (simp add: probe_sleep_def origin_rounds)
  have "ring_ok (samples_of t0 rounds) ?l'"
    using snoc.IH [OF r] by (simp add: ring_ok_def probe_sleep_def)
  moreover have "\<forall>s \<in> set (samples_of t0 rounds). fst s \<le> bucket_of ?l' (snd r)"
    unfolding b using r by (auto simp: samples_of_def rounds_ok_def list_all_iff runtime_lag_new_def intro!: bucket_mono)
  ultimately have "ring_ok (samples_of t0 rounds @ [(bucket_of ?l' (snd r), lag_micros (late_of r))])
      (record_lag (snd r) (late_of r) ?l')"
    by (rule ring_ok_record)
  moreover have "samples_of t0 (rounds @ [r]) = samples_of t0 rounds @ [(bucket_of ?l' (snd r), lag_micros (late_of r))]"
    unfolding b by (simp add: samples_of_def)
  moreover have "probe_rounds (rounds @ [r]) (runtime_lag_new t0) = record_lag (snd r) (late_of r) ?l'"
    by (simp add: probe_rounds_def split_beta probe_wake_def late_of_def saturating_duration_since_def)
  ultimately show ?case by (simp only:)
qed

lemma overdue_idle: "overdue now (probe_rounds rounds (runtime_lag_new t0)) = 0"
proof -
  have "sleeping_since_micros (probe_rounds rounds (runtime_lag_new t0)) = 0"
    by (induction rounds rule: rev_induct)
      (simp_all add: probe_rounds_def runtime_lag_new_def split_beta probe_wake_def record_lag_def Let_def)
  then show ?thesis by (simp add: overdue_def)
qed

lemma lag_micros_exact: "late < 2 ^ 63 \<Longrightarrow> unat (lag_micros late) * 1000 = late div 1000 * 1000"
proof -
  assume "late < 2 ^ 63"
  then have "late div 1000 < 2 ^ 63" by (meson div_le_dividend le_less_trans)
  then show ?thesis by (simp add: lag_micros_def as_micros_def unat_of_nat min_def)
qed

lemma overdue_asleep:
  assumes "origin l \<le> asked" "asked \<le> now" "now - origin l < 2 ^ 63"
  shows "unat (overdue now (probe_sleep asked l)) =
    (now - origin l) div 1000 - (asked - origin l) div 1000 - 20000"
proof -
  have m: "unat (micros_since_origin l t) = (t - origin l) div 1000" if "t - origin l < 2 ^ 63" for t
  proof -
    have "(t - origin l) div 1000 < 2 ^ 63" using that by (meson div_le_dividend le_less_trans)
    then show ?thesis
      by (simp add: micros_since_origin_def as_micros_def saturating_duration_since_def unat_of_nat min_def)
  qed
  have a: "asked - origin l < 2 ^ 63" using assms by linarith
  then have "(asked - origin l) div 1000 < 2 ^ 63" by (meson div_le_dividend le_less_trans)
  then have "unat (micros_since_origin l asked) + 1 < 2 ^ LENGTH(64)" using m [OF a] by simp
  then have "unat (micros_since_origin l asked + 1) = unat (micros_since_origin l asked) + 1"
    by (metis unat_add_lem unsigned_1)
  then have "0 < micros_since_origin l asked + 1" by (simp add: word_less_nat_alt)
  then show ?thesis
    using m [OF a] m [OF assms(3)]
    by (simp add: overdue_def probe_sleep_def unat_sat_sub micros_since_origin_def as_micros_def PROBE_INTERVAL_def millis_def)
qed

lemma window_bounds:
  assumes "t0 \<le> w" "w \<le> (now :: nat)"
  shows "now - w \<le> 1500000000 \<Longrightarrow> (now - t0) div 500000000 - 3 \<le> (w - t0) div 500000000"
    and "(now - t0) div 500000000 - 3 \<le> (w - t0) div 500000000 \<Longrightarrow> now - w < 2000000000"
  using assms by linarith+

lemma fold_max_in: "fold max xs (a :: 'a::linorder) = a \<or> fold max xs a \<in> set xs"
  by (induction xs arbitrary: a) (auto simp: max_def)

lemma peak_attained: "peak p ss = 0 \<or> (\<exists>s \<in> set ss. p s \<and> snd s = peak p ss)"
  using fold_max_in [of "map snd (filter p ss)" 0] by (auto simp: peak_def)

lemma unat_max: "unat (max a b) = max (unat a) (unat b)"
  by (simp add: max_def word_le_nat_alt)

definition in_window :: "instant \<Rightarrow> instant \<Rightarrow> lag_sample \<Rightarrow> bool" where
  "in_window t0 now s \<longleftrightarrow> unat (bucket_of (runtime_lag_new t0) now) - 3 \<le> unat (fst s)"

text \<open>A round is in the window exactly by its bucket, and its delay is kept to the microsecond.\<close>

lemma sample_of_round:
  assumes "rounds_ok t0 rounds now" "r \<in> set rounds"
  defines "s \<equiv> (bucket_of (runtime_lag_new t0) (snd r), lag_micros (late_of r))"
  shows "s \<in> set (samples_of t0 rounds)" "unat (snd s) * 1000 = late_of r div 1000 * 1000"
    "now - snd r \<le> 1500000000 \<Longrightarrow> in_window t0 now s" "in_window t0 now s \<Longrightarrow> now - snd r < 2000000000"
proof -
  from assms(1,2) have r: "t0 \<le> fst r" "fst r \<le> snd r" "snd r \<le> now" "now - t0 < 2 ^ 63"
    by (auto simp: rounds_ok_def list_all_iff)
  then have t: "snd r - t0 < 2 ^ 63" "late_of r < 2 ^ 63" "t0 \<le> snd r" by (auto simp: late_of_def)
  show "s \<in> set (samples_of t0 rounds)" using assms(2) by (simp add: s_def samples_of_def)
  show "unat (snd s) * 1000 = late_of r div 1000 * 1000" using lag_micros_exact [OF t(2)] by (simp add: s_def)
  have w: "in_window t0 now s \<longleftrightarrow> (now - t0) div 500000000 - 3 \<le> (snd r - t0) div 500000000"
    using bucket_of_unat [of now "runtime_lag_new t0"] bucket_of_unat [of "snd r" "runtime_lag_new t0"] r t
    by (simp add: in_window_def s_def runtime_lag_new_def)
  show "now - snd r \<le> 1500000000 \<Longrightarrow> in_window t0 now s" "in_window t0 now s \<Longrightarrow> now - snd r < 2000000000"
    unfolding w using window_bounds [OF t(3) r(3)] by simp_all
qed

lemma recent_max_rounds:
  assumes "rounds_ok t0 rounds now" "origin l = t0" "ring_ok (samples_of t0 rounds) l"
  shows "recent_max_at now l = max (unat (overdue now l)) (unat (peak (in_window t0 now) (samples_of t0 rounds))) * 1000"
proof -
  have b: "bucket_of l = bucket_of (runtime_lag_new t0)"
    using assms(2) by (intro origin_cong) (simp add: runtime_lag_new_def)
  have "\<forall>s \<in> set (samples_of t0 rounds). fst s \<le> bucket_of l now"
    unfolding b using assms(1)
    by (auto simp: samples_of_def rounds_ok_def list_all_iff runtime_lag_new_def intro!: bucket_mono)
  from recent_max_eq [OF assms(3) this] show ?thesis
    by (simp add: b unat_max in_window_def [abs_def])
qed

lemma recent_max_idle:
  assumes "rounds_ok t0 rounds now"
  shows "recent_max_at now (probe_rounds rounds (runtime_lag_new t0)) =
    unat (peak (in_window t0 now) (samples_of t0 rounds)) * 1000"
proof -
  have "origin (probe_rounds rounds (runtime_lag_new t0)) = t0"
    by (simp add: origin_rounds) (simp add: runtime_lag_new_def)
  from recent_max_rounds [OF assms this ring_ok_rounds [OF assms]] show ?thesis by (simp add: overdue_idle)
qed

lemma recent_max_source:
  assumes ok: "rounds_ok t0 rounds now"
  defines "l \<equiv> probe_rounds rounds (runtime_lag_new t0)"
  shows "recent_max_at now l = 0 \<or>
    (\<exists>r \<in> set rounds. now - snd r < secs 2 \<and> recent_max_at now l = late_of r div 1000 * 1000)"
  using peak_attained [of "in_window t0 now" "samples_of t0 rounds"]
proof
  let ?p = "peak (in_window t0 now) (samples_of t0 rounds)"
  assume "\<exists>s \<in> set (samples_of t0 rounds). in_window t0 now s \<and> snd s = ?p"
  then obtain r where r: "r \<in> set rounds" "lag_micros (late_of r) = ?p"
    "in_window t0 now (bucket_of (runtime_lag_new t0) (snd r), lag_micros (late_of r))"
    by (auto simp: samples_of_def)
  then show ?thesis
    using sample_of_round(2,4) [OF ok r(1)] unfolding l_def recent_max_idle [OF ok] by (auto simp: secs_def)
qed (simp add: l_def recent_max_idle [OF ok])

lemma recent_max_asleep:
  assumes ok: "rounds_ok t0 rounds now" and "t0 \<le> asked" "asked \<le> now"
  defines "l \<equiv> probe_rounds rounds (runtime_lag_new t0)"
  shows "recent_max_at now (probe_sleep asked l) =
    max (((now - t0) div 1000 - (asked - t0) div 1000 - 20000) * 1000) (recent_max_at now l)"
proof -
  have o: "origin l = t0" by (simp add: l_def origin_rounds) (simp add: runtime_lag_new_def)
  have "ring_ok (samples_of t0 rounds) (probe_sleep asked l)" "origin (probe_sleep asked l) = t0"
    using ring_ok_rounds [OF ok] o by (simp_all add: l_def ring_ok_def probe_sleep_def)
  with recent_max_rounds [OF ok] overdue_asleep [of l asked now] assms(2,3) ok o show ?thesis
    by (simp add: l_def recent_max_idle [OF ok] rounds_ok_def nat_mult_max_left)
qed

text \<open>
  The ring of buckets reports what the full list of samples would.  With the probe between two
  rounds, the recent delay is at least that of every round that ended in the last 1.5 seconds and
  is zero or that of a round that ended less than 2 seconds ago, to the microsecond; while the
  probe sleeps, the time by which the current sleep is overdue counts as well, so a stalled
  process is seen before the stall ends.
\<close>

theorem recent_lag_reports_recent_delays:
  assumes ok: "rounds_ok t0 rounds now"
  defines "l \<equiv> probe_rounds rounds (runtime_lag_new t0)"
  shows "(r \<in> set rounds \<and> now - snd r \<le> millis 1500 \<longrightarrow> late_of r div 1000 * 1000 \<le> recent_max_at now l) \<and>
    (recent_max_at now l = 0 \<or>
      (\<exists>r \<in> set rounds. now - snd r < secs 2 \<and> recent_max_at now l = late_of r div 1000 * 1000)) \<and>
    (t0 \<le> asked \<and> asked \<le> now \<longrightarrow>
      recent_max_at now (probe_sleep asked l) =
      max (((now - t0) div 1000 - (asked - t0) div 1000 - 20000) * 1000) (recent_max_at now l))"
proof -
  have "late_of r div 1000 * 1000 \<le> recent_max_at now l" if "r \<in> set rounds" "now - snd r \<le> millis 1500"
    using sample_of_round(1-3) [OF ok that(1)] that(2)
      peak_le [of "in_window t0 now" "samples_of t0 rounds" "peak (in_window t0 now) (samples_of t0 rounds)"]
    unfolding l_def recent_max_idle [OF ok] by (force simp: millis_def word_le_nat_alt)
  then show ?thesis
    using recent_max_source [OF ok] recent_max_asleep [OF ok, of asked] unfolding l_def by blast
qed

theorem recent_lag_reports_recent_delays_witness:
  "80000000 \<le> recent_max_at (millis 1200) (probe_rounds [(0, millis 23), (millis 500, millis 600)] (runtime_lag_new 0)) \<and>
   recent_max_at (millis 900) (probe_sleep (millis 600)
     (probe_rounds [(0, millis 23), (millis 500, millis 600)] (runtime_lag_new 0))) =
   max 280000000 (recent_max_at (millis 900) (probe_rounds [(0, millis 23), (millis 500, millis 600)] (runtime_lag_new 0)))"
proof -
  have "rounds_ok 0 [(0, millis 23), (millis 500, millis 600)] (millis 1200)"
    "rounds_ok 0 [(0, millis 23), (millis 500, millis 600)] (millis 900)"
    by (simp_all add: rounds_ok_def millis_def)
  from recent_lag_reports_recent_delays [OF this(1), of "(millis 500, millis 600)"]
    recent_lag_reports_recent_delays [OF this(2), of _ "millis 600"]
  show ?thesis by (simp add: late_of_def millis_def PROBE_INTERVAL_def)
qed

end
