(* ===== verification/Risk_Circuit.thy ===== *)
theory Risk_Circuit
  imports Availability
begin

text \<open>
  The pool-wide risk circuit (\<open>LocalPoolRiskCircuit\<close> and its operations in
  \<open>src/kiro/token_manager/manager.rs\<close>): when enough accounts that have worked before are put
  under risk control by the upstream, the pool pauses, then lets a few probes through.

  Each operation runs under the circuit's lock and is one function of the circuit, the instant
  and the configuration.  The \<open>HashMap\<close> of failures is an association list with distinct keys.
  \<open>Instant::checked_add\<close> fails beyond the range of the platform's clock (\<open>2 ^ 63\<close> seconds).
\<close>

subsection \<open>Operations\<close>

record circuit_config =
  local_pool_circuit_enabled :: bool
  local_pool_circuit_window_secs :: u64
  local_pool_circuit_open_after_failures :: u32
  local_pool_circuit_require_distinct_credentials :: u32
  local_pool_circuit_min_ratio_percent :: u32
  local_pool_circuit_open_secs :: u64
  local_pool_circuit_half_open_probes :: u32

record risk_circuit =
  rc_failures :: "(u64 \<times> instant) list"
  open_until :: "instant option"
  rc_reason :: "risk_control_reason option"
  half_open :: "(u32 \<times> instant) option"

record circuit_snapshot =
  snap_open :: bool
  snap_retry_after :: "duration option"

definition circuit_new :: risk_circuit where
  "circuit_new = \<lparr>rc_failures = [], open_until = None, rc_reason = None, half_open = None\<rparr>"

definition snapshot_default :: circuit_snapshot where
  "snapshot_default = \<lparr>snap_open = False, snap_retry_after = None\<rparr>"

definition checked_instant_add :: "instant \<Rightarrow> duration \<Rightarrow> instant option" where
  "checked_instant_add t d = (if t + d < secs (2 ^ 63) then Some (t + d) else None)"

definition instant_add_or :: "instant \<Rightarrow> duration \<Rightarrow> instant" where
  "instant_add_or t d = (case checked_instant_add t d of Some u \<Rightarrow> u | None \<Rightarrow> t)"

definition open_for :: "circuit_config \<Rightarrow> duration" where
  "open_for cfg = secs (unat (max (local_pool_circuit_open_secs cfg) 1))"

definition circuit_window :: "circuit_config \<Rightarrow> duration" where
  "circuit_window cfg = secs (unat (max (local_pool_circuit_window_secs cfg) 1))"

definition prune_circuit :: "instant \<Rightarrow> circuit_config \<Rightarrow> risk_circuit \<Rightarrow> risk_circuit" where
  "prune_circuit now cfg c =
     (let c = c\<lparr>rc_failures := filter (\<lambda>(_, at). saturating_duration_since now at \<le> circuit_window cfg) (rc_failures c)\<rparr>;
          c = (case open_until c of
              Some until_at \<Rightarrow>
                if until_at \<le> now
                then c\<lparr>open_until := None,
                       half_open := Some (max (local_pool_circuit_half_open_probes cfg) 1,
                                          instant_add_or until_at (open_for cfg))\<rparr>
                else c
            | None \<Rightarrow> c)
      in case half_open c of
          Some (_, until_at) \<Rightarrow> if until_at \<le> now then c\<lparr>half_open := None, rc_reason := None\<rparr> else c
        | None \<Rightarrow> c)"

definition blocked_until :: "risk_circuit \<Rightarrow> instant \<Rightarrow> instant option" where
  "blocked_until c now =
     (case open_until c of
        Some until_at \<Rightarrow> if now < until_at then Some until_at
          else (case half_open c of Some (n, u) \<Rightarrow> if n = 0 \<and> now < u then Some u else None | None \<Rightarrow> None)
      | None \<Rightarrow> (case half_open c of Some (n, u) \<Rightarrow> if n = 0 \<and> now < u then Some u else None | None \<Rightarrow> None))"

definition circuit_snapshot_locked :: "risk_circuit \<Rightarrow> instant \<Rightarrow> circuit_snapshot" where
  "circuit_snapshot_locked c now =
     \<lparr>snap_open = (blocked_until c now \<noteq> None),
      snap_retry_after = map_option (\<lambda>u. saturating_duration_since u now) (blocked_until c now)\<rparr>"

definition circuit_snapshot_from_config ::
    "instant \<Rightarrow> circuit_config \<Rightarrow> risk_circuit \<Rightarrow> circuit_snapshot \<times> risk_circuit" where
  "circuit_snapshot_from_config now cfg c =
     (if \<not> local_pool_circuit_enabled cfg then (snapshot_default, c)
      else let c = prune_circuit now cfg c in (circuit_snapshot_locked c now, c))"

definition admit_circuit_request ::
    "instant \<Rightarrow> circuit_config \<Rightarrow> risk_circuit \<Rightarrow> duration option \<times> risk_circuit" where
  "admit_circuit_request now cfg c =
     (if \<not> local_pool_circuit_enabled cfg then (None, c)
      else
        let c = prune_circuit now cfg c in
        case snap_retry_after (circuit_snapshot_locked c now) of
          Some r \<Rightarrow> (Some r, c)
        | None \<Rightarrow> (None, case half_open c of
              Some (n, u) \<Rightarrow> c\<lparr>half_open := Some (sat_sub n 1, u)\<rparr>
            | None \<Rightarrow> c))"

definition record_circuit_success :: "risk_circuit \<Rightarrow> risk_circuit" where
  "record_circuit_success c =
     (case half_open c of Some _ \<Rightarrow> c\<lparr>half_open := None, rc_reason := None\<rparr> | None \<Rightarrow> c)"

definition required_distinct :: "circuit_config \<Rightarrow> nat" where
  "required_distinct cfg =
     unat (max (max (local_pool_circuit_require_distinct_credentials cfg)
                    (local_pool_circuit_open_after_failures cfg)) 1)"

definition ratio_reached :: "circuit_config \<Rightarrow> nat \<Rightarrow> nat \<Rightarrow> bool" where
  "ratio_reached cfg distinct_credentials dispatchable_now =
     (let min_ratio_percent = unat (min (local_pool_circuit_min_ratio_percent cfg) 100);
          pool = distinct_credentials + dispatchable_now
      in min_ratio_percent = 0 \<or> pool * min_ratio_percent \<le> distinct_credentials * 100)"

definition record_circuit_failure ::
    "instant \<Rightarrow> circuit_config \<Rightarrow> u64 \<Rightarrow> risk_control_reason \<Rightarrow> bool \<Rightarrow> nat \<Rightarrow> risk_circuit \<Rightarrow>
     circuit_snapshot \<times> risk_circuit" where
  "record_circuit_failure now cfg credential_id reason ever_succeeded dispatchable_now c =
     (if \<not> local_pool_circuit_enabled cfg then (snapshot_default, c)
      else
        let c = prune_circuit now cfg c in
        if \<not> ever_succeeded then (circuit_snapshot_locked c now, c)
        else
          let c = c\<lparr>rc_failures := AList.update credential_id now (rc_failures c)\<rparr>;
              distinct_credentials = length (rc_failures c);
              already_open = (case open_until c of Some u \<Rightarrow> now < u | None \<Rightarrow> False);
              c = (if \<not> already_open \<and>
                      (half_open c \<noteq> None \<or>
                       required_distinct cfg \<le> distinct_credentials \<and>
                       ratio_reached cfg distinct_credentials dispatchable_now)
                   then c\<lparr>open_until := Some (instant_add_or now (open_for cfg)), rc_reason := Some reason,
                          half_open := None, rc_failures := []\<rparr>
                   else c)
          in (circuit_snapshot_locked c now, c))"

text \<open>The ratio is taken over the accounts that could take a request right now.\<close>

definition entry_is_scheduler_available :: "'f credential_entry \<Rightarrow> bool" where
  "entry_is_scheduler_available e \<longleftrightarrow> \<not> disabled e \<and> \<not> account_quota_blocked e"

definition any_scheduler_available :: "'f credential_entry list \<Rightarrow> bool" where
  "any_scheduler_available entries = list_ex entry_is_scheduler_available entries"

definition local_dispatchable_credential_count ::
    "instant \<Rightarrow> (u64 \<rightharpoonup> proxy_resource_runtime) \<Rightarrow> 'f credential_entry list \<Rightarrow> nat" where
  "local_dispatchable_credential_count now proxies entries =
     length (filter (\<lambda>e. entry_is_scheduler_available e \<and> credential_proxy_is_dispatchable (credentials e) proxies \<and>
       entry_any_cooldown_remaining e now = None) entries)"

subsection \<open>Histories of the circuit\<close>

text \<open>
  Operations in any order, at instants that do not go back, under one configuration.  The ghost
  list holds the risk-control reports of accounts that had worked before, since the circuit last
  opened.
\<close>

inductive circuit_reachable :: "circuit_config \<Rightarrow> instant \<Rightarrow> (u64 \<times> instant) list \<Rightarrow> risk_circuit \<Rightarrow> bool"
  for cfg where
  start: "circuit_reachable cfg t [] circuit_new"
| later: "circuit_reachable cfg t h c \<Longrightarrow> t \<le> now \<Longrightarrow> circuit_reachable cfg now h c"
| looked: "circuit_reachable cfg t h c \<Longrightarrow> circuit_reachable cfg t h (snd (circuit_snapshot_from_config t cfg c))"
| admitted: "circuit_reachable cfg t h c \<Longrightarrow> circuit_reachable cfg t h (snd (admit_circuit_request t cfg c))"
| success: "circuit_reachable cfg t h c \<Longrightarrow> circuit_reachable cfg t h (record_circuit_success c)"
| new_account: "circuit_reachable cfg t h c \<Longrightarrow>
    circuit_reachable cfg t h (snd (record_circuit_failure t cfg i reason False d c))"
| failure: "circuit_reachable cfg t h c \<Longrightarrow> local_pool_circuit_enabled cfg \<Longrightarrow>
    c' = snd (record_circuit_failure t cfg i reason True d c) \<Longrightarrow>
    circuit_reachable cfg t (if rc_failures c' = [] then [] else h @ [(i, t)]) c'"

definition times_ok :: "circuit_config \<Rightarrow> instant \<Rightarrow> risk_circuit \<Rightarrow> bool" where
  "times_ok cfg t c \<longleftrightarrow>
     (case open_until c of Some u \<Rightarrow> u \<le> t + open_for cfg \<and> half_open c = None | None \<Rightarrow> True) \<and>
     (case half_open c of Some (_, u) \<Rightarrow> u \<le> t + open_for cfg | None \<Rightarrow> True)"

definition counts_ok :: "circuit_config \<Rightarrow> instant \<Rightarrow> (u64 \<times> instant) list \<Rightarrow> risk_circuit \<Rightarrow> bool" where
  "counts_ok cfg t h c \<longleftrightarrow> distinct (map fst (rc_failures c)) \<and> set (rc_failures c) \<subseteq> set h \<and>
     (\<forall>(i, at) \<in> set h. at \<le> t \<and>
        (t - at \<le> circuit_window cfg \<longrightarrow> (\<exists>at'. (i, at') \<in> set (rc_failures c) \<and> at \<le> at')))"

lemma instant_add_or_le: "t \<le> instant_add_or t d \<and> instant_add_or t d \<le> t + d"
  by (simp add: instant_add_or_def checked_instant_add_def)

lemma instant_add_or_mono: "x \<le> t \<Longrightarrow> instant_add_or x d \<le> t + d"
  using instant_add_or_le [of x d] by linarith

lemma times_ok_prune: "times_ok cfg t c \<Longrightarrow> times_ok cfg t (prune_circuit t cfg c)"
  by (auto simp: times_ok_def prune_circuit_def Let_def instant_add_or_mono split: option.splits if_splits)

lemma failures_prune:
  "rc_failures (prune_circuit t cfg c) = filter (\<lambda>(_, at). t - at \<le> circuit_window cfg) (rc_failures c)"
  by (auto simp: prune_circuit_def Let_def saturating_duration_since_def split: option.splits)

lemma counts_ok_prune:
  assumes "counts_ok cfg t h c"
  shows "counts_ok cfg t h (prune_circuit t cfg c)"
proof -
  have "\<exists>at'. (i, at') \<in> set (rc_failures (prune_circuit t cfg c)) \<and> at \<le> at'"
    if "(i, at) \<in> set h" "t - at \<le> circuit_window cfg" for i at
  proof -
    from assms that obtain at' where "(i, at') \<in> set (rc_failures c)" "at \<le> at'"
      by (fastforce simp: counts_ok_def)
    moreover from this(2) that(2) have "t - at' \<le> circuit_window cfg" by linarith
    ultimately show ?thesis by (auto simp: failures_prune)
  qed
  with assms show ?thesis
    by (auto simp: counts_ok_def failures_prune distinct_map_filter)
qed

lemma counts_ok_cong: "rc_failures c = rc_failures c' \<Longrightarrow> counts_ok cfg t h c = counts_ok cfg t h c'"
  by (simp add: counts_ok_def)

lemma set_alist_update:
  "distinct (map fst xs) \<Longrightarrow> set (AList.update k v xs) = insert (k, v) {x \<in> set xs. fst x \<noteq> k}"
  by (induction xs) (force simp: image_iff)+

lemma counts_ok_update:
  assumes "counts_ok cfg t h c"
  shows "counts_ok cfg t (h @ [(i, t)]) (c\<lparr>rc_failures := AList.update i t (rc_failures c)\<rparr>)"
proof -
  have d: "distinct (map fst (rc_failures c))" using assms by (simp add: counts_ok_def)
  have "\<exists>at'. (j, at') \<in> insert (i, t) {x \<in> set (rc_failures c). fst x \<noteq> i} \<and> at \<le> at'"
    if "(j, at) \<in> set h" "t - at \<le> circuit_window cfg" for j at
    using assms that by (cases "j = i") (fastforce simp: counts_ok_def)+
  with assms d show ?thesis
    unfolding counts_ok_def by (auto simp: set_alist_update distinct_update)
qed

text \<open>The circuit after a counted report.\<close>

lemma failure_cases:
  assumes "local_pool_circuit_enabled cfg" "c' = snd (record_circuit_failure t cfg i reason True d c)"
  defines "p \<equiv> prune_circuit t cfg c"
  defines "n \<equiv> length (AList.update i t (rc_failures p))"
  shows "if \<not> (case open_until p of Some u \<Rightarrow> t < u | None \<Rightarrow> False) \<and>
       (half_open p \<noteq> None \<or> required_distinct cfg \<le> n \<and> ratio_reached cfg n d)
     then c' = p\<lparr>open_until := Some (instant_add_or t (open_for cfg)), rc_reason := Some reason,
                 half_open := None, rc_failures := []\<rparr>
     else c' = p\<lparr>rc_failures := AList.update i t (rc_failures p)\<rparr>"
  using assms by (simp add: record_circuit_failure_def Let_def)

lemma admit_cases:
  "admit_circuit_request t cfg c =
   (if \<not> local_pool_circuit_enabled cfg then (None, c)
    else let p = prune_circuit t cfg c in
      case blocked_until p t of
        Some u \<Rightarrow> (Some (u - t), p)
      | None \<Rightarrow> (None, case half_open p of Some (n, u) \<Rightarrow> p\<lparr>half_open := Some (sat_sub n 1, u)\<rparr> | None \<Rightarrow> p))"
  by (simp add: admit_circuit_request_def circuit_snapshot_locked_def saturating_duration_since_def Let_def
      split: option.splits)

lemma admit_keeps:
  assumes "times_ok cfg t c" "counts_ok cfg t h c"
  shows "times_ok cfg t (snd (admit_circuit_request t cfg c)) \<and> counts_ok cfg t h (snd (admit_circuit_request t cfg c))"
  using assms times_ok_prune [OF assms(1)] counts_ok_prune [OF assms(2)]
  by (auto simp: admit_cases Let_def times_ok_def counts_ok_def split: option.splits)

lemma update_not_Nil: "AList.update k v xs \<noteq> []"
  by (cases xs) auto

lemma times_ok_failures: "times_ok cfg t (p\<lparr>rc_failures := x\<rparr>) = times_ok cfg t p"
  by (cases p) (simp add: times_ok_def split: option.splits)

lemma failure_keeps:
  assumes "times_ok cfg t c" "counts_ok cfg t h c" "local_pool_circuit_enabled cfg"
    and "c' = snd (record_circuit_failure t cfg i reason True d c)"
  shows "times_ok cfg t c' \<and> counts_ok cfg t (if rc_failures c' = [] then [] else h @ [(i, t)]) c'"
proof -
  let ?p = "prune_circuit t cfg c"
  have p: "times_ok cfg t ?p" "counts_ok cfg t h ?p" using assms by (simp_all add: times_ok_prune counts_ok_prune)
  from failure_cases [OF assms(3,4)] consider
      "c' = ?p\<lparr>open_until := Some (instant_add_or t (open_for cfg)), rc_reason := Some reason,
                 half_open := None, rc_failures := []\<rparr>"
    | "c' = ?p\<lparr>rc_failures := AList.update i t (rc_failures ?p)\<rparr>"
    by (auto split: if_splits)
  then show ?thesis
  proof cases
    case 1
    then show ?thesis using instant_add_or_le [of t "open_for cfg"] by (simp add: times_ok_def counts_ok_def)
  next
    case 2
    then show ?thesis using p counts_ok_update [OF p(2), of i] by (simp add: times_ok_failures update_not_Nil)
  qed
qed

lemma circuit_invariant: "circuit_reachable cfg t h c \<Longrightarrow> times_ok cfg t c \<and> counts_ok cfg t h c"
proof (induction rule: circuit_reachable.induct)
  case (start t)
  then show ?case by (simp add: times_ok_def counts_ok_def circuit_new_def)
next
  case (later t h c now)
  then show ?case
    by (fastforce simp: times_ok_def counts_ok_def split: option.splits)
next
  case (looked t h c)
  then show ?case by (simp add: circuit_snapshot_from_config_def Let_def times_ok_prune counts_ok_prune)
next
  case (admitted t h c)
  then show ?case using admit_keeps by blast
next
  case (success t h c)
  then show ?case by (auto simp: record_circuit_success_def times_ok_def counts_ok_def split: option.splits)
next
  case (new_account t h c i reason d)
  then show ?case by (simp add: record_circuit_failure_def Let_def times_ok_prune counts_ok_prune)
next
  case (failure t h c c' i reason d)
  then show ?case using failure_keeps by blast
qed

subsection \<open>The circuit opens on evidence, rations its probes and never sticks\<close>

text \<open>
  What may happen to the circuit between two counted reports: time passes, requests are admitted
  or refused, the state is looked at, requests succeed, and accounts that never worked are put
  under risk control.
\<close>

inductive circuit_traffic ::
    "circuit_config \<Rightarrow> instant \<times> risk_circuit \<Rightarrow> instant \<times> risk_circuit \<Rightarrow> bool"
  for cfg where
  waited: "t \<le> now \<Longrightarrow> circuit_traffic cfg (t, c) (now, c)"
| traffic_looked: "circuit_traffic cfg (t, c) (t, snd (circuit_snapshot_from_config t cfg c))"
| traffic_admitted: "circuit_traffic cfg (t, c) (t, snd (admit_circuit_request t cfg c))"
| traffic_success: "circuit_traffic cfg (t, c) (t, record_circuit_success c)"
| traffic_new_account:
    "circuit_traffic cfg (t, c) (t, snd (record_circuit_failure t cfg i reason False d c))"

text \<open>Deadlines that are counted from one instant, whatever the time is now.\<close>

definition deadlines_from :: "circuit_config \<Rightarrow> instant \<Rightarrow> risk_circuit \<Rightarrow> bool" where
  "deadlines_from cfg t0 c \<longleftrightarrow>
     (\<forall>u. open_until c = Some u \<longrightarrow> u \<le> t0 + open_for cfg) \<and>
     (\<forall>n u. half_open c = Some (n, u) \<longrightarrow> u \<le> t0 + 2 * open_for cfg)"

lemma times_ok_deadlines: "times_ok cfg t c \<Longrightarrow> deadlines_from cfg t c"
  by (auto simp: times_ok_def deadlines_from_def split: option.splits)

lemma deadlines_prune:
  assumes "deadlines_from cfg t0 c"
  shows "deadlines_from cfg t0 (prune_circuit now cfg c)"
proof -
  have "instant_add_or u (open_for cfg) \<le> t0 + 2 * open_for cfg" if "open_until c = Some u" for u
    using assms that instant_add_or_le [of u "open_for cfg"] by (simp add: deadlines_from_def)
  with assms show ?thesis
    by (auto simp: deadlines_from_def prune_circuit_def Let_def split: option.splits)
qed

lemma deadlines_traffic:
  "circuit_traffic cfg s s' \<Longrightarrow> deadlines_from cfg t0 (snd s) \<Longrightarrow> deadlines_from cfg t0 (snd s')"
proof (induction rule: circuit_traffic.induct)
  case (traffic_admitted t c)
  then show ?case
    using deadlines_prune [of cfg t0 c t]
    by (auto simp: admit_cases Let_def deadlines_from_def split: option.splits)
qed (auto simp: circuit_snapshot_from_config_def record_circuit_failure_def record_circuit_success_def
    Let_def deadlines_prune, auto simp: deadlines_from_def split: option.splits)

lemma deadlines_run:
  assumes "(circuit_traffic cfg)\<^sup>*\<^sup>* s s'" "deadlines_from cfg t0 (snd s)"
  shows "deadlines_from cfg t0 (snd s')"
  using assms by (induction rule: rtranclp_induct) (auto intro: deadlines_traffic)

text \<open>C31. 
  The circuit never sticks.  A refused request is told to wait a positive time, at most the
  configured open period.  And two open periods after the last counted report every request is
  admitted again, with the circuit neither open nor half-open, however many requests arrived,
  were admitted or refused, looked at the circuit, succeeded or never answered in the meantime.
\<close>

theorem risk_circuit_never_sticks:
  assumes "circuit_reachable cfg t h c" "t \<le> at"
    and "(circuit_traffic cfg)\<^sup>*\<^sup>* (t, c) (now, c')"
  shows "(admit_circuit_request at cfg c = (Some r, c'') \<longrightarrow> 0 < r \<and> r \<le> open_for cfg) \<and>
    (local_pool_circuit_enabled cfg \<and> t + 2 * open_for cfg \<le> now \<longrightarrow>
      (\<exists>c''. admit_circuit_request now cfg c' = (None, c'') \<and> open_until c'' = None \<and> half_open c'' = None))"
proof -
  have inv: "times_ok cfg t c" "times_ok cfg at c"
    using circuit_invariant [OF assms(1)] circuit_invariant [OF later [OF assms(1,2)]] by simp_all
  have "times_ok cfg at (prune_circuit at cfg c)" using inv(2) by (rule times_ok_prune)
  then have waits: "admit_circuit_request at cfg c = (Some r, c'') \<longrightarrow> 0 < r \<and> r \<le> open_for cfg"
    by (auto simp: admit_cases Let_def blocked_until_def times_ok_def split: if_splits option.splits)
  have dl: "deadlines_from cfg t c'"
    using deadlines_run [OF assms(3)] times_ok_deadlines [OF inv(1)] by simp
  have "\<exists>c''. admit_circuit_request now cfg c' = (None, c'') \<and> open_until c'' = None \<and> half_open c'' = None"
    if e: "local_pool_circuit_enabled cfg" "t + 2 * open_for cfg \<le> now"
  proof -
    have "instant_add_or u (open_for cfg) \<le> now" if "open_until c' = Some u" for u
      using that dl e instant_add_or_le [of u "open_for cfg"] by (simp add: deadlines_from_def)
    moreover have "u \<le> now" if "open_until c' = Some u \<or> half_open c' = Some (n, u)" for u n
      using that dl e by (auto simp: deadlines_from_def)
    ultimately have "open_until (prune_circuit now cfg c') = None" "half_open (prune_circuit now cfg c') = None"
      by (auto simp: prune_circuit_def Let_def split: option.splits)
    with e show ?thesis by (simp add: admit_cases Let_def blocked_until_def)
  qed
  with waits show ?thesis by blast
qed

lemma length_update_card:
  assumes "distinct (map fst xs)"
  shows "length (AList.update k v xs) = card (insert k (fst ` set xs))"
proof -
  have "length (AList.update k v xs) = length (map fst (AList.update k v xs))" by simp
  also have "\<dots> = card (set (map fst (AList.update k v xs)))"
    using distinct_card [OF distinct_update [OF assms, of k v]] by simp
  also have "set (map fst (AList.update k v xs)) = insert k (fst ` set xs)"
    unfolding update_keys by auto
  finally show ?thesis .
qed

lemma counted_accounts:
  assumes "counts_ok cfg t h c"
  shows "fst ` set (rc_failures (prune_circuit t cfg c)) = {j. \<exists>at. (j, at) \<in> set h \<and> t - at \<le> circuit_window cfg}"
proof (intro set_eqI iffI)
  fix j assume "j \<in> fst ` set (rc_failures (prune_circuit t cfg c))"
  then obtain at where "(j, at) \<in> set (rc_failures c)" "t - at \<le> circuit_window cfg" by (auto simp: failures_prune)
  with assms show "j \<in> {j. \<exists>at. (j, at) \<in> set h \<and> t - at \<le> circuit_window cfg}" by (auto simp: counts_ok_def)
next
  fix j assume "j \<in> {j. \<exists>at. (j, at) \<in> set h \<and> t - at \<le> circuit_window cfg}"
  then obtain at' where "(j, at') \<in> set (rc_failures (prune_circuit t cfg c))"
    using counts_ok_prune [OF assms] by (auto simp: counts_ok_def)
  then show "j \<in> fst ` set (rc_failures (prune_circuit t cfg c))" by force
qed

text \<open>C32. 
  Evidence: when the circuit is neither open nor half-open, a report opens it exactly if the account
  had worked before, and the distinct accounts reported within the window since the circuit last
  opened, this one included, reach both the required number and the required share of the pool.
\<close>

theorem risk_circuit_opens_on_evidence:
  fixes i :: u64
  assumes "circuit_reachable cfg t h c" "local_pool_circuit_enabled cfg"
    and "open_until (prune_circuit t cfg c) = None" "half_open (prune_circuit t cfg c) = None"
  defines "n \<equiv> card (insert i {j. \<exists>at. (j, at) \<in> set h \<and> t - at \<le> circuit_window cfg})"
  shows "open_until (snd (record_circuit_failure t cfg i reason ever_succeeded d c)) \<noteq> None \<longleftrightarrow>
    ever_succeeded \<and> required_distinct cfg \<le> n \<and> ratio_reached cfg n d"
proof (cases ever_succeeded)
  case True
  let ?p = "prune_circuit t cfg c"
  have ok: "counts_ok cfg t h c" using circuit_invariant [OF assms(1)] by simp
  then have d: "distinct (map fst (rc_failures ?p))" by (simp add: counts_ok_def failures_prune distinct_map_filter)
  have n: "length (AList.update i t (rc_failures ?p)) = n"
    unfolding length_update_card [OF d] counted_accounts [OF ok] n_def by (rule refl)
  show ?thesis
    using failure_cases [OF assms(2) refl, where c = c and t = t and i = i and reason = reason and d = d] True assms(3,4) by (auto simp: n split: if_splits)
next
  case False
  then show ?thesis using assms by (simp add: record_circuit_failure_def Let_def)
qed

text \<open>Requests one after another; for each, whether it was admitted.\<close>

fun admit_run :: "circuit_config \<Rightarrow> instant list \<Rightarrow> risk_circuit \<Rightarrow> bool list" where
  "admit_run cfg [] c = []"
| "admit_run cfg (t # ts) c =
     (let (r, c) = admit_circuit_request t cfg c in (r = None) # admit_run cfg ts c)"

lemma admit_half_open:
  assumes "local_pool_circuit_enabled cfg" "open_until c = None" "half_open c = Some (n, u)"
    "list_all (\<lambda>t. t < u) ts"
  shows "admit_run cfg ts c =
    map (\<lambda>k. k < unat n) [0..<length ts]"
  using assms
proof (induction ts arbitrary: c n)
  case (Cons t ts)
  have p: "open_until (prune_circuit t cfg c) = None" "half_open (prune_circuit t cfg c) = Some (n, u)"
    using Cons.prems by (simp_all add: prune_circuit_def Let_def)
  have b: "blocked_until (prune_circuit t cfg c) t = (if n = 0 then Some u else None)"
    using p Cons.prems by (simp add: blocked_until_def)
  define c' where "c' = (if n = 0 then prune_circuit t cfg c else (prune_circuit t cfg c)\<lparr>half_open := Some (sat_sub n 1, u)\<rparr>)"
  have c': "open_until c' = None" "half_open c' = Some (sat_sub n 1, u)"
    using p by (simp_all add: c'_def sat_sub_def)
  have "admit_circuit_request t cfg c = (if n = 0 then Some (u - t) else None, c')"
    using p b Cons.prems(1) by (simp add: admit_cases Let_def c'_def)
  moreover have "admit_run cfg ts c' = map (\<lambda>k. k < unat (sat_sub n 1)) [0..<length ts]"
    using Cons.IH [OF Cons.prems(1) c'] Cons.prems(4) by simp
  moreover have "map (\<lambda>k. k < unat n) [0..<length (t # ts)] = (n \<noteq> 0) # map (\<lambda>k. k < unat (sat_sub n 1)) [0..<length ts]"
    by (simp add: upt_conv_Cons map_Suc_upt [symmetric] unat_sat_sub unat_gt_0 less_diff_conv o_def del: upt_Suc)
  ultimately show ?case by simp
qed simp

text \<open>
  Rationing: of the requests that arrive in the open period after an opening ended, the configured
  number (at least one) are admitted as probes and every later one is refused, until a probe
  answers or the period is over.
\<close>

theorem half_open_probes_are_rationed:
  assumes "local_pool_circuit_enabled cfg" "open_until c = Some u" "half_open c = None"
    and "u + open_for cfg < secs (2 ^ 63)" "list_all (\<lambda>t. u \<le> t \<and> t < u + open_for cfg) ts"
  shows "admit_run cfg ts c =
    map (\<lambda>k. k < unat (max (local_pool_circuit_half_open_probes cfg) 1)) [0..<length ts]"
proof (cases ts)
  case (Cons t ts')
  let ?c = "c\<lparr>open_until := None, half_open := Some (max (local_pool_circuit_half_open_probes cfg) 1, u + open_for cfg)\<rparr>"
  have "prune_circuit t cfg c = prune_circuit t cfg ?c"
    using assms Cons by (simp add: prune_circuit_def Let_def instant_add_or_def checked_instant_add_def)
  then have "admit_run cfg ts c = admit_run cfg ts ?c" by (simp add: Cons admit_cases Let_def assms(1))
  also have "\<dots> = map (\<lambda>k. k < unat (max (local_pool_circuit_half_open_probes cfg) 1)) [0..<length ts]"
    using assms by (intro admit_half_open [where u = "u + open_for cfg"]) (auto simp: list_all_iff)
  finally show ?thesis .
qed simp

text \<open>
  The failures are cleared on opening \<open>so the circuit cannot re-open on a single late event right
  after the open period\<close>.  It can: right after the open period the circuit is half-open, and one
  report about any account that had worked before, a late answer as well as a probe, opens it
  again for a full period, whatever the required number and share are.
\<close>

theorem single_late_event_reopens_the_circuit:
  assumes "local_pool_circuit_enabled cfg" "open_until c = Some u" "half_open c = None"
    and "u \<le> now" "now < u + open_for cfg" "now + open_for cfg < secs (2 ^ 63)"
  shows "open_until (snd (record_circuit_failure now cfg i reason True d c)) = Some (now + open_for cfg)"
proof -
  let ?p = "prune_circuit now cfg c"
  have "u + open_for cfg < secs (2 ^ 63)" using assms by linarith
  then have "open_until ?p = None" "half_open ?p \<noteq> None"
    using assms by (simp_all add: prune_circuit_def Let_def instant_add_or_def checked_instant_add_def)
  then show ?thesis
    using failure_cases [OF assms(1) refl, where c = c and t = now and i = i and reason = reason and d = d] assms(6)
    by (simp add: instant_add_or_def checked_instant_add_def)
qed

subsection \<open>Instances\<close>

definition example_circuit_config :: circuit_config where
  "example_circuit_config = \<lparr>local_pool_circuit_enabled = True, local_pool_circuit_window_secs = 60,
     local_pool_circuit_open_after_failures = 2, local_pool_circuit_require_distinct_credentials = 2,
     local_pool_circuit_min_ratio_percent = 20, local_pool_circuit_open_secs = 30,
     local_pool_circuit_half_open_probes = 2\<rparr>"

definition example_reported :: risk_circuit where
  "example_reported = snd (record_circuit_failure 5 example_circuit_config 1 RC_AccountLocked True 3 circuit_new)"

definition example_open :: risk_circuit where
  "example_open = snd (record_circuit_failure 6 example_circuit_config 2 RC_AccountLocked True 3 example_reported)"

lemma example_open_for: "open_for example_circuit_config = 30000000000" "circuit_window example_circuit_config = 60000000000"
  by (simp_all add: open_for_def circuit_window_def example_circuit_config_def secs_def)

lemma example_reported_eq:
  "example_reported = \<lparr>rc_failures = [(1, 5)], open_until = None, rc_reason = None, half_open = None\<rparr>"
  by (simp add: example_reported_def record_circuit_failure_def prune_circuit_def circuit_new_def Let_def
      required_distinct_def) (simp add: example_circuit_config_def)

lemma example_open_eq:
  "example_open = \<lparr>rc_failures = [], open_until = Some 30000000006, rc_reason = Some RC_AccountLocked, half_open = None\<rparr>"
  by (simp add: example_open_def example_reported_eq record_circuit_failure_def prune_circuit_def Let_def
      required_distinct_def ratio_reached_def example_open_for saturating_duration_since_def
      instant_add_or_def checked_instant_add_def secs_def) (simp add: example_circuit_config_def)

lemma example_reachable:
  "circuit_reachable example_circuit_config 6 [(1, 5)] example_reported"
  "circuit_reachable example_circuit_config 6 [] example_open"
proof -
  have en: "local_pool_circuit_enabled example_circuit_config" by (simp add: example_circuit_config_def)
  have "circuit_reachable example_circuit_config 5 [(1, 5)] example_reported"
    using circuit_reachable.failure [OF start en example_reported_def] by (simp add: example_reported_eq)
  then show r: "circuit_reachable example_circuit_config 6 [(1, 5)] example_reported"
    by (rule circuit_reachable.later) simp
  show "circuit_reachable example_circuit_config 6 [] example_open"
    using circuit_reachable.failure [OF r en example_open_def] by (simp add: example_open_eq)
qed

theorem risk_circuit_never_sticks_witness:
  "let c = snd (admit_circuit_request (secs 31) example_circuit_config example_open);
       c' = snd (admit_circuit_request (secs 32) example_circuit_config c)
   in fst (admit_circuit_request (secs 61) example_circuit_config c') = None"
proof -
  let ?cfg = example_circuit_config
  let ?c = "snd (admit_circuit_request (secs 31) ?cfg example_open)"
  let ?c' = "snd (admit_circuit_request (secs 32) ?cfg ?c)"
  have wait: "circuit_traffic ?cfg (t, c) (t', c)" if "t \<le> t'" for t t' c
    using that by (rule waited)
  have "circuit_traffic ?cfg (6, example_open) (secs 31, example_open)"
    "circuit_traffic ?cfg (secs 31, example_open) (secs 31, ?c)"
    "circuit_traffic ?cfg (secs 31, ?c) (secs 32, ?c)"
    "circuit_traffic ?cfg (secs 32, ?c) (secs 32, ?c')"
    "circuit_traffic ?cfg (secs 32, ?c') (secs 61, ?c')"
    by (simp_all add: wait traffic_admitted) (simp_all add: wait secs_def)
  then have run: "(circuit_traffic ?cfg)\<^sup>*\<^sup>* (6, example_open) (secs 61, ?c')"
    by (meson converse_rtranclp_into_rtranclp rtranclp.rtrancl_refl)
  have "local_pool_circuit_enabled ?cfg" "6 + 2 * open_for ?cfg \<le> secs 61"
    by (simp_all add: example_circuit_config_def open_for_def secs_def)
  with risk_circuit_never_sticks [OF example_reachable(2) _ run, of 6 1 circuit_new] show ?thesis
    by (auto simp: Let_def)
qed

theorem risk_circuit_opens_on_evidence_witness:
  "open_until (snd (record_circuit_failure 6 example_circuit_config 2 RC_AccountLocked True 3 example_reported)) \<noteq> None"
proof -
  have w: "{j. \<exists>at. (j, at) \<in> set [(1 :: u64, 5 :: instant)] \<and> 6 - at \<le> circuit_window example_circuit_config} = {1}"
    by (auto simp: example_open_for)
  have "required_distinct example_circuit_config \<le> Suc (Suc 0)" "ratio_reached example_circuit_config (Suc (Suc 0)) 3"
    by (simp_all add: required_distinct_def ratio_reached_def example_circuit_config_def)
  then show ?thesis
    using risk_circuit_opens_on_evidence [OF example_reachable(1), of 2 RC_AccountLocked True 3]
    unfolding w by (simp add: example_reported_eq prune_circuit_def Let_def) (simp add: example_circuit_config_def)
qed

theorem half_open_probes_are_rationed_witness:
  "admit_run example_circuit_config [secs 31, secs 32, secs 33, secs 34] example_open = [True, True, False, False]"
  using half_open_probes_are_rationed [of example_circuit_config example_open 30000000006 "[secs 31, secs 32, secs 33, secs 34]"]
  by (simp add: example_open_eq example_open_for secs_def upt_rec) (simp add: example_circuit_config_def)

theorem single_late_event_reopens_the_circuit_witness:
  "open_until (snd (record_circuit_failure (secs 31) example_circuit_config 9 RC_AccountLocked True 100 example_open)) = Some (secs 61)"
  using single_late_event_reopens_the_circuit [of example_circuit_config example_open 30000000006 "secs 31" 9 RC_AccountLocked 100]
  by (simp add: example_open_eq example_open_for secs_def) (simp add: example_circuit_config_def)

end
