(* ===== verification/Stop_Sequences.thy ===== *)
theory Stop_Sequences
  imports Rust_Str Utf8
begin

text \<open>
  Server-side stop sequences (\<open>src/anthropic/stop_sequence.rs\<close>): the upstream has no such
  parameter, so the proxy searches the text it passes on, holds back what may be the beginning of
  a stop sequence, and cuts the answer at the first hit.

  A Rust \<open>str\<close> is the HOL string of its UTF-8 bytes, so positions are byte positions as in the
  code.  The JSON value of an event is a type parameter; what the filter does to it (reading the
  index and the text, replacing a member, building a text delta) goes through operations of the
  \<open>serde_json\<close> crate, which are the fields of the argument \<open>J\<close>, with what the proofs need of them
  as \<open>json_laws\<close>.
\<close>

subsection \<open>Searching\<close>

definition STOP_SEQUENCE_STOP_REASON :: string where "STOP_SEQUENCE_STOP_REASON = ''stop_sequence''"

fun normalize_from :: "string set \<Rightarrow> string list \<Rightarrow> string list" where
  "normalize_from seen [] = []"
| "normalize_from seen (s # ss) =
     (if s = [] \<or> s \<in> seen then normalize_from seen ss else s # normalize_from (insert s seen) ss)"

definition normalize_stop_sequences :: "string list option \<Rightarrow> string list" where
  "normalize_stop_sequences sequences = normalize_from {} (case sequences of Some ss \<Rightarrow> ss | None \<Rightarrow> [])"

text \<open>\<open>str::find\<close>, \<open>str::ends_with\<close> and \<open>str::is_char_boundary\<close>.\<close>

fun str_find :: "string \<Rightarrow> string \<Rightarrow> nat option" where
  "str_find [] p = (if p = [] then Some 0 else None)"
| "str_find (c # t) p = (if starts_with (c # t) p then Some 0 else map_option Suc (str_find t p))"

definition ends_with :: "string \<Rightarrow> string \<Rightarrow> bool" where
  "ends_with t x \<longleftrightarrow> length x \<le> length t \<and> drop (length t - length x) t = x"

definition is_char_boundary :: "string \<Rightarrow> nat \<Rightarrow> bool" where
  "is_char_boundary s k \<longleftrightarrow> k = 0 \<or> k = length s \<or> k < length s \<and> \<not> is_cont (word_of_nat (of_char (s ! k)))"

text \<open>\<open>min_by\<close> keeps the first of several least elements.\<close>

definition closer_match :: "string \<Rightarrow> string \<Rightarrow> (nat \<times> string) option \<Rightarrow> (nat \<times> string) option" where
  "closer_match text s best =
     (case str_find text s of
        None \<Rightarrow> best
      | Some p \<Rightarrow> (case best of
            None \<Rightarrow> Some (p, s)
          | Some (bp, b) \<Rightarrow> if p < bp \<or> p = bp \<and> length b < length s then Some (p, s) else Some (bp, b)))"

definition earliest_match :: "string \<Rightarrow> string list \<Rightarrow> (nat \<times> string) option" where
  "earliest_match text sequences = fold (closer_match text) sequences None"

definition held_of :: "string \<Rightarrow> string \<Rightarrow> nat option" where
  "held_of text s = List.find (\<lambda>k. ends_with text (take k s)) (filter (is_char_boundary s) (rev [1..<length s]))"

definition held_suffix_len :: "string \<Rightarrow> string list \<Rightarrow> nat" where
  "held_suffix_len text sequences =
     fold (\<lambda>s m. case held_of text s of Some k \<Rightarrow> max m k | None \<Rightarrow> m) sequences 0"

subsection \<open>The streaming filter\<close>

type_synonym i32 = "32 word"

record 'j json_ops =
  j_index :: "'j \<Rightarrow> int option"
  j_block_type :: "'j \<Rightarrow> string option"
  j_delta_type :: "'j \<Rightarrow> string option"
  j_delta_text :: "'j \<Rightarrow> string option"
  j_set_delta_text :: "'j \<Rightarrow> string \<Rightarrow> 'j"
  j_set_stop :: "'j \<Rightarrow> string \<Rightarrow> string \<Rightarrow> 'j"
  j_text_delta :: "i32 \<Rightarrow> string \<Rightarrow> 'j"

record 'j sse_event =
  ev_event :: string
  ev_data :: 'j

record stop_filter =
  sf_sequences :: "string list"
  forwarded_blocks :: "i32 set"
  text_blocks :: "i32 set"
  sf_pending :: "i32 \<rightharpoonup> string"
  sf_matched :: "string option"

definition stop_filter_new :: "string list \<Rightarrow> stop_filter option" where
  "stop_filter_new sequences =
     (if sequences = [] then None
      else Some \<lparr>sf_sequences = sequences, forwarded_blocks = {}, text_blocks = {}, sf_pending = Map.empty,
                 sf_matched = None\<rparr>)"

text \<open>The text of a delta: what becomes visible, and the filter afterwards.\<close>

definition visible_text :: "i32 \<Rightarrow> string \<Rightarrow> stop_filter \<Rightarrow> string \<times> stop_filter" where
  "visible_text index combined f =
     (case earliest_match combined (sf_sequences f) of
        Some (pos, s) \<Rightarrow> (take pos combined, f\<lparr>sf_matched := Some s, sf_pending := Map.empty\<rparr>)
      | None \<Rightarrow>
          let held = held_suffix_len combined (sf_sequences f); split = length combined - held
          in (take split combined,
              if 0 < held then f\<lparr>sf_pending := (sf_pending f)(index \<mapsto> drop split combined)\<rparr> else f))"

definition apply_delta :: "'j json_ops \<Rightarrow> 'j sse_event \<Rightarrow> stop_filter \<Rightarrow> 'j sse_event list \<times> stop_filter" where
  "apply_delta J e f =
     (case map_option word_of_int (j_index J (ev_data e)) of
        None \<Rightarrow> ([e], f)
      | Some index \<Rightarrow>
          if index \<notin> text_blocks f \<or> j_delta_type J (ev_data e) \<noteq> Some ''text_delta'' then ([e], f)
          else
            let combined = (case sf_pending f index of Some p \<Rightarrow> p | None \<Rightarrow> []) @
                  (case j_delta_text J (ev_data e) of Some t \<Rightarrow> t | None \<Rightarrow> []);
                f = f\<lparr>sf_pending := (sf_pending f)(index := None)\<rparr>
            in if combined = [] then ([e], f)
               else let (visible, f) = visible_text index combined f
                    in (if visible \<noteq> [] then [e\<lparr>ev_data := j_set_delta_text J (ev_data e) visible\<rparr>] else [], f))"

definition apply_one :: "'j json_ops \<Rightarrow> 'j sse_event \<Rightarrow> stop_filter \<Rightarrow> 'j sse_event list \<times> stop_filter" where
  "apply_one J e f =
     (let index = map_option word_of_int (j_index J (ev_data e)) in
      if ev_event e = ''content_block_start'' then
        if sf_matched f \<noteq> None then ([], f)
        else ([e], case index of
            Some i \<Rightarrow> f\<lparr>forwarded_blocks := insert i (forwarded_blocks f),
                       text_blocks := (if j_block_type J (ev_data e) = Some ''text''
                                       then insert i (text_blocks f) else text_blocks f)\<rparr>
          | None \<Rightarrow> f)
      else if ev_event e = ''content_block_delta'' then
        if sf_matched f \<noteq> None then ([], f) else apply_delta J e f
      else if ev_event e = ''content_block_stop'' then
        (case index of
           None \<Rightarrow> ([e], f)
         | Some i \<Rightarrow>
             if i \<notin> forwarded_blocks f then ([], f)
             else
               ((case sf_pending f i of
                   Some p \<Rightarrow> if p \<noteq> [] then [\<lparr>ev_event = ''content_block_delta'', ev_data = j_text_delta J i p\<rparr>] else []
                 | None \<Rightarrow> []) @ [e],
                f\<lparr>sf_pending := (sf_pending f)(i := None)\<rparr>))
      else if ev_event e = ''message_delta'' then
        (case sf_matched f of
           Some s \<Rightarrow> ([e\<lparr>ev_data := j_set_stop J (ev_data e) STOP_SEQUENCE_STOP_REASON s\<rparr>], f)
         | None \<Rightarrow> ([e], f))
      else ([e], f))"

fun apply_events :: "'j json_ops \<Rightarrow> 'j sse_event list \<Rightarrow> stop_filter \<Rightarrow> 'j sse_event list \<times> stop_filter" where
  "apply_events J [] f = ([], f)"
| "apply_events J (e # es) f =
     (let (out, f) = apply_one J e f; (rest, f) = apply_events J es f in (out @ rest, f))"

subsection \<open>The complete answer\<close>

text \<open>A content block is its text if it is a text block with one, or anything else.\<close>

datatype 'j content_block = TextBlock string 'j | OtherBlock 'j

fun first_match :: "string list \<Rightarrow> 'j content_block list \<Rightarrow> (nat \<times> nat \<times> string) option" where
  "first_match sequences [] = None"
| "first_match sequences (TextBlock text _ # bs) =
     (case earliest_match text sequences of
        Some (pos, s) \<Rightarrow> Some (0, pos, s)
      | None \<Rightarrow> map_option (\<lambda>(i, r). (Suc i, r)) (first_match sequences bs))"
| "first_match sequences (OtherBlock _ # bs) =
     map_option (\<lambda>(i, r). (Suc i, r)) (first_match sequences bs)"

definition truncate_content_at_stop_sequence ::
    "string list \<Rightarrow> 'j content_block list \<Rightarrow> string option \<times> 'j content_block list" where
  "truncate_content_at_stop_sequence sequences content =
     (if sequences = [] then (None, content)
      else case first_match sequences content of
        None \<Rightarrow> (None, content)
      | Some (i, pos, s) \<Rightarrow>
          (Some s,
           case content ! i of
             TextBlock text j \<Rightarrow>
               if take pos text = [] then take i content else take i content @ [TextBlock (take pos text) j]
           | OtherBlock j \<Rightarrow> take i content))"

subsection \<open>Searching, in terms of occurrences\<close>

definition occurs_at :: "nat \<Rightarrow> string \<Rightarrow> string \<Rightarrow> bool" where
  "occurs_at q s t \<longleftrightarrow> (\<exists>a b. t = a @ s @ b \<and> length a = q)"

lemma occurs_at_drop: "s \<noteq> [] \<Longrightarrow> occurs_at q s t \<longleftrightarrow> starts_with (drop q t) s"
proof
  assume s: "s \<noteq> []" and "starts_with (drop q t) s"
  then obtain b where b: "drop q t = s @ b" by (auto simp: starts_with_iff)
  with s have "q < length t" by (metis append_is_Nil_conv drop_all not_le_imp_less)
  with b show "occurs_at q s t"
    unfolding occurs_at_def by (intro exI [of _ "take q t"] exI [of _ b]) (simp flip: b)
qed (auto simp: occurs_at_def starts_with_iff)

lemma str_find_Some:
  "s \<noteq> [] \<Longrightarrow> str_find t s = Some p \<longleftrightarrow> occurs_at p s t \<and> (\<forall>q < p. \<not> occurs_at q s t)"
proof (induction t arbitrary: p)
  case Nil
  then show ?case by (auto simp: occurs_at_def)
next
  case (Cons c t)
  then show ?case
    by (cases p) (auto simp: occurs_at_drop less_Suc_eq_0_disj)
qed

lemma str_find_None: "s \<noteq> [] \<Longrightarrow> str_find t s = None \<longleftrightarrow> (\<forall>q. \<not> occurs_at q s t)"
proof (induction t)
  case (Cons c t)
  have "(\<forall>q. \<not> starts_with (drop q (c # t)) s) \<longleftrightarrow> \<not> starts_with (c # t) s \<and> (\<forall>q. \<not> starts_with (drop q t) s)"
    by (metis drop0 drop_Suc_Cons not0_implies_Suc)
  with Cons show ?case by (simp add: occurs_at_drop)
qed (auto simp: occurs_at_def)

lemma earliest_fold_None:
  "fold (closer_match t) ss best = None \<longleftrightarrow> best = None \<and> (\<forall>s \<in> set ss. str_find t s = None)"
  by (induction ss arbitrary: best) (auto simp: closer_match_def split: option.splits)

lemma earliest_match_None: "earliest_match t ss = None \<longleftrightarrow> (\<forall>s \<in> set ss. str_find t s = None)"
  by (simp add: earliest_match_def earliest_fold_None)

lemma earliest_fold_Some:
  assumes "fold (closer_match t) ss best = Some (p, s)"
  shows "(best = Some (p, s) \<or> s \<in> set ss \<and> str_find t s = Some p) \<and>
    (\<forall>bp b. best = Some (bp, b) \<longrightarrow> p \<le> bp) \<and> (\<forall>s' \<in> set ss. \<forall>q. str_find t s' = Some q \<longrightarrow> p \<le> q)"
  using assms
proof (induction ss arbitrary: best)
  case (Cons a ss)
  note ih = Cons.IH [of "closer_match t a best"]
  from Cons.prems have "fold (closer_match t) ss (closer_match t a best) = Some (p, s)" by simp
  note ih = ih [OF this]
  show ?case
  proof (cases "str_find t a")
    case None
    with ih show ?thesis by (auto simp: closer_match_def)
  next
    case (Some q)
    show ?thesis
    proof (cases best)
      case None
      with ih Some show ?thesis by (auto simp: closer_match_def)
    next
      case b: (Some x)
      obtain bp w where "x = (bp, w)" by fastforce
      then consider "closer_match t a best = Some (q, a)" "q \<le> bp" | "closer_match t a best = Some (bp, w)" "bp \<le> q"
        using Some b by (cases "q < bp \<or> q = bp \<and> length w < length a") (auto simp: closer_match_def)
      then show ?thesis
      proof cases
        case 1
        with ih have "(p = q \<and> s = a \<or> s \<in> set ss \<and> str_find t s = Some p)" "p \<le> q"
          "\<forall>s' \<in> set ss. \<forall>q. str_find t s' = Some q \<longrightarrow> p \<le> q" by auto
        with 1 Some b \<open>x = (bp, w)\<close> show ?thesis by auto
      next
        case 2
        with ih have "(p = bp \<and> s = w \<or> s \<in> set ss \<and> str_find t s = Some p)" "p \<le> bp"
          "\<forall>s' \<in> set ss. \<forall>q. str_find t s' = Some q \<longrightarrow> p \<le> q" by auto
        with 2 Some b \<open>x = (bp, w)\<close> show ?thesis by auto
      qed
    qed
  qed
qed simp

lemma earliest_match_Some:
  "earliest_match t ss = Some (p, s) \<Longrightarrow>
   s \<in> set ss \<and> str_find t s = Some p \<and> (\<forall>s' \<in> set ss. \<forall>q. str_find t s' = Some q \<longrightarrow> p \<le> q)"
  using earliest_fold_Some [of t ss None p s] by (simp add: earliest_match_def)

lemma closer_match_shift:
  "str_find t' s = map_option ((+) n) (str_find t s) \<Longrightarrow>
   closer_match t' s (map_option (map_prod ((+) n) id) best) =
   map_option (map_prod ((+) n) id) (closer_match t s best)"
  by (cases "str_find t s"; cases best) (auto simp: closer_match_def split: prod.splits)

lemma earliest_match_shift:
  assumes "\<forall>s \<in> set ss. str_find t' s = map_option ((+) n) (str_find t s)"
  shows "earliest_match t' ss = map_option (map_prod ((+) n) id) (earliest_match t ss)"
proof -
  have "fold (closer_match t') ss (map_option (map_prod ((+) n) id) best) =
      map_option (map_prod ((+) n) id) (fold (closer_match t) ss best)" for best
    using assms by (induction ss arbitrary: best) (simp_all add: closer_match_shift)
  from this [of None] show ?thesis by (simp add: earliest_match_def)
qed

subsection \<open>What is held back\<close>

definition is_str :: "string \<Rightarrow> bool" where "is_str s \<longleftrightarrow> valid_utf8 (bytes_of_string s)"

definition sequences_ok :: "string list \<Rightarrow> bool" where
  "sequences_ok ss \<longleftrightarrow> list_all (\<lambda>s. s \<noteq> [] \<and> is_str s) ss"

lemma is_str_append: "is_str a \<Longrightarrow> is_str b \<Longrightarrow> is_str (a @ b)"
  by (simp add: is_str_def bytes_of_string_def valid_utf8_append)

lemma ends_with_append: "ends_with t x \<longleftrightarrow> (\<exists>a. t = a @ x)"
  by (auto simp: ends_with_def) (metis append_take_drop_id)

lemma prefix_at_end_is_boundary:
  assumes "is_str (y @ take k s)" "is_str s" "0 < k" "k < length s"
  shows "is_char_boundary s k"
proof (rule ccontr)
  assume "\<not> is_char_boundary s k"
  then have "is_cont (bytes_of_string s ! k)" using assms(3,4) by (simp add: is_char_boundary_def bytes_of_string_def)
  with cut_character_invalid [of "bytes_of_string s" k "bytes_of_string y"] assms show False
    by (simp add: is_str_def bytes_of_string_def take_map)
qed

lemma held_fold_ge: "m \<le> fold (\<lambda>s m. case held_of t s of Some k \<Rightarrow> max m k | None \<Rightarrow> m) ss m"
  by (induction ss arbitrary: m) (auto split: option.splits intro: order_trans [OF max.cobounded1])

lemma held_fold_member:
  "s \<in> set ss \<Longrightarrow> held_of t s = Some k \<Longrightarrow> k \<le> fold (\<lambda>s m. case held_of t s of Some k \<Rightarrow> max m k | None \<Rightarrow> m) ss m"
proof (induction ss arbitrary: m)
  case (Cons a ss)
  show ?case
  proof (cases "s = a")
    case True
    with Cons.prems held_fold_ge [of "max m k" t ss] show ?thesis by simp
  qed (use Cons in simp)
qed simp

lemma held_fold_le:
  "m \<le> n \<Longrightarrow> \<forall>s \<in> set ss. \<forall>k. held_of t s = Some k \<longrightarrow> k \<le> n \<Longrightarrow>
   fold (\<lambda>s m. case held_of t s of Some k \<Rightarrow> max m k | None \<Rightarrow> m) ss m \<le> n"
  by (induction ss arbitrary: m) (auto split: option.splits)

lemma find_rev_upt_ge:
  assumes "P k" "k \<in> set ks" "sorted (rev ks)"
  shows "\<exists>j. List.find P ks = Some j \<and> k \<le> j"
  using assms by (induction ks) (auto simp: sorted_append)

lemma held_of_ge:
  assumes "ends_with t (take k s)" "0 < k" "k < length s" "is_char_boundary s k"
  shows "\<exists>j. held_of t s = Some j \<and> k \<le> j"
  unfolding held_of_def using assms
  by (intro find_rev_upt_ge) (auto simp: rev_filter sorted_wrt_filter)

lemma find_SomeD: "List.find P xs = Some x \<Longrightarrow> x \<in> set xs \<and> P x"
  by (induction xs) (auto split: if_splits)

lemma held_of_le: "held_of t s = Some k \<Longrightarrow> k \<le> length t"
  by (auto simp: held_of_def ends_with_def dest!: find_SomeD)

lemma held_le: "held_suffix_len t ss \<le> length t"
  unfolding held_suffix_len_def by (intro held_fold_le) (auto dest: held_of_le)

text \<open>Every beginning of a stop sequence at the end of the text is held back.\<close>

lemma held_covers:
  assumes "is_str (e @ t)" "sequences_ok ss" "s \<in> set ss" "0 < k" "k < length s" "ends_with t (take k s)"
  shows "k \<le> held_suffix_len t ss"
proof -
  obtain a where "t = a @ take k s" using assms(6) by (auto simp: ends_with_append)
  with assms have "is_char_boundary s k"
    by (intro prefix_at_end_is_boundary [of "e @ a"]) (auto simp: sequences_ok_def list_all_iff)
  with held_of_ge [OF assms(6,4,5)] obtain j where "held_of t s = Some j" "k \<le> j" by blast
  with held_fold_member [OF assms(3), of t j 0] show ?thesis unfolding held_suffix_len_def by simp
qed

subsection \<open>One delta after another\<close>

text \<open>
  The text already passed on is \<open>e\<close>, the text held back is \<open>p\<close>: no stop sequence occurs so far, and
  every beginning of one at the end of the text lies in the part held back.
\<close>

definition held_inv :: "string list \<Rightarrow> string \<Rightarrow> string \<Rightarrow> bool" where
  "held_inv ss e p \<longleftrightarrow> is_str (e @ p) \<and> (\<forall>s \<in> set ss. str_find (e @ p) s = None) \<and>
     (\<forall>s \<in> set ss. \<forall>k. 0 < k \<and> k < length s \<and> ends_with (e @ p) (take k s) \<longrightarrow> k \<le> length p)"

lemma no_early_occurrence:
  assumes inv: "held_inv ss e p" and s: "s \<in> set ss" "s \<noteq> []" and occ: "occurs_at q s (e @ p @ t)"
  shows "length e \<le> q"
proof (rule ccontr)
  assume q: "\<not> length e \<le> q"
  from occ obtain a b where ab: "e @ p @ t = a @ s @ b" "length a = q" by (auto simp: occurs_at_def)
  let ?x = "e @ p"
  have xa: "take q (?x @ t) = a" using ab by simp
  show False
  proof (cases "q + length s \<le> length ?x")
    case True
    have "take (q + length s) (?x @ t) = a @ s" using ab by simp
    with True have "take (q + length s) ?x = a @ s" by simp
    then have "?x = a @ s @ drop (q + length s) ?x" by (metis append.assoc append_take_drop_id)
    with ab(2) have "occurs_at q s ?x" by (auto simp: occurs_at_def)
    with inv s show False by (auto simp: held_inv_def str_find_None)
  next
    case False
    let ?k = "length ?x - q"
    have "drop q (?x @ t) = s @ b" using ab by simp
    then have "drop q ?x = take ?k (s @ b)" using q by (metis (no_types, lifting) append_eq_conv_conj diff_is_0_eq drop_append length_drop less_imp_le linorder_not_le take_0)
    with False have "drop q ?x = take ?k s" by simp
    then have "ends_with ?x (take ?k s)" by (metis append_take_drop_id ends_with_append)
    moreover have "0 < ?k" "?k < length s" "length p < ?k" using q False by simp_all
    moreover have "0 < k \<and> k < length s \<and> ends_with ?x (take k s) \<Longrightarrow> k \<le> length p" for k
      using inv s(1) unfolding held_inv_def by blast
    ultimately show False by (meson not_le)
  qed
qed

lemma str_find_after:
  assumes "held_inv ss e p" "s \<in> set ss" "s \<noteq> []"
  shows "str_find (e @ p @ t) s = map_option ((+) (length e)) (str_find (p @ t) s)"
proof -
  have occ: "occurs_at (length e + q) s (e @ p @ t) \<longleftrightarrow> occurs_at q s (p @ t)" for q
    using assms(3) by (simp add: occurs_at_drop)
  show ?thesis
  proof (cases "str_find (p @ t) s")
    case None
    have "\<not> occurs_at q s (e @ p @ t)" for q
      using None occ [of "q - length e"] no_early_occurrence [OF assms, of q t] assms(3) by (auto simp: str_find_None)
    then have "str_find (e @ p @ t) s = None" using assms(3) by (simp add: str_find_None)
    with None show ?thesis by simp
  next
    case (Some r)
    have "\<not> occurs_at q s (e @ p @ t)" if "q < length e + r" for q
      using that Some occ [of "q - length e"] no_early_occurrence [OF assms, of q t] assms(3) by (auto simp: str_find_Some)
    moreover have "occurs_at (length e + r) s (e @ p @ t)" using Some occ [of r] assms(3) by (simp add: str_find_Some)
    ultimately have "str_find (e @ p @ t) s = Some (length e + r)" using assms(3) by (simp add: str_find_Some)
    with Some show ?thesis by simp
  qed
qed

lemma earliest_after:
  assumes "held_inv ss e p" "sequences_ok ss"
  shows "earliest_match (e @ p @ t) ss = map_option (map_prod ((+) (length e)) id) (earliest_match (p @ t) ss)"
  using assms str_find_after
  by (intro earliest_match_shift) (auto simp: sequences_ok_def list_all_iff)

lemma held_inv_next:
  assumes inv: "held_inv ss e p" and ss: "sequences_ok ss" and t: "is_str t"
    and none: "earliest_match (p @ t) ss = None"
  defines "n \<equiv> length (p @ t) - held_suffix_len (p @ t) ss"
  shows "held_inv ss (e @ take n (p @ t)) (drop n (p @ t))"
proof -
  have str: "is_str (e @ p @ t)" using inv t is_str_append [of "e @ p" t] by (simp add: held_inv_def)
  have len: "length (drop n (p @ t)) = held_suffix_len (p @ t) ss"
    using held_le [of "p @ t" ss] by (simp add: n_def)
  have "k \<le> held_suffix_len (p @ t) ss"
    if s: "s \<in> set ss" and k: "0 < k" "k < length s" "ends_with (e @ p @ t) (take k s)" for s k
  proof (cases "k \<le> length (p @ t)")
    case True
    then have "ends_with (p @ t) (take k s)" using k by (simp add: ends_with_def)
    with held_covers [OF str ss s] k show ?thesis by blast
  next
    case False
    let ?j = "k - length t"
    from k(3) obtain a where a: "e @ p @ t = a @ take k s" by (auto simp: ends_with_append)
    have "take ?j s @ drop ?j (take k s) = take k s" by (metis append_take_drop_id min.absorb1 diff_le_self take_take)
    with a have "(e @ p) @ t = (a @ take ?j s) @ drop ?j (take k s)" by (metis append.assoc)
    moreover have "length t = length (drop ?j (take k s))" using k False by simp
    ultimately have "e @ p = a @ take ?j s" by (metis append_eq_append_conv)
    then have "ends_with (e @ p) (take ?j s)" by (auto simp: ends_with_append)
    moreover have "0 < ?j" "?j < length s" using k False by simp_all
    moreover have "0 < j \<and> j < length s \<and> ends_with (e @ p) (take j s) \<Longrightarrow> j \<le> length p" for j
      using inv s unfolding held_inv_def by blast
    ultimately have "?j \<le> length p" by blast
    with False show ?thesis by simp
  qed
  moreover have "\<forall>s \<in> set ss. str_find (e @ p @ t) s = None"
    using earliest_after [OF inv ss, of t] none by (simp add: earliest_match_None)
  moreover have "(e @ take n (p @ t)) @ drop n (p @ t) = e @ p @ t" by (metis append.assoc append_take_drop_id)
  ultimately show ?thesis unfolding held_inv_def len using str by simp
qed

text \<open>The text of one block, delta by delta, until the block stops.\<close>

definition text_step :: "string list \<Rightarrow> string \<Rightarrow> string \<Rightarrow> string \<times> string \<times> string option" where
  "text_step ss p t =
     (case earliest_match (p @ t) ss of
        Some (pos, s) \<Rightarrow> (take pos (p @ t), [], Some s)
      | None \<Rightarrow> let n = length (p @ t) - held_suffix_len (p @ t) ss in (take n (p @ t), drop n (p @ t), None))"

fun text_run :: "string list \<Rightarrow> string \<Rightarrow> string list \<Rightarrow> string \<times> string option" where
  "text_run ss p [] = (p, None)"
| "text_run ss p (t # ts) =
     (case text_step ss p t of
        (v, p', Some s) \<Rightarrow> (v, Some s)
      | (v, p', None) \<Rightarrow> (case text_run ss p' ts of (v', m) \<Rightarrow> (v @ v', m)))"

lemma text_run_spec:
  assumes "sequences_ok ss" "held_inv ss e p" "list_all is_str ts" "text_run ss p ts = (v, m)"
  shows "case m of
      None \<Rightarrow> v = p @ concat ts \<and> earliest_match (e @ p @ concat ts) ss = None
    | Some s \<Rightarrow> \<exists>y z. e @ p @ concat ts = y @ z \<and> earliest_match y ss = Some (length (e @ v), s) \<and>
        e @ v = take (length (e @ v)) y"
  using assms(2-)
proof (induction ts arbitrary: e p v)
  case Nil
  then show ?case by (auto simp: held_inv_def earliest_match_None)
next
  case (Cons t ts)
  show ?case
  proof (cases "earliest_match (p @ t) ss")
    case None
    define n where "n = length (p @ t) - held_suffix_len (p @ t) ss"
    obtain v' where r: "text_run ss (drop n (p @ t)) ts = (v', m)" and v: "v = take n (p @ t) @ v'"
      using Cons.prems(3) None
      by (cases "text_run ss (drop n (p @ t)) ts") (auto simp: text_step_def n_def Let_def)
    have inv: "held_inv ss (e @ take n (p @ t)) (drop n (p @ t))"
      unfolding n_def using held_inv_next [OF Cons.prems(1) assms(1) _ None] Cons.prems(2) by simp
    have same: "(e @ take n (p @ t)) @ drop n (p @ t) @ x = e @ p @ t @ x" "take n (p @ t) @ drop n (p @ t) @ x = p @ t @ x" for x
      by (metis append.assoc append_take_drop_id)+
    have "list_all is_str ts" using Cons.prems(2) by simp
    from Cons.IH [OF inv this r] show ?thesis
      unfolding same v by (simp only: append.assoc same concat.simps split: option.splits) (auto simp: same)
  next
    case (Some ps)
    obtain pos s where ps: "ps = (pos, s)" by fastforce
    have v: "v = take pos (p @ t)" "m = Some s"
      using Cons.prems(3) Some ps by (auto simp: text_step_def)
    from earliest_match_Some [of "p @ t" ss pos s] Some ps assms(1)
    have "occurs_at pos s (p @ t)" by (auto simp: str_find_Some sequences_ok_def list_all_iff)
    then have "pos \<le> length (p @ t)" unfolding occurs_at_def by (metis length_append le_add1)
    then have len: "length (e @ v) = length e + pos" by (simp add: v)
    have "earliest_match (e @ p @ t) ss = Some (length (e @ v), s)"
      using earliest_after [OF Cons.prems(1) assms(1), of t] Some ps len by simp
    moreover have "e @ v = take (length (e @ v)) (e @ p @ t)" unfolding len by (simp add: v)
    ultimately show ?thesis
      unfolding v(2) option.case by (intro exI [of _ "e @ p @ t"] exI [of _ "concat ts"]) simp
  qed
qed

subsection \<open>Events\<close>

text \<open>What the proofs need of the JSON operations.\<close>

definition json_laws :: "'j json_ops \<Rightarrow> bool" where
  "json_laws J \<longleftrightarrow>
     (\<forall>d v. j_index J (j_set_delta_text J d v) = j_index J d \<and> j_delta_text J (j_set_delta_text J d v) = Some v) \<and>
     (\<forall>i v. map_option word_of_int (j_index J (j_text_delta J i v)) = Some i \<and>
        j_delta_text J (j_text_delta J i v) = Some v)"

definition is_text_delta :: "'j json_ops \<Rightarrow> i32 \<Rightarrow> 'j sse_event \<Rightarrow> string \<Rightarrow> bool" where
  "is_text_delta J i e t \<longleftrightarrow> ev_event e = ''content_block_delta'' \<and>
     map_option word_of_int (j_index J (ev_data e)) = Some i \<and>
     j_delta_type J (ev_data e) = Some ''text_delta'' \<and> j_delta_text J (ev_data e) = Some t"

definition is_block_stop :: "'j json_ops \<Rightarrow> i32 \<Rightarrow> 'j sse_event \<Rightarrow> bool" where
  "is_block_stop J i e \<longleftrightarrow> ev_event e = ''content_block_stop'' \<and>
     map_option word_of_int (j_index J (ev_data e)) = Some i"

text \<open>The text that reaches the client in block \<open>i\<close>.\<close>

definition text_of :: "'j json_ops \<Rightarrow> i32 \<Rightarrow> 'j sse_event list \<Rightarrow> string" where
  "text_of J i es = concat (map (\<lambda>e.
     if ev_event e = ''content_block_delta'' \<and> map_option word_of_int (j_index J (ev_data e)) = Some i
     then (case j_delta_text J (ev_data e) of Some t \<Rightarrow> t | None \<Rightarrow> []) else []) es)"

definition pending_text :: "stop_filter \<Rightarrow> i32 \<Rightarrow> string" where
  "pending_text f i = (case sf_pending f i of Some p \<Rightarrow> p | None \<Rightarrow> [])"

definition listening :: "stop_filter \<Rightarrow> i32 \<Rightarrow> bool" where
  "listening f i \<longleftrightarrow> i \<in> text_blocks f \<and> i \<in> forwarded_blocks f \<and> sf_matched f = None"

lemma text_of_append: "text_of J i (es @ es') = text_of J i es @ text_of J i es'"
  by (simp add: text_of_def)

lemma earliest_Nil: "sequences_ok ss \<Longrightarrow> earliest_match [] ss = None"
  by (auto simp: earliest_match_None sequences_ok_def list_all_iff)

lemma held_Nil: "held_suffix_len [] ss = 0"
  using held_le [of "[]" ss] by simp

lemma visible_text_step:
  assumes "text_step (sf_sequences g) p t = (v, p', m)" "visible_text i (p @ t) g = (w, g')"
    "sf_pending g i = None" "sf_matched g = None"
  shows "w = v \<and> sf_matched g' = m \<and> sf_sequences g' = sf_sequences g \<and> text_blocks g' = text_blocks g \<and>
    forwarded_blocks g' = forwarded_blocks g \<and> (m = None \<longrightarrow> pending_text g' i = p') \<and>
    (m \<noteq> None \<longrightarrow> sf_pending g' = Map.empty)"
proof (cases "earliest_match (p @ t) (sf_sequences g)")
  case None
  then show ?thesis
    using assms held_le [of "p @ t" "sf_sequences g"]
    by (auto simp: text_step_def visible_text_def Let_def pending_text_def split: if_splits)
next
  case (Some x)
  then show ?thesis using assms by (cases x) (auto simp: text_step_def visible_text_def)
qed

lemma apply_delta_text:
  assumes "json_laws J" "is_text_delta J i e t" "listening f i" "sequences_ok (sf_sequences f)"
    "text_step (sf_sequences f) (pending_text f i) t = (v, p, m)" "apply_one J e f = (out, f')"
  shows "text_of J i out = v \<and> sf_matched f' = m \<and> sf_sequences f' = sf_sequences f \<and>
    (m = None \<longrightarrow> listening f' i \<and> pending_text f' i = p) \<and> (m \<noteq> None \<longrightarrow> sf_pending f' = Map.empty)"
proof -
  let ?c = "pending_text f i @ t" and ?g = "f\<lparr>sf_pending := (sf_pending f)(i := None)\<rparr>"
  obtain w g where vis: "visible_text i ?c ?g = (w, g)" by fastforce
  have app: "apply_one J e f = (if ?c = [] then ([e], ?g)
      else (if w \<noteq> [] then [e\<lparr>ev_data := j_set_delta_text J (ev_data e) w\<rparr>] else [], g))"
    using assms(2,3) vis
    by (auto simp: apply_one_def apply_delta_def is_text_delta_def listening_def pending_text_def Let_def)
  show ?thesis
  proof (cases "?c = []")
    case True
    then have "t = []" "pending_text f i = []" by simp_all
    then have "v = [] \<and> p = [] \<and> m = None"
      using assms(5) earliest_Nil [OF assms(4)] by (simp add: text_step_def held_Nil)
    moreover have "text_of J i [e] = t" using assms(2) by (simp add: text_of_def is_text_delta_def)
    moreover have "out = [e]" "f' = ?g" using assms(6) unfolding app if_P [OF True] by simp_all
    ultimately show ?thesis using assms(3) True by (simp add: listening_def pending_text_def)
  next
    case False
    have out: "out = (if w \<noteq> [] then [e\<lparr>ev_data := j_set_delta_text J (ev_data e) w\<rparr>] else [])" "f' = g"
      using assms(6) unfolding app if_not_P [OF False] by simp_all
    have "text_of J i out = w"
      using assms(1,2) unfolding out by (simp add: text_of_def is_text_delta_def json_laws_def)
    moreover have "sf_sequences ?g = sf_sequences f" "sf_pending ?g i = None" "sf_matched ?g = None"
      using assms(3) by (simp_all add: listening_def)
    then have "w = v \<and> sf_matched g = m \<and> sf_sequences g = sf_sequences f \<and> text_blocks g = text_blocks f \<and>
        forwarded_blocks g = forwarded_blocks f \<and> (m = None \<longrightarrow> pending_text g i = p) \<and>
        (m \<noteq> None \<longrightarrow> sf_pending g = Map.empty)"
      using visible_text_step [of ?g "pending_text f i" t v p m i w g] assms(5) vis by simp
    ultimately show ?thesis using assms(3) out(2) by (simp add: listening_def)
  qed
qed

lemma matched_blocks_text:
  assumes "is_text_delta J i e t" "sf_matched f \<noteq> None"
  shows "apply_one J e f = ([], f)"
  using assms by (auto simp: apply_one_def is_text_delta_def)

lemma apply_matched_run:
  assumes "list_all2 (is_text_delta J i) es ts" "sf_matched f \<noteq> None" "sf_pending f = Map.empty" "is_block_stop J i stop"
    "apply_events J (es @ [stop]) f = (out, f')"
  shows "text_of J i out = [] \<and> sf_matched f' = sf_matched f"
  using assms
proof (induction es ts arbitrary: out rule: list_all2_induct)
  case Nil
  then show ?case
    by (auto simp: apply_one_def is_block_stop_def text_of_def split: option.splits if_splits)
next
  case (Cons e es t ts)
  then show ?case by (auto simp: matched_blocks_text)
qed

lemma apply_stop:
  assumes "json_laws J" "listening f i" "is_block_stop J i stop" "apply_one J stop f = (out, f')"
  shows "text_of J i out = pending_text f i \<and> sf_matched f' = None"
  using assms
  by (auto simp: apply_one_def is_block_stop_def listening_def pending_text_def text_of_def json_laws_def
      split: option.splits if_splits)

lemma apply_text_run:
  assumes "json_laws J" "is_block_stop J i stop" "list_all2 (is_text_delta J i) es ts"
    "listening f i" "sequences_ok (sf_sequences f)" "apply_events J (es @ [stop]) f = (out, f')"
  shows "(text_of J i out, sf_matched f') = text_run (sf_sequences f) (pending_text f i) ts"
  using assms(3-)
proof (induction es ts arbitrary: f out rule: list_all2_induct)
  case Nil
  then show ?case using apply_stop [OF assms(1) Nil(1) assms(2)] by (auto split: prod.splits)
next
  case (Cons e es t ts)
  obtain o1 f1 where a: "apply_one J e f = (o1, f1)" by fastforce
  obtain o2 where b: "apply_events J (es @ [stop]) f1 = (o2, f')" and out: "out = o1 @ o2"
    using Cons.prems(3) a by (auto split: prod.splits)
  obtain v p m where s: "text_step (sf_sequences f) (pending_text f i) t = (v, p, m)" by (metis prod_cases3)
  note d = apply_delta_text [OF assms(1) Cons.hyps(1) Cons.prems(1,2) s a]
  show ?case
  proof (cases m)
    case None
    with d Cons.prems(2) Cons.IH [OF _ _ b] s out show ?thesis by (auto simp: text_of_append split: prod.splits)
  next
    case (Some x)
    with d apply_matched_run [OF Cons.hyps(2) _ _ assms(2) b] s out show ?thesis by (auto simp: text_of_append)
  qed
qed

subsection \<open>Streamed and complete answers\<close>

definition infix_free :: "string list \<Rightarrow> bool" where
  "infix_free ss \<longleftrightarrow> list_all (\<lambda>s. list_all (\<lambda>s'. s = s' \<or> str_find s' s = None) ss) ss"

lemma occurs_at_extend: "occurs_at q s y \<Longrightarrow> occurs_at q s (y @ z)"
  unfolding occurs_at_def by (metis append.assoc)

lemma occurs_at_prefix:
  assumes "occurs_at q s (y @ z)" "q + length s \<le> length y"
  shows "occurs_at q s y"
proof -
  from assms(1) obtain a b where "y @ z = a @ s @ b" "length a = q" by (auto simp: occurs_at_def)
  then have "take (q + length s) (y @ z) = a @ s" by simp
  with assms(2) have "y = (a @ s) @ drop (q + length s) y" by (metis append_take_drop_id diff_is_0_eq take_0 append_Nil2 take_append)
  with \<open>length a = q\<close> show ?thesis by (auto simp: occurs_at_def)
qed

text \<open>An occurrence inside another one is an occurrence in that sequence.\<close>

lemma occurs_at_inside:
  assumes "occurs_at q s x" "occurs_at q0 s0 x" "q \<le> q0" "q0 + length s0 \<le> q + length s"
  shows "occurs_at (q0 - q) s0 s"
proof -
  from assms(1) obtain a b where ab: "x = a @ s @ b" "length a = q" by (auto simp: occurs_at_def)
  from assms(2) obtain c d where cd: "x = c @ s0 @ d" "length c = q0" by (auto simp: occurs_at_def)
  have "take (length s0) (drop q0 x) = s0" using cd by simp
  moreover have "drop q0 x = drop (q0 - q) (s @ b)" using ab assms(3) by simp
  ultimately have "take (length s0) (drop (q0 - q) s) = s0" using assms(3,4) by simp
  then have "s = take (q0 - q) s @ s0 @ drop (length s0) (drop (q0 - q) s)" by (metis append_take_drop_id)
  moreover have "length (take (q0 - q) s) = q0 - q" using assms(3,4) by simp
  ultimately show ?thesis unfolding occurs_at_def by metis
qed

lemma infix_freeD: "infix_free ss \<Longrightarrow> s \<in> set ss \<Longrightarrow> s' \<in> set ss \<Longrightarrow> s \<noteq> s' \<Longrightarrow> str_find s' s = None"
  unfolding infix_free_def list_all_iff by blast

lemma earliest_match_extend:
  assumes ok: "sequences_ok ss" and free: "infix_free ss" and y: "earliest_match y ss = Some (p, s)"
  shows "earliest_match (y @ z) ss = Some (p, s)"
proof -
  have ne: "x \<in> set ss \<Longrightarrow> x \<noteq> []" for x using ok by (auto simp: sequences_ok_def list_all_iff)
  from earliest_match_Some [OF y] have s: "s \<in> set ss" "str_find y s = Some p"
    and least: "\<And>x q. x \<in> set ss \<Longrightarrow> str_find y x = Some q \<Longrightarrow> p \<le> q" by auto
  have occ: "occurs_at p s y" using s ne by (simp add: str_find_Some)
  then have len: "p + length s \<le> length y" by (auto simp: occurs_at_def)
  have later: "p < q" if x: "x \<in> set ss" "x \<noteq> s" and q: "occurs_at q x (y @ z)" for x q
  proof (rule ccontr)
    assume "\<not> p < q"
    then have "q \<le> p" by simp
    have "\<not> p + length s \<le> q + length x"
    proof
      assume "p + length s \<le> q + length x"
      from occurs_at_inside [OF q occurs_at_extend [OF occ] \<open>q \<le> p\<close> this] have "str_find x s \<noteq> None"
        using ne [OF s(1)] by (auto simp: str_find_None)
      with infix_freeD [OF free s(1) x(1)] x(2) show False by simp
    qed
    with occurs_at_prefix [OF q] len have qy: "occurs_at q x y" by simp
    then obtain r where "str_find y x = Some r" "r \<le> q"
      using ne [OF x(1)] by (cases "str_find y x") (auto simp: str_find_None str_find_Some not_less [symmetric])
    with least [OF x(1)] \<open>q \<le> p\<close> have "q = p" by (meson le_antisym le_trans)
    from occurs_at_inside [OF occ qy] \<open>q = p\<close> \<open>\<not> p + length s \<le> q + length x\<close> have "str_find s x \<noteq> None"
      using ne [OF x(1)] by (auto simp: str_find_None)
    with infix_freeD [OF free x(1) s(1) x(2)] show False by simp
  qed
  have found: "str_find (y @ z) s = Some p"
  proof -
    have "\<not> occurs_at q s (y @ z)" if "q < p" for q
      using occurs_at_prefix [of q s y z] that len s ne by (auto simp: str_find_Some)
    with occurs_at_extend [OF occ, of z] ne [OF s(1)] show ?thesis by (simp add: str_find_Some)
  qed
  obtain p' s' where e: "earliest_match (y @ z) ss = Some (p', s')"
    using found s(1) by (cases "earliest_match (y @ z) ss") (auto simp: earliest_match_None)
  from earliest_match_Some [OF e] have "s' \<in> set ss" "str_find (y @ z) s' = Some p'" "p' \<le> p" using found s(1) by auto
  with later [of s' p'] ne found have "s' = s" by (auto simp: str_find_Some)
  with \<open>str_find (y @ z) s' = Some p'\<close> found e show ?thesis by simp
qed

lemma held_inv_start: "sequences_ok ss \<Longrightarrow> held_inv ss [] []"
  by (auto simp: held_inv_def sequences_ok_def list_all_iff ends_with_def is_str_def bytes_of_string_def)

lemma normalize_from_facts:
  "distinct (normalize_from seen ss) \<and> set (normalize_from seen ss) = set ss - insert [] seen"
  by (induction seen ss rule: normalize_from.induct) auto

text \<open>The sequences a filter is built with are fit for it.\<close>

lemma normalized_sequences_ok:
  "list_all is_str ss \<Longrightarrow> sequences_ok (normalize_stop_sequences (Some ss))"
  using normalize_from_facts [of "{}" ss]
  by (auto simp: sequences_ok_def normalize_stop_sequences_def list_all_iff)

lemma new_filter_listens:
  assumes "stop_filter_new ss = Some f" "ev_event e = ''content_block_start''"
    "map_option word_of_int (j_index J (ev_data e)) = Some i" "j_block_type J (ev_data e) = Some ''text''"
  shows "listening (snd (apply_one J e f)) i \<and> pending_text (snd (apply_one J e f)) i = [] \<and>
    sf_sequences (snd (apply_one J e f)) = ss"
  using assms by (auto simp: stop_filter_new_def apply_one_def listening_def pending_text_def split: if_splits)

text \<open>C5. 
  The streamed answer is the complete one.  When no stop sequence lies inside another, the client
  of a stream sees in a text block exactly the text up to the first stop sequence (the longest
  one if several start there), or all of it, however the text is cut into deltas; the sequence
  reported is the one that cutting the complete answer reports.
\<close>

theorem stop_filter_ignores_chunking:
  assumes "json_laws J" "sequences_ok (sf_sequences f)" "infix_free (sf_sequences f)"
    and "listening f i" "pending_text f i = []"
    and "list_all is_str ts" "list_all2 (is_text_delta J i) es ts" "is_block_stop J i stop"
    and "apply_events J (es @ [stop]) f = (out, f')"
  shows "(text_of J i out, sf_matched f') =
      (case earliest_match (concat ts) (sf_sequences f) of
         None \<Rightarrow> (concat ts, None)
       | Some (pos, s) \<Rightarrow> (take pos (concat ts), Some s)) \<and>
    (sf_sequences f \<noteq> [] \<longrightarrow> fst (truncate_content_at_stop_sequence (sf_sequences f) [TextBlock (concat ts) j]) = sf_matched f')"
proof -
  let ?ss = "sf_sequences f"
  obtain v m where r: "text_run ?ss [] ts = (v, m)" by fastforce
  with apply_text_run [OF assms(1,8,7,4,2,9)] assms(5) have vm: "text_of J i out = v" "sf_matched f' = m" by simp_all
  note spec = text_run_spec [OF assms(2) held_inv_start [OF assms(2)] assms(6) r]
  have "(v, m) = (case earliest_match (concat ts) ?ss of
      None \<Rightarrow> (concat ts, None) | Some (pos, s) \<Rightarrow> (take pos (concat ts), Some s))"
  proof (cases m)
    case None
    with spec show ?thesis by simp
  next
    case (Some s)
    with spec obtain y z where y: "concat ts = y @ z" "earliest_match y ?ss = Some (length v, s)" "v = take (length v) y"
      by auto
    then have "length v \<le> length y" by (metis length_take min.cobounded1)
    with y Some earliest_match_extend [OF assms(2,3) y(2), of z] show ?thesis by simp
  qed
  then show ?thesis
    using vm by (auto simp: truncate_content_at_stop_sequence_def split: option.splits prod.splits)
qed

text \<open>
  Whatever the stop sequences are, the client never sees one: the text shown is a beginning of the
  block's text in which no stop sequence occurs; it is all of it if none matched, and otherwise it
  ends right before an occurrence of the reported sequence.
\<close>

theorem stop_sequences_are_never_shown:
  assumes "json_laws J" "sequences_ok (sf_sequences f)" "listening f i" "pending_text f i = []"
    and "list_all is_str ts" "list_all2 (is_text_delta J i) es ts" "is_block_stop J i stop"
    and "apply_events J (es @ [stop]) f = (out, f')"
  shows "text_of J i out = take (length (text_of J i out)) (concat ts) \<and>
    (s \<in> set (sf_sequences f) \<longrightarrow> str_find (text_of J i out) s = None) \<and>
    (case sf_matched f' of
       None \<Rightarrow> text_of J i out = concat ts
     | Some m \<Rightarrow> m \<in> set (sf_sequences f) \<and> starts_with (drop (length (text_of J i out)) (concat ts)) m)"
proof -
  let ?ss = "sf_sequences f"
  have ne: "x \<in> set ?ss \<Longrightarrow> x \<noteq> []" for x using assms(2) by (auto simp: sequences_ok_def list_all_iff)
  obtain v m where r: "text_run ?ss [] ts = (v, m)" by fastforce
  with apply_text_run [OF assms(1,7,6,3,2,8)] assms(4) have vm: "text_of J i out = v" "sf_matched f' = m" by simp_all
  note spec = text_run_spec [OF assms(2) held_inv_start [OF assms(2)] assms(5) r]
  show ?thesis
  proof (cases m)
    case None
    with spec vm show ?thesis by (auto simp: earliest_match_None)
  next
    case (Some x)
    with spec obtain y z where y: "concat ts = y @ z" "earliest_match y ?ss = Some (length v, x)" "v = take (length v) y"
      by auto
    from earliest_match_Some [OF y(2)] have x: "x \<in> set ?ss" "str_find y x = Some (length v)"
      and least: "\<And>w q. w \<in> set ?ss \<Longrightarrow> str_find y w = Some q \<Longrightarrow> length v \<le> q" by auto
    have "occurs_at (length v) x y" using x ne by (simp add: str_find_Some)
    then have "starts_with (drop (length v) (concat ts)) x"
      using occurs_at_extend [of "length v" x y z] ne [OF x(1)] y(1) by (simp add: occurs_at_drop)
    moreover have "str_find v s = None" if s: "s \<in> set ?ss"
    proof (rule ccontr)
      assume "str_find v s \<noteq> None"
      then obtain q where q: "occurs_at q s v" using ne [OF s] by (auto simp: str_find_None)
      then have "q < length v" using ne [OF s] by (auto simp: occurs_at_def)
      have "occurs_at q s y" using occurs_at_extend [OF q, of "drop (length v) y"] y(3) by (metis append_take_drop_id)
      then obtain r where "str_find y s = Some r" "r \<le> q"
        using ne [OF s] by (cases "str_find y s") (auto simp: str_find_None str_find_Some not_less [symmetric])
      with least [OF s] \<open>q < length v\<close> show False by fastforce
    qed
    moreover have "v = take (length v) (concat ts)"
      using y by (metis length_take min.cobounded1 take_append diff_is_0_eq take_0 append_Nil2)
    ultimately show ?thesis using vm Some x(1) by simp
  qed
qed

subsection \<open>Instances\<close>

text \<open>Values that are an index and a text, enough for the text deltas of a stream.\<close>

definition pair_json :: "(int \<times> string) json_ops" where
  "pair_json = \<lparr>j_index = (\<lambda>d. Some (fst d)), j_block_type = (\<lambda>d. Some ''text''),
     j_delta_type = (\<lambda>d. Some ''text_delta''), j_delta_text = (\<lambda>d. Some (snd d)),
     j_set_delta_text = (\<lambda>d v. (fst d, v)), j_set_stop = (\<lambda>d r s. d), j_text_delta = (\<lambda>i v. (uint i, v))\<rparr>"

definition pair_delta :: "string \<Rightarrow> (int \<times> string) sse_event" where
  "pair_delta t = \<lparr>ev_event = ''content_block_delta'', ev_data = (0, t)\<rparr>"

definition pair_stop :: "(int \<times> string) sse_event" where
  "pair_stop = \<lparr>ev_event = ''content_block_stop'', ev_data = (0, [])\<rparr>"

definition open_filter :: "string list \<Rightarrow> stop_filter" where
  "open_filter ss = \<lparr>sf_sequences = ss, forwarded_blocks = {0}, text_blocks = {0}, sf_pending = Map.empty, sf_matched = None\<rparr>"

definition streamed :: "string list \<Rightarrow> string list \<Rightarrow> string \<times> string option" where
  "streamed ss ts = (case apply_events pair_json (map pair_delta ts @ [pair_stop]) (open_filter ss) of
     (out, f) \<Rightarrow> (text_of pair_json 0 out, sf_matched f))"

lemma pair_json_laws: "json_laws pair_json"
  by (simp add: json_laws_def pair_json_def)

lemma pair_events:
  "list_all2 (is_text_delta pair_json 0) (map pair_delta ts) ts" "is_block_stop pair_json 0 pair_stop"
  by (simp_all add: list_all2_map1 list.rel_refl is_text_delta_def is_block_stop_def pair_json_def pair_delta_def pair_stop_def)

lemma open_filter_facts [simp]:
  "sf_sequences (open_filter ss) = ss" "listening (open_filter ss) 0" "pending_text (open_filter ss) 0 = []"
  by (simp_all add: open_filter_def listening_def pending_text_def)

theorem stop_filter_ignores_chunking_witness:
  "streamed [''END'', ''stop''] [''one E'', ''N'', ''D two stop''] = (''one '', Some ''END'')"
proof -
  let ?ss = "[''END'', ''stop'']" and ?ts = "[''one E'', ''N'', ''D two stop'']"
  have f: "sequences_ok ?ss" "infix_free ?ss" "list_all is_str ?ts"
    "earliest_match (concat ?ts) ?ss = Some (4, ''END'')"
    by code_simp+
  obtain out f' where a: "apply_events pair_json (map pair_delta ?ts @ [pair_stop]) (open_filter ?ss) = (out, f')" by fastforce
  have "(text_of pair_json 0 out, sf_matched f') = (''one '', Some ''END'')"
    using stop_filter_ignores_chunking [OF pair_json_laws _ _ _ _ f(3) pair_events a, of "()"] f(1,2,4) by simp
  then show ?thesis by (simp only: streamed_def a prod.case)
qed

theorem stop_sequences_are_never_shown_witness:
  "str_find (fst (streamed [''bc'', ''abcd''] [''xabc'', ''d''])) ''bc'' = None"
proof -
  let ?ss = "[''bc'', ''abcd'']" and ?ts = "[''xabc'', ''d'']"
  have f: "sequences_ok ?ss" "list_all is_str ?ts" by code_simp+
  obtain out f' where a: "apply_events pair_json (map pair_delta ?ts @ [pair_stop]) (open_filter ?ss) = (out, f')" by fastforce
  have "str_find (text_of pair_json 0 out) ''bc'' = None"
    using stop_sequences_are_never_shown [OF pair_json_laws _ _ _ f(2) pair_events a, of "''bc''"] f(1) by simp
  then show ?thesis by (simp only: streamed_def a prod.case fst_conv)
qed

text \<open>
  When a stop sequence lies inside another, the cut into deltas decides: with \<open>abcd\<close> and \<open>bc\<close>, the
  text \<open>abcd\<close> sent as one delta (and the complete answer) is cut before \<open>abcd\<close>, sent as \<open>abc\<close> and
  \<open>d\<close> it is cut before \<open>bc\<close>, with another sequence reported.
\<close>

theorem nested_stop_sequences_depend_on_chunking:
  "streamed [''abcd'', ''bc''] [''abcd''] = ([], Some ''abcd'') \<and>
   streamed [''abcd'', ''bc''] [''abc'', ''d''] = (''a'', Some ''bc'') \<and>
   fst (truncate_content_at_stop_sequence [''abcd'', ''bc''] [TextBlock ''abcd'' ()]) = Some ''abcd''"
  by code_simp

end
