(* ===== verification/Admission_Gate.thy ===== *)
theory Admission_Gate
  imports Prelude
begin

text \<open>
  The concurrency gate of a request API key (\<open>src/anthropic/request_admission.rs\<close>): its
  counters, the numbered queue of waiting requests, the loop of \<open>acquire_concurrency\<close>, and the
  permits and registrations that give their share back when they are dropped.

  The gate is shared, so the loop is cut where the code gives way to other tasks: enabling the
  notification, reading the policy, the section that holds the gate's lock, the wait, the drop
  of the registration and the drop of a permit are separate steps, and so is the
  \<open>notify_waiters\<close> that follows a drop outside the lock.  A run is any sequence of such steps
  of any number of requests.  The per-key policy can be replaced at any point of a run.

  Shown here: the queue of tickets answers as a plain first-in-first-out queue of requests, the
  counters are exact, the limits hold, and no wake-up is lost as long as the concurrency limit
  is not switched off; switched off for a moment, it can leave the first request asleep.
\<close>

subsection \<open>Configuration\<close>

record request_admission_config =
  ra_rpm :: u32
  ra_max_concurrent_requests :: u32
  ra_max_queued_requests :: u32
  ra_queue_timeout_ms :: u64

definition MAX_REQUEST_API_KEY_RPM :: u32 where "MAX_REQUEST_API_KEY_RPM = 1000000"
definition MAX_REQUEST_API_KEY_CONCURRENT_REQUESTS :: u32 where
  "MAX_REQUEST_API_KEY_CONCURRENT_REQUESTS = 10000"
definition MAX_REQUEST_API_KEY_QUEUED_REQUESTS :: u32 where
  "MAX_REQUEST_API_KEY_QUEUED_REQUESTS = 100000"
definition MAX_REQUEST_API_KEY_QUEUE_TIMEOUT_MS :: u64 where
  "MAX_REQUEST_API_KEY_QUEUE_TIMEOUT_MS = 300000"

definition normalized_admission :: "request_admission_config \<Rightarrow> request_admission_config" where
  "normalized_admission c =
     (let n = \<lparr>ra_rpm = min (ra_rpm c) MAX_REQUEST_API_KEY_RPM,
               ra_max_concurrent_requests =
                 min (ra_max_concurrent_requests c) MAX_REQUEST_API_KEY_CONCURRENT_REQUESTS,
               ra_max_queued_requests =
                 min (ra_max_queued_requests c) MAX_REQUEST_API_KEY_QUEUED_REQUESTS,
               ra_queue_timeout_ms =
                 min (ra_queue_timeout_ms c) MAX_REQUEST_API_KEY_QUEUE_TIMEOUT_MS\<rparr>
      in if ra_max_concurrent_requests n = 0 \<or> ra_max_queued_requests n = 0 \<or> ra_queue_timeout_ms n = 0
         then n\<lparr>ra_max_queued_requests := 0, ra_queue_timeout_ms := 0\<rparr> else n)"

datatype admission_config_error =
  Rpm_Too_Large | Concurrent_Too_Large | Queued_Too_Large | Queue_Timeout_Too_Large

definition validate_admission :: "request_admission_config \<Rightarrow> admission_config_error option" where
  "validate_admission c =
     (if MAX_REQUEST_API_KEY_RPM < ra_rpm c then Some Rpm_Too_Large
      else if MAX_REQUEST_API_KEY_CONCURRENT_REQUESTS < ra_max_concurrent_requests c
      then Some Concurrent_Too_Large
      else if MAX_REQUEST_API_KEY_QUEUED_REQUESTS < ra_max_queued_requests c
      then Some Queued_Too_Large
      else if MAX_REQUEST_API_KEY_QUEUE_TIMEOUT_MS < ra_queue_timeout_ms c
      then Some Queue_Timeout_Too_Large
      else None)"

definition admission_enabled :: "request_admission_config \<Rightarrow> bool" where
  "admission_enabled c \<longleftrightarrow> 0 < ra_rpm c \<or> 0 < ra_max_concurrent_requests c"

subsection \<open>The gate and its tickets\<close>

record concurrency_gate =
  gate_active :: u32
  gate_queued :: u32
  next_ticket :: u64
  serving_ticket :: u64
  cancelled_tickets :: "u64 set"

definition concurrency_gate_default :: concurrency_gate where
  "concurrency_gate_default = \<lparr>gate_active = 0, gate_queued = 0, next_ticket = 0,
     serving_ticket = 0, cancelled_tickets = {}\<rparr>"

text \<open>\<open>KeyState::is_idle\<close>.\<close>

definition gate_is_idle :: "concurrency_gate \<Rightarrow> bool" where
  "gate_is_idle g \<longleftrightarrow> gate_active g = 0 \<and> gate_queued g = 0"

text \<open>\<open>QueueRegistration::register_locked\<close>: the ticket drawn and the gate.\<close>

definition register_locked :: "concurrency_gate \<Rightarrow> u64 \<times> concurrency_gate" where
  "register_locked g =
     (next_ticket g,
      g\<lparr>next_ticket := sat_add (next_ticket g) 1, gate_queued := sat_add (gate_queued g) 1\<rparr>)"

text \<open>The loop \<open>while cancelled_tickets.remove(&serving_ticket)\<close>.\<close>

function skip_cancelled :: "u64 \<Rightarrow> u64 set \<Rightarrow> u64 \<times> u64 set" where
  "skip_cancelled serving cancelled =
     (if serving \<in> cancelled
      then skip_cancelled (sat_add serving 1) (cancelled - {serving})
      else (serving, cancelled))"
  by pat_completeness auto
termination
  by (relation "measure (\<lambda>(_, c). card c)") (auto intro!: diff_less simp: card_gt_0_iff)

declare skip_cancelled.simps [simp del]

definition release_queue_ticket :: "u64 \<Rightarrow> concurrency_gate \<Rightarrow> concurrency_gate" where
  "release_queue_ticket ticket gate =
     (let g = gate\<lparr>gate_queued := sat_sub (gate_queued gate) 1\<rparr>;
          g = (if ticket = serving_ticket g
               then let (s, c) = skip_cancelled (sat_add (serving_ticket g) 1) (cancelled_tickets g)
                    in g\<lparr>serving_ticket := s, cancelled_tickets := c\<rparr>
               else if serving_ticket g < ticket
               then g\<lparr>cancelled_tickets := insert ticket (cancelled_tickets g)\<rparr>
               else g)
      in if gate_queued g = 0
         then g\<lparr>next_ticket := 0, serving_ticket := 0, cancelled_tickets := {}\<rparr> else g)"

text \<open>\<open>QueueRegistration::complete_locked\<close> and the section of its \<open>Drop\<close> that holds the lock.\<close>

definition complete_locked :: "u64 option \<Rightarrow> concurrency_gate \<Rightarrow> concurrency_gate" where
  "complete_locked ticket g = (case ticket of None \<Rightarrow> g | Some t \<Rightarrow> release_queue_ticket t g)"

text \<open>\<open>RequestAdmissionPermit::drop\<close>, for a permit that counts.\<close>

definition release_permit :: "concurrency_gate \<Rightarrow> concurrency_gate" where
  "release_permit g = g\<lparr>gate_active := sat_sub (gate_active g) 1\<rparr>"

subsection \<open>One pass of the loop\<close>

datatype admission_rejection_kind =
  Rpm | ConcurrencyFull | QueueFull | QueueTimeout | StateCapacity | LocalTemporaryBackoff

datatype pass_result = Admitted bool | Rejected admission_rejection_kind | Keep_Waiting

text \<open>
  The body of the loop of \<open>acquire_concurrency\<close> after the policy is read: \<open>backoff\<close> says
  whether \<open>local_temporary_backoff_rejection\<close> returned a rejection.  The new ticket of the
  registration and the gate are returned with the result.
\<close>

definition concurrency_pass ::
    "request_admission_config \<Rightarrow> request_admission_config \<Rightarrow> bool \<Rightarrow> u64 option \<Rightarrow>
     concurrency_gate \<Rightarrow> pass_result \<times> u64 option \<times> concurrency_gate" where
  "concurrency_pass initial current backoff ticket gate =
     (if ra_max_concurrent_requests current = 0
      then (Admitted False, None, complete_locked ticket gate)
      else if backoff then (Rejected LocalTemporaryBackoff, ticket, gate)
      else
        let queue_turn = (case ticket of Some t \<Rightarrow> t = serving_ticket gate
                                       | None \<Rightarrow> gate_queued gate = 0)
        in if gate_active gate < ra_max_concurrent_requests current \<and> queue_turn
           then (Admitted True, None,
                 complete_locked ticket (gate\<lparr>gate_active := gate_active gate + 1\<rparr>))
           else if ticket \<noteq> None \<and> ra_max_queued_requests current < ra_max_queued_requests initial
           then (Rejected QueueFull, ticket, gate)
           else if ticket \<noteq> None \<and> ra_queue_timeout_ms current < ra_queue_timeout_ms initial
           then (Rejected QueueTimeout, ticket, gate)
           else if ticket = None
           then if \<not> (0 < ra_max_queued_requests initial \<and> 0 < ra_queue_timeout_ms initial)
                then (Rejected ConcurrencyFull, ticket, gate)
                else if ra_max_queued_requests initial \<le> gate_queued gate
                then (Rejected QueueFull, ticket, gate)
                else (case register_locked gate of (t, g) \<Rightarrow> (Keep_Waiting, Some t, g))
           else (Keep_Waiting, ticket, gate))"

subsection \<open>Requests that share a gate\<close>

text \<open>
  Where a request stands in \<open>acquire_concurrency\<close>: at the top of the loop, with the
  notification enabled, with the policy read, waiting with the policy it last read, or out of
  the loop with a rejection (or cancelled at the wait) and its registration not yet dropped.
\<close>

datatype admission_phase =
  Arriving | Listening | Deciding request_admission_config | Waiting request_admission_config
| Leaving

record admission_request =
  req_initial :: request_admission_config
  req_ticket :: "u64 option"
  req_phase :: admission_phase
  req_woken :: bool

text \<open>
  The state of a key: the gate, the policy that \<open>policy_for\<close> returns, the requests inside
  \<open>acquire_concurrency\<close>, the number of counted permits alive and the number of
  \<open>notify_waiters\<close> calls that a finished critical section or policy write still has to make.
\<close>

record admission_world =
  aw_gate :: concurrency_gate
  aw_policy :: request_admission_config
  aw_requests :: "nat \<Rightarrow> admission_request option"
  aw_permits :: nat
  aw_owed :: nat

datatype admission_event =
  Enter nat request_admission_config
| Listen nat
| Read_Policy nat
| Check nat bool
| Resume nat
| Expire nat
| Cancel nat
| Drop_Registration nat
| Drop_Permit
| Set_Policy request_admission_config
| Notify_Waiters

text \<open>What an event did to the queue and the permits, for comparison with a plain queue.\<close>

datatype queue_action = Join nat | Admit nat | Give_Up nat | Finish

definition put_request :: "nat \<Rightarrow> admission_request \<Rightarrow> admission_world \<Rightarrow> admission_world" where
  "put_request i r w = w\<lparr>aw_requests := (aw_requests w)(i \<mapsto> r)\<rparr>"

definition remove_request :: "nat \<Rightarrow> admission_world \<Rightarrow> admission_world" where
  "remove_request i w = w\<lparr>aw_requests := (aw_requests w)(i := None)\<rparr>"

text \<open>\<open>Notify::notify_waiters\<close> reaches every request whose notification is enabled.\<close>

definition wake :: "admission_request \<Rightarrow> admission_request" where
  "wake r = (if req_phase r = Arriving \<or> req_phase r = Leaving then r else r\<lparr>req_woken := True\<rparr>)"

definition notify_waiters :: "admission_world \<Rightarrow> admission_world" where
  "notify_waiters w = w\<lparr>aw_requests := (\<lambda>i. map_option wake (aw_requests w i))\<rparr>"

definition new_request :: "request_admission_config \<Rightarrow> admission_request" where
  "new_request c = \<lparr>req_initial = c, req_ticket = None, req_phase = Arriving, req_woken = False\<rparr>"

text \<open>The section that decides, with everything its result entails.\<close>

definition check_request ::
    "nat \<Rightarrow> bool \<Rightarrow> admission_request \<Rightarrow> request_admission_config \<Rightarrow> admission_world \<Rightarrow>
     admission_world \<times> queue_action list" where
  "check_request i backoff r current w =
     (case concurrency_pass (req_initial r) current backoff (req_ticket r) (aw_gate w) of
        (result, ticket, gate) \<Rightarrow>
          (case result of
             Admitted counted \<Rightarrow>
               (let w' = remove_request i (w\<lparr>aw_gate := gate,
                           aw_permits := aw_permits w + (if counted then 1 else 0)\<rparr>)
                in (if counted \<and> req_ticket r \<noteq> None then notify_waiters w' else w',
                    if counted then [Admit i] else if req_ticket r \<noteq> None then [Give_Up i] else []))
           | Rejected k \<Rightarrow>
               (put_request i (r\<lparr>req_ticket := ticket, req_phase := Leaving\<rparr>) (w\<lparr>aw_gate := gate\<rparr>), [])
           | Keep_Waiting \<Rightarrow>
               (put_request i (r\<lparr>req_ticket := ticket, req_phase := Waiting current\<rparr>) (w\<lparr>aw_gate := gate\<rparr>),
                if req_ticket r = None then [Join i] else [])))"

fun request_event ::
    "admission_event \<Rightarrow> admission_request \<Rightarrow> admission_world \<Rightarrow> admission_world \<times> queue_action list" where
  "request_event (Listen i) r w =
     (if req_phase r = Arriving
      then (put_request i (r\<lparr>req_phase := Listening, req_woken := False\<rparr>) w, []) else (w, []))"
| "request_event (Read_Policy i) r w =
     (if req_phase r = Listening
      then (put_request i (r\<lparr>req_phase := Deciding (aw_policy w)\<rparr>) w, []) else (w, []))"
| "request_event (Check i backoff) r w =
     (case req_phase r of Deciding current \<Rightarrow> check_request i backoff r current w | _ \<Rightarrow> (w, []))"
| "request_event (Resume i) r w =
     (case req_phase r of
        Waiting _ \<Rightarrow> (if req_woken r then put_request i (r\<lparr>req_phase := Arriving\<rparr>) w else w, [])
      | _ \<Rightarrow> (w, []))"
| "request_event (Expire i) r w =
     (case req_phase r of
        Waiting _ \<Rightarrow> (if req_woken r then w else put_request i (r\<lparr>req_phase := Leaving\<rparr>) w, [])
      | _ \<Rightarrow> (w, []))"
| "request_event (Cancel i) r w =
     (case req_phase r of
        Waiting _ \<Rightarrow> (put_request i (r\<lparr>req_phase := Leaving\<rparr>) w, []) | _ \<Rightarrow> (w, []))"
| "request_event (Drop_Registration i) r w =
     (if req_phase r = Leaving
      then (let w' = remove_request i (w\<lparr>aw_gate := complete_locked (req_ticket r) (aw_gate w)\<rparr>)
            in if req_ticket r = None then (w', [])
               else (w'\<lparr>aw_owed := aw_owed w + 1\<rparr>, [Give_Up i]))
      else (w, []))"
| "request_event _ r w = (w, [])"

fun event_request :: "admission_event \<Rightarrow> nat option" where
  "event_request (Listen i) = Some i"
| "event_request (Read_Policy i) = Some i"
| "event_request (Check i _) = Some i"
| "event_request (Resume i) = Some i"
| "event_request (Expire i) = Some i"
| "event_request (Cancel i) = Some i"
| "event_request (Drop_Registration i) = Some i"
| "event_request _ = None"

fun world_event :: "admission_event \<Rightarrow> admission_world \<Rightarrow> admission_world \<times> queue_action list" where
  "world_event (Enter i c) w =
     (if aw_requests w i = None then (put_request i (new_request c) w, []) else (w, []))"
| "world_event Drop_Permit w =
     (if aw_permits w = 0 then (w, [])
      else (w\<lparr>aw_gate := release_permit (aw_gate w), aw_permits := aw_permits w - 1,
              aw_owed := aw_owed w + 1\<rparr>, [Finish]))"
| "world_event (Set_Policy c) w = (w\<lparr>aw_policy := c, aw_owed := aw_owed w + 1\<rparr>, [])"
| "world_event Notify_Waiters w = (notify_waiters (w\<lparr>aw_owed := aw_owed w - 1\<rparr>), [])"
| "world_event _ w = (w, [])"

text \<open>An event of a request that is not inside the loop does nothing.\<close>

definition admission_step :: "admission_event \<Rightarrow> admission_world \<Rightarrow> admission_world \<times> queue_action list" where
  "admission_step e w =
     (case event_request e of
        None \<Rightarrow> world_event e w
      | Some i \<Rightarrow> (case aw_requests w i of None \<Rightarrow> (w, []) | Some r \<Rightarrow> request_event e r w))"

definition new_admission_world :: "request_admission_config \<Rightarrow> admission_world" where
  "new_admission_world c = \<lparr>aw_gate = concurrency_gate_default, aw_policy = c,
     aw_requests = Map.empty, aw_permits = 0, aw_owed = 0\<rparr>"

fun admission_run :: "admission_event list \<Rightarrow> admission_world \<Rightarrow> admission_world \<times> queue_action list" where
  "admission_run [] w = (w, [])"
| "admission_run (e # es) w =
     (case admission_step e w of (w', as) \<Rightarrow>
        (case admission_run es w' of (w'', as') \<Rightarrow> (w'', as @ as')))"

subsection \<open>A plain queue\<close>

text \<open>
  The specification: a list of the waiting requests in order of arrival and the number of
  requests inside.  Only the first of the list may be admitted, and one that did not wait only
  when the list is empty; an action that breaks this has no successor.
\<close>

type_synonym fifo = "nat list \<times> nat"

fun fifo_step :: "queue_action \<Rightarrow> fifo \<Rightarrow> fifo option" where
  "fifo_step (Join i) (q, n) = (if i \<in> set q then None else Some (q @ [i], n))"
| "fifo_step (Admit i) (q, n) =
     (case q of [] \<Rightarrow> Some ([], n + 1) | j # q' \<Rightarrow> if i = j then Some (q', n + 1) else None)"
| "fifo_step (Give_Up i) (q, n) = (if i \<in> set q then Some (remove1 i q, n) else None)"
| "fifo_step Finish (q, n) = (if n = 0 then None else Some (q, n - 1))"

fun fifo_run :: "queue_action list \<Rightarrow> fifo \<Rightarrow> fifo option" where
  "fifo_run [] s = Some s"
| "fifo_run (a # as) s = Option.bind (fifo_step a s) (fifo_run as)"

definition registered :: "admission_world \<Rightarrow> nat \<Rightarrow> bool" where
  "registered w i \<longleftrightarrow> (\<exists>r. aw_requests w i = Some r \<and> req_ticket r \<noteq> None)"

subsection \<open>Tickets in order\<close>

text \<open>
  The gate stands for the list of tickets still held, in increasing order: they and the
  cancelled ones are exactly the numbers from the one served up to the next, and the number
  served is held by someone whenever anyone waits.
\<close>

definition tickets_ok :: "concurrency_gate \<Rightarrow> u64 list \<Rightarrow> bool" where
  "tickets_ok g ts \<longleftrightarrow>
     sorted_wrt (<) ts \<and> unat (gate_queued g) = length ts \<and>
     set ts \<inter> cancelled_tickets g = {} \<and>
     set ts \<union> cancelled_tickets g = {serving_ticket g ..< next_ticket g} \<and>
     serving_ticket g \<notin> cancelled_tickets g \<and>
     (ts = [] \<longrightarrow> next_ticket g = 0 \<and> serving_ticket g = 0)"

lemma tickets_ok_default: "tickets_ok concurrency_gate_default []"
  by (simp add: tickets_ok_def concurrency_gate_default_def)

lemma tickets_ok_active [simp]: "tickets_ok (g\<lparr>gate_active := n\<rparr>) ts = tickets_ok g ts"
  by (simp add: tickets_ok_def)

lemma below_sat_add_one:
  fixes a b :: "'a::len word"
  assumes "a < b"
  shows "x < sat_add a 1 \<longleftrightarrow> x \<le> a"
  using sat_add_one [OF assms] by (simp add: word_less_nat_alt word_le_nat_alt less_Suc_eq_le)

lemma sat_add_one_le:
  fixes a b :: "'a::len word"
  assumes "a < b"
  shows "sat_add a 1 \<le> x \<longleftrightarrow> a < x"
  using below_sat_add_one [OF assms, of x] by (simp add: not_less [symmetric] not_le)

lemma serving_is_first:
  assumes "tickets_ok g (t # ts)"
  shows "serving_ticket g = t"
proof -
  let ?s = "serving_ticket g"
  have "t \<in> {?s ..< next_ticket g}" using assms by (auto simp: tickets_ok_def)
  then have "?s \<in> set (t # ts) \<union> cancelled_tickets g"
    using assms unfolding tickets_ok_def by (metis atLeastLessThan_iff order.refl order.strict_trans1)
  then have "?s \<in> set (t # ts)" using assms by (simp add: tickets_ok_def)
  moreover have "?s \<le> t" using \<open>t \<in> {?s ..< next_ticket g}\<close> by simp
  ultimately show ?thesis using assms by (auto simp: tickets_ok_def)
qed

lemma tickets_ok_distinct: "tickets_ok g ts \<Longrightarrow> distinct ts"
  by (simp add: tickets_ok_def strict_sorted_iff)

lemma serving_le_next: "tickets_ok g ts \<Longrightarrow> serving_ticket g \<le> next_ticket g"
proof (cases ts)
  case (Cons t us)
  assume ok: "tickets_ok g ts"
  then have "t \<in> {serving_ticket g ..< next_ticket g}" using Cons by (auto simp: tickets_ok_def)
  then show ?thesis by auto
qed (simp add: tickets_ok_def)

lemma cancelled_below: "tickets_ok g ts \<Longrightarrow> c \<in> cancelled_tickets g \<Longrightarrow>
  serving_ticket g < c \<and> c < next_ticket g"
  unfolding tickets_ok_def by (metis UnCI atLeastLessThan_iff order_le_imp_less_or_eq)

lemma register_locked_ok:
  assumes ok: "tickets_ok g ts" and room: "next_ticket g < b" "gate_queued g < q"
    and reg: "register_locked g = (t, g')"
  shows "tickets_ok g' (ts @ [t]) \<and> gate_active g' = gate_active g \<and>
    unat (next_ticket g') = unat (next_ticket g) + 1"
proof -
  let ?s = "serving_ticket g" and ?n = "next_ticket g"
  have t: "t = ?n" and g': "g' = g\<lparr>next_ticket := sat_add ?n 1, gate_queued := sat_add (gate_queued g) 1\<rparr>"
    using reg by (auto simp: register_locked_def)
  have "{?s ..< sat_add ?n 1} = insert ?n {?s ..< ?n}"
    using serving_le_next [OF ok] by (auto simp: below_sat_add_one [OF room(1)])
  moreover have "\<And>u. u \<in> set ts \<Longrightarrow> u < ?n" using ok by (auto simp: tickets_ok_def)
  moreover have "?n \<notin> cancelled_tickets g" using cancelled_below [OF ok] by blast
  ultimately show ?thesis
    using ok by (simp add: t g' tickets_ok_def sorted_wrt_append sat_add_one [OF room(1)]
        sat_add_one [OF room(2)])
qed

text \<open>The loop stops at the first number that is not cancelled, and has struck out those it passed.\<close>

lemma skip_cancelled_spec:
  assumes "skip_cancelled s c = (s', c')" and "\<And>x. x \<in> c \<Longrightarrow> x < b"
  shows "s \<le> s' \<and> {s ..< s'} \<subseteq> c \<and> c' = c - {s ..< s'} \<and> s' \<notin> c"
  using assms
proof (induction s c arbitrary: s' c' rule: skip_cancelled.induct)
  case (1 s c)
  show ?case
  proof (cases "s \<in> c")
    case True
    then have lt: "s < b" by (rule "1.prems"(2))
    have "skip_cancelled (sat_add s 1) (c - {s}) = (s', c')"
      using "1.prems"(1) True by (simp add: skip_cancelled.simps [of s c])
    then have *: "sat_add s 1 \<le> s'" "{sat_add s 1 ..< s'} \<subseteq> c - {s}"
        "c' = c - {s} - {sat_add s 1 ..< s'}" "s' \<notin> c - {s}"
      using "1.IH" [OF True] "1.prems"(2) by blast+
    have "{s ..< s'} = insert s {sat_add s 1 ..< s'}" and "s < s'"
      using *(1) by (auto simp: sat_add_one_le [OF lt])
    with * True show ?thesis by auto
  qed (use "1.prems" in \<open>simp add: skip_cancelled.simps [of s c]\<close>)
qed

definition ticket_reset :: "concurrency_gate \<Rightarrow> concurrency_gate" where
  "ticket_reset g = (if gate_queued g = 0
     then g\<lparr>next_ticket := 0, serving_ticket := 0, cancelled_tickets := {}\<rparr> else g)"

lemma tickets_ok_reset:
  assumes "sorted_wrt (<) ts" "unat (gate_queued g) = length ts"
    and "ts \<noteq> [] \<Longrightarrow> tickets_ok g ts"
  shows "tickets_ok (ticket_reset g) ts"
proof (cases ts)
  case Nil
  then have "gate_queued g = 0" using assms(2) by (simp add: unat_eq_0)
  then show ?thesis using Nil by (simp add: ticket_reset_def tickets_ok_def)
next
  case (Cons t us)
  then have "gate_queued g \<noteq> 0" using assms(2) by auto
  then show ?thesis using Cons assms(3) by (simp add: ticket_reset_def)
qed

lemma release_serving_ok:
  assumes ok: "tickets_ok g (t # ts)"
  shows "tickets_ok (release_queue_ticket t g) ts"
proof -
  have s: "serving_ticket g = t" by (rule serving_is_first [OF ok])
  obtain s' c' where sk: "skip_cancelled (sat_add t 1) (cancelled_tickets g) = (s', c')" by fastforce
  let ?g = "g\<lparr>gate_queued := sat_sub (gate_queued g) 1, serving_ticket := s', cancelled_tickets := c'\<rparr>"
  have rel: "release_queue_ticket t g = ticket_reset ?g"
    by (simp add: release_queue_ticket_def s sk ticket_reset_def Let_def)
  have t: "t < next_ticket g" and all: "insert t (set ts) \<union> cancelled_tickets g = {t ..< next_ticket g}"
    using ok s by (auto simp: tickets_ok_def)
  have skip: "sat_add t 1 \<le> s'" "{sat_add t 1 ..< s'} \<subseteq> cancelled_tickets g"
      "c' = cancelled_tickets g - {sat_add t 1 ..< s'}" "s' \<notin> cancelled_tickets g"
    using skip_cancelled_spec [OF sk] cancelled_below [OF ok] by blast+
  have q: "unat (gate_queued ?g) = length ts"
    using ok by (simp add: tickets_ok_def unat_sat_sub)
  have "tickets_ok ?g ts" if "ts \<noteq> []"
  proof -
    have disj: "set ts \<inter> cancelled_tickets g = {}" and srt: "\<And>x. x \<in> set ts \<Longrightarrow> t < x"
      using ok by (auto simp: tickets_ok_def)
    have beyond: "\<And>x. x \<in> set ts \<Longrightarrow> s' \<le> x"
      using srt skip(2) disj
      by (meson atLeastLessThan_iff disjoint_iff not_le sat_add_one_le [OF t] subsetD)
    have c: "\<And>x. x \<in> cancelled_tickets g \<Longrightarrow> sat_add t 1 \<le> x \<and> x < next_ticket g"
      using cancelled_below [OF ok] s by (simp add: sat_add_one_le [OF t])
    have "y \<in> set ts \<union> c'" if "y \<in> {s' ..< next_ticket g}" for y
    proof -
      have "t < y" using that skip(1) by (auto simp: sat_add_one_le [OF t, symmetric] intro: order_trans)
      then have "y \<in> set ts \<union> cancelled_tickets g"
        using that all by (metis UnE UnI1 UnI2 atLeastLessThan_iff insertE less_imp_le less_irrefl)
      then show ?thesis using that skip(3) by auto
    qed
    moreover have "y \<in> {s' ..< next_ticket g}" if "y \<in> set ts \<union> c'" for y
      using that beyond c skip(3) all by fastforce
    ultimately have "set ts \<union> c' = {s' ..< next_ticket g}" by blast
    then show ?thesis
      using ok that q skip(3,4) disj by (auto simp: tickets_ok_def)
  qed
  then show ?thesis
    unfolding rel using ok q by (intro tickets_ok_reset) (simp_all add: tickets_ok_def)
qed

lemma sorted_wrt_remove1: "sorted_wrt P xs \<Longrightarrow> sorted_wrt P (remove1 x xs)"
  by (induction xs) (auto dest: notin_set_remove1)

lemma release_later_ok:
  assumes ok: "tickets_ok g (u # ts)" and t: "t \<in> set ts"
  shows "tickets_ok (release_queue_ticket t g) (u # remove1 t ts)"
proof -
  have s: "serving_ticket g = u" by (rule serving_is_first [OF ok])
  have lt: "u < t" and n: "t < next_ticket g" "t \<notin> cancelled_tickets g"
    using ok t by (auto simp: tickets_ok_def)
  let ?g = "g\<lparr>gate_queued := sat_sub (gate_queued g) 1,
    cancelled_tickets := insert t (cancelled_tickets g)\<rparr>"
  have rel: "release_queue_ticket t g = ticket_reset ?g"
    using lt by (simp add: release_queue_ticket_def s ticket_reset_def Let_def)
  have d: "distinct ts" using tickets_ok_distinct [OF ok] by simp
  have q: "unat (gate_queued ?g) = length (u # remove1 t ts)"
    using ok t length_pos_if_in_set [OF t]
    by (simp add: tickets_ok_def unat_sat_sub length_remove1)
  have "set ts = insert t (set (remove1 t ts))" using t d by auto
  then have "tickets_ok ?g (u # remove1 t ts)"
    using ok q lt d s by (auto simp: tickets_ok_def intro: sorted_wrt_remove1 dest: notin_set_remove1)
  then show ?thesis
    unfolding rel using q by (intro tickets_ok_reset) (simp_all add: tickets_ok_def)
qed

lemma release_queue_ticket_ok:
  assumes ok: "tickets_ok g ts" and t: "t \<in> set ts"
  shows "tickets_ok (release_queue_ticket t g) (remove1 t ts)"
proof (cases ts)
  case (Cons u us)
  show ?thesis
  proof (cases "t = u")
    case True
    then show ?thesis using release_serving_ok ok Cons by simp
  next
    case False
    then show ?thesis using release_later_ok ok t Cons by simp
  qed
qed (use t in simp)

lemma release_queue_ticket_active [simp]:
  "gate_active (release_queue_ticket t g) = gate_active g"
  by (simp add: release_queue_ticket_def Let_def split: prod.split)

lemma release_queue_ticket_next:
  "next_ticket (release_queue_ticket t g) = 0 \<or>
   next_ticket (release_queue_ticket t g) = next_ticket g"
  by (simp add: release_queue_ticket_def Let_def split: prod.split)

subsection \<open>The gate as a queue of requests\<close>

definition tickets_of :: "admission_world \<Rightarrow> nat \<Rightarrow> u64 option" where
  "tickets_of w i = Option.bind (aw_requests w i) req_ticket"

lemma registered_iff: "registered w i \<longleftrightarrow> tickets_of w i \<noteq> None"
  by (auto simp: registered_def tickets_of_def split: bind_splits)

lemma tickets_of_simps [simp]:
  "tickets_of (put_request i r w) = (tickets_of w)(i := req_ticket r)"
  "tickets_of (remove_request i w) = (tickets_of w)(i := None)"
  "tickets_of (w\<lparr>aw_gate := g\<rparr>) = tickets_of w"
  "tickets_of (w\<lparr>aw_permits := n\<rparr>) = tickets_of w"
  "tickets_of (w\<lparr>aw_owed := n\<rparr>) = tickets_of w"
  "tickets_of (w\<lparr>aw_policy := c\<rparr>) = tickets_of w"
  by (rule ext, simp add: tickets_of_def put_request_def remove_request_def)+

lemma tickets_of_notify [simp]: "tickets_of (notify_waiters w) = tickets_of w"
proof
  fix i
  show "tickets_of (notify_waiters w) i = tickets_of w i"
    by (cases "aw_requests w i") (simp_all add: tickets_of_def notify_waiters_def wake_def)
qed

lemma world_fields [simp]:
  "aw_gate (put_request i r w) = aw_gate w" "aw_permits (put_request i r w) = aw_permits w"
  "aw_owed (put_request i r w) = aw_owed w" "aw_policy (put_request i r w) = aw_policy w"
  "aw_gate (remove_request i w) = aw_gate w" "aw_permits (remove_request i w) = aw_permits w"
  "aw_owed (remove_request i w) = aw_owed w" "aw_policy (remove_request i w) = aw_policy w"
  "aw_gate (notify_waiters w) = aw_gate w" "aw_permits (notify_waiters w) = aw_permits w"
  "aw_owed (notify_waiters w) = aw_owed w" "aw_policy (notify_waiters w) = aw_policy w"
  by (simp_all add: put_request_def remove_request_def notify_waiters_def)

lemma tickets_of_at [simp]: "aw_requests w i = Some r \<Longrightarrow> tickets_of w i = req_ticket r"
  by (simp add: tickets_of_def)

definition queue_ok :: "concurrency_gate \<Rightarrow> (nat \<Rightarrow> u64 option) \<Rightarrow> nat \<Rightarrow> nat list \<Rightarrow> bool" where
  "queue_ok g T n q \<longleftrightarrow>
     distinct q \<and> (\<forall>i. T i \<noteq> None \<longleftrightarrow> i \<in> set q) \<and> tickets_ok g (map (\<lambda>i. the (T i)) q) \<and>
     unat (gate_active g) = n"

lemma queue_ok_same [simp]: "T i = t \<Longrightarrow> queue_ok g (T(i := t)) n q = queue_ok g T n q"
  by (simp add: fun_upd_idem)

lemma map_remove1_distinct:
  "distinct (map f xs) \<Longrightarrow> x \<in> set xs \<Longrightarrow> map f (remove1 x xs) = remove1 (f x) (map f xs)"
  by (induction xs) (force simp: image_iff)+

lemma queue_ok_join:
  assumes ok: "queue_ok g T n q" and new: "T i = None"
    and room: "next_ticket g < b" "gate_queued g < m" and reg: "register_locked g = (t, g')"
  shows "queue_ok g' (T(i \<mapsto> t)) n (q @ [i])"
proof -
  have i: "i \<notin> set q" using ok new unfolding queue_ok_def by metis
  then have "map (\<lambda>j. the ((T(i \<mapsto> t)) j)) (q @ [i]) = map (\<lambda>j. the (T j)) q @ [t]" by auto
  then have "tickets_ok g' (map (\<lambda>j. the ((T(i \<mapsto> t)) j)) (q @ [i])) \<and> gate_active g' = gate_active g"
    using ok register_locked_ok [OF _ room reg, of "map (\<lambda>j. the (T j)) q"]
    unfolding queue_ok_def by metis
  then show ?thesis using ok i by (simp add: queue_ok_def)
qed

lemma queue_ok_leave:
  assumes ok: "queue_ok g T n q" and t: "T i = Some t"
  shows "queue_ok (release_queue_ticket t g) (T(i := None)) n (remove1 i q)"
proof -
  have i: "i \<in> set q" and d: "distinct q" using ok t by (auto simp: queue_ok_def)
  have "map (\<lambda>j. the ((T(i := None)) j)) (remove1 i q) = map (\<lambda>j. the (T j)) (remove1 i q)"
    using d by auto
  also have "\<dots> = remove1 t (map (\<lambda>j. the (T j)) q)"
    using map_remove1_distinct [of "\<lambda>j. the (T j)" q i] i t ok
    by (auto simp: queue_ok_def dest: tickets_ok_distinct)
  finally show ?thesis
    using ok i t d release_queue_ticket_ok [of g "map (\<lambda>j. the (T j)) q" t]
    by (force simp: queue_ok_def)
qed

text \<open>The request whose number is served is the first of the queue, and the queue is empty
  exactly when the counter says so.\<close>

lemma queue_ok_serving:
  assumes ok: "queue_ok g T n q" and t: "T i = Some (serving_ticket g)"
  shows "\<exists>q'. q = i # q'"
proof (cases q)
  case (Cons j q')
  then have "T j \<noteq> None" and "tickets_ok g (the (T j) # map (\<lambda>i. the (T i)) q')"
    using ok by (simp_all add: queue_ok_def)
  then have j: "T j = Some (serving_ticket g)" using serving_is_first by auto
  have "inj_on (\<lambda>i. the (T i)) (set q)"
    using ok by (metis distinct_map queue_ok_def tickets_ok_distinct)
  moreover have "i \<in> set q" using ok t unfolding queue_ok_def by (metis option.distinct(1))
  ultimately have "i = j" using Cons t j by (metis inj_onD list.set_intros(1))
  then show ?thesis using Cons by simp
qed (use ok t in \<open>simp add: queue_ok_def\<close>)

lemma queue_ok_length: "queue_ok g T n q \<Longrightarrow> unat (gate_queued g) = length q"
  by (simp add: queue_ok_def tickets_ok_def)

lemma queue_ok_empty: "queue_ok g T n q \<Longrightarrow> gate_queued g = 0 \<longleftrightarrow> q = []"
  using queue_ok_length [of g T n q] by (auto simp: unat_eq_0)

lemma queue_ok_active:
  "queue_ok g T n q \<Longrightarrow> queue_ok (g\<lparr>gate_active := a\<rparr>) T (unat a) q"
  by (simp add: queue_ok_def)

lemma register_locked_next:
  "next_ticket g < b \<Longrightarrow> register_locked g = (t, g') \<Longrightarrow>
   unat (next_ticket g') = unat (next_ticket g) + 1"
  by (auto simp: register_locked_def sat_add_one)

lemma concurrency_pass_cases:
  assumes "concurrency_pass initial current backoff ticket g = (res, tk, g')"
  obtains (unlimited) "res = Admitted False" "ra_max_concurrent_requests current = 0"
      "g' = complete_locked ticket g"
  | (admitted) "res = Admitted True" "gate_active g < ra_max_concurrent_requests current"
      "case ticket of Some t \<Rightarrow> t = serving_ticket g | None \<Rightarrow> gate_queued g = 0"
      "g' = complete_locked ticket (g\<lparr>gate_active := gate_active g + 1\<rparr>)"
  | (rejected) k where "res = Rejected k" "tk = ticket" "g' = g"
  | (joined) t where "res = Keep_Waiting" "ticket = None" "tk = Some t" "register_locked g = (t, g')"
      "gate_queued g < ra_max_queued_requests initial"
      "\<not> (gate_active g < ra_max_concurrent_requests current \<and> gate_queued g = 0)"
  | (waiting) t where "res = Keep_Waiting" "ticket = Some t" "tk = ticket" "g' = g"
      "\<not> (gate_active g < ra_max_concurrent_requests current \<and> t = serving_ticket g)"
proof (cases "ra_max_concurrent_requests current = 0 \<or> backoff")
  case True
  then show thesis
    using assms unlimited rejected [of LocalTemporaryBackoff]
    by (cases "ra_max_concurrent_requests current = 0") (simp_all add: concurrency_pass_def)
next
  case False
  show thesis
  proof (cases ticket)
    case None
    then show thesis
      using assms False admitted rejected [of ConcurrencyFull] rejected [of QueueFull] joined
      by (simp add: concurrency_pass_def Let_def not_le split: if_splits prod.splits)
  next
    case (Some t)
    then show thesis
      using assms False admitted rejected [of QueueTimeout] rejected [of QueueFull] waiting
      by (simp add: concurrency_pass_def Let_def split: if_splits)
  qed
qed

definition queue_inv :: "nat \<Rightarrow> admission_world \<Rightarrow> nat list \<Rightarrow> bool" where
  "queue_inv n w q \<longleftrightarrow> queue_ok (aw_gate w) (tickets_of w) (aw_permits w) q \<and>
     unat (next_ticket (aw_gate w)) \<le> n"

definition follows_fifo :: "nat \<Rightarrow> nat list \<Rightarrow> nat \<Rightarrow> admission_world \<times> queue_action list \<Rightarrow> bool" where
  "follows_fifo n q k out \<longleftrightarrow>
     (\<exists>q'. fifo_run (snd out) (q, k) = Some (q', aw_permits (fst out)) \<and> queue_inv n (fst out) q')"

lemma follows_silent: "queue_inv n w q \<Longrightarrow> follows_fifo n q (aw_permits w) (w, [])"
  by (simp add: follows_fifo_def)

lemma queue_inv_Suc: "queue_inv n w q \<Longrightarrow> queue_inv (Suc n) w q"
  by (simp add: queue_inv_def)

lemma queue_inv_put:
  "queue_inv n w q \<Longrightarrow> aw_requests w i = Some r \<Longrightarrow> req_ticket r' = req_ticket r \<Longrightarrow>
   queue_inv n (put_request i r' w) q"
  by (simp add: queue_inv_def)

lemma queue_inv_leave:
  assumes inv: "queue_inv n w q" and r: "aw_requests w i = Some r" "req_ticket r = Some t"
  shows "queue_inv n (remove_request i (w\<lparr>aw_gate := release_queue_ticket t (aw_gate w)\<rparr>)) (remove1 i q)
    \<and> i \<in> set q"
proof -
  have "queue_ok (release_queue_ticket t (aw_gate w)) ((tickets_of w)(i := None)) (aw_permits w) (remove1 i q)"
    using inv r by (intro queue_ok_leave) (simp_all add: queue_inv_def)
  moreover have "unat (next_ticket (release_queue_ticket t (aw_gate w))) \<le> n"
    using release_queue_ticket_next [of t "aw_gate w"] inv by (auto simp: queue_inv_def)
  moreover have "i \<in> set q"
    using inv r tickets_of_at [OF r(1)] unfolding queue_inv_def queue_ok_def by (metis option.distinct(1))
  ultimately show ?thesis by (simp add: queue_inv_def)
qed

lemma queue_inv_admit:
  assumes inv: "queue_inv n w q" and r: "aw_requests w i = Some r"
    and room: "gate_active (aw_gate w) < m"
    and turn: "case req_ticket r of Some t \<Rightarrow> t = serving_ticket (aw_gate w)
                                  | None \<Rightarrow> gate_queued (aw_gate w) = 0"
  shows "follows_fifo n q (aw_permits w)
    (remove_request i (w\<lparr>aw_gate := complete_locked (req_ticket r)
        ((aw_gate w)\<lparr>gate_active := gate_active (aw_gate w) + 1\<rparr>), aw_permits := aw_permits w + 1\<rparr>), [Admit i])"
proof -
  let ?g = "(aw_gate w)\<lparr>gate_active := gate_active (aw_gate w) + 1\<rparr>"
  let ?w = "w\<lparr>aw_gate := ?g, aw_permits := aw_permits w + 1\<rparr>"
  have "unat (gate_active (aw_gate w) + 1) = aw_permits w + 1"
    using inv unat_Suc_below [OF room] by (simp add: queue_inv_def queue_ok_def)
  then have inv': "queue_inv n ?w q"
    using inv queue_ok_active [of "aw_gate w" "tickets_of w" "aw_permits w" q "gate_active (aw_gate w) + 1"]
    by (simp add: queue_inv_def)
  show ?thesis
  proof (cases "req_ticket r")
    case None
    then have "q = []" using turn inv queue_ok_empty by (auto simp: queue_inv_def)
    then show ?thesis
      using None inv' r by (simp add: follows_fifo_def complete_locked_def queue_inv_def)
  next
    case (Some t)
    then have "tickets_of w i = Some (serving_ticket (aw_gate w))" using turn r by simp
    then obtain q' where q: "q = i # q'"
      using inv queue_ok_serving unfolding queue_inv_def by blast
    then show ?thesis
      using queue_inv_leave [OF inv', of i r t] Some r
      by (simp add: follows_fifo_def complete_locked_def queue_inv_def)
  qed
qed

lemma queue_inv_join:
  assumes inv: "queue_inv n w q" and small: "n < 2 ^ 64 - 1" and r: "aw_requests w i = Some r" "req_ticket r = None"
    and room: "gate_queued (aw_gate w) < m" and reg: "register_locked (aw_gate w) = (t, g)"
    and r': "req_ticket r' = Some t"
  shows "follows_fifo (Suc n) q (aw_permits w) (put_request i r' (w\<lparr>aw_gate := g\<rparr>), [Join i])"
proof -
  have "unat (next_ticket (aw_gate w)) < unat (- 1 :: u64)"
    using inv small by (simp add: queue_inv_def unsigned_minus_1_eq_mask mask_eq_exp_minus_1)
  then have free: "next_ticket (aw_gate w) < - 1" by (simp only: word_less_nat_alt)
  have T: "tickets_of w i = None" using r by simp
  have "queue_ok g ((tickets_of w)(i \<mapsto> t)) (aw_permits w) (q @ [i])"
    using inv T free room reg by (intro queue_ok_join) (simp_all add: queue_inv_def)
  moreover have "i \<notin> set q" using inv T unfolding queue_inv_def queue_ok_def by metis
  ultimately show ?thesis
    using inv r' register_locked_next [OF free reg] by (simp add: follows_fifo_def queue_inv_def)
qed

lemma check_request_fifo:
  assumes inv: "queue_inv n w q" and small: "n < 2 ^ 64 - 1" and r: "aw_requests w i = Some r"
  shows "follows_fifo (Suc n) q (aw_permits w) (check_request i backoff r current w)"
proof -
  obtain res tk g where p: "concurrency_pass (req_initial r) current backoff (req_ticket r) (aw_gate w) = (res, tk, g)"
    by (metis prod_cases3)
  show ?thesis
    using p
  proof (cases rule: concurrency_pass_cases)
    case unlimited
    then show ?thesis
      using p inv r queue_inv_leave [OF queue_inv_Suc [OF inv] r]
      by (cases "req_ticket r")
        (simp_all add: check_request_def complete_locked_def follows_fifo_def queue_inv_def Let_def)
  next
    case admitted
    then show ?thesis
      using p queue_inv_admit [OF queue_inv_Suc [OF inv] r, of "ra_max_concurrent_requests current"]
      by (cases "req_ticket r") (simp_all add: check_request_def follows_fifo_def queue_inv_def Let_def)
  next
    case (rejected k)
    then show ?thesis
      using p inv r by (simp add: check_request_def follows_fifo_def queue_inv_def)
  next
    case (joined t)
    then show ?thesis
      using p queue_inv_join [OF inv small r, of _ t g] by (simp add: check_request_def)
  next
    case (waiting t)
    then show ?thesis
      using p inv r by (simp add: check_request_def follows_fifo_def queue_inv_def)
  qed
qed

lemma request_event_fifo:
  assumes inv: "queue_inv n w q" and small: "n < 2 ^ 64 - 1"
    and i: "event_request e = Some i" and r: "aw_requests w i = Some r"
  shows "follows_fifo (Suc n) q (aw_permits w) (request_event e r w)"
proof -
  note inv' = queue_inv_Suc [OF inv]
  note quiet = follows_silent [OF inv'] 
  have put: "follows_fifo (Suc n) q (aw_permits w) (put_request i r' w, [])"
    if "req_ticket r' = req_ticket r" for r'
    using follows_silent [OF queue_inv_put [OF inv' r that]] by simp
  show ?thesis
  proof (cases e)
    case (Check j b)
    then show ?thesis
      using i r quiet check_request_fifo [OF inv small r] by (simp split: admission_phase.split)
  next
    case (Drop_Registration j)
    then show ?thesis
      using i r quiet inv' queue_inv_leave [OF inv' r]
      by (cases "req_ticket r")
        (simp_all add: complete_locked_def follows_fifo_def queue_inv_def Let_def)
  qed (use i quiet put in \<open>simp_all split: admission_phase.split\<close>)
qed

lemma world_event_fifo:
  assumes inv: "queue_inv n w q"
  shows "follows_fifo (Suc n) q (aw_permits w) (world_event e w)"
proof (cases e)
  case Drop_Permit
  have "queue_inv (Suc n) (w\<lparr>aw_gate := release_permit (aw_gate w), aw_permits := aw_permits w - 1,
          aw_owed := aw_owed w + 1\<rparr>) q"
    using inv by (simp add: queue_inv_def queue_ok_def release_permit_def unat_sat_sub)
  then show ?thesis
    using Drop_Permit follows_silent [OF queue_inv_Suc [OF inv]] by (simp add: follows_fifo_def)
qed (use inv in \<open>simp_all add: follows_fifo_def queue_inv_def new_request_def tickets_of_def\<close>)

lemma fifo_run_append: "fifo_run (as @ bs) s = Option.bind (fifo_run as s) (fifo_run bs)"
  by (induction as arbitrary: s) (simp_all split: bind_splits)

lemma admission_step_fifo:
  assumes "queue_inv n w q" "n < 2 ^ 64 - 1"
  shows "follows_fifo (Suc n) q (aw_permits w) (admission_step e w)"
  using assms request_event_fifo world_event_fifo follows_silent [OF queue_inv_Suc [OF assms(1)]]
  by (simp add: admission_step_def split: option.split)

lemma admission_run_fifo:
  assumes "queue_inv n w q" "n + length es < 2 ^ 64"
  shows "follows_fifo (n + length es) q (aw_permits w) (admission_run es w)"
  using assms
proof (induction es arbitrary: n w q)
  case (Cons e es)
  obtain w1 as where e: "admission_step e w = (w1, as)" by fastforce
  obtain w2 bs where es: "admission_run es w1 = (w2, bs)" by fastforce
  obtain q1 where q1: "fifo_run as (q, aw_permits w) = Some (q1, aw_permits w1)" "queue_inv (Suc n) w1 q1"
    using admission_step_fifo [OF Cons.prems(1), of e] Cons.prems(2) e by (auto simp: follows_fifo_def)
  with Cons.IH [OF q1(2)] Cons.prems(2) es e show ?case
    by (auto simp: follows_fifo_def fifo_run_append)
qed (simp add: follows_silent)

lemma queue_inv_new: "queue_inv 0 (new_admission_world c) []"
  by (simp add: queue_inv_def queue_ok_def new_admission_world_def tickets_of_def tickets_ok_default)
    (simp add: concurrency_gate_default_def)

text \<open>C11. 
  The ticket gate is a first-in-first-out queue.  Whatever steps the requests of a key take
  and in whatever order, what the gate does to them is a behaviour of the plain queue: nobody is
  admitted before the request that waits longest, and one that has not queued only when nobody
  waits.  The counters are exact: \<open>active\<close> is the number of permits alive and \<open>queued\<close> the
  number of requests that hold a ticket.  (Fewer than $2^{64}$ steps, so that the ticket counter
  does not saturate.)
\<close>

theorem ticket_gate_is_a_fifo_queue:
  assumes "length es < 2 ^ 64" and "admission_run es (new_admission_world c) = (w, as)"
  shows "\<exists>q. fifo_run as ([], 0) = Some (q, unat (gate_active (aw_gate w))) \<and>
    aw_permits w = unat (gate_active (aw_gate w)) \<and>
    length q = unat (gate_queued (aw_gate w)) \<and> distinct q \<and> (\<forall>i. registered w i \<longleftrightarrow> i \<in> set q)"
  using admission_run_fifo [OF queue_inv_new, of es c] assms
  by (auto simp: follows_fifo_def queue_inv_def queue_ok_def registered_iff tickets_ok_def
      new_admission_world_def)

definition one_at_a_time :: request_admission_config where
  "one_at_a_time = \<lparr>ra_rpm = 0, ra_max_concurrent_requests = 1, ra_max_queued_requests = 10,
     ra_queue_timeout_ms = 1000\<rparr>"

definition no_limit :: request_admission_config where
  "no_limit = one_at_a_time\<lparr>ra_max_concurrent_requests := 0\<rparr>"

text \<open>A request that runs through one turn of the loop.\<close>

definition turn_of :: "nat \<Rightarrow> admission_event list" where
  "turn_of i = [Listen i, Read_Policy i, Check i False]"

definition three_arrivals :: "admission_event list" where
  "three_arrivals = Enter 0 one_at_a_time # turn_of 0 @ Enter 1 one_at_a_time # turn_of 1 @
     Enter 2 one_at_a_time # turn_of 2"

lemmas gate_eval = three_arrivals_def turn_of_def one_at_a_time_def no_limit_def admission_step_def
  new_admission_world_def put_request_def new_request_def check_request_def concurrency_pass_def
  register_locked_def concurrency_gate_default_def remove_request_def notify_waiters_def wake_def
  complete_locked_def release_queue_ticket_def release_permit_def Let_def sat_add_def sat_sub_def
  skip_cancelled.simps word_le_nat_alt word_less_nat_alt

theorem ticket_gate_is_a_fifo_queue_witness:
  "\<exists>q. fifo_run [Admit 0, Join 1, Join 2] ([], 0) = Some (q, 1) \<and> length q = 2"
proof -
  let ?w = "admission_run three_arrivals (new_admission_world one_at_a_time)"
  have r: "?w = (fst ?w, [Admit 0, Join 1, Join 2])" 
    by (simp add: gate_eval)
  have g: "gate_active (aw_gate (fst ?w)) = 1" "gate_queued (aw_gate (fst ?w)) = 2"
    by (simp_all add: gate_eval)
  show ?thesis
    using ticket_gate_is_a_fifo_queue [OF _ r] g by (auto simp: three_arrivals_def turn_of_def)
qed

subsection \<open>Order of admission\<close>

lemma fifo_run_split:
  "fifo_run (as @ bs) s \<noteq> None \<Longrightarrow> \<exists>q n. fifo_run as s = Some (q, n) \<and> fifo_run bs (q, n) \<noteq> None"
  unfolding fifo_run_append by (cases "fifo_run as s") auto

lemma fifo_run_first:
  "fifo_run (a # as) s \<noteq> None \<Longrightarrow> \<exists>q n. fifo_step a s = Some (q, n) \<and> fifo_run as (q, n) \<noteq> None"
  by (cases "fifo_step a s") auto

text \<open>
  What a service with such a queue promises its clients: the sequences of actions it can show are
  behaviours of the plain queue.
\<close>

locale fifo_service =
  fixes history :: "queue_action list \<Rightarrow> bool"
  assumes lawful: "history as \<Longrightarrow> fifo_run as ([], 0) \<noteq> None"
begin

lemma joined_stays:
  assumes "fifo_run as (q, n) = Some (q', n')" "i \<in> set q" "Admit i \<notin> set as" "Give_Up i \<notin> set as"
  shows "i \<in> set q'"
  using assms
proof (induction as arbitrary: q n)
  case (Cons a as)
  obtain q1 n1 where s: "fifo_step a (q, n) = Some (q1, n1)" "fifo_run as (q1, n1) = Some (q', n')"
    using Cons.prems(1) by (cases "fifo_step a (q, n)") auto
  have "i \<in> set q1"
    using s(1) Cons.prems by (cases a) (auto split: if_splits list.splits)
  then show ?case using Cons s(2) by auto
qed simp

lemma ahead_stays:
  assumes "fifo_run as (xs @ i # ys, n) = Some (q', n')" "j \<notin> set xs" "Admit i \<notin> set as" "Give_Up i \<notin> set as"
  shows "\<exists>xs' ys'. q' = xs' @ i # ys' \<and> j \<notin> set xs'"
  using assms
proof (induction as arbitrary: xs ys n)
  case (Cons a as)
  obtain q1 n1 where s: "fifo_step a (xs @ i # ys, n) = Some (q1, n1)" "fifo_run as (q1, n1) = Some (q', n')"
    using Cons.prems(1) by (cases "fifo_step a (xs @ i # ys, n)") auto
  have "\<exists>xs1 ys1. q1 = xs1 @ i # ys1 \<and> j \<notin> set xs1"
  proof (cases a)
    case (Join k)
    then have "q1 = xs @ i # (ys @ [k])" using s(1) by (auto split: if_splits)
    then show ?thesis using Cons.prems(2) by blast
  next
    case (Admit k)
    then have "k \<noteq> i" using Cons.prems(3) by auto
    then have "q1 = tl xs @ i # ys \<and> j \<notin> set (tl xs)"
      using s(1) Admit Cons.prems(2) by (cases xs) (auto split: if_splits)
    then show ?thesis by blast
  next
    case (Give_Up k)
    then have "k \<noteq> i" using Cons.prems(4) by auto
    then have "q1 = (if k \<in> set xs then remove1 k xs @ i # ys else xs @ i # remove1 k ys)"
      using s(1) Give_Up by (auto simp: remove1_append split: if_splits)
    then show ?thesis using Cons.prems(2) notin_set_remove1 by (metis (full_types))
  next
    case Finish
    then show ?thesis using s(1) Cons.prems(2) by (auto split: if_splits)
  qed
  then obtain xs1 ys1 where "q1 = xs1 @ i # ys1" "j \<notin> set xs1" by blast
  then show ?case using Cons.IH [of xs1 ys1 n1] s(2) Cons.prems(3,4) by auto
qed auto

lemma no_overtaking:
  assumes h: "history (p @ Join i # u @ Join j # v @ Admit j # rest)" and ne: "i \<noteq> j"
  shows "Admit i \<in> set (u @ v) \<or> Give_Up i \<in> set (u @ v)"
proof (rule ccontr)
  assume no: "\<not> ?thesis"
  have "fifo_run (p @ Join i # u @ Join j # v @ Admit j # rest) ([], 0) \<noteq> None" by (rule lawful [OF h])
  then obtain q n where "fifo_run (Join i # u @ Join j # v @ Admit j # rest) (q, n) \<noteq> None"
    using fifo_run_split by blast
  then obtain q1 n1 where s1: "fifo_step (Join i) (q, n) = Some (q1, n1)"
      and "fifo_run (u @ Join j # v @ Admit j # rest) (q1, n1) \<noteq> None"
    using fifo_run_first by blast
  then obtain q2 n2 where u: "fifo_run u (q1, n1) = Some (q2, n2)"
      and "fifo_run (Join j # v @ Admit j # rest) (q2, n2) \<noteq> None"
    using fifo_run_split by blast
  then obtain q3 n3 where s2: "fifo_step (Join j) (q2, n2) = Some (q3, n3)"
      and v: "fifo_run (v @ Admit j # rest) (q3, n3) \<noteq> None"
    using fifo_run_first by blast
  have "i \<in> set q1" using s1 by (auto split: if_splits)
  then have "i \<in> set q2" using joined_stays [OF u] no by auto
  then obtain xs ys where q2: "q2 = xs @ i # ys" by (auto simp: in_set_conv_decomp)
  have q3: "q3 = xs @ i # (ys @ [j])" "j \<notin> set xs" using s2 q2 by (auto split: if_splits)
  obtain q4 n4 where v': "fifo_run v (q3, n3) = Some (q4, n4)" and a: "fifo_step (Admit j) (q4, n4) \<noteq> None"
    using fifo_run_split [OF v] fifo_run_first by (metis option.distinct(1))
  obtain xs' ys' where "q4 = xs' @ i # ys'" "j \<notin> set xs'"
    using ahead_stays [OF v' [unfolded q3(1)] q3(2)] no by auto
  then show False using a ne by (cases xs') (auto split: if_splits)
qed

end

definition gate_history :: "queue_action list \<Rightarrow> bool" where
  "gate_history as \<longleftrightarrow> (\<exists>es c. length es < 2 ^ 64 \<and> snd (admission_run es (new_admission_world c)) = as)"

interpretation gate: fifo_service gate_history
proof unfold_locales
  fix as
  assume "gate_history as"
  then obtain es c where es: "length es < 2 ^ 64" "snd (admission_run es (new_admission_world c)) = as"
    by (auto simp: gate_history_def)
  have "follows_fifo (0 + length es) [] (aw_permits (new_admission_world c)) (admission_run es (new_admission_world c))"
    using es(1) by (intro admission_run_fifo [OF queue_inv_new]) simp
  then show "fifo_run as ([], 0) \<noteq> None"
    using es(2) by (auto simp: follows_fifo_def new_admission_world_def)
qed

text \<open>
  Nobody is overtaken.  If request \<open>i\<close> takes a ticket before request \<open>j\<close> and \<open>j\<close> is admitted,
  then by that time \<open>i\<close> has been admitted or has given up, whatever the interleaving.
\<close>

theorem nobody_is_overtaken:
  assumes "length es < 2 ^ 64"
    and "snd (admission_run es (new_admission_world c)) = p @ Join i # u @ Join j # v @ Admit j # rest"
    and "i \<noteq> j"
  shows "Admit i \<in> set (u @ v) \<or> Give_Up i \<in> set (u @ v)"
  using assms by (intro gate.no_overtaking) (auto simp: gate_history_def)

theorem nobody_is_overtaken_witness:
  "Admit 1 \<in> set ([] @ [Finish, Admit 1, Finish :: queue_action])"
proof -
  let ?es = "three_arrivals @ [Drop_Permit, Notify_Waiters, Resume 1] @ turn_of 1 @ [Drop_Permit, Notify_Waiters, Resume 2] @ turn_of 2"
  have "snd (admission_run ?es (new_admission_world one_at_a_time)) =
      [Admit 0] @ Join 1 # [] @ Join 2 # [Finish, Admit 1, Finish] @ Admit 2 # []"
    by (simp add: gate_eval)
  from nobody_is_overtaken [OF _ this] show ?thesis by (simp add: three_arrivals_def turn_of_def)
qed

end
