(* ===== verification/Admission_Wakeups.thy ===== *)
theory Admission_Wakeups
  imports Admission_Gate
begin

text \<open>
  Limits and wake-ups of the concurrency gate of theory Admission_Gate: how many requests of a
  key can be inside or in the queue under changing policies, and whether a request that waits at
  the front of the queue is told when there is room.
\<close>

subsection \<open>Limits\<close>

fun event_within :: "u32 \<Rightarrow> u32 \<Rightarrow> admission_event \<Rightarrow> bool" where
  "event_within L Q (Enter _ c) \<longleftrightarrow> ra_max_queued_requests c \<le> Q"
| "event_within L Q (Set_Policy c) \<longleftrightarrow> ra_max_concurrent_requests c \<le> L"
| "event_within _ _ _ \<longleftrightarrow> True"

definition request_within :: "u32 \<Rightarrow> u32 \<Rightarrow> admission_request \<Rightarrow> bool" where
  "request_within L Q r \<longleftrightarrow> ra_max_queued_requests (req_initial r) \<le> Q \<and>
     (\<forall>c. req_phase r = Deciding c \<longrightarrow> ra_max_concurrent_requests c \<le> L)"

definition world_within :: "u32 \<Rightarrow> u32 \<Rightarrow> admission_world \<Rightarrow> bool" where
  "world_within L Q w \<longleftrightarrow> ra_max_concurrent_requests (aw_policy w) \<le> L \<and>
     (\<forall>i r. aw_requests w i = Some r \<longrightarrow> request_within L Q r) \<and>
     gate_active (aw_gate w) \<le> L \<and> gate_queued (aw_gate w) \<le> Q"

lemma sat_sub_le: "sat_sub a b \<le> (a :: 'a::len word)"
  by (simp add: word_le_nat_alt unat_sat_sub)

lemma inc_le: "(a :: 'a::len word) < b \<Longrightarrow> a + 1 \<le> b"
  using unat_Suc_below [of a b] by (simp add: word_le_nat_alt word_less_nat_alt)

lemma sat_inc_le: "(a :: 'a::len word) < b \<Longrightarrow> sat_add a 1 \<le> b"
  using sat_add_one [of a b] by (simp add: word_le_nat_alt word_less_nat_alt)

lemma release_queue_ticket_queued:
  "gate_queued (release_queue_ticket t g) = sat_sub (gate_queued g) 1"
  by (simp add: release_queue_ticket_def Let_def split: prod.split)

lemma complete_locked_le [simp]:
  "gate_active (complete_locked t g) = gate_active g"
  "gate_queued (complete_locked t g) \<le> gate_queued g"
  by (simp_all add: complete_locked_def release_queue_ticket_queued sat_sub_le split: option.split)

lemma concurrency_pass_within:
  assumes "concurrency_pass initial current backoff ticket g = (res, tk, g')"
    and "ra_max_concurrent_requests current \<le> L" "ra_max_queued_requests initial \<le> Q"
    and "gate_active g \<le> L" "gate_queued g \<le> Q"
  shows "gate_active g' \<le> L \<and> gate_queued g' \<le> Q"
  using assms(1)
proof (cases rule: concurrency_pass_cases)
  case unlimited
  then show ?thesis using assms complete_locked_le(2) order_trans by (metis complete_locked_le(1))
next
  case admitted
  moreover have "gate_queued (complete_locked ticket (g\<lparr>gate_active := gate_active g + 1\<rparr>)) \<le> gate_queued g"
    using complete_locked_le(2) [of ticket "g\<lparr>gate_active := gate_active g + 1\<rparr>"] by simp
  ultimately show ?thesis
    using assms inc_le [of "gate_active g" "ra_max_concurrent_requests current"] by (auto intro: order_trans)
next
  case (joined t)
  then show ?thesis
    using assms sat_inc_le [of "gate_queued g" "ra_max_queued_requests initial"]
    by (auto simp: register_locked_def intro: order_trans)
qed (use assms in auto)

lemma requests_simps [simp]:
  "aw_requests (put_request i r w) = (aw_requests w)(i \<mapsto> r)"
  "aw_requests (remove_request i w) = (aw_requests w)(i := None)"
  "aw_requests (notify_waiters w) = (\<lambda>i. map_option wake (aw_requests w i))"
  by (simp_all add: put_request_def remove_request_def notify_waiters_def)

lemma wake_fields [simp]:
  "req_initial (wake r) = req_initial r" "req_ticket (wake r) = req_ticket r"
  "req_phase (wake r) = req_phase r"
  "req_woken (wake r) = (req_woken r \<or> \<not> (req_phase r = Arriving \<or> req_phase r = Leaving))"
  by (simp_all add: wake_def)

lemma check_request_within:
  assumes ok: "world_within L Q w" and r: "aw_requests w i = Some r" "req_phase r = Deciding current"
  shows "world_within L Q (fst (check_request i backoff r current w))"
proof -
  obtain res tk g where p: "concurrency_pass (req_initial r) current backoff (req_ticket r) (aw_gate w) = (res, tk, g)"
    by (metis prod_cases3)
  have "request_within L Q r" using ok r by (simp add: world_within_def)
  then have "gate_active g \<le> L \<and> gate_queued g \<le> Q"
    using ok r by (intro concurrency_pass_within [OF p]) (auto simp: world_within_def request_within_def)
  then show ?thesis
    using ok r p by (cases res) (auto simp: check_request_def world_within_def request_within_def Let_def)
qed

lemma admission_step_within:
  assumes ok: "world_within L Q w" and e: "event_within L Q e"
  shows "world_within L Q (fst (admission_step e w))"
proof (cases "event_request e")
  case None
  then show ?thesis
    using ok e sat_sub_le [of "gate_active (aw_gate w)" 1] order_trans
    by (cases e) (auto simp: admission_step_def world_within_def request_within_def new_request_def release_permit_def)
next
  case (Some i)
  show ?thesis
  proof (cases "aw_requests w i")
    case (Some r)
    have within: "request_within L Q r" using ok Some by (simp add: world_within_def)
    show ?thesis
      using ok e within \<open>event_request e = Some i\<close> Some check_request_within [OF ok Some]
      by (cases e) (auto simp: admission_step_def world_within_def request_within_def Let_def
          split: admission_phase.splits intro: order_trans [OF complete_locked_le(2)])
  qed (simp add: admission_step_def \<open>event_request e = Some i\<close> ok)
qed

lemma admission_run_Cons:
  "fst (admission_run (e # es) w) = fst (admission_run es (fst (admission_step e w)))"
  by (simp split: prod.split)

lemma admission_run_within:
  "world_within L Q w \<Longrightarrow> list_all (event_within L Q) es \<Longrightarrow>
   world_within L Q (fst (admission_run es w))"
  by (induction es arbitrary: w)
    (simp_all only: admission_run_Cons list.pred_inject admission_step_within, simp)

subsection \<open>Wake-ups\<close>

text \<open>
  A request that has not been woken since it enabled its notification: the policy it has read is
  still in force, and if it waits it was not its turn or there was no room, or else a
  notification is on its way.
\<close>

definition informed :: "admission_world \<Rightarrow> admission_request \<Rightarrow> bool" where
  "informed w r \<longleftrightarrow> req_woken r \<or>
     (case req_phase r of
        Deciding c \<Rightarrow> 0 < aw_owed w \<or> aw_policy w = c
      | Waiting c \<Rightarrow> req_ticket r \<noteq> None \<and> (0 < aw_owed w \<or> aw_policy w = c \<and>
          \<not> (gate_active (aw_gate w) < ra_max_concurrent_requests c \<and>
             req_ticket r = Some (serving_ticket (aw_gate w))))
      | _ \<Rightarrow> True)"

definition limited :: "admission_request \<Rightarrow> bool" where
  "limited r \<longleftrightarrow> (\<forall>c. req_phase r = Deciding c \<longrightarrow> ra_max_concurrent_requests c \<noteq> 0) \<and>
     (\<forall>c. req_phase r = Waiting c \<longrightarrow> req_ticket r \<noteq> None)"

definition all_informed :: "admission_world \<Rightarrow> bool" where
  "all_informed w \<longleftrightarrow> ra_max_concurrent_requests (aw_policy w) \<noteq> 0 \<and>
     (\<forall>i r. aw_requests w i = Some r \<longrightarrow> informed w r \<and> limited r)"

fun keeps_limit :: "admission_event \<Rightarrow> bool" where
  "keeps_limit (Set_Policy c) \<longleftrightarrow> ra_max_concurrent_requests c \<noteq> 0"
| "keeps_limit _ \<longleftrightarrow> True"

lemma informed_owed: "aw_owed w' \<noteq> 0 \<Longrightarrow> informed w r \<Longrightarrow> informed w' r"
  by (auto simp: informed_def split: admission_phase.splits)

lemma all_informed_owed:
  assumes "all_informed w" "aw_owed w' \<noteq> 0" "ra_max_concurrent_requests (aw_policy w') \<noteq> 0"
    and "\<And>i r. aw_requests w' i = Some r \<Longrightarrow> aw_requests w i = Some r"
  shows "all_informed w'"
  unfolding all_informed_def
proof (intro conjI allI impI)
  fix i r
  assume "aw_requests w' i = Some r"
  then have "informed w r \<and> limited r" using assms unfolding all_informed_def by blast
  then show "informed w' r" and "limited r" using informed_owed assms(2) by blast+
qed (rule assms(3))

lemma limited_wake [simp]: "limited (wake r) = limited r"
  by (simp add: limited_def)

lemma informed_wake: "limited r \<Longrightarrow> informed w (wake r)"
  by (auto simp: informed_def limited_def split: admission_phase.split)

lemma informed_cong:
  "aw_owed w' = aw_owed w \<Longrightarrow> aw_policy w' = aw_policy w \<Longrightarrow>
   gate_active (aw_gate w') = gate_active (aw_gate w) \<Longrightarrow>
   serving_ticket (aw_gate w') = serving_ticket (aw_gate w) \<Longrightarrow> informed w' r = informed w r"
  by (simp add: informed_def split: admission_phase.split)

lemma all_informed_put:
  assumes "all_informed w" "informed w r" "limited r"
  shows "all_informed (put_request i r w)"
  using assms informed_cong [of "put_request i r w" w] by (simp add: all_informed_def)

lemma serving_below_next:
  assumes "queue_ok g T n q" "gate_queued g \<noteq> 0"
  shows "serving_ticket g < next_ticket g"
proof -
  obtain i q' where q: "q = i # q'" using assms queue_ok_empty by (cases q) auto
  then have ok: "tickets_ok g (the (T i) # map (\<lambda>i. the (T i)) q')"
    using assms by (simp add: queue_ok_def)
  then have "the (T i) < next_ticket g" by (auto simp: tickets_ok_def)
  then show ?thesis using serving_is_first [OF ok] by simp
qed

text \<open>A newcomer is admitted only past an empty queue, where nobody sleeps.\<close>

lemma check_request_informed:
  assumes ok: "all_informed w" and r: "aw_requests w i = Some r" "req_phase r = Deciding current"
    and q: "queue_inv n w q"
  shows "all_informed (fst (check_request i backoff r current w))"
proof -
  obtain res tk g where p: "concurrency_pass (req_initial r) current backoff (req_ticket r) (aw_gate w) = (res, tk, g)"
    by (metis prod_cases3)
  have lim: "ra_max_concurrent_requests current \<noteq> 0" and inf: "informed w r"
    using ok r by (auto simp: all_informed_def limited_def)
  show ?thesis
    using p
  proof (cases rule: concurrency_pass_cases)
    case unlimited
    then show ?thesis using lim by simp
  next
    case admitted
    show ?thesis
    proof (cases "req_ticket r")
      case None
      then have "q = []" using admitted q queue_ok_empty by (auto simp: queue_inv_def)
      then have none: "\<And>j s. aw_requests w j = Some s \<Longrightarrow> req_ticket s = None"
        using q tickets_of_at unfolding queue_inv_def queue_ok_def by (metis empty_iff list.set(1))
      then have "informed w' s" if "aw_requests w j = Some s" "aw_owed w' = aw_owed w" "aw_policy w' = aw_policy w"
        for j s w'
        using ok that by (auto simp: all_informed_def informed_def limited_def split: admission_phase.splits)
      then show ?thesis
        using ok p admitted None by (auto simp: check_request_def all_informed_def Let_def)
    next
      case (Some t)
      then show ?thesis
        using ok p admitted
        by (auto simp: check_request_def Let_def all_informed_def informed_wake)
    qed
  next
    case (rejected k)
    then show ?thesis
      using ok p by (auto simp: check_request_def informed_def limited_def intro!: all_informed_put)
  next
    case (joined t)
    have "all_informed (w\<lparr>aw_gate := g\<rparr>)"
      using ok joined informed_cong [of "w\<lparr>aw_gate := g\<rparr>" w]
      by (auto simp: all_informed_def register_locked_def)
    moreover have "\<not> (gate_active g < ra_max_concurrent_requests current \<and> t = serving_ticket g)"
      using joined q serving_below_next [of "aw_gate w" _ _ q]
      by (auto simp: register_locked_def queue_inv_def dest: queue_ok_empty)
    ultimately show ?thesis
      using joined p inf r by (auto simp: check_request_def informed_def limited_def intro!: all_informed_put)
  next
    case (waiting t)
    then show ?thesis
      using ok p inf r by (auto simp: check_request_def informed_def limited_def intro!: all_informed_put)
  qed
qed

lemma admission_step_informed:
  assumes ok: "all_informed w" and e: "keeps_limit e" and q: "queue_inv n w q"
  shows "all_informed (fst (admission_step e w))"
proof (cases "event_request e")
  case None
  note step = admission_step_def None
  show ?thesis
  proof (cases e)
    case (Enter i c)
    then show ?thesis
      using ok by (auto simp: step new_request_def informed_def limited_def intro!: all_informed_put)
  next
    case Notify_Waiters
    then show ?thesis using ok by (auto simp: step all_informed_def informed_wake)
  next
    case Drop_Permit
    then show ?thesis
      using ok by (auto simp: step all_informed_def intro: informed_owed [of _ w])
  next
    case (Set_Policy c)
    then show ?thesis using e by (auto simp: step intro!: all_informed_owed [OF ok])
  qed (use None in simp_all)
next
  case (Some i)
  show ?thesis
  proof (cases "aw_requests w i")
    case (Some r)
    note step = admission_step_def \<open>event_request e = Some i\<close> Some
    have r: "informed w r" "limited r" "ra_max_concurrent_requests (aw_policy w) \<noteq> 0"
      using ok Some by (auto simp: all_informed_def)
    show ?thesis
    proof (cases e)
      case (Check j b)
      then show ?thesis
        using ok Some \<open>event_request e = Some i\<close> check_request_informed [OF ok Some _ q]
        by (simp add: step split: admission_phase.split)
    next
      case (Drop_Registration j)
      then have j: "j = i" using \<open>event_request e = Some i\<close> by simp
      have same: "informed (remove_request i w) s = informed w s" for s
        by (rule informed_cong) simp_all
      show ?thesis
      proof (cases "req_ticket r")
        case None
        then show ?thesis
          using Drop_Registration j ok same by (auto simp: step complete_locked_def Let_def all_informed_def)
      next
        case (Some t)
        then show ?thesis
          using Drop_Registration j ok
          by (auto simp: step Let_def all_informed_def intro: informed_owed [of _ w] split: if_splits)
      qed
    qed (use ok r \<open>event_request e = Some i\<close> in
      \<open>auto simp: step informed_def limited_def intro!: all_informed_put split: admission_phase.splits\<close>)
  qed (simp add: admission_step_def Some ok)
qed

lemma admission_run_informed:
  assumes "all_informed w" "list_all keeps_limit es" "queue_inv n w q" "n + length es < 2 ^ 64"
  shows "all_informed (fst (admission_run es w))"
  using assms
proof (induction es arbitrary: n w q)
  case (Cons e es)
  have "follows_fifo (Suc n) q (aw_permits w) (admission_step e w)"
    using Cons.prems by (intro admission_step_fifo) simp_all
  then obtain q' where "queue_inv (Suc n) (fst (admission_step e w)) q'"
    by (auto simp: follows_fifo_def)
  then show ?case
    using Cons.prems admission_step_informed [of w e n q] unfolding admission_run_Cons
    by (intro Cons.IH [of _ "Suc n" q']) simp_all
qed simp

subsection \<open>Properties\<close>

text \<open>C30. 
  The limits hold while policies change.  If no policy that is ever in force allows more than
  \<open>L\<close> concurrent requests and no request arrives under a policy that allows more than \<open>Q\<close>
  queued ones, then there are never more than \<open>L\<close> permits alive nor more than \<open>Q\<close> requests in
  the queue.  Lowering a limit does not take permits back, so \<open>L\<close> is the largest limit so far.
\<close>

theorem admission_limits_hold:
  assumes "length es < 2 ^ 64" and "list_all (event_within L Q) es" and "ra_max_concurrent_requests c \<le> L"
  shows "aw_permits (fst (admission_run es (new_admission_world c))) \<le> unat L \<and>
    gate_queued (aw_gate (fst (admission_run es (new_admission_world c)))) \<le> Q"
proof -
  let ?w = "fst (admission_run es (new_admission_world c))"
  have "world_within L Q (new_admission_world c)"
    using assms(3) by (simp add: world_within_def new_admission_world_def concurrency_gate_default_def)
  then have "world_within L Q ?w" using assms(2) by (rule admission_run_within)
  moreover have "unat (gate_active (aw_gate ?w)) = aw_permits ?w"
    using admission_run_fifo [OF queue_inv_new, of es c] assms(1)
    by (auto simp: follows_fifo_def queue_inv_def queue_ok_def)
  ultimately show ?thesis by (simp add: world_within_def word_le_nat_alt)
qed

theorem admission_limits_hold_witness:
  "aw_permits (fst (admission_run three_arrivals (new_admission_world one_at_a_time))) \<le> unat (1 :: u32)"
  using admission_limits_hold [of three_arrivals 1 10 one_at_a_time]
  by (simp add: three_arrivals_def turn_of_def one_at_a_time_def)

text \<open>C12. 
  No wake-up is lost.  As long as the concurrency limit is never switched off, a request that
  sleeps at the front of the queue while nobody still has a notification to send sleeps for a
  reason: all places of the policy in force are taken.  So a place that becomes free, a request
  ahead that leaves and a limit that is raised always reach the request that may go next.
\<close>

theorem no_wakeup_is_lost:
  assumes "length es < 2 ^ 64" and "list_all keeps_limit es" and "ra_max_concurrent_requests c \<noteq> 0"
    and w: "w = fst (admission_run es (new_admission_world c))"
    and r: "aw_requests w i = Some r" "req_phase r = Waiting seen" "\<not> req_woken r"
      "req_ticket r = Some (serving_ticket (aw_gate w))"
    and quiet: "aw_owed w = 0"
  shows "ra_max_concurrent_requests (aw_policy w) \<le> gate_active (aw_gate w)"
proof -
  have "all_informed (new_admission_world c)"
    using assms(3) by (simp add: all_informed_def new_admission_world_def)
  then have "all_informed w"
    unfolding w using assms(1,2) by (intro admission_run_informed [OF _ _ queue_inv_new]) simp_all
  then have "informed w r" using r by (simp add: all_informed_def)
  then show ?thesis using r quiet by (simp add: informed_def not_less)
qed

theorem no_wakeup_is_lost_witness:
  "ra_max_concurrent_requests one_at_a_time \<le>
   gate_active (aw_gate (fst (admission_run three_arrivals (new_admission_world one_at_a_time))))"
proof -
  let ?w = "fst (admission_run three_arrivals (new_admission_world one_at_a_time))"
  let ?r = "\<lparr>req_initial = one_at_a_time, req_ticket = Some 0, req_phase = Waiting one_at_a_time,
    req_woken = False\<rparr>"
  have "aw_requests ?w 1 = Some ?r" "aw_owed ?w = 0" "aw_policy ?w = one_at_a_time"
      "serving_ticket (aw_gate ?w) = 0"
    by (simp_all add: gate_eval)
  then show ?thesis
    using no_wakeup_is_lost [of three_arrivals one_at_a_time ?w 1 ?r one_at_a_time]
    by (simp add: three_arrivals_def turn_of_def one_at_a_time_def)
qed



end
