(* ===== verification/Request_Admission.thy ===== *)
theory Request_Admission
  imports Admission_Gate Degrade
begin

text \<open>
  Admission of inference requests per request API key
  (\<open>src/anthropic/request_admission.rs\<close>), around the concurrency gate of theory
  Admission_Gate: the table of key states with its bound and its clean-up, the policies, the
  token bucket of the per-minute limit, the temporary back-off, the sampled log of rejections,
  the start of \<open>acquire\<close>, the response body that carries the permit and the middleware.

  A key state is shared through \<open>Arc\<close>; \<open>ks_refs\<close> counts the clones besides the one of the
  table (\<open>Arc::strong_count\<close> less one).  A state leaves the table only when there are none, so a
  clone is named by its digest.  Floats are as in theory Degrade, with the conversions that are
  used here only.
\<close>

unbundle bit_operations_syntax

subsection \<open>Reasons\<close>

datatype request_rejection_reason =
  AdmissionRpm | AdmissionConcurrencyFull | AdmissionQueueFull | AdmissionQueueTimeout
| AdmissionStateCapacity | BodyTooLarge | BodyReadFailed | RequestEntryInvalid
| StrictRequestProtocolContamination | DfcacheRouteInvalid | ProviderNotReady | MultimodalInvalid
| ModelUnsupported | WebSearchUnsupported | LocalRouteBlocked | LocalBodyPrepare
| LocalPoolUnavailable | LocalPoolTemporaryUnavailable | AdmissionLocalTemporaryBackoff
| KeyUsageLimitExceeded | KeyUsageLimitUnavailable

fun reason_index :: "request_rejection_reason \<Rightarrow> nat" where
  "reason_index AdmissionRpm = 0"
| "reason_index AdmissionConcurrencyFull = 1"
| "reason_index AdmissionQueueFull = 2"
| "reason_index AdmissionQueueTimeout = 3"
| "reason_index AdmissionStateCapacity = 4"
| "reason_index BodyTooLarge = 5"
| "reason_index BodyReadFailed = 6"
| "reason_index RequestEntryInvalid = 7"
| "reason_index StrictRequestProtocolContamination = 8"
| "reason_index DfcacheRouteInvalid = 9"
| "reason_index ProviderNotReady = 10"
| "reason_index MultimodalInvalid = 11"
| "reason_index ModelUnsupported = 12"
| "reason_index WebSearchUnsupported = 13"
| "reason_index LocalRouteBlocked = 14"
| "reason_index LocalBodyPrepare = 15"
| "reason_index LocalPoolUnavailable = 16"
| "reason_index LocalPoolTemporaryUnavailable = 17"
| "reason_index AdmissionLocalTemporaryBackoff = 18"
| "reason_index KeyUsageLimitExceeded = 19"
| "reason_index KeyUsageLimitUnavailable = 20"

definition REQUEST_REJECTION_REASON_COUNT :: nat where
  "REQUEST_REJECTION_REASON_COUNT = reason_index KeyUsageLimitUnavailable + 1"

fun reason_str :: "request_rejection_reason \<Rightarrow> string" where
  "reason_str AdmissionRpm = ''admission_rpm''"
| "reason_str AdmissionConcurrencyFull = ''admission_concurrency_full''"
| "reason_str AdmissionQueueFull = ''admission_queue_full''"
| "reason_str AdmissionQueueTimeout = ''admission_queue_timeout''"
| "reason_str AdmissionStateCapacity = ''admission_state_capacity''"
| "reason_str BodyTooLarge = ''body_too_large''"
| "reason_str BodyReadFailed = ''body_read_failed''"
| "reason_str RequestEntryInvalid = ''request_entry_invalid''"
| "reason_str StrictRequestProtocolContamination = ''strict_request_protocol_contamination''"
| "reason_str DfcacheRouteInvalid = ''dfcache_route_invalid''"
| "reason_str ProviderNotReady = ''provider_not_ready''"
| "reason_str MultimodalInvalid = ''multimodal_invalid''"
| "reason_str ModelUnsupported = ''model_unsupported''"
| "reason_str WebSearchUnsupported = ''websearch_unsupported''"
| "reason_str LocalRouteBlocked = ''local_route_blocked''"
| "reason_str LocalBodyPrepare = ''local_body_prepare''"
| "reason_str LocalPoolUnavailable = ''local_pool_unavailable''"
| "reason_str LocalPoolTemporaryUnavailable = ''local_pool_temporary_unavailable''"
| "reason_str AdmissionLocalTemporaryBackoff = ''admission_local_temporary_backoff''"
| "reason_str KeyUsageLimitExceeded = ''key_usage_limit_exceeded''"
| "reason_str KeyUsageLimitUnavailable = ''key_usage_limit_unavailable''"

text \<open>\<open>AdmissionRejectionKind::reason\<close>.\<close>

fun kind_reason :: "admission_rejection_kind \<Rightarrow> request_rejection_reason option" where
  "kind_reason Rpm = Some AdmissionRpm"
| "kind_reason ConcurrencyFull = Some AdmissionConcurrencyFull"
| "kind_reason QueueFull = Some AdmissionQueueFull"
| "kind_reason QueueTimeout = Some AdmissionQueueTimeout"
| "kind_reason StateCapacity = None"
| "kind_reason LocalTemporaryBackoff = Some AdmissionLocalTemporaryBackoff"

subsection \<open>Key states\<close>

record 'f f64_conv = "'f f64" +
  f_is_finite :: "'f \<Rightarrow> bool"
  f_from_secs :: "'f \<Rightarrow> duration option"

text \<open>\<open>Duration::as_secs_f64\<close>; \<open>f_from_secs\<close> is \<open>Duration::from_secs_f64\<close>, \<open>None\<close> its panic.\<close>

definition as_secs_f64 :: "('f, 'm) f64_scheme \<Rightarrow> duration \<Rightarrow> 'f" where
  "as_secs_f64 F d = f_add F (f_of_nat F (d div 1000000000))
     (f_div F (f_of_nat F (d mod 1000000000)) (f_of_nat F 1000000000))"

type_synonym key_digest = "u8 list"

record 'f rpm_bucket =
  rb_last_refill :: instant
  rb_tokens :: 'f
  rb_limit :: u32

record 'f key_state =
  ks_gate :: concurrency_gate
  ks_rpm :: "'f rpm_bucket"
  ks_rejection_counts :: "u64 list"
  ks_last_seen_ms :: u64
  ks_backoff_until_ms :: u64
  ks_refs :: nat

definition new_key_state :: "('f, 'm) f64_scheme \<Rightarrow> instant \<Rightarrow> u64 \<Rightarrow> 'f key_state" where
  "new_key_state F now last_seen_ms =
     \<lparr>ks_gate = concurrency_gate_default,
      ks_rpm = \<lparr>rb_last_refill = now, rb_tokens = f_lit F 0 1, rb_limit = 0\<rparr>,
      ks_rejection_counts = replicate REQUEST_REJECTION_REASON_COUNT 0,
      ks_last_seen_ms = last_seen_ms, ks_backoff_until_ms = 0, ks_refs = 0\<rparr>"

text \<open>\<open>AdmissionRejection\<close>; the state it carries is that of the key, if any.\<close>

record admission_rejection =
  rej_kind :: admission_rejection_kind
  rej_retry_after_secs :: u64
  rej_key_state :: "key_digest option"

definition rejection_for_key :: "admission_rejection_kind \<Rightarrow> u64 \<Rightarrow> key_digest \<Rightarrow> admission_rejection" where
  "rejection_for_key kind retry_after_secs d =
     \<lparr>rej_kind = kind, rej_retry_after_secs = max retry_after_secs 1, rej_key_state = Some d\<rparr>"

definition rejection_state_capacity :: "u64 \<Rightarrow> admission_rejection" where
  "rejection_state_capacity retry_after_secs =
     \<lparr>rej_kind = StateCapacity, rej_retry_after_secs = max retry_after_secs 1, rej_key_state = None\<rparr>"

definition duration_ceil_secs :: "duration \<Rightarrow> u64" where
  "duration_ceil_secs d =
     max (sat_add (word_of_nat (d div 1000000000)) (if 0 < d mod 1000000000 then 1 else 0)) 1"

definition duration_millis_u64 :: "duration \<Rightarrow> u64" where
  "duration_millis_u64 d = word_of_nat (min (d div 1000000) (2 ^ 64 - 1))"

subsection \<open>The table of key states\<close>

definition STATE_SHARDS :: nat where "STATE_SHARDS = 16"
definition CLEANUP_INTERVAL :: u64 where "CLEANUP_INTERVAL = 64"

record 'f state_table =
  st_shards :: "(key_digest \<times> 'f key_state) list list"
  st_tracked_keys :: u64
  st_operations :: u64
  st_state_ttl :: duration
  st_max_tracked_keys :: u64

definition shard_index :: "('f, 'm) state_table_scheme \<Rightarrow> key_digest \<Rightarrow> nat" where
  "shard_index t d = unat (hd d) mod length (st_shards t)"

definition reserve_state_slot :: "('f, 'm) state_table_scheme \<Rightarrow> ('f, 'm) state_table_scheme option" where
  "reserve_state_slot t =
     (if st_tracked_keys t < st_max_tracked_keys t
      then Some (t\<lparr>st_tracked_keys := st_tracked_keys t + 1\<rparr>) else None)"

definition keep_state :: "duration \<Rightarrow> u64 \<Rightarrow> 'f key_state \<Rightarrow> bool" where
  "keep_state ttl now_ms s \<longleftrightarrow>
     sat_sub now_ms (ks_last_seen_ms s) < duration_millis_u64 ttl \<or> 0 < ks_refs s \<or>
     \<not> gate_is_idle (ks_gate s)"

definition cleanup_shard :: "nat \<Rightarrow> u64 \<Rightarrow> ('f, 'm) state_table_scheme \<Rightarrow> ('f, 'm) state_table_scheme" where
  "cleanup_shard k now_ms t =
     (let shard = st_shards t ! k;
          kept = filter (\<lambda>(_, s). keep_state (st_state_ttl t) now_ms s) shard;
          removed = length shard - length kept;
          t = t\<lparr>st_shards := (st_shards t)[k := kept]\<rparr>
      in if 0 < removed then t\<lparr>st_tracked_keys := st_tracked_keys t - word_of_nat removed\<rparr> else t)"

definition cleanup_all :: "u64 \<Rightarrow> ('f, 'm) state_table_scheme \<Rightarrow> ('f, 'm) state_table_scheme" where
  "cleanup_all now_ms t = fold (\<lambda>k. cleanup_shard k now_ms) [0..<length (st_shards t)] t"

text \<open>The two sections of \<open>state_for\<close> that hold the lock of a shard.\<close>

definition lookup_state :: "key_digest \<Rightarrow> u64 \<Rightarrow> ('f, 'm) state_table_scheme \<Rightarrow> ('f, 'm) state_table_scheme option" where
  "lookup_state d now_ms t =
     (let k = shard_index t d; shard = st_shards t ! k in
      map_option
        (\<lambda>s. t\<lparr>st_shards := (st_shards t)
          [k := AList.update d (s\<lparr>ks_last_seen_ms := now_ms, ks_refs := ks_refs s + 1\<rparr>) shard]\<rparr>)
        (map_of shard d))"

definition insert_state :: "('f, 'n) f64_scheme \<Rightarrow> key_digest \<Rightarrow> instant \<Rightarrow> u64 \<Rightarrow>
    ('f, 'm) state_table_scheme \<Rightarrow> ('f, 'm) state_table_scheme" where
  "insert_state F d now now_ms t =
     (case lookup_state d now_ms t of
        Some t' \<Rightarrow> t'\<lparr>st_tracked_keys := st_tracked_keys t' - 1\<rparr>
      | None \<Rightarrow>
          (let k = shard_index t d
           in t\<lparr>st_shards := (st_shards t)[k := AList.update d
                ((new_key_state F now now_ms)\<lparr>ks_refs := 1\<rparr>) (st_shards t ! k)]\<rparr>))"

definition count_operation :: "key_digest \<Rightarrow> u64 \<Rightarrow> ('f, 'm) state_table_scheme \<Rightarrow> ('f, 'm) state_table_scheme" where
  "count_operation d now_ms t =
     (let operation = st_operations t; t = t\<lparr>st_operations := operation + 1\<rparr>
      in if operation mod CLEANUP_INTERVAL = 0
         then cleanup_shard ((shard_index t d + unat (operation div CLEANUP_INTERVAL)) mod length (st_shards t))
                now_ms t
         else t)"

definition state_for :: "('f, 'n) f64_scheme \<Rightarrow> key_digest \<Rightarrow> instant \<Rightarrow> u64 \<Rightarrow>
    ('f, 'm) state_table_scheme \<Rightarrow> admission_rejection option \<times> ('f, 'm) state_table_scheme" where
  "state_for F d now now_ms t =
     (let t = count_operation d now_ms t
      in case lookup_state d now_ms t of
           Some t \<Rightarrow> (None, t)
         | None \<Rightarrow>
             (case reserve_state_slot t of
                Some t \<Rightarrow> (None, insert_state F d now now_ms t)
              | None \<Rightarrow>
                  (let t = cleanup_all now_ms t
                   in case reserve_state_slot t of
                        Some t \<Rightarrow> (None, insert_state F d now now_ms t)
                      | None \<Rightarrow> (Some (rejection_state_capacity 1), t))))"

text \<open>An \<open>Arc\<close> clone of a key state is dropped.\<close>

definition drop_state :: "key_digest \<Rightarrow> ('f, 'm) state_table_scheme \<Rightarrow> ('f, 'm) state_table_scheme" where
  "drop_state d t =
     (let k = shard_index t d; shard = st_shards t ! k
      in case map_of shard d of
           None \<Rightarrow> t
         | Some s \<Rightarrow> t\<lparr>st_shards := (st_shards t)
             [k := AList.update d (s\<lparr>ks_refs := ks_refs s - 1\<rparr>) shard]\<rparr>)"

subsection \<open>Temporary back-off\<close>

definition LOCAL_TEMPORARY_BACKOFF_MIN :: duration where "LOCAL_TEMPORARY_BACKOFF_MIN = secs 1"
definition LOCAL_TEMPORARY_BACKOFF_MAX :: duration where "LOCAL_TEMPORARY_BACKOFF_MAX = secs 8"

definition local_temporary_backoff_rejection ::
    "u64 \<Rightarrow> key_digest \<Rightarrow> 'f key_state \<Rightarrow> admission_rejection option" where
  "local_temporary_backoff_rejection now_ms d s =
     (if ks_backoff_until_ms s \<le> now_ms then None
      else Some (rejection_for_key LocalTemporaryBackoff
             (duration_ceil_secs (millis (unat (sat_sub (ks_backoff_until_ms s) now_ms)))) d))"

text \<open>
  The loop of \<open>apply_local_temporary_backoff\<close>: \<open>current\<close> is the value last seen, \<open>others\<close> the
  values that other tasks stored before the compare-and-exchanges that failed.  The value of the
  cell at the end and whether this task stored it (and so notified the waiters).
\<close>

fun backoff_loop :: "u64 \<Rightarrow> u64 \<Rightarrow> u64 list \<Rightarrow> u64 \<times> bool" where
  "backoff_loop until_ms current [] = (if current < until_ms then (until_ms, True) else (current, False))"
| "backoff_loop until_ms current (actual # others) =
     (if current < until_ms then backoff_loop until_ms actual others else (current, False))"

definition backoff_until :: "u64 \<Rightarrow> duration \<Rightarrow> u64" where
  "backoff_until now_ms retry_after =
     sat_add now_ms (duration_millis_u64
       (clamp LOCAL_TEMPORARY_BACKOFF_MIN LOCAL_TEMPORARY_BACKOFF_MAX retry_after))"

definition apply_backoff :: "u64 \<Rightarrow> duration \<Rightarrow> u64 list \<Rightarrow> 'f key_state \<Rightarrow> 'f key_state \<times> bool" where
  "apply_backoff now_ms retry_after others s =
     (case backoff_loop (backoff_until now_ms retry_after) (ks_backoff_until_ms s) others of
        (u, stored) \<Rightarrow> (s\<lparr>ks_backoff_until_ms := u\<rparr>, stored))"

subsection \<open>The per-minute limit\<close>

definition MAX_RPM_BURST :: u32 where "MAX_RPM_BURST = 32"

definition rpm_refill_per_second :: "('f, 'm) f64_scheme \<Rightarrow> duration \<Rightarrow> u32 \<Rightarrow> 'f" where
  "rpm_refill_per_second F rpm_window limit =
     f_div F (f_of_nat F (unat limit)) (as_secs_f64 F rpm_window)"

definition refill_rpm :: "('f, 'm) f64_scheme \<Rightarrow> duration \<Rightarrow> u32 \<Rightarrow> instant \<Rightarrow> 'f rpm_bucket \<Rightarrow> 'f rpm_bucket" where
  "refill_rpm F rpm_window limit now b =
     (let capacity = f_of_nat F (unat (min limit MAX_RPM_BURST))
      in if rb_limit b \<noteq> limit
         then \<lparr>rb_last_refill = now,
               rb_tokens = (if rb_limit b = 0 then capacity else f_min F (rb_tokens b) capacity),
               rb_limit = limit\<rparr>
         else b\<lparr>rb_tokens := f_min F (f_add F (rb_tokens b)
                  (f_mul F (as_secs_f64 F (now - rb_last_refill b)) (rpm_refill_per_second F rpm_window limit)))
                  capacity,
                rb_last_refill := now\<rparr>)"

definition reserve_rpm :: "'f f64_conv \<Rightarrow> duration \<Rightarrow> u32 \<Rightarrow> instant \<Rightarrow> key_digest \<Rightarrow> 'f rpm_bucket \<Rightarrow>
    (admission_rejection, unit) outcome \<times> 'f rpm_bucket" where
  "reserve_rpm F rpm_window limit now d bucket =
     (let b = refill_rpm F rpm_window limit now bucket
      in if f_le F (f_lit F 1 1) (rb_tokens b)
         then (Ok (), b\<lparr>rb_tokens := f_sub F (rb_tokens b) (f_lit F 1 1)\<rparr>)
         else let wait_seconds = f_div F (f_max F (f_sub F (f_lit F 1 1) (rb_tokens b)) (f_lit F 0 1))
                                   (rpm_refill_per_second F rpm_window limit)
              in (case f_from_secs F wait_seconds of
                    None \<Rightarrow> Panic
                  | Some w \<Rightarrow> Err (rejection_for_key Rpm (duration_ceil_secs w) d), b))"

subsection \<open>The log of rejections\<close>

record 'f rejection_log_policy =
  rlp_capacity :: u32
  rlp_refill_per_second :: 'f
  rlp_summary_interval :: duration

definition normalized_log_policy :: "'f f64_conv \<Rightarrow> 'f rejection_log_policy \<Rightarrow> 'f rejection_log_policy" where
  "normalized_log_policy F p =
     \<lparr>rlp_capacity = max (rlp_capacity p) 1,
      rlp_refill_per_second =
        (if f_is_finite F (rlp_refill_per_second p)
         then f_max F (rlp_refill_per_second p) (f_lit F 0 1) else f_lit F 0 1),
      rlp_summary_interval = max (rlp_summary_interval p) (millis 1)\<rparr>"

definition default_log_policy :: "('f, 'm) f64_scheme \<Rightarrow> 'f rejection_log_policy" where
  "default_log_policy F = \<lparr>rlp_capacity = 64, rlp_refill_per_second = f_lit F 8 1,
     rlp_summary_interval = secs 30\<rparr>"

record 'f log_token_bucket =
  ltb_tokens :: 'f
  ltb_last_refill :: instant

definition try_take :: "('f, 'm) f64_scheme \<Rightarrow> instant \<Rightarrow> 'f rejection_log_policy \<Rightarrow> 'f log_token_bucket \<Rightarrow>
    bool \<times> 'f log_token_bucket" where
  "try_take F now p b =
     (let elapsed = as_secs_f64 F (now - ltb_last_refill b);
          tokens = f_min F (f_add F (ltb_tokens b) (f_mul F elapsed (rlp_refill_per_second p)))
                     (f_of_nat F (unat (rlp_capacity p)));
          b = \<lparr>ltb_tokens = tokens, ltb_last_refill = now\<rparr>
      in if f_less F tokens (f_lit F 1 1) then (False, b)
         else (True, b\<lparr>ltb_tokens := f_sub F tokens (f_lit F 1 1)\<rparr>))"

record 'f rejection_log =
  rl_policy :: "'f rejection_log_policy"
  rl_bucket :: "'f log_token_bucket"
  rl_suppressed :: u64
  rl_next_summary_ms :: u64
  rl_detailed_emitted :: u64
  rl_summaries_emitted :: u64
  rl_budget_lock_acquisitions :: u64

text \<open>The lines written: a detailed one with its count, a summary with the number left out.\<close>

datatype rejection_line = Detailed_Line request_rejection_reason u64 | Summary_Line u64

definition maybe_emit_rejection_log_summary ::
    "u64 \<Rightarrow> 'f rejection_log \<Rightarrow> 'f rejection_log \<times> rejection_line list" where
  "maybe_emit_rejection_log_summary now_ms l =
     (if rl_suppressed l = 0 \<or> now_ms < rl_next_summary_ms l then (l, [])
      else (l\<lparr>rl_next_summary_ms :=
                 sat_add now_ms (duration_millis_u64 (rlp_summary_interval (rl_policy l))),
              rl_suppressed := 0, rl_summaries_emitted := rl_summaries_emitted l + 1\<rparr>,
            [Summary_Line (rl_suppressed l)]))"

text \<open>\<open>u64::is_power_of_two\<close>.\<close>

definition is_power_of_two :: "u64 \<Rightarrow> bool" where
  "is_power_of_two n \<longleftrightarrow> n \<noteq> 0 \<and> n AND (n - 1) = 0"

definition sampled_count :: "u64 \<Rightarrow> bool" where
  "sampled_count count \<longleftrightarrow> \<not> (8 < count \<and> \<not> is_power_of_two count)"

definition log_rejection :: "('f, 'm) f64_scheme \<Rightarrow> instant \<Rightarrow> u64 \<Rightarrow> request_rejection_reason \<Rightarrow> u64 \<Rightarrow>
    'f rejection_log \<Rightarrow> u64 option \<times> 'f rejection_log \<times> rejection_line list" where
  "log_rejection F now now_ms reason count l =
     (case maybe_emit_rejection_log_summary now_ms l of (l, lines) \<Rightarrow>
        (if \<not> sampled_count count then (None, l, lines)
         else
           (let l = l\<lparr>rl_budget_lock_acquisitions := rl_budget_lock_acquisitions l + 1\<rparr>
            in case try_take F now (rl_policy l) (rl_bucket l) of
                 (taken, b) \<Rightarrow>
                   (let l = l\<lparr>rl_bucket := b\<rparr>
                    in if taken
                       then (Some count, l\<lparr>rl_detailed_emitted := rl_detailed_emitted l + 1\<rparr>,
                             lines @ [Detailed_Line reason count])
                       else (None, l\<lparr>rl_suppressed := rl_suppressed l + 1\<rparr>, lines)))))"

subsection \<open>The controller\<close>

record 'f request_admission_controller = "'f state_table" +
  rac_default :: request_admission_config
  rac_per_key :: "(key_digest \<times> request_admission_config) list"
  rac_rpm_window :: duration
  rac_state_capacity_rejections :: u64
  rac_log :: "'f rejection_log"

definition DEFAULT_MAX_TRACKED_KEYS :: u64 where "DEFAULT_MAX_TRACKED_KEYS = 4096"
definition DEFAULT_STATE_TTL :: duration where "DEFAULT_STATE_TTL = secs (10 * 60)"
definition DEFAULT_RPM_WINDOW :: duration where "DEFAULT_RPM_WINDOW = secs 60"

definition with_runtime_bounds_and_log_policy ::
    "'f f64_conv \<Rightarrow> instant \<Rightarrow> request_admission_config \<Rightarrow> duration \<Rightarrow> duration \<Rightarrow> u64 \<Rightarrow>
     'f rejection_log_policy \<Rightarrow> 'f request_admission_controller" where
  "with_runtime_bounds_and_log_policy F now config rpm_window state_ttl max_tracked_keys log_policy =
     (let p = normalized_log_policy F log_policy
      in \<lparr>st_shards = replicate STATE_SHARDS [], st_tracked_keys = 0, st_operations = 0,
          st_state_ttl = state_ttl, st_max_tracked_keys = max max_tracked_keys 1,
          rac_default = normalized_admission config, rac_per_key = [],
          rac_rpm_window = max rpm_window (millis 1), rac_state_capacity_rejections = 0,
          rac_log = \<lparr>rl_policy = p,
            rl_bucket = \<lparr>ltb_tokens = f_of_nat F (unat (rlp_capacity p)), ltb_last_refill = now\<rparr>,
            rl_suppressed = 0, rl_next_summary_ms = duration_millis_u64 (rlp_summary_interval p),
            rl_detailed_emitted = 0, rl_summaries_emitted = 0, rl_budget_lock_acquisitions = 0\<rparr>\<rparr>)"

definition new_request_admission :: "'f f64_conv \<Rightarrow> instant \<Rightarrow> request_admission_config \<Rightarrow>
    'f request_admission_controller" where
  "new_request_admission F now config =
     with_runtime_bounds_and_log_policy F now config DEFAULT_RPM_WINDOW DEFAULT_STATE_TTL
       DEFAULT_MAX_TRACKED_KEYS (default_log_policy F)"

definition update_admission_config ::
    "request_admission_config \<Rightarrow> 'f request_admission_controller \<Rightarrow> 'f request_admission_controller" where
  "update_admission_config config c = c\<lparr>rac_default := normalized_admission config\<rparr>"

definition update_admission_policies ::
    "request_admission_config \<Rightarrow> (key_digest \<times> request_admission_config) list \<Rightarrow>
     'f request_admission_controller \<Rightarrow> 'f request_admission_controller" where
  "update_admission_policies default_config overrides c =
     c\<lparr>rac_default := normalized_admission default_config,
       rac_per_key := fold (\<lambda>(d, config). AList.update d (normalized_admission config)) overrides []\<rparr>"

definition policy_for :: "key_digest \<Rightarrow> 'f request_admission_controller \<Rightarrow> request_admission_config" where
  "policy_for d c = (case map_of (rac_per_key c) d of Some p \<Rightarrow> p | None \<Rightarrow> rac_default c)"

definition key_state_of :: "key_digest \<Rightarrow> ('f, 'm) state_table_scheme \<Rightarrow> 'f key_state option" where
  "key_state_of d t = map_of (st_shards t ! shard_index t d) d"

definition put_key_state :: "key_digest \<Rightarrow> 'f key_state \<Rightarrow> ('f, 'm) state_table_scheme \<Rightarrow>
    ('f, 'm) state_table_scheme" where
  "put_key_state d s t =
     t\<lparr>st_shards := (st_shards t)
       [shard_index t d := AList.update d s (st_shards t ! shard_index t d)]\<rparr>"

text \<open>
  \<open>acquire\<close> up to the loop of \<open>acquire_concurrency\<close>, which is the run of theory
  Admission_Gate: admission is off for the key, a rejection, a permit that does not count, or
  the loop with the policy read at the start.  The clock is read three times.
\<close>

datatype acquire_outcome =
  Start_Disabled | Start_Rejected admission_rejection | Start_Uncounted
| Start_Gate request_admission_config | Start_Panics

definition acquire_with_state ::
    "'f f64_conv \<Rightarrow> u64 \<Rightarrow> instant \<Rightarrow> request_admission_config \<Rightarrow> key_digest \<Rightarrow> 'f key_state \<Rightarrow>
     'f request_admission_controller \<Rightarrow> acquire_outcome \<times> 'f request_admission_controller" where
  "acquire_with_state F now_ms now config d s c =
     (case local_temporary_backoff_rejection now_ms d s of
        Some rejection \<Rightarrow> (Start_Rejected rejection, c)
      | None \<Rightarrow>
          (let (reserved, bucket) =
                 (if 0 < ra_rpm config then reserve_rpm F (rac_rpm_window c) (ra_rpm config) now d (ks_rpm s)
                  else (Ok (), ks_rpm s));
               c = put_key_state d (s\<lparr>ks_rpm := bucket\<rparr>) c
           in case reserved of
                Panic \<Rightarrow> (Start_Panics, c)
              | Err rejection \<Rightarrow> (Start_Rejected rejection, c)
              | Ok _ \<Rightarrow> (if 0 < ra_max_concurrent_requests config then Start_Gate config else Start_Uncounted, c)))"

definition acquire_start :: "'f f64_conv \<Rightarrow> instant \<Rightarrow> u64 \<Rightarrow> u64 \<Rightarrow> instant \<Rightarrow> key_digest \<Rightarrow>
    'f request_admission_controller \<Rightarrow> acquire_outcome \<times> 'f request_admission_controller" where
  "acquire_start F now1 now1_ms now2_ms now3 d c =
     (let initial_config = policy_for d c
      in if \<not> admission_enabled initial_config then (Start_Disabled, c)
         else case state_for F d now1 now1_ms c of
                (Some rejection, c) \<Rightarrow> (Start_Rejected rejection, c)
              | (None, c) \<Rightarrow>
                  (case key_state_of d c of
                     None \<Rightarrow> (Start_Panics, c)
                   | Some s \<Rightarrow> acquire_with_state F now2_ms now3 initial_config d s c))"

text \<open>\<open>apply_local_temporary_backoff\<close>, with the state found or created.\<close>

definition apply_local_temporary_backoff ::
    "('f, 'm) f64_scheme \<Rightarrow> instant \<Rightarrow> u64 \<Rightarrow> key_digest \<Rightarrow> bool \<Rightarrow> duration \<Rightarrow> u64 list \<Rightarrow>
     'f request_admission_controller \<Rightarrow> bool \<times> 'f request_admission_controller" where
  "apply_local_temporary_backoff F now now_ms d holds_state retry_after others c =
     (if \<not> admission_enabled (policy_for d c) then (False, c)
      else
        case (if holds_state then (None, c) else state_for F d now now_ms c) of
          (Some _, c) \<Rightarrow> (False, c)
        | (None, c) \<Rightarrow>
            (True, case key_state_of d c of
                     None \<Rightarrow> c
                   | Some s \<Rightarrow> put_key_state d (fst (apply_backoff now_ms retry_after others s)) c))"

text \<open>\<open>record_attributed_rejection\<close>: \<open>key\<close> is the key whose state counts the rejection.\<close>

definition count_rejection :: "key_digest option \<Rightarrow> request_rejection_reason \<Rightarrow>
    'f request_admission_controller \<Rightarrow> u64 \<times> 'f request_admission_controller" where
  "count_rejection key reason c =
     (case Option.bind key (\<lambda>d. map_option (Pair d) (key_state_of d c)) of
        Some (d, s) \<Rightarrow>
          (let i = reason_index reason; n = ks_rejection_counts s ! i
           in (sat_add n 1, put_key_state d (s\<lparr>ks_rejection_counts := (ks_rejection_counts s)[i := n + 1]\<rparr>) c))
      | None \<Rightarrow>
          (sat_add (rac_state_capacity_rejections c) 1,
           c\<lparr>rac_state_capacity_rejections := rac_state_capacity_rejections c + 1\<rparr>))"

definition record_attributed_rejection ::
    "('f, 'm) f64_scheme \<Rightarrow> instant \<Rightarrow> u64 \<Rightarrow> key_digest option \<Rightarrow> request_rejection_reason \<Rightarrow>
     'f request_admission_controller \<Rightarrow>
     u64 option \<times> 'f request_admission_controller \<times> rejection_line list" where
  "record_attributed_rejection F now now_ms key reason c =
     (case count_rejection key reason c of (count, c) \<Rightarrow>
        (case log_rejection F now now_ms reason count (rac_log c) of
           (sample, l, lines) \<Rightarrow> (sample, c\<lparr>rac_log := l\<rparr>, lines)))"

text \<open>
  \<open>RequestRejectionAttribution::record_with_metadata_and_context\<close>: whose state counts the
  rejection.  \<open>holds\<close> says that the attribution carries the key's state already.
\<close>

definition attribution_key :: "('f, 'm) f64_scheme \<Rightarrow> instant \<Rightarrow> u64 \<Rightarrow> key_digest \<Rightarrow> bool \<Rightarrow>
    request_rejection_reason \<Rightarrow> 'f request_admission_controller \<Rightarrow>
    key_digest option \<times> 'f request_admission_controller" where
  "attribution_key F now now_ms d holds reason c =
     (if reason = AdmissionStateCapacity then (None, c)
      else if holds then (Some d, c)
      else case state_for F d now now_ms c of
             (Some _, c) \<Rightarrow> (None, c) | (None, c) \<Rightarrow> (Some d, c))"

subsection \<open>Permits and the response body\<close>

record admission_permit =
  pm_state :: "key_digest option"
  pm_counted :: bool

definition permit_disabled :: admission_permit where
  "permit_disabled = \<lparr>pm_state = None, pm_counted = False\<rparr>"

text \<open>Whether dropping a permit gives a place back.\<close>

definition frees_place :: "admission_permit \<Rightarrow> bool" where
  "frees_place p \<longleftrightarrow> pm_counted p \<and> pm_state p \<noteq> None"

datatype body_poll = Poll_Pending | Poll_Frame | Poll_Error | Poll_End

definition permit_poll_frame :: "body_poll \<Rightarrow> admission_permit option \<Rightarrow>
    admission_permit option \<times> admission_permit list" where
  "permit_poll_frame result permit =
     (if result = Poll_End \<or> result = Poll_Error then (None, case permit of None \<Rightarrow> [] | Some p \<Rightarrow> [p])
      else (permit, []))"

text \<open>\<open>response_holding_permit\<close>: the permit the body carries and the permits dropped at once.\<close>

definition response_holding_permit :: "admission_permit \<Rightarrow> admission_permit option \<times> admission_permit list" where
  "response_holding_permit p = (if \<not> pm_counted p then (None, [p]) else (Some p, []))"

text \<open>A body is polled and dropped at some point; the permits dropped on the way, in order.\<close>

fun body_drops :: "admission_permit option \<Rightarrow> body_poll list \<Rightarrow> admission_permit list" where
  "body_drops permit [] = (case permit of None \<Rightarrow> [] | Some p \<Rightarrow> [p])"
| "body_drops permit (r # rs) =
     (case permit_poll_frame r permit of (permit', dropped) \<Rightarrow> dropped @ body_drops permit' rs)"

subsection \<open>Tasks that share the table\<close>

text \<open>
  The sections of \<open>state_for\<close> and of the clean-up that hold a lock or change the counter
  atomically, in any order; the second component counts the tasks that have reserved a slot and
  not yet reached the insertion.  A task that holds a clone works on the gate.
\<close>

datatype table_event =
  Clean_Shard nat u64 | Look_Up key_digest u64 | Reserve_Slot | Insert_State key_digest instant u64
| Drop_State key_digest | Use_Gate key_digest concurrency_gate

fun table_step :: "('f, 'n) f64_scheme \<Rightarrow> table_event \<Rightarrow> 'f state_table \<times> nat \<Rightarrow> 'f state_table \<times> nat" where
  "table_step F (Clean_Shard k now_ms) (t, r) =
     (if k < length (st_shards t) then cleanup_shard k now_ms t else t, r)"
| "table_step F (Look_Up d now_ms) (t, r) =
     (case lookup_state d now_ms t of Some t' \<Rightarrow> t' | None \<Rightarrow> t, r)"
| "table_step F Reserve_Slot (t, r) =
     (case reserve_state_slot t of Some t' \<Rightarrow> (t', r + 1) | None \<Rightarrow> (t, r))"
| "table_step F (Insert_State d now now_ms) (t, r) =
     (if r = 0 then (t, r) else (insert_state F d now now_ms t, r - 1))"
| "table_step F (Drop_State d) (t, r) = (drop_state d t, r)"
| "table_step F (Use_Gate d g) (t, r) =
     (case key_state_of d t of
        Some s \<Rightarrow> if 0 < ks_refs s then put_key_state d (s\<lparr>ks_gate := g\<rparr>) t else t
      | None \<Rightarrow> t, r)"

definition empty_table :: "duration \<Rightarrow> u64 \<Rightarrow> 'f state_table" where
  "empty_table ttl max_keys = \<lparr>st_shards = replicate STATE_SHARDS [], st_tracked_keys = 0,
     st_operations = 0, st_state_ttl = ttl, st_max_tracked_keys = max max_keys 1\<rparr>"

definition table_run :: "('f, 'n) f64_scheme \<Rightarrow> table_event list \<Rightarrow> 'f state_table \<Rightarrow> 'f state_table \<times> nat" where
  "table_run F es t = fold (table_step F) es (t, 0)"

definition stored_states :: "('f, 'm) state_table_scheme \<Rightarrow> nat" where
  "stored_states t = sum_list (map length (st_shards t))"

definition shards_ok :: "('f, 'm) state_table_scheme \<Rightarrow> bool" where
  "shards_ok t \<longleftrightarrow> st_shards t \<noteq> [] \<and>
     (\<forall>k < length (st_shards t). distinct (map fst (st_shards t ! k)) \<and>
        (\<forall>d \<in> fst ` set (st_shards t ! k). shard_index t d = k))"

definition table_ok :: "('f, 'm) state_table_scheme \<Rightarrow> nat \<Rightarrow> bool" where
  "table_ok t r \<longleftrightarrow> shards_ok t \<and> unat (st_tracked_keys t) = stored_states t + r \<and>
     st_tracked_keys t \<le> st_max_tracked_keys t"

lemma sum_length_update:
  assumes "k < length xss"
  shows "sum_list (map length (xss[k := ys])) + length (xss ! k) = sum_list (map length xss) + length ys"
  using assms
proof (induction xss arbitrary: k)
  case (Cons xs xss)
  then show ?case by (cases k) auto
qed simp

lemma shard_index_less [simp]: "st_shards t \<noteq> [] \<Longrightarrow> shard_index t d < length (st_shards t)"
  by (simp add: shard_index_def)

lemma shard_index_cong:
  "length (st_shards t') = length (st_shards t) \<Longrightarrow> shard_index t' d = shard_index t d"
  by (simp add: shard_index_def)

text \<open>Replacing the shard of index \<open>k\<close> by entries that belong there.\<close>

lemma shards_ok_update:
  assumes "shards_ok t" "k < length (st_shards t)" "distinct (map fst shard)"
    and "\<forall>d \<in> fst ` set shard. shard_index t d = k"
  shows "shards_ok (t\<lparr>st_shards := (st_shards t)[k := shard]\<rparr>)"
  using assms by (auto simp: shards_ok_def nth_list_update shard_index_def)

lemma shards_ok_upd_fields [simp]:
  "shards_ok (t\<lparr>st_tracked_keys := n\<rparr>) = shards_ok t"
  "shards_ok (t\<lparr>st_operations := n'\<rparr>) = shards_ok t"
  by (simp_all add: shards_ok_def shard_index_def)

lemma shards_ok_put:
  assumes ok: "shards_ok t"
  shows "shards_ok (put_key_state d s t)"
  unfolding put_key_state_def
proof (rule shards_ok_update [OF ok])
  let ?k = "shard_index t d"
  show k: "?k < length (st_shards t)" using ok by (simp add: shards_ok_def)
  show "distinct (map fst (AList.update d s (st_shards t ! ?k)))"
    using ok k unfolding shards_ok_def by (blast intro: distinct_update)
  show "\<forall>d' \<in> fst ` set (AList.update d s (st_shards t ! ?k)). shard_index t d' = ?k"
    using ok k unfolding shards_ok_def dom_update by blast
qed

lemma length_update_known:
  "map_of xs d = Some s \<Longrightarrow> length (AList.update d v xs) = length xs"
  by (induction xs) auto

lemma length_update_new:
  "map_of xs d = None \<Longrightarrow> length (AList.update d v xs) = Suc (length xs)"
  by (induction xs) auto

lemma stored_states_put:
  assumes ok: "shards_ok t"
  shows "stored_states (put_key_state d s t) =
    (if key_state_of d t = None then Suc (stored_states t) else stored_states t)"
proof -
  have k: "shard_index t d < length (st_shards t)" using ok by (simp add: shards_ok_def)
  show ?thesis
    using sum_length_update [OF k, of "AList.update d s (st_shards t ! shard_index t d)"]
    by (cases "key_state_of d t")
      (auto simp: stored_states_def put_key_state_def key_state_of_def length_update_new length_update_known)
qed

lemma lookup_state_eq:
  "lookup_state d now_ms t =
     map_option (\<lambda>s. put_key_state d (s\<lparr>ks_last_seen_ms := now_ms, ks_refs := ks_refs s + 1\<rparr>) t)
       (key_state_of d t)"
  by (simp add: lookup_state_def put_key_state_def key_state_of_def Let_def)

lemma insert_state_eq:
  "insert_state F d now now_ms t =
     (case key_state_of d t of
        Some s \<Rightarrow> (put_key_state d (s\<lparr>ks_last_seen_ms := now_ms, ks_refs := ks_refs s + 1\<rparr>) t)
                    \<lparr>st_tracked_keys := st_tracked_keys t - 1\<rparr>
      | None \<Rightarrow> put_key_state d ((new_key_state F now now_ms)\<lparr>ks_refs := 1\<rparr>) t)"
  by (simp add: insert_state_def lookup_state_eq Let_def put_key_state_def split: option.split)

lemma drop_state_eq:
  "drop_state d t =
     (case key_state_of d t of Some s \<Rightarrow> put_key_state d (s\<lparr>ks_refs := ks_refs s - 1\<rparr>) t | None \<Rightarrow> t)"
  by (simp add: drop_state_def put_key_state_def key_state_of_def Let_def split: option.split)

lemma put_key_state_fields [simp]:
  "st_tracked_keys (put_key_state d s t) = st_tracked_keys t"
  "st_max_tracked_keys (put_key_state d s t) = st_max_tracked_keys t"
  "length (st_shards (put_key_state d s t)) = length (st_shards t)"
  by (simp_all add: put_key_state_def)

lemma table_ok_put_known:
  "table_ok t r \<Longrightarrow> key_state_of d t = Some s' \<Longrightarrow> table_ok (put_key_state d s t) r"
  by (simp add: table_ok_def shards_ok_put stored_states_put)

lemma unat_minus_small:
  fixes a :: "'a::len word"
  assumes "n \<le> unat a"
  shows "unat (a - word_of_nat n) = unat a - n"
proof -
  have "n < 2 ^ LENGTH('a)" by (rule le_less_trans [OF assms unsigned_less])
  then have n: "unat (word_of_nat n :: 'a word) = n" by (simp add: unat_of_nat)
  then have "word_of_nat n \<le> a" using assms by (simp add: word_le_nat_alt)
  then show ?thesis using n by (simp add: unat_sub)
qed

lemma cleanup_shard_ok:
  assumes ok: "table_ok t r" and k: "k < length (st_shards t)"
  shows "table_ok (cleanup_shard k now_ms t) r"
proof -
  let ?shard = "st_shards t ! k"
  let ?kept = "filter (\<lambda>(_, s). keep_state (st_state_ttl t) now_ms s) ?shard"
  let ?removed = "length ?shard - length ?kept"
  let ?t = "t\<lparr>st_shards := (st_shards t)[k := ?kept]\<rparr>"
  have sh: "shards_ok ?t"
    using ok k by (intro shards_ok_update) (auto simp: table_ok_def shards_ok_def distinct_map_filter)
  have le: "length ?kept \<le> length ?shard" by simp
  have len: "stored_states ?t + length ?shard = stored_states t + length ?kept"
    using sum_length_update [OF k, of ?kept] by (simp add: stored_states_def)
  have bound: "?removed \<le> unat (st_tracked_keys t)"
    using ok len le by (simp add: table_ok_def)
  have tracked: "unat (st_tracked_keys t - word_of_nat ?removed) = stored_states ?t + r"
    unfolding unat_minus_small [OF bound] using ok len le by (simp add: table_ok_def)
  have "cleanup_shard k now_ms t = ?t\<lparr>st_tracked_keys := st_tracked_keys t - word_of_nat ?removed\<rparr>"
    by (cases "?removed = 0") (simp_all add: cleanup_shard_def Let_def)
  moreover have "st_tracked_keys t - word_of_nat ?removed \<le> st_max_tracked_keys t"
    unfolding word_le_nat_alt unat_minus_small [OF bound]
    using ok by (simp only: table_ok_def word_le_nat_alt) linarith
  ultimately show ?thesis
    using sh tracked by (simp add: table_ok_def stored_states_def)
qed

lemma reserve_state_slot_ok:
  assumes "table_ok t r" "reserve_state_slot t = Some t'"
  shows "table_ok t' (Suc r)"
proof -
  have lt: "st_tracked_keys t < st_max_tracked_keys t" and t': "t' = t\<lparr>st_tracked_keys := st_tracked_keys t + 1\<rparr>"
    using assms(2) by (auto simp: reserve_state_slot_def split: if_splits)
  then show ?thesis
    using assms(1) unat_Suc_below [OF lt]
    by (simp add: table_ok_def stored_states_def word_le_nat_alt word_less_nat_alt)
qed

lemma insert_state_ok:
  assumes ok: "table_ok t (Suc r)"
  shows "table_ok (insert_state F d now now_ms t) r"
proof (cases "key_state_of d t")
  case None
  then show ?thesis
    using ok by (simp add: insert_state_eq table_ok_def shards_ok_put stored_states_put)
next
  case (Some s)
  have "unat (st_tracked_keys t - 1) = unat (st_tracked_keys t) - 1"
    using ok unat_minus_small [of 1 "st_tracked_keys t"] by (simp add: table_ok_def)
  then show ?thesis
    using ok Some by (simp add: insert_state_eq table_ok_def shards_ok_put stored_states_put word_le_nat_alt
        stored_states_def [of "put_key_state _ _ _\<lparr>st_tracked_keys := _\<rparr>"] stored_states_def [symmetric])
qed

lemma table_step_ok:
  assumes "table_ok t r"
  shows "table_ok (fst (table_step F e (t, r))) (snd (table_step F e (t, r)))"
proof (cases e)
  case Reserve_Slot
  then show ?thesis using assms reserve_state_slot_ok by (auto split: option.split)
next
  case (Insert_State d now now_ms)
  then show ?thesis using assms insert_state_ok by (cases r) auto
qed (use assms cleanup_shard_ok table_ok_put_known in
  \<open>auto simp: lookup_state_eq drop_state_eq split: option.split\<close>)

lemma table_ok_empty: "table_ok (empty_table ttl n) 0"
  by (simp add: table_ok_def shards_ok_def stored_states_def empty_table_def STATE_SHARDS_def)

lemma table_step_max: "st_max_tracked_keys (fst (table_step F e (t, r))) = st_max_tracked_keys t"
  by (cases e) (auto simp: lookup_state_eq drop_state_eq insert_state_eq reserve_state_slot_def
      cleanup_shard_def Let_def split: option.split)

lemma table_run_ok:
  "table_ok t r \<Longrightarrow>
   table_ok (fst (fold (table_step F) es (t, r))) (snd (fold (table_step F) es (t, r))) \<and>
   st_max_tracked_keys (fst (fold (table_step F) es (t, r))) = st_max_tracked_keys t"
proof (induction es arbitrary: t r)
  case (Cons e es)
  show ?case
    using Cons.IH [OF table_step_ok [OF Cons.prems]] by (simp add: table_step_max)
qed simp

lemma key_state_of_put:
  assumes "shards_ok t"
  shows "key_state_of d' (put_key_state d s t) = (if d' = d then Some s else key_state_of d' t)"
proof -
  have k: "shard_index t d < length (st_shards t)" using assms by (simp add: shards_ok_def)
  have i: "shard_index (put_key_state d s t) d' = shard_index t d'"
    by (rule shard_index_cong) simp
  show ?thesis
    unfolding key_state_of_def i using k
    by (cases "shard_index t d' = shard_index t d")
      (auto simp: put_key_state_def update_conv nth_list_update)
qed

lemma key_state_of_cleanup:
  assumes ok: "shards_ok t" and s: "key_state_of d t = Some s" and keep: "keep_state (st_state_ttl t) now_ms s"
    and k: "k < length (st_shards t)"
  shows "key_state_of d (cleanup_shard k now_ms t) = Some s"
proof -
  let ?kept = "filter (\<lambda>(_, s). keep_state (st_state_ttl t) now_ms s) (st_shards t ! k)"
  have shards: "st_shards (cleanup_shard k now_ms t) = (st_shards t)[k := ?kept]"
    by (simp add: cleanup_shard_def Let_def)
  have i: "shard_index (cleanup_shard k now_ms t) d = shard_index t d"
    by (rule shard_index_cong) (simp add: shards)
  show ?thesis
  proof (cases "shard_index t d = k")
    case True
    have "(d, s) \<in> set ?kept"
      using s keep True by (auto simp: key_state_of_def dest: map_of_SomeD)
    moreover have "distinct (map fst ?kept)"
      using ok k by (auto simp: shards_ok_def distinct_map_filter)
    ultimately have "map_of ?kept d = Some s" by simp
    then show ?thesis unfolding key_state_of_def i shards using True k by simp
  next
    case False
    then show ?thesis unfolding key_state_of_def i shards using s by (simp add: key_state_of_def)
  qed
qed

definition in_use :: "'f key_state \<Rightarrow> bool" where
  "in_use s \<longleftrightarrow> 0 < ks_refs s \<or> \<not> gate_is_idle (ks_gate s)"

fun touches_gate :: "key_digest \<Rightarrow> table_event \<Rightarrow> bool" where
  "touches_gate d (Use_Gate d' _) \<longleftrightarrow> d' = d"
| "touches_gate _ _ \<longleftrightarrow> False"

lemma table_step_keeps_in_use:
  assumes ok: "shards_ok t" and s: "key_state_of d t = Some s" "in_use s"
  shows "\<exists>s'. key_state_of d (fst (table_step F e (t, r))) = Some s' \<and>
    (\<not> touches_gate d e \<longrightarrow> ks_gate s' = ks_gate s)"
proof -
  have fields: "key_state_of d (t\<lparr>st_tracked_keys := n\<rparr>) = key_state_of d t" for t :: "'a state_table" and n
    by (simp add: key_state_of_def shard_index_def)
  show ?thesis
  proof (cases e)
    case (Clean_Shard k now_ms)
    have "keep_state (st_state_ttl t) now_ms s" using s by (simp add: keep_state_def in_use_def)
    then show ?thesis using Clean_Shard s key_state_of_cleanup [OF ok s(1)] by simp
  qed (use s in \<open>auto simp: lookup_state_eq drop_state_eq insert_state_eq reserve_state_slot_def
      key_state_of_put [OF ok] fields split: option.split\<close>)
qed

text \<open>\<open>state_for\<close> run by one task alone is such a sequence.\<close>

lemma cleanup_shard_length [simp]:
  "length (st_shards (cleanup_shard k now_ms t)) = length (st_shards t)"
  by (simp add: cleanup_shard_def Let_def)

lemma cleanup_each_ok:
  "table_ok t r \<Longrightarrow> \<forall>k \<in> set ks. k < length (st_shards t) \<Longrightarrow>
   table_ok (fold (\<lambda>k. cleanup_shard k now_ms) ks t) r"
  by (induction ks arbitrary: t) (simp_all add: cleanup_shard_ok)

lemma cleanup_all_ok: "table_ok t r \<Longrightarrow> table_ok (cleanup_all now_ms t) r"
  unfolding cleanup_all_def by (rule cleanup_each_ok) simp_all

lemma count_operation_ok:
  assumes "table_ok t r"
  shows "table_ok (count_operation d now_ms t) r"
proof -
  have "table_ok (t\<lparr>st_operations := n\<rparr>) r" for n
    using assms by (simp add: table_ok_def stored_states_def)
  moreover have "st_shards t \<noteq> []" using assms by (simp add: table_ok_def shards_ok_def)
  ultimately show ?thesis by (simp add: count_operation_def Let_def cleanup_shard_ok)
qed

lemma insert_state_found:
  "shards_ok t \<Longrightarrow> \<exists>s. key_state_of d (insert_state F d now now_ms t) = Some s \<and> 0 < ks_refs s"
  using key_state_of_put [of t d d]
  by (auto simp: insert_state_eq key_state_of_def shard_index_def split: option.split)

lemma state_for_spec:
  assumes ok: "table_ok t 0" and out: "state_for F d now now_ms t = (res, t')"
  shows "table_ok t' 0 \<and>
    (case res of
       None \<Rightarrow> \<exists>s. key_state_of d t' = Some s \<and> 0 < ks_refs s
     | Some rejection \<Rightarrow> rejection = rejection_state_capacity 1 \<and> st_tracked_keys t' = st_max_tracked_keys t')"
proof -
  let ?t1 = "count_operation d now_ms t" and ?t2 = "cleanup_all now_ms (count_operation d now_ms t)"
  have t1: "table_ok ?t1 0" by (rule count_operation_ok [OF ok])
  have t2: "table_ok ?t2 0" by (rule cleanup_all_ok [OF t1])
  have sh: "shards_ok u" if "table_ok u r" for u :: "('a, 'b) state_table_scheme" and r
    using that by (simp add: table_ok_def)
  have ins: "table_ok (insert_state F d now now_ms u') 0 \<and>
      (\<exists>s. key_state_of d (insert_state F d now now_ms u') = Some s \<and> 0 < ks_refs s)"
    if "table_ok u 0" "reserve_state_slot u = Some u'" for u u' :: "('a, 'b) state_table_scheme"
    using reserve_state_slot_ok [OF that] insert_state_ok insert_state_found sh by blast
  show ?thesis
  proof (cases "key_state_of d ?t1")
    case (Some s)
    then show ?thesis
      using out t1 table_ok_put_known [OF t1 Some] key_state_of_put [OF sh [OF t1], of d d]
      by (auto simp: state_for_def Let_def lookup_state_eq)
  next
    case None
    show ?thesis
    proof (cases "reserve_state_slot ?t1")
      case (Some u)
      then show ?thesis
        using out None ins [OF t1 Some] by (auto simp: state_for_def Let_def lookup_state_eq)
    next
      case full: None
      show ?thesis
      proof (cases "reserve_state_slot ?t2")
        case (Some u)
        then show ?thesis
          using out None full ins [OF t2 Some] by (auto simp: state_for_def Let_def lookup_state_eq)
      next
        case still: None
        then have "st_tracked_keys ?t2 = st_max_tracked_keys ?t2"
          using t2 by (auto simp: reserve_state_slot_def table_ok_def split: if_splits)
        then show ?thesis
          using out None full still t2 by (auto simp: state_for_def Let_def lookup_state_eq)
      qed
    qed
  qed
qed

subsection \<open>Properties\<close>

text \<open>
  The table of key states is bounded and its counter exact.  Whatever tasks look keys up,
  reserve slots, insert states and clean shards at the same time, the counter is the number of
  states in the table and of slots reserved but not yet filled, it stays within the limit, and no
  key has two states.
\<close>

theorem tracked_keys_are_exact:
  assumes "table_run F es (empty_table ttl max_keys) = (t, reserved)"
  shows "unat (st_tracked_keys t) = stored_states t + reserved \<and>
    unat (st_tracked_keys t) \<le> unat (max max_keys 1) \<and>
    (\<forall>k < length (st_shards t). distinct (map fst (st_shards t ! k)))"
proof -
  have "table_ok t reserved \<and> st_max_tracked_keys t = max max_keys 1"
    using table_run_ok [OF table_ok_empty, of F es ttl max_keys] assms
    by (simp add: table_run_def empty_table_def)
  then show ?thesis unfolding table_ok_def shards_ok_def word_le_nat_alt by metis
qed

definition unit_f64_conv :: "unit f64_conv" where
  "unit_f64_conv = f64.extend unit_f64 \<lparr>f_is_finite = \<lambda>_. True, f_from_secs = \<lambda>_. Some 0\<rparr>"

text \<open>Exact integers as an instance of the float operations.\<close>

definition int_f64 :: "int f64_conv" where
  "int_f64 = \<lparr>f_lit = \<lambda>n d. int n div int d, f_of_nat = int, f_of_int = id, f_add = (+), f_sub = (-),
     f_mul = (*), f_div = (div), f_max = max, f_min = min, f_clamp = clamp, f_powf = (\<lambda>x y. x ^ nat y),
     f_ln_1p = id, f_less = (<), f_le = (\<le>), f_eq = (=), f_is_nan = \<lambda>_. False,
     f_is_finite = \<lambda>_. True, f_from_secs = \<lambda>x. if x < 0 then None else Some (secs (nat x))\<rparr>"

definition two_tasks :: "table_event list" where
  "two_tasks = [Reserve_Slot, Reserve_Slot, Insert_State [1] 0 0, Insert_State [1] 0 0]"

theorem tracked_keys_are_exact_witness:
  "unat (st_tracked_keys (fst (table_run unit_f64_conv two_tasks (empty_table 0 2)))) = 1"
proof -
  let ?out = "table_run unit_f64_conv two_tasks (empty_table 0 2)"
  have "snd ?out = 0" "stored_states (fst ?out) = 1"
    by code_simp+
  then show ?thesis
    using tracked_keys_are_exact [OF prod.collapse [symmetric], of unit_f64_conv two_tasks 0 2] by simp
qed

text \<open>C29. 
  A key state in use is never evicted.  In any such run a state with a clone alive, or whose
  gate has a request inside or in the queue, survives every step of every task with its gate as
  it is, so that neither the clean-up nor a concurrent insertion can reset the limits of a key
  that has requests.
\<close>

theorem key_state_in_use_is_kept:
  assumes "table_run F es (empty_table ttl max_keys) = (t, reserved)"
    and "key_state_of d t = Some s" and "in_use s"
  shows "\<exists>s'. key_state_of d (fst (table_step F e (t, reserved))) = Some s' \<and>
    (ks_gate s' = ks_gate s \<or> touches_gate d e)"
proof -
  have "shards_ok t"
    using table_run_ok [OF table_ok_empty, of F es ttl max_keys] assms(1)
    by (simp add: table_run_def table_ok_def)
  then show ?thesis using table_step_keeps_in_use [OF _ assms(2,3), of F e reserved] by blast
qed

theorem key_state_in_use_is_kept_witness:
  "\<exists>s'. key_state_of [1] (fst (table_step unit_f64_conv (Clean_Shard 1 1000)
      (table_run unit_f64_conv [Reserve_Slot, Insert_State [1] 0 0] (empty_table 0 2)))) = Some s' \<and>
    ks_gate s' = concurrency_gate_default"
proof -
  let ?out = "table_run unit_f64_conv [Reserve_Slot, Insert_State [1] 0 0] (empty_table 0 2)"
  let ?s = "(new_key_state unit_f64_conv 0 0)\<lparr>ks_refs := 1\<rparr>"
  have s: "key_state_of [1] (fst ?out) = Some ?s"
    by (simp add: table_run_def empty_table_def STATE_SHARDS_def reserve_state_slot_def key_state_of_def
        insert_state_def lookup_state_def shard_index_def word_less_nat_alt)
  show ?thesis
    using key_state_in_use_is_kept [of unit_f64_conv "[Reserve_Slot, Insert_State [1] 0 0]" 0 2 "fst ?out"
        "snd ?out", OF _ s, of "Clean_Shard 1 1000"]
    by (simp add: in_use_def new_key_state_def)
qed

lemma acquire_with_state_spec:
  assumes "table_ok c 0" "key_state_of d c = Some s" "acquire_with_state F now_ms now config d s c = (out, c')"
  shows "table_ok c' 0 \<and>
    (case out of
       Start_Disabled \<Rightarrow> False
     | Start_Rejected r \<Rightarrow> 1 \<le> rej_retry_after_secs r \<and> rej_kind r \<in> {LocalTemporaryBackoff, Rpm}
     | Start_Uncounted \<Rightarrow> ra_max_concurrent_requests config = 0
     | Start_Gate cfg \<Rightarrow> cfg = config \<and> ra_max_concurrent_requests config \<noteq> 0
     | Start_Panics \<Rightarrow> 0 < ra_rpm config \<and> fst (reserve_rpm F (rac_rpm_window c) (ra_rpm config) now d (ks_rpm s)) = Panic)"
proof (cases "local_temporary_backoff_rejection now_ms d s")
  case None
  let ?r = "reserve_rpm F (rac_rpm_window c) (ra_rpm config) now d (ks_rpm s)"
  have err: "1 \<le> rej_retry_after_secs x \<and> rej_kind x = Rpm" if "fst ?r = Err x" for x
    using that by (auto simp: reserve_rpm_def Let_def rejection_for_key_def split: if_splits option.splits)
  show ?thesis
    using assms None err table_ok_put_known [OF assms(1,2)]
    by (cases ?r; cases "fst ?r") (auto simp: acquire_with_state_def Let_def word_gt_0 split: if_splits)
next
  case (Some x)
  then show ?thesis
    using assms by (auto simp: acquire_with_state_def local_temporary_backoff_rejection_def
        rejection_for_key_def split: if_splits)
qed

text \<open>
  The start of an acquisition always has an answer, and the right one.  A key without limits
  passes untouched; otherwise the request is rejected because the table is full, because of the
  back-off or the per-minute limit, always with at least a second to wait, or it goes on to the
  concurrency gate with the policy it was read under exactly when that policy limits concurrency.
  The table is left consistent, and the code panics only where \<open>Duration::from_secs_f64\<close> does.
\<close>

theorem acquisition_starts_with_the_right_answer:
  assumes ok: "table_ok c 0" and out: "acquire_start F now1 now1_ms now2_ms now3 d c = (out, c')"
  shows "table_ok c' 0 \<and>
    (case out of
       Start_Disabled \<Rightarrow> \<not> admission_enabled (policy_for d c) \<and> c' = c
     | Start_Rejected r \<Rightarrow> admission_enabled (policy_for d c) \<and> 1 \<le> rej_retry_after_secs r \<and>
         (rej_kind r = StateCapacity \<and> st_tracked_keys c' = st_max_tracked_keys c' \<or>
          rej_kind r \<in> {LocalTemporaryBackoff, Rpm})
     | Start_Uncounted \<Rightarrow> ra_max_concurrent_requests (policy_for d c) = 0
     | Start_Gate cfg \<Rightarrow> cfg = policy_for d c \<and> ra_max_concurrent_requests cfg \<noteq> 0
     | Start_Panics \<Rightarrow> (\<exists>w b. fst (reserve_rpm F w (ra_rpm (policy_for d c)) now3 d b) = Panic))"
proof (cases "admission_enabled (policy_for d c)")
  case True
  obtain res c1 where s: "state_for F d now1 now1_ms c = (res, c1)" by fastforce
  note spec = state_for_spec [OF ok s]
  show ?thesis
  proof (cases res)
    case None
    then obtain x where x: "key_state_of d c1 = Some x" using spec by auto
    then have "acquire_with_state F now2_ms now3 (policy_for d c) d x c1 = (out, c')"
      using out True s None by (simp add: acquire_start_def)
    from acquire_with_state_spec [OF _ x this] spec True show ?thesis
      by (auto split: acquire_outcome.splits)
  next
    case (Some r)
    then show ?thesis
      using out True s spec by (auto simp: acquire_start_def rejection_state_capacity_def)
  qed
qed (use assms in \<open>auto simp: acquire_start_def\<close>)

definition example_controller :: "int request_admission_controller" where
  "example_controller = new_request_admission int_f64 0
     \<lparr>ra_rpm = 0, ra_max_concurrent_requests = 2, ra_max_queued_requests = 4, ra_queue_timeout_ms = 1000\<rparr>"

theorem acquisition_starts_with_the_right_answer_witness:
  "\<exists>c'. acquire_start int_f64 0 0 0 0 [1] example_controller =
     (Start_Gate (policy_for [1] example_controller), c') \<and> table_ok c' 0"
proof -
  let ?out = "acquire_start int_f64 0 0 0 0 [1] example_controller"
  have "table_ok example_controller 0"
    by (simp add: table_ok_def shards_ok_def stored_states_def example_controller_def new_request_admission_def
        with_runtime_bounds_and_log_policy_def STATE_SHARDS_def Let_def)
  moreover have "fst ?out = Start_Gate (policy_for [1] example_controller)"
    by (simp add: acquire_start_def acquire_with_state_def policy_for_def example_controller_def
        new_request_admission_def with_runtime_bounds_and_log_policy_def normalized_admission_def
        admission_enabled_def state_for_def count_operation_def cleanup_shard_def lookup_state_def
        reserve_state_slot_def insert_state_def key_state_of_def shard_index_def STATE_SHARDS_def
        CLEANUP_INTERVAL_def MAX_REQUEST_API_KEY_RPM_def MAX_REQUEST_API_KEY_CONCURRENT_REQUESTS_def
        MAX_REQUEST_API_KEY_QUEUED_REQUESTS_def MAX_REQUEST_API_KEY_QUEUE_TIMEOUT_MS_def
        DEFAULT_MAX_TRACKED_KEYS_def local_temporary_backoff_rejection_def new_key_state_def Let_def
        word_less_nat_alt word_le_nat_alt min_def max_def)
  moreover have "table_ok (snd ?out) 0"
    using acquisition_starts_with_the_right_answer [OF calculation(1) prod.collapse [symmetric]] by (rule conjunct1)
  ultimately show ?thesis by (intro exI [of _ "snd ?out"] conjI) (simp_all only: prod_eq_iff fst_conv snd_conv)
qed

subsubsection \<open>The per-minute limit\<close>

text \<open>
  What is used of IEEE arithmetic: the integers up to 32 are exact, so their comparison, minimum
  and difference are those of the integers, and adding zero times a rate changes nothing.
\<close>

definition small_integers_exact :: "('f, 'm) f64_scheme \<Rightarrow> bool" where
  "small_integers_exact F \<longleftrightarrow>
     f_lit F 1 1 = f_of_nat F 1 \<and>
     (\<forall>n \<le> 32. f_le F (f_of_nat F 1) (f_of_nat F n) \<longleftrightarrow> 1 \<le> n) \<and>
     (\<forall>n < 32. f_sub F (f_of_nat F (Suc n)) (f_of_nat F 1) = f_of_nat F n) \<and>
     (\<forall>m \<le> 32. \<forall>n \<le> 32. f_min F (f_of_nat F m) (f_of_nat F n) = f_of_nat F (min m n)) \<and>
     (\<forall>n \<le> 32. \<forall>w limit. f_add F (f_of_nat F n)
        (f_mul F (as_secs_f64 F 0) (rpm_refill_per_second F w limit)) = f_of_nat F n)"

text \<open>A burst: \<open>n\<close> requests at the same instant; how many were let through.\<close>

fun rpm_burst :: "'f f64_conv \<Rightarrow> duration \<Rightarrow> u32 \<Rightarrow> instant \<Rightarrow> key_digest \<Rightarrow> nat \<Rightarrow> 'f rpm_bucket \<Rightarrow> nat" where
  "rpm_burst F w limit now d 0 b = 0"
| "rpm_burst F w limit now d (Suc n) b =
     (case reserve_rpm F w limit now d b of
        (res, b') \<Rightarrow> (if res = Ok () then 1 else 0) + rpm_burst F w limit now d n b')"

lemma rpm_burst_from:
  assumes F: "small_integers_exact F" and b: "rb_limit b = limit" "rb_last_refill b = now"
      "rb_tokens b = f_of_nat F k" "k \<le> unat (min limit MAX_RPM_BURST)"
  shows "rpm_burst F w limit now d n b = min n k"
  using b
proof (induction n arbitrary: b k)
  case (Suc n)
  let ?c = "unat (min limit MAX_RPM_BURST)"
  have c: "?c \<le> 32" by (simp add: MAX_RPM_BURST_def word_le_nat_alt min_def)
  have refill: "refill_rpm F w limit now b = b"
  proof -
    have "f_min F (f_add F (f_of_nat F k) (f_mul F (as_secs_f64 F 0) (rpm_refill_per_second F w limit))) (f_of_nat F ?c)
        = f_of_nat F k"
      using F Suc.prems(4) c by (simp add: small_integers_exact_def min_absorb1)
    then show ?thesis using Suc.prems by (simp add: refill_rpm_def Let_def)
  qed
  show ?case
  proof (cases k)
    case 0
    have "\<not> f_le F (f_lit F 1 1) (f_of_nat F 0)"
      using F unfolding small_integers_exact_def by (metis not_one_le_zero zero_le)
    then obtain r where r: "reserve_rpm F w limit now d b = (r, b)" "r \<noteq> Ok ()"
      using Suc.prems(3) 0 refill by (cases "f_from_secs F (f_div F (f_max F (f_sub F (f_lit F 1 1) (rb_tokens b))
        (f_lit F 0 1)) (rpm_refill_per_second F w limit))") (auto simp: reserve_rpm_def Let_def)
    then show ?thesis using Suc.IH [OF Suc.prems] 0 by simp
  next
    case (Suc k')
    then have "f_le F (f_lit F 1 1) (f_of_nat F k)" "f_sub F (f_of_nat F k) (f_lit F 1 1) = f_of_nat F k'"
      using F Suc.prems(4) c by (simp_all add: small_integers_exact_def)
    then have "reserve_rpm F w limit now d b = (Ok (), b\<lparr>rb_tokens := f_of_nat F k'\<rparr>)"
      using Suc.prems(3) refill by (simp add: reserve_rpm_def)
    then show ?thesis
      using Suc.IH [of "b\<lparr>rb_tokens := f_of_nat F k'\<rparr>" k'] Suc.prems Suc by simp
  qed
qed simp

text \<open>
  A burst is bounded.  Of any number of requests that arrive at the same instant for a key
  that was not rate limited before, exactly \<open>min limit 32\<close> are let through (all of them if there
  are fewer), whatever the window; the rest is rejected.
\<close>

theorem rpm_burst_is_bounded:
  assumes F: "small_integers_exact F" and "limit \<noteq> 0" and "rb_limit b = 0"
  shows "rpm_burst F w limit now d n b = min n (unat (min limit MAX_RPM_BURST))"
proof (cases n)
  case (Suc m)
  let ?c = "unat (min limit MAX_RPM_BURST)"
  let ?b = "\<lparr>rb_last_refill = now, rb_tokens = f_of_nat F ?c, rb_limit = limit\<rparr>"
  have refill: "refill_rpm F w limit now b = ?b"
    using assms(2,3) by (simp add: refill_rpm_def Let_def)
  have again: "refill_rpm F w limit now ?b = ?b"
  proof -
    have "?c \<le> 32" by (simp add: MAX_RPM_BURST_def word_le_nat_alt min_def)
    then show ?thesis using F by (simp add: refill_rpm_def Let_def small_integers_exact_def)
  qed
  have "reserve_rpm F w limit now d b = reserve_rpm F w limit now d ?b"
    by (simp add: reserve_rpm_def refill again)
  then have "rpm_burst F w limit now d n b = rpm_burst F w limit now d n ?b" using Suc by simp
  also have "\<dots> = min n ?c" by (rule rpm_burst_from [OF F]) simp_all
  finally show ?thesis .
qed simp

lemma int_f64_exact: "small_integers_exact int_f64"
  by (simp add: small_integers_exact_def int_f64_def as_secs_f64_def of_nat_min)

theorem rpm_burst_is_bounded_witness:
  "rpm_burst int_f64 (secs 60) 120 7 [1] 40 \<lparr>rb_last_refill = 0, rb_tokens = 0, rb_limit = 0\<rparr> = 32"
  using rpm_burst_is_bounded [OF int_f64_exact, of 120 "\<lparr>rb_last_refill = 0, rb_tokens = 0, rb_limit = 0\<rparr>"
      "secs 60" 7 "[1]" 40]
  by (simp add: MAX_RPM_BURST_def word_le_nat_alt min_def)

subsubsection \<open>Back-off\<close>

lemma backoff_loop_value:
  "fst (backoff_loop u x others) \<ge> u \<and>
   (fst (backoff_loop u x others) = u \<or> fst (backoff_loop u x others) \<in> set (x # others))"
  by (induction u x others rule: backoff_loop.induct) auto

lemma backoff_until_range:
  assumes "unat now_ms + 8000 < 2 ^ 64"
  shows "unat now_ms + 1000 \<le> unat (backoff_until now_ms retry) \<and>
    unat (backoff_until now_ms retry) \<le> unat now_ms + 8000"
proof -
  let ?d = "clamp LOCAL_TEMPORARY_BACKOFF_MIN LOCAL_TEMPORARY_BACKOFF_MAX retry"
  have "secs 1 \<le> ?d \<and> ?d \<le> secs 8"
    using clamp_bounds [of "secs 1" "secs 8" retry]
    by (simp add: LOCAL_TEMPORARY_BACKOFF_MIN_def LOCAL_TEMPORARY_BACKOFF_MAX_def secs_def)
  then have d: "1000 \<le> ?d div 1000000" "?d div 1000000 \<le> 8000"
    using div_le_mono [of "secs 1" ?d 1000000] div_le_mono [of ?d "secs 8" 1000000] by (simp_all add: secs_def)
  then have "unat (duration_millis_u64 ?d) = ?d div 1000000"
    by (simp add: duration_millis_u64_def unat_of_nat)
  then show ?thesis using d assms by (simp add: backoff_until_def unat_sat_add)
qed

text \<open>
  The temporary back-off is bounded and never shortened.  Whatever other tasks write at the
  same time, the end of the back-off is at least the one asked for, brought into one to eight
  seconds, and nothing but that or a value another task wrote; until then every request of the key is
  turned away, told to wait at least a second, and afterwards none.
\<close>

theorem temporary_backoff_is_bounded:
  assumes "unat now_ms + 8000 < 2 ^ 64" and "apply_backoff now_ms retry others s = (s', stored)"
  shows "unat now_ms + 1000 \<le> unat (ks_backoff_until_ms s') \<and>
    (unat (ks_backoff_until_ms s') \<le> unat now_ms + 8000 \<or>
     ks_backoff_until_ms s' \<in> set (ks_backoff_until_ms s # others)) \<and>
    (case local_temporary_backoff_rejection t_ms d s' of
       None \<Rightarrow> ks_backoff_until_ms s' \<le> t_ms
     | Some r \<Rightarrow> t_ms < ks_backoff_until_ms s' \<and> rej_kind r = LocalTemporaryBackoff \<and>
         1 \<le> rej_retry_after_secs r)"
proof -
  let ?u = "backoff_until now_ms retry"
  have s': "ks_backoff_until_ms s' = fst (backoff_loop ?u (ks_backoff_until_ms s) others)"
    using assms(2) by (auto simp: apply_backoff_def split: prod.splits)
  have "unat ?u \<le> unat (ks_backoff_until_ms s')"
    using backoff_loop_value [of ?u "ks_backoff_until_ms s" others] by (simp add: s' word_le_nat_alt)
  then show ?thesis
    using backoff_loop_value [of ?u "ks_backoff_until_ms s" others] backoff_until_range [OF assms(1), of retry]
    by (auto simp: s' local_temporary_backoff_rejection_def rejection_for_key_def)
qed

theorem temporary_backoff_is_bounded_witness:
  "1000 \<le> unat (ks_backoff_until_ms
     (fst (apply_backoff 0 (secs 30) [] (new_key_state unit_f64_conv 0 0))))"
  using temporary_backoff_is_bounded [OF _ prod.collapse [symmetric],
      of 0 "secs 30" "[]" "new_key_state unit_f64_conv 0 0" 0 "[]"]
  by simp

subsubsection \<open>The log of rejections\<close>

text \<open>A sequence of rejections, each with the two clock readings, its reason and its count.\<close>

type_synonym rejection_entry = "instant \<times> u64 \<times> request_rejection_reason \<times> u64"

fun log_rejections :: "('f, 'm) f64_scheme \<Rightarrow> rejection_entry list \<Rightarrow> 'f rejection_log \<Rightarrow>
    'f rejection_log \<times> rejection_line list" where
  "log_rejections F [] l = (l, [])"
| "log_rejections F ((now, now_ms, reason, count) # es) l =
     (case log_rejection F now now_ms reason count l of (_, l', lines) \<Rightarrow>
        (case log_rejections F es l' of (l'', lines') \<Rightarrow> (l'', lines @ lines')))"

fun line_weight :: "rejection_line \<Rightarrow> nat" where
  "line_weight (Detailed_Line _ _) = 1"
| "line_weight (Summary_Line n) = unat n"

definition reported :: "rejection_line list \<Rightarrow> nat" where
  "reported lines = sum_list (map line_weight lines)"

lemma reported_simps [simp]:
  "reported [] = 0" "reported (x # xs) = line_weight x + reported xs"
  "reported (xs @ ys) = reported xs + reported ys"
  by (simp_all add: reported_def)

lemma summary_accounts:
  "maybe_emit_rejection_log_summary now_ms l = (l', lines) \<Longrightarrow>
   reported lines + unat (rl_suppressed l') = unat (rl_suppressed l)"
  by (auto simp: maybe_emit_rejection_log_summary_def split: if_splits)

lemma log_rejection_accounts:
  assumes out: "log_rejection F now now_ms reason count l = (sample, l', lines)"
    and small: "unat (rl_suppressed l) < 2 ^ 64 - 1"
  shows "reported lines + unat (rl_suppressed l') =
    unat (rl_suppressed l) + (if sampled_count count then 1 else 0)"
proof -
  obtain l1 lines1 where s: "maybe_emit_rejection_log_summary now_ms l = (l1, lines1)" by fastforce
  have acc: "reported lines1 + unat (rl_suppressed l1) = unat (rl_suppressed l)"
    by (rule summary_accounts [OF s])
  have "rl_suppressed l1 < - 1"
    using acc small by (simp add: word_less_nat_alt unsigned_minus_1_eq_mask mask_eq_exp_minus_1)
  then have "unat (rl_suppressed l1 + 1) = Suc (unat (rl_suppressed l1))" by (rule unat_Suc_below)
  then show ?thesis
    using out s acc by (auto simp: log_rejection_def Let_def split: if_splits prod.splits)
qed

lemma log_rejections_account:
  assumes "log_rejections F es l = (l', lines)" and "unat (rl_suppressed l) + length es < 2 ^ 64"
  shows "reported lines + unat (rl_suppressed l') =
    unat (rl_suppressed l) + length (filter (\<lambda>(_, _, _, count). sampled_count count) es)"
  using assms
proof (induction es arbitrary: l l' lines)
  case (Cons e es)
  obtain now now_ms reason count where e: "e = (now, now_ms, reason, count)" by (metis prod_cases4)
  obtain sample l1 lines1 where h: "log_rejection F now now_ms reason count l = (sample, l1, lines1)"
    by (metis prod_cases3)
  obtain l2 lines2 where r: "log_rejections F es l1 = (l2, lines2)" by fastforce
  have acc: "reported lines1 + unat (rl_suppressed l1) = unat (rl_suppressed l) + (if sampled_count count then 1 else 0)"
    using Cons.prems(2) by (intro log_rejection_accounts [OF h]) simp
  then have "unat (rl_suppressed l1) + length es < 2 ^ 64"
    using Cons.prems(2) by (simp split: if_splits)
  from Cons.IH [OF r this] acc Cons.prems(1) e h r show ?case by auto
qed simp

text \<open>
  No sampled rejection goes unreported.  Of a sequence of rejections, those whose count is at
  most eight or a power of two are each accounted for exactly once: by a line of their own, in
  the number of a summary line, or among those still waiting for the next summary.  (Fewer than
  $2^{64}$ rejections.)
\<close>

theorem sampled_rejections_are_accounted_for:
  assumes "log_rejections F es l = (l', lines)" and "rl_suppressed l = 0" and "length es < 2 ^ 64"
  shows "length (filter (\<lambda>(_, _, _, count). sampled_count count) es) =
    reported lines + unat (rl_suppressed l')"
  using log_rejections_account [OF assms(1)] assms(2,3) by simp

definition example_log :: "int rejection_log" where
  "example_log = \<lparr>rl_policy = \<lparr>rlp_capacity = 1, rlp_refill_per_second = 0, rlp_summary_interval = secs 30\<rparr>,
     rl_bucket = \<lparr>ltb_tokens = 1, ltb_last_refill = 0\<rparr>, rl_suppressed = 0, rl_next_summary_ms = 30000,
     rl_detailed_emitted = 0, rl_summaries_emitted = 0, rl_budget_lock_acquisitions = 0\<rparr>"

definition example_rejections :: "rejection_entry list" where
  "example_rejections = [(0, 0, AdmissionRpm, 1), (0, 0, AdmissionRpm, 2), (0, 40000, AdmissionRpm, 11)]"

theorem sampled_rejections_are_accounted_for_witness:
  "reported (snd (log_rejections int_f64 example_rejections example_log)) +
   unat (rl_suppressed (fst (log_rejections int_f64 example_rejections example_log))) = 2"
proof -
  have "length (filter (\<lambda>(_, _, _, count). sampled_count count) example_rejections) = 2" by code_simp
  then show ?thesis
    using sampled_rejections_are_accounted_for [where F = int_f64 and es = example_rejections and
        l = example_log, OF prod.collapse [symmetric]]
    by (simp add: example_log_def example_rejections_def)
qed

subsubsection \<open>Permits and names\<close>

lemma body_drops_None [simp]: "body_drops None rs = []"
  by (induction rs) (auto simp: permit_poll_frame_def)

lemma body_drops_Some: "body_drops (Some p) rs = [p]"
  by (induction rs) (auto simp: permit_poll_frame_def)

text \<open>
  The permit of a response is given back exactly once, however the body is polled: when the
  response is wrapped if the permit does not count, else at the end of the stream, at an error,
  or when the body is dropped.
\<close>

theorem response_permit_is_dropped_once:
  "snd (response_holding_permit p) @ body_drops (fst (response_holding_permit p)) rs = [p]"
  by (simp add: response_holding_permit_def body_drops_Some)

definition all_reasons :: "request_rejection_reason list" where
  "all_reasons = [AdmissionRpm, AdmissionConcurrencyFull, AdmissionQueueFull, AdmissionQueueTimeout,
     AdmissionStateCapacity, BodyTooLarge, BodyReadFailed, RequestEntryInvalid,
     StrictRequestProtocolContamination, DfcacheRouteInvalid, ProviderNotReady, MultimodalInvalid,
     ModelUnsupported, WebSearchUnsupported, LocalRouteBlocked, LocalBodyPrepare, LocalPoolUnavailable,
     LocalPoolTemporaryUnavailable, AdmissionLocalTemporaryBackoff, KeyUsageLimitExceeded,
     KeyUsageLimitUnavailable]"

lemma all_reasons_UNIV: "set all_reasons = UNIV"
proof -
  have "r \<in> set all_reasons" for r by (cases r) (simp_all add: all_reasons_def)
  then show ?thesis by blast
qed

lemma distinct_map_inj: "distinct (map f xs) \<Longrightarrow> set xs = UNIV \<Longrightarrow> inj f"
  by (simp add: distinct_map)

text \<open>
  Rejection reasons are told apart: every reason has a slot of its own in the array of
  counters of a key, all slots are used and none lies outside, and no two reasons share the name
  that is logged and stored.
\<close>

theorem rejection_reasons_are_told_apart:
  "bij_betw reason_index UNIV {..<REQUEST_REJECTION_REASON_COUNT} \<and> inj reason_str"
proof -
  have idx: "map reason_index all_reasons = [0..<21]" by code_simp
  have "inj reason_index" by (rule distinct_map_inj [OF _ all_reasons_UNIV]) (simp add: idx)
  moreover have "range reason_index = {..<REQUEST_REJECTION_REASON_COUNT}"
    using arg_cong [OF idx, of set] by (auto simp: all_reasons_UNIV REQUEST_REJECTION_REASON_COUNT_def)
  moreover have "distinct (map reason_str all_reasons)" by code_simp
  then have "inj reason_str" by (rule distinct_map_inj [OF _ all_reasons_UNIV])
  ultimately show ?thesis by (simp add: bij_betw_def)
qed

end
