(* ===== verification/Key_Limits.thy ===== *)
theory Key_Limits
  imports Request_Admission Rust_Str
begin

text \<open>
  Usage limits per request API key (\<open>src/anthropic/request_key_limits.rs\<close>): limits on the billed
  amount, the credits and the tokens per day, per month or in total, the counters in Redis that
  they are checked against, and the admission middleware that consults them first
  (\<open>request_admission_middleware\<close> of \<open>src/anthropic/request_admission.rs\<close>).

  A \<open>DateTime\<close> is a number of nanoseconds since 1970.  The calendar of \<open>chrono\<close> and its
  RFC 3339 text are the parameter \<open>calendar\<close>.  Redis holds numbers as text of its own: writing,
  reading and \<open>HINCRBYFLOAT\<close> on them are the parameter \<open>redis_num\<close>; the scripts of
  \<open>src/storage/redis_cache.rs\<close> that the counters use are modelled on a store of hashes.
\<close>

subsection \<open>Limits\<close>

datatype key_limit_metric = CostUsd | Credits | Tokens
datatype key_limit_period = Daily | Monthly | Total

fun metric_str :: "key_limit_metric \<Rightarrow> string" where
  "metric_str CostUsd = ''cost_usd''"
| "metric_str Credits = ''credits''"
| "metric_str Tokens = ''tokens''"

fun period_str :: "key_limit_period \<Rightarrow> string" where
  "period_str Daily = ''daily''"
| "period_str Monthly = ''monthly''"
| "period_str Total = ''total''"

record 'f key_usage_limit =
  kl_metric :: key_limit_metric
  kl_period :: key_limit_period
  kl_limit :: 'f

definition MAX_LIMITS_PER_KEY :: nat where "MAX_LIMITS_PER_KEY = 9"

datatype key_limits_error =
  Too_Many_Limits | Not_Positive key_limit_period key_limit_metric | Tokens_Not_Whole
| Duplicate_Limit key_limit_period key_limit_metric

text \<open>The loop of \<open>validate_key_limits\<close>; \<open>whole\<close> is \<open>fract() == 0.0\<close>.\<close>

fun validate_limits_from :: "'f f64_conv \<Rightarrow> ('f \<Rightarrow> bool) \<Rightarrow> (key_limit_metric \<times> key_limit_period) set \<Rightarrow>
    'f key_usage_limit list \<Rightarrow> key_limits_error option" where
  "validate_limits_from F whole seen [] = None"
| "validate_limits_from F whole seen (l # ls) =
     (if \<not> f_is_finite F (kl_limit l) \<or> f_le F (kl_limit l) (f_lit F 0 1)
      then Some (Not_Positive (kl_period l) (kl_metric l))
      else if kl_metric l = Tokens \<and> \<not> whole (kl_limit l) then Some Tokens_Not_Whole
      else if (kl_metric l, kl_period l) \<in> seen then Some (Duplicate_Limit (kl_period l) (kl_metric l))
      else validate_limits_from F whole (insert (kl_metric l, kl_period l) seen) ls)"

definition validate_key_limits :: "'f f64_conv \<Rightarrow> ('f \<Rightarrow> bool) \<Rightarrow> 'f key_usage_limit list \<Rightarrow>
    key_limits_error option" where
  "validate_key_limits F whole limits =
     (if MAX_LIMITS_PER_KEY < length limits then Some Too_Many_Limits
      else validate_limits_from F whole {} limits)"

record 'f key_usage_delta =
  kd_cost_usd :: 'f
  kd_credits :: 'f
  kd_tokens :: 'f

fun delta_get :: "'f key_usage_delta \<Rightarrow> key_limit_metric \<Rightarrow> 'f" where
  "delta_get d CostUsd = kd_cost_usd d"
| "delta_get d Credits = kd_credits d"
| "delta_get d Tokens = kd_tokens d"

definition delta_is_empty :: "'f f64_conv \<Rightarrow> 'f key_usage_delta \<Rightarrow> bool" where
  "delta_is_empty F d \<longleftrightarrow>
     list_all (\<lambda>v. \<not> f_is_finite F v \<or> f_le F v (f_lit F 0 1)) [kd_cost_usd d, kd_credits d, kd_tokens d]"

subsection \<open>Windows\<close>

type_synonym date_time = int

text \<open>
  \<open>cal_civil\<close> gives year, month and day of a day number, \<open>cal_first\<close> the day number of the first
  of a month, \<open>cal_day\<close> and \<open>cal_month\<close> the texts of the formats \<open>%Y%m%d\<close> and \<open>%Y%m\<close>,
  \<open>cal_rfc3339\<close> and \<open>cal_parse\<close> the RFC 3339 text and its parser.
\<close>

record calendar =
  cal_civil :: "int \<Rightarrow> int \<times> nat \<times> nat"
  cal_first :: "int \<Rightarrow> nat \<Rightarrow> int"
  cal_day :: "int \<Rightarrow> string"
  cal_month :: "int \<Rightarrow> string"
  cal_rfc3339 :: "date_time \<Rightarrow> string"
  cal_parse :: "string \<Rightarrow> date_time option"

definition NANOS_PER_DAY :: int where "NANOS_PER_DAY = 86400 * 1000000000"

text \<open>\<open>limits_timezone\<close>: eight hours east.\<close>

definition LIMITS_OFFSET :: int where "LIMITS_OFFSET = 8 * 3600 * 1000000000"

definition local_day :: "date_time \<Rightarrow> int" where
  "local_day now = (now + LIMITS_OFFSET) div NANOS_PER_DAY"

definition local_midnight :: "int \<Rightarrow> date_time" where
  "local_midnight day = day * NANOS_PER_DAY - LIMITS_OFFSET"

fun period_window :: "calendar \<Rightarrow> key_limit_period \<Rightarrow> date_time \<Rightarrow> string \<times> date_time option" where
  "period_window C Daily now =
     (cal_day C (local_day now), Some (local_midnight (local_day now + 1)))"
| "period_window C Monthly now =
     (let (year, month, _) = cal_civil C (local_day now);
          (year', month') = (if month = 12 then (year + 1, 1) else (year, month + 1))
      in (cal_month C (local_day now), Some (local_midnight (cal_first C year' month'))))"
| "period_window C Total now = (''all'', None)"

fun period_start :: "calendar \<Rightarrow> key_limit_period \<Rightarrow> date_time \<Rightarrow> date_time option" where
  "period_start C Daily now = Some (local_midnight (local_day now))"
| "period_start C Monthly now =
     (let (year, month, _) = cal_civil C (local_day now) in Some (local_midnight (cal_first C year month)))"
| "period_start C Total now = None"

definition counter_key :: "string \<Rightarrow> key_limit_period \<Rightarrow> string \<Rightarrow> string" where
  "counter_key key_id period window =
     ''request_key_limits:'' @ key_id @ '':'' @ period_str period @ '':'' @ window"

fun counter_ttl_secs :: "key_limit_period \<Rightarrow> nat option" where
  "counter_ttl_secs Daily = Some (3 * 24 * 3600)"
| "counter_ttl_secs Monthly = Some (62 * 24 * 3600)"
| "counter_ttl_secs Total = None"

definition ALL_METRICS :: "key_limit_metric list" where "ALL_METRICS = [CostUsd, Credits, Tokens]"

definition COUNTED_MARKER :: string where "COUNTED_MARKER = ''_counted''"

subsection \<open>The counters in Redis\<close>

record ('f, 'v) redis_num =
  rn_text :: "'f \<Rightarrow> 'v"
  rn_parse :: "'v \<Rightarrow> 'f option"
  rn_incr :: "'v option \<Rightarrow> 'v \<Rightarrow> 'v"
  rn_one :: 'v

record 'v redis_hash =
  rh_fields :: "string \<Rightarrow> 'v option"
  rh_ttl :: "nat option"

type_synonym 'v redis_store = "string \<Rightarrow> 'v redis_hash option"

definition empty_hash :: "'v redis_hash" where "empty_hash = \<lparr>rh_fields = Map.empty, rh_ttl = None\<rparr>"

definition hash_of :: "'v redis_store \<Rightarrow> string \<Rightarrow> 'v redis_hash" where
  "hash_of s k = (case s k of Some h \<Rightarrow> h | None \<Rightarrow> empty_hash)"

definition hash_get_f64 :: "('f, 'v) redis_num \<Rightarrow> 'v redis_store \<Rightarrow> string \<Rightarrow> string \<Rightarrow> 'f option" where
  "hash_get_f64 N s k field = Option.bind (rh_fields (hash_of s k) field) (rn_parse N)"

text \<open>The loops over the pairs of field and value in the scripts.\<close>

fun incr_fields :: "('f, 'v) redis_num \<Rightarrow> (string \<times> 'f) list \<Rightarrow> (string \<Rightarrow> 'v option) \<Rightarrow> string \<Rightarrow> 'v option" where
  "incr_fields N [] m = m"
| "incr_fields N ((f, x) # fs) m = incr_fields N fs (m(f \<mapsto> rn_incr N (m f) (rn_text N x)))"

fun set_fields :: "('f, 'v) redis_num \<Rightarrow> (string \<times> 'f) list \<Rightarrow> (string \<Rightarrow> 'v option) \<Rightarrow> string \<Rightarrow> 'v option" where
  "set_fields N [] m = m"
| "set_fields N ((f, x) # fs) m = set_fields N fs (m(f \<mapsto> rn_text N x))"

definition hash_incr_by_float :: "('f, 'v) redis_num \<Rightarrow> string \<Rightarrow> string \<Rightarrow> (string \<times> 'f) list \<Rightarrow> nat option \<Rightarrow>
    'v redis_store \<Rightarrow> 'v redis_store" where
  "hash_incr_by_float N k marker kvs ttl s =
     (let h = hash_of s k;
          m = incr_fields N kvs (rh_fields h);
          m = (if m marker = None then m(marker \<mapsto> rn_one N) else m)
      in s(k \<mapsto> \<lparr>rh_fields = m, rh_ttl = (if rh_ttl h = None then ttl else rh_ttl h)\<rparr>))"

definition hash_init_if_absent :: "('f, 'v) redis_num \<Rightarrow> string \<Rightarrow> string \<Rightarrow> (string \<times> 'f) list \<Rightarrow> nat option \<Rightarrow>
    'v redis_store \<Rightarrow> bool \<times> 'v redis_store" where
  "hash_init_if_absent N k marker kvs ttl s =
     (if s k \<noteq> None then (False, s)
      else (True, s(k \<mapsto> \<lparr>rh_fields = (set_fields N kvs Map.empty)(marker \<mapsto> rn_one N), rh_ttl = ttl\<rparr>)))"

definition hash_replace :: "('f, 'v) redis_num \<Rightarrow> string \<Rightarrow> string \<Rightarrow> (string \<times> 'f) list \<Rightarrow> nat option \<Rightarrow>
    'v redis_store \<Rightarrow> 'v redis_store" where
  "hash_replace N k marker kvs ttl s =
     s(k \<mapsto> \<lparr>rh_fields = (set_fields N kvs Map.empty)(marker \<mapsto> rn_one N), rh_ttl = ttl\<rparr>)"

subsection \<open>The limiter\<close>

record 'f key_limit_status =
  ls_metric :: key_limit_metric
  ls_period :: key_limit_period
  ls_limit :: 'f
  ls_used :: 'f
  ls_exceeded :: bool
  ls_resets_at :: "string option"

datatype 'f key_limit_decision =
  Allowed | Exceeded "'f key_limit_status" "nat option" | Unavailable

text \<open>
  \<open>limiter_redis\<close>: whether a store is configured.  \<open>limits\<close> has an entry for the limited keys.
\<close>

record 'f request_key_limiter =
  limiter_redis :: bool
  limiter_limits :: "(string \<times> 'f key_usage_limit list) list"

definition new_key_limiter :: "bool \<Rightarrow> 'f request_key_limiter" where
  "new_key_limiter redis = \<lparr>limiter_redis = redis, limiter_limits = []\<rparr>"

definition update_limits :: "(string \<times> 'f key_usage_limit list) list \<Rightarrow> 'f request_key_limiter \<Rightarrow>
    'f request_key_limiter" where
  "update_limits limits r =
     r\<lparr>limiter_limits := fold (\<lambda>(k, ls). AList.update k ls) (filter (\<lambda>(_, ls). ls \<noteq> []) limits) []\<rparr>"

definition limits_for :: "string \<Rightarrow> 'f request_key_limiter \<Rightarrow> 'f key_usage_limit list option" where
  "limits_for key_id r = map_of (limiter_limits r) key_id"

text \<open>One limit against its counter; \<open>None\<close> is a Redis that times out or answers with an error.\<close>

definition limit_status :: "'f f64_conv \<Rightarrow> ('f, 'v) redis_num \<Rightarrow> calendar \<Rightarrow> string \<Rightarrow> date_time \<Rightarrow>
    'v redis_store \<Rightarrow> 'f key_usage_limit \<Rightarrow> 'f key_limit_status" where
  "limit_status F N C key_id now s l =
     (let (window, resets_at) = period_window C (kl_period l) now;
          used = (case hash_get_f64 N s (counter_key key_id (kl_period l) window) (metric_str (kl_metric l)) of
                    Some x \<Rightarrow> x | None \<Rightarrow> f_lit F 0 1)
      in \<lparr>ls_metric = kl_metric l, ls_period = kl_period l, ls_limit = kl_limit l, ls_used = used,
          ls_exceeded = f_le F (kl_limit l) used, ls_resets_at = map_option (cal_rfc3339 C) resets_at\<rparr>)"

text \<open>\<open>answers\<close> says of each read, in order, whether Redis answered it.\<close>

fun read_statuses :: "('f key_usage_limit \<Rightarrow> 'f key_limit_status) \<Rightarrow> bool list \<Rightarrow> 'f key_usage_limit list \<Rightarrow>
    'f key_limit_status list option" where
  "read_statuses status answers [] = Some []"
| "read_statuses status [] (l # ls) = None"
| "read_statuses status (a # as) (l # ls) =
     (if a then map_option (Cons (status l)) (read_statuses status as ls) else None)"

fun period_rank :: "key_limit_period \<Rightarrow> nat" where
  "period_rank Total = 0"
| "period_rank Monthly = 1"
| "period_rank Daily = 2"

definition decide :: "calendar \<Rightarrow> 'f key_limit_status list \<Rightarrow> date_time \<Rightarrow> 'f key_limit_decision" where
  "decide C statuses now =
     (case sort_key (\<lambda>st. period_rank (ls_period st)) (filter ls_exceeded statuses) of
        [] \<Rightarrow> Allowed
      | st # _ \<Rightarrow> Exceeded st
          (map_option (\<lambda>ends. nat (max ((ends - now) div 1000000000) 1))
            (Option.bind (ls_resets_at st) (cal_parse C))))"

definition check_key_limits :: "'f f64_conv \<Rightarrow> ('f, 'v) redis_num \<Rightarrow> calendar \<Rightarrow> bool list \<Rightarrow> date_time \<Rightarrow>
    'v redis_store \<Rightarrow> string \<Rightarrow> 'f request_key_limiter \<Rightarrow> 'f key_limit_decision" where
  "check_key_limits F N C answers now s key_id r =
     (case limits_for key_id r of
        None \<Rightarrow> Allowed
      | Some limits \<Rightarrow>
          (if \<not> limiter_redis r then Unavailable
           else case read_statuses (limit_status F N C key_id now s) answers limits of
                  None \<Rightarrow> Unavailable
                | Some statuses \<Rightarrow> decide C statuses now))"

text \<open>The periods of a list of limits, sorted by name and without repetition.\<close>

definition periods_of :: "'f key_usage_limit list \<Rightarrow> key_limit_period list" where
  "periods_of limits = remdups_adj (sort_key period_str (map kl_period limits))"

definition usage_fields :: "'f f64_conv \<Rightarrow> 'f key_usage_delta \<Rightarrow> (string \<times> 'f) list" where
  "usage_fields F d = filter (\<lambda>(_, v). f_is_finite F v \<and> f_less F (f_lit F 0 1) v)
     (map (\<lambda>m. (metric_str m, delta_get d m)) ALL_METRICS)"

text \<open>
  \<open>spawn_record\<close> with the body of its task; \<open>reached\<close> says which periods' writes reached Redis.
\<close>

definition record_usage :: "'f f64_conv \<Rightarrow> ('f, 'v) redis_num \<Rightarrow> calendar \<Rightarrow> (key_limit_period \<Rightarrow> bool) \<Rightarrow>
    date_time \<Rightarrow> string \<Rightarrow> 'f key_usage_delta \<Rightarrow> 'f request_key_limiter \<Rightarrow> 'v redis_store \<Rightarrow> 'v redis_store" where
  "record_usage F N C reached now key_id d r s =
     (if delta_is_empty F d then s
      else case limits_for key_id r of
             None \<Rightarrow> s
           | Some limits \<Rightarrow>
               (if \<not> limiter_redis r then s
                else fold (\<lambda>p s. if reached p
                       then hash_incr_by_float N (counter_key key_id p (fst (period_window C p now))) COUNTED_MARKER
                              (usage_fields F d) (counter_ttl_secs p) s
                       else s) (periods_of limits) s))"

definition seed_from_history :: "'f f64_conv \<Rightarrow> ('f, 'v) redis_num \<Rightarrow> calendar \<Rightarrow> date_time \<Rightarrow> string \<Rightarrow>
    key_limit_period \<Rightarrow> 'f key_usage_delta \<Rightarrow> 'v redis_store \<Rightarrow> bool \<times> 'v redis_store" where
  "seed_from_history F N C now key_id p totals s =
     hash_init_if_absent N (counter_key key_id p (fst (period_window C p now))) COUNTED_MARKER
       (filter (\<lambda>(_, v). f_is_finite F v)
         (map (\<lambda>m. (metric_str m, f_max F (delta_get totals m) (f_lit F 0 1))) ALL_METRICS))
       (counter_ttl_secs p) s"

definition reset_counter :: "('f, 'm) f64_scheme \<Rightarrow> ('f, 'v) redis_num \<Rightarrow> calendar \<Rightarrow> date_time \<Rightarrow> string \<Rightarrow>
    key_limit_period \<Rightarrow> 'v redis_store \<Rightarrow> 'v redis_store" where
  "reset_counter F N C now key_id p s =
     hash_replace N (counter_key key_id p (fst (period_window C p now))) COUNTED_MARKER
       (map (\<lambda>m. (metric_str m, f_lit F 0 1)) ALL_METRICS) (counter_ttl_secs p) s"

subsection \<open>The middleware\<close>

text \<open>
  \<open>request_admission_middleware\<close>: what it answers, given the identity of the request, the
  decision of the usage limits and the result of \<open>acquire\<close>, of which neither is asked for when
  an earlier answer is final.  A status, a reason to record and a \<open>retry-after\<close>, or the permit
  the request runs under.
\<close>

datatype admission_answer =
  Answer_Unauthorized
| Answer_Error nat request_rejection_reason "nat option"
| Answer_Run admission_permit

fun usage_limit_rejection :: "'f key_limit_decision \<Rightarrow> admission_answer option" where
  "usage_limit_rejection Allowed = None"
| "usage_limit_rejection (Exceeded _ retry_after) = Some (Answer_Error 429 KeyUsageLimitExceeded retry_after)"
| "usage_limit_rejection Unavailable = Some (Answer_Error 503 KeyUsageLimitUnavailable (Some 5))"

definition request_admission_middleware ::
    "key_digest option \<Rightarrow> 'f key_limit_decision \<Rightarrow> admission_rejection + admission_permit \<Rightarrow> admission_answer" where
  "request_admission_middleware identity decision acquired =
     (case identity of
        None \<Rightarrow> Answer_Unauthorized
      | Some _ \<Rightarrow>
          (case usage_limit_rejection decision of
             Some answer \<Rightarrow> answer
           | None \<Rightarrow>
               (case acquired of
                  Inr permit \<Rightarrow> Answer_Run permit
                | Inl rejection \<Rightarrow>
                    Answer_Error 429
                      (case kind_reason (rej_kind rejection) of Some r \<Rightarrow> r | None \<Rightarrow> AdmissionStateCapacity)
                      (Some (unat (rej_retry_after_secs rejection))))))"

subsection \<open>Lemmas\<close>

lemma read_statuses_Some:
  "read_statuses f answers ls = Some sts \<longleftrightarrow>
   sts = map f ls \<and> length ls \<le> length answers \<and> list_all id (take (length ls) answers)"
proof (induction f answers ls arbitrary: sts rule: read_statuses.induct)
  case (3 f a as l ls)
  then show ?case by (cases sts) auto
qed auto

lemma decide_cases:
  "case decide C sts now of
     Allowed \<Rightarrow> filter ls_exceeded sts = []
   | Exceeded st retry \<Rightarrow> st \<in> set sts \<and> ls_exceeded st \<and>
       (\<forall>st' \<in> set sts. ls_exceeded st' \<longrightarrow> period_rank (ls_period st) \<le> period_rank (ls_period st')) \<and>
       retry = map_option (\<lambda>ends. nat (max ((ends - now) div 1000000000) 1))
         (Option.bind (ls_resets_at st) (cal_parse C))
   | Unavailable \<Rightarrow> False"
proof (cases "sort_key (\<lambda>st. period_rank (ls_period st)) (filter ls_exceeded sts)")
  case Nil
  then have "filter ls_exceeded sts = []" by (metis length_0_conv length_sort)
  then show ?thesis using Nil by (simp add: decide_def)
next
  case (Cons st rest)
  let ?k = "\<lambda>st. period_rank (ls_period st)"
  have "sorted (map ?k (st # rest))" using Cons by (metis sorted_sort_key)
  moreover have "set (st # rest) = {x \<in> set sts. ls_exceeded x}"
    using Cons by (metis set_filter set_sort)
  ultimately have "st \<in> set sts \<and> ls_exceeded st \<and>
      (\<forall>st' \<in> set sts. ls_exceeded st' \<longrightarrow> ?k st \<le> ?k st')" by auto
  then show ?thesis using Cons by (simp add: decide_def)
qed

lemma metric_str_inj: "metric_str m = metric_str m' \<longleftrightarrow> m = m'"
  by (cases m; cases m') simp_all

lemma period_str_inj: "period_str p = period_str p' \<longleftrightarrow> p = p'"
  by (cases p; cases p') simp_all

lemma metric_not_marker: "metric_str m \<noteq> COUNTED_MARKER"
  by (cases m) (simp_all add: COUNTED_MARKER_def)

lemma split_at_colon:
  assumes "xs @ CHR '':'' # ys = xs' @ CHR '':'' # ys'" "CHR '':'' \<notin> set xs" "CHR '':'' \<notin> set xs'"
  shows "xs = xs' \<and> ys = ys'"
  using assms
proof (induction xs arbitrary: xs')
  case Nil
  then show ?case by (cases xs') auto
next
  case (Cons x xs)
  then show ?case by (cases xs') auto
qed

lemma counter_key_inj:
  assumes "counter_key k p w = counter_key k' p' w'" "CHR '':'' \<notin> set k" "CHR '':'' \<notin> set k'"
  shows "k = k' \<and> p = p' \<and> w = w'"
proof -
  have "k @ CHR '':'' # period_str p @ CHR '':'' # w = k' @ CHR '':'' # period_str p' @ CHR '':'' # w'"
    using assms(1) by (simp add: counter_key_def)
  from split_at_colon [OF this assms(2,3)]
  have "k = k'" and rest: "period_str p @ CHR '':'' # w = period_str p' @ CHR '':'' # w'" by auto
  have "CHR '':'' \<notin> set (period_str p)" for p by (cases p) simp_all
  with split_at_colon [OF rest] \<open>k = k'\<close> show ?thesis by (simp add: period_str_inj)
qed

lemma counter_key_period: "counter_key k p w = counter_key k p' w' \<Longrightarrow> p = p'"
proof -
  assume "counter_key k p w = counter_key k p' w'"
  then have "period_str p @ CHR '':'' # w = period_str p' @ CHR '':'' # w'" by (simp add: counter_key_def)
  then show ?thesis
    by (cases p; cases p') simp_all
qed

lemma set_periods_of: "set (periods_of limits) = kl_period ` set limits"
  by (simp add: periods_of_def)

lemma sorted_wrt_remdups_adj_distinct: "sorted (map f xs) \<Longrightarrow> inj f \<Longrightarrow> distinct (remdups_adj xs)"
proof (induction xs rule: remdups_adj.induct)
  case (3 x y xs)
  show ?case
  proof (cases "x = y")
    case False
    have "x \<notin> set (y # xs)"
    proof
      assume "x \<in> set (y # xs)"
      then have "f y \<le> f x" using "3.prems"(1) by (auto simp: image_iff)
      moreover have "f x \<le> f y" using "3.prems"(1) by simp
      ultimately show False using False "3.prems"(2) by (auto dest: injD)
    qed
    then show ?thesis using 3 False by auto
  qed (use 3 in simp)
qed simp_all

lemma distinct_periods_of: "distinct (periods_of limits)"
  unfolding periods_of_def
  by (rule sorted_wrt_remdups_adj_distinct [of period_str]) (auto simp: period_str_inj intro: injI)

text \<open>Fields that a script does not name are left alone, the others are counted up once.\<close>

lemma incr_fields_other: "f \<notin> fst ` set fs \<Longrightarrow> incr_fields N fs m f = m f"
  by (induction N fs m rule: incr_fields.induct) auto

lemma incr_fields_at:
  "distinct (map fst fs) \<Longrightarrow> (f, x) \<in> set fs \<Longrightarrow>
   incr_fields N fs m f = Some (rn_incr N (m f) (rn_text N x))"
proof (induction N fs m rule: incr_fields.induct)
  case (2 N g y fs m)
  show ?case
  proof (cases "f = g")
    case True
    then have "f \<notin> fst ` set fs" "x = y" using "2.prems" by (force simp: image_iff)+
    then show ?thesis using True by (simp add: incr_fields_other)
  next
    case False
    then have "(m(g \<mapsto> rn_incr N (m g) (rn_text N y))) f = m f" by simp
    moreover have "incr_fields N fs (m(g \<mapsto> rn_incr N (m g) (rn_text N y))) f =
        Some (rn_incr N ((m(g \<mapsto> rn_incr N (m g) (rn_text N y))) f) (rn_text N x))"
      using "2.prems" False by (intro "2.IH") simp_all
    ultimately show ?thesis by (simp only: incr_fields.simps)
  qed
qed simp

lemma usage_fields_distinct: "distinct (map fst (usage_fields F d))"
  unfolding usage_fields_def by (rule distinct_map_filter) (simp add: ALL_METRICS_def)

lemma usage_fields_at:
  "(metric_str m, x) \<in> set (usage_fields F d) \<longleftrightarrow>
   x = delta_get d m \<and> f_is_finite F x \<and> f_less F (f_lit F 0 1) x"
  by (cases m) (auto simp: usage_fields_def ALL_METRICS_def)

lemma hash_of_incr:
  "hash_of (hash_incr_by_float N k marker kvs ttl s) k' =
     (if k' = k then \<lparr>rh_fields = (let m = incr_fields N kvs (rh_fields (hash_of s k))
                                  in if m marker = None then m(marker \<mapsto> rn_one N) else m),
                     rh_ttl = (if rh_ttl (hash_of s k) = None then ttl else rh_ttl (hash_of s k))\<rparr>
      else hash_of s k')"
  by (simp add: hash_incr_by_float_def hash_of_def Let_def)

lemma record_fold_other:
  "k \<notin> key ` set ps \<Longrightarrow>
   fold (\<lambda>p. hash_incr_by_float N (key p) marker kvs (ttl p)) ps s k = s k"
  by (induction ps arbitrary: s) (auto simp: hash_incr_by_float_def Let_def)

lemma hash_incr_cong:
  "s k = s' k \<Longrightarrow> hash_incr_by_float N k marker kvs ttl s k = hash_incr_by_float N k marker kvs ttl s' k"
  by (simp add: hash_incr_by_float_def hash_of_def Let_def)

lemma record_fold_at:
  assumes "distinct ps" "inj key" "p \<in> set ps"
  shows "fold (\<lambda>p. hash_incr_by_float N (key p) marker kvs (ttl p)) ps s (key p) =
    hash_incr_by_float N (key p) marker kvs (ttl p) s (key p)"
  using assms
proof (induction ps arbitrary: s)
  case (Cons q ps)
  let ?step = "\<lambda>p. hash_incr_by_float N (key p) marker kvs (ttl p)"
  show ?case
  proof (cases "p = q")
    case True
    then have "key p \<notin> key ` set ps" using Cons.prems by (auto dest: injD)
    then have "fold ?step ps (?step q s) (key p) = ?step q s (key p)" by (rule record_fold_other)
    then show ?thesis using True by simp
  next
    case False
    then have ne: "key p \<noteq> key q" using Cons.prems(2) by (auto dest: injD)
    have "?step q s (key p) = s (key p)" using ne by (simp add: hash_incr_by_float_def Let_def)
    then have "?step p (?step q s) (key p) = ?step p s (key p)" by (rule hash_incr_cong)
    then show ?thesis using Cons.IH [of "?step q s"] Cons.prems False by simp
  qed
qed simp

lemma incr_usage_fields:
  "incr_fields N (usage_fields F d) g (metric_str m) =
     (if f_is_finite F (delta_get d m) \<and> f_less F (f_lit F 0 1) (delta_get d m)
      then Some (rn_incr N (g (metric_str m)) (rn_text N (delta_get d m))) else g (metric_str m))"
proof (cases "f_is_finite F (delta_get d m) \<and> f_less F (f_lit F 0 1) (delta_get d m)")
  case True
  then have "(metric_str m, delta_get d m) \<in> set (usage_fields F d)" by (simp add: usage_fields_at)
  then show ?thesis using True incr_fields_at [OF usage_fields_distinct] by simp
next
  case False
  then have "metric_str m \<notin> fst ` set (usage_fields F d)"
    using usage_fields_at [where m = m and F = F and d = d] by force
  then show ?thesis unfolding if_not_P [OF False] by (rule incr_fields_other)
qed

subsection \<open>Properties\<close>

text \<open>C28. 
  Usage limits are enforced, and fail closed.  A key with limits is let through exactly when
  Redis answered for each of them and none is reached in its current window; it is turned away
  with a reached limit otherwise, one of a longer period before one of a shorter; and when a
  counter cannot be read, or no Redis is configured, it is turned away too.
\<close>

theorem usage_limits_are_enforced:
  assumes "limits_for key_id r = Some limits"
  shows "case check_key_limits F N C answers now s key_id r of
      Allowed \<Rightarrow> limiter_redis r \<and> list_all id (take (length limits) answers) \<and>
        (\<forall>l \<in> set limits. \<not> f_le F (kl_limit l) (ls_used (limit_status F N C key_id now s l)))
    | Exceeded st retry \<Rightarrow> limiter_redis r \<and>
        (\<exists>l \<in> set limits. st = limit_status F N C key_id now s l \<and> f_le F (kl_limit l) (ls_used st)) \<and>
        (\<forall>l \<in> set limits. f_le F (kl_limit l) (ls_used (limit_status F N C key_id now s l)) \<longrightarrow>
           period_rank (ls_period st) \<le> period_rank (kl_period l))
    | Unavailable \<Rightarrow> \<not> (limiter_redis r \<and> length limits \<le> length answers \<and>
        list_all id (take (length limits) answers))"
proof -
  let ?st = "limit_status F N C key_id now s"
  have st: "ls_exceeded (?st l) = f_le F (kl_limit l) (ls_used (?st l))" "ls_period (?st l) = kl_period l" for l
    by (simp_all add: limit_status_def Let_def split: prod.split)
  show ?thesis
  proof (cases "read_statuses ?st answers limits")
    case None
    then show ?thesis
      using assms read_statuses_Some [of ?st answers limits] by (auto simp: check_key_limits_def)
  next
    case (Some sts)
    then have sts: "sts = map ?st limits" "length limits \<le> length answers" "list_all id (take (length limits) answers)"
      by (simp_all add: read_statuses_Some)
    have check: "check_key_limits F N C answers now s key_id r = (if limiter_redis r then decide C sts now else Unavailable)"
      using assms Some by (simp add: check_key_limits_def)
    show ?thesis
      using decide_cases [where C = C and sts = sts and now = now] sts(2,3) st
      unfolding check sts(1)
      by (cases "decide C (map ?st limits) now") (auto simp: filter_empty_conv)
  qed
qed

text \<open>Integers as the numbers of Redis and a calendar with years of one day, as instances.\<close>

definition int_redis :: "(int, int) redis_num" where
  "int_redis = \<lparr>rn_text = id, rn_parse = Some,
     rn_incr = \<lambda>old x. (case old of None \<Rightarrow> x | Some y \<Rightarrow> y + x), rn_one = 1\<rparr>"

definition tiny_calendar :: calendar where
  "tiny_calendar = \<lparr>cal_civil = \<lambda>day. (day, 12, 1), cal_first = \<lambda>y m. y,
     cal_day = \<lambda>day. replicate (nat day) CHR ''d'', cal_month = \<lambda>day. replicate (nat day) CHR ''m'',
     cal_rfc3339 = \<lambda>t. (if t < 0 then ''-'' else ''+'') @ replicate (nat \<bar>t\<bar>) CHR ''t'',
     cal_parse = \<lambda>s. Some ((if hd s = CHR ''-'' then - 1 else 1) * (int (length s) - 1))\<rparr>"

definition example_limiter :: "int request_key_limiter" where
  "example_limiter = \<lparr>limiter_redis = True,
     limiter_limits = [(''k'', [\<lparr>kl_metric = Tokens, kl_period = Total, kl_limit = 100\<rparr>])]\<rparr>"

theorem usage_limits_are_enforced_witness:
  "check_key_limits int_f64 int_redis tiny_calendar [True] 0 Map.empty ''k'' example_limiter = Allowed"
proof -
  have l: "limits_for ''k'' example_limiter = Some [\<lparr>kl_metric = Tokens, kl_period = Total, kl_limit = 100\<rparr>]"
    by (simp add: limits_for_def example_limiter_def)
  show ?thesis
    using usage_limits_are_enforced [OF l, where F = int_f64 and N = int_redis and C = tiny_calendar and
        answers = "[True]" and now = 0 and s = Map.empty]
    by (auto simp: limit_status_def hash_get_f64_def hash_of_def empty_hash_def int_f64_def example_limiter_def
        split: key_limit_decision.splits)
qed

text \<open>
  Usage is counted once in every limited window, and nowhere else.  When the writes reach Redis,
  a finished request adds its amount to the counter of each metric in the current window of every
  period the key has a limit on, leaves the other counters of the key as they are, and does not touch a
  hash of any other key (key ids are hexadecimal and contain no colon).
\<close>

theorem usage_is_counted_in_every_limited_window:
  assumes "limits_for key_id r = Some limits" "limiter_redis r" "\<not> delta_is_empty F d"
    and s': "s' = record_usage F N C (\<lambda>_. True) now key_id d r s"
    and k: "k = counter_key key_id p (fst (period_window C p now))"
    and colon: "CHR '':'' \<notin> set key_id" "CHR '':'' \<notin> set other_id"
  shows "rh_fields (hash_of s' k) (metric_str m) =
      (if p \<in> kl_period ` set limits \<and> f_is_finite F (delta_get d m) \<and> f_less F (f_lit F 0 1) (delta_get d m)
       then Some (rn_incr N (rh_fields (hash_of s k) (metric_str m)) (rn_text N (delta_get d m)))
       else rh_fields (hash_of s k) (metric_str m)) \<and>
    (other_id \<noteq> key_id \<longrightarrow> s' (counter_key other_id p' w) = s (counter_key other_id p' w))"
proof -
  let ?key = "\<lambda>p. counter_key key_id p (fst (period_window C p now))"
  let ?step = "\<lambda>p. hash_incr_by_float N (?key p) COUNTED_MARKER (usage_fields F d) (counter_ttl_secs p)"
  have run: "s' = fold ?step (periods_of limits) s"
    using assms(1-4) by (simp add: record_usage_def)
  have inj: "inj ?key" by (rule injI) (rule counter_key_period)
  have "s' (counter_key other_id p' w) = s (counter_key other_id p' w)" if "other_id \<noteq> key_id"
  proof -
    have "counter_key other_id p' w \<notin> ?key ` set (periods_of limits)"
      using counter_key_inj colon that by blast
    then show ?thesis unfolding run by (rule record_fold_other)
  qed
  moreover have "rh_fields (hash_of s' k) (metric_str m) = rh_fields (hash_of s k) (metric_str m)"
    if "p \<notin> kl_period ` set limits"
  proof -
    have "?key p \<notin> ?key ` set (periods_of limits)"
      unfolding set_periods_of using that by (simp add: inj_image_mem_iff [OF inj])
    then have "s' k = s k" unfolding run k by (rule record_fold_other)
    then show ?thesis by (simp add: hash_of_def)
  qed
  moreover have "rh_fields (hash_of s' k) (metric_str m) =
      incr_fields N (usage_fields F d) (rh_fields (hash_of s k)) (metric_str m)"
    if "p \<in> kl_period ` set limits"
  proof -
    have "s' k = ?step p s k"
      unfolding run k using that by (intro record_fold_at [OF distinct_periods_of inj]) (simp add: set_periods_of)
    then have "hash_of s' k = hash_of (?step p s) k" by (simp add: hash_of_def)
    then show ?thesis using metric_not_marker [of m] unfolding k by (simp add: hash_of_incr Let_def)
  qed
  ultimately show ?thesis
    unfolding incr_usage_fields by (cases "p \<in> kl_period ` set limits") simp_all
qed

theorem usage_is_counted_in_every_limited_window_witness:
  "rh_fields (hash_of (record_usage int_f64 int_redis tiny_calendar (\<lambda>_. True) 0 ''k''
       \<lparr>kd_cost_usd = 0, kd_credits = 0, kd_tokens = 7\<rparr> example_limiter Map.empty)
     (counter_key ''k'' Total ''all'')) ''tokens'' = Some 7"
proof -
  have l: "limits_for ''k'' example_limiter = Some [\<lparr>kl_metric = Tokens, kl_period = Total, kl_limit = 100\<rparr>]"
    by (simp add: limits_for_def example_limiter_def)
  have "limiter_redis example_limiter" by (simp add: example_limiter_def)
  moreover have "\<not> delta_is_empty int_f64 \<lparr>kd_cost_usd = 0, kd_credits = 0, kd_tokens = 7\<rparr>"
    by (simp add: delta_is_empty_def int_f64_def)
  ultimately show ?thesis
    using usage_is_counted_in_every_limited_window [OF l, where F = int_f64 and N = int_redis and
        C = tiny_calendar and now = 0 and d = "\<lparr>kd_cost_usd = 0, kd_credits = 0, kd_tokens = 7\<rparr>" and
        s = Map.empty and p = Total and m = Tokens and other_id = "''o''" and p' = Total and w = "''all''",
        OF _ _ refl refl]
    by (simp add: hash_of_def empty_hash_def int_f64_def int_redis_def)
qed

text \<open>What happens to one window: live usage, history, a reset by the administrator.\<close>

datatype 'f window_change = Live "(string \<times> 'f) list" | History "'f key_usage_delta" | Reset_Window

fun window_step :: "'f f64_conv \<Rightarrow> ('f, 'v) redis_num \<Rightarrow> calendar \<Rightarrow> date_time \<Rightarrow> string \<Rightarrow> key_limit_period \<Rightarrow>
    'f window_change \<Rightarrow> 'v redis_store \<Rightarrow> 'v redis_store" where
  "window_step F N C now key_id p (Live kvs) s =
     hash_incr_by_float N (counter_key key_id p (fst (period_window C p now))) COUNTED_MARKER kvs (counter_ttl_secs p) s"
| "window_step F N C now key_id p (History totals) s = snd (seed_from_history F N C now key_id p totals s)"
| "window_step F N C now key_id p Reset_Window s = reset_counter F N C now key_id p s"

definition is_history :: "'f window_change \<Rightarrow> bool" where
  "is_history x \<longleftrightarrow> (\<exists>t. x = History t)"

lemma window_step_exists:
  "window_step F N C now key_id p x s (counter_key key_id p (fst (period_window C p now))) \<noteq> None"
  by (cases x) (simp_all add: hash_incr_by_float_def seed_from_history_def hash_init_if_absent_def
      reset_counter_def hash_replace_def Let_def)

lemma history_filtered:
  "s (counter_key key_id p (fst (period_window C p now))) \<noteq> None \<Longrightarrow>
   fold (window_step F N C now key_id p) xs s = fold (window_step F N C now key_id p) (filter (\<lambda>x. \<not> is_history x) xs) s"
proof (induction xs arbitrary: s)
  case (Cons x xs)
  show ?case
  proof (cases "is_history x")
    case True
    then obtain t where "x = History t" by (auto simp: is_history_def)
    then have "window_step F N C now key_id p x s = s" using Cons.prems by (simp add: seed_from_history_def hash_init_if_absent_def)
    then show ?thesis using Cons.IH [of s] Cons.prems True by simp
  next
    case False
    then show ?thesis using Cons.IH [of "window_step F N C now key_id p x s"] window_step_exists [of F N C now key_id p x s] by simp
  qed
qed simp

text \<open>
  History is counted at most once.  After the first write to a window, be it live usage, history or
  a reset, seeding it from history at any later points and any number of times changes nothing:
  a restart or a saved limit neither adds usage twice nor undoes a reset.
\<close>

theorem history_is_counted_at_most_once:
  "fold (window_step F N C now key_id p) (x # xs) s =
   fold (window_step F N C now key_id p) (x # filter (\<lambda>x. \<not> is_history x) xs) s"
  using history_filtered [of "window_step F N C now key_id p x s" key_id p C now F N xs]
    window_step_exists [of F N C now key_id p x s] by simp

subsubsection \<open>Windows\<close>

definition next_month :: "int \<times> nat \<Rightarrow> int \<times> nat" where
  "next_month ym = (case ym of (y, m) \<Rightarrow> if m = 12 then (y + 1, 1) else (y, m + 1))"

text \<open>
  What is relied on of \<open>chrono\<close>: a day lies between the first of its month and the first of the next, and
  RFC 3339 text is parsed back to the time it was written for.
\<close>

definition calendar_sound :: "calendar \<Rightarrow> bool" where
  "calendar_sound C \<longleftrightarrow>
     (\<forall>day. case cal_civil C day of (y, m, _) \<Rightarrow>
        cal_first C y m \<le> day \<and> day < (case next_month (y, m) of (y', m') \<Rightarrow> cal_first C y' m')) \<and>
     (\<forall>t. cal_parse C (cal_rfc3339 C t) = Some t)"

lemma local_day_bounds: "local_midnight (local_day now) \<le> now \<and> now < local_midnight (local_day now + 1)"
proof -
  let ?a = "now + LIMITS_OFFSET"
  have pos: "0 < NANOS_PER_DAY" by (simp add: NANOS_PER_DAY_def)
  have "?a div NANOS_PER_DAY * NANOS_PER_DAY = ?a - ?a mod NANOS_PER_DAY" by (simp add: minus_mod_eq_div_mult)
  moreover have "0 \<le> ?a mod NANOS_PER_DAY" "?a mod NANOS_PER_DAY < NANOS_PER_DAY" using pos by simp_all
  ultimately show ?thesis by (simp add: local_midnight_def local_day_def distrib_right)
qed

lemma local_midnight_mono: "a \<le> b \<Longrightarrow> local_midnight a \<le> local_midnight b"
  by (simp add: local_midnight_def NANOS_PER_DAY_def)

lemma period_bounds:
  assumes "calendar_sound C" "period_window C p now = (w, Some ends)"
  shows "(\<exists>starts. period_start C p now = Some starts \<and> starts \<le> now) \<and> now < ends"
proof (cases p)
  case Daily
  then show ?thesis using assms(2) local_day_bounds [of now] by auto
next
  case Monthly
  obtain y m d where c: "cal_civil C (local_day now) = (y, m, d)" by (metis prod_cases3)
  obtain y' m' where n: "next_month (y, m) = (y', m')" by fastforce
  have "cal_first C y m \<le> local_day now" "local_day now + 1 \<le> cal_first C y' m'"
    using conjunct1 [OF assms(1) [unfolded calendar_sound_def], THEN spec, of "local_day now"] c n by simp_all
  then have "local_midnight (cal_first C y m) \<le> now" "now < local_midnight (cal_first C y' m')"
    using local_day_bounds [of now] local_midnight_mono [of "cal_first C y m" "local_day now"]
      local_midnight_mono [of "local_day now + 1" "cal_first C y' m'"] by linarith+
  then show ?thesis
    using assms(2) Monthly c n by (auto simp: next_month_def split: if_splits)
qed (use assms in simp)

text \<open>
  The time to wait leads to the end of the window.  A request rejected for a limit that never
  resets is given no time; for a daily or monthly one it is told at least one second, and, unless that
  is all, no longer than until the end of the window that now lies in, which for a day is at most 86400
  seconds.
\<close>

theorem retry_after_ends_with_the_window:
  assumes C: "calendar_sound C" and "limits_for key_id r = Some limits"
    and out: "check_key_limits F N C answers now s key_id r = Exceeded st retry"
  shows "case snd (period_window C (ls_period st) now) of
      None \<Rightarrow> ls_period st = Total \<and> retry = None
    | Some ends \<Rightarrow> now < ends \<and>
        (\<exists>secs. retry = Some secs \<and> 1 \<le> secs \<and> (secs = 1 \<or> now + int secs * 1000000000 \<le> ends) \<and>
           (ls_period st = Daily \<longrightarrow> secs \<le> 86400))"
proof -
  let ?st = "limit_status F N C key_id now s"
  obtain sts where sts: "read_statuses ?st answers limits = Some sts" "decide C sts now = Exceeded st retry"
    using assms(2) out by (auto simp: check_key_limits_def split: if_splits option.splits)
  then obtain l where l: "st = ?st l"
    using decide_cases [where C = C and sts = sts and now = now] by (auto simp: read_statuses_Some)
  obtain w resets where w: "period_window C (kl_period l) now = (w, resets)" by fastforce
  have st: "ls_period st = kl_period l" "ls_resets_at st = map_option (cal_rfc3339 C) resets"
    using w by (simp_all add: l limit_status_def Let_def)
  have retry: "retry = map_option (\<lambda>ends. nat (max ((ends - now) div 1000000000) 1)) resets"
    using decide_cases [where C = C and sts = sts and now = now] sts(2) st(2) C
    by (cases resets) (simp_all add: calendar_sound_def)
  show ?thesis
  proof (cases resets)
    case None
    then show ?thesis using w st(1) retry by (cases "kl_period l") (auto split: prod.splits)
  next
    case (Some ends)
    then have lt: "now < ends" using period_bounds [OF C] w by blast
    have "ends \<le> now + NANOS_PER_DAY" if "kl_period l = Daily"
      using that w Some local_day_bounds [of now] by (auto simp: local_midnight_def algebra_simps)
    then have "(ends - now) div 1000000000 \<le> 86400" if "kl_period l = Daily"
      using that by (simp add: NANOS_PER_DAY_def)
    moreover have "(ends - now) div 1000000000 * 1000000000 \<le> ends - now" by simp
    ultimately show ?thesis
      using w st(1) retry Some lt by (auto simp: max_def)
  qed
qed

lemma tiny_calendar_sound: "calendar_sound tiny_calendar"
  by (auto simp: calendar_sound_def tiny_calendar_def next_month_def)

definition daily_limiter :: "int request_key_limiter" where
  "daily_limiter = \<lparr>limiter_redis = True,
     limiter_limits = [(''k'', [\<lparr>kl_metric = Tokens, kl_period = Daily, kl_limit = 100\<rparr>])]\<rparr>"

definition used_store :: "int redis_store" where
  "used_store = [counter_key ''k'' Daily [] \<mapsto> \<lparr>rh_fields = [''tokens'' \<mapsto> 200], rh_ttl = None\<rparr>]"

theorem retry_after_ends_with_the_window_witness:
  "\<exists>st secs. check_key_limits int_f64 int_redis tiny_calendar [True] 0 used_store ''k'' daily_limiter =
     Exceeded st (Some secs) \<and> 1 \<le> secs \<and> secs \<le> 86400"
proof -
  let ?check = "check_key_limits int_f64 int_redis tiny_calendar [True] 0 used_store ''k'' daily_limiter"
  have l: "limits_for ''k'' daily_limiter = Some [\<lparr>kl_metric = Tokens, kl_period = Daily, kl_limit = 100\<rparr>]"
    by (simp add: limits_for_def daily_limiter_def)
  let ?st = "limit_status int_f64 int_redis tiny_calendar ''k'' 0 used_store
    \<lparr>kl_metric = Tokens, kl_period = Daily, kl_limit = 100\<rparr>"
  have day: "period_window tiny_calendar Daily 0 = ([], Some (local_midnight 1))"
    by (simp add: tiny_calendar_def local_day_def NANOS_PER_DAY_def LIMITS_OFFSET_def)
  have st: "ls_exceeded ?st" "ls_period ?st = Daily"
    using day by (simp_all add: limit_status_def used_store_def hash_get_f64_def hash_of_def int_redis_def
        int_f64_def del: period_window.simps)
  then obtain retry where c: "?check = Exceeded ?st retry"
    using l by (simp add: check_key_limits_def decide_def daily_limiter_def)
  obtain ends where ends: "snd (period_window tiny_calendar (ls_period ?st) 0) = Some ends"
    unfolding st(2) by simp
  obtain secs where "retry = Some secs" "1 \<le> secs" "secs \<le> 86400"
    using retry_after_ends_with_the_window [OF tiny_calendar_sound l c] st(2) unfolding ends option.case by blast
  then show ?thesis using c by blast
qed

end
