(* ===== verification/Log_Throttle.thy ===== *)
theory Log_Throttle
  imports Prelude
begin

text \<open>
  The throttle for log lines that repeat during an overload (\<open>src/common/log_throttle.rs\<close>).

  \<open>admit_at\<close> is called by many threads at once and takes no lock: it loads the time of the next
  line, and if it is due tries to claim the window by a compare-and-exchange, then collects the
  number of occurrences left out.  These are separate steps of a thread, in any interleaving.
\<close>

subsection \<open>Model\<close>

record log_throttle =
  lt_interval :: duration
  lt_origin :: instant
  lt_next_allowed_ms :: u64
  lt_suppressed :: u64

definition new_log_throttle :: "duration \<Rightarrow> instant \<Rightarrow> log_throttle" where
  "new_log_throttle interval now =
     \<lparr>lt_interval = interval, lt_origin = now, lt_next_allowed_ms = 0, lt_suppressed = 0\<rparr>"

definition throttle_now_ms :: "log_throttle \<Rightarrow> instant \<Rightarrow> u64" where
  "throttle_now_ms t now = word_of_nat ((now - lt_origin t) div 1000000)"

definition throttle_interval_ms :: "log_throttle \<Rightarrow> u64" where
  "throttle_interval_ms t = word_of_nat (max (lt_interval t div 1000000) 1)"

text \<open>The three atomic parts: the load with its test, the exchange, the swap.\<close>

definition throttle_load :: "u64 \<Rightarrow> log_throttle \<Rightarrow> u64 option \<times> log_throttle" where
  "throttle_load now_ms t =
     (if now_ms < lt_next_allowed_ms t then (None, t\<lparr>lt_suppressed := lt_suppressed t + 1\<rparr>)
      else (Some (lt_next_allowed_ms t), t))"

definition throttle_exchange :: "u64 \<Rightarrow> u64 \<Rightarrow> log_throttle \<Rightarrow> bool \<times> log_throttle" where
  "throttle_exchange now_ms next_ms t =
     (if lt_next_allowed_ms t = next_ms
      then (True, t\<lparr>lt_next_allowed_ms := now_ms + throttle_interval_ms t\<rparr>)
      else (False, t\<lparr>lt_suppressed := lt_suppressed t + 1\<rparr>))"

definition throttle_swap :: "log_throttle \<Rightarrow> u64 \<times> log_throttle" where
  "throttle_swap t = (lt_suppressed t, t\<lparr>lt_suppressed := 0\<rparr>)"

text \<open>\<open>admit_at\<close>, run by one thread alone.\<close>

definition admit_at :: "instant \<Rightarrow> log_throttle \<Rightarrow> u64 option \<times> log_throttle" where
  "admit_at now t =
     (let now_ms = throttle_now_ms t now
      in case throttle_load now_ms t of
           (None, t) \<Rightarrow> (None, t)
         | (Some next_ms, t) \<Rightarrow>
             (case throttle_exchange now_ms next_ms t of
                (False, t) \<Rightarrow> (None, t)
              | (True, t) \<Rightarrow> (case throttle_swap t of (skipped, t) \<Rightarrow> (Some skipped, t))))"

subsection \<open>Threads\<close>

text \<open>
  A thread that found the window due holds the two times; one that claimed it still has to
  collect.  The world also keeps the number of occurrences met, the times of the claims and the
  numbers collected, newest first.
\<close>

datatype throttle_thread = Claiming u64 u64 | Collecting

record throttle_world =
  tw_throttle :: log_throttle
  tw_threads :: "nat \<Rightarrow> throttle_thread option"
  tw_met :: nat
  tw_claims :: "u64 list"
  tw_collected :: "u64 list"

datatype throttle_event = Occur nat instant | Exchange nat | Gather nat

fun throttle_step :: "throttle_event \<Rightarrow> throttle_world \<Rightarrow> throttle_world" where
  "throttle_step (Occur i now) w =
     (if tw_threads w i \<noteq> None then w
      else let now_ms = throttle_now_ms (tw_throttle w) now
           in case throttle_load now_ms (tw_throttle w) of
                (None, t) \<Rightarrow> w\<lparr>tw_throttle := t, tw_met := tw_met w + 1\<rparr>
              | (Some next_ms, t) \<Rightarrow>
                  w\<lparr>tw_throttle := t, tw_met := tw_met w + 1,
                    tw_threads := (tw_threads w)(i \<mapsto> Claiming now_ms next_ms)\<rparr>)"
| "throttle_step (Exchange i) w =
     (case tw_threads w i of
        Some (Claiming now_ms next_ms) \<Rightarrow>
          (case throttle_exchange now_ms next_ms (tw_throttle w) of
             (True, t) \<Rightarrow> w\<lparr>tw_throttle := t, tw_threads := (tw_threads w)(i \<mapsto> Collecting),
                           tw_claims := now_ms # tw_claims w\<rparr>
           | (False, t) \<Rightarrow> w\<lparr>tw_throttle := t, tw_threads := (tw_threads w)(i := None)\<rparr>)
      | _ \<Rightarrow> w)"
| "throttle_step (Gather i) w =
     (case tw_threads w i of
        Some Collecting \<Rightarrow>
          (case throttle_swap (tw_throttle w) of
             (n, t) \<Rightarrow> w\<lparr>tw_throttle := t, tw_threads := (tw_threads w)(i := None),
                        tw_collected := n # tw_collected w\<rparr>)
      | _ \<Rightarrow> w)"

definition throttle_run :: "throttle_event list \<Rightarrow> log_throttle \<Rightarrow> throttle_world" where
  "throttle_run es t = fold throttle_step es
     \<lparr>tw_throttle = t, tw_threads = Map.empty, tw_met = 0, tw_claims = [], tw_collected = []\<rparr>"

text \<open>The clock stays where adding the interval does not wrap around.\<close>

fun clock_fits :: "log_throttle \<Rightarrow> throttle_event \<Rightarrow> bool" where
  "clock_fits t (Occur _ now) \<longleftrightarrow>
     (now - lt_origin t) div 1000000 + max (lt_interval t div 1000000) 1 < 2 ^ 64"
| "clock_fits t _ \<longleftrightarrow> True"

text \<open>Consecutive claims, newest first, are at least the interval apart.\<close>

fun spaced :: "nat \<Rightarrow> u64 list \<Rightarrow> bool" where
  "spaced d [] \<longleftrightarrow> True"
| "spaced d [x] \<longleftrightarrow> True"
| "spaced d (x # y # zs) \<longleftrightarrow> unat y + d \<le> unat x \<and> spaced d (y # zs)"

subsection \<open>Lemmas\<close>

definition spaced_inv :: "log_throttle \<Rightarrow> throttle_world \<Rightarrow> bool" where
  "spaced_inv t0 w \<longleftrightarrow>
     (let d = max (lt_interval t0 div 1000000) 1 in
      lt_interval (tw_throttle w) = lt_interval t0 \<and> lt_origin (tw_throttle w) = lt_origin t0 \<and>
      spaced d (tw_claims w) \<and>
      (case tw_claims w of [] \<Rightarrow> True | x # _ \<Rightarrow> unat (lt_next_allowed_ms (tw_throttle w)) = unat x + d) \<and>
      (\<forall>i now_ms next_ms. tw_threads w i = Some (Claiming now_ms next_ms) \<longrightarrow>
         next_ms \<le> now_ms \<and> unat now_ms + d < 2 ^ 64))"

lemma throttle_step_spaced:
  assumes inv: "spaced_inv t0 w" and e: "clock_fits t0 e"
  shows "spaced_inv t0 (throttle_step e w)"
proof (cases e)
  case (Occur i now)
  let ?d = "max (lt_interval t0 div 1000000) 1" and ?n = "(now - lt_origin t0) div 1000000"
  have n: "?n + ?d < 2 ^ 64" using e Occur by simp
  then have ms: "unat (throttle_now_ms (tw_throttle w) now) = ?n"
    using inv by (simp add: throttle_now_ms_def spaced_inv_def Let_def unat_of_nat)
  show ?thesis
    using inv n ms Occur
    by (auto simp: spaced_inv_def Let_def throttle_load_def not_less split: list.splits)
next
  case (Exchange i)
  show ?thesis
  proof (cases "tw_threads w i")
    case (Some th)
    show ?thesis
    proof (cases th)
      case (Claiming now_ms next_ms)
      let ?d = "max (lt_interval t0 div 1000000) 1"
      have fit: "next_ms \<le> now_ms" "unat now_ms + ?d < 2 ^ 64"
        using inv Some Claiming by (auto simp: spaced_inv_def Let_def)
      have d: "unat (throttle_interval_ms (tw_throttle w)) = ?d"
        using inv fit(2) by (simp add: throttle_interval_ms_def spaced_inv_def Let_def unat_of_nat)
      then have sum: "unat (now_ms + throttle_interval_ms (tw_throttle w)) = unat now_ms + ?d"
        using fit(2) unat_add_lem [of now_ms "throttle_interval_ms (tw_throttle w)"] by simp
      have "spaced ?d (now_ms # tw_claims w)" if "lt_next_allowed_ms (tw_throttle w) = next_ms"
        using inv fit(1) that by (cases "tw_claims w") (auto simp: spaced_inv_def Let_def word_le_nat_alt)
      then show ?thesis
        using inv Exchange Some Claiming sum
        by (cases "tw_claims w") (auto simp: spaced_inv_def Let_def throttle_exchange_def)
    qed (use inv Exchange Some in simp)
  qed (use inv Exchange in simp)
next
  case (Gather i)
  then show ?thesis
    using inv by (cases "tw_claims w")
      (auto simp: spaced_inv_def Let_def throttle_swap_def split: option.splits throttle_thread.splits)
qed

lemma throttle_run_spaced:
  "spaced_inv t0 w \<Longrightarrow> list_all (clock_fits t0) es \<Longrightarrow> spaced_inv t0 (fold throttle_step es w)"
  by (induction es arbitrary: w) (simp_all add: throttle_step_spaced)

text \<open>
  At most one line per interval.  However many threads meet the throttle at once, the times of the
  occurrences that are logged are at least the interval (and at least a millisecond) apart.
\<close>

theorem logged_lines_are_spaced:
  assumes "list_all (clock_fits (new_log_throttle interval origin)) es"
  shows "spaced (max (interval div 1000000) 1)
    (tw_claims (throttle_run es (new_log_throttle interval origin)))"
proof -
  have "spaced_inv (new_log_throttle interval origin) (throttle_run es (new_log_throttle interval origin))"
    unfolding throttle_run_def using assms
    by (intro throttle_run_spaced) (simp_all add: spaced_inv_def new_log_throttle_def Let_def)
  then show ?thesis by (simp add: spaced_inv_def Let_def new_log_throttle_def)
qed

definition burst_of_two :: "throttle_event list" where
  "burst_of_two = [Occur 0 0, Occur 1 0, Exchange 1, Exchange 0, Gather 1, Occur 2 1500000000, Exchange 2, Gather 2]"

lemmas throttle_eval = burst_of_two_def throttle_run_def new_log_throttle_def throttle_now_ms_def throttle_load_def
  throttle_exchange_def throttle_swap_def throttle_interval_ms_def

theorem logged_lines_are_spaced_witness:
  "spaced 1000 (tw_claims (throttle_run burst_of_two (new_log_throttle 1000000000 0)))"
  using logged_lines_are_spaced [of 1000000000 0 burst_of_two]
  by (simp add: burst_of_two_def new_log_throttle_def)

subsection \<open>Accounting\<close>

definition claiming :: "(nat \<Rightarrow> throttle_thread option) \<Rightarrow> nat set" where
  "claiming T = {i. \<exists>a b. T i = Some (Claiming a b)}"

lemma claiming_upd [simp]:
  "claiming (T(i \<mapsto> Claiming a b)) = insert i (claiming T)"
  "claiming (T(i \<mapsto> Collecting)) = claiming T - {i}"
  "claiming (T(i := None)) = claiming T - {i}"
  by (auto simp: claiming_def)

definition account_inv :: "nat \<Rightarrow> throttle_world \<Rightarrow> bool" where
  "account_inv n w \<longleftrightarrow> finite (claiming (tw_threads w)) \<and> tw_met w \<le> n \<and>
     tw_met w = length (tw_claims w) + sum_list (map unat (tw_collected w)) +
       unat (lt_suppressed (tw_throttle w)) + card (claiming (tw_threads w))"

lemma suppressed_room:
  assumes "account_inv n w" "n < 2 ^ 64 - 1"
  shows "unat (lt_suppressed (tw_throttle w) + 1) = Suc (unat (lt_suppressed (tw_throttle w)))"
proof (rule unat_Suc_below)
  have "unat (lt_suppressed (tw_throttle w)) < 2 ^ 64 - 1" using assms by (simp add: account_inv_def)
  then show "lt_suppressed (tw_throttle w) < - 1"
    by (simp add: word_less_nat_alt unsigned_minus_1_eq_mask mask_eq_exp_minus_1)
qed

lemma throttle_step_account:
  assumes inv: "account_inv n w" and small: "n < 2 ^ 64 - 1"
  shows "account_inv (Suc n) (throttle_step e w)"
proof -
  note room = suppressed_room [OF inv small]
  have up: "account_inv (Suc n) w" using inv by (simp add: account_inv_def)
  show ?thesis
  proof (cases e)
    case (Occur i now)
    show ?thesis
    proof (cases "tw_threads w i")
      case None
      then have "i \<notin> claiming (tw_threads w)" by (simp add: claiming_def)
      then show ?thesis
        using inv room Occur None by (simp add: account_inv_def throttle_load_def Let_def)
    qed (use up Occur in simp)
  next
    case (Exchange i)
    show ?thesis
    proof (cases "tw_threads w i")
      case (Some th)
      show ?thesis
      proof (cases th)
        case (Claiming a b)
        have i: "i \<in> claiming (tw_threads w)" using Some Claiming by (auto simp: claiming_def)
        then have pos: "0 < card (claiming (tw_threads w))" using inv by (auto simp: account_inv_def card_gt_0_iff)
        show ?thesis
          using inv room Exchange Some Claiming i pos by (simp add: account_inv_def throttle_exchange_def)
      qed (use up Exchange Some in simp)
    qed (use up Exchange in simp)
  next
    case (Gather i)
    show ?thesis
    proof (cases "tw_threads w i = Some Collecting")
      case True
      then have "claiming (tw_threads w) - {i} = claiming (tw_threads w)" by (auto simp: claiming_def)
      then show ?thesis using inv Gather True by (simp add: account_inv_def throttle_swap_def)
    next
      case False
      then show ?thesis
        using up Gather by (auto split: option.split throttle_thread.split)
    qed
  qed
qed

lemma throttle_run_account:
  "account_inv n w \<Longrightarrow> n + length es < 2 ^ 64 \<Longrightarrow> account_inv (n + length es) (fold throttle_step es w)"
proof (induction es arbitrary: n w)
  case (Cons e es)
  have "account_inv (Suc n) (throttle_step e w)" using Cons.prems by (intro throttle_step_account) simp_all
  from Cons.IH [OF this] Cons.prems(2) show ?case by simp
qed simp

text \<open>
  Nothing is left out silently.  When no thread is inside the throttle, every occurrence it met was
  logged, or is in the number that some logged line carries, or waits in the counter for the next line.
\<close>

theorem skipped_occurrences_are_counted:
  assumes "length es < 2 ^ 64" and w: "w = throttle_run es (new_log_throttle interval origin)"
    and "tw_threads w = Map.empty"
  shows "tw_met w = length (tw_claims w) + sum_list (map unat (tw_collected w)) +
    unat (lt_suppressed (tw_throttle w))"
proof -
  let ?w = "\<lparr>tw_throttle = new_log_throttle interval origin, tw_threads = Map.empty, tw_met = 0,
    tw_claims = [], tw_collected = []\<rparr>"
  have "account_inv 0 ?w" by (simp add: account_inv_def claiming_def new_log_throttle_def)
  from throttle_run_account [OF this, of es] assms(1) have "account_inv (length es) w"
    by (simp add: w throttle_run_def)
  moreover have "claiming (tw_threads w) = {}" using assms(3) by (simp add: claiming_def)
  ultimately show ?thesis by (simp add: account_inv_def)
qed

theorem skipped_occurrences_are_counted_witness:
  "tw_met (throttle_run burst_of_two (new_log_throttle 1000000000 0)) = 3 \<and>
   length (tw_claims (throttle_run burst_of_two (new_log_throttle 1000000000 0))) = 2"
proof -
  let ?w = "throttle_run burst_of_two (new_log_throttle 1000000000 0)"
  have "tw_threads ?w = Map.empty" "length (tw_claims ?w) = 2" "map unat (tw_collected ?w) = [0, 1]"
      "lt_suppressed (tw_throttle ?w) = 0"
    by (simp_all add: throttle_eval fun_eq_iff word_less_nat_alt)
  with skipped_occurrences_are_counted [of burst_of_two ?w 1000000000 0] show ?thesis
    by (simp add: burst_of_two_def)
qed

end
