(* ===== verification/Runtime_Store.thy ===== *)
theory Runtime_Store
  imports Account_State
begin

text \<open>
  What the database keeps of an account's health (\<open>src/storage/postgres.rs\<close>): the row of
  \<open>credential_runtime_state\<close>, the ledger \<open>credential_runtime_mutations\<close> of the operations
  already applied, the \<open>disabled\<close> flag of \<open>credentials\<close> and the last use in
  \<open>credential_stats\<close>.  Every function that changes them is one transaction: it locks the
  account's row of \<open>credentials\<close> first, so the transactions on one account follow each other,
  and a failure inside leaves the database as it was.  A transaction is therefore a function
  from the database to an error or to its result with the database it commits.

  Columns are integers at their SQL width: \<open>INTEGER\<close> and \<open>BIGINT\<close> arithmetic that leaves the
  range is an error and never wraps.  What the time stamps mean (\<open>chrono\<close>'s RFC 3339 parser and
  the cast to \<open>timestamptz\<close>) is an argument.  Columns no modelled statement reads
  (\<open>updated_at\<close>, the JSON copy of the flag) are left out.

  The ledger ages: a row carries the time its operation was last seen, read off the database's
  clock (\<open>db_clock\<close>, in microseconds; \<open>now()\<close> is one reading for a whole transaction), and the
  clean-up every instance runs once a minute deletes rows older than the retention.
\<close>

subsection \<open>Tables\<close>

type_synonym uuid = "128 word"

record runtime_state_row =
  row_failure_count :: u32
  row_refresh_failure_count :: u32
  row_disabled_reason :: "string option"
  row_warmup_remaining :: u32
  row_generation :: u64
  row_revision :: u64

record runtime_columns =
  col_failure_count :: int
  col_refresh_failure_count :: int
  col_disabled_reason :: "string option"
  col_warmup_remaining :: int
  col_generation :: int
  col_revision :: int

record credential_row =
  row_disabled :: bool
  credential_revision :: int

record mutation_row =
  mutation_credential_id :: u64
  mutation_kind :: string
  applied_revision :: int
  mutation_created_at :: int

record runtime_db =
  live_credentials :: "u64 \<rightharpoonup> credential_row"
  runtime_rows :: "u64 \<rightharpoonup> runtime_columns"
  mutation_rows :: "uuid \<rightharpoonup> mutation_row"
  last_uses :: "u64 \<rightharpoonup> string option"
  db_clock :: int

datatype disabled_reason_patch = Preserve | Set_reason string | Clear_reason

record runtime_state_patch =
  patch_failure_count :: "u32 option"
  patch_refresh_failure_count :: "u32 option"
  patch_disabled_reason :: disabled_reason_patch
  patch_warmup_remaining :: "u32 option"
  patch_credential_disabled :: "bool option"
  patch_last_used_at :: "string option"
  patch_expected_generation :: "u64 option"
  patch_advance_generation :: bool

definition default_patch :: runtime_state_patch where
  "default_patch = \<lparr>patch_failure_count = None, patch_refresh_failure_count = None,
     patch_disabled_reason = Preserve, patch_warmup_remaining = None,
     patch_credential_disabled = None, patch_last_used_at = None,
     patch_expected_generation = None, patch_advance_generation = False\<rparr>"

record mutation_result =
  result_state :: runtime_state_row
  result_credential_disabled :: bool
  result_applied :: bool

record runtime_state_snapshot =
  snapshot_state :: runtime_state_row
  snapshot_expected_revision :: u64

datatype cas_outcome = Cas_Applied runtime_state_row | Cas_Conflict "runtime_state_row option"

datatype preparation = Prep_Apply u64 u64 bool | Prep_Duplicate runtime_state_row bool
  | Prep_Stale runtime_state_row bool

datatype store_error = Credential_missing | Operation_reused | Generation_ahead
  | Revision_overflow | Generation_limit | Count_range | Generation_range | Snapshot_revision
  | Revision_mismatch | Generation_mismatch | Bad_timestamp | Sql_range | Row_missing
  | Retention_range | Unreachable

type_synonym 'a tx = "runtime_db \<Rightarrow> store_error + 'a \<times> runtime_db"

record timestamps =
  parses_rfc3339 :: "string \<Rightarrow> bool"
  timestamptz :: "string \<Rightarrow> int"

subsection \<open>Statements\<close>

definition fits_i32 :: "int \<Rightarrow> bool" where
  "fits_i32 n \<longleftrightarrow> - (2 ^ 31) \<le> n \<and> n < 2 ^ 31"

definition fits_i64 :: "int \<Rightarrow> bool" where
  "fits_i64 n \<longleftrightarrow> - (2 ^ 63) \<le> n \<and> n < 2 ^ 63"

definition runtime_state_from_row :: "runtime_columns \<Rightarrow> runtime_state_row" where
  "runtime_state_from_row c = \<lparr>row_failure_count = word_of_int (max (col_failure_count c) 0),
     row_refresh_failure_count = word_of_int (max (col_refresh_failure_count c) 0),
     row_disabled_reason = col_disabled_reason c,
     row_warmup_remaining = word_of_int (max (col_warmup_remaining c) 0),
     row_generation = word_of_int (max (col_generation c) 0),
     row_revision = word_of_int (max (col_revision c) 0)\<rparr>"

definition verify_runtime_mutation_revision :: "runtime_state_row \<Rightarrow> u64 \<Rightarrow> store_error option" where
  "verify_runtime_mutation_revision state expected =
     (if row_revision state \<noteq> expected then Some Revision_mismatch else None)"

definition verify_runtime_mutation_generation :: "runtime_state_row \<Rightarrow> u64 \<Rightarrow> store_error option" where
  "verify_runtime_mutation_generation state expected =
     (if row_generation state \<noteq> expected then Some Generation_mismatch else None)"

definition runtime_state_count_to_i32 :: "u32 option \<Rightarrow> store_error + int option" where
  "runtime_state_count_to_i32 v = (case v of None \<Rightarrow> Inr None
     | Some n \<Rightarrow> if fits_i32 (uint n) then Inr (Some (uint n)) else Inl Count_range)"

definition validate_rfc3339_timestamp :: "timestamps \<Rightarrow> string \<Rightarrow> store_error option" where
  "validate_rfc3339_timestamp ts v = (if parses_rfc3339 ts v then None else Some Bad_timestamp)"

definition count_fits :: "u32 option \<Rightarrow> bool" where
  "count_fits v \<longleftrightarrow> (case v of None \<Rightarrow> True | Some n \<Rightarrow> fits_i32 (uint n))"

definition validate_credential_runtime_state_patch ::
    "timestamps \<Rightarrow> runtime_state_patch \<Rightarrow> store_error option" where
  "validate_credential_runtime_state_patch ts p =
     (if \<not> count_fits (patch_failure_count p) then Some Count_range
      else if \<not> count_fits (patch_refresh_failure_count p) then Some Count_range
      else if \<not> count_fits (patch_warmup_remaining p) then Some Count_range
      else if (case patch_expected_generation p of None \<Rightarrow> False
               | Some g \<Rightarrow> \<not> fits_i64 (uint g)) then Some Generation_range
      else case patch_last_used_at p of None \<Rightarrow> None
         | Some t \<Rightarrow> validate_rfc3339_timestamp ts t)"

definition lock_active_credential_in_tx :: "u64 \<Rightarrow> bool tx" where
  "lock_active_credential_in_tx cid db = (case live_credentials db cid of
       None \<Rightarrow> Inl Credential_missing
     | Some c \<Rightarrow> Inr (row_disabled c, db))"

definition persist_credential_disabled_flag_in_tx :: "u64 \<Rightarrow> bool \<Rightarrow> unit tx" where
  "persist_credential_disabled_flag_in_tx cid flag db = (case live_credentials db cid of
       None \<Rightarrow> Inl Credential_missing
     | Some c \<Rightarrow> if fits_i64 (credential_revision c + 1)
         then Inr ((), db\<lparr>live_credentials := (live_credentials db)(cid \<mapsto>
           \<lparr>row_disabled = flag, credential_revision = credential_revision c + 1\<rparr>)\<rparr>)
         else Inl Sql_range)"

definition upsert_last_used_at :: "timestamps \<Rightarrow> u64 \<Rightarrow> string \<Rightarrow> unit tx" where
  "upsert_last_used_at ts cid t db = (case validate_rfc3339_timestamp ts t of
       Some e \<Rightarrow> Inl e
     | None \<Rightarrow> Inr ((), db\<lparr>last_uses := (last_uses db)(cid \<mapsto>
         (case last_uses db cid of
            Some (Some old) \<Rightarrow> if timestamptz ts t \<ge> timestamptz ts old then Some t else Some old
          | _ \<Rightarrow> Some t))\<rparr>))"

definition default_columns :: runtime_columns where
  "default_columns = \<lparr>col_failure_count = 0, col_refresh_failure_count = 0,
     col_disabled_reason = None, col_warmup_remaining = 0, col_generation = 0, col_revision = 0\<rparr>"

definition columns_of :: "runtime_db \<Rightarrow> u64 \<Rightarrow> runtime_columns" where
  "columns_of db cid = (case runtime_rows db cid of None \<Rightarrow> default_columns | Some c \<Rightarrow> c)"

definition insert_default_row :: "u64 \<Rightarrow> runtime_db \<Rightarrow> runtime_db" where
  "insert_default_row cid db = db\<lparr>runtime_rows := (runtime_rows db)(cid \<mapsto> columns_of db cid)\<rparr>"

definition int4 :: "int \<Rightarrow> int option" where
  "int4 n = (if fits_i32 n then Some n else None)"

definition int8 :: "int \<Rightarrow> int option" where
  "int8 n = (if fits_i64 n then Some n else None)"

definition update_runtime_row ::
    "u64 \<Rightarrow> (runtime_columns \<Rightarrow> runtime_columns option) \<Rightarrow> runtime_state_row tx" where
  "update_runtime_row cid f db = (case runtime_rows db cid of
       None \<Rightarrow> Inl Row_missing
     | Some c \<Rightarrow> (case f c of
         None \<Rightarrow> Inl Sql_range
       | Some c' \<Rightarrow> Inr (runtime_state_from_row c',
           db\<lparr>runtime_rows := (runtime_rows db)(cid \<mapsto> c')\<rparr>)))"

definition insert_mutation :: "uuid \<Rightarrow> u64 \<Rightarrow> string \<Rightarrow> int \<Rightarrow> int option tx" where
  "insert_mutation op cid kind revision db = (case mutation_rows db op of
       Some _ \<Rightarrow> Inr (None, db)
     | None \<Rightarrow> Inr (Some revision, db\<lparr>mutation_rows := (mutation_rows db)(op \<mapsto>
         \<lparr>mutation_credential_id = cid, mutation_kind = kind, applied_revision = revision,
          mutation_created_at = db_clock db\<rparr>)\<rparr>))"

definition touch_mutation :: "uuid \<Rightarrow> runtime_db \<Rightarrow> runtime_db" where
  "touch_mutation op db = db\<lparr>mutation_rows := (mutation_rows db)(op :=
     map_option (\<lambda>m. m\<lparr>mutation_created_at := db_clock db\<rparr>) (mutation_rows db op))\<rparr>"

subsection \<open>Transactions\<close>

definition tx_bind :: "'a tx \<Rightarrow> ('a \<Rightarrow> 'b tx) \<Rightarrow> 'b tx" where
  "tx_bind m k db = (case m db of Inl e \<Rightarrow> Inl e | Inr (x, db') \<Rightarrow> k x db')"

definition tx_return :: "'a \<Rightarrow> 'a tx" where
  "tx_return x db = Inr (x, db)"

definition tx_fail :: "store_error \<Rightarrow> 'a tx" where
  "tx_fail e db = Inl e"

definition tx_check :: "store_error option \<Rightarrow> unit tx" where
  "tx_check v db = (case v of None \<Rightarrow> Inr ((), db) | Some e \<Rightarrow> Inl e)"

definition tx_read :: "(runtime_db \<Rightarrow> 'a) \<Rightarrow> 'a tx" where
  "tx_read f db = Inr (f db, db)"

definition tx_modify :: "(runtime_db \<Rightarrow> runtime_db) \<Rightarrow> unit tx" where
  "tx_modify f db = Inr ((), f db)"

definition tx_value :: "store_error + 'a \<Rightarrow> 'a tx" where
  "tx_value v db = (case v of Inl e \<Rightarrow> Inl e | Inr x \<Rightarrow> Inr (x, db))"

definition lock_runtime_state :: "u64 \<Rightarrow> runtime_state_row tx" where
  "lock_runtime_state cid = tx_bind (tx_modify (insert_default_row cid))
     (\<lambda>_. tx_read (\<lambda>db. runtime_state_from_row (columns_of db cid)))"

definition recognise_operation ::
    "uuid \<Rightarrow> mutation_row \<Rightarrow> u64 \<Rightarrow> string \<Rightarrow> runtime_state_row \<Rightarrow> bool \<Rightarrow> preparation tx" where
  "recognise_operation op m cid kind state flag =
     (if mutation_credential_id m \<noteq> cid \<or> mutation_kind m \<noteq> kind then tx_fail Operation_reused
      else tx_bind (tx_modify (touch_mutation op)) (\<lambda>_.
        tx_return (Prep_Duplicate state flag)))"

definition record_operation ::
    "u64 \<Rightarrow> uuid \<Rightarrow> string \<Rightarrow> runtime_state_row \<Rightarrow> bool \<Rightarrow> preparation tx" where
  "record_operation cid op kind state flag =
     (if row_revision state = - 1 then tx_fail Revision_overflow
      else if \<not> fits_i64 (uint (row_revision state + 1)) then tx_fail Revision_overflow
      else tx_bind (insert_mutation op cid kind (uint (row_revision state + 1)))
        (\<lambda>inserted. case inserted of
           Some r \<Rightarrow> if r \<noteq> uint (row_revision state + 1) then tx_fail Revision_mismatch
             else tx_return (Prep_Apply (row_revision state + 1) (row_generation state) flag)
         | None \<Rightarrow> tx_bind (tx_read (\<lambda>db. mutation_rows db op))
             (\<lambda>existing. case existing of
                None \<Rightarrow> tx_fail Row_missing
              | Some m \<Rightarrow> recognise_operation op m cid kind state flag)))"

definition prepare_credential_runtime_mutation ::
    "u64 \<Rightarrow> uuid \<Rightarrow> string \<Rightarrow> u64 option \<Rightarrow> preparation tx" where
  "prepare_credential_runtime_mutation cid op kind expected =
     tx_bind (lock_active_credential_in_tx cid) (\<lambda>flag.
     tx_bind (lock_runtime_state cid) (\<lambda>state.
     tx_bind (tx_read (\<lambda>db. mutation_rows db op)) (\<lambda>existing.
       case existing of
         Some m \<Rightarrow> recognise_operation op m cid kind state flag
       | None \<Rightarrow> (case expected of
             None \<Rightarrow> record_operation cid op kind state flag
           | Some g \<Rightarrow> if g < row_generation state then tx_return (Prep_Stale state flag)
               else if row_generation state < g then tx_fail Generation_ahead
               else record_operation cid op kind state flag))))"

definition finish_prepared ::
    "preparation \<Rightarrow> (u64 \<Rightarrow> u64 \<Rightarrow> bool \<Rightarrow> mutation_result tx) \<Rightarrow> mutation_result tx" where
  "finish_prepared prep body = (case prep of
       Prep_Apply next_rev generation flag \<Rightarrow> body next_rev generation flag
     | Prep_Duplicate state flag \<Rightarrow> tx_return \<lparr>result_state = state,
         result_credential_disabled = flag, result_applied = True\<rparr>
     | Prep_Stale state flag \<Rightarrow> tx_return \<lparr>result_state = state,
         result_credential_disabled = flag, result_applied = False\<rparr>)"

definition success_columns :: "int \<Rightarrow> runtime_columns \<Rightarrow> runtime_columns option" where
  "success_columns decrement c = (case (int4 (col_warmup_remaining c - decrement),
       int8 (col_revision c + 1)) of
     (Some w, Some r) \<Rightarrow> Some (c\<lparr>col_failure_count := 0, col_refresh_failure_count := 0,
       col_warmup_remaining := max w 0, col_revision := r\<rparr>)
   | _ \<Rightarrow> None)"

definition success_decrement :: "u32 \<Rightarrow> int" where
  "success_decrement n = (let m = max n 1 in if fits_i32 (uint m) then uint m else 2 ^ 31 - 1)"

definition write_success :: "u64 \<Rightarrow> int \<Rightarrow> u64 \<Rightarrow> bool \<Rightarrow> mutation_result tx" where
  "write_success cid decrement next_rev flag =
     tx_bind (update_runtime_row cid (success_columns decrement)) (\<lambda>state.
     tx_bind (tx_check (verify_runtime_mutation_revision state next_rev)) (\<lambda>_.
       tx_return \<lparr>result_state = state, result_credential_disabled = flag,
         result_applied = True\<rparr>))"

definition record_credential_success_with_expected_generation ::
    "u64 \<Rightarrow> uuid \<Rightarrow> u64 option \<Rightarrow> u32 \<Rightarrow> mutation_result tx" where
  "record_credential_success_with_expected_generation cid op expected n =
     tx_bind (prepare_credential_runtime_mutation cid op ''success'' expected) (\<lambda>prep.
       finish_prepared prep (\<lambda>next_rev _ flag. write_success cid (success_decrement n) next_rev flag))"

definition runtime_dirty :: "runtime_state_row \<Rightarrow> bool" where
  "runtime_dirty state \<longleftrightarrow> row_failure_count state > 0 \<or> row_refresh_failure_count state > 0 \<or>
     row_disabled_reason state \<noteq> None \<or> row_warmup_remaining state > 0"

definition record_credential_success_if_runtime_dirty_at_generation ::
    "u64 \<Rightarrow> uuid \<Rightarrow> u64 \<Rightarrow> mutation_result tx" where
  "record_credential_success_if_runtime_dirty_at_generation cid op expected =
     tx_bind (lock_active_credential_in_tx cid) (\<lambda>flag.
     tx_bind (lock_runtime_state cid) (\<lambda>state.
       if expected < row_generation state then tx_return \<lparr>result_state = state,
         result_credential_disabled = flag, result_applied = False\<rparr>
       else if row_generation state < expected then tx_fail Generation_ahead
       else if \<not> runtime_dirty state then tx_return \<lparr>result_state = state,
         result_credential_disabled = flag, result_applied = False\<rparr>
       else tx_bind (prepare_credential_runtime_mutation cid op ''success'' (Some expected))
         (\<lambda>prep. finish_prepared prep (\<lambda>next_rev _ flag'. write_success cid 1 next_rev flag'))))"

definition api_failure_columns :: "int \<Rightarrow> runtime_columns \<Rightarrow> runtime_columns option" where
  "api_failure_columns limit c = (case (int4 (col_failure_count c + 1), int8 (col_revision c + 1)) of
     (Some n, Some r) \<Rightarrow> Some (c\<lparr>col_failure_count := n,
       col_disabled_reason := (if n \<ge> limit then Some ''TooManyFailures'' else col_disabled_reason c),
       col_revision := r\<rparr>)
   | _ \<Rightarrow> None)"

definition refresh_failure_columns :: "int \<Rightarrow> runtime_columns \<Rightarrow> runtime_columns option" where
  "refresh_failure_columns limit c =
     (case (int4 (col_refresh_failure_count c + 1), int8 (col_revision c + 1)) of
     (Some n, Some r) \<Rightarrow> Some (c\<lparr>col_refresh_failure_count := n,
       col_disabled_reason := (if n \<ge> limit then Some ''TooManyRefreshFailures''
                               else col_disabled_reason c),
       col_revision := r\<rparr>)
   | _ \<Rightarrow> None)"

definition write_failure ::
    "timestamps \<Rightarrow> u64 \<Rightarrow> (runtime_columns \<Rightarrow> runtime_columns option) \<Rightarrow> string \<Rightarrow> string \<Rightarrow> u64 \<Rightarrow>
     bool \<Rightarrow> mutation_result tx" where
  "write_failure ts cid f reason used_at next_rev flag =
     tx_bind (upsert_last_used_at ts cid used_at) (\<lambda>_.
     tx_bind (update_runtime_row cid f) (\<lambda>state.
     tx_bind (tx_check (verify_runtime_mutation_revision state next_rev)) (\<lambda>_.
       if row_disabled_reason state = Some reason
       then tx_bind (persist_credential_disabled_flag_in_tx cid True) (\<lambda>_.
         tx_return \<lparr>result_state = state, result_credential_disabled = True, result_applied = True\<rparr>)
       else tx_return \<lparr>result_state = state, result_credential_disabled = flag,
         result_applied = True\<rparr>)))"

definition record_credential_api_failure_with_expected_generation ::
    "timestamps \<Rightarrow> u64 \<Rightarrow> uuid \<Rightarrow> u64 option \<Rightarrow> string \<Rightarrow> u32 \<Rightarrow> mutation_result tx" where
  "record_credential_api_failure_with_expected_generation ts cid op expected used_at limit =
     tx_bind (prepare_credential_runtime_mutation cid op ''api_failure'' expected) (\<lambda>prep.
       finish_prepared prep (\<lambda>next_rev _ flag.
         write_failure ts cid (api_failure_columns (sint limit)) ''TooManyFailures'' used_at
           next_rev flag))"

definition record_credential_refresh_failure_with_expected_generation ::
    "timestamps \<Rightarrow> u64 \<Rightarrow> uuid \<Rightarrow> u64 option \<Rightarrow> string \<Rightarrow> u32 \<Rightarrow> mutation_result tx" where
  "record_credential_refresh_failure_with_expected_generation ts cid op expected used_at limit =
     tx_bind (prepare_credential_runtime_mutation cid op ''refresh_failure'' expected) (\<lambda>prep.
       finish_prepared prep (\<lambda>next_rev _ flag.
         write_failure ts cid (refresh_failure_columns (sint limit)) ''TooManyRefreshFailures''
           used_at next_rev flag))"

definition heal_columns :: "runtime_columns \<Rightarrow> runtime_columns option" where
  "heal_columns c = (case (int8 (col_generation c + 1), int8 (col_revision c + 1)) of
     (Some g, Some r) \<Rightarrow> Some (c\<lparr>col_failure_count := 0, col_disabled_reason := None,
       col_generation := g, col_revision := r\<rparr>)
   | _ \<Rightarrow> None)"

definition heal_credential_api_failures :: "u64 \<Rightarrow> runtime_state_row option tx" where
  "heal_credential_api_failures cid =
     tx_bind (lock_active_credential_in_tx cid) (\<lambda>_.
     tx_bind (tx_read (\<lambda>db. runtime_rows db cid)) (\<lambda>row.
       case row of
         None \<Rightarrow> tx_return None
       | Some c \<Rightarrow> if col_disabled_reason c \<noteq> Some ''TooManyFailures'' then tx_return None
           else tx_bind (update_runtime_row cid heal_columns) (\<lambda>state.
             tx_bind (persist_credential_disabled_flag_in_tx cid False) (\<lambda>_.
               tx_return (Some state)))))"

definition patch_columns :: "runtime_state_patch \<Rightarrow> runtime_columns \<Rightarrow> runtime_columns option" where
  "patch_columns p c =
     (case (int8 (col_generation c + (if patch_advance_generation p then 1 else 0)),
            int8 (col_revision c + 1)) of
     (Some g, Some r) \<Rightarrow> Some (c\<lparr>
       col_failure_count := (case patch_failure_count p of None \<Rightarrow> col_failure_count c
                             | Some n \<Rightarrow> uint n),
       col_refresh_failure_count := (case patch_refresh_failure_count p of
           None \<Rightarrow> col_refresh_failure_count c | Some n \<Rightarrow> uint n),
       col_disabled_reason := (case patch_disabled_reason p of
           Preserve \<Rightarrow> col_disabled_reason c | Set_reason v \<Rightarrow> Some v | Clear_reason \<Rightarrow> None),
       col_warmup_remaining := (case patch_warmup_remaining p of
           None \<Rightarrow> col_warmup_remaining c | Some n \<Rightarrow> uint n),
       col_generation := g,
       col_revision := r\<rparr>)
   | _ \<Rightarrow> None)"

definition patch_generation :: "runtime_state_patch \<Rightarrow> u64 \<Rightarrow> store_error + u64" where
  "patch_generation p current =
     (if patch_advance_generation p
      then if current = - 1 \<or> \<not> fits_i64 (uint (current + 1)) then Inl Generation_limit
           else Inr (current + 1)
      else Inr current)"

definition write_patch ::
    "timestamps \<Rightarrow> u64 \<Rightarrow> runtime_state_patch \<Rightarrow> u64 \<Rightarrow> u64 \<Rightarrow> bool \<Rightarrow> mutation_result tx" where
  "write_patch ts cid p next_rev current flag =
     tx_bind (tx_value (patch_generation p current)) (\<lambda>next_generation.
     tx_bind (case patch_last_used_at p of None \<Rightarrow> tx_return ()
              | Some t \<Rightarrow> upsert_last_used_at ts cid t) (\<lambda>_.
     tx_bind (update_runtime_row cid (patch_columns p)) (\<lambda>state.
     tx_bind (tx_check (verify_runtime_mutation_revision state next_rev)) (\<lambda>_.
     tx_bind (tx_check (verify_runtime_mutation_generation state next_generation)) (\<lambda>_.
       case patch_credential_disabled p of
         None \<Rightarrow> tx_return \<lparr>result_state = state, result_credential_disabled = flag,
           result_applied = True\<rparr>
       | Some v \<Rightarrow> tx_bind (persist_credential_disabled_flag_in_tx cid v) (\<lambda>_.
           tx_return \<lparr>result_state = state, result_credential_disabled = v,
             result_applied = True\<rparr>))))))"

definition patch_credential_runtime_state_in_tx ::
    "timestamps \<Rightarrow> u64 \<Rightarrow> uuid \<Rightarrow> string \<Rightarrow> runtime_state_patch \<Rightarrow> mutation_result tx" where
  "patch_credential_runtime_state_in_tx ts cid op kind p =
     tx_bind (tx_value (runtime_state_count_to_i32 (patch_failure_count p))) (\<lambda>_.
     tx_bind (tx_value (runtime_state_count_to_i32 (patch_refresh_failure_count p))) (\<lambda>_.
     tx_bind (tx_value (runtime_state_count_to_i32 (patch_warmup_remaining p))) (\<lambda>_.
     tx_bind (prepare_credential_runtime_mutation cid op kind (patch_expected_generation p)) (\<lambda>prep.
       finish_prepared prep (write_patch ts cid p)))))"

definition patch_credential_runtime_state_with_kind ::
    "timestamps \<Rightarrow> u64 \<Rightarrow> uuid \<Rightarrow> string \<Rightarrow> runtime_state_patch \<Rightarrow> mutation_result tx" where
  "patch_credential_runtime_state_with_kind ts cid op kind p =
     tx_bind (tx_check (validate_credential_runtime_state_patch ts p)) (\<lambda>_.
       patch_credential_runtime_state_in_tx ts cid op kind p)"

definition disable_patch ::
    "u64 option \<Rightarrow> string \<Rightarrow> u32 option \<Rightarrow> u32 option \<Rightarrow> string \<Rightarrow> runtime_state_patch" where
  "disable_patch expected reason failures refresh_failures used_at =
     default_patch\<lparr>patch_failure_count := failures,
       patch_refresh_failure_count := refresh_failures,
       patch_disabled_reason := Set_reason reason, patch_credential_disabled := Some True,
       patch_last_used_at := Some used_at, patch_expected_generation := expected\<rparr>"

definition mark_credential_disabled_with_expected_generation ::
    "timestamps \<Rightarrow> u64 \<Rightarrow> uuid \<Rightarrow> u64 option \<Rightarrow> string \<Rightarrow> u32 option \<Rightarrow> u32 option \<Rightarrow> string \<Rightarrow>
     mutation_result tx" where
  "mark_credential_disabled_with_expected_generation ts cid op expected reason failures
       refresh_failures used_at =
     patch_credential_runtime_state_with_kind ts cid op ''disable''
       (disable_patch expected reason failures refresh_failures used_at)"

definition snapshot_columns :: "runtime_state_row \<Rightarrow> int \<Rightarrow> int \<Rightarrow> runtime_columns" where
  "snapshot_columns v generation revision =
     \<lparr>col_failure_count = sint (row_failure_count v),
      col_refresh_failure_count = sint (row_refresh_failure_count v),
      col_disabled_reason = row_disabled_reason v,
      col_warmup_remaining = sint (row_warmup_remaining v),
      col_generation = generation, col_revision = revision\<rparr>"

definition swap_snapshot :: "u64 \<Rightarrow> runtime_state_row \<Rightarrow> u64 \<Rightarrow> runtime_columns option tx" where
  "swap_snapshot cid v expected db =
     (let generation = uint (row_generation v) in
      case runtime_rows db cid of
        None \<Rightarrow> if expected = 0
          then let c = snapshot_columns v generation 1 in
            Inr (Some c, db\<lparr>runtime_rows := (runtime_rows db)(cid \<mapsto> c)\<rparr>)
          else Inr (None, db)
      | Some old \<Rightarrow>
          if expected \<noteq> 0 \<and> col_generation old = generation \<and> col_revision old = uint expected
          then (case int8 (col_revision old + 1) of
              None \<Rightarrow> Inl Sql_range
            | Some r \<Rightarrow> let c = snapshot_columns v generation r in
                Inr (Some c, db\<lparr>runtime_rows := (runtime_rows db)(cid \<mapsto> c)\<rparr>))
          else Inr (None, db))"

definition save_credential_runtime_state_snapshot ::
    "u64 \<Rightarrow> runtime_state_snapshot \<Rightarrow> cas_outcome tx" where
  "save_credential_runtime_state_snapshot cid s =
     (let v = snapshot_state s; expected = snapshot_expected_revision s in
      if row_revision v \<noteq> expected then tx_fail Snapshot_revision
      else if \<not> fits_i64 (uint expected) then tx_fail Revision_overflow
      else if \<not> fits_i64 (uint (row_generation v)) then tx_fail Generation_range
      else if expected = - 1 \<or> \<not> fits_i64 (uint (expected + 1)) then tx_fail Revision_overflow
      else tx_bind (lock_active_credential_in_tx cid) (\<lambda>_.
        tx_bind (swap_snapshot cid v expected) (\<lambda>swapped.
          case swapped of
            Some c \<Rightarrow> let state = runtime_state_from_row c in
              tx_bind (tx_check (verify_runtime_mutation_revision state (expected + 1))) (\<lambda>_.
              tx_bind (tx_check (verify_runtime_mutation_generation state (row_generation v))) (\<lambda>_.
                tx_return (Cas_Applied state)))
          | None \<Rightarrow> tx_bind (tx_read (\<lambda>db. runtime_rows db cid)) (\<lambda>row.
              tx_return (Cas_Conflict (map_option runtime_state_from_row row))))))"

text \<open>
  The clean-up of the ledger, one batch: the oldest expired rows go, at most \<open>limit\<close> of them
  together with those of the ledger of statistics, which is cleaned by the same statement and is
  an argument here, as is the list of the rows that no other transaction holds at that moment
  (\<open>FOR UPDATE SKIP LOCKED\<close>).
\<close>

definition order_by_created :: "(int \<times> uuid) list \<Rightarrow> (int \<times> uuid) list" where
  "order_by_created rows = sort_key fst (sort_key snd rows)"

definition runtime_candidates ::
    "uuid list \<Rightarrow> int \<Rightarrow> nat \<Rightarrow> runtime_db \<Rightarrow> (int \<times> uuid) list" where
  "runtime_candidates unlocked horizon limit db =
     take limit (order_by_created (filter (\<lambda>(created, _). created < horizon)
       (List.map_filter (\<lambda>op. map_option (\<lambda>m. (mutation_created_at m, op)) (mutation_rows db op))
         (remdups unlocked))))"

definition expired_rows ::
    "nat \<Rightarrow> (int \<times> uuid) list \<Rightarrow> (int \<times> uuid) list \<Rightarrow> (bool \<times> uuid) list" where
  "expired_rows limit runtime stats = map snd (take limit (sort_key fst
     (map (\<lambda>(created, op). (created, True, op)) runtime @
      map (\<lambda>(created, op). (created, False, op)) stats)))"

definition MAX_CLEANUP_BATCH :: nat where "MAX_CLEANUP_BATCH = 10000"

definition cleanup_credential_runtime_mutations ::
    "uuid list \<Rightarrow> (int \<times> uuid) list \<Rightarrow> int \<Rightarrow> nat \<Rightarrow> nat tx" where
  "cleanup_credential_runtime_mutations unlocked stats retention_micros limit db =
     (let limit = min limit MAX_CLEANUP_BATCH in
      if limit = 0 then Inr (0, db)
      else if \<not> fits_i64 retention_micros then Inl Retention_range
      else
        let horizon = db_clock db - retention_micros;
            runtime = runtime_candidates unlocked horizon limit db;
            old_stats = take limit (order_by_created
              (filter (\<lambda>(created, _). created < horizon) stats));
            expired = expired_rows limit runtime old_stats
        in Inr (length expired, db\<lparr>mutation_rows := (\<lambda>op.
             if (True, op) \<in> set expired then None else mutation_rows db op)\<rparr>))"

definition CREDENTIAL_RUNTIME_MUTATION_RETENTION :: int where
  "CREDENTIAL_RUNTIME_MUTATION_RETENTION = 30 * 24 * 60 * 60 * 1000000"

definition CREDENTIAL_RUNTIME_MUTATION_CLEANUP_LIMIT :: nat where
  "CREDENTIAL_RUNTIME_MUTATION_CLEANUP_LIMIT = 10000"

subsection \<open>What a transaction does to the tables\<close>

text \<open>
  A run of the database: the calls of all instances in the order of their commits, the batches
  of the clean-up among them, and the time that passes in between.
\<close>

datatype store_call =
    Call_success u64 uuid "u64 option" u32
  | Call_success_if_dirty u64 uuid u64
  | Call_api_failure u64 uuid "u64 option" string u32
  | Call_refresh_failure u64 uuid "u64 option" string u32
  | Call_heal u64
  | Call_patch u64 uuid string runtime_state_patch
  | Call_snapshot u64 runtime_state_snapshot
  | Call_cleanup "uuid list" "(int \<times> uuid) list"
  | Time_passes nat

definition database_after :: "runtime_db \<Rightarrow> store_error + 'a \<times> runtime_db \<Rightarrow> runtime_db" where
  "database_after db v = (case v of Inl _ \<Rightarrow> db | Inr (_, db') \<Rightarrow> db')"

fun after_call :: "timestamps \<Rightarrow> store_call \<Rightarrow> runtime_db \<Rightarrow> runtime_db" where
  "after_call ts (Call_success cid op g n) db =
     database_after db (record_credential_success_with_expected_generation cid op g n db)"
| "after_call ts (Call_success_if_dirty cid op g) db =
     database_after db (record_credential_success_if_runtime_dirty_at_generation cid op g db)"
| "after_call ts (Call_api_failure cid op g t n) db =
     database_after db (record_credential_api_failure_with_expected_generation ts cid op g t n db)"
| "after_call ts (Call_refresh_failure cid op g t n) db =
     database_after db (record_credential_refresh_failure_with_expected_generation ts cid op g t n db)"
| "after_call ts (Call_heal cid) db = database_after db (heal_credential_api_failures cid db)"
| "after_call ts (Call_patch cid op k p) db =
     database_after db (patch_credential_runtime_state_with_kind ts cid op k p db)"
| "after_call ts (Call_snapshot cid s) db =
     database_after db (save_credential_runtime_state_snapshot cid s db)"
| "after_call ts (Call_cleanup unlocked stats) db =
     database_after db (cleanup_credential_runtime_mutations unlocked stats
       CREDENTIAL_RUNTIME_MUTATION_RETENTION CREDENTIAL_RUNTIME_MUTATION_CLEANUP_LIMIT db)"
| "after_call ts (Time_passes micros) db = db\<lparr>db_clock := db_clock db + int micros\<rparr>"

definition after_calls :: "timestamps \<Rightarrow> store_call list \<Rightarrow> runtime_db \<Rightarrow> runtime_db" where
  "after_calls ts calls db = fold (after_call ts) calls db"

definition next_columns :: "runtime_columns \<Rightarrow> runtime_columns \<Rightarrow> bool" where
  "next_columns c c' \<longleftrightarrow> col_revision c' = col_revision c + 1 \<and> fits_i64 (col_revision c') \<and>
     col_generation c \<le> col_generation c' \<and>
     (col_generation c' = col_generation c \<or> fits_i64 (col_generation c'))"

definition writes_row ::
    "u64 \<Rightarrow> (runtime_columns \<Rightarrow> runtime_columns option) \<Rightarrow> runtime_db \<Rightarrow> runtime_db \<Rightarrow> bool" where
  "writes_row cid f db db' \<longleftrightarrow> columns_of db' = columns_of db \<or>
     (\<exists>c. f (columns_of db cid) = Some c \<and> columns_of db' = (columns_of db)(cid := c))"

definition steps_at :: "u64 \<Rightarrow> runtime_db \<Rightarrow> runtime_db \<Rightarrow> bool" where
  "steps_at cid db db' \<longleftrightarrow> columns_of db' = columns_of db \<or>
     (\<exists>c. columns_of db' = (columns_of db)(cid := c) \<and> next_columns (columns_of db cid) c)"

lemma writes_row_steps:
  "writes_row cid f db db' \<Longrightarrow> (\<And>c c'. f c = Some c' \<Longrightarrow> next_columns c c') \<Longrightarrow> steps_at cid db db'"
  by (auto simp: writes_row_def steps_at_def)

text \<open>
  What is kept of the ledger: the stamp of an operation only moves forward, and its row is gone
  only once the stamp is older than the retention.
\<close>

definition stamp_of :: "runtime_db \<Rightarrow> uuid \<Rightarrow> int option" where
  "stamp_of db op = map_option mutation_created_at (mutation_rows db op)"

definition ledger_kept :: "runtime_db \<Rightarrow> runtime_db \<Rightarrow> bool" where
  "ledger_kept db db' \<longleftrightarrow> db_clock db \<le> db_clock db' \<and>
     (\<forall>op t. stamp_of db op = Some t \<longrightarrow> t \<le> db_clock db \<longrightarrow>
        (\<exists>t'. stamp_of db' op = Some t' \<and> t \<le> t' \<and> t' \<le> db_clock db') \<or>
        t + CREDENTIAL_RUNTIME_MUTATION_RETENTION < db_clock db')"

lemma ledger_kept_same:
  "mutation_rows db' = mutation_rows db \<Longrightarrow> db_clock db' = db_clock db \<Longrightarrow> ledger_kept db db'"
  by (auto simp: ledger_kept_def stamp_of_def)

lemma tx_simps [simp]:
  "tx_return x db = Inr (x, db)"
  "tx_fail e db = Inl e"
  "tx_check None db = Inr ((), db)"
  "tx_check (Some e) db = Inl e"
  "tx_read f db = Inr (f db, db)"
  "tx_modify g db = Inr ((), g db)"
  by (simp_all add: tx_return_def tx_fail_def tx_check_def tx_read_def tx_modify_def)

lemma tx_bind_eq_Inr:
  "tx_bind m k db = Inr r \<longleftrightarrow> (\<exists>x db1. m db = Inr (x, db1) \<and> k x db1 = Inr r)"
  by (auto simp: tx_bind_def split: sum.splits)

lemma tx_check_eq_Inr: "tx_check v db = Inr r \<longleftrightarrow> v = None \<and> r = ((), db)"
  by (auto simp: tx_check_def split: option.splits)

lemma tx_value_eq_Inr: "tx_value v db = Inr r \<longleftrightarrow> (\<exists>x. v = Inr x \<and> r = (x, db))"
  by (auto simp: tx_value_def split: sum.splits)

lemmas tx_inversions = tx_bind_eq_Inr tx_check_eq_Inr tx_value_eq_Inr

lemma columns_of_simps [simp]:
  "columns_of (insert_default_row cid db) = columns_of db"
  "columns_of (db\<lparr>runtime_rows := (runtime_rows db)(cid \<mapsto> c)\<rparr>) = (columns_of db)(cid := c)"
  "columns_of (db\<lparr>live_credentials := l\<rparr>) = columns_of db"
  "columns_of (db\<lparr>mutation_rows := m\<rparr>) = columns_of db"
  "columns_of (db\<lparr>last_uses := u\<rparr>) = columns_of db"
  "columns_of (db\<lparr>db_clock := k\<rparr>) = columns_of db"
  "columns_of (touch_mutation op db) = columns_of db"
  by (auto simp: columns_of_def insert_default_row_def touch_mutation_def fun_eq_iff)

lemma columns_of_rows:
  "runtime_rows db' = (runtime_rows db)(cid \<mapsto> c) \<Longrightarrow> columns_of db' = (columns_of db)(cid := c)"
  by (auto simp: columns_of_def fun_eq_iff)

lemma insert_default_row_fields [simp]:
  "mutation_rows (insert_default_row cid db) = mutation_rows db"
  "live_credentials (insert_default_row cid db) = live_credentials db"
  "runtime_rows (insert_default_row cid db) cid = Some (columns_of db cid)"
  "db_clock (insert_default_row cid db) = db_clock db"
  by (simp_all add: insert_default_row_def)

lemma touch_mutation_fields [simp]:
  "dom (mutation_rows (touch_mutation op db)) = dom (mutation_rows db)"
  "live_credentials (touch_mutation op db) = live_credentials db"
  "db_clock (touch_mutation op db) = db_clock db"
  by (auto simp: touch_mutation_def dom_def)

lemma ledger_kept_touch: "ledger_kept db (touch_mutation op (insert_default_row cid db))"
  by (auto simp: ledger_kept_def stamp_of_def touch_mutation_def)

lemma lock_active_eq_Inr:
  "lock_active_credential_in_tx cid db = Inr (flag, db') \<longleftrightarrow>
     db' = db \<and> (\<exists>c. live_credentials db cid = Some c \<and> flag = row_disabled c)"
  by (auto simp: lock_active_credential_in_tx_def split: option.splits)

lemma lock_runtime_state_eq:
  "lock_runtime_state cid db =
     Inr (runtime_state_from_row (columns_of db cid), insert_default_row cid db)"
  by (simp add: lock_runtime_state_def tx_bind_def)

lemma prepare_eq_Inr:
  assumes "prepare_credential_runtime_mutation cid op kind expected db = Inr (prep, db')"
  shows "(\<exists>flag. prep = Prep_Apply (row_revision (runtime_state_from_row (columns_of db cid)) + 1)
            (row_generation (runtime_state_from_row (columns_of db cid))) flag \<and>
          mutation_rows db op = None \<and>
          (\<forall>g. expected = Some g \<longrightarrow>
             g = row_generation (runtime_state_from_row (columns_of db cid))) \<and>
          db' = (insert_default_row cid db)\<lparr>mutation_rows := (mutation_rows db)(op \<mapsto>
            \<lparr>mutation_credential_id = cid, mutation_kind = kind, applied_revision =
              uint (row_revision (runtime_state_from_row (columns_of db cid)) + 1),
              mutation_created_at = db_clock db\<rparr>)\<rparr>) \<or>
         (\<exists>flag. prep = Prep_Duplicate (runtime_state_from_row (columns_of db cid)) flag \<and>
            mutation_rows db op \<noteq> None \<and> db' = touch_mutation op (insert_default_row cid db)) \<or>
         (\<exists>flag. prep = Prep_Stale (runtime_state_from_row (columns_of db cid)) flag \<and>
            mutation_rows db op = None \<and>
            (\<exists>g. expected = Some g \<and>
               g < row_generation (runtime_state_from_row (columns_of db cid))) \<and>
            db' = insert_default_row cid db)"
  using assms
  by (auto simp: prepare_credential_runtime_mutation_def tx_inversions lock_active_eq_Inr
      lock_runtime_state_eq recognise_operation_def record_operation_def insert_mutation_def
      split: option.splits if_splits)

lemma prepare_ledger:
  "prepare_credential_runtime_mutation cid op kind expected db = Inr (prep, db') \<Longrightarrow>
   dom (mutation_rows db') = dom (mutation_rows db) \<or>
   dom (mutation_rows db') = insert op (dom (mutation_rows db))"
  by (drule prepare_eq_Inr) (elim disjE exE conjE, simp_all)

lemma update_runtime_row_eq_Inr:
  "update_runtime_row cid f db = Inr (state, db') \<longleftrightarrow>
     (\<exists>c c'. runtime_rows db cid = Some c \<and> f c = Some c' \<and> state = runtime_state_from_row c' \<and>
       db' = db\<lparr>runtime_rows := (runtime_rows db)(cid \<mapsto> c')\<rparr>)"
  by (auto simp: update_runtime_row_def split: option.splits)

lemma persist_flag_eq_Inr:
  "persist_credential_disabled_flag_in_tx cid flag db = Inr (u, db') \<longleftrightarrow>
     (\<exists>c. live_credentials db cid = Some c \<and> fits_i64 (credential_revision c + 1) \<and>
       db' = db\<lparr>live_credentials := (live_credentials db)(cid \<mapsto>
         \<lparr>row_disabled = flag, credential_revision = credential_revision c + 1\<rparr>)\<rparr>)"
  by (auto simp: persist_credential_disabled_flag_in_tx_def split: option.splits)

lemma upsert_eq_Inr:
  "upsert_last_used_at ts cid t db = Inr (u, db') \<Longrightarrow> \<exists>l. db' = db\<lparr>last_uses := l\<rparr>"
  by (auto simp: upsert_last_used_at_def split: option.splits)

lemma next_columns_statements:
  "success_columns n c = Some c' \<Longrightarrow> next_columns c c'"
  "api_failure_columns l c = Some c' \<Longrightarrow> next_columns c c'"
  "refresh_failure_columns l c = Some c' \<Longrightarrow> next_columns c c'"
  "heal_columns c = Some c' \<Longrightarrow> next_columns c c'"
  "patch_columns p c = Some c' \<Longrightarrow> next_columns c c'"
  by (auto simp: next_columns_def success_columns_def api_failure_columns_def
      refresh_failure_columns_def heal_columns_def patch_columns_def int8_def int4_def
      split: option.splits if_splits)

definition writes_at ::
    "u64 \<Rightarrow> (runtime_columns \<Rightarrow> runtime_columns option) \<Rightarrow> mutation_result tx \<Rightarrow> bool" where
  "writes_at cid f m \<longleftrightarrow> (\<forall>db x db' c. m db = Inr (x, db') \<longrightarrow> runtime_rows db cid = Some c \<longrightarrow>
     (\<exists>c'. f c = Some c' \<and> columns_of db' = (columns_of db)(cid := c') \<and>
       result_state x = runtime_state_from_row c') \<and>
     result_applied x \<and> mutation_rows db' = mutation_rows db \<and> db_clock db' = db_clock db)"

lemma writes_atI:
  assumes "\<And>db x db' c. m db = Inr (x, db') \<Longrightarrow> runtime_rows db cid = Some c \<Longrightarrow>
     (\<exists>c'. f c = Some c' \<and> columns_of db' = (columns_of db)(cid := c') \<and>
       result_state x = runtime_state_from_row c') \<and>
     result_applied x \<and> mutation_rows db' = mutation_rows db \<and> db_clock db' = db_clock db"
  shows "writes_at cid f m"
  using assms by (simp add: writes_at_def)

lemma write_success_writes: "writes_at cid (success_columns n) (write_success cid n r flag)"
  by (rule writes_atI)
    (auto simp: write_success_def tx_inversions update_runtime_row_eq_Inr)

lemma update_then:
  assumes "tx_bind (update_runtime_row cid f) k db1 = Inr (x, db')"
    and "runtime_rows db1 = runtime_rows db" "mutation_rows db1 = mutation_rows db"
      "db_clock db1 = db_clock db"
    and "runtime_rows db cid = Some c"
    and "\<And>state db2 x db'. k state db2 = Inr (x, db') \<Longrightarrow>
      runtime_rows db' = runtime_rows db2 \<and> mutation_rows db' = mutation_rows db2 \<and>
      db_clock db' = db_clock db2 \<and>
      result_state x = state \<and> result_applied x"
  shows "(\<exists>c'. f c = Some c' \<and> columns_of db' = (columns_of db)(cid := c') \<and>
      result_state x = runtime_state_from_row c') \<and>
    result_applied x \<and> mutation_rows db' = mutation_rows db \<and> db_clock db' = db_clock db"
proof -
  obtain c' db2 where f: "f c = Some c'" and k: "k (runtime_state_from_row c') db2 = Inr (x, db')"
    and db2: "runtime_rows db2 = (runtime_rows db)(cid \<mapsto> c')" "mutation_rows db2 = mutation_rows db"
      "db_clock db2 = db_clock db"
    using assms(1-5) by (auto simp: tx_bind_eq_Inr update_runtime_row_eq_Inr)
  show ?thesis
    using assms(6) [OF k] f db2 columns_of_rows [of db' db cid c'] by simp
qed

lemma write_failure_writes: "writes_at cid f (write_failure ts cid f reason t r flag)"
proof (rule writes_atI)
  fix db x db' c
  assume run: "write_failure ts cid f reason t r flag db = Inr (x, db')"
    and row: "runtime_rows db cid = Some c"
  obtain u db1 where up: "upsert_last_used_at ts cid t db = Inr (u, db1)"
    using run by (auto simp: write_failure_def tx_bind_eq_Inr [of "upsert_last_used_at ts cid t"])
  then have same: "runtime_rows db1 = runtime_rows db" "mutation_rows db1 = mutation_rows db"
    "db_clock db1 = db_clock db"
    by (auto dest!: upsert_eq_Inr)
  have rest: "tx_bind (update_runtime_row cid f) (\<lambda>state.
     tx_bind (tx_check (verify_runtime_mutation_revision state r)) (\<lambda>_.
       if row_disabled_reason state = Some reason
       then tx_bind (persist_credential_disabled_flag_in_tx cid True) (\<lambda>_.
         tx_return \<lparr>result_state = state, result_credential_disabled = True, result_applied = True\<rparr>)
       else tx_return \<lparr>result_state = state, result_credential_disabled = flag,
         result_applied = True\<rparr>)) db1 = Inr (x, db')"
    using run up by (simp add: write_failure_def tx_bind_def [of "upsert_last_used_at ts cid t"])
  show "(\<exists>c'. f c = Some c' \<and> columns_of db' = (columns_of db)(cid := c') \<and>
      result_state x = runtime_state_from_row c') \<and>
    result_applied x \<and> mutation_rows db' = mutation_rows db \<and> db_clock db' = db_clock db"
    by (rule update_then [OF rest same row])
       (auto simp: tx_inversions persist_flag_eq_Inr split: if_splits)
qed

lemma write_patch_writes: "writes_at cid (patch_columns p) (write_patch ts cid p r g flag)"
proof (rule writes_atI)
  fix db x db' c
  assume run: "write_patch ts cid p r g flag db = Inr (x, db')"
    and row: "runtime_rows db cid = Some c"
  let ?use = "case patch_last_used_at p of None \<Rightarrow> tx_return ()
     | Some t \<Rightarrow> upsert_last_used_at ts cid t"
  obtain g' u db1 where g': "patch_generation p g = Inr g'" and up: "?use db = Inr (u, db1)"
    using run
    by (auto simp: write_patch_def tx_bind_eq_Inr [of "tx_value v" for v] tx_value_eq_Inr
        tx_bind_eq_Inr [of ?use])
  from up have same: "runtime_rows db1 = runtime_rows db" "mutation_rows db1 = mutation_rows db"
    "db_clock db1 = db_clock db"
    by (auto dest!: upsert_eq_Inr split: option.splits)
  have rest: "tx_bind (update_runtime_row cid (patch_columns p)) (\<lambda>state.
     tx_bind (tx_check (verify_runtime_mutation_revision state r)) (\<lambda>_.
     tx_bind (tx_check (verify_runtime_mutation_generation state g')) (\<lambda>_.
       case patch_credential_disabled p of
         None \<Rightarrow> tx_return \<lparr>result_state = state, result_credential_disabled = flag,
           result_applied = True\<rparr>
       | Some v \<Rightarrow> tx_bind (persist_credential_disabled_flag_in_tx cid v) (\<lambda>_.
           tx_return \<lparr>result_state = state, result_credential_disabled = v,
             result_applied = True\<rparr>)))) db1 = Inr (x, db')"
    using run g' up by (simp add: write_patch_def tx_bind_def [of "tx_value v" for v] tx_value_def
        tx_bind_def [of ?use])
  show "(\<exists>c'. patch_columns p c = Some c' \<and> columns_of db' = (columns_of db)(cid := c') \<and>
      result_state x = runtime_state_from_row c') \<and>
    result_applied x \<and> mutation_rows db' = mutation_rows db \<and> db_clock db' = db_clock db"
    by (rule update_then [OF rest same row])
       (auto simp: tx_inversions persist_flag_eq_Inr split: option.splits)
qed

lemmas writes_at_bodies = write_success_writes write_failure_writes write_patch_writes

lemma writes_atD:
  assumes "writes_at cid f m" "m db = Inr (x, db')" "runtime_rows db cid = Some c"
  obtains c' where "f c = Some c'" "columns_of db' = (columns_of db)(cid := c')"
    "result_state x = runtime_state_from_row c'" "result_applied x"
    "mutation_rows db' = mutation_rows db" "db_clock db' = db_clock db"
  using assms unfolding writes_at_def by blast

lemma ledger_kept_insert:
  assumes "mutation_rows db' = (mutation_rows db)(op \<mapsto> m)" "mutation_rows db op = None"
    and "db_clock db' = db_clock db"
  shows "ledger_kept db db'"
  using assms by (auto simp: ledger_kept_def stamp_of_def)

lemma finish_prepared_writes:
  assumes "tx_bind (prepare_credential_runtime_mutation cid op kind expected)
      (\<lambda>prep. finish_prepared prep body) db = Inr (x, db')"
    and "\<And>r g flag. writes_at cid f (body r g flag)"
  shows "writes_row cid f db db' \<and> ledger_kept db db'"
proof -
  obtain prep db1 where prep: "prepare_credential_runtime_mutation cid op kind expected db = Inr (prep, db1)"
    and fin: "finish_prepared prep body db1 = Inr (x, db')"
    using assms(1) by (auto simp: tx_inversions)
  show ?thesis
  proof (cases prep)
    case (Prep_Apply r g flag)
    then obtain m where rows: "runtime_rows db1 cid = Some (columns_of db cid)"
      "columns_of db1 = columns_of db" "mutation_rows db op = None"
      "mutation_rows db1 = (mutation_rows db)(op \<mapsto> m)" "db_clock db1 = db_clock db"
      using prepare_eq_Inr [OF prep] by auto
    have "body r g flag db1 = Inr (x, db')"
      using fin Prep_Apply by (simp add: finish_prepared_def)
    from writes_atD [OF assms(2) this rows(1)]
    obtain c' where "f (columns_of db cid) = Some c'" "columns_of db' = (columns_of db)(cid := c')"
      "mutation_rows db' = mutation_rows db1" "db_clock db' = db_clock db1"
      using rows(2) by metis
    with rows show ?thesis
      by (auto simp: writes_row_def intro: ledger_kept_insert)
  qed (use prepare_eq_Inr [OF prep] fin ledger_kept_touch in
      \<open>auto simp: finish_prepared_def writes_row_def intro: ledger_kept_same\<close>)
qed

lemma finish_prepared_steps:
  assumes "tx_bind (prepare_credential_runtime_mutation cid op kind expected)
      (\<lambda>prep. finish_prepared prep body) db = Inr (x, db')"
    and "\<And>r g flag. writes_at cid f (body r g flag)"
    and "\<And>c c'. f c = Some c' \<Longrightarrow> next_columns c c'"
  shows "steps_at cid db db'"
  using finish_prepared_writes [OF assms(1,2)] assms(3) by (blast intro: writes_row_steps)

fun call_account :: "store_call \<Rightarrow> u64" where
  "call_account (Call_success cid _ _ _) = cid"
| "call_account (Call_success_if_dirty cid _ _) = cid"
| "call_account (Call_api_failure cid _ _ _ _) = cid"
| "call_account (Call_refresh_failure cid _ _ _ _) = cid"
| "call_account (Call_heal cid) = cid"
| "call_account (Call_patch cid _ _ _) = cid"
| "call_account (Call_snapshot cid _) = cid"
| "call_account _ = 0"

text \<open>The statement a call runs on the row of its account, if it gets that far.\<close>

fun call_columns :: "store_call \<Rightarrow> runtime_columns \<Rightarrow> runtime_columns option" where
  "call_columns (Call_success _ _ _ n) c = success_columns (success_decrement n) c"
| "call_columns (Call_success_if_dirty _ _ _) c = success_columns 1 c"
| "call_columns (Call_api_failure _ _ _ _ n) c = api_failure_columns (sint n) c"
| "call_columns (Call_refresh_failure _ _ _ _ n) c = refresh_failure_columns (sint n) c"
| "call_columns (Call_heal _) c = heal_columns c"
| "call_columns (Call_patch _ _ _ p) c =
     (if count_fits (patch_failure_count p) \<and> count_fits (patch_refresh_failure_count p) \<and>
         count_fits (patch_warmup_remaining p) then patch_columns p c else None)"
| "call_columns (Call_snapshot _ s) c =
     (let v = snapshot_state s; generation = uint (row_generation v) in
      if fits_i64 generation \<and> fits_i64 (col_revision c + 1) \<and>
         (if snapshot_expected_revision s = 0 then c = default_columns else col_generation c = generation)
      then Some (snapshot_columns v generation (col_revision c + 1)) else None)"
| "call_columns _ c = None"

lemma writes_row_same [simp]: "writes_row cid f db db" "writes_row cid f db (insert_default_row cid' db)"
  by (simp_all add: writes_row_def)

lemma writes_row_insert [simp]:
  "writes_row cid f (insert_default_row cid' db) db' \<longleftrightarrow> writes_row cid f db db'"
  by (simp add: writes_row_def)

lemma writes_row_live [simp]:
  "writes_row cid f db (db'\<lparr>live_credentials := l\<rparr>) \<longleftrightarrow> writes_row cid f db db'"
  by (simp add: writes_row_def)

lemma ledger_kept_fields [simp]:
  "ledger_kept db db" "ledger_kept db (insert_default_row cid db)"
  "ledger_kept (insert_default_row cid db) db' \<longleftrightarrow> ledger_kept db db'"
  "ledger_kept db (db\<lparr>runtime_rows := rows\<rparr>)"
  "ledger_kept db (db'\<lparr>live_credentials := l\<rparr>) \<longleftrightarrow> ledger_kept db db'"
  by (auto simp: ledger_kept_def stamp_of_def)

lemma mutation_writes:
  "record_credential_success_with_expected_generation cid op g n db = Inr (x, db') \<Longrightarrow>
     writes_row cid (success_columns (success_decrement n)) db db' \<and> ledger_kept db db'"
  "record_credential_api_failure_with_expected_generation ts cid op g t m db = Inr (x, db') \<Longrightarrow>
     writes_row cid (api_failure_columns (sint m)) db db' \<and> ledger_kept db db'"
  "record_credential_refresh_failure_with_expected_generation ts cid op g t m db = Inr (x, db') \<Longrightarrow>
     writes_row cid (refresh_failure_columns (sint m)) db db' \<and> ledger_kept db db'"
  unfolding record_credential_success_with_expected_generation_def
    record_credential_api_failure_with_expected_generation_def
    record_credential_refresh_failure_with_expected_generation_def
  by (erule finish_prepared_writes, rule writes_at_bodies)+

lemma patch_writes:
  assumes "patch_credential_runtime_state_with_kind ts cid op k p db = Inr (x, db')"
  shows "writes_row cid (call_columns (Call_patch cid op k p)) db db' \<and> ledger_kept db db'"
proof -
  have run: "tx_bind (prepare_credential_runtime_mutation cid op k (patch_expected_generation p))
      (\<lambda>prep. finish_prepared prep (write_patch ts cid p)) db = Inr (x, db')"
    and "count_fits (patch_failure_count p) \<and> count_fits (patch_refresh_failure_count p) \<and>
      count_fits (patch_warmup_remaining p)"
    using assms
    by (auto simp: patch_credential_runtime_state_with_kind_def patch_credential_runtime_state_in_tx_def
        validate_credential_runtime_state_patch_def
        tx_value_eq_Inr tx_check_eq_Inr tx_bind_eq_Inr [of "tx_check v" for v]
        tx_bind_eq_Inr [of "tx_value v" for v] split: if_splits)
  with finish_prepared_writes [OF run write_patch_writes] show ?thesis
    by (auto simp: writes_row_def)
qed

lemma if_dirty_writes:
  "record_credential_success_if_runtime_dirty_at_generation cid op g db = Inr (x, db') \<Longrightarrow>
     writes_row cid (success_columns 1) db db' \<and> ledger_kept db db'"
  unfolding record_credential_success_if_runtime_dirty_at_generation_def
  by (auto simp: tx_bind_eq_Inr [of "lock_active_credential_in_tx i" for i]
        tx_bind_eq_Inr [of "lock_runtime_state i" for i] lock_active_eq_Inr lock_runtime_state_eq
      split: if_splits dest!: finish_prepared_writes [OF _ writes_at_bodies(1)])

lemma row_write:
  assumes "f (columns_of db cid) = Some c"
  shows "writes_row cid f db (db\<lparr>runtime_rows := (runtime_rows db)(cid \<mapsto> c)\<rparr>)"
  using assms by (auto simp: writes_row_def)

lemma heal_writes:
  assumes "heal_credential_api_failures cid db = Inr (x, db')"
  shows "writes_row cid heal_columns db db' \<and> ledger_kept db db'"
proof -
  have "writes_row cid heal_columns db (db\<lparr>runtime_rows := (runtime_rows db)(cid \<mapsto> c')\<rparr>)"
    if "runtime_rows db cid = Some c" "heal_columns c = Some c'" for c c'
    using that by (auto intro!: row_write simp: columns_of_def)
  then show ?thesis
    using assms
    by (auto simp: heal_credential_api_failures_def tx_inversions lock_active_eq_Inr
        update_runtime_row_eq_Inr persist_flag_eq_Inr split: option.splits if_splits)
qed

lemma snapshot_writes:
  assumes "save_credential_runtime_state_snapshot cid s db = Inr (x, db')"
  shows "writes_row cid (call_columns (Call_snapshot cid s)) db db' \<and> ledger_kept db db'"
proof -
  obtain y where swap: "swap_snapshot cid (snapshot_state s) (snapshot_expected_revision s) db = Inr (y, db')"
    and gen: "fits_i64 (uint (row_generation (snapshot_state s)))"
    using assms
    by (auto simp: save_credential_runtime_state_snapshot_def Let_def tx_inversions
        lock_active_eq_Inr split: option.splits if_splits)
  show ?thesis
  proof (cases "runtime_rows db cid")
    case None
    then have "columns_of db cid = default_columns" by (simp add: columns_of_def)
    with None swap gen show ?thesis
      by (auto simp: swap_snapshot_def Let_def default_columns_def fits_i64_def
          intro!: row_write split: if_splits)
  next
    case (Some old)
    then have "columns_of db cid = old" by (simp add: columns_of_def)
    with Some swap gen show ?thesis
      by (auto simp: swap_snapshot_def Let_def int8_def intro!: row_write split: if_splits)
  qed
qed

lemma expired_rows_old:
  assumes "(True, op) \<in> set (expired_rows limit (runtime_candidates unlocked horizon limit' db) stats)"
  shows "\<exists>m. mutation_rows db op = Some m \<and> mutation_created_at m < horizon"
  using assms
  by (auto simp: expired_rows_def runtime_candidates_def order_by_created_def map_filter_def
      dest!: in_set_takeD split: option.splits)

lemma cleanup_writes:
  assumes "cleanup_credential_runtime_mutations unlocked stats
      CREDENTIAL_RUNTIME_MUTATION_RETENTION limit db = Inr (x, db')"
  shows "columns_of db' = columns_of db \<and> live_credentials db' = live_credentials db \<and>
    dom (mutation_rows db') \<subseteq> dom (mutation_rows db) \<and> ledger_kept db db'"
proof -
  have rows: "mutation_rows db' op = mutation_rows db op \<or>
      mutation_rows db' op = None \<and>
      (\<exists>m. mutation_rows db op = Some m \<and>
         mutation_created_at m + CREDENTIAL_RUNTIME_MUTATION_RETENTION < db_clock db)" for op
    using assms
    by (auto simp: cleanup_credential_runtime_mutations_def Let_def dest!: expired_rows_old
        split: if_splits)
  have same: "columns_of db' = columns_of db" "live_credentials db' = live_credentials db"
    "db_clock db' = db_clock db"
    using assms by (auto simp: cleanup_credential_runtime_mutations_def Let_def split: if_splits)
  have "dom (mutation_rows db') \<subseteq> dom (mutation_rows db)"
    using rows by (metis domI domIff subsetI)
  moreover have "ledger_kept db db'"
    unfolding ledger_kept_def
  proof (intro conjI allI impI)
    fix op t assume "stamp_of db op = Some t" "t \<le> db_clock db"
    with rows [of op] same(3)
    show "(\<exists>t'. stamp_of db' op = Some t' \<and> t \<le> t' \<and> t' \<le> db_clock db') \<or>
        t + CREDENTIAL_RUNTIME_MUTATION_RETENTION < db_clock db'"
      by (auto simp: stamp_of_def)
  qed (simp add: same)
  ultimately show ?thesis using same by simp
qed

lemma commit_writes:
  "(\<And>x db'. v = Inr (x, db') \<Longrightarrow> writes_row cid f db db' \<and> ledger_kept db db') \<Longrightarrow>
   writes_row cid f db (database_after db v) \<and> ledger_kept db (database_after db v)"
  by (auto simp: database_after_def split: sum.splits)

lemma after_call_writes:
  "writes_row (call_account c) (call_columns c) db (after_call ts c db) \<and>
   ledger_kept db (after_call ts c db)"
proof (cases c)
  case (Call_cleanup unlocked stats)
  then show ?thesis
    by (simp only: after_call.simps, intro commit_writes)
       (auto dest!: cleanup_writes simp: writes_row_def)
next
  case (Time_passes n)
  then show ?thesis by (auto simp: writes_row_def ledger_kept_def stamp_of_def)
qed (simp_all only: after_call.simps call_account.simps, (rule commit_writes,
   (frule mutation_writes if_dirty_writes heal_writes patch_writes snapshot_writes),
   simp add: writes_row_def call_columns.simps)+)

lemma call_columns_next: "call_columns c x = Some y \<Longrightarrow> next_columns x y"
proof (cases c)
  case (Call_snapshot cid s)
  then show "call_columns c x = Some y \<Longrightarrow> next_columns x y"
    by (auto simp: next_columns_def snapshot_columns_def default_columns_def Let_def
        split: if_splits)
qed (auto intro: next_columns_statements split: if_splits)

lemma after_call_steps: "steps_at (call_account c) db (after_call ts c db)"
  using after_call_writes call_columns_next by (blast intro: writes_row_steps)

lemma mutation_steps:
  "record_credential_success_with_expected_generation cid op g n db = Inr (x, db') \<Longrightarrow>
     steps_at cid db db'"
  "record_credential_api_failure_with_expected_generation ts cid op g t m db = Inr (x, db') \<Longrightarrow>
     steps_at cid db db'"
  "record_credential_refresh_failure_with_expected_generation ts cid op g t m db = Inr (x, db') \<Longrightarrow>
     steps_at cid db db'"
  "patch_credential_runtime_state_with_kind ts cid op k p db = Inr (x, db') \<Longrightarrow> steps_at cid db db'"
  by (blast intro: writes_row_steps next_columns_statements call_columns_next
      dest: mutation_writes patch_writes)+

lemma heal_steps: "heal_credential_api_failures cid db = Inr (x, db') \<Longrightarrow> steps_at cid db db'"
  by (blast intro: writes_row_steps next_columns_statements dest: heal_writes)

text \<open>What an instance relies on when it compares revisions and repeats operations: a transaction
  leaves a row alone or raises its revision, never lowers a generation, and forgets an operation
  only when it was last seen longer ago than the retention.\<close>

locale versioned_store =
  fixes step :: "'c \<Rightarrow> 'd \<Rightarrow> 'd"
    and row :: "'d \<Rightarrow> 'i \<Rightarrow> 'r"
    and revision :: "'r \<Rightarrow> int"
    and generation :: "'r \<Rightarrow> int"
    and clock :: "'d \<Rightarrow> int"
    and stamp :: "'d \<Rightarrow> 'o \<Rightarrow> int option"
    and retention :: int
  assumes row_step: "row (step c d) i = row d i \<or> revision (row d i) < revision (row (step c d) i)"
    and generation_step: "generation (row d i) \<le> generation (row (step c d) i)"
    and clock_step: "clock d \<le> clock (step c d)"
    and stamp_step: "stamp d op = Some t \<Longrightarrow> t \<le> clock d \<Longrightarrow>
      (\<exists>t'. stamp (step c d) op = Some t' \<and> t \<le> t' \<and> t' \<le> clock (step c d)) \<or>
      t + retention < clock (step c d)"
begin

lemma row_run: "row (fold step cs d) i = row d i \<or> revision (row d i) < revision (row (fold step cs d) i)"
proof (induction cs arbitrary: d)
  case (Cons c cs)
  show ?case using row_step [of c d i] Cons.IH [of "step c d"] by auto
qed simp

lemma generation_run: "generation (row d i) \<le> generation (row (fold step cs d) i)"
proof (induction cs arbitrary: d)
  case (Cons c cs)
  show ?case using generation_step [of d i c] Cons.IH [of "step c d"] by auto
qed simp

lemma clock_run: "clock d \<le> clock (fold step cs d)"
proof (induction cs arbitrary: d)
  case (Cons c cs)
  show ?case using clock_step [of d c] Cons.IH [of "step c d"] by auto
qed simp

lemma stamp_run:
  assumes "stamp d op = Some t" "t \<le> clock d" "clock (fold step cs d) \<le> t + retention"
  shows "stamp (fold step cs d) op \<noteq> None"
  using assms
proof (induction cs arbitrary: d t)
  case (Cons c cs)
  from Cons.prems(3) clock_run [of "step c d" cs]
  obtain t' where "stamp (step c d) op = Some t'" "t \<le> t'" "t' \<le> clock (step c d)"
    using stamp_step [OF Cons.prems(1,2), of c] by auto
  with Cons.IH [of "step c d" t'] Cons.prems(3) show ?case by simp
qed simp

end

interpretation transactions: versioned_store "after_call ts" columns_of col_revision col_generation
  db_clock stamp_of CREDENTIAL_RUNTIME_MUTATION_RETENTION for ts
proof
  fix c :: store_call and d :: runtime_db and i :: u64
  note steps = after_call_steps [of c d ts]
  show "columns_of (after_call ts c d) i = columns_of d i \<or>
      col_revision (columns_of d i) < col_revision (columns_of (after_call ts c d) i)"
    and "col_generation (columns_of d i) \<le> col_generation (columns_of (after_call ts c d) i)"
    using steps by (auto simp: steps_at_def next_columns_def)
qed (use after_call_writes in \<open>auto simp: ledger_kept_def\<close>)

subsection \<open>An operation takes effect at most once, and only in its generation\<close>

fun call_operation :: "store_call \<Rightarrow> uuid option" where
  "call_operation (Call_success _ op _ _) = Some op"
| "call_operation (Call_success_if_dirty _ op _) = Some op"
| "call_operation (Call_api_failure _ op _ _ _) = Some op"
| "call_operation (Call_refresh_failure _ op _ _ _) = Some op"
| "call_operation (Call_patch _ op _ _) = Some op"
| "call_operation _ = None"

fun call_generation :: "store_call \<Rightarrow> u64 option" where
  "call_generation (Call_success _ _ g _) = g"
| "call_generation (Call_success_if_dirty _ _ g) = Some g"
| "call_generation (Call_api_failure _ _ g _ _) = g"
| "call_generation (Call_refresh_failure _ _ g _ _) = g"
| "call_generation (Call_patch _ _ _ p) = patch_expected_generation p"
| "call_generation _ = None"

definition same_health :: "runtime_db \<Rightarrow> runtime_db \<Rightarrow> bool" where
  "same_health db db' \<longleftrightarrow>
     columns_of db' = columns_of db \<and> live_credentials db' = live_credentials db"

definition generation_of :: "runtime_db \<Rightarrow> u64 \<Rightarrow> u64" where
  "generation_of db cid = row_generation (runtime_state_from_row (columns_of db cid))"

definition takes_effect :: "u64 \<Rightarrow> uuid \<Rightarrow> u64 option \<Rightarrow> runtime_db \<Rightarrow> runtime_db \<Rightarrow> bool" where
  "takes_effect cid op expected db db' \<longleftrightarrow>
     mutation_rows db op = None \<and> stamp_of db' op = Some (db_clock db') \<and>
     (\<forall>g. expected = Some g \<longrightarrow> g = generation_of db cid)"

lemma same_health_refl [simp]:
  "same_health db db" "same_health db (insert_default_row cid db)"
  "same_health (insert_default_row cid db) db' \<longleftrightarrow> same_health db db'"
  "same_health db (touch_mutation op db') \<longleftrightarrow> same_health db db'"
  by (simp_all add: same_health_def)

lemma finish_prepared_effect:
  assumes "tx_bind (prepare_credential_runtime_mutation cid op kind expected)
      (\<lambda>prep. finish_prepared prep body) db = Inr (x, db')"
    and "\<And>r g flag. writes_at cid f (body r g flag)"
  shows "same_health db db' \<or> takes_effect cid op expected db db'"
proof -
  obtain prep db1 where prep: "prepare_credential_runtime_mutation cid op kind expected db = Inr (prep, db1)"
    and fin: "finish_prepared prep body db1 = Inr (x, db')"
    using assms(1) by (auto simp: tx_inversions)
  show ?thesis
  proof (cases prep)
    case (Prep_Apply r g flag)
    then have rows: "runtime_rows db1 cid = Some (columns_of db cid)" "mutation_rows db op = None"
      "stamp_of db1 op = Some (db_clock db1)" "\<forall>g. expected = Some g \<longrightarrow> g = generation_of db cid"
      using prepare_eq_Inr [OF prep] by (auto simp: generation_of_def stamp_of_def)
    have "body r g flag db1 = Inr (x, db')"
      using fin Prep_Apply by (simp add: finish_prepared_def)
    from writes_atD [OF assms(2) this rows(1)]
    have "mutation_rows db' = mutation_rows db1" "db_clock db' = db_clock db1" by metis+
    then show ?thesis using rows by (simp add: takes_effect_def stamp_of_def)
  qed (use prepare_eq_Inr [OF prep] fin in \<open>auto simp: finish_prepared_def\<close>)
qed

lemma mutation_effects:
  "record_credential_success_with_expected_generation cid op g n db = Inr (x, db') \<Longrightarrow>
     same_health db db' \<or> takes_effect cid op g db db'"
  "record_credential_api_failure_with_expected_generation ts cid op g t m db = Inr (x, db') \<Longrightarrow>
     same_health db db' \<or> takes_effect cid op g db db'"
  "record_credential_refresh_failure_with_expected_generation ts cid op g t m db = Inr (x, db') \<Longrightarrow>
     same_health db db' \<or> takes_effect cid op g db db'"
  "patch_credential_runtime_state_with_kind ts cid op k p db = Inr (x, db') \<Longrightarrow>
     same_health db db' \<or> takes_effect cid op (patch_expected_generation p) db db'"
  unfolding record_credential_success_with_expected_generation_def
    record_credential_api_failure_with_expected_generation_def
    record_credential_refresh_failure_with_expected_generation_def
    patch_credential_runtime_state_with_kind_def patch_credential_runtime_state_in_tx_def
  by (auto simp: tx_value_eq_Inr tx_check_eq_Inr tx_bind_eq_Inr [of "tx_check v" for v]
        tx_bind_eq_Inr [of "tx_value v" for v]
      dest!: finish_prepared_effect intro: writes_at_bodies)

lemma if_dirty_effect:
  "record_credential_success_if_runtime_dirty_at_generation cid op g db = Inr (x, db') \<Longrightarrow>
     same_health db db' \<or> takes_effect cid op (Some g) db db'"
  unfolding record_credential_success_if_runtime_dirty_at_generation_def
  by (auto simp: tx_bind_eq_Inr [of "lock_active_credential_in_tx i" for i]
        tx_bind_eq_Inr [of "lock_runtime_state i" for i] lock_active_eq_Inr lock_runtime_state_eq
        takes_effect_def generation_of_def
      split: if_splits dest!: finish_prepared_effect [OF _ writes_at_bodies(1)])

lemma commit_effect:
  "(\<And>x db'. v = Inr (x, db') \<Longrightarrow> same_health db db' \<or> takes_effect cid op g db db') \<Longrightarrow>
     same_health db (database_after db v) \<or> takes_effect cid op g db (database_after db v)"
  by (auto simp: database_after_def split: sum.splits)

lemma after_call_effect:
  assumes "call_operation c = Some op"
  shows "same_health db (after_call ts c db) \<or>
    takes_effect (call_account c) op (call_generation c) db (after_call ts c db)"
  using assms
  by (cases c) (auto intro!: commit_effect simp del: de_Morgan_disj
      dest: mutation_effects if_dirty_effect)

lemma after_calls_Cons [simp]:
  "after_calls ts [] db = db"
  "after_calls ts (c # calls) db = after_calls ts calls (after_call ts c db)"
  by (simp_all add: after_calls_def)

lemma generation_of_uint:
  assumes "0 \<le> col_generation (columns_of db cid)" "fits_i64 (col_generation (columns_of db cid))"
  shows "uint (generation_of db cid) = col_generation (columns_of db cid)"
  using assms
  by (simp add: generation_of_def runtime_state_from_row_def fits_i64_def uint_word_of_int)

fun housekeeping :: "store_call \<Rightarrow> bool" where
  "housekeeping (Call_cleanup _ _) = True"
| "housekeeping (Time_passes _) = True"
| "housekeeping _ = False"

lemma housekeeping_health: "housekeeping c \<Longrightarrow> same_health db (after_call ts c db)"
  by (cases c) (auto simp: same_health_def database_after_def split: sum.splits dest: cleanup_writes)

lemma superseded_calls:
  assumes "\<forall>c\<in>set calls. housekeeping c \<or> call_account c = cid \<and> call_operation c \<noteq> None \<and>
      (\<exists>g. call_generation c = Some g \<and> g < generation_of db cid)"
  shows "same_health db (after_calls ts calls db)"
  using assms
proof (induction calls arbitrary: db)
  case (Cons c calls)
  then have "same_health db (after_call ts c db)"
    using after_call_effect [of c _ db ts] housekeeping_health by (auto simp: takes_effect_def)
  with Cons show ?case by (auto simp: same_health_def generation_of_def)
qed simp

lemma advancing_patch:
  assumes "patch_credential_runtime_state_with_kind ts cid op kind p db = Inr (res, db')"
    and "result_applied res" "mutation_rows db op = None" "patch_advance_generation p"
  shows "col_generation (columns_of db' cid) = col_generation (columns_of db cid) + 1 \<and>
    fits_i64 (col_generation (columns_of db' cid))"
proof -
  obtain prep db1 where
    prep: "prepare_credential_runtime_mutation cid op kind (patch_expected_generation p) db = Inr (prep, db1)"
    and fin: "finish_prepared prep (write_patch ts cid p) db1 = Inr (res, db')"
    using assms(1)
    by (auto simp: patch_credential_runtime_state_with_kind_def
        patch_credential_runtime_state_in_tx_def tx_inversions)
  obtain r g flag where "prep = Prep_Apply r g flag"
    using prepare_eq_Inr [OF prep] fin assms(2,3) by (cases prep) (auto simp: finish_prepared_def)
  then have "write_patch ts cid p r g flag db1 = Inr (res, db')"
    and rows: "runtime_rows db1 cid = Some (columns_of db cid)"
    using prepare_eq_Inr [OF prep] fin by (auto simp: finish_prepared_def)
  then obtain c' where "patch_columns p (columns_of db cid) = Some c'" "columns_of db' cid = c'"
    by (metis writes_atD [OF write_patch_writes] fun_upd_same)
  then show ?thesis
    using assms(4) by (auto simp: patch_columns_def int8_def split: option.splits if_splits)
qed

subsection \<open>What a caller learns from the answer\<close>

definition row_of :: "runtime_db \<Rightarrow> u64 \<Rightarrow> runtime_state_row" where
  "row_of db cid = runtime_state_from_row (columns_of db cid)"

definition rows_ok :: "runtime_db \<Rightarrow> bool" where
  "rows_ok db \<longleftrightarrow> (\<forall>cid. 0 \<le> col_generation (columns_of db cid) \<and>
     fits_i64 (col_generation (columns_of db cid)) \<and> 0 \<le> col_revision (columns_of db cid) \<and>
     fits_i64 (col_revision (columns_of db cid)))"

definition row_advances :: "runtime_state_row \<Rightarrow> runtime_state_row \<Rightarrow> bool" where
  "row_advances v v' \<longleftrightarrow> row_revision v < row_revision v' \<and> row_generation v \<le> row_generation v'"

lemma uint_of_column: "0 \<le> n \<Longrightarrow> fits_i64 n \<Longrightarrow> uint (word_of_int n :: u64) = n"
  by (simp add: fits_i64_def uint_word_of_int)

lemma uint_row:
  assumes "rows_ok db"
  shows "uint (row_generation (row_of db cid)) = col_generation (columns_of db cid)"
    "uint (row_revision (row_of db cid)) = col_revision (columns_of db cid)"
  using assms
  by (simp_all add: rows_ok_def row_of_def runtime_state_from_row_def uint_of_column)

lemma steps_at_rows:
  assumes "steps_at cid db db'" "rows_ok db"
  shows "rows_ok db' \<and> (\<forall>c. c \<noteq> cid \<longrightarrow> row_of db' c = row_of db c) \<and>
    (row_of db' cid = row_of db cid \<or> row_advances (row_of db cid) (row_of db' cid))"
proof -
  have ok: "rows_ok db'"
    using assms by (auto simp: steps_at_def rows_ok_def next_columns_def intro: order_trans)
  moreover have "row_of db' c = row_of db c" if "c \<noteq> cid" for c
    using assms(1) that by (auto simp: steps_at_def row_of_def)
  moreover have "row_of db' cid = row_of db cid \<or> row_advances (row_of db cid) (row_of db' cid)"
    using assms(1) uint_row [OF assms(2), of cid] uint_row [OF ok, of cid]
    by (auto simp: steps_at_def row_advances_def word_less_def word_le_def next_columns_def
        row_of_def)
  ultimately show ?thesis by blast
qed

definition unchanged_answer ::
    "u64 \<Rightarrow> runtime_db \<Rightarrow> runtime_state_row \<Rightarrow> runtime_db \<Rightarrow> bool" where
  "unchanged_answer cid db state db' \<longleftrightarrow> state = row_of db cid \<and> row_of db' = row_of db \<and>
     dom (mutation_rows db') = dom (mutation_rows db)"

definition answers_to ::
    "u64 \<Rightarrow> uuid \<Rightarrow> u64 option \<Rightarrow> runtime_db \<Rightarrow> runtime_state_row \<Rightarrow> bool \<Rightarrow> runtime_db \<Rightarrow> bool" where
  "answers_to cid op expected db state applied db' \<longleftrightarrow>
     (op \<notin> dom (mutation_rows db) \<and> dom (mutation_rows db') = insert op (dom (mutation_rows db)) \<and>
      applied \<and> state = row_of db' cid \<and> row_advances (row_of db cid) (row_of db' cid)) \<or>
     (op \<in> dom (mutation_rows db) \<and> applied \<and> unchanged_answer cid db state db') \<or>
     (op \<notin> dom (mutation_rows db) \<and> \<not> applied \<and> unchanged_answer cid db state db' \<and>
      (\<exists>g. expected = Some g \<and> g < row_generation (row_of db cid)))"

lemma finish_prepared_answers:
  assumes run: "tx_bind (prepare_credential_runtime_mutation cid op kind expected)
      (\<lambda>prep. finish_prepared prep body) db = Inr (x, db')"
    and writes: "\<And>r g flag. writes_at cid f (body r g flag)"
    and f: "\<And>c c'. f c = Some c' \<Longrightarrow> next_columns c c'"
    and ok: "rows_ok db"
  shows "answers_to cid op expected db (result_state x) (result_applied x) db'"
proof -
  obtain prep db1 where prep: "prepare_credential_runtime_mutation cid op kind expected db = Inr (prep, db1)"
    and fin: "finish_prepared prep body db1 = Inr (x, db')"
    using run by (auto simp: tx_inversions)
  show ?thesis
  proof (cases prep)
    case (Prep_Apply r g flag)
    then have rows: "runtime_rows db1 cid = Some (columns_of db cid)" "columns_of db1 = columns_of db"
      and led: "op \<notin> dom (mutation_rows db)"
        "dom (mutation_rows db1) = insert op (dom (mutation_rows db))"
      using prepare_eq_Inr [OF prep] by auto
    have "body r g flag db1 = Inr (x, db')"
      using fin Prep_Apply by (simp add: finish_prepared_def)
    from writes_atD [OF writes this rows(1)] obtain c' where c': "f (columns_of db cid) = Some c'"
      "columns_of db' = (columns_of db1)(cid := c')" "result_state x = runtime_state_from_row c'"
      "result_applied x" "mutation_rows db' = mutation_rows db1" by blast
    then have state: "result_state x = row_of db' cid" by (simp add: row_of_def)
    have steps: "rows_ok db'"
      "row_of db' cid = row_of db cid \<or> row_advances (row_of db cid) (row_of db' cid)"
      using steps_at_rows [OF finish_prepared_steps [OF run writes f] ok] by blast+
    have "col_revision (columns_of db' cid) = col_revision (columns_of db cid) + 1"
      using f [OF c'(1)] c'(2) by (simp add: next_columns_def)
    then have "row_of db cid \<noteq> row_of db' cid"
      using uint_row(2) [OF ok, of cid] uint_row(2) [OF steps(1), of cid] by auto
    with steps(2) have "row_advances (row_of db cid) (row_of db' cid)" by simp
    with c'(4,5) state led show ?thesis by (simp add: answers_to_def)
  next
    case (Prep_Duplicate state flag)
    then have "state = row_of db cid" "op \<in> dom (mutation_rows db)"
      "db1 = touch_mutation op (insert_default_row cid db)"
      using prepare_eq_Inr [OF prep] by (auto simp: row_of_def)
    moreover have "result_state x = state \<and> result_applied x" "db' = db1"
      using fin Prep_Duplicate by (auto simp: finish_prepared_def)
    ultimately show ?thesis
      by (simp add: answers_to_def unchanged_answer_def row_of_def fun_eq_iff)
  next
    case (Prep_Stale state flag)
    then have "state = row_of db cid" "op \<notin> dom (mutation_rows db)" "db1 = insert_default_row cid db"
      "\<exists>g. expected = Some g \<and> g < row_generation (row_of db cid)"
      using prepare_eq_Inr [OF prep] by (auto simp: row_of_def)
    with fin Prep_Stale show ?thesis
      by (auto simp: finish_prepared_def answers_to_def unchanged_answer_def row_of_def fun_eq_iff)
  qed
qed

subsection \<open>What the revision and the generation count\<close>

definition in_range :: "runtime_columns \<Rightarrow> bool" where
  "in_range c \<longleftrightarrow> 0 \<le> col_failure_count c \<and> col_failure_count c < 2 ^ 31 \<and>
     0 \<le> col_refresh_failure_count c \<and> col_refresh_failure_count c < 2 ^ 31 \<and>
     0 \<le> col_warmup_remaining c \<and> col_warmup_remaining c < 2 ^ 31 \<and>
     0 \<le> col_generation c \<and> col_generation c < 2 ^ 63 \<and>
     0 \<le> col_revision c \<and> col_revision c < 2 ^ 63"

definition rows_in_range :: "runtime_db \<Rightarrow> bool" where
  "rows_in_range db \<longleftrightarrow> (\<forall>cid. in_range (columns_of db cid))"

definition columns_seen :: "runtime_state_row \<Rightarrow> runtime_columns" where
  "columns_seen v = \<lparr>col_failure_count = uint (row_failure_count v),
     col_refresh_failure_count = uint (row_refresh_failure_count v),
     col_disabled_reason = row_disabled_reason v,
     col_warmup_remaining = uint (row_warmup_remaining v),
     col_generation = uint (row_generation v), col_revision = uint (row_revision v)\<rparr>"

fun plain_snapshot :: "store_call \<Rightarrow> bool" where
  "plain_snapshot (Call_snapshot _ s) \<longleftrightarrow> snapshot_expected_revision s \<noteq> 0 \<and>
     uint (row_failure_count (snapshot_state s)) < 2 ^ 31 \<and>
     uint (row_refresh_failure_count (snapshot_state s)) < 2 ^ 31 \<and>
     uint (row_warmup_remaining (snapshot_state s)) < 2 ^ 31"
| "plain_snapshot _ \<longleftrightarrow> True"

fun advances_generation :: "store_call \<Rightarrow> bool" where
  "advances_generation (Call_heal _) \<longleftrightarrow> True"
| "advances_generation (Call_patch _ _ _ p) \<longleftrightarrow> patch_advance_generation p"
| "advances_generation _ \<longleftrightarrow> False"

text \<open>How many of the calls that satisfy \<open>P\<close> change the row of the account.\<close>

fun changes_of ::
    "timestamps \<Rightarrow> u64 \<Rightarrow> (store_call \<Rightarrow> bool) \<Rightarrow> store_call list \<Rightarrow> runtime_db \<Rightarrow> nat" where
  "changes_of ts cid P [] db = 0"
| "changes_of ts cid P (c # calls) db =
     (if P c \<and> columns_of (after_call ts c db) cid \<noteq> columns_of db cid then 1 else 0) +
     changes_of ts cid P calls (after_call ts c db)"

lemma sint_small: "uint (n :: u32) < 2 ^ 31 \<Longrightarrow> sint n = uint n"
  by (simp add: sint_uint, intro signed_take_bit_int_eq_self)
     (simp_all add: order_trans [OF _ uint_ge_0])

lemma call_columns_in_range:
  assumes "call_columns c x = Some y" "in_range x" "plain_snapshot c"
  shows "in_range y \<and> col_generation y = col_generation x + (if advances_generation c then 1 else 0)"
proof (cases c)
  case (Call_snapshot cid s)
  with assms show ?thesis
    by (auto simp: in_range_def snapshot_columns_def sint_small fits_i64_def Let_def split: if_splits)
next
  case (Call_patch cid op k p)
  with assms show ?thesis
    by (auto simp: in_range_def patch_columns_def count_fits_def fits_i32_def fits_i64_def int8_def
        split: if_splits option.splits)
qed (use assms in \<open>auto simp: in_range_def success_columns_def api_failure_columns_def
      refresh_failure_columns_def heal_columns_def int4_def int8_def fits_i32_def fits_i64_def
      split: if_splits option.splits\<close>)

lemma call_changes_row:
  assumes "rows_in_range db" "plain_snapshot c"
  shows "columns_of (after_call ts c db) cid = columns_of db cid \<or>
    in_range (columns_of (after_call ts c db) cid) \<and>
    col_revision (columns_of (after_call ts c db) cid) = col_revision (columns_of db cid) + 1 \<and>
    col_generation (columns_of (after_call ts c db) cid) =
      col_generation (columns_of db cid) + (if advances_generation c then 1 else 0)"
proof -
  let ?i = "call_account c"
  consider "columns_of (after_call ts c db) = columns_of db"
    | y where "call_columns c (columns_of db ?i) = Some y"
        "columns_of (after_call ts c db) = (columns_of db)(?i := y)"
    using after_call_writes [of c db ts] by (auto simp: writes_row_def)
  then show ?thesis
  proof cases
    case 2
    have "in_range (columns_of db ?i)" using assms(1) by (simp add: rows_in_range_def)
    from call_columns_in_range [OF 2(1) this assms(2)] call_columns_next [OF 2(1)]
    show ?thesis unfolding 2(2) by (simp add: next_columns_def)
  qed simp
qed

lemma after_call_in_range:
  "rows_in_range db \<Longrightarrow> plain_snapshot c \<Longrightarrow> rows_in_range (after_call ts c db)"
  using call_changes_row unfolding rows_in_range_def by metis

lemma changes_counted:
  assumes "rows_in_range db" "list_all plain_snapshot calls"
  shows "col_revision (columns_of (after_calls ts calls db) cid) =
      col_revision (columns_of db cid) + int (changes_of ts cid (\<lambda>_. True) calls db) \<and>
    col_generation (columns_of (after_calls ts calls db) cid) =
      col_generation (columns_of db cid) + int (changes_of ts cid advances_generation calls db)"
  using assms
proof (induction calls arbitrary: db)
  case (Cons c calls)
  have "rows_in_range (after_call ts c db)" using Cons.prems by (intro after_call_in_range) simp_all
  then show ?case
    using Cons.IH [of "after_call ts c db"] call_changes_row [of db c ts cid] Cons.prems by auto
qed simp

lemma columns_seen_row:
  assumes "rows_in_range db"
  shows "columns_seen (row_of db cid) = columns_of db cid"
proof -
  have "in_range (columns_of db cid)" using assms by (simp add: rows_in_range_def)
  then show ?thesis
    by (cases "columns_of db cid")
       (simp add: columns_seen_def row_of_def runtime_state_from_row_def in_range_def uint_word_of_int)
qed

subsection \<open>Properties\<close>

text \<open>C27. The revision and the generation of a row count what happened to it, and the program sees the
  row as it is.  Over any run of transactions on accounts whose counters are in range, the
  revision of a row grows by one for each transaction that changed the row, and its generation by
  one for each applied patch that advances it and each healing, and not otherwise; and no counter,
  the warm-up among them, ever becomes negative or leaves its 32 or 64 bits, so that the unsigned
  numbers the program reads are exactly those in the table.  Two statements of the run are
  restricted: a saved snapshot must carry counters below \<open>2 ^ 31\<close> (it stores them with a plain
  cast) and must replace a row rather than create it (it creates one in any generation).\<close>

theorem row_counts_its_changes:
  assumes "rows_in_range db" and "list_all plain_snapshot calls"
  shows "col_revision (columns_of (after_calls ts calls db) cid) =
      col_revision (columns_of db cid) + int (changes_of ts cid (\<lambda>_. True) calls db) \<and>
    col_generation (columns_of (after_calls ts calls db) cid) =
      col_generation (columns_of db cid) + int (changes_of ts cid advances_generation calls db) \<and>
    columns_seen (row_of (after_calls ts calls db) cid) = columns_of (after_calls ts calls db) cid"
proof -
  have "rows_in_range (after_calls ts calls db)"
    using assms by (induction calls arbitrary: db) (auto intro: after_call_in_range)
  then show ?thesis
    using changes_counted [OF assms] columns_seen_row by blast
qed

text \<open>Whatever transactions run, an account's row is either untouched or carries a higher
  revision, and its generation never goes back: two readings of a row with the same revision are
  readings of the same row.  This is what lets an instance compare revisions instead of rows.\<close>

theorem revision_identifies_the_row:
  "(columns_of (after_calls ts calls db) cid = columns_of db cid \<or>
    col_revision (columns_of db cid) < col_revision (columns_of (after_calls ts calls db) cid)) \<and>
   col_generation (columns_of db cid) \<le> col_generation (columns_of (after_calls ts calls db) cid)"
  unfolding after_calls_def using transactions.row_run transactions.generation_run by blast

text \<open>C14. An operation takes effect once within the retention of the ledger: after a call under an
  operation id changed an account's row or its flag, a later call under the same id changes
  neither, whatever other transactions and whatever batches of the clean-up ran in between, as
  long as no more than the thirty days of the retention have passed since the change.  So a write
  that committed although its caller saw a time-out can be repeated.\<close>

theorem repeated_operation_changes_nothing:
  assumes "call_operation c = Some op" "call_operation c' = Some op"
    and "\<not> same_health db (after_call ts c db)"
    and "db_clock (after_calls ts calls (after_call ts c db)) \<le>
      db_clock db + CREDENTIAL_RUNTIME_MUTATION_RETENTION"
  shows "same_health (after_calls ts calls (after_call ts c db))
    (after_call ts c' (after_calls ts calls (after_call ts c db)))"
proof -
  have "stamp_of (after_call ts c db) op = Some (db_clock (after_call ts c db))"
    using after_call_effect [OF assms(1)] assms(3) by (auto simp: takes_effect_def)
  moreover have "db_clock db \<le> db_clock (after_call ts c db)" by (rule transactions.clock_step)
  ultimately have "stamp_of (after_calls ts calls (after_call ts c db)) op \<noteq> None"
    unfolding after_calls_def
    by (intro transactions.stamp_run [where t = "db_clock (after_call ts c db)"]) (use assms(4) in \<open>auto simp: after_calls_def\<close>)
  then show ?thesis
    using after_call_effect [OF assms(2), of "after_calls ts calls (after_call ts c db)" ts]
    by (auto simp: takes_effect_def stamp_of_def)
qed

text \<open>C25. Resetting an account discards what was reported before: once a patch that advances the
  generation is applied, no sequence of reports that expect the generation before it changes the
  account's row or its flag, however much time passes and whatever the clean-up removes from the
  ledger among them.\<close>

theorem reset_discards_earlier_reports:
  assumes "patch_credential_runtime_state_with_kind ts cid op kind p db = Inr (res, db')"
    and "result_applied res" "mutation_rows db op = None" "patch_advance_generation p"
    and "0 \<le> col_generation (columns_of db cid)"
    and "\<forall>c\<in>set calls. housekeeping c \<or> call_account c = cid \<and> call_operation c \<noteq> None \<and>
      (\<exists>g. call_generation c = Some g \<and> uint g \<le> col_generation (columns_of db cid))"
  shows "same_health db' (after_calls ts calls db')"
proof (rule superseded_calls)
  have gen: "uint (generation_of db' cid) = col_generation (columns_of db cid) + 1"
    using advancing_patch [OF assms(1-4)] assms(5) generation_of_uint [of db' cid] by auto
  show "\<forall>c\<in>set calls. housekeeping c \<or> call_account c = cid \<and> call_operation c \<noteq> None \<and>
      (\<exists>g. call_generation c = Some g \<and> g < generation_of db' cid)"
    using assms(6) gen by (fastforce simp: word_less_def)
qed

definition any_time :: timestamps where
  "any_time = \<lparr>parses_rfc3339 = (\<lambda>_. True), timestamptz = (\<lambda>_. 0)\<rparr>"

definition example_db :: runtime_db where
  "example_db = \<lparr>live_credentials = [1 \<mapsto> \<lparr>row_disabled = False, credential_revision = 0\<rparr>],
     runtime_rows = Map.empty, mutation_rows = Map.empty, last_uses = Map.empty, db_clock = 0\<rparr>"

definition one_failure :: store_call where
  "one_failure = Call_api_failure 1 7 (Some 0) ''t'' 3"

definition reset_patch :: runtime_state_patch where
  "reset_patch = default_patch\<lparr>patch_failure_count := Some 0, patch_disabled_reason := Clear_reason,
     patch_credential_disabled := Some False, patch_expected_generation := Some 0,
     patch_advance_generation := True\<rparr>"

lemmas transaction_defs =
  tx_bind_def tx_value_def prepare_credential_runtime_mutation_def
  record_credential_api_failure_with_expected_generation_def heal_credential_api_failures_def
  lock_active_credential_in_tx_def lock_runtime_state_def recognise_operation_def
  record_operation_def insert_mutation_def finish_prepared_def write_failure_def write_patch_def
  upsert_last_used_at_def update_runtime_row_def touch_mutation_def api_failure_columns_def patch_columns_def
  patch_generation_def patch_credential_runtime_state_with_kind_def
  patch_credential_runtime_state_in_tx_def persist_credential_disabled_flag_in_tx_def
  validate_rfc3339_timestamp_def validate_credential_runtime_state_patch_def
  runtime_state_count_to_i32_def count_fits_def verify_runtime_mutation_revision_def
  verify_runtime_mutation_generation_def runtime_state_from_row_def insert_default_row_def
  columns_of_def default_columns_def int4_def int8_def fits_i32_def fits_i64_def

lemma one_failure_effect: "\<not> same_health example_db (after_call any_time one_failure example_db)"
proof -
  have "columns_of (after_call any_time one_failure example_db) 1 \<noteq> columns_of example_db 1"
    by (simp add: one_failure_def example_db_def any_time_def database_after_def transaction_defs)
  then show ?thesis by (auto simp: same_health_def)
qed

theorem row_counts_its_changes_witness:
  "col_revision (columns_of (after_calls any_time [one_failure, one_failure] example_db) 1) =
     int (changes_of any_time 1 (\<lambda>_. True) [one_failure, one_failure] example_db)"
proof -
  have "rows_in_range example_db"
    by (simp add: rows_in_range_def in_range_def example_db_def columns_of_def default_columns_def)
  moreover have "list_all plain_snapshot [one_failure, one_failure]" by (simp add: one_failure_def)
  ultimately show ?thesis
    using row_counts_its_changes [of example_db "[one_failure, one_failure]" any_time 1]
    by (simp add: example_db_def columns_of_def default_columns_def)
qed

lemma cleanup_clock:
  "db_clock (database_after db (cleanup_credential_runtime_mutations unlocked stats r limit db)) =
     db_clock db"
  by (simp add: cleanup_credential_runtime_mutations_def database_after_def Let_def)

lemma one_failure_clock: "db_clock (after_call any_time one_failure example_db) = 0"
  by (simp add: one_failure_def example_db_def any_time_def database_after_def transaction_defs)

theorem repeated_operation_changes_nothing_witness:
  "let later = [Time_passes 1000000, Call_cleanup [7] [], Time_passes 3];
       db = after_calls any_time later (after_call any_time one_failure example_db)
   in same_health db (after_call any_time one_failure db)"
  unfolding Let_def
proof (rule repeated_operation_changes_nothing [where op = 7])
  show "db_clock (after_calls any_time [Time_passes 1000000, Call_cleanup [7] [], Time_passes 3]
      (after_call any_time one_failure example_db)) \<le>
      db_clock example_db + CREDENTIAL_RUNTIME_MUTATION_RETENTION"
    by (simp add: cleanup_clock one_failure_clock CREDENTIAL_RUNTIME_MUTATION_RETENTION_def)
       (simp add: example_db_def)
qed (simp_all add: one_failure_effect, simp_all add: one_failure_def)

text \<open>Once the clean-up has removed the row of an operation, the ledger no longer knows it, and the
  same report counts a second time.\<close>

lemma aged_operation_applies_again:
  "let old = after_calls any_time [one_failure, Time_passes 2592000000001, Call_cleanup [7] []] example_db
   in mutation_rows old 7 = None \<and> col_failure_count (columns_of old 1) = 1 \<and>
      col_failure_count (columns_of (after_call any_time one_failure old) 1) = 2"
  by (simp add: Let_def one_failure_def example_db_def any_time_def database_after_def
      transaction_defs cleanup_credential_runtime_mutations_def runtime_candidates_def
      order_by_created_def expired_rows_def map_filter_def MAX_CLEANUP_BATCH_def
      CREDENTIAL_RUNTIME_MUTATION_RETENTION_def CREDENTIAL_RUNTIME_MUTATION_CLEANUP_LIMIT_def)

lemma reset_example:
  "\<exists>res db. patch_credential_runtime_state_with_kind any_time 1 9 ''patch'' reset_patch example_db
      = Inr (res, db) \<and> result_applied res"
  by (simp add: reset_patch_def default_patch_def example_db_def any_time_def transaction_defs)

theorem reset_discards_earlier_reports_witness:
  "\<exists>res db. patch_credential_runtime_state_with_kind any_time 1 9 ''patch'' reset_patch example_db
      = Inr (res, db) \<and> same_health db (after_calls any_time [one_failure, one_failure] db)"
proof -
  obtain res db where run: "patch_credential_runtime_state_with_kind any_time 1 9 ''patch''
      reset_patch example_db = Inr (res, db)" and ok: "result_applied res"
    using reset_example by blast
  have "same_health db (after_calls any_time [one_failure, one_failure] db)"
    by (rule reset_discards_earlier_reports [OF run ok])
       (simp_all add: example_db_def reset_patch_def default_patch_def columns_of_def
         default_columns_def one_failure_def)
  with run show ?thesis by blast
qed

end
