(* ===== verification/Runtime_Queue.thy ===== *)
theory Runtime_Queue
  imports Runtime_Store Selection Risk_Circuit
begin

text \<open>
  How an instance writes an account's health back (\<open>src/kiro/token_manager/manager.rs\<close>): a
  result is applied to the local entry at once and queued per account, and a background flush
  replays each queue in order against the database (theory Runtime_Store) and takes the row it
  gets back over into the entry.  An entry with a queue is \<open>runtime_persistence_degraded\<close>; while
  the queue holds a change that decides whether the account may be scheduled at all, the entry
  is quarantined, that is disabled whatever else its fields say.

  Functions that hold the lock of the entries or of the queues to their end are one step; the
  flush takes the head of a queue, writes it, removes it and updates the entry under separate
  locks, and these are separate functions here.  Operation ids are drawn by the caller.
\<close>

subsection \<open>Queued changes\<close>

datatype pending_mutation =
    Pending_Success uuid u64 u32
  | Pending_ApiFailure uuid u64 string
  | Pending_RefreshFailure uuid u64 string
  | Pending_Disable uuid u64 string "u32 option" "u32 option" string
  | Pending_Patch uuid runtime_state_patch bool

record persisted_mutation =
  persisted_state :: runtime_state_row
  persisted_credential_disabled :: "bool option"
  persisted_applied :: bool

definition MAX_FAILURES_PER_CREDENTIAL :: u32 where "MAX_FAILURES_PER_CREDENTIAL = 3"

fun mutation_operation_id :: "pending_mutation \<Rightarrow> uuid" where
  "mutation_operation_id (Pending_Success op _ _) = op"
| "mutation_operation_id (Pending_ApiFailure op _ _) = op"
| "mutation_operation_id (Pending_RefreshFailure op _ _) = op"
| "mutation_operation_id (Pending_Disable op _ _ _ _ _) = op"
| "mutation_operation_id (Pending_Patch op _ _) = op"

definition generation_only :: "runtime_state_patch \<Rightarrow> bool" where
  "generation_only p \<longleftrightarrow> patch_failure_count p = None \<and> patch_refresh_failure_count p = None \<and>
     patch_warmup_remaining p = None \<and> patch_last_used_at p = None \<and>
     patch_credential_disabled p = None \<and> patch_disabled_reason p = Preserve"

fun requires_dispatch_quarantine :: "pending_mutation \<Rightarrow> bool" where
  "requires_dispatch_quarantine (Pending_Disable _ _ _ _ _ _) \<longleftrightarrow> True"
| "requires_dispatch_quarantine (Pending_Patch _ p neutral) \<longleftrightarrow> \<not> neutral \<and>
     (patch_credential_disabled p \<noteq> None \<or> patch_disabled_reason p \<noteq> Preserve \<or>
      patch_advance_generation p \<and> \<not> generation_only p)"
| "requires_dispatch_quarantine (Pending_Success _ _ _) \<longleftrightarrow> False"
| "requires_dispatch_quarantine (Pending_ApiFailure _ _ _) \<longleftrightarrow> False"
| "requires_dispatch_quarantine (Pending_RefreshFailure _ _ _) \<longleftrightarrow> False"

fun coalesce_into_previous :: "pending_mutation \<Rightarrow> pending_mutation \<Rightarrow> pending_mutation option" where
  "coalesce_into_previous (Pending_Success _ g n) (Pending_Success op' g' n') =
     (if g' = g then Some (Pending_Success op' g' (sat_add n' (max n 1))) else None)"
| "coalesce_into_previous _ _ = None"

definition result_of_mutation :: "mutation_result \<Rightarrow> persisted_mutation" where
  "result_of_mutation r = \<lparr>persisted_state = result_state r,
     persisted_credential_disabled = Some (result_credential_disabled r),
     persisted_applied = result_applied r\<rparr>"

fun persist_pending_runtime_mutation ::
    "timestamps \<Rightarrow> u64 \<Rightarrow> pending_mutation \<Rightarrow> persisted_mutation tx" where
  "persist_pending_runtime_mutation ts cid (Pending_Success op g n) =
     tx_bind (record_credential_success_with_expected_generation cid op (Some g) n)
       (\<lambda>r. tx_return (result_of_mutation r))"
| "persist_pending_runtime_mutation ts cid (Pending_ApiFailure op g t) =
     tx_bind (record_credential_api_failure_with_expected_generation ts cid op (Some g) t
         MAX_FAILURES_PER_CREDENTIAL)
       (\<lambda>r. tx_return (result_of_mutation r))"
| "persist_pending_runtime_mutation ts cid (Pending_RefreshFailure op g t) =
     tx_bind (record_credential_refresh_failure_with_expected_generation ts cid op (Some g) t
         MAX_FAILURES_PER_CREDENTIAL)
       (\<lambda>r. tx_return (result_of_mutation r))"
| "persist_pending_runtime_mutation ts cid (Pending_Disable op g reason n m t) =
     tx_bind (mark_credential_disabled_with_expected_generation ts cid op (Some g) reason n m t)
       (\<lambda>r. tx_return (result_of_mutation r))"
| "persist_pending_runtime_mutation ts cid (Pending_Patch op p _) =
     tx_bind (patch_credential_runtime_state_with_kind ts cid op ''patch'' p)
       (\<lambda>r. tx_return (result_of_mutation r))"

subsection \<open>Taking a row over into the entry\<close>

definition persisted_reason :: "runtime_state_row \<Rightarrow> bool \<Rightarrow> disabled_reason option" where
  "persisted_reason state flag =
     (case Option.bind (row_disabled_reason state) disabled_reason_from_str of
        Some r \<Rightarrow> Some r
      | None \<Rightarrow> if flag then Some Manual else None)"

definition apply_runtime_state_if_newer ::
    "'f credential_entry \<Rightarrow> runtime_state_row \<Rightarrow> bool \<times> 'f credential_entry" where
  "apply_runtime_state_if_newer e state =
     (if row_revision state \<le> runtime_revision e then (False, e)
      else let next_reason = persisted_reason state (cred_disabled (credentials e));
               next_disabled = (runtime_persistence_quarantined e \<or> next_reason \<noteq> None);
               changed = (failure_count e \<noteq> row_failure_count state \<or>
                 refresh_failure_count e \<noteq> row_refresh_failure_count state \<or>
                 warmup_remaining e \<noteq> row_warmup_remaining state \<or>
                 runtime_generation e \<noteq> row_generation state \<or>
                 disabled e \<noteq> next_disabled \<or> disabled_reason e \<noteq> next_reason)
           in (changed, e\<lparr>failure_count := row_failure_count state,
                refresh_failure_count := row_refresh_failure_count state,
                warmup_remaining := row_warmup_remaining state,
                disabled := next_disabled, disabled_reason := next_reason,
                runtime_generation := row_generation state,
                runtime_revision := row_revision state\<rparr>))"

definition recompute_entry_disabled :: "'f credential_entry \<Rightarrow> 'f credential_entry" where
  "recompute_entry_disabled e =
     (let reason = (if cred_disabled (credentials e) \<and> disabled_reason e = None then Some Manual
                    else disabled_reason e)
      in e\<lparr>disabled_reason := reason,
           disabled := runtime_persistence_quarantined e \<or> cred_disabled (credentials e) \<or>
             reason \<noteq> None\<rparr>)"

definition set_cred_disabled :: "bool \<Rightarrow> 'f credential_entry \<Rightarrow> 'f credential_entry" where
  "set_cred_disabled v e = e\<lparr>credentials := (credentials e)\<lparr>cred_disabled := v\<rparr>\<rparr>"

definition apply_authoritative_runtime_state_to_entry ::
    "'f credential_entry \<Rightarrow> runtime_state_row \<Rightarrow> bool option \<Rightarrow> 'f credential_entry" where
  "apply_authoritative_runtime_state_to_entry e state flag =
     (if row_revision state < runtime_revision e then e
      else let e' = (case flag of None \<Rightarrow> e | Some v \<Rightarrow> set_cred_disabled v e)
           in if runtime_revision e < row_revision state
              then snd (apply_runtime_state_if_newer e' state)
              else recompute_entry_disabled e')"

definition apply_runtime_mutation_result_to_entry ::
    "'f credential_entry \<Rightarrow> mutation_result \<Rightarrow> 'f credential_entry" where
  "apply_runtime_mutation_result_to_entry e r =
     apply_authoritative_runtime_state_to_entry e (result_state r)
       (Some (result_credential_disabled r))"

definition apply_persisted_runtime_mutation_to_entry ::
    "'f credential_entry \<Rightarrow> persisted_mutation \<Rightarrow> 'f credential_entry" where
  "apply_persisted_runtime_mutation_to_entry e p =
     (if row_generation (persisted_state p) < runtime_generation e then e
      else apply_authoritative_runtime_state_to_entry e (persisted_state p)
        (if persisted_applied p then persisted_credential_disabled p else None))"

subsection \<open>The queues\<close>

definition SOFT_PENDING_RUNTIME_MUTATIONS_PER_CREDENTIAL :: nat where
  "SOFT_PENDING_RUNTIME_MUTATIONS_PER_CREDENTIAL = 4096"
definition SOFT_PENDING_RUNTIME_MUTATIONS_TOTAL :: nat where
  "SOFT_PENDING_RUNTIME_MUTATIONS_TOTAL = 65536"

type_synonym pending_queues = "(u64 \<times> pending_mutation list) list"

record 'f health_state =
  accounts :: "'f credential_entry list"
  pending_mutations :: pending_queues
  overflow_runtime_mutations :: u64
  stats_dirty :: bool
  flush_cursor :: u64
  current_id :: u64

definition queue_of :: "pending_queues \<Rightarrow> u64 \<Rightarrow> pending_mutation list" where
  "queue_of q cid = (case map_of q cid of None \<Rightarrow> [] | Some ms \<Rightarrow> ms)"

definition has_pending_runtime_mutations :: "'f health_state \<Rightarrow> u64 \<Rightarrow> bool" where
  "has_pending_runtime_mutations w cid \<longleftrightarrow> queue_of (pending_mutations w) cid \<noteq> []"

definition queue_requires_quarantine :: "pending_mutation list \<Rightarrow> bool" where
  "queue_requires_quarantine ms \<longleftrightarrow> list_ex requires_dispatch_quarantine ms"

definition push_mutation :: "pending_mutation \<Rightarrow> pending_mutation list \<Rightarrow> bool \<times> pending_mutation list" where
  "push_mutation m ms =
     (case (if ms = [] then None else coalesce_into_previous m (last ms)) of
        Some merged \<Rightarrow> (True, butlast ms @ [merged])
      | None \<Rightarrow> (False, ms @ [m]))"

definition enqueue_pending_runtime_mutation ::
    "u64 \<Rightarrow> pending_mutation \<Rightarrow> 'f health_state \<Rightarrow> bool \<times> 'f health_state" where
  "enqueue_pending_runtime_mutation cid m w =
     (case find (has_id cid) (accounts w) of
        None \<Rightarrow> (False, w)
      | Some _ \<Rightarrow>
          let q = pending_mutations w;
              known = list_ex (\<lambda>(_, ms). list_ex (\<lambda>m'. mutation_operation_id m' = mutation_operation_id m) ms) q;
              ms = queue_of q cid;
              total = sum_list (map (length \<circ> snd) q);
              (coalesced, ms') = push_mutation m ms;
              over = (\<not> known \<and> \<not> coalesced \<and>
                (SOFT_PENDING_RUNTIME_MUTATIONS_TOTAL \<le> total \<or>
                 SOFT_PENDING_RUNTIME_MUTATIONS_PER_CREDENTIAL \<le> length ms));
              quarantine = (if known then queue_requires_quarantine ms
                else requires_dispatch_quarantine m \<or> queue_requires_quarantine ms);
              update = (\<lambda>e. recompute_entry_disabled (e\<lparr>runtime_persistence_degraded := True,
                runtime_persistence_quarantined := quarantine\<rparr>))
          in (True, w\<lparr>accounts := find_update (has_id cid) update (accounts w),
                pending_mutations := (if known then q else AList.update cid ms' q),
                overflow_runtime_mutations := (if over then overflow_runtime_mutations w + 1
                  else overflow_runtime_mutations w),
                stats_dirty := True\<rparr>))"

subsection \<open>Which account is current\<close>

definition best_available :: "'f credential_entry list \<Rightarrow> 'f credential_entry option" where
  "best_available entries =
     min_by_key (priority \<circ> credentials) (filter entry_is_scheduler_available entries)"

definition select_highest_priority :: "'f health_state \<Rightarrow> 'f health_state" where
  "select_highest_priority w = (case best_available (accounts w) of
       None \<Rightarrow> w
     | Some best \<Rightarrow> if entry_id best \<noteq> current_id w then w\<lparr>current_id := entry_id best\<rparr> else w)"

subsection \<open>The flush\<close>

text \<open>The pieces of \<open>flush_pending_runtime_mutations_until\<close> in the order of its locks: the head
  of an account's queue, the transaction, the removal of the head if it is still the one
  written, and the update of the entry.\<close>

definition flush_head :: "'f health_state \<Rightarrow> u64 \<Rightarrow> pending_mutation option" where
  "flush_head w cid = (case queue_of (pending_mutations w) cid of [] \<Rightarrow> None | m # _ \<Rightarrow> Some m)"

definition flush_pop :: "u64 \<Rightarrow> uuid \<Rightarrow> pending_queues \<Rightarrow> (bool \<times> bool) \<times> pending_queues" where
  "flush_pop cid op q = (case map_of q cid of
       None \<Rightarrow> ((False, False), q)
     | Some ms \<Rightarrow>
         let ms' = (case ms of [] \<Rightarrow> [] | m # rest \<Rightarrow>
               if mutation_operation_id m = op then rest else ms)
         in ((ms' = [], queue_requires_quarantine ms'),
             if ms' = [] then AList.delete cid q else AList.update cid ms' q))"

definition flush_settle_entry ::
    "bool \<Rightarrow> bool \<Rightarrow> persisted_mutation \<Rightarrow> 'f credential_entry \<Rightarrow> 'f credential_entry" where
  "flush_settle_entry queue_empty quarantine p e =
     recompute_entry_disabled (apply_persisted_runtime_mutation_to_entry
       (e\<lparr>runtime_persistence_degraded := \<not> queue_empty,
          runtime_persistence_quarantined := quarantine\<rparr>) p)"

definition flush_settle ::
    "u64 \<Rightarrow> bool \<times> bool \<Rightarrow> persisted_mutation \<Rightarrow> 'f health_state \<Rightarrow> 'f health_state" where
  "flush_settle cid popped p w = w\<lparr>accounts :=
     find_update (has_id cid) (flush_settle_entry (fst popped) (snd popped) p) (accounts w)\<rparr>"

text \<open>The database may be out of reach, or answer too late for the caller.\<close>

datatype link = Answers | Refuses | Answers_late

definition flush_write ::
    "timestamps \<Rightarrow> link \<Rightarrow> u64 \<Rightarrow> pending_mutation \<Rightarrow> runtime_db \<Rightarrow> (store_error + persisted_mutation) \<times> runtime_db"
  where
  "flush_write ts l cid m db = (case l of
       Refuses \<Rightarrow> (Inl Unreachable, db)
     | Answers_late \<Rightarrow> (Inl Unreachable, database_after db (persist_pending_runtime_mutation ts cid m db))
     | Answers \<Rightarrow> (case persist_pending_runtime_mutation ts cid m db of
           Inl e \<Rightarrow> (Inl e, db)
         | Inr (p, db') \<Rightarrow> (Inr p, db')))"

record 'f flush_state =
  fl_health :: "'f health_state"
  fl_db :: runtime_db
  fl_failed :: "u64 list"
  fl_attempted :: nat
  fl_succeeded :: bool
  fl_recovered :: bool
  fl_persisted :: bool

definition flush_finish ::
    "u64 \<Rightarrow> uuid \<Rightarrow> persisted_mutation \<Rightarrow> 'f health_state \<Rightarrow> bool \<times> 'f health_state" where
  "flush_finish cid op p w =
     (let (popped, q) = flush_pop cid op (pending_mutations w)
      in (fst popped, flush_settle cid popped p (w\<lparr>pending_mutations := q\<rparr>)))"

definition flush_account :: "timestamps \<Rightarrow> link \<Rightarrow> u64 \<Rightarrow> 'f flush_state \<Rightarrow> 'f flush_state" where
  "flush_account ts l cid s =
     (let w = (fl_health s)\<lparr>flush_cursor := cid\<rparr> in
      case flush_head w cid of
        None \<Rightarrow> s\<lparr>fl_health := w\<rparr>
      | Some m \<Rightarrow>
          let (answer, db) = flush_write ts l cid m (fl_db s);
              s = s\<lparr>fl_db := db, fl_attempted := fl_attempted s + 1\<rparr>
          in case answer of
               Inl _ \<Rightarrow> s\<lparr>fl_health := w\<lparr>stats_dirty := True\<rparr>, fl_failed := cid # fl_failed s\<rparr>
             | Inr p \<Rightarrow>
                 let (queue_empty, w') = flush_finish cid (mutation_operation_id m) p w
                 in s\<lparr>fl_health := w', fl_succeeded := True, fl_persisted := True,
                      fl_recovered := fl_recovered s \<or> queue_empty\<rparr>)"

text \<open>A reading \<open>(up, l)\<close> says whether the deadline has passed at one look at the clock and how
  the database behaves then; when the readings run out the deadline has passed.\<close>

type_synonym readings = "(bool \<times> link) list"

definition deadline_passed :: "readings \<Rightarrow> bool" where
  "deadline_passed rs = (case rs of [] \<Rightarrow> True | (up, _) # _ \<Rightarrow> up)"

fun flush_round ::
    "timestamps \<Rightarrow> nat \<Rightarrow> u64 list \<Rightarrow> readings \<Rightarrow> 'f flush_state \<Rightarrow> readings \<times> 'f flush_state" where
  "flush_round ts limit [] rs s = (rs, s)"
| "flush_round ts limit (cid # ids) rs s =
     (if limit \<le> fl_attempted s \<or> deadline_passed rs then (rs, s)
      else flush_round ts limit ids (tl rs) (flush_account ts (snd (hd rs)) cid s))"

definition flush_ids :: "'f health_state \<Rightarrow> u64 list \<Rightarrow> u64 list" where
  "flush_ids w failed =
     (let ids = sort (filter (\<lambda>i. i \<notin> set failed) (map fst (pending_mutations w)));
          split = length (takeWhile (\<lambda>i. i \<le> flush_cursor w) ids)
      in if split < length ids then rotate split ids else ids)"

lemma flush_account_attempts:
  "fl_attempted s \<le> fl_attempted (flush_account ts l cid s) \<and>
   fl_attempted (flush_account ts l cid s) \<le> fl_attempted s + 1 \<and>
   (fl_succeeded (flush_account ts l cid s) \<longrightarrow>
     fl_succeeded s \<or> fl_attempted s < fl_attempted (flush_account ts l cid s))"
  by (auto simp: flush_account_def Let_def split: option.splits prod.splits sum.splits)

lemma flush_round_attempts:
  "fl_attempted s \<le> fl_attempted (snd (flush_round ts limit ids rs s)) \<and>
   (fl_succeeded (snd (flush_round ts limit ids rs s)) \<longrightarrow>
     fl_succeeded s \<or> fl_attempted s < fl_attempted (snd (flush_round ts limit ids rs s)))"
proof (induction ts limit ids rs s rule: flush_round.induct)
  case (2 ts limit cid ids rs s)
  then show ?case
    using flush_account_attempts [of s ts "snd (hd rs)" cid] by auto
qed simp

function flush_loop :: "timestamps \<Rightarrow> nat \<Rightarrow> readings \<Rightarrow> 'f flush_state \<Rightarrow> 'f flush_state" where
  "flush_loop ts limit rs s =
     (if limit \<le> fl_attempted s then s
      else let ids = flush_ids (fl_health s) (fl_failed s) in
        if ids = [] then s
        else let (rs', s') = flush_round ts limit ids rs (s\<lparr>fl_succeeded := False\<rparr>)
             in if \<not> fl_succeeded s' then s'
                else if deadline_passed rs' then s'
                else flush_loop ts limit rs' s')"
  by pat_completeness auto

termination flush_loop
proof (relation "measure (\<lambda>(ts, limit, rs, s). limit - fl_attempted s)", goal_cases)
  case (2 ts limit rs s ids r rs' s')
  have "s' = snd (flush_round ts limit ids rs (s\<lparr>fl_succeeded := False\<rparr>))"
    using 2(4,5) by (metis snd_conv)
  then have "fl_attempted s < fl_attempted s'"
    using 2(6) flush_round_attempts [of "s\<lparr>fl_succeeded := False\<rparr>" ts limit ids rs] by simp
  with 2(1) show ?case by simp
qed simp

declare flush_loop.simps [simp del]

definition flush_pending_runtime_mutations_until ::
    "timestamps \<Rightarrow> nat \<Rightarrow> readings \<Rightarrow> 'f health_state \<Rightarrow> runtime_db \<Rightarrow> u64 list \<Rightarrow> 'f flush_state" where
  "flush_pending_runtime_mutations_until ts limit rs w db failed =
     (let s = flush_loop ts limit rs \<lparr>fl_health = w, fl_db = db, fl_failed = failed,
            fl_attempted = 0, fl_succeeded = False, fl_recovered = False, fl_persisted = False\<rparr>;
          w = (if fl_recovered s then select_highest_priority (fl_health s) else fl_health s)
      in s\<lparr>fl_health := (if pending_mutations w \<noteq> [] then w\<lparr>stats_dirty := True\<rparr> else w)\<rparr>)"

subsection \<open>Administrator's changes, reloading and healing\<close>

definition runtime_patch_is_dispatch_neutral ::
    "'f credential_entry \<Rightarrow> runtime_state_patch \<Rightarrow> bool" where
  "runtime_patch_is_dispatch_neutral e p \<longleftrightarrow>
     (case patch_disabled_reason p of
        Preserve \<Rightarrow> True
      | Clear_reason \<Rightarrow> disabled_reason e = None
      | Set_reason v \<Rightarrow> disabled_reason e = disabled_reason_from_str v) \<and>
     (case patch_credential_disabled p of None \<Rightarrow> True
      | Some v \<Rightarrow> v = cred_disabled (credentials e)) \<and>
     (case patch_failure_count p of None \<Rightarrow> True | Some n \<Rightarrow> n = failure_count e) \<and>
     (case patch_refresh_failure_count p of None \<Rightarrow> True | Some n \<Rightarrow> n = refresh_failure_count e) \<and>
     (case patch_warmup_remaining p of None \<Rightarrow> True | Some n \<Rightarrow> n = warmup_remaining e)"

definition loaded_entry ::
    "(u64 \<rightharpoonup> runtime_state_row) \<Rightarrow> 'f credential_entry \<Rightarrow> bool \<times> 'f credential_entry" where
  "loaded_entry states e =
     (if runtime_persistence_degraded e then (False, e)
      else case states (entry_id e) of None \<Rightarrow> (False, e)
         | Some state \<Rightarrow> apply_runtime_state_if_newer e state)"

definition apply_loaded_runtime_states ::
    "(u64 \<rightharpoonup> runtime_state_row) \<Rightarrow> 'f health_state \<Rightarrow> bool \<times> 'f health_state" where
  "apply_loaded_runtime_states states w =
     (list_ex (\<lambda>e. fst (loaded_entry states e)) (accounts w),
      w\<lparr>accounts := map (\<lambda>e. snd (loaded_entry states e)) (accounts w)\<rparr>)"

definition load_credential_runtime_state :: "runtime_db \<Rightarrow> u64 \<rightharpoonup> runtime_state_row" where
  "load_credential_runtime_state db cid = map_option runtime_state_from_row (runtime_rows db cid)"

end
