(* ===== verification/Account_Reports.thy ===== *)
theory Account_Reports
  imports Runtime_Queue Session_Bindings
begin

text \<open>
  What a finished request tells the scheduler about its account
  (\<open>src/kiro/token_manager/manager.rs\<close>, the variants on the request path): success, failure,
  exhausted quota, risk control, an invalid refresh token, and the automatic healing of accounts
  that failed too often.

  A report first changes the local entry, then queues the change for the database (theory
  Runtime_Queue) and, when the account is disabled, moves the current account on and clears what
  requests left behind.  Each report is one step here; writes to Redis, audit records, log lines
  and wake-ups of waiting requests are left out.  Operation ids and clock readings are
  arguments, the arithmetic of \<open>f64\<close> is the record \<open>F\<close> of theory Degrade.
\<close>

subsection \<open>State and settings\<close>

record stats_delta =
  success_delta :: u64
  selection_delta :: u64
  stats_last_used_at :: "string option"

record 'f report_state =
  rp_health :: "'f health_state"
  rp_sessions :: session_table
  rp_circuit :: risk_circuit
  rp_stats :: "u64 \<rightharpoonup> stats_delta"
  rp_probes :: "u64 \<rightharpoonup> instant"

record 'f success_config =
  scheduler_error_ewma_alpha :: 'f
  credential_degrade_enabled :: bool
  credential_degrade_success_decay :: 'f
  credential_degrade_half_life_secs :: u64
  credential_degrade_suspend_score :: 'f
  credential_degrade_resume_ratio :: 'f

record clock_reading =
  ck_instant :: instant
  ck_millis :: int
  ck_rfc3339 :: string

definition PERSISTED_RUNTIME_SUCCESS_RECONCILE_MIN_INTERVAL :: duration where
  "PERSISTED_RUNTIME_SUCCESS_RECONCILE_MIN_INTERVAL = secs 2"

subsection \<open>Success\<close>

definition default_health :: "'f f64 \<Rightarrow> 'f scheduler_health_state" where
  "default_health F = \<lparr>transient_failure_streak = 0, recent_error_rate = f_lit F 0 1,
     latency_ewma_ms = None, last_error_kind = None, last_error_reason = None,
     last_error_at_ms = None, probation_until_ms = None, selection_count = 0,
     recent_selection_count_10s = 0, recent_selection_count_60s = 0, recent_selection_count_5m = 0\<rparr>"

definition update_effective_health ::
    "'f f64 \<Rightarrow> string option \<Rightarrow> ('f scheduler_health_state \<Rightarrow> 'f scheduler_health_state) \<Rightarrow>
     'f credential_entry \<Rightarrow> 'f credential_entry" where
  "update_effective_health F model f e = (case map_option model_state_key model of
       Some key \<Rightarrow> e\<lparr>model_health := (model_health e)(key \<mapsto>
         f (case model_health e key of None \<Rightarrow> default_health F | Some h \<Rightarrow> h))\<rparr>
     | None \<Rightarrow> e\<lparr>health := f (health e)\<rparr>)"

definition health_after_success ::
    "'f f64 \<Rightarrow> 'f \<Rightarrow> duration option \<Rightarrow> 'f scheduler_health_state \<Rightarrow> 'f scheduler_health_state" where
  "health_after_success F alpha latency h =
     h\<lparr>recent_error_rate := f_mul F (recent_error_rate h) (f_sub F (f_lit F 1 1) alpha),
       transient_failure_streak := sat_sub (transient_failure_streak h) 1,
       latency_ewma_ms := (case latency of
           None \<Rightarrow> latency_ewma_ms h
         | Some d \<Rightarrow> let ms = f_of_nat F (d div 1000000) in Some (case latency_ewma_ms h of
               None \<Rightarrow> ms
             | Some previous \<Rightarrow> f_add F previous (f_mul F alpha (f_sub F ms previous))))\<rparr>"

definition success_resume_score :: "'f f64 \<Rightarrow> 'f success_config \<Rightarrow> 'f" where
  "success_resume_score F cfg = f_max F (f_mul F (credential_degrade_suspend_score cfg)
     (f_clamp F (f_lit F 0 1) (f_lit F 1 1) (credential_degrade_resume_ratio cfg))) (f_lit F 0 1)"

definition runtime_state_changed :: "'f credential_entry \<Rightarrow> bool" where
  "runtime_state_changed e \<longleftrightarrow> failure_count e > 0 \<or> refresh_failure_count e > 0 \<or>
     warmup_remaining e > 0 \<or> runtime_persistence_degraded e \<or> disabled e"

definition entry_after_success ::
    "'f f64 \<Rightarrow> 'f success_config \<Rightarrow> clock_reading \<Rightarrow> string option \<Rightarrow> duration option \<Rightarrow>
     'f credential_entry \<Rightarrow> 'f credential_entry" where
  "entry_after_success F cfg now model latency e =
     (let alpha = f_clamp F (f_lit F 1 100) (f_lit F 1 1) (scheduler_error_ewma_alpha cfg);
          e = e\<lparr>failure_count := 0, refresh_failure_count := 0,
                auto_heal_consecutive_rounds := 0, upstream_fault_streak := 0,
                warmup_remaining := (if warmup_remaining e > 0 then warmup_remaining e - 1
                  else warmup_remaining e),
                success_count := success_count e + 1,
                entry_last_used_at := Some (ck_rfc3339 now)\<rparr>;
          e = update_effective_health F model (health_after_success F alpha latency) e
      in if credential_degrade_enabled cfg
         then e\<lparr>degrade_scores := apply_success F (degrade_scores e) model
           (credential_degrade_success_decay cfg) (ck_millis now)
           (f_mul F (f_of_nat F (unat (max (credential_degrade_half_life_secs cfg) 1))) (f_lit F 1000 1))
           (success_resume_score F cfg)\<rparr>
         else e)"

definition record_success_local ::
    "'f f64 \<Rightarrow> 'f success_config \<Rightarrow> clock_reading \<Rightarrow> string option \<Rightarrow> duration option \<Rightarrow> u64 \<Rightarrow>
     'f health_state \<Rightarrow> (u64 \<times> bool) option \<times> 'f health_state" where
  "record_success_local F cfg now model latency cid w =
     (case find (has_id cid) (accounts w) of
        None \<Rightarrow> (None, w)
      | Some e \<Rightarrow> (Some (runtime_generation e, runtime_state_changed e),
          w\<lparr>accounts := find_update (has_id cid)
              (entry_after_success F cfg now model latency) (accounts w)\<rparr>))"

definition should_probe_persisted_runtime_success_state ::
    "bool \<Rightarrow> instant \<Rightarrow> u64 \<Rightarrow> (u64 \<rightharpoonup> instant) \<Rightarrow> bool \<times> (u64 \<rightharpoonup> instant)" where
  "should_probe_persisted_runtime_success_state store now cid probes =
     (if \<not> store then (False, probes)
      else if (case probes cid of None \<Rightarrow> False | Some at_last \<Rightarrow>
          saturating_duration_since now at_last < PERSISTED_RUNTIME_SUCCESS_RECONCILE_MIN_INTERVAL)
      then (False, probes)
      else (True, probes(cid \<mapsto> now)))"

definition record_success_stats_delta :: "u64 \<Rightarrow> string \<Rightarrow> (u64 \<rightharpoonup> stats_delta) \<Rightarrow> u64 \<rightharpoonup> stats_delta" where
  "record_success_stats_delta cid t stats = stats(cid \<mapsto>
     (case stats cid of
        None \<Rightarrow> \<lparr>success_delta = 1, selection_delta = 0, stats_last_used_at = Some t\<rparr>
      | Some d \<Rightarrow> d\<lparr>success_delta := sat_add (success_delta d) 1, stats_last_used_at := Some t\<rparr>))"

definition report_success_with_latency_deferred ::
    "'f f64 \<Rightarrow> 'f success_config \<Rightarrow> bool \<Rightarrow> clock_reading \<Rightarrow> uuid \<Rightarrow> string option \<Rightarrow> duration option \<Rightarrow>
     u64 \<Rightarrow> 'f report_state \<Rightarrow> 'f report_state" where
  "report_success_with_latency_deferred F cfg store now op model latency cid r =
     (case record_success_local F cfg now model latency cid (rp_health r) of
        (None, _) \<Rightarrow> r
      | (Some (generation, changed), w) \<Rightarrow>
          let (probe, probes) = (if changed \<or> has_pending_runtime_mutations w cid then (True, rp_probes r)
                else should_probe_persisted_runtime_success_state store (ck_instant now) cid (rp_probes r));
              w = (if probe
                then snd (enqueue_pending_runtime_mutation cid (Pending_Success op generation 1) w)
                else w)
          in r\<lparr>rp_health := w\<lparr>stats_dirty := True\<rparr>,
               rp_circuit := record_circuit_success (rp_circuit r),
               rp_stats := record_success_stats_delta cid (ck_rfc3339 now) (rp_stats r),
               rp_probes := probes\<rparr>)"

subsection \<open>Failure\<close>

definition clear_scheduler_state_for_credential_local ::
    "'f f64 \<Rightarrow> u64 \<Rightarrow> bool \<Rightarrow> 'f credential_entry list \<Rightarrow> 'f credential_entry list" where
  "clear_scheduler_state_for_credential_local F cid clear_in_flight entries =
     find_update (has_id cid) (\<lambda>e.
       let e = e\<lparr>cooldown_until := None, cooldown_reason := None, model_cooldowns := [],
                 rate_limit_available_at := None, health := default_health F,
                 model_health := Map.empty\<rparr>
       in if clear_in_flight then e\<lparr>in_flight_requests := 0, in_flight_leases := []\<rparr> else e) entries"

definition clear_disabled_credential_request_state ::
    "'f f64 \<Rightarrow> u64 \<Rightarrow> 'f report_state \<Rightarrow> 'f report_state" where
  "clear_disabled_credential_request_state F cid r =
     r\<lparr>rp_sessions := unbind_sessions_for_credential (rp_sessions r) cid,
       rp_health := (rp_health r)\<lparr>accounts :=
         clear_scheduler_state_for_credential_local F cid False (accounts (rp_health r))\<rparr>\<rparr>"

definition entry_after_failure :: "clock_reading \<Rightarrow> 'f credential_entry \<Rightarrow> 'f credential_entry" where
  "entry_after_failure now e =
     (let n = sat_add (failure_count e) 1;
          e = e\<lparr>failure_count := n, entry_last_used_at := Some (ck_rfc3339 now)\<rparr>
      in if MAX_FAILURES_PER_CREDENTIAL \<le> n
         then e\<lparr>disabled := True, disabled_reason := Some TooManyFailures\<rparr> else e)"

definition update_account ::
    "u64 \<Rightarrow> ('f credential_entry \<Rightarrow> 'f credential_entry) \<Rightarrow> 'f health_state \<Rightarrow> 'f health_state" where
  "update_account cid f w = w\<lparr>accounts := find_update (has_id cid) f (accounts w)\<rparr>"

definition report_failure_deferred ::
    "'f f64 \<Rightarrow> bool \<Rightarrow> clock_reading \<Rightarrow> uuid \<Rightarrow> u64 \<Rightarrow> 'f report_state \<Rightarrow> bool \<times> 'f report_state" where
  "report_failure_deferred F store now op cid r =
     (case find (has_id cid) (accounts (rp_health r)) of
        None \<Rightarrow> (any_scheduler_available (accounts (rp_health r)), r)
      | Some e \<Rightarrow>
          if disabled e \<and> \<not> runtime_persistence_degraded e
          then (any_scheduler_available (accounts (rp_health r)), r)
          else
            let now_disabled = disabled (entry_after_failure now e);
                w = update_account cid (entry_after_failure now) (rp_health r);
                w = (if store then snd (enqueue_pending_runtime_mutation cid
                       (Pending_ApiFailure op (runtime_generation e) (ck_rfc3339 now)) w) else w);
                r = (if now_disabled
                     then clear_disabled_credential_request_state F cid
                       (r\<lparr>rp_health := select_highest_priority w\<rparr>)
                     else r\<lparr>rp_health := w\<rparr>)
            in (any_scheduler_available (accounts (rp_health r)), r))"

subsection \<open>Reports that disable at once\<close>

definition entry_after_disable ::
    "disabled_reason \<Rightarrow> bool \<Rightarrow> clock_reading \<Rightarrow> 'f credential_entry \<Rightarrow> 'f credential_entry" where
  "entry_after_disable reason set_count now e =
     (let e = e\<lparr>disabled := True, disabled_reason := Some reason,
                entry_last_used_at := Some (ck_rfc3339 now)\<rparr>
      in if set_count then e\<lparr>failure_count := MAX_FAILURES_PER_CREDENTIAL\<rparr> else e)"

definition switch_to_best :: "'f health_state \<Rightarrow> bool \<times> 'f health_state" where
  "switch_to_best w = (case best_available (accounts w) of
       None \<Rightarrow> (False, w)
     | Some best \<Rightarrow> (True, w\<lparr>current_id := entry_id best\<rparr>))"

definition persist_disabled_state_deferred ::
    "bool \<Rightarrow> uuid \<Rightarrow> u64 \<Rightarrow> u64 \<Rightarrow> disabled_reason \<Rightarrow> u32 option \<Rightarrow> u32 option \<Rightarrow> string \<Rightarrow>
     'f health_state \<Rightarrow> 'f health_state" where
  "persist_disabled_state_deferred store op cid generation reason failures refresh_failures t w =
     (if store then snd (enqueue_pending_runtime_mutation cid
        (Pending_Disable op generation (disabled_reason_as_str reason) failures refresh_failures t) w)
      else w)"

definition report_quota_exhausted_deferred_inner ::
    "'f f64 \<Rightarrow> bool \<Rightarrow> clock_reading \<Rightarrow> uuid \<Rightarrow> u64 \<Rightarrow> 'f report_state \<Rightarrow>
     (bool \<times> bool) \<times> 'f report_state" where
  "report_quota_exhausted_deferred_inner F store now op cid r =
     (case find (has_id cid) (accounts (rp_health r)) of
        None \<Rightarrow> ((any_scheduler_available (accounts (rp_health r)), False), r)
      | Some e \<Rightarrow>
          if disabled e then ((any_scheduler_available (accounts (rp_health r)), False), r)
          else
            let (result, w) = switch_to_best
                  (update_account cid (entry_after_disable QuotaExceeded True now) (rp_health r));
                r = clear_disabled_credential_request_state F cid (r\<lparr>rp_health := w\<rparr>)
            in ((result, True), r\<lparr>rp_health := persist_disabled_state_deferred store op cid
                  (runtime_generation e) QuotaExceeded (Some MAX_FAILURES_PER_CREDENTIAL) None
                  (ck_rfc3339 now) (rp_health r)\<rparr>))"

definition report_refresh_token_invalid_deferred ::
    "'f f64 \<Rightarrow> bool \<Rightarrow> clock_reading \<Rightarrow> uuid \<Rightarrow> u64 \<Rightarrow> 'f report_state \<Rightarrow> bool \<times> 'f report_state" where
  "report_refresh_token_invalid_deferred F store now op cid r =
     (case find (has_id cid) (accounts (rp_health r)) of
        None \<Rightarrow> (any_scheduler_available (accounts (rp_health r)), r)
      | Some e \<Rightarrow>
          if disabled e then (any_scheduler_available (accounts (rp_health r)), r)
          else
            let (result, w) = switch_to_best
                  (update_account cid (entry_after_disable InvalidRefreshToken False now) (rp_health r));
                r = clear_disabled_credential_request_state F cid (r\<lparr>rp_health := w\<rparr>)
            in (result, r\<lparr>rp_health := persist_disabled_state_deferred store op cid
                  (runtime_generation e) InvalidRefreshToken None None
                  (ck_rfc3339 now) (rp_health r)\<rparr>))"

record risk_outcome =
  has_available_credentials :: bool
  ro_circuit_open :: bool
  ro_retry_after_secs :: "u64 option"

definition risk_outcome_of :: "bool \<Rightarrow> circuit_snapshot \<Rightarrow> risk_outcome" where
  "risk_outcome_of available s = \<lparr>has_available_credentials = available, ro_circuit_open = snap_open s,
     ro_retry_after_secs = map_option (\<lambda>d. max (sat_add (word_of_nat (d div secs 1)) 1) 1)
       (snap_retry_after s)\<rparr>"

definition report_risk_controlled_outcome_deferred ::
    "'f f64 \<Rightarrow> circuit_config \<Rightarrow> (u64 \<rightharpoonup> proxy_resource_runtime) \<Rightarrow> bool \<Rightarrow> clock_reading \<Rightarrow> uuid \<Rightarrow>
     u64 \<Rightarrow> risk_control_reason \<Rightarrow> 'f report_state \<Rightarrow> risk_outcome \<times> 'f report_state" where
  "report_risk_controlled_outcome_deferred F ccfg proxies store now op cid reason r =
     (let looked = circuit_snapshot_from_config (ck_instant now) ccfg (rp_circuit r);
          gone = (risk_outcome_of (any_scheduler_available (accounts (rp_health r))) (fst looked),
                  r\<lparr>rp_circuit := snd looked\<rparr>)
      in case find (has_id cid) (accounts (rp_health r)) of
        None \<Rightarrow> gone
      | Some e \<Rightarrow>
          if disabled e then gone
          else
            let (result, w) = switch_to_best (update_account cid
                  (entry_after_disable (risk_disabled_reason reason) True now) (rp_health r));
                (snapshot, circuit) = record_circuit_failure (ck_instant now) ccfg cid reason
                  (success_count e > 0)
                  (local_dispatchable_credential_count (ck_instant now) proxies (accounts w))
                  (rp_circuit r);
                r = clear_disabled_credential_request_state F cid
                  (r\<lparr>rp_health := w, rp_circuit := circuit\<rparr>)
            in (risk_outcome_of result snapshot, r\<lparr>rp_health := persist_disabled_state_deferred
                  store op cid (runtime_generation e) (risk_disabled_reason reason)
                  (Some MAX_FAILURES_PER_CREDENTIAL) None (ck_rfc3339 now) (rp_health r)\<rparr>))"

subsection \<open>Healing\<close>

record auto_heal_limits =
  min_interval :: duration
  max_consecutive_rounds :: u32

definition is_auto_heal_candidate :: "'f credential_entry \<Rightarrow> auto_heal_limits \<Rightarrow> instant \<Rightarrow> bool" where
  "is_auto_heal_candidate e limits now \<longleftrightarrow>
     disabled e \<and> disabled_reason e = Some TooManyFailures \<and> \<not> runtime_persistence_degraded e \<and>
     (max_consecutive_rounds limits = 0 \<or>
      auto_heal_consecutive_rounds e < max_consecutive_rounds limits) \<and>
     (min_interval limits = 0 \<or>
      (case last_auto_heal_at e of None \<Rightarrow> True
       | Some at_last \<Rightarrow> min_interval limits \<le> saturating_duration_since now at_last))"

definition auto_heal_candidate_ids ::
    "auto_heal_limits \<Rightarrow> instant \<Rightarrow> 'f credential_entry list \<Rightarrow> u64 list option" where
  "auto_heal_candidate_ids limits now entries =
     (let ids = map entry_id (filter (\<lambda>e. is_auto_heal_candidate e limits now) entries)
      in if ids = [] then None else Some ids)"

definition healed_entry ::
    "instant \<Rightarrow> runtime_state_row option \<Rightarrow> 'f credential_entry \<Rightarrow> bool \<times> 'f credential_entry" where
  "healed_entry now persisted e =
     (if disabled_reason e \<noteq> Some TooManyFailures then (False, e)
      else if (case persisted of None \<Rightarrow> False | Some state \<Rightarrow> row_revision state \<le> runtime_revision e)
      then (False, e)
      else
        let e' = (case persisted of
              Some state \<Rightarrow> snd (apply_runtime_state_if_newer (set_cred_disabled False e) state)
            | None \<Rightarrow> (set_cred_disabled False e)\<lparr>failure_count := 0, disabled := False,
                disabled_reason := None\<rparr>)
        in if disabled e' then (False, e')
           else (True, e'\<lparr>last_auto_heal_at := Some now,
             auto_heal_consecutive_rounds := sat_add (auto_heal_consecutive_rounds e') 1\<rparr>))"

definition apply_auto_heal_result ::
    "instant \<Rightarrow> u64 \<Rightarrow> runtime_state_row option \<Rightarrow> 'f health_state \<Rightarrow> bool \<times> 'f health_state" where
  "apply_auto_heal_result now cid persisted w = (case find (has_id cid) (accounts w) of
       None \<Rightarrow> (False, w)
     | Some e \<Rightarrow> (fst (healed_entry now persisted e),
         update_account cid (\<lambda>e. snd (healed_entry now persisted e)) w))"

fun heal_accounts ::
    "bool \<Rightarrow> instant \<Rightarrow> u64 list \<Rightarrow> link list \<Rightarrow> 'f health_state \<times> runtime_db \<Rightarrow>
     u64 list \<times> 'f health_state \<times> runtime_db" where
  "heal_accounts store now [] ls (w, db) = ([], w, db)"
| "heal_accounts store now (cid # ids) ls (w, db) =
     (if \<not> store
      then let (ok, w') = apply_auto_heal_result now cid None w;
               (healed, rest) = heal_accounts store now ids (tl ls) (w', db)
           in (if ok then cid # healed else healed, rest)
      else case (if ls = [] then Refuses else hd ls) of
          Refuses \<Rightarrow> heal_accounts store now ids (tl ls) (w, db)
        | Answers_late \<Rightarrow> heal_accounts store now ids (tl ls)
            (w, database_after db (heal_credential_api_failures cid db))
        | Answers \<Rightarrow> (case heal_credential_api_failures cid db of
              Inr (Some state, db') \<Rightarrow>
                let (ok, w') = apply_auto_heal_result now cid (Some state) w;
                    (healed, rest) = heal_accounts store now ids (tl ls) (w', db')
                in (if ok then cid # healed else healed, rest)
            | _ \<Rightarrow> heal_accounts store now ids (tl ls) (w, db)))"

definition auto_heal ::
    "auto_heal_limits \<Rightarrow> bool \<Rightarrow> instant \<Rightarrow> link list \<Rightarrow> 'f health_state \<times> runtime_db \<Rightarrow>
     bool \<times> 'f health_state \<times> runtime_db" where
  "auto_heal limits store now ls s =
     (case auto_heal_candidate_ids limits now (accounts (fst s)) of
        None \<Rightarrow> (False, s)
      | Some ids \<Rightarrow> let (healed, s') = heal_accounts store now ids ls s in (healed \<noteq> [], s'))"

end
