(* ===== verification/Health_Consistency.thy ===== *)
theory Health_Consistency
  imports Account_Reports
begin

text \<open>
  The local view of an account's health against the database's row, over every sequence of
  reports, attempts of a flush that succeed, fail or succeed unseen, reloads, healing, and
  transactions of other instances: what the flags of an entry say about its queue, and that an
  entry whose queue is empty mirrors the row unless another instance has moved the row on.
  A step is a whole report, a whole attempt of the flush on one account, or a whole reload; what
  happens when a report falls between the locks of an attempt is shown in theory Health_Races.
\<close>

subsection \<open>Accounts by id\<close>

lemma in_find_update:
  assumes "distinct (map entry_id xs)" "e' \<in> set (find_update (has_id cid) f xs)"
  shows "e' \<in> set xs \<and> entry_id e' \<noteq> cid \<or> (\<exists>e\<in>set xs. entry_id e = cid \<and> e' = f e)"
  using assms by (induction xs) (auto simp: rev_image_eqI split: if_splits)

lemma map_id_find_update:
  "(\<And>e. entry_id (f e) = entry_id e) \<Longrightarrow> map entry_id (find_update p f xs) = map entry_id xs"
  by (induction xs) auto

lemma find_update_twice:
  "(\<And>e. entry_id (f e) = entry_id e) \<Longrightarrow>
   find_update (has_id cid) g (find_update (has_id cid) f xs) = find_update (has_id cid) (g \<circ> f) xs"
  by (induction xs) auto

lemma find_has_idD: "find (has_id cid) xs = Some e \<Longrightarrow> e \<in> set xs \<and> entry_id e = cid"
  by (auto simp: find_Some_iff)

lemma unique_id:
  "distinct (map entry_id xs) \<Longrightarrow> find (has_id cid) xs = Some e \<Longrightarrow> e' \<in> set xs \<Longrightarrow>
   entry_id e' = cid \<Longrightarrow> e' = e"
  by (induction xs) (auto simp: rev_image_eqI split: if_splits)

lemma find_update_None: "find p xs = None \<Longrightarrow> find_update p f xs = xs"
  by (induction xs) (auto split: if_splits)

subsection \<open>What a queue says about its entry\<close>

fun expected_of :: "pending_mutation \<Rightarrow> u64 option" where
  "expected_of (Pending_Success _ g _) = Some g"
| "expected_of (Pending_ApiFailure _ g _) = Some g"
| "expected_of (Pending_RefreshFailure _ g _) = Some g"
| "expected_of (Pending_Disable _ g _ _ _ _) = Some g"
| "expected_of (Pending_Patch _ p _) = patch_expected_generation p"

definition ops_of :: "pending_mutation list \<Rightarrow> uuid list" where
  "ops_of ms = map mutation_operation_id ms"

definition flags_ok :: "'f credential_entry \<Rightarrow> pending_mutation list \<Rightarrow> bool" where
  "flags_ok e ms \<longleftrightarrow> (runtime_persistence_degraded e \<longleftrightarrow> ms \<noteq> []) \<and>
     (runtime_persistence_quarantined e \<longleftrightarrow> queue_requires_quarantine ms) \<and>
     (disabled e \<longleftrightarrow> runtime_persistence_quarantined e \<or> disabled_reason e \<noteq> None) \<and>
     (cred_disabled (credentials e) \<longrightarrow> disabled_reason e \<noteq> None)"

definition mirrors :: "'f credential_entry \<Rightarrow> runtime_state_row \<Rightarrow> bool" where
  "mirrors e row \<longleftrightarrow> failure_count e = row_failure_count row \<and>
     refresh_failure_count e = row_refresh_failure_count row \<and>
     warmup_remaining e = row_warmup_remaining row \<and>
     disabled_reason e = persisted_reason row (cred_disabled (credentials e))"

definition synced :: "'f credential_entry \<Rightarrow> pending_mutation list \<Rightarrow> runtime_state_row \<Rightarrow> bool" where
  "synced e ms row \<longleftrightarrow> runtime_revision e < row_revision row \<or>
     runtime_revision e = row_revision row \<and> runtime_generation e = row_generation row \<and>
     (mirrors e row \<or> (\<exists>m\<in>set ms. expected_of m = Some (runtime_generation e)))"

definition view_ok ::
    "'f credential_entry \<Rightarrow> pending_mutation list \<Rightarrow> runtime_state_row \<Rightarrow> uuid set \<Rightarrow> bool" where
  "view_ok e ms row ledger \<longleftrightarrow> runtime_generation e \<le> row_generation row \<and> synced e ms row \<and>
     distinct (ops_of ms) \<and> set (tl (ops_of ms)) \<inter> ledger = {} \<and>
     (ms \<noteq> [] \<longrightarrow> hd (ops_of ms) \<in> ledger \<longrightarrow> runtime_revision e < row_revision row)"

lemma ops_of_simps [simp]: "ops_of [] = []" "ops_of (m # ms) = mutation_operation_id m # ops_of ms"
  "ops_of (ms @ ns) = ops_of ms @ ops_of ns" "set (ops_of ms) = mutation_operation_id ` set ms"
  "ops_of ms = [] \<longleftrightarrow> ms = []"
  by (simp_all add: ops_of_def)

lemma view_ok_later:
  assumes "view_ok e ms row ledger" "row' = row \<or> row_advances row row'"
    and "set (ops_of ms) \<inter> (ledger' - ledger) = {}"
  shows "view_ok e ms row' ledger'"
proof -
  have "set (tl (ops_of ms)) \<subseteq> set (ops_of ms)" by (cases ms) auto
  then have "set (tl (ops_of ms)) \<inter> ledger' = {}"
    using assms(1,3) by (auto simp: view_ok_def)
  moreover have "hd (ops_of ms) \<in> ledger" if "ms \<noteq> []" "hd (ops_of ms) \<in> ledger'"
    using that assms(3) by (cases ms) auto
  ultimately show ?thesis
    using assms(1,2) by (auto simp: view_ok_def synced_def row_advances_def)
qed

lemma view_ok_late_answer:
  assumes "view_ok e (m # ms) row ledger" "row_advances row row'"
  shows "view_ok e (m # ms) row' (insert (mutation_operation_id m) ledger)"
  using assms by (auto simp: view_ok_def synced_def row_advances_def)

subsection \<open>The answer of the database\<close>

lemma patch_prepared:
  assumes "patch_credential_runtime_state_with_kind ts cid op k p db = Inr (x, db')"
  shows "tx_bind (prepare_credential_runtime_mutation cid op k (patch_expected_generation p))
      (\<lambda>prep. finish_prepared prep (write_patch ts cid p)) db = Inr (x, db')"
  using assms
  by (auto simp: patch_credential_runtime_state_with_kind_def patch_credential_runtime_state_in_tx_def
      tx_value_eq_Inr tx_check_eq_Inr tx_bind_eq_Inr [of "tx_check v" for v]
      tx_bind_eq_Inr [of "tx_value v" for v])

lemma patch_next_columns:
  assumes "patch_credential_runtime_state_with_kind ts cid op k p db = Inr (x, db')"
  shows "patch_columns p c = Some c' \<Longrightarrow> next_columns c c'"
  using assms
  by (auto simp: patch_credential_runtime_state_with_kind_def patch_credential_runtime_state_in_tx_def
      tx_value_eq_Inr tx_check_eq_Inr tx_bind_eq_Inr [of "tx_check v" for v]
      tx_bind_eq_Inr [of "tx_value v" for v] intro: next_columns_statements(5))

lemma patch_answers:
  assumes "patch_credential_runtime_state_with_kind ts cid op k p db = Inr (x, db')" "rows_ok db"
  shows "answers_to cid op (patch_expected_generation p) db (result_state x) (result_applied x) db'"
  by (rule finish_prepared_answers [OF patch_prepared [OF assms(1)] write_patch_writes
        patch_next_columns [OF assms(1)] assms(2)])

lemma persist_answers:
  assumes "persist_pending_runtime_mutation ts cid m db = Inr (p, db')" "rows_ok db"
  shows "answers_to cid (mutation_operation_id m) (expected_of m) db (persisted_state p)
      (persisted_applied p) db' \<and> steps_at cid db db'"
proof -
  have "\<exists>r. p = result_of_mutation r \<and>
      answers_to cid (mutation_operation_id m) (expected_of m) db (result_state r) (result_applied r) db' \<and>
      steps_at cid db db'"
  proof (cases m)
    case (Pending_Success op g n)
    then show ?thesis
      using assms finish_prepared_answers [OF _ write_success_writes next_columns_statements(1)]
        mutation_steps(1)
      by (fastforce simp: tx_bind_eq_Inr [where k = "\<lambda>r. tx_return (result_of_mutation r)"]
          record_credential_success_with_expected_generation_def)
  next
    case (Pending_ApiFailure op g t)
    then show ?thesis
      using assms finish_prepared_answers [OF _ write_failure_writes next_columns_statements(2)]
        mutation_steps(2)
      by (fastforce simp: tx_bind_eq_Inr [where k = "\<lambda>r. tx_return (result_of_mutation r)"]
          record_credential_api_failure_with_expected_generation_def)
  next
    case (Pending_RefreshFailure op g t)
    then show ?thesis
      using assms finish_prepared_answers [OF _ write_failure_writes next_columns_statements(3)]
        mutation_steps(3)
      by (fastforce simp: tx_bind_eq_Inr [where k = "\<lambda>r. tx_return (result_of_mutation r)"]
          record_credential_refresh_failure_with_expected_generation_def)
  next
    case (Pending_Disable op g reason n k t)
    then show ?thesis
      using assms patch_answers [where p = "disable_patch (Some g) reason n k t"] mutation_steps(4)
      by (fastforce simp: tx_bind_eq_Inr mark_credential_disabled_with_expected_generation_def
          disable_patch_def)
  next
    case (Pending_Patch op q neutral)
    then show ?thesis
      using assms patch_answers [where p = q] mutation_steps(4) by (fastforce simp: tx_bind_eq_Inr)
  qed
  then show ?thesis by (auto simp: result_of_mutation_def)
qed

subsection \<open>Entries and their updates\<close>

definition same_view :: "'f credential_entry \<Rightarrow> 'f credential_entry \<Rightarrow> bool" where
  "same_view e e' \<longleftrightarrow> entry_id e' = entry_id e \<and> credentials e' = credentials e \<and>
     runtime_persistence_degraded e' = runtime_persistence_degraded e \<and>
     runtime_persistence_quarantined e' = runtime_persistence_quarantined e \<and>
     runtime_revision e' = runtime_revision e \<and> runtime_generation e' = runtime_generation e \<and>
     disabled e' = disabled e \<and> disabled_reason e' = disabled_reason e \<and>
     failure_count e' = failure_count e \<and> refresh_failure_count e' = refresh_failure_count e \<and>
     warmup_remaining e' = warmup_remaining e"

definition touched :: "'f credential_entry \<Rightarrow> 'f credential_entry \<Rightarrow> bool" where
  "touched e e' \<longleftrightarrow> entry_id e' = entry_id e \<and>
     runtime_revision e' = runtime_revision e \<and> runtime_generation e' = runtime_generation e"

lemma same_view_ok:
  assumes "same_view e e'"
  shows "flags_ok e' ms \<longleftrightarrow> flags_ok e ms" "view_ok e' ms row ledger \<longleftrightarrow> view_ok e ms row ledger"
  using assms by (auto simp: same_view_def flags_ok_def view_ok_def synced_def mirrors_def)

lemma recompute_fields [simp]:
  "entry_id (recompute_entry_disabled e) = entry_id e"
  "credentials (recompute_entry_disabled e) = credentials e"
  "runtime_persistence_degraded (recompute_entry_disabled e) = runtime_persistence_degraded e"
  "runtime_persistence_quarantined (recompute_entry_disabled e) = runtime_persistence_quarantined e"
  "runtime_revision (recompute_entry_disabled e) = runtime_revision e"
  "runtime_generation (recompute_entry_disabled e) = runtime_generation e"
  by (simp_all add: recompute_entry_disabled_def Let_def)

lemma recompute_flags:
  "flags_ok (recompute_entry_disabled e) ms \<longleftrightarrow>
     (runtime_persistence_degraded e \<longleftrightarrow> ms \<noteq> []) \<and>
     (runtime_persistence_quarantined e \<longleftrightarrow> queue_requires_quarantine ms)"
  by (auto simp: flags_ok_def recompute_entry_disabled_def Let_def)

lemma mirrors_flags [simp]:
  "mirrors (e\<lparr>runtime_persistence_degraded := b, runtime_persistence_quarantined := q\<rparr>) row \<longleftrightarrow>
     mirrors e row"
  by (simp add: mirrors_def)

lemma recompute_mirrors: "mirrors e row \<Longrightarrow> mirrors (recompute_entry_disabled e) row"
  by (auto simp: mirrors_def recompute_entry_disabled_def Let_def persisted_reason_def
      split: option.splits)

lemma newer_mirrors:
  assumes "runtime_revision e < row_revision row"
  shows "mirrors (snd (apply_runtime_state_if_newer e row)) row"
    "runtime_revision (snd (apply_runtime_state_if_newer e row)) = row_revision row"
    "runtime_generation (snd (apply_runtime_state_if_newer e row)) = row_generation row"
  using assms by (auto simp: apply_runtime_state_if_newer_def mirrors_def Let_def)

lemma newer_fields [simp]:
  "entry_id (snd (apply_runtime_state_if_newer e row)) = entry_id e"
  "credentials (snd (apply_runtime_state_if_newer e row)) = credentials e"
  "runtime_persistence_degraded (snd (apply_runtime_state_if_newer e row)) = runtime_persistence_degraded e"
  "runtime_persistence_quarantined (snd (apply_runtime_state_if_newer e row)) =
     runtime_persistence_quarantined e"
  by (simp_all add: apply_runtime_state_if_newer_def Let_def)

lemma newer_flags: "flags_ok e ms \<Longrightarrow> flags_ok (snd (apply_runtime_state_if_newer e row)) ms"
  by (auto simp: apply_runtime_state_if_newer_def Let_def flags_ok_def persisted_reason_def
      split: option.splits)

lemma set_cred_disabled_fields [simp]:
  "entry_id (set_cred_disabled v e) = entry_id e"
  "runtime_revision (set_cred_disabled v e) = runtime_revision e"
  "runtime_generation (set_cred_disabled v e) = runtime_generation e"
  "runtime_persistence_degraded (set_cred_disabled v e) = runtime_persistence_degraded e"
  "runtime_persistence_quarantined (set_cred_disabled v e) = runtime_persistence_quarantined e"
  by (simp_all add: set_cred_disabled_def)

lemma authoritative_fields [simp]:
  "entry_id (apply_authoritative_runtime_state_to_entry e row flag) = entry_id e"
  "runtime_persistence_degraded (apply_authoritative_runtime_state_to_entry e row flag) =
     runtime_persistence_degraded e"
  "runtime_persistence_quarantined (apply_authoritative_runtime_state_to_entry e row flag) =
     runtime_persistence_quarantined e"
  by (simp_all add: apply_authoritative_runtime_state_to_entry_def Let_def split: option.splits)

lemma flush_settle_fields [simp]:
  "entry_id (flush_settle_entry b q p e) = entry_id e"
  by (simp add: flush_settle_entry_def apply_persisted_runtime_mutation_to_entry_def)

lemma flush_settle_flags:
  "flags_ok (flush_settle_entry (ms = []) (queue_requires_quarantine ms) p e) ms"
  by (simp add: flush_settle_entry_def recompute_flags apply_persisted_runtime_mutation_to_entry_def)

lemma flush_settle_syncs:
  assumes "runtime_generation e \<le> row_generation (persisted_state p)"
    and "runtime_revision e < row_revision (persisted_state p)"
  shows "mirrors (flush_settle_entry b q p e) (persisted_state p) \<and>
    runtime_revision (flush_settle_entry b q p e) = row_revision (persisted_state p) \<and>
    runtime_generation (flush_settle_entry b q p e) = row_generation (persisted_state p)"
proof -
  let ?e = "e\<lparr>runtime_persistence_degraded := \<not> b, runtime_persistence_quarantined := q\<rparr>"
  obtain e' where e': "runtime_revision e' = runtime_revision e"
    and eq: "apply_persisted_runtime_mutation_to_entry ?e p =
      snd (apply_runtime_state_if_newer e' (persisted_state p))"
  proof
    show "apply_persisted_runtime_mutation_to_entry ?e p = snd (apply_runtime_state_if_newer
        (case if persisted_applied p then persisted_credential_disabled p else None of
           None \<Rightarrow> ?e | Some v \<Rightarrow> set_cred_disabled v ?e) (persisted_state p))"
      using assms by (simp add: apply_persisted_runtime_mutation_to_entry_def
          apply_authoritative_runtime_state_to_entry_def Let_def)
  qed (simp split: option.splits)
  have new: "runtime_revision e' < row_revision (persisted_state p)" using assms(2) e' by simp
  show ?thesis
    using newer_mirrors [OF new] recompute_mirrors by (simp add: flush_settle_entry_def eq)
qed

lemma flush_settle_stale:
  assumes "runtime_generation e = row_generation (persisted_state p)"
    and "runtime_revision e = row_revision (persisted_state p)" "\<not> persisted_applied p"
  shows "flush_settle_entry b q p e = recompute_entry_disabled (recompute_entry_disabled
      (e\<lparr>runtime_persistence_degraded := \<not> b, runtime_persistence_quarantined := q\<rparr>))"
  using assms by (simp add: flush_settle_entry_def apply_persisted_runtime_mutation_to_entry_def
      apply_authoritative_runtime_state_to_entry_def Let_def)

lemma flush_settle_view:
  assumes view: "view_ok e (m # ms) row ledger"
    and ans: "answers_to cid (mutation_operation_id m) (expected_of m) db (persisted_state p)
      (persisted_applied p) db'"
    and row: "row = row_of db cid" "ledger = dom (mutation_rows db)"
  shows "view_ok (flush_settle_entry b q p e) ms (row_of db' cid) (dom (mutation_rows db'))"
proof -
  have led: "dom (mutation_rows db') \<subseteq> insert (mutation_operation_id m) ledger"
    using ans unfolding answers_to_def unchanged_answer_def row(2) by blast
  have "set (ops_of ms) \<inter> insert (mutation_operation_id m) ledger = {}"
    and ops: "distinct (ops_of ms)"
    using view by (simp_all add: view_ok_def)
  with led have free: "set (ops_of ms) \<inter> dom (mutation_rows db') = {}" by blast
  have state: "persisted_state p = row_of db' cid"
    using ans by (auto simp: answers_to_def unchanged_answer_def)
  have gen: "runtime_generation e \<le> row_generation (persisted_state p)"
    using view ans row
    by (auto simp: view_ok_def answers_to_def unchanged_answer_def row_advances_def)
  have "synced (flush_settle_entry b q p e) ms (row_of db' cid) \<and>
      runtime_generation (flush_settle_entry b q p e) \<le> row_generation (row_of db' cid)"
  proof (cases "runtime_revision e < row_revision (persisted_state p)")
    case True
    then show ?thesis using flush_settle_syncs [OF gen True, of b q] state by (simp add: synced_def)
  next
    case False
    then have rev: "runtime_revision e = row_revision row" "runtime_generation e = row_generation row"
      and mir: "mirrors e row \<or> (\<exists>m'\<in>set (m # ms). expected_of m' = Some (runtime_generation e))"
      and stale: "\<not> persisted_applied p" "persisted_state p = row" "row_of db' cid = row"
        "expected_of m \<noteq> Some (runtime_generation e)"
      using view ans row
      by (auto simp: view_ok_def synced_def answers_to_def unchanged_answer_def row_advances_def)
    have "mirrors e row \<Longrightarrow> mirrors (flush_settle_entry b q p e) row"
      using flush_settle_stale [of e p b q] rev stale(1,2)
      by (simp add: recompute_mirrors)
    then show ?thesis
      using rev mir stale flush_settle_stale [of e p b q] by (auto simp: synced_def)
  qed
  then show ?thesis
    using ops free by (cases ms) (auto simp: view_ok_def)
qed

subsection \<open>The invariant\<close>

definition queues_apart :: "(u64 \<Rightarrow> pending_mutation list) \<Rightarrow> bool" where
  "queues_apart q \<longleftrightarrow> (\<forall>c c' op. op \<in> set (ops_of (q c)) \<longrightarrow> op \<in> set (ops_of (q c')) \<longrightarrow> c = c')"

definition account_ok :: "runtime_db \<Rightarrow> (u64 \<Rightarrow> pending_mutation list) \<Rightarrow> 'f credential_entry \<Rightarrow> bool" where
  "account_ok db q e \<longleftrightarrow> flags_ok e (q (entry_id e)) \<and>
     view_ok e (q (entry_id e)) (row_of db (entry_id e)) (dom (mutation_rows db))"

definition health_inv :: "'f health_state \<Rightarrow> runtime_db \<Rightarrow> bool" where
  "health_inv w db \<longleftrightarrow> distinct (map entry_id (accounts w)) \<and> rows_ok db \<and>
     queues_apart (queue_of (pending_mutations w)) \<and>
     (\<forall>e\<in>set (accounts w). account_ok db (queue_of (pending_mutations w)) e)"

definition fresh_operation :: "uuid \<Rightarrow> 'f health_state \<Rightarrow> runtime_db \<Rightarrow> bool" where
  "fresh_operation op w db \<longleftrightarrow> op \<notin> dom (mutation_rows db) \<and>
     list_all (\<lambda>(_, ms). op \<notin> set (ops_of ms)) (pending_mutations w)"

lemma queue_of_changes [simp]:
  "queue_of (AList.update cid ms q) = (queue_of q)(cid := ms)"
  "queue_of (AList.delete cid q) = (queue_of q)(cid := [])"
  by (auto simp: queue_of_def fun_eq_iff update_conv' delete_conv')

lemma health_inv_cong:
  assumes "health_inv w db" "accounts w' = accounts w" "pending_mutations w' = pending_mutations w"
  shows "health_inv w' db"
  using assms by (simp add: health_inv_def)

lemma health_inv_quiet:
  assumes inv: "health_inv w db"
    and acc: "accounts w' = find_update (has_id cid) f (accounts w)"
      "pending_mutations w' = pending_mutations w"
    and f: "\<And>e. entry_id (f e) = entry_id e"
      "\<And>e. e \<in> set (accounts w) \<Longrightarrow> entry_id e = cid \<Longrightarrow> same_view e (f e)"
  shows "health_inv w' db"
proof -
  have "account_ok db (queue_of (pending_mutations w)) e'" if "e' \<in> set (accounts w')" for e'
    using in_find_update [of "accounts w" e' cid f] that inv acc(1) f same_view_ok
    by (fastforce simp: health_inv_def account_ok_def)
  then show ?thesis
    using inv acc map_id_find_update [of f] f(1) by (simp add: health_inv_def)
qed

lemma coalesce_SomeD:
  assumes "coalesce_into_previous m m0 = Some m1"
  shows "mutation_operation_id m1 = mutation_operation_id m0 \<and> expected_of m1 = expected_of m \<and>
    \<not> requires_dispatch_quarantine m \<and> \<not> requires_dispatch_quarantine m1 \<and>
    \<not> requires_dispatch_quarantine m0"
  using assms by (cases "(m, m0)" rule: coalesce_into_previous.cases) (auto split: if_splits)

lemma push_mutation_spec:
  assumes "push_mutation m ms = (b, ms')"
  shows "(ops_of ms' = ops_of ms \<and> ms \<noteq> [] \<or> ops_of ms' = ops_of ms @ [mutation_operation_id m]) \<and> ms' \<noteq> [] \<and>
    (\<exists>m'\<in>set ms'. expected_of m' = expected_of m) \<and>
    (queue_requires_quarantine ms' \<longleftrightarrow> requires_dispatch_quarantine m \<or> queue_requires_quarantine ms)"
proof (cases ms rule: rev_exhaust)
  case Nil
  then show ?thesis using assms by (auto simp: push_mutation_def queue_requires_quarantine_def)
next
  case (snoc ns n)
  show ?thesis
  proof (cases "coalesce_into_previous m n")
    case None
    then have "ms' = ms @ [m]" using assms snoc by (simp add: push_mutation_def)
    then show ?thesis by (auto simp: queue_requires_quarantine_def)
  next
    case (Some m1)
    then have "ms' = ns @ [m1]" using assms snoc by (simp add: push_mutation_def)
    then show ?thesis
      using coalesce_SomeD [OF Some] snoc by (auto simp: queue_requires_quarantine_def)
  qed
qed

lemma view_ok_push:
  assumes "view_ok e ms row ledger"
    and "ops_of ms' = ops_of ms \<and> ms \<noteq> [] \<or> ops_of ms' = ops_of ms @ [op]"
    and "op \<notin> set (ops_of ms)" "op \<notin> ledger"
    and "runtime_revision e' = runtime_revision e" "runtime_generation e' = runtime_generation e"
    and "\<exists>m\<in>set ms'. expected_of m = Some (runtime_generation e)"
  shows "view_ok e' ms' row ledger"
proof -
  have "synced e' ms' row" using assms(1,5-7) by (auto simp: view_ok_def synced_def)
  moreover have "distinct (ops_of ms')" "set (tl (ops_of ms')) \<inter> ledger = {}"
    using assms(1-4) by (cases ms; auto simp: view_ok_def simp del: ops_of_simps(4))+
  moreover have "runtime_revision e < row_revision row" if "hd (ops_of ms') \<in> ledger"
    using assms(1-4) that by (cases ms) (auto simp: view_ok_def simp del: ops_of_simps(4))
  ultimately show ?thesis using assms(1,5,6) by (simp add: view_ok_def)
qed

lemma queued_fresh: "fresh_operation op w db \<Longrightarrow> op \<notin> set (ops_of (queue_of (pending_mutations w) c))"
  by (cases "map_of (pending_mutations w) c")
     (fastforce simp: fresh_operation_def queue_of_def list_all_iff dest: map_of_SomeD)+

lemma enqueue_fresh:
  assumes "find (has_id cid) (accounts w) = Some e0" "fresh_operation (mutation_operation_id m) w db"
    and "push_mutation m (queue_of (pending_mutations w) cid) = (b, ms')"
  shows "\<exists>w'. snd (enqueue_pending_runtime_mutation cid m w) = w' \<and>
    pending_mutations w' = AList.update cid ms' (pending_mutations w) \<and>
    accounts w' = find_update (has_id cid) (\<lambda>e. recompute_entry_disabled
      (e\<lparr>runtime_persistence_degraded := True,
         runtime_persistence_quarantined := queue_requires_quarantine ms'\<rparr>)) (accounts w)"
proof -
  have "\<not> list_ex (\<lambda>(_, ms). list_ex (\<lambda>m'. mutation_operation_id m' = mutation_operation_id m) ms)
      (pending_mutations w)"
    using assms(2) by (fastforce simp: fresh_operation_def list_all_iff list_ex_iff image_iff)
  then show ?thesis
    using assms(1,3) push_mutation_spec [OF assms(3)]
    by (simp add: enqueue_pending_runtime_mutation_def Let_def)
qed

lemma health_inv_report:
  assumes inv: "health_inv w db"
    and acc: "accounts w1 = find_update (has_id cid) f (accounts w)"
      "pending_mutations w1 = pending_mutations w"
    and e0: "find (has_id cid) (accounts w) = Some e0"
    and f: "\<And>e. touched e (f e)"
    and m: "expected_of m = Some (runtime_generation e0)" "fresh_operation (mutation_operation_id m) w db"
  shows "health_inv (snd (enqueue_pending_runtime_mutation cid m w1)) db"
proof -
  let ?q = "queue_of (pending_mutations w)" and ?op = "mutation_operation_id m"
  obtain b ms' where push: "push_mutation m (?q cid) = (b, ms')" by (cases "push_mutation m (?q cid)")
  note spec = push_mutation_spec [OF push]
  define g where "g = (\<lambda>e :: 'a credential_entry. recompute_entry_disabled (e\<lparr>runtime_persistence_degraded := True,
     runtime_persistence_quarantined := queue_requires_quarantine ms'\<rparr>))"
  have fresh: "fresh_operation ?op w1 db" using m(2) acc(2) by (simp add: fresh_operation_def)
  have "find (has_id cid) (accounts w1) = Some (f e0)"
    using find_Some_iff_find_update [OF e0, of f] f [of e0] find_has_idD [OF e0] acc(1)
    by (simp add: touched_def)
  from enqueue_fresh [OF this fresh] push acc obtain w' where
    w': "snd (enqueue_pending_runtime_mutation cid m w1) = w'"
    "pending_mutations w' = AList.update cid ms' (pending_mutations w)"
    "accounts w' = find_update (has_id cid) (g \<circ> f) (accounts w)"
    unfolding g_def using f by (auto simp: find_update_twice touched_def)
  have q': "queue_of (pending_mutations w') = ?q(cid := ms')" using w'(2) by simp
  have ids: "entry_id ((g \<circ> f) e) = entry_id e" for e using f by (simp add: g_def touched_def)
  have free: "?op \<notin> set (ops_of (?q c))" "?op \<notin> dom (mutation_rows db)" for c
    using queued_fresh [OF m(2)] m(2) by (auto simp: fresh_operation_def)
  have "queues_apart (?q(cid := ms'))"
    using inv spec free(1) unfolding health_inv_def queues_apart_def
    by (auto simp del: ops_of_simps(4))
  moreover have "account_ok db (?q(cid := ms')) e'" if mem: "e' \<in> set (accounts w')" for e'
  proof -
    consider "e' \<in> set (accounts w)" "entry_id e' \<noteq> cid"
      | "e' = g (f e0)"
      using in_find_update [of "accounts w" e' cid "g \<circ> f"] mem inv w'(3)
        unique_id [OF _ e0] by (auto simp: health_inv_def)
    then show ?thesis
    proof cases
      case 1
      then show ?thesis using inv by (simp add: health_inv_def account_ok_def)
    next
      case 2
      have id: "entry_id e0 = cid" "entry_id e' = cid"
        using find_has_idD [OF e0] f [of e0] 2 by (auto simp: g_def touched_def)
      have v: "view_ok e0 (?q cid) (row_of db cid) (dom (mutation_rows db))"
        using inv find_has_idD [OF e0] by (auto simp: health_inv_def account_ok_def)
      have "flags_ok e' ms'" using 2 spec by (simp add: g_def recompute_flags)
      moreover have "runtime_revision e' = runtime_revision e0"
        "runtime_generation e' = runtime_generation e0"
        using 2 f [of e0] by (simp_all add: g_def touched_def)
      then have "view_ok e' ms' (row_of db cid) (dom (mutation_rows db))"
        using view_ok_push [OF v, of ms' ?op e'] spec free m(1) by simp
      ultimately show ?thesis using id by (simp add: account_ok_def)
    qed
  qed
  ultimately show ?thesis
    using inv w' q' map_id_find_update [of "g \<circ> f"] ids by (simp add: health_inv_def)
qed

lemma health_inv_later:
  assumes inv: "health_inv w db" and steps: "steps_at cid db db'"
    and ops: "\<And>c. set (ops_of (queue_of (pending_mutations w) c)) \<inter>
      (dom (mutation_rows db') - dom (mutation_rows db)) = {}"
  shows "health_inv w db'"
proof -
  have ok: "rows_ok db" using inv by (simp add: health_inv_def)
  have "row_of db' c = row_of db c \<or> row_advances (row_of db c) (row_of db' c)" for c
    using steps_at_rows [OF steps ok] by (cases "c = cid") auto
  then have "account_ok db' (queue_of (pending_mutations w)) e"
    if "account_ok db (queue_of (pending_mutations w)) e" for e :: "'a credential_entry"
    using that view_ok_later [OF _ _ ops] unfolding account_ok_def by blast
  then show ?thesis
    using inv steps_at_rows [OF steps ok] by (simp add: health_inv_def)
qed

lemma persist_ledger:
  assumes "answers_to cid op g db state applied db'"
  shows "dom (mutation_rows db') - dom (mutation_rows db) \<subseteq> {op} \<and>
    (dom (mutation_rows db') = dom (mutation_rows db) \<or>
     dom (mutation_rows db') = insert op (dom (mutation_rows db)) \<and>
     row_advances (row_of db cid) (row_of db' cid))"
  using assms unfolding answers_to_def unchanged_answer_def by blast

lemma health_inv_late_answer:
  assumes inv: "health_inv w db" and head: "queue_of (pending_mutations w) cid = m # ms"
    and run: "persist_pending_runtime_mutation ts cid m db = Inr (p, db')"
  shows "health_inv w db'"
proof (cases "dom (mutation_rows db') = dom (mutation_rows db)")
  case True
  have "rows_ok db" using inv by (simp add: health_inv_def)
  with True show ?thesis
    using persist_answers [OF run] by (intro health_inv_later [OF inv]) auto
next
  case False
  let ?q = "queue_of (pending_mutations w)" and ?op = "mutation_operation_id m"
  have ok: "rows_ok db" using inv by (simp add: health_inv_def)
  have led: "dom (mutation_rows db') = insert ?op (dom (mutation_rows db))"
    and adv: "row_advances (row_of db cid) (row_of db' cid)"
    using False persist_ledger persist_answers [OF run ok] by blast+
  have rows: "rows_ok db'" "\<And>c. c \<noteq> cid \<Longrightarrow> row_of db' c = row_of db c"
    using steps_at_rows [OF _ ok] persist_answers [OF run ok] by blast+
  have "account_ok db' ?q e" if "account_ok db ?q e" for e :: "'a credential_entry"
  proof (cases "entry_id e = cid")
    case True
    then show ?thesis
      using that head led adv view_ok_late_answer by (auto simp: account_ok_def)
  next
    case False
    then have "?op \<notin> set (ops_of (?q (entry_id e)))"
      using inv head unfolding health_inv_def queues_apart_def
      by (metis list.set_intros(1) ops_of_simps(2))
    then have "set (ops_of (?q (entry_id e))) \<inter> (dom (mutation_rows db') - dom (mutation_rows db)) = {}"
      unfolding led by (auto simp del: ops_of_simps(4))
    with that False rows(2) led show ?thesis
      using view_ok_later [of e "?q (entry_id e)" "row_of db (entry_id e)" "dom (mutation_rows db)"
          "row_of db' (entry_id e)" "dom (mutation_rows db')"]
      by (simp add: account_ok_def)
  qed
  then show ?thesis using inv rows(1) by (auto simp: health_inv_def)
qed

lemma flush_pop_head:
  assumes "queue_of q cid = m # ms"
  shows "\<exists>q'. flush_pop cid (mutation_operation_id m) q = ((ms = [], queue_requires_quarantine ms), q') \<and>
    queue_of q' = (queue_of q)(cid := ms)"
  using assms by (auto simp: flush_pop_def queue_of_def [of q] Let_def split: option.splits)

lemma health_inv_answer:
  assumes inv: "health_inv w db" and head: "queue_of (pending_mutations w) cid = m # ms"
    and run: "persist_pending_runtime_mutation ts cid m db = Inr (p, db')"
  shows "health_inv (snd (flush_finish cid (mutation_operation_id m) p w)) db'"
proof -
  let ?q = "queue_of (pending_mutations w)"
  let ?f = "flush_settle_entry (ms = []) (queue_requires_quarantine ms) p"
  obtain q' where pop: "flush_pop cid (mutation_operation_id m) (pending_mutations w) =
      ((ms = [], queue_requires_quarantine ms), q')" and q': "queue_of q' = ?q(cid := ms)"
    using flush_pop_head [OF head] by blast
  define w' where "w' = snd (flush_finish cid (mutation_operation_id m) p w)"
  have w': "pending_mutations w' = q'" "accounts w' = find_update (has_id cid) ?f (accounts w)"
    by (simp_all add: w'_def flush_finish_def pop flush_settle_def)
  have ok: "rows_ok db" using inv by (simp add: health_inv_def)
  have late: "health_inv w db'" by (rule health_inv_late_answer [OF inv head run])
  have "account_ok db' (?q(cid := ms)) e'" if mem: "e' \<in> set (accounts w')" for e'
  proof -
    consider "e' \<in> set (accounts w)" "entry_id e' \<noteq> cid"
      | e where "e \<in> set (accounts w)" "entry_id e = cid" "e' = ?f e"
      using in_find_update [of "accounts w" e' cid ?f] mem inv w'(2) by (auto simp: health_inv_def)
    then show ?thesis
    proof cases
      case 1
      then show ?thesis using late by (simp add: health_inv_def account_ok_def)
    next
      case 2
      have "view_ok e (m # ms) (row_of db cid) (dom (mutation_rows db))"
        using inv 2 head by (auto simp: health_inv_def account_ok_def)
      from flush_settle_view [OF this _ refl refl] persist_answers [OF run ok] 2
      show ?thesis using flush_settle_flags by (simp add: account_ok_def)
    qed
  qed
  moreover have "queues_apart (?q(cid := ms))"
    using inv head unfolding health_inv_def queues_apart_def
    by (auto simp del: ops_of_simps(4))
  ultimately show ?thesis
    using late w' q' map_id_find_update [of ?f "has_id cid" "accounts w"] by (simp add: health_inv_def w'_def)
qed

subsection \<open>Every operation keeps it\<close>

lemma flush_account_inv:
  assumes "health_inv (fl_health s) (fl_db s)"
  shows "health_inv (fl_health (flush_account ts l cid s)) (fl_db (flush_account ts l cid s))"
proof -
  define w where "w = (fl_health s)\<lparr>flush_cursor := cid\<rparr>"
  have inv: "health_inv w (fl_db s)" unfolding w_def by (rule health_inv_cong [OF assms]) simp_all
  show ?thesis
  proof (cases "queue_of (pending_mutations w) cid")
    case Nil
    then show ?thesis
      using inv by (simp add: flush_account_def Let_def flush_head_def w_def)
  next
    case (Cons m ms)
    then have head: "flush_head w cid = Some m" by (simp add: flush_head_def)
    have dirty: "health_inv (w\<lparr>stats_dirty := True\<rparr>) db" if "health_inv w db" for db
      by (rule health_inv_cong [OF that]) simp_all
    have late: "health_inv w (database_after (fl_db s) (persist_pending_runtime_mutation ts cid m (fl_db s)))"
      using inv health_inv_late_answer [OF inv Cons] by (auto simp: database_after_def split: sum.splits)
    show ?thesis
    proof (cases "persist_pending_runtime_mutation ts cid m (fl_db s)")
      case (Inl err)
      then show ?thesis
        using head dirty inv late
        by (cases l) (simp_all add: flush_account_def Let_def flush_write_def database_after_def flip: w_def)
    next
      case (Inr r)
      then obtain p db' where r: "persist_pending_runtime_mutation ts cid m (fl_db s) = Inr (p, db')"
        by (cases r) simp
      show ?thesis
        using head dirty inv late r health_inv_answer [OF inv Cons r]
        by (cases l) (simp_all add: flush_account_def Let_def flush_write_def database_after_def
            case_prod_beta flip: w_def)
    qed
  qed
qed

lemma loaded_inv:
  assumes "health_inv w db"
  shows "health_inv (snd (apply_loaded_runtime_states (load_credential_runtime_state db) w)) db"
proof -
  let ?q = "queue_of (pending_mutations w)"
  define f where "f = (\<lambda>e :: 'a credential_entry. snd (loaded_entry (load_credential_runtime_state db) e))"
  have "entry_id (f e) = entry_id e \<and> account_ok db ?q (f e)" if ok: "account_ok db ?q e" for e
  proof (cases "\<not> runtime_persistence_degraded e \<and> runtime_rows db (entry_id e) \<noteq> None \<and>
      runtime_revision e < row_revision (row_of db (entry_id e))")
    case True
    then have row: "load_credential_runtime_state db (entry_id e) = Some (row_of db (entry_id e))"
      by (auto simp: load_credential_runtime_state_def row_of_def columns_of_def)
    have q: "?q (entry_id e) = []" using True ok by (simp add: account_ok_def flags_ok_def)
    have "flags_ok (snd (apply_runtime_state_if_newer e (row_of db (entry_id e)))) []"
      using ok q by (intro newer_flags) (simp add: account_ok_def)
    with q show ?thesis
      using True row newer_mirrors [of e "row_of db (entry_id e)"]
      by (simp add: account_ok_def view_ok_def synced_def f_def loaded_entry_def)
  next
    case False
    have "f e = e"
    proof (cases "runtime_rows db (entry_id e)")
      case (Some c)
      then have "load_credential_runtime_state db (entry_id e) = Some (row_of db (entry_id e))"
        by (simp add: load_credential_runtime_state_def row_of_def columns_of_def)
      then show ?thesis using False Some by (auto simp: f_def loaded_entry_def apply_runtime_state_if_newer_def)
    qed (simp add: f_def loaded_entry_def load_credential_runtime_state_def)
    then show ?thesis using ok by simp
  qed
  moreover have "accounts (snd (apply_loaded_runtime_states (load_credential_runtime_state db) w)) =
      map f (accounts w)"
    and "pending_mutations (snd (apply_loaded_runtime_states (load_credential_runtime_state db) w)) =
      pending_mutations w"
    by (simp_all add: apply_loaded_runtime_states_def f_def)
  ultimately show ?thesis
    using assms by (auto simp: health_inv_def comp_def cong: map_cong)
qed

lemma loaded_entry_mirrors:
  assumes "\<not> runtime_persistence_degraded e"
    and "runtime_revision e < row_revision (row_of db (entry_id e)) \<or> mirrors e (row_of db (entry_id e))"
  shows "mirrors (snd (loaded_entry (load_credential_runtime_state db) e)) (row_of db (entry_id e))"
proof (cases "runtime_rows db (entry_id e)")
  case None
  then have "row_revision (row_of db (entry_id e)) = 0"
    by (simp add: row_of_def columns_of_def default_columns_def runtime_state_from_row_def)
  with None assms show ?thesis
    by (simp add: loaded_entry_def load_credential_runtime_state_def)
next
  case (Some c)
  then have "load_credential_runtime_state db (entry_id e) = Some (row_of db (entry_id e))"
    by (simp add: load_credential_runtime_state_def row_of_def columns_of_def)
  with assms show ?thesis
    using newer_mirrors [of e "row_of db (entry_id e)"]
    by (cases "runtime_revision e < row_revision (row_of db (entry_id e))")
       (auto simp: loaded_entry_def apply_runtime_state_if_newer_def)
qed

lemma heal_answers:
  assumes "heal_credential_api_failures cid db = Inr (Some state, db')"
  shows "state = row_of db' cid"
  using assms
  by (auto simp: heal_credential_api_failures_def tx_inversions lock_active_eq_Inr
      update_runtime_row_eq_Inr persist_flag_eq_Inr row_of_def columns_of_def split: option.splits if_splits)

lemma heal_ledger:
  assumes "heal_credential_api_failures cid db = Inr (x, db')"
  shows "mutation_rows db' = mutation_rows db"
  using assms
  by (auto simp: heal_credential_api_failures_def tx_inversions lock_active_eq_Inr
      update_runtime_row_eq_Inr persist_flag_eq_Inr split: option.splits if_splits)

lemma heal_later:
  assumes "health_inv w db" "heal_credential_api_failures cid db = Inr (x, db')"
  shows "health_inv w db'"
  using health_inv_later [OF assms(1) heal_steps [OF assms(2)]] heal_ledger [OF assms(2)] by simp

lemma healed_entry_fields: "entry_id (snd (healed_entry now v e)) = entry_id e"
  by (simp add: healed_entry_def Let_def split: option.splits)

lemma healed_account_ok:
  assumes ok: "account_ok db q e" and q: "q (entry_id e) = []"
  shows "account_ok db q (snd (healed_entry now (Some (row_of db (entry_id e))) e))"
proof (cases "disabled_reason e = Some TooManyFailures \<and>
    runtime_revision e < row_revision (row_of db (entry_id e))")
  case True
  define e' where "e' = snd (apply_runtime_state_if_newer (set_cred_disabled False e) (row_of db (entry_id e)))"
  have rev: "runtime_revision (set_cred_disabled False e) < row_revision (row_of db (entry_id e))"
    using True by simp
  have "flags_ok (set_cred_disabled False e) []"
    using ok q by (simp add: account_ok_def flags_ok_def set_cred_disabled_def)
  then have fl: "flags_ok e' []" unfolding e'_def by (rule newer_flags)
  have e': "account_ok db q e'"
    using newer_mirrors [OF rev] fl q by (simp add: account_ok_def view_ok_def synced_def e'_def)
  have "same_view e' (snd (healed_entry now (Some (row_of db (entry_id e))) e))"
    using True by (auto simp: healed_entry_def Let_def same_view_def simp flip: e'_def)
  from same_view_ok [OF this] this e' show ?thesis by (simp add: account_ok_def same_view_def)
next
  case False
  then have "snd (healed_entry now (Some (row_of db (entry_id e))) e) = e"
    by (auto simp: healed_entry_def)
  then show ?thesis using ok by simp
qed

lemma apply_auto_heal_inv:
  assumes inv: "health_inv w db" and q: "queue_of (pending_mutations w) cid = []"
  shows "health_inv (snd (apply_auto_heal_result now cid (Some (row_of db cid)) w)) db"
proof (cases "find (has_id cid) (accounts w)")
  case (Some e0)
  let ?f = "\<lambda>e. snd (healed_entry now (Some (row_of db cid)) e)"
  have "account_ok db (queue_of (pending_mutations w)) e'"
    if "e' \<in> set (find_update (has_id cid) ?f (accounts w))" for e'
    using in_find_update [OF _ that] inv q healed_account_ok
    by (fastforce simp: health_inv_def)
  then show ?thesis
    using inv Some map_id_find_update [of ?f "has_id cid" "accounts w"]
    by (simp add: apply_auto_heal_result_def update_account_def health_inv_def healed_entry_fields)
qed (use inv in \<open>simp add: apply_auto_heal_result_def\<close>)

lemma apply_auto_heal_pending [simp]:
  "pending_mutations (snd (apply_auto_heal_result now cid v w)) = pending_mutations w"
  by (simp add: apply_auto_heal_result_def update_account_def split: option.splits)

lemma heal_accounts_inv:
  assumes "health_inv w db" "\<forall>i\<in>set ids. queue_of (pending_mutations w) i = []"
  shows "health_inv (fst (snd (heal_accounts True now ids ls (w, db))))
    (snd (snd (heal_accounts True now ids ls (w, db))))"
  using assms
proof (induction ids arbitrary: ls w db)
  case (Cons cid ids)
  have rest: "health_inv (fst (snd (heal_accounts True now ids ls' (w', db'))))
      (snd (snd (heal_accounts True now ids ls' (w', db'))))"
    if "health_inv w' db'" "pending_mutations w' = pending_mutations w"
    for ls' and w' :: "'a health_state" and db'
    using Cons.IH [OF that(1)] that(2) Cons.prems(2) by simp
  show ?case
  proof (cases "if ls = [] then Refuses else hd ls")
    case Answers_late
    have "health_inv w (database_after db (heal_credential_api_failures cid db))"
      using Cons.prems(1) heal_later by (auto simp: database_after_def split: sum.splits)
    then show ?thesis using Answers_late rest by simp
  next
    case Answers
    show ?thesis
    proof (cases "heal_credential_api_failures cid db")
      case (Inr r)
      then obtain v db1 where run: "heal_credential_api_failures cid db = Inr (v, db1)"
        by (cases r) simp
      show ?thesis
      proof (cases v)
        case None
        then show ?thesis using Answers run rest [OF Cons.prems(1)] by simp
      next
        case (Some state)
        have "health_inv (snd (apply_auto_heal_result now cid (Some state) w)) db1"
          using apply_auto_heal_inv [OF heal_later [OF Cons.prems(1) run]] Cons.prems(2)
            heal_answers [of cid db state db1] run Some by simp
        then show ?thesis using Answers run Some rest by (simp add: case_prod_beta Let_def)
      qed
    qed (use Answers rest [OF Cons.prems(1)] in simp)
  qed (use rest [OF Cons.prems(1)] in simp)
qed simp

lemma auto_heal_inv:
  assumes inv: "health_inv w db"
  shows "health_inv (fst (snd (auto_heal limits True now ls (w, db))))
    (snd (snd (auto_heal limits True now ls (w, db))))"
proof (cases "auto_heal_candidate_ids limits now (accounts w)")
  case (Some ids)
  then have "\<forall>i\<in>set ids. \<exists>e\<in>set (accounts w). entry_id e = i \<and> \<not> runtime_persistence_degraded e"
    by (auto simp: auto_heal_candidate_ids_def Let_def is_auto_heal_candidate_def split: if_splits)
  then have "\<forall>i\<in>set ids. queue_of (pending_mutations w) i = []"
    using inv by (auto simp: health_inv_def account_ok_def flags_ok_def)
  from heal_accounts_inv [OF inv this, of now ls] Some show ?thesis
    by (simp add: auto_heal_def case_prod_beta Let_def)
qed (use inv in \<open>simp add: auto_heal_def\<close>)

subsection \<open>Reports\<close>

lemma success_fields:
  "touched e (entry_after_success F cfg now model latency e)"
  "\<not> runtime_state_changed e \<Longrightarrow> same_view e (entry_after_success F cfg now model latency e)"
  by (auto simp: touched_def same_view_def entry_after_success_def update_effective_health_def Let_def
      runtime_state_changed_def word_gt_0 split: option.splits)

lemma report_fields:
  "touched e (entry_after_failure now e)"
  "touched e (entry_after_disable reason b now e)"
  by (simp_all add: touched_def entry_after_failure_def entry_after_disable_def Let_def)

definition cleared_entry :: "'f f64 \<Rightarrow> 'f credential_entry \<Rightarrow> 'f credential_entry" where
  "cleared_entry F e = e\<lparr>cooldown_until := None, cooldown_reason := None, model_cooldowns := [],
     rate_limit_available_at := None, health := default_health F, model_health := Map.empty\<rparr>"

lemma cleared_fields: "same_view e (cleared_entry F e)" "entry_id (cleared_entry F e) = entry_id e"
  "runtime_revision (cleared_entry F e) = runtime_revision e"
  "runtime_generation (cleared_entry F e) = runtime_generation e"
  by (simp_all add: same_view_def cleared_entry_def)

lemma clear_request_state_health:
  "accounts (rp_health (clear_disabled_credential_request_state F cid r)) =
     find_update (has_id cid) (cleared_entry F) (accounts (rp_health r))"
  "pending_mutations (rp_health (clear_disabled_credential_request_state F cid r)) =
     pending_mutations (rp_health r)"
  by (simp_all add: clear_disabled_credential_request_state_def
      clear_scheduler_state_for_credential_local_def cleared_entry_def [abs_def])

lemma current_account_fields [simp]:
  "accounts (select_highest_priority w) = accounts w"
  "pending_mutations (select_highest_priority w) = pending_mutations w"
  "accounts (snd (switch_to_best w)) = accounts w"
  "pending_mutations (snd (switch_to_best w)) = pending_mutations w"
  "accounts (update_account cid f w) = find_update (has_id cid) f (accounts w)"
  "pending_mutations (update_account cid f w) = pending_mutations w"
  by (simp_all add: select_highest_priority_def switch_to_best_def update_account_def
      split: option.splits)

lemma cleared_inv:
  assumes "health_inv (rp_health r) db"
  shows "health_inv (rp_health (clear_disabled_credential_request_state F cid r)) db"
  by (rule health_inv_quiet [OF assms clear_request_state_health]) (simp_all add: cleared_fields)

lemma success_inv:
  assumes inv: "health_inv (rp_health r) db" and fresh: "fresh_operation op (rp_health r) db"
  shows "health_inv (rp_health
    (report_success_with_latency_deferred F cfg store now op model latency cid r)) db"
proof (cases "find (has_id cid) (accounts (rp_health r))")
  case None
  then show ?thesis
    using inv by (simp add: report_success_with_latency_deferred_def record_success_local_def)
next
  case (Some e)
  let ?f = "entry_after_success F cfg now model latency"
  define w where "w = (rp_health r)\<lparr>accounts := find_update (has_id cid) ?f (accounts (rp_health r))\<rparr>"
  have acc: "accounts w = find_update (has_id cid) ?f (accounts (rp_health r))"
    "pending_mutations w = pending_mutations (rp_health r)" by (simp_all add: w_def)
  have queued: "health_inv (snd (enqueue_pending_runtime_mutation cid
      (Pending_Success op (runtime_generation e) 1) w)) db"
    by (rule health_inv_report [OF inv acc Some success_fields(1)]) (simp_all add: fresh)
  have plain: "health_inv w db" if "\<not> runtime_state_changed e"
  proof (rule health_inv_quiet [OF inv acc])
    show "entry_id (?f e') = entry_id e'" for e'
      using success_fields(1) [of e' F cfg now model latency] by (simp add: touched_def)
    show "same_view e' (?f e')" if "e' \<in> set (accounts (rp_health r))" "entry_id e' = cid" for e'
      using unique_id [OF _ Some that] inv success_fields(2) \<open>\<not> runtime_state_changed e\<close>
      by (auto simp: health_inv_def)
  qed
  have dirty: "health_inv (v\<lparr>stats_dirty := True\<rparr>) db" if "health_inv v db"
    for v :: "'a health_state"
    by (rule health_inv_cong [OF that]) simp_all
  show ?thesis
    using Some dirty [OF queued] dirty [OF plain]
    by (auto simp: report_success_with_latency_deferred_def record_success_local_def Let_def
        case_prod_beta simp flip: w_def)
qed

lemma failure_inv:
  assumes inv: "health_inv (rp_health r) db" and fresh: "fresh_operation op (rp_health r) db"
  shows "health_inv (rp_health (snd (report_failure_deferred F True now op cid r))) db"
proof (cases "find (has_id cid) (accounts (rp_health r))")
  case (Some e)
  define w where "w = snd (enqueue_pending_runtime_mutation cid
     (Pending_ApiFailure op (runtime_generation e) (ck_rfc3339 now))
     (update_account cid (entry_after_failure now) (rp_health r)))"
  have w: "health_inv w db" unfolding w_def
    by (rule health_inv_report [OF inv _ _ Some report_fields(1)]) (simp_all add: fresh)
  have "health_inv (select_highest_priority w) db" by (rule health_inv_cong [OF w]) simp_all
  then have "health_inv (rp_health (clear_disabled_credential_request_state F cid
      (r\<lparr>rp_health := select_highest_priority w\<rparr>))) db"
    by (intro cleared_inv) simp
  with Some inv w show ?thesis
    by (simp add: report_failure_deferred_def Let_def flip: w_def)
qed (use inv in \<open>simp add: report_failure_deferred_def\<close>)

lemma disabled_inv:
  assumes inv: "health_inv (rp_health r) db" and fresh: "fresh_operation op (rp_health r) db"
    and e: "find (has_id cid) (accounts (rp_health r)) = Some e"
  shows "health_inv (persist_disabled_state_deferred True op cid (runtime_generation e) reason n m t
    (rp_health (clear_disabled_credential_request_state F cid (r\<lparr>rp_health :=
       snd (switch_to_best (update_account cid (entry_after_disable reason' b now) (rp_health r))),
       rp_circuit := c\<rparr>)))) db"
proof -
  let ?g = "cleared_entry F \<circ> entry_after_disable reason' b now"
  have t: "touched e (?g e)" for e
    using report_fields(2) by (simp add: touched_def cleared_fields)
  have id: "entry_id (entry_after_disable reason' b now e) = entry_id e" for e :: "'a credential_entry"
    using report_fields(2) [of e reason' b now] by (simp add: touched_def)
  show ?thesis
    unfolding persist_disabled_state_deferred_def if_True
    by (rule health_inv_report [OF inv _ _ e t])
       (simp_all add: fresh clear_request_state_health find_update_twice id comp_def)
qed

lemma disabled_inv':
  assumes "health_inv (rp_health r) db" "fresh_operation op (rp_health r) db"
    and "find (has_id cid) (accounts (rp_health r)) = Some e"
  shows "health_inv (persist_disabled_state_deferred True op cid (runtime_generation e) reason n m t
    (rp_health (clear_disabled_credential_request_state F cid (r\<lparr>rp_health :=
       snd (switch_to_best (update_account cid (entry_after_disable reason' b now) (rp_health r)))\<rparr>)))) db"
  using disabled_inv [OF assms, where c = "rp_circuit r"]
  by (simp add: clear_disabled_credential_request_state_def)

lemma disabling_reports_inv:
  assumes inv: "health_inv (rp_health r) db" and fresh: "fresh_operation op (rp_health r) db"
  shows "health_inv (rp_health (snd (report_quota_exhausted_deferred_inner F True now op cid r))) db"
    and "health_inv (rp_health (snd (report_refresh_token_invalid_deferred F True now op cid r))) db"
    and "health_inv (rp_health (snd (report_risk_controlled_outcome_deferred F ccfg proxies True now op
      cid reason r))) db"
  using inv disabled_inv' [OF inv fresh] disabled_inv [OF inv fresh]
  by (simp_all add: report_quota_exhausted_deferred_inner_def report_refresh_token_invalid_deferred_def
      report_risk_controlled_outcome_deferred_def Let_def case_prod_beta split: option.splits)

subsection \<open>Runs\<close>

lemma flush_round_inv:
  "health_inv (fl_health s) (fl_db s) \<Longrightarrow>
   health_inv (fl_health (snd (flush_round ts limit ids rs s))) (fl_db (snd (flush_round ts limit ids rs s)))"
  by (induction ts limit ids rs s rule: flush_round.induct) (auto simp: flush_account_inv)

lemma flush_loop_inv:
  "health_inv (fl_health s) (fl_db s) \<Longrightarrow>
   health_inv (fl_health (flush_loop ts limit rs s)) (fl_db (flush_loop ts limit rs s))"
proof (induction ts limit rs s rule: flush_loop.induct)
  case (1 ts limit rs s)
  let ?ids = "flush_ids (fl_health s) (fl_failed s)"
  obtain rs' s' where r: "flush_round ts limit ?ids rs (s\<lparr>fl_succeeded := False\<rparr>) = (rs', s')"
    by (cases "flush_round ts limit ?ids rs (s\<lparr>fl_succeeded := False\<rparr>)")
  have "health_inv (fl_health s') (fl_db s')"
    using flush_round_inv [of "s\<lparr>fl_succeeded := False\<rparr>" ts limit ?ids rs] 1(2) r by simp
  then show ?case
    using 1 r by (subst (1 2) flush_loop.simps) (auto simp: Let_def)
qed

lemma flush_until_inv:
  assumes "health_inv w db"
  shows "health_inv (fl_health (flush_pending_runtime_mutations_until ts limit rs w db failed))
    (fl_db (flush_pending_runtime_mutations_until ts limit rs w db failed))"
proof -
  let ?s = "flush_loop ts limit rs \<lparr>fl_health = w, fl_db = db, fl_failed = failed,
     fl_attempted = 0, fl_succeeded = False, fl_recovered = False, fl_persisted = False\<rparr>"
  let ?t = "flush_pending_runtime_mutations_until ts limit rs w db failed"
  have inv: "health_inv (fl_health ?s) (fl_db ?s)" by (rule flush_loop_inv) (simp add: assms)
  have "fl_db ?t = fl_db ?s" "accounts (fl_health ?t) = accounts (fl_health ?s)"
    "pending_mutations (fl_health ?t) = pending_mutations (fl_health ?s)"
    by (simp_all add: flush_pending_runtime_mutations_until_def Let_def)
  with health_inv_cong [OF inv] show ?thesis by metis
qed

text \<open>
  One instance and its database, without reports in the middle of an attempt.  An operation id is drawn fresh for every report, and another
  instance never uses an id this one has queued.  A flush attempt may find the database answering,
  refusing, or answering too late for the caller to see it.  Between the steps time passes, other
  instances run their transactions, and the clean-up shortens the ledger; it may also remove the
  row of an operation that still waits here.
\<close>

inductive health_step ::
    "'f report_state \<times> runtime_db \<Rightarrow> 'f report_state \<times> runtime_db \<Rightarrow> bool" where
  succeeded: "fresh_operation op (rp_health r) db \<Longrightarrow>
    health_step (r, db) (report_success_with_latency_deferred F cfg store now op model latency cid r, db)"
| failed: "fresh_operation op (rp_health r) db \<Longrightarrow>
    health_step (r, db) (snd (report_failure_deferred F True now op cid r), db)"
| exhausted: "fresh_operation op (rp_health r) db \<Longrightarrow>
    health_step (r, db) (snd (report_quota_exhausted_deferred_inner F True now op cid r), db)"
| token_invalid: "fresh_operation op (rp_health r) db \<Longrightarrow>
    health_step (r, db) (snd (report_refresh_token_invalid_deferred F True now op cid r), db)"
| risk_controlled: "fresh_operation op (rp_health r) db \<Longrightarrow>
    health_step (r, db)
      (snd (report_risk_controlled_outcome_deferred F ccfg proxies True now op cid reason r), db)"
| attempted: "fl_health s = rp_health r \<Longrightarrow> fl_db s = db \<Longrightarrow> s' = flush_account ts l cid s \<Longrightarrow>
    health_step (r, db) (r\<lparr>rp_health := fl_health s'\<rparr>, fl_db s')"
| flushed: "s' = flush_pending_runtime_mutations_until ts limit rs (rp_health r) db gone \<Longrightarrow>
    health_step (r, db) (r\<lparr>rp_health := fl_health s'\<rparr>, fl_db s')"
| loaded: "health_step (r, db) (r\<lparr>rp_health :=
    snd (apply_loaded_runtime_states (load_credential_runtime_state db) (rp_health r))\<rparr>, db)"
| healed: "auto_heal limits True now ls (rp_health r, db) = (ok, w, db') \<Longrightarrow>
    health_step (r, db) (r\<lparr>rp_health := w\<rparr>, db')"
| elsewhere: "(\<And>op i. call_operation c = Some op \<Longrightarrow>
      op \<notin> set (ops_of (queue_of (pending_mutations (rp_health r)) i))) \<Longrightarrow>
    health_step (r, db) (r, after_call ts c db)"

lemma commit_ledger:
  "(\<And>x db'. v = Inr (x, db') \<Longrightarrow> dom (mutation_rows db') - dom (mutation_rows db) \<subseteq> A) \<Longrightarrow>
   dom (mutation_rows (database_after db v)) - dom (mutation_rows db) \<subseteq> A"
  by (auto simp: database_after_def split: sum.splits)

lemma finish_prepared_ledger:
  assumes "tx_bind (prepare_credential_runtime_mutation cid op kind expected)
      (\<lambda>prep. finish_prepared prep body) db = Inr (x, db')"
    and "\<And>r g flag. writes_at cid f (body r g flag)"
  shows "dom (mutation_rows db') - dom (mutation_rows db) \<subseteq> {op}"
proof -
  obtain prep db1 where prep: "prepare_credential_runtime_mutation cid op kind expected db = Inr (prep, db1)"
    and fin: "finish_prepared prep body db1 = Inr (x, db')"
    using assms(1) by (auto simp: tx_inversions)
  have one: "dom (mutation_rows db1) - dom (mutation_rows db) \<subseteq> {op}"
    using prepare_ledger [OF prep] by auto
  show ?thesis
  proof (cases prep)
    case (Prep_Apply r g flag)
    then have "runtime_rows db1 cid = Some (columns_of db cid)"
      using prepare_eq_Inr [OF prep] by auto
    moreover have "body r g flag db1 = Inr (x, db')"
      using fin Prep_Apply by (simp add: finish_prepared_def)
    ultimately have "mutation_rows db' = mutation_rows db1"
      using writes_atD [OF assms(2)] by metis
    then show ?thesis using one by simp
  qed (use fin one in \<open>auto simp: finish_prepared_def\<close>)
qed

lemma mutation_ledger:
  "record_credential_success_with_expected_generation cid op g n db = Inr (x, db') \<Longrightarrow>
     dom (mutation_rows db') - dom (mutation_rows db) \<subseteq> {op}"
  "record_credential_api_failure_with_expected_generation ts cid op g t m db = Inr (x, db') \<Longrightarrow>
     dom (mutation_rows db') - dom (mutation_rows db) \<subseteq> {op}"
  "record_credential_refresh_failure_with_expected_generation ts cid op g t m db = Inr (x, db') \<Longrightarrow>
     dom (mutation_rows db') - dom (mutation_rows db) \<subseteq> {op}"
  unfolding record_credential_success_with_expected_generation_def
    record_credential_api_failure_with_expected_generation_def
    record_credential_refresh_failure_with_expected_generation_def
  by (erule finish_prepared_ledger, rule writes_at_bodies)+

lemma if_dirty_ledger:
  assumes "record_credential_success_if_runtime_dirty_at_generation cid op g db = Inr (x, db')"
  shows "dom (mutation_rows db') - dom (mutation_rows db) \<subseteq> {op}"
proof -
  have "mutation_rows db' = mutation_rows db \<or> tx_bind (prepare_credential_runtime_mutation cid op ''success'' (Some g))
      (\<lambda>prep. finish_prepared prep (\<lambda>r _ flag. write_success cid 1 r flag)) (insert_default_row cid db) = Inr (x, db')"
    using assms unfolding record_credential_success_if_runtime_dirty_at_generation_def
    by (auto simp: tx_bind_eq_Inr [of "lock_active_credential_in_tx i" for i]
        tx_bind_eq_Inr [of "lock_runtime_state i" for i] lock_active_eq_Inr lock_runtime_state_eq
        split: if_splits)
  then show ?thesis
    using finish_prepared_ledger [OF _ write_success_writes] by fastforce
qed

lemma snapshot_ledger:
  assumes "save_credential_runtime_state_snapshot cid s db = Inr (x, db')"
  shows "mutation_rows db' = mutation_rows db"
proof -
  obtain y where "swap_snapshot cid (snapshot_state s) (snapshot_expected_revision s) db = Inr (y, db')"
    using assms
    by (auto simp: save_credential_runtime_state_snapshot_def Let_def tx_inversions
        lock_active_eq_Inr split: option.splits if_splits)
  then show ?thesis
    by (auto simp: swap_snapshot_def Let_def split: option.splits if_splits)
qed

lemma cleanup_ledger:
  "cleanup_credential_runtime_mutations unlocked stats CREDENTIAL_RUNTIME_MUTATION_RETENTION limit db =
     Inr (x, db') \<Longrightarrow> dom (mutation_rows db') - dom (mutation_rows db) \<subseteq> {}"
  using cleanup_writes by blast

lemma elsewhere_ledger:
  "dom (mutation_rows (after_call ts c db)) - dom (mutation_rows db) \<subseteq> set_option (call_operation c)"
proof (cases c)
  case (Call_cleanup unlocked stats)
  then show ?thesis
    by (simp only: after_call.simps, intro commit_ledger) (auto dest!: cleanup_ledger)
next
  case (Time_passes n)
  then show ?thesis by simp
qed (simp only: after_call.simps, rule commit_ledger,
    simp add: mutation_ledger if_dirty_ledger heal_ledger snapshot_ledger
      finish_prepared_ledger [OF patch_prepared write_patch_writes])+

lemma health_step_inv:
  assumes "health_step s s'" "health_inv (rp_health (fst s)) (snd s)"
  shows "health_inv (rp_health (fst s')) (snd s')"
  using assms
proof (induction rule: health_step.induct)
  case (healed limits now ls r db ok w db')
  then show ?case using auto_heal_inv [of "rp_health r" db limits now ls] by simp
next
  case (elsewhere c r db ts)
  have "set (ops_of (queue_of (pending_mutations (rp_health r)) i)) \<inter>
      (dom (mutation_rows (after_call ts c db)) - dom (mutation_rows db)) = {}" for i
    using elsewhere(1) elsewhere_ledger [of ts c db] by (cases "call_operation c") fastforce+
  from health_inv_later [OF elsewhere(2) [simplified] after_call_steps this] show ?case by simp
qed (simp_all add: success_inv failure_inv disabling_reports_inv flush_account_inv flush_until_inv
    loaded_inv)

definition health_start :: "'f report_state \<Rightarrow> runtime_db \<Rightarrow> bool" where
  "health_start r db \<longleftrightarrow> pending_mutations (rp_health r) = [] \<and> rows_ok db \<and>
     distinct (map entry_id (accounts (rp_health r))) \<and>
     list_all (\<lambda>e. \<not> runtime_persistence_degraded e \<and> \<not> runtime_persistence_quarantined e \<and>
       (disabled e \<longleftrightarrow> disabled_reason e \<noteq> None) \<and>
       (cred_disabled (credentials e) \<longrightarrow> disabled_reason e \<noteq> None) \<and>
       runtime_revision e = row_revision (row_of db (entry_id e)) \<and>
       runtime_generation e = row_generation (row_of db (entry_id e)) \<and>
       mirrors e (row_of db (entry_id e))) (accounts (rp_health r))"

lemma health_start_inv: "health_start r db \<Longrightarrow> health_inv (rp_health r) db"
  by (auto simp: health_start_def health_inv_def account_ok_def flags_ok_def view_ok_def synced_def
      queues_apart_def queue_of_def queue_requires_quarantine_def list_all_iff)

lemma health_run_inv:
  assumes "health_start r db" "health_step\<^sup>*\<^sup>* (r, db) (r', db')"
  shows "health_inv (rp_health r') db'"
proof -
  have "health_inv (rp_health (fst s)) (snd s)" if "health_step\<^sup>*\<^sup>* (r, db) s" for s
    using that health_start_inv [OF assms(1)]
    by (induction rule: rtranclp_induct) (auto dest: health_step_inv)
  from this [OF assms(2)] show ?thesis by simp
qed

subsection \<open>Properties\<close>

text \<open>C16. As long as no report falls into an attempt of the flush on the same account (each of the
  two is one step here; \<open>Health_Races\<close> shows what an overlap does to the flags), and whatever else
  happens to requests, the database and other instances, the flags of an account say exactly what
  waits in its queue: it is degraded if and only if something waits, quarantined if and only if a
  change that decides about scheduling waits, and disabled if and only if it is quarantined or has
  a reason to be disabled.\<close>

theorem persistence_flags_are_exact:
  assumes "health_start r db" "health_step\<^sup>*\<^sup>* (r, db) (r', db')" "e \<in> set (accounts (rp_health r'))"
  shows "(runtime_persistence_degraded e \<longleftrightarrow> has_pending_runtime_mutations (rp_health r') (entry_id e)) \<and>
    (runtime_persistence_quarantined e \<longleftrightarrow>
       queue_requires_quarantine (queue_of (pending_mutations (rp_health r')) (entry_id e))) \<and>
    (disabled e \<longleftrightarrow> runtime_persistence_quarantined e \<or> disabled_reason e \<noteq> None)"
  using health_run_inv [OF assms(1,2)] assms(3)
  by (simp add: health_inv_def account_ok_def flags_ok_def has_pending_runtime_mutations_def)

text \<open>C13. Once nothing waits for an account, its counters and the reason it is disabled for are those of
  the database's row, unless the row has a higher revision, and after a reload in any case.
  This holds after any sequence of reports, attempts that succeed, fail or succeed unseen,
  reloads, healing and other instances' transactions; a report in the middle of an attempt is
  left out.\<close>

theorem drained_queue_mirrors_the_database:
  assumes "health_start r db" "health_step\<^sup>*\<^sup>* (r, db) (r', db')" "e \<in> set (accounts (rp_health r'))"
    and "\<not> has_pending_runtime_mutations (rp_health r') (entry_id e)"
  shows "(runtime_revision e < row_revision (row_of db' (entry_id e)) \<or>
      mirrors e (row_of db' (entry_id e))) \<and>
    mirrors (snd (loaded_entry (load_credential_runtime_state db') e)) (row_of db' (entry_id e))"
proof -
  have "runtime_revision e < row_revision (row_of db' (entry_id e)) \<or> mirrors e (row_of db' (entry_id e))"
    and "\<not> runtime_persistence_degraded e"
    using health_run_inv [OF assms(1,2)] assms(3,4)
    by (auto simp: health_inv_def account_ok_def flags_ok_def view_ok_def synced_def
        has_pending_runtime_mutations_def)
  then show ?thesis using loaded_entry_mirrors by blast
qed

subsection \<open>An instance with one account\<close>

definition example_clock :: clock_reading where
  "example_clock = \<lparr>ck_instant = secs 100, ck_millis = 100000, ck_rfc3339 = ''t''\<rparr>"

definition one_account :: "unit credential_entry \<Rightarrow> unit report_state" where
  "one_account e = \<lparr>rp_health = \<lparr>accounts = [e], pending_mutations = [],
       overflow_runtime_mutations = 0, stats_dirty = False, flush_cursor = 0, current_id = 1\<rparr>,
     rp_sessions = session_table_new, rp_circuit = circuit_new, rp_stats = Map.empty,
     rp_probes = Map.empty\<rparr>"

definition reported_failure :: "uuid \<Rightarrow> unit report_state \<Rightarrow> unit report_state" where
  "reported_failure op r = snd (report_failure_deferred unit_f64 True example_clock op 1 r)"

lemma one_account_start: "health_start (one_account example_entry) example_db"
proof -
  have "rows_ok example_db"
    by (simp add: rows_ok_def example_db_def columns_of_def default_columns_def fits_i64_def)
  then show ?thesis
    by (simp add: health_start_def one_account_def example_entry_def example_credentials_def
        row_of_def runtime_state_from_row_def columns_of_def example_db_def default_columns_def
        mirrors_def persisted_reason_def)
qed

lemmas report_defs = reported_failure_def report_failure_deferred_def one_account_def
  example_entry_def example_credentials_def entry_after_failure_def update_account_def Let_def
  enqueue_pending_runtime_mutation_def push_mutation_def queue_of_def recompute_entry_disabled_def
  queue_requires_quarantine_def example_clock_def MAX_FAILURES_PER_CREDENTIAL_def sat_add_def
  SOFT_PENDING_RUNTIME_MUTATIONS_TOTAL_def SOFT_PENDING_RUNTIME_MUTATIONS_PER_CREDENTIAL_def

definition failed_once :: "unit report_state" where
  "failed_once = reported_failure 7 (one_account example_entry)"

lemma one_failure_state:
  "accounts (rp_health failed_once) =
     [example_entry\<lparr>failure_count := 1, entry_last_used_at := Some ''t'',
        runtime_persistence_degraded := True\<rparr>]"
  "pending_mutations (rp_health failed_once) =
     [(1, [Pending_ApiFailure 7 0 ''t''])]"
  by (simp_all add: failed_once_def report_defs word_le_nat_alt)

lemma one_failure_run:
  "health_step\<^sup>*\<^sup>* (one_account example_entry, example_db)
     (failed_once, example_db)"
  unfolding failed_once_def reported_failure_def
  by (rule r_into_rtranclp, rule health_step.failed)
     (simp add: fresh_operation_def one_account_def example_db_def)

theorem persistence_flags_are_exact_witness:
  "\<exists>e\<in>set (accounts (rp_health failed_once)).
     runtime_persistence_degraded e \<and>
     has_pending_runtime_mutations (rp_health failed_once) (entry_id e)"
  using persistence_flags_are_exact [OF one_account_start one_failure_run]
  by (simp add: one_failure_state)

definition flushed_once :: "unit report_state \<Rightarrow> runtime_db \<Rightarrow> unit flush_state" where
  "flushed_once r db = flush_account any_time Answers 1 \<lparr>fl_health = rp_health r, fl_db = db,
     fl_failed = [], fl_attempted = 0, fl_succeeded = False, fl_recovered = False,
     fl_persisted = False\<rparr>"

lemma flushed_once_run:
  assumes "health_step\<^sup>*\<^sup>* s (r, db)"
  shows "health_step\<^sup>*\<^sup>* s (r\<lparr>rp_health := fl_health (flushed_once r db)\<rparr>, fl_db (flushed_once r db))"
  unfolding flushed_once_def
  by (rule rtranclp.rtrancl_into_rtrancl [OF assms], rule health_step.attempted [OF _ _ refl]) simp_all

lemmas flush_defs = flushed_once_def flush_account_def flush_head_def flush_write_def
  flush_finish_def flush_pop_def flush_settle_def flush_settle_entry_def
  apply_persisted_runtime_mutation_to_entry_def apply_authoritative_runtime_state_to_entry_def
  apply_runtime_state_if_newer_def set_cred_disabled_def persisted_reason_def
  result_of_mutation_def example_db_def any_time_def transaction_defs MAX_FAILURES_PER_CREDENTIAL_def
  queue_requires_quarantine_def recompute_entry_disabled_def queue_of_def Let_def

lemma flushed_failure_state:
  "pending_mutations (fl_health (flushed_once failed_once example_db)) = []"
  "accounts (fl_health (flushed_once failed_once example_db)) =
     [example_entry\<lparr>failure_count := 1, entry_last_used_at := Some ''t'', runtime_revision := 1\<rparr>]"
  by (simp_all add: flush_defs one_failure_state example_entry_def example_credentials_def)

theorem drained_queue_mirrors_the_database_witness:
  "\<exists>e\<in>set (accounts (fl_health (flushed_once failed_once example_db))).
     failure_count e = 1 \<and>
     (runtime_revision e < row_revision (row_of (fl_db (flushed_once failed_once example_db)) (entry_id e)) \<or>
      mirrors e (row_of (fl_db (flushed_once failed_once example_db)) (entry_id e)))"
  using drained_queue_mirrors_the_database
    [OF one_account_start flushed_once_run [OF one_failure_run]]
  by (simp add: flushed_failure_state has_pending_runtime_mutations_def queue_of_def)

end
