(* ===== verification/Flush_Progress.thy ===== *)
theory Flush_Progress
  imports Health_Consistency
begin

text \<open>
  A flush goes on until it has used up its attempts or its time, or until every account that still
  has something in its queue has had a write fail: it does not stop at the first account that
  fails, and it does not leave a queue out.
\<close>

subsection \<open>Queues under their keys\<close>

definition queues_ok :: "pending_queues \<Rightarrow> bool" where
  "queues_ok q \<longleftrightarrow> distinct (map fst q) \<and> list_all (\<lambda>(_, ms). ms \<noteq> []) q"

lemma set_AList_update: "set (AList.update k v q) \<subseteq> insert (k, v) (set q)"
  by (induction q) (auto split: if_splits)

lemma set_AList_delete: "set (AList.delete k q) \<subseteq> set q"
  by (auto simp: AList.delete_eq)

lemma queues_ok_update: "queues_ok q \<Longrightarrow> ms \<noteq> [] \<Longrightarrow> queues_ok (AList.update k ms q)"
  using set_AList_update [of k ms q] by (fastforce simp: queues_ok_def list_all_iff AList.distinct_update)

lemma queues_ok_delete: "queues_ok q \<Longrightarrow> queues_ok (AList.delete k q)"
  using set_AList_delete [of k q] by (fastforce simp: queues_ok_def list_all_iff AList.distinct_delete)

lemma queues_ok_head:
  "queues_ok q \<Longrightarrow> cid \<in> set (map fst q) \<Longrightarrow> \<exists>m ms. map_of q cid = Some (m # ms)"
  by (cases "map_of q cid")
     (auto simp: queues_ok_def list_all_iff map_of_eq_None_iff dest!: map_of_SomeD
       elim: list.exhaust split: prod.splits intro: neq_Nil_conv [THEN iffD1])

lemma flush_pop_keys:
  assumes "queues_ok q" "cid \<in> set (map fst q)"
  shows "queues_ok (snd (flush_pop cid op q)) \<and>
    set (map fst (snd (flush_pop cid op q))) \<subseteq> set (map fst q) \<and>
    set (map fst q) - {cid} \<subseteq> set (map fst (snd (flush_pop cid op q)))"
proof -
  obtain m ms where "map_of q cid = Some (m # ms)" using queues_ok_head [OF assms] by blast
  then show ?thesis
    using assms queues_ok_update [OF assms(1)] queues_ok_delete [OF assms(1)]
    by (auto simp: flush_pop_def Let_def AList.update_keys AList.delete_keys
        simp flip: set_map split: list.splits if_splits)
qed

subsection \<open>One account, one round\<close>

definition waiting :: "'f flush_state \<Rightarrow> u64 set" where
  "waiting s = set (map fst (pending_mutations (fl_health s)))"

lemma flush_account_progress:
  fixes ts l
  assumes "queues_ok (pending_mutations (fl_health s))" "cid \<in> waiting s"
  defines "s' \<equiv> flush_account ts l cid s"
  shows "fl_attempted s' = fl_attempted s + 1"
    and "queues_ok (pending_mutations (fl_health s'))"
    and "waiting s' \<subseteq> waiting s"
    and "waiting s - {cid} \<subseteq> waiting s'"
    and "fl_failed s' = cid # fl_failed s \<and> fl_succeeded s' = fl_succeeded s \<and>
        pending_mutations (fl_health s') = pending_mutations (fl_health s) \<or>
      fl_failed s' = fl_failed s \<and> fl_succeeded s'"
proof -
  obtain m ms where head: "map_of (pending_mutations (fl_health s)) cid = Some (m # ms)"
    using queues_ok_head [OF assms(1,2) [unfolded waiting_def]] by blast
  note pop = flush_pop_keys [OF assms(1,2) [unfolded waiting_def]]
  show "fl_attempted s' = fl_attempted s + 1"
    using head
    by (auto simp: s'_def flush_account_def flush_head_def queue_of_def Let_def
        split: prod.splits sum.splits)
  show "queues_ok (pending_mutations (fl_health s'))"
    and "waiting s' \<subseteq> waiting s"
    and "waiting s - {cid} \<subseteq> waiting s'"
    using head assms(1) pop
    by (auto simp: s'_def flush_account_def flush_head_def queue_of_def Let_def flush_finish_def
        flush_settle_def waiting_def case_prod_beta split: prod.splits sum.splits)
  show "fl_failed s' = cid # fl_failed s \<and> fl_succeeded s' = fl_succeeded s \<and>
        pending_mutations (fl_health s') = pending_mutations (fl_health s) \<or>
      fl_failed s' = fl_failed s \<and> fl_succeeded s'"
    using head
    by (auto simp: s'_def flush_account_def flush_head_def queue_of_def Let_def
        split: prod.splits sum.splits)
qed

definition time_left :: "nat \<Rightarrow> readings \<Rightarrow> 'f flush_state \<Rightarrow> bool" where
  "time_left limit rs s \<longleftrightarrow> list_all (\<lambda>(up, _). \<not> up) rs \<and> limit < fl_attempted s + length rs"

lemma time_left_deadline: "time_left limit rs s \<Longrightarrow> fl_attempted s \<le> limit \<Longrightarrow> \<not> deadline_passed rs"
  by (cases rs) (auto simp: time_left_def deadline_passed_def)

lemma flush_round_progress:
  assumes "queues_ok (pending_mutations (fl_health s))" "distinct ids"
    and "set ids \<subseteq> waiting s"
    and "time_left limit rs s" "fl_attempted s \<le> limit"
    and "flush_round ts limit ids rs s = (rs', s')"
  shows "queues_ok (pending_mutations (fl_health s')) \<and> time_left limit rs' s' \<and>
    fl_attempted s' \<le> limit \<and> set (fl_failed s) \<subseteq> set (fl_failed s') \<and>
    (fl_succeeded s \<longrightarrow> fl_succeeded s') \<and>
    waiting s' \<subseteq> waiting s \<and>
    (fl_attempted s' = limit \<or> fl_succeeded s' \<or> set ids \<subseteq> set (fl_failed s'))"
  using assms
proof (induction ids arbitrary: rs s)
  case (Cons cid ids)
  let ?s = "flush_account ts (snd (hd rs)) cid s"
  have key: "cid \<in> waiting s" using Cons.prems(3) by simp
  note step = flush_account_progress [OF Cons.prems(1) key, of ts "snd (hd rs)"]
  show ?case
  proof (cases "fl_attempted s = limit")
    case False
    have late: "\<not> deadline_passed rs" using time_left_deadline Cons.prems(4,5) by blast
    have time: "time_left limit (tl rs) ?s"
      using Cons.prems(4,5) False step(1) by (cases rs) (auto simp: time_left_def)
    have run: "flush_round ts limit ids (tl rs) ?s = (rs', s')"
      using Cons.prems(5,6) False late by simp
    have ids: "set ids \<subseteq> waiting ?s"
      using Cons.prems(2,3) step(4) by auto
    from Cons.IH [OF step(2) _ ids time _ run] show ?thesis
      using Cons.prems(2,5) False step(1,3,5) by auto
  qed (use Cons.prems in simp)
qed simp

subsection \<open>The whole flush\<close>

lemma set_flush_ids:
  "set (flush_ids (fl_health s) failed) = waiting s - set failed"
  "distinct (map fst (pending_mutations w)) \<Longrightarrow> distinct (flush_ids w failed)"
  by (auto simp: flush_ids_def waiting_def Let_def)

lemma flush_loop_progress:
  assumes "queues_ok (pending_mutations (fl_health s))" "time_left limit rs s" "fl_attempted s \<le> limit"
  shows "fl_attempted (flush_loop ts limit rs s) = limit \<or>
    fl_attempted (flush_loop ts limit rs s) < limit \<and>
    waiting (flush_loop ts limit rs s) \<subseteq>
      set (fl_failed (flush_loop ts limit rs s))"
  using assms
proof (induction ts limit rs s rule: flush_loop.induct)
  case (1 ts limit rs s)
  let ?ids = "flush_ids (fl_health s) (fl_failed s)"
  show ?case
  proof (cases "fl_attempted s = limit \<or> ?ids = []")
    case True
    then show ?thesis
      using "1.prems"(3) set_flush_ids(1) [of s "fl_failed s"]
      by (subst (1 2 3 4) flush_loop.simps) auto
  next
    case False
    obtain rs' s' where run: "flush_round ts limit ?ids rs (s\<lparr>fl_succeeded := False\<rparr>) = (rs', s')"
      by fastforce
    have "distinct ?ids" using "1.prems"(1) by (simp add: queues_ok_def set_flush_ids(2))
    then have round: "queues_ok (pending_mutations (fl_health s')) \<and> time_left limit rs' s' \<and>
        fl_attempted s' \<le> limit \<and> waiting s' \<subseteq> waiting s \<and> set (fl_failed s) \<subseteq> set (fl_failed s') \<and>
        (fl_attempted s' = limit \<or> fl_succeeded s' \<or> set ?ids \<subseteq> set (fl_failed s'))"
      using flush_round_progress [OF _ _ _ _ _ run] "1.prems" set_flush_ids(1) [of s "fl_failed s"]
      by (auto simp: time_left_def waiting_def)
    then have late: "\<not> deadline_passed rs'" using time_left_deadline by blast
    have loop: "flush_loop ts limit rs s = (if fl_succeeded s' then flush_loop ts limit rs' s' else s')"
      using False "1.prems"(3) run late by (subst flush_loop.simps) (auto simp: Let_def)
    show ?thesis
    proof (cases "fl_succeeded s'")
      case True
      then show ?thesis
        using "1.IH" [OF _ refl _ run [symmetric] refl] False "1.prems"(3) late round loop by auto
    next
      case fail: False
      then show ?thesis
        using round loop set_flush_ids(1) [of s "fl_failed s"] by auto
    qed
  qed
qed

subsection \<open>Every reachable queue is under its key\<close>

lemma queues_ok_enqueue:
  "queues_ok (pending_mutations w) \<Longrightarrow>
   queues_ok (pending_mutations (snd (enqueue_pending_runtime_mutation cid m w)))"
  by (auto simp: enqueue_pending_runtime_mutation_def push_mutation_def Let_def
      intro: queues_ok_update split: option.splits)

lemma select_pending [simp]: "pending_mutations (select_highest_priority w) = pending_mutations w"
  by (auto simp: select_highest_priority_def split: option.splits)

lemma update_account_pending [simp]: "pending_mutations (update_account cid f w) = pending_mutations w"
  by (simp add: update_account_def)

lemma clear_state_pending [simp]:
  "pending_mutations (rp_health (clear_disabled_credential_request_state F cid r)) = pending_mutations (rp_health r)"
  by (simp add: clear_disabled_credential_request_state_def)

lemma switch_pending: "switch_to_best w = (ok, w') \<Longrightarrow> pending_mutations w' = pending_mutations w"
  by (auto simp: switch_to_best_def split: option.splits)

lemma queues_ok_reports:
  assumes "queues_ok (pending_mutations (rp_health r))"
  shows "queues_ok (pending_mutations (rp_health
      (report_success_with_latency_deferred F cfg store now op model latency cid r)))"
    "queues_ok (pending_mutations (rp_health (snd (report_failure_deferred F st now op cid r))))"
    "queues_ok (pending_mutations (rp_health (snd (report_quota_exhausted_deferred_inner F st now op cid r))))"
    "queues_ok (pending_mutations (rp_health (snd (report_refresh_token_invalid_deferred F st now op cid r))))"
    "queues_ok (pending_mutations (rp_health
      (snd (report_risk_controlled_outcome_deferred F ccfg proxies st now op cid reason r))))"
  using assms
  by (auto simp: report_success_with_latency_deferred_def report_failure_deferred_def Let_def
      record_success_local_def report_quota_exhausted_deferred_inner_def
      report_refresh_token_invalid_deferred_def report_risk_controlled_outcome_deferred_def
      persist_disabled_state_deferred_def switch_pending
      intro!: queues_ok_enqueue split: option.splits prod.splits)

lemma queues_ok_account:
  assumes "queues_ok (pending_mutations (fl_health s))"
  shows "queues_ok (pending_mutations (fl_health (flush_account ts l cid s)))"
proof (cases "cid \<in> waiting s")
  case True
  then show ?thesis using flush_account_progress(2) [OF assms] by blast
next
  case False
  then have "flush_head ((fl_health s)\<lparr>flush_cursor := cid\<rparr>) cid = None"
    by (simp add: flush_head_def queue_of_def waiting_def map_of_eq_None_iff [symmetric] del: map_of_eq_None_iff)
  then show ?thesis using assms by (simp add: flush_account_def Let_def)
qed

lemma queues_ok_round:
  "queues_ok (pending_mutations (fl_health s)) \<Longrightarrow>
   queues_ok (pending_mutations (fl_health (snd (flush_round ts limit ids rs s))))"
  by (induction ids arbitrary: rs s) (auto intro: queues_ok_account)

lemma queues_ok_loop:
  "queues_ok (pending_mutations (fl_health s)) \<Longrightarrow>
   queues_ok (pending_mutations (fl_health (flush_loop ts limit rs s)))"
proof (induction ts limit rs s rule: flush_loop.induct)
  case (1 ts limit rs s)
  obtain rs' s' where run: "flush_round ts limit (flush_ids (fl_health s) (fl_failed s)) rs
      (s\<lparr>fl_succeeded := False\<rparr>) = (rs', s')" by fastforce
  have "queues_ok (pending_mutations (fl_health s'))"
    using queues_ok_round [of "s\<lparr>fl_succeeded := False\<rparr>" ts limit "flush_ids (fl_health s) (fl_failed s)" rs]
      "1.prems" run by simp
  then show ?case
    using "1.IH" [OF _ refl _ run [symmetric] refl] "1.prems" run
    by (subst flush_loop.simps) (auto simp: Let_def)
qed

lemma heal_pending:
  "pending_mutations (fst (snd (heal_accounts store now ids ls (w, db)))) = pending_mutations w"
proof (induction ids arbitrary: ls w db)
  case (Cons cid ids)
  have "pending_mutations (snd (apply_auto_heal_result now cid v w)) = pending_mutations w" for v
    by (simp add: apply_auto_heal_result_def split: option.splits)
  with Cons.IH show ?case
    by (cases "if ls = [] then Refuses else hd ls")
       (auto simp: case_prod_beta Let_def split: sum.splits option.splits prod.splits)
qed simp

lemma queues_ok_until:
  "queues_ok (pending_mutations w) \<Longrightarrow>
   queues_ok (pending_mutations (fl_health (flush_pending_runtime_mutations_until ts limit rs w db failed)))"
  by (auto simp: flush_pending_runtime_mutations_until_def Let_def queues_ok_def [of "[]"]
      intro!: queues_ok_loop)

lemma queues_ok_step:
  assumes "health_step s s'" "queues_ok (pending_mutations (rp_health (fst s)))"
  shows "queues_ok (pending_mutations (rp_health (fst s')))"
  using assms
proof (induction rule: health_step.induct)
  case (healed limits now ls r db ok w db')
  then show ?case
    using heal_pending [of True now "the (auto_heal_candidate_ids limits now (accounts (rp_health r)))" ls
        "rp_health r" db]
    by (auto simp: auto_heal_def case_prod_beta Let_def split: option.splits)
qed (auto simp: queues_ok_until queues_ok_reports queues_ok_account apply_loaded_runtime_states_def)

lemma queues_ok_run:
  assumes "health_start r db" "health_step\<^sup>*\<^sup>* (r, db) (r', db')"
  shows "queues_ok (pending_mutations (rp_health r'))"
proof -
  have "queues_ok (pending_mutations (rp_health (fst s)))" if "health_step\<^sup>*\<^sup>* (r, db) s" for s
    using that
  proof (induction rule: rtranclp_induct)
    case base
    then show ?case using assms(1) by (simp add: health_start_def queues_ok_def)
  qed (auto intro: queues_ok_step)
  from this [OF assms(2)] show ?thesis by simp
qed

subsection \<open>Property\<close>

text \<open>C15. In every state an instance can reach, a flush whose deadline does not pass while it makes its
  attempts either makes all the attempts it is allowed or leaves only queues of accounts whose
  write failed; when no write fails and there are attempts left, every queue is empty.\<close>

theorem flush_leaves_only_failed_accounts:
  fixes ts failed
  assumes "health_start r db" "health_step\<^sup>*\<^sup>* (r, db) (r', db')"
    and "list_all (\<lambda>(up, _). \<not> up) rs" "limit < length rs"
  defines "s \<equiv> flush_pending_runtime_mutations_until ts limit rs (rp_health r') db' failed"
  shows "fl_attempted s = limit \<or> fl_attempted s < limit \<and>
    list_all (\<lambda>(cid, _). cid \<in> set (fl_failed s)) (pending_mutations (fl_health s))"
proof -
  let ?s = "\<lparr>fl_health = rp_health r', fl_db = db', fl_failed = failed, fl_attempted = 0,
    fl_succeeded = False, fl_recovered = False, fl_persisted = False\<rparr>"
  have same: "fl_attempted s = fl_attempted (flush_loop ts limit rs ?s)"
    "fl_failed s = fl_failed (flush_loop ts limit rs ?s)"
    "pending_mutations (fl_health s) = pending_mutations (fl_health (flush_loop ts limit rs ?s))"
    by (simp_all add: s_def flush_pending_runtime_mutations_until_def Let_def)
  have "time_left limit rs ?s" using assms(3,4) by (simp add: time_left_def)
  then show ?thesis
    using flush_loop_progress [of ?s limit rs ts] queues_ok_run [OF assms(1,2)]
    unfolding same waiting_def by (auto simp: list_all_iff)
qed

theorem flush_leaves_only_failed_accounts_witness:
  "pending_mutations (fl_health (flush_pending_runtime_mutations_until any_time 3
     [(False, Answers), (False, Answers), (False, Answers), (False, Answers)]
     (rp_health failed_once) example_db [])) = []"
proof -
  let ?s = "flush_pending_runtime_mutations_until any_time 3
     [(False, Answers), (False, Answers), (False, Answers), (False, Answers)]
     (rp_health failed_once) example_db []"
  have "fl_attempted ?s = 1 \<and> fl_failed ?s = []"
    by (simp add: flush_pending_runtime_mutations_until_def flush_loop.simps flush_ids_def
        deadline_passed_def flush_defs one_failure_state example_entry_def example_credentials_def)
  then show ?thesis
    using flush_leaves_only_failed_accounts [OF one_account_start one_failure_run,
        of "[(False, Answers), (False, Answers), (False, Answers), (False, Answers)]" 3 any_time "[]"]
    by (cases "pending_mutations (fl_health ?s)") auto
qed

end
