(* ===== verification/Health_Races.thy ===== *)
theory Health_Races
  imports Health_Consistency
begin

text \<open>
  Three ways in which the local view of an account goes wrong, on an instance with one account,
  each shown on the operations of the theories below: the update of the entry after a flush runs
  under another lock than the removal from the queue, successes are merged into an entry of the
  queue that is already being written, and a queue of failures is replayed one by one.
\<close>

subsection \<open>A report between the two locks of a flush\<close>

text \<open>The flush has written the queued failure and removed it; before it takes the lock of the
  entries, another request reports that the quota is exhausted.\<close>

definition answer_of :: "runtime_db \<Rightarrow> pending_mutation \<Rightarrow> persisted_mutation" where
  "answer_of db m = (case persist_pending_runtime_mutation any_time 1 m db of
     Inr (p, _) \<Rightarrow> p
   | Inl _ \<Rightarrow> \<lparr>persisted_state = row_of db 1, persisted_credential_disabled = None,
       persisted_applied = False\<rparr>)"

definition failure_answer :: persisted_mutation where
  "failure_answer = answer_of example_db (Pending_ApiFailure 7 0 ''t'')"

definition exhausted_in_between :: "unit report_state" where
  "exhausted_in_between = snd (report_quota_exhausted_deferred_inner unit_f64 True example_clock 8 1
     (failed_once\<lparr>rp_health := (rp_health failed_once)\<lparr>pending_mutations :=
        snd (flush_pop 1 7 (pending_mutations (rp_health failed_once)))\<rparr>\<rparr>))"

definition settled_late :: "unit health_state" where
  "settled_late = flush_settle 1 (fst (flush_pop 1 7 (pending_mutations (rp_health failed_once))))
     failure_answer (rp_health exhausted_in_between)"

lemmas disable_defs = report_quota_exhausted_deferred_inner_def switch_to_best_def
  entry_after_disable_def clear_disabled_credential_request_state_def
  clear_scheduler_state_for_credential_local_def persist_disabled_state_deferred_def
  best_available_def entry_is_scheduler_available_def unbind_sessions_for_credential_def

lemma exhausted_in_between_state:
  "pending_mutations (rp_health exhausted_in_between) =
     [(1, [Pending_Disable 8 0 ''QuotaExceeded'' (Some 3) None ''t''])]"
  "map disabled (accounts (rp_health exhausted_in_between)) = [True]"
  by (simp_all add: exhausted_in_between_def flush_pop_def one_failure_state disable_defs report_defs)

lemma failure_answer_eq:
  "failure_answer =
     \<lparr>persisted_state = \<lparr>row_failure_count = 1, row_refresh_failure_count = 0,
        row_disabled_reason = None, row_warmup_remaining = 0, row_generation = 0, row_revision = 1\<rparr>,
      persisted_credential_disabled = Some False, persisted_applied = True\<rparr>"
  by (simp add: failure_answer_def answer_of_def flush_defs)

text \<open>C39. An account that has just been disabled because its quota is exhausted, with the change still
  in its queue, is offered to the scheduler again when a flush finishes that had removed the
  account's last queued change before the report and updates the entry after it.\<close>

theorem settling_late_reenables_a_disabled_account:
  "list_all disabled (accounts (rp_health exhausted_in_between)) \<and>
   list_all entry_is_scheduler_available (accounts settled_late) \<and>
   list_ex requires_dispatch_quarantine (queue_of (pending_mutations settled_late) 1)"
proof -
  have "list_all entry_is_scheduler_available (accounts settled_late)"
    by (simp add: settled_late_def failure_answer_eq exhausted_in_between_def flush_defs
        one_failure_state disable_defs report_defs)
  then show ?thesis
    using exhausted_in_between_state
    by (auto simp: settled_late_def flush_settle_def queue_of_def map_eq_Cons_conv)
qed

subsection \<open>A success merged into the change being written\<close>

text \<open>Two requests of a warming account succeed; the second reports while the flush writes the
  first one's change.\<close>

definition warming_db :: runtime_db where
  "warming_db = example_db\<lparr>runtime_rows := [1 \<mapsto> default_columns\<lparr>col_warmup_remaining := 5\<rparr>]\<rparr>"

definition no_degrade :: "unit success_config" where
  "no_degrade = \<lparr>scheduler_error_ewma_alpha = (), credential_degrade_enabled = False,
     credential_degrade_success_decay = (), credential_degrade_half_life_secs = 60,
     credential_degrade_suspend_score = (), credential_degrade_resume_ratio = ()\<rparr>"

definition reported_success :: "uuid \<Rightarrow> unit report_state \<Rightarrow> unit report_state" where
  "reported_success op r =
     report_success_with_latency_deferred unit_f64 no_degrade True example_clock op None None 1 r"

definition succeeded_once :: "unit report_state" where
  "succeeded_once = reported_success 7 (one_account (example_entry\<lparr>warmup_remaining := 5\<rparr>))"

definition succeeded_twice :: "unit report_state" where
  "succeeded_twice = reported_success 8 succeeded_once"

definition success_answer :: persisted_mutation where
  "success_answer = answer_of warming_db (Pending_Success 7 0 1)"

definition success_flushed :: "unit health_state" where
  "success_flushed = snd (flush_finish 1 7 success_answer (rp_health succeeded_twice))"

lemmas success_defs = reported_success_def report_success_with_latency_deferred_def
  record_success_local_def entry_after_success_def update_effective_health_def
  runtime_state_changed_def no_degrade_def has_pending_runtime_mutations_def

lemma succeeded_once_state:
  "flush_head (rp_health succeeded_once) 1 = Some (Pending_Success 7 0 1)"
  "map warmup_remaining (accounts (rp_health succeeded_once)) = [4]"
  by (simp_all add: succeeded_once_def success_defs report_defs flush_head_def)

lemma success_answer_eq:
  "success_answer =
     \<lparr>persisted_state = \<lparr>row_failure_count = 0, row_refresh_failure_count = 0,
        row_disabled_reason = None, row_warmup_remaining = 4, row_generation = 0, row_revision = 1\<rparr>,
      persisted_credential_disabled = Some False, persisted_applied = True\<rparr>"
  by (simp add: success_answer_def answer_of_def warming_db_def flush_defs write_success_def success_columns_def
      record_credential_success_with_expected_generation_def success_decrement_def)

lemma succeeded_twice_state:
  "pending_mutations (rp_health succeeded_twice) = [(1, [Pending_Success 7 0 2])]"
  "\<exists>e. accounts (rp_health succeeded_twice) = [e] \<and> entry_id e = 1 \<and> warmup_remaining e = 3 \<and>
     runtime_revision e = 0 \<and> runtime_generation e = 0"
  by (simp_all add: succeeded_twice_def succeeded_once_def success_defs report_defs)

text \<open>C40. A success that is merged into the change the flush is writing is dropped with it: of two
  successes of a warming account the database and, after the flush, the instance count one, and
  nothing is left in the queue that could make up for it.\<close>

theorem merged_success_is_lost:
  "flush_head (rp_health succeeded_once) 1 = Some (Pending_Success 7 0 1) \<and>
   map warmup_remaining (accounts (rp_health succeeded_twice)) = [3] \<and>
   pending_mutations success_flushed = [] \<and>
   map warmup_remaining (accounts success_flushed) = [4]"
proof -
  have "flush_finish 1 7 success_answer (rp_health succeeded_twice) = (True, success_flushed)"
    by (simp add: success_flushed_def flush_finish_def flush_pop_def succeeded_twice_state Let_def)
  moreover have "pending_mutations success_flushed = []"
    by (simp add: success_flushed_def flush_finish_def flush_pop_def flush_settle_def
        succeeded_twice_state Let_def)
  moreover obtain e where e: "accounts (rp_health succeeded_twice) = [e]" "entry_id e = 1"
    "warmup_remaining e = 3" "runtime_revision e = 0" "runtime_generation e = 0"
    using succeeded_twice_state(2) by blast
  have "mirrors (flush_settle_entry True False success_answer e) (persisted_state success_answer)"
    using flush_settle_syncs [of e success_answer True False] e by (simp add: success_answer_eq)
  then have "warmup_remaining (flush_settle_entry True False success_answer e) = 4"
    by (simp add: mirrors_def success_answer_eq)
  then have "map warmup_remaining (accounts success_flushed) = [4]"
    using e by (simp add: success_flushed_def flush_finish_def flush_pop_def flush_settle_def
        succeeded_twice_state Let_def queue_requires_quarantine_def)
  ultimately show ?thesis using succeeded_once_state e by simp
qed

subsection \<open>Failures replayed one by one\<close>

definition failed_thrice :: "unit report_state" where
  "failed_thrice = reported_failure 9 (reported_failure 8 failed_once)"

lemma failed_thrice_state:
  "pending_mutations (rp_health failed_thrice) = [(1, [Pending_ApiFailure 7 0 ''t'',
     Pending_ApiFailure 8 0 ''t'', Pending_ApiFailure 9 0 ''t''])]"
  "\<exists>e. accounts (rp_health failed_thrice) = [e] \<and> entry_id e = 1 \<and> disabled e \<and>
     \<not> account_quota_blocked e \<and> runtime_revision e = 0 \<and> runtime_generation e = 0"
  by (simp_all add: failed_thrice_def failed_once_def report_defs disable_defs
      select_highest_priority_def word_le_nat_alt)

lemma flush_settle_quota:
  "account_quota_blocked (flush_settle_entry b q p e) = account_quota_blocked e"
  by (simp add: flush_settle_entry_def apply_persisted_runtime_mutation_to_entry_def
      apply_authoritative_runtime_state_to_entry_def apply_runtime_state_if_newer_def
      recompute_entry_disabled_def set_cred_disabled_def Let_def split: option.splits)

text \<open>An account disabled by its third failure in a row is offered to the scheduler again as soon
  as the first of the three is replayed, and until the third is: the row of the first failure
  replaces the local count while the other two still wait in the queue.\<close>

theorem replayed_failure_reenables_the_account:
  "list_all disabled (accounts (rp_health failed_thrice)) \<and>
   list_all entry_is_scheduler_available
     (accounts (snd (flush_finish 1 7 failure_answer (rp_health failed_thrice)))) \<and>
   length (queue_of (pending_mutations (snd (flush_finish 1 7 failure_answer
     (rp_health failed_thrice)))) 1) = 2"
proof -
  obtain e where e: "accounts (rp_health failed_thrice) = [e]" "entry_id e = 1" "disabled e"
    "\<not> account_quota_blocked e" "runtime_revision e = 0" "runtime_generation e = 0"
    using failed_thrice_state(2) by blast
  let ?e = "flush_settle_entry False False failure_answer e"
  have "mirrors ?e (persisted_state failure_answer)"
    using flush_settle_syncs [of e failure_answer False False] e by (simp add: failure_answer_eq)
  then have reason: "disabled_reason ?e = persisted_reason (persisted_state failure_answer)
      (cred_disabled (credentials ?e))" by (simp add: mirrors_def)
  have flag: "\<not> cred_disabled (credentials ?e)"
    using e by (simp add: flush_settle_entry_def apply_persisted_runtime_mutation_to_entry_def
        apply_authoritative_runtime_state_to_entry_def failure_answer_eq set_cred_disabled_def Let_def)
  have "flags_ok ?e [Pending_ApiFailure 8 0 ''t'']"
    using flush_settle_flags [of "[Pending_ApiFailure 8 0 ''t'']" failure_answer e]
    by (simp add: queue_requires_quarantine_def)
  then have "entry_is_scheduler_available ?e"
    using reason flag e(4)
    by (simp add: flags_ok_def entry_is_scheduler_available_def flush_settle_quota
        persisted_reason_def failure_answer_eq queue_requires_quarantine_def)
  then show ?thesis
    using e by (simp add: flush_finish_def flush_pop_def flush_settle_def failed_thrice_state
        Let_def queue_of_def queue_requires_quarantine_def)
qed

end
