(* ===== verification/Auto_Heal.thy ===== *)
theory Auto_Heal
  imports Health_Consistency
begin

text \<open>
  The automatic healing of accounts that were disabled for failing too often is rationed: what one
  round of \<open>auto_heal\<close> does to each account, and what the limits allow over any sequence of rounds.
\<close>

lemma apply_auto_heal_accounts:
  "accounts (snd (apply_auto_heal_result now cid v w)) =
     find_update (has_id cid) (\<lambda>e. snd (healed_entry now v e)) (accounts w)"
  by (auto simp: apply_auto_heal_result_def update_account_def find_update_None split: option.splits)

lemma heal_accounts_entries:
  assumes "distinct (map entry_id (accounts w))" "distinct ids"
    and "e' \<in> set (accounts (fst (snd (heal_accounts store now ids ls (w, db)))))"
  shows "\<exists>e\<in>set (accounts w). e' = e \<or>
    entry_id e \<in> set ids \<and> (\<exists>v. e' = snd (healed_entry now v e))"
  using assms
proof (induction ids arbitrary: ls w db)
  case (Cons cid ids)
  have same: ?case if mem: "e' \<in> set (accounts (fst (snd (heal_accounts store now ids ls' (w, db')))))" for ls' db'
    using Cons.IH [OF Cons.prems(1) _ mem] Cons.prems(2) by auto
  have healed: ?case
    if mem: "e' \<in> set (accounts (fst (snd (heal_accounts store now ids ls'
        (snd (apply_auto_heal_result now cid v w), db')))))" for ls' v db'
  proof -
    let ?w = "snd (apply_auto_heal_result now cid v w)"
    have d: "distinct (map entry_id (accounts ?w))"
      using Cons.prems(1)
      by (simp add: apply_auto_heal_accounts map_id_find_update healed_entry_fields)
    obtain e1 where e1: "e1 \<in> set (accounts ?w)"
      "e' = e1 \<or> entry_id e1 \<in> set ids \<and> (\<exists>v. e' = snd (healed_entry now v e1))"
      using Cons.IH [OF d _ mem] Cons.prems(2) by auto
    from in_find_update [OF Cons.prems(1) e1(1) [unfolded apply_auto_heal_accounts]] e1(2) Cons.prems(2)
    show ?thesis by (auto simp: healed_entry_fields)
  qed
  show ?case
  proof (cases store)
    case False
    then show ?thesis using healed Cons.prems(3) by (simp add: case_prod_beta Let_def)
  next
    case True
    then show ?thesis
      using same healed Cons.prems(3)
      by (cases "if ls = [] then Refuses else hd ls")
         (auto simp: case_prod_beta Let_def split: sum.splits option.splits prod.splits)
  qed
qed auto

lemma healed_entry_changes:
  assumes "last_auto_heal_at (snd (healed_entry now v e)) \<noteq> last_auto_heal_at e \<or>
      auto_heal_consecutive_rounds (snd (healed_entry now v e)) \<noteq> auto_heal_consecutive_rounds e"
  shows "\<not> disabled (snd (healed_entry now v e)) \<and> last_auto_heal_at (snd (healed_entry now v e)) = Some now \<and>
    auto_heal_consecutive_rounds (snd (healed_entry now v e)) = sat_add (auto_heal_consecutive_rounds e) 1"
  using assms
  by (auto simp: healed_entry_def Let_def apply_runtime_state_if_newer_def set_cred_disabled_def
      split: option.splits if_splits)

text \<open>C26. A round of healing changes the heal record of an account only if the account was disabled for
  too many failures, had rounds left, and was last healed at least the minimal interval ago; the
  account is enabled then, and the round is counted.\<close>

theorem healing_is_rationed:
  assumes "distinct (map entry_id (accounts w))"
    and "e \<in> set (accounts w)" "e' \<in> set (accounts (fst (snd (auto_heal limits store now ls (w, db)))))"
    and "entry_id e' = entry_id e"
    and "last_auto_heal_at e' \<noteq> last_auto_heal_at e \<or>
      auto_heal_consecutive_rounds e' \<noteq> auto_heal_consecutive_rounds e"
  shows "disabled_reason e = Some TooManyFailures \<and>
    (max_consecutive_rounds limits = 0 \<or>
     auto_heal_consecutive_rounds e < max_consecutive_rounds limits) \<and>
    (case last_auto_heal_at e of None \<Rightarrow> True
     | Some t \<Rightarrow> min_interval limits \<le> saturating_duration_since now t) \<and>
    \<not> disabled e' \<and> last_auto_heal_at e' = Some now \<and>
    auto_heal_consecutive_rounds e' = sat_add (auto_heal_consecutive_rounds e) 1"
proof (cases "auto_heal_candidate_ids limits now (accounts w)")
  case None
  then have "e' \<in> set (accounts w)" using assms(3) by (simp add: auto_heal_def)
  then have "e' = e" using assms(1,2,4) by (auto simp: distinct_map inj_on_def)
  with assms(5) show ?thesis by simp
next
  case (Some ids)
  let ?c = "filter (\<lambda>e. is_auto_heal_candidate e limits now) (accounts w)"
  have ids: "ids = map entry_id ?c"
    using Some by (simp add: auto_heal_candidate_ids_def Let_def split: if_splits)
  have d: "distinct ids" using assms(1) by (simp add: ids distinct_map_filter)
  obtain e0 where e0: "e0 \<in> set (accounts w)"
    "e' = e0 \<or> entry_id e0 \<in> set ids \<and> (\<exists>v. e' = snd (healed_entry now v e0))"
    using heal_accounts_entries [OF assms(1) d] assms(3) Some
    by (fastforce simp: auto_heal_def case_prod_beta Let_def)
  have "entry_id e0 = entry_id e" using e0(2) assms(4) by (auto simp: healed_entry_fields)
  then have "e0 = e" using assms(1,2) e0(1) by (auto simp: distinct_map inj_on_def)
  with e0(2) assms(5) obtain v where v: "e' = snd (healed_entry now v e)" and id: "entry_id e \<in> set ids"
    by auto
  from id obtain e1 where "e1 \<in> set (accounts w)" "entry_id e1 = entry_id e"
    "is_auto_heal_candidate e1 limits now" by (auto simp: ids)
  then have "is_auto_heal_candidate e limits now"
    using assms(1,2) by (auto simp: distinct_map inj_on_def)
  then show ?thesis
    using healed_entry_changes [of now v e] assms(5) v
    by (auto simp: is_auto_heal_candidate_def split: option.splits)
qed

definition failing_entry :: "unit credential_entry" where
  "failing_entry = example_entry\<lparr>failure_count := 3, disabled := True,
     disabled_reason := Some TooManyFailures\<rparr>"

definition heal_limits :: auto_heal_limits where
  "heal_limits = \<lparr>min_interval = secs 60, max_consecutive_rounds = 3\<rparr>"

lemma healed_example:
  "\<exists>e'. accounts (fst (snd (auto_heal heal_limits False (secs 100) []
      (rp_health (one_account failing_entry), example_db)))) = [e'] \<and> entry_id e' = 1 \<and>
    last_auto_heal_at e' = Some (secs 100)"
  by (simp add: auto_heal_def auto_heal_candidate_ids_def is_auto_heal_candidate_def heal_limits_def
      one_account_def failing_entry_def example_entry_def apply_auto_heal_result_def healed_entry_def
      update_account_def set_cred_disabled_def example_credentials_def Let_def)

theorem healing_is_rationed_witness:
  "\<exists>e'\<in>set (accounts (fst (snd (auto_heal heal_limits False (secs 100) []
      (rp_health (one_account failing_entry), example_db))))).
     \<not> disabled e' \<and> auto_heal_consecutive_rounds e' = 1"
proof -
  obtain e' where e': "accounts (fst (snd (auto_heal heal_limits False (secs 100) []
      (rp_health (one_account failing_entry), example_db)))) = [e']" "entry_id e' = 1"
    "last_auto_heal_at e' = Some (secs 100)"
    using healed_example by blast
  have "\<not> disabled e' \<and> auto_heal_consecutive_rounds e' = sat_add 0 1"
    using healing_is_rationed [of "rp_health (one_account failing_entry)" failing_entry e' heal_limits
        False "secs 100" "[]" example_db] e'
    by (simp add: one_account_def failing_entry_def example_entry_def)
  then show ?thesis using e'(1) by (simp add: sat_add_def)
qed

end
