(* ===== verification/Scheduler_Sync.thy ===== *)
theory Scheduler_Sync
  imports Account_Reports Lease_Guard
begin

text \<open>
  How the state that the instances share in Redis is taken over into the local entries
  (\<open>src/kiro/token_manager/redis_runtime.rs\<close> and the callers in \<open>manager.rs\<close>): cool-downs, health,
  rate limit and the leases of all instances, less those this instance has released in the meantime
  (the tombstones of theory Release_Dispatcher).

  Times of Redis are milliseconds since the epoch; they are read relative to the two clocks of the
  caller.  What Redis holds is an argument.
\<close>

subsection \<open>The state in Redis\<close>

record scheduler_cooldown_state =
  until_ms :: int
  sc_reason :: "string option"
  sc_model :: "string option"

record scheduler_in_flight_lease =
  sl_id :: u64
  sl_acquired_at_ms :: int
  sl_last_seen_at_ms :: int
  sl_kind :: string
  sl_weight_units :: u32

record 'f scheduler_model_state =
  sm_model :: string
  sm_cooldown :: "scheduler_cooldown_state option"
  sm_health :: "'f scheduler_health_state"

record 'f scheduler_credential_state =
  st_cooldown :: "scheduler_cooldown_state option"
  st_health :: "'f scheduler_health_state"
  st_model_states :: "'f scheduler_model_state list"
  st_rate_limit_available_at_ms :: "int option"
  st_in_flight_leases :: "scheduler_in_flight_lease list"

definition default_scheduler_state :: "'f f64 \<Rightarrow> 'f scheduler_credential_state" where
  "default_scheduler_state F = \<lparr>st_cooldown = None, st_health = default_health F, st_model_states = [],
     st_rate_limit_available_at_ms = None, st_in_flight_leases = []\<rparr>"

subsection \<open>Taking it over\<close>

definition instant_from_epoch_ms :: "int \<Rightarrow> int \<Rightarrow> instant \<Rightarrow> instant option" where
  "instant_from_epoch_ms target_ms now_ms now =
     (if target_ms > now_ms then Some (now + millis (nat (target_ms - now_ms))) else None)"

definition instant_from_elapsed_epoch_ms :: "int \<Rightarrow> int \<Rightarrow> instant \<Rightarrow> instant" where
  "instant_from_elapsed_epoch_ms target_ms now_ms now =
     (if target_ms \<ge> now_ms then now
      else if millis (nat (now_ms - target_ms)) \<le> now then now - millis (nat (now_ms - target_ms))
      else now)"

definition redis_in_flight_lease_is_fresh :: "int \<Rightarrow> int \<Rightarrow> duration option \<Rightarrow> bool" where
  "redis_in_flight_lease_is_fresh seen_ms now_ms max_age = (case max_age of
       None \<Rightarrow> True
     | Some d \<Rightarrow> seen_ms \<ge> now_ms \<or> nat (now_ms - seen_ms) \<le> d div 1000000)"

definition sync_lease ::
    "int \<Rightarrow> instant \<Rightarrow> in_flight_lease list \<Rightarrow> scheduler_in_flight_lease \<Rightarrow> in_flight_lease" where
  "sync_lease now_ms now previous lease =
     (let local = find (\<lambda>l. lease_id l = sl_id lease \<and> locally_owned l) previous
      in \<lparr>lease_id = sl_id lease,
          acquired_at = instant_from_elapsed_epoch_ms (sl_acquired_at_ms lease) now_ms now,
          last_seen_at = (case local of
              None \<Rightarrow> instant_from_elapsed_epoch_ms (sl_last_seen_at_ms lease) now_ms now
            | Some l \<Rightarrow> last_seen_at l),
          lease_kind = in_flight_kind_from_str (sl_kind lease),
          weight_units = max (sl_weight_units lease) 1,
          locally_owned = (local \<noteq> None)\<rparr>)"

fun keep_own_leases :: "u64 set \<Rightarrow> in_flight_lease list \<Rightarrow> in_flight_lease list" where
  "keep_own_leases seen [] = []"
| "keep_own_leases seen (l # ls) =
     (if locally_owned l \<and> lease_id l \<notin> seen then l # keep_own_leases (insert (lease_id l) seen) ls
      else keep_own_leases seen ls)"

definition merged_in_flight_leases ::
    "int \<Rightarrow> instant \<Rightarrow> duration option \<Rightarrow> in_flight_lease list \<Rightarrow> scheduler_in_flight_lease list \<Rightarrow>
     in_flight_lease list" where
  "merged_in_flight_leases now_ms now max_age previous redis =
     (let fresh = filter (\<lambda>l. redis_in_flight_lease_is_fresh (sl_last_seen_at_ms l) now_ms max_age) redis
      in map (sync_lease now_ms now previous) fresh @ keep_own_leases (set (map sl_id fresh)) previous)"

definition take_over_model_state ::
    "int \<Rightarrow> instant \<Rightarrow> 'f scheduler_model_state \<Rightarrow> 'f credential_entry \<Rightarrow> 'f credential_entry" where
  "take_over_model_state now_ms now s e =
     (let key = model_state_key (sm_model s);
          e = (case sm_cooldown s of
              None \<Rightarrow> e
            | Some c \<Rightarrow> (case instant_from_epoch_ms (until_ms c) now_ms now of
                None \<Rightarrow> e
              | Some until \<Rightarrow> e\<lparr>model_cooldowns := AList.update key
                  \<lparr>mc_model = sm_model s, mc_until = until, mc_reason = sc_reason c\<rparr>
                  (model_cooldowns e)\<rparr>))
      in e\<lparr>model_health := (model_health e)(key \<mapsto> sm_health s)\<rparr>)"

definition merged_rate_limit ::
    "int \<Rightarrow> instant \<Rightarrow> u32 \<Rightarrow> int option \<Rightarrow> 'f credential_entry \<Rightarrow> instant option" where
  "merged_rate_limit now_ms now global_rpm redis e =
     (if rate_limit_interval_for_rpm (effective_rpm e global_rpm) \<noteq> None
      then (case (rate_limit_available_at e,
                 Option.bind redis (\<lambda>t. instant_from_epoch_ms t now_ms now)) of
          (Some local, Some available) \<Rightarrow> Some (max local available)
        | (Some local, None) \<Rightarrow> if local > now then Some local else None
        | (None, available) \<Rightarrow> available)
      else None)"

definition lease_sum :: "in_flight_lease list \<Rightarrow> u32" where
  "lease_sum ls = fold (\<lambda>l total. sat_add total (max (weight_units l) 1)) ls 0"

definition apply_scheduler_state_to_entry ::
    "u32 \<Rightarrow> duration option \<Rightarrow> int \<Rightarrow> instant \<Rightarrow> 'f scheduler_credential_state \<Rightarrow> 'f credential_entry \<Rightarrow>
     'f credential_entry" where
  "apply_scheduler_state_to_entry global_rpm max_age now_ms now s e =
     (let e = e\<lparr>cooldown_until := Option.bind (st_cooldown s) (\<lambda>c. instant_from_epoch_ms (until_ms c) now_ms now),
                cooldown_reason := Option.bind (st_cooldown s) sc_reason,
                model_cooldowns := [], model_health := Map.empty\<rparr>;
          e = fold (take_over_model_state now_ms now) (st_model_states s) e;
          e = e\<lparr>rate_limit_available_at :=
                  merged_rate_limit now_ms now global_rpm (st_rate_limit_available_at_ms s) e\<rparr>;
          ls = merged_in_flight_leases now_ms now max_age (in_flight_leases e) (st_in_flight_leases s)
      in e\<lparr>in_flight_requests := lease_sum ls, in_flight_leases := ls, health := st_health s,
           redis_full_until := None\<rparr>)"

type_synonym 'f scheduler_states = "(u64 \<times> 'f scheduler_credential_state) list"

definition apply_scheduler_states_with_global_rpm ::
    "'f f64 \<Rightarrow> u32 \<Rightarrow> duration option \<Rightarrow> int \<Rightarrow> instant \<Rightarrow> 'f scheduler_states \<Rightarrow>
     'f credential_entry list \<Rightarrow> 'f credential_entry list" where
  "apply_scheduler_states_with_global_rpm F global_rpm max_age now_ms now states entries =
     map (\<lambda>e. apply_scheduler_state_to_entry global_rpm max_age now_ms now
       (case map_of states (entry_id e) of None \<Rightarrow> default_scheduler_state F | Some s \<Rightarrow> s) e) entries"

definition apply_scheduler_states_for_ids_with_global_rpm ::
    "u32 \<Rightarrow> duration option \<Rightarrow> int \<Rightarrow> instant \<Rightarrow> 'f scheduler_states \<Rightarrow>
     'f credential_entry list \<Rightarrow> 'f credential_entry list" where
  "apply_scheduler_states_for_ids_with_global_rpm global_rpm max_age now_ms now states entries =
     (if states = [] then entries
      else map (\<lambda>e. case map_of states (entry_id e) of None \<Rightarrow> e
        | Some s \<Rightarrow> apply_scheduler_state_to_entry global_rpm max_age now_ms now s e) entries)"

subsection \<open>Without the released leases\<close>

text \<open>The filter of theory Release_Dispatcher on whole states.\<close>

definition filter_released_scheduler_states ::
    "instant \<Rightarrow> tombstone_set \<Rightarrow> 'f scheduler_states \<Rightarrow> tombstone_set \<times> 'f scheduler_states" where
  "filter_released_scheduler_states now t states =
     (if states = [] then (t, states)
      else let t = tombstone_prune t now in
        if dom (released_at t) = {} then (t, states)
        else (t, map (\<lambda>(cid, s). (cid, s\<lparr>st_in_flight_leases :=
          filter (\<lambda>l. \<not> tombstone_contains_key t (cid, sl_id l)) (st_in_flight_leases s)\<rparr>)) states))"

definition apply_scheduler_states ::
    "'f f64 \<Rightarrow> u32 \<Rightarrow> duration option \<Rightarrow> int \<Rightarrow> instant \<Rightarrow> 'f scheduler_states \<Rightarrow>
     tombstone_set \<times> 'f credential_entry list \<Rightarrow> tombstone_set \<times> 'f credential_entry list" where
  "apply_scheduler_states F global_rpm max_age now_ms now states held =
     (let (t, states) = filter_released_scheduler_states now (fst held) states
      in (t, apply_scheduler_states_with_global_rpm F global_rpm max_age now_ms now states (snd held)))"

definition apply_scheduler_states_for_ids ::
    "u32 \<Rightarrow> duration option \<Rightarrow> int \<Rightarrow> instant \<Rightarrow> 'f scheduler_states \<Rightarrow>
     tombstone_set \<times> 'f credential_entry list \<Rightarrow> tombstone_set \<times> 'f credential_entry list" where
  "apply_scheduler_states_for_ids global_rpm max_age now_ms now states held =
     (let (t, states) = filter_released_scheduler_states now (fst held) states
      in (t, apply_scheduler_states_for_ids_with_global_rpm global_rpm max_age now_ms now states (snd held)))"

subsection \<open>The leases after a synchronisation\<close>

lemma take_over_fields [simp]:
  "in_flight_leases (fold (take_over_model_state now_ms now) ss e) = in_flight_leases e"
  "in_flight_requests (fold (take_over_model_state now_ms now) ss e) = in_flight_requests e"
  "entry_id (fold (take_over_model_state now_ms now) ss e) = entry_id e"
  by (induction ss arbitrary: e) (auto simp: take_over_model_state_def Let_def split: option.splits)

lemma apply_state_leases:
  "in_flight_leases (apply_scheduler_state_to_entry g a now_ms now s e) =
     merged_in_flight_leases now_ms now a (in_flight_leases e) (st_in_flight_leases s)"
  "in_flight_requests (apply_scheduler_state_to_entry g a now_ms now s e) =
     lease_sum (merged_in_flight_leases now_ms now a (in_flight_leases e) (st_in_flight_leases s))"
  "entry_id (apply_scheduler_state_to_entry g a now_ms now s e) = entry_id e"
  by (simp_all add: apply_scheduler_state_to_entry_def Let_def)

lemma sync_lease_fields [simp]:
  "lease_id (sync_lease now_ms now previous l) = sl_id l"
  "weight_units (sync_lease now_ms now previous l) = max (sl_weight_units l) 1"
  by (simp_all add: sync_lease_def Let_def)

lemma set_keep_own:
  "set (keep_own_leases seen ls) \<subseteq> {l \<in> set ls. locally_owned l \<and> lease_id l \<notin> seen}"
  by (induction seen ls rule: keep_own_leases.induct) auto

lemma keep_own_ids:
  "(\<exists>l\<in>set (keep_own_leases seen ls). lease_id l = i) \<longleftrightarrow>
     i \<notin> seen \<and> (\<exists>l\<in>set ls. locally_owned l \<and> lease_id l = i)"
  by (induction seen ls rule: keep_own_leases.induct) (simp, simp, blast)

lemma distinct_keep_own: "distinct (map lease_id (keep_own_leases seen ls))"
proof (induction seen ls rule: keep_own_leases.induct)
  case (2 seen l ls)
  have "lease_id l \<notin> set (map lease_id (keep_own_leases (insert (lease_id l) seen) ls))"
    using set_keep_own [of "insert (lease_id l) seen" ls] by auto
  with 2 show ?case by simp
qed simp

lemma keep_own_unseen: "seen \<inter> set (map lease_id (keep_own_leases seen ls)) = {}"
  using set_keep_own [of seen ls] by auto

lemma length_keep_own: "length (keep_own_leases seen ls) \<le> length ls"
  by (induction seen ls rule: keep_own_leases.induct) auto

lemma distinct_merged:
  assumes "distinct (map sl_id redis)"
  shows "distinct (map lease_id (merged_in_flight_leases now_ms now a ls redis))"
proof -
  let ?fresh = "filter (\<lambda>l. redis_in_flight_lease_is_fresh (sl_last_seen_at_ms l) now_ms a) redis"
  have "map lease_id (map (sync_lease now_ms now ls) ?fresh) = map sl_id ?fresh" by simp
  moreover have "set (map sl_id ?fresh) \<inter> set (map lease_id (keep_own_leases (set (map sl_id ?fresh)) ls)) = {}"
    by (rule keep_own_unseen)
  ultimately show ?thesis
    using assms distinct_keep_own by (simp add: merged_in_flight_leases_def Let_def distinct_map_filter comp_def)
qed

lemma merged_cases:
  assumes "l \<in> set (merged_in_flight_leases now_ms now a ls redis)"
  shows "(\<exists>r\<in>set redis. l = sync_lease now_ms now ls r) \<or> l \<in> set ls \<and> locally_owned l"
proof -
  have "l \<in> sync_lease now_ms now ls ` set redis \<or> l \<in> set (keep_own_leases (sl_id ` set
      (filter (\<lambda>l. redis_in_flight_lease_is_fresh (sl_last_seen_at_ms l) now_ms a) redis)) ls)"
    using assms by (auto simp: merged_in_flight_leases_def Let_def)
  then show ?thesis using set_keep_own by blast
qed

lemma length_merged: "length (merged_in_flight_leases now_ms now a ls redis) \<le> length redis + length ls"
  unfolding merged_in_flight_leases_def Let_def length_append length_map
  by (intro add_mono length_filter_le length_keep_own)

subsection \<open>The ledger over lease operations and synchronisations\<close>

definition snapshot_ok :: "'f scheduler_credential_state \<Rightarrow> bool" where
  "snapshot_ok s \<longleftrightarrow> distinct (map sl_id (st_in_flight_leases s)) \<and>
     list_all (\<lambda>l. unat (sl_weight_units l) \<le> 64) (st_in_flight_leases s) \<and>
     length (st_in_flight_leases s) < 2 ^ 25"

lemma lease_total_bound: "list_all (\<lambda>l. unat (weight_units l) \<le> 64) ls \<Longrightarrow> lease_total ls \<le> 64 * length ls"
  by (induction ls) auto

lemma synced_ledger:
  assumes "ledger e" "snapshot_ok s" "length (in_flight_leases e) < 2 ^ 25"
  shows "ledger (apply_scheduler_state_to_entry g a now_ms now s e)"
proof -
  let ?ls = "merged_in_flight_leases now_ms now a (in_flight_leases e) (st_in_flight_leases s)"
  have w: "1 \<le> unat (weight_units l) \<and> unat (weight_units l) \<le> 64" if "l \<in> set ?ls" for l
    using merged_cases [OF that] assms(1,2)
    by (fastforce simp: snapshot_ok_def ledger_def list_all_iff max_def word_le_nat_alt)
  have "lease_total ?ls \<le> 64 * length ?ls" using w by (intro lease_total_bound) (simp add: list_all_iff)
  also have "\<dots> \<le> 64 * (length (st_in_flight_leases s) + length (in_flight_leases e))"
    using length_merged by (intro mult_le_mono2) blast
  also have "\<dots> < 2 ^ 32" using assms(2,3) by (simp add: snapshot_ok_def)
  finally have "unat (lease_sum ?ls) = lease_total ?ls"
    using fold_sat_weights [of ?ls 0] w by (simp add: lease_sum_def list_all_iff)
  then show ?thesis
    using w distinct_merged assms(2) by (simp add: ledger_def apply_state_leases list_all_iff snapshot_ok_def)
qed

lemma snapshot_ok_filter:
  "snapshot_ok s \<Longrightarrow> snapshot_ok (s\<lparr>st_in_flight_leases := filter p (st_in_flight_leases s)\<rparr>)"
  by (auto simp: snapshot_ok_def distinct_map_filter list_all_filter intro: le_less_trans [OF length_filter_le])

lemma filtered_snapshots_ok:
  "list_all (\<lambda>(_, s). snapshot_ok s) states \<Longrightarrow>
   list_all (\<lambda>(_, s). snapshot_ok s) (snd (filter_released_scheduler_states now t states))"
  by (auto simp: filter_released_scheduler_states_def Let_def list_all_iff intro!: snapshot_ok_filter
      split: prod.splits)

lemma states_ok_lookup:
  "list_all (\<lambda>(_, s). snapshot_ok s) states \<Longrightarrow> map_of states i = Some s \<Longrightarrow> snapshot_ok s"
  by (auto simp: list_all_iff dest!: map_of_SomeD)

lemma default_snapshot_ok: "snapshot_ok (default_scheduler_state F)"
  by (simp add: snapshot_ok_def default_scheduler_state_def)

definition few_leases :: "'f entries \<Rightarrow> bool" where
  "few_leases entries \<longleftrightarrow> list_all (\<lambda>e. length (in_flight_leases e) < 2 ^ 25) entries"

lemma synced_pool_inv:
  assumes "pool_inv (snd held)" "few_leases (snd held)" "list_all (\<lambda>(_, s). snapshot_ok s) states"
  shows "pool_inv (snd (apply_scheduler_states F g a now_ms now states held))"
    "pool_inv (snd (apply_scheduler_states_for_ids g a now_ms now states held))"
proof -
  obtain t states' where f: "filter_released_scheduler_states now (fst held) states = (t, states')" by fastforce
  have ok: "list_all (\<lambda>(_, s). snapshot_ok s) states'"
    using filtered_snapshots_ok [OF assms(3), of now "fst held"] f by simp
  show "pool_inv (snd (apply_scheduler_states F g a now_ms now states held))"
    using assms(1,2) states_ok_lookup [OF ok]
    by (auto simp: apply_scheduler_states_def f apply_scheduler_states_with_global_rpm_def pool_inv_def
        few_leases_def list_all_iff default_snapshot_ok intro!: synced_ledger split: option.splits)
  show "pool_inv (snd (apply_scheduler_states_for_ids g a now_ms now states held))"
    using assms(1,2) states_ok_lookup [OF ok]
    by (auto simp: apply_scheduler_states_for_ids_def f apply_scheduler_states_for_ids_with_global_rpm_def
        pool_inv_def few_leases_def list_all_iff intro!: synced_ledger split: option.splits)
qed

text \<open>The lease operations of one instance, its tombstones, and what it takes over from Redis.\<close>

inductive shared_pool_step ::
    "tombstone_set \<times> 'f entries \<Rightarrow> tombstone_set \<times> 'f entries \<Rightarrow> bool" where
  operated: "pool_step entries entries' \<Longrightarrow> shared_pool_step (t, entries) (t, entries')"
| entombed_lease: "shared_pool_step (t, entries)
    (record_released_in_flight_lease_tombstone now t cid lid, entries)"
| synced: "list_all (\<lambda>(_, s). snapshot_ok s) states \<Longrightarrow> few_leases (snd held) \<Longrightarrow>
    shared_pool_step held (apply_scheduler_states F g a now_ms now states held)"
| synced_ids: "list_all (\<lambda>(_, s). snapshot_ok s) states \<Longrightarrow> few_leases (snd held) \<Longrightarrow>
    shared_pool_step held (apply_scheduler_states_for_ids g a now_ms now states held)"

lemma shared_pool_step_inv:
  "shared_pool_step held held' \<Longrightarrow> pool_inv (snd held) \<Longrightarrow> pool_inv (snd held')"
  by (induction rule: shared_pool_step.induct) (auto simp: pool_step_inv synced_pool_inv)

lemma filtered_lookup:
  assumes "released_at (tombstone_prune t now) (cid, lid) = Some at"
    and "map_of (snd (filter_released_scheduler_states now t states)) cid = Some s"
  shows "lid \<notin> sl_id ` set (st_in_flight_leases s)"
proof -
  have "snd (filter_released_scheduler_states now t states) = map (\<lambda>(cid, s). (cid, s\<lparr>st_in_flight_leases :=
      filter (\<lambda>l. released_at (tombstone_prune t now) (cid, sl_id l) = None) (st_in_flight_leases s)\<rparr>)) states"
    using assms(1) by (auto simp: filter_released_scheduler_states_def Let_def tombstone_contains_key_def dom_def)
  then have "map_of (map (\<lambda>(cid, s). (cid, s\<lparr>st_in_flight_leases :=
      filter (\<lambda>l. released_at (tombstone_prune t now) (cid, sl_id l) = None) (st_in_flight_leases s)\<rparr>)) states) cid = Some s"
    using assms(2) by simp
  then obtain s0 where "s = s0\<lparr>st_in_flight_leases :=
      filter (\<lambda>l. released_at (tombstone_prune t now) (cid, sl_id l) = None) (st_in_flight_leases s0)\<rparr>"
    by (auto dest!: map_of_SomeD)
  then show ?thesis using assms(1) by auto
qed

lemma merged_without:
  assumes "lid \<notin> sl_id ` set redis" "\<forall>l\<in>set ls. lease_id l = lid \<longrightarrow> \<not> locally_owned l"
  shows "lid \<notin> lease_id ` set (merged_in_flight_leases now_ms now a ls redis)"
proof
  assume "lid \<in> lease_id ` set (merged_in_flight_leases now_ms now a ls redis)"
  then obtain l where l: "l \<in> set (merged_in_flight_leases now_ms now a ls redis)" "lease_id l = lid" by blast
  from merged_cases [OF l(1)] show False using l(2) assms by auto
qed

lemma merged_own:
  assumes "l \<in> set ls" "locally_owned l" "distinct (map lease_id ls)"
  shows "\<exists>l'\<in>set (merged_in_flight_leases now_ms now a ls redis). lease_id l' = lease_id l \<and>
    locally_owned l' \<and> last_seen_at l' = last_seen_at l"
proof (cases "\<exists>r\<in>set redis. sl_id r = lease_id l \<and> redis_in_flight_lease_is_fresh (sl_last_seen_at_ms r) now_ms a")
  case True
  then obtain r where r: "r \<in> set redis" "sl_id r = lease_id l"
    "redis_in_flight_lease_is_fresh (sl_last_seen_at_ms r) now_ms a" by blast
  have "find (\<lambda>x. lease_id x = lease_id l \<and> locally_owned x) ls \<noteq> None"
    using assms(1,2) by (auto simp: find_None_iff)
  then obtain x where x: "find (\<lambda>x. lease_id x = lease_id l \<and> locally_owned x) ls = Some x" by blast
  then have "x \<in> set ls" "lease_id x = lease_id l" by (auto simp: find_Some_iff)
  then have "x = l" using assms(1,3) by (auto simp: distinct_map inj_on_def)
  with x r(2) have "locally_owned (sync_lease now_ms now ls r) \<and> last_seen_at (sync_lease now_ms now ls r) = last_seen_at l"
    by (simp add: sync_lease_def)
  moreover have "sync_lease now_ms now ls r \<in> set (merged_in_flight_leases now_ms now a ls redis)"
    using r by (auto simp: merged_in_flight_leases_def Let_def)
  ultimately show ?thesis using r(2) by (intro bexI [of _ "sync_lease now_ms now ls r"]) simp_all
next
  case False
  let ?seen = "set (map sl_id (filter (\<lambda>l. redis_in_flight_lease_is_fresh (sl_last_seen_at_ms l) now_ms a) redis))"
  have "lease_id l \<notin> ?seen" using False by auto
  then obtain l' where l': "l' \<in> set (keep_own_leases ?seen ls)" "lease_id l' = lease_id l"
    using keep_own_ids [of ?seen ls "lease_id l"] assms(1,2) by blast
  then have "l' \<in> set ls" using set_keep_own by blast
  then have "l' = l" using l'(2) assms(1,3) by (auto simp: distinct_map inj_on_def)
  then show ?thesis using l'(1) assms(2) by (auto simp: merged_in_flight_leases_def Let_def)
qed

subsection \<open>Properties\<close>

text \<open>C3. The concurrency ledger survives what other instances do: whatever lease operations run and
  whatever well-formed states are taken over from Redis in between, the counter of an account is
  the sum of the weights of its leases and no lease is listed twice.\<close>

theorem synchronised_counter_is_the_sum_of_leases:
  assumes "list_all (\<lambda>e. in_flight_leases e = [] \<and> in_flight_requests e = 0) entries"
    and "shared_pool_step\<^sup>*\<^sup>* (t, entries) (t', entries')" "e \<in> set entries'"
  shows "unat (in_flight_requests e) = sum_list (map (\<lambda>l. unat (weight_units l)) (in_flight_leases e)) \<and>
    distinct (map lease_id (in_flight_leases e))"
proof -
  have start: "pool_inv entries" using assms(1) by (auto simp: pool_inv_def ledger_def list_all_iff)
  have "pool_inv (snd held)" if "shared_pool_step\<^sup>*\<^sup>* (t, entries) held" for held
    using that by (induction rule: rtranclp_induct) (auto simp: start intro: shared_pool_step_inv)
  from this [OF assms(2)] assms(3) show ?thesis
    by (auto simp: pool_inv_def ledger_def list_all_iff lease_total_def)
qed

text \<open>C17. Taking over the state of Redis neither loses nor revives a lease: every lease the instance owns
  is still there, with the activity the instance saw, whatever Redis says; and a lease whose
  release was recorded in the last fifteen minutes does not come back, however old the state is,
  as long as the table of releases does not overflow.\<close>

theorem synchronisation_neither_loses_nor_revives_leases:
  assumes "length (tomb_order t) < TOMBSTONE_HARD_LIMIT"
    and "tomb_run start (record_released_in_flight_lease_tombstone start t cid lid) t'"
    and "now \<le> start + TOMBSTONE_TTL" "length (tomb_order t') \<le> TOMBSTONE_HARD_LIMIT"
    and "apply_scheduler_states F g a now_ms now states (t', entries) = (t'', entries')"
    and "i < length entries" "distinct (map lease_id (in_flight_leases (entries ! i)))"
  shows "(\<forall>l\<in>set (in_flight_leases (entries ! i)). locally_owned l \<longrightarrow>
      (\<exists>l'\<in>set (in_flight_leases (entries' ! i)). lease_id l' = lease_id l \<and>
        locally_owned l' \<and> last_seen_at l' = last_seen_at l)) \<and>
    (entry_id (entries ! i) = cid \<and> (\<forall>l\<in>set (in_flight_leases (entries ! i)). lease_id l = lid \<longrightarrow> \<not> locally_owned l) \<longrightarrow>
      lid \<notin> lease_id ` set (in_flight_leases (entries' ! i)))"
proof -
  let ?states = "snd (filter_released_scheduler_states now t' states)"
  let ?s = "case map_of ?states (entry_id (entries ! i)) of None \<Rightarrow> default_scheduler_state F | Some s \<Rightarrow> s"
  have e': "in_flight_leases (entries' ! i) =
      merged_in_flight_leases now_ms now a (in_flight_leases (entries ! i)) (st_in_flight_leases ?s)"
    using assms(5,6)
    by (auto simp: apply_scheduler_states_def apply_scheduler_states_with_global_rpm_def apply_state_leases
        case_prod_beta Let_def)
  have "entombed start t' (cid, lid)"
    using tomb_run_entombed [OF assms(2)] record_entombs [OF assms(1)] by blast
  from entombed_prune [OF this assms(3,4)] obtain at where
    "released_at (tombstone_prune t' now) (cid, lid) = Some at" by (auto simp: entombed_def)
  from filtered_lookup [OF this] have gone: "lid \<notin> sl_id ` set (st_in_flight_leases ?s)"
    if "entry_id (entries ! i) = cid"
    using that by (auto simp: default_scheduler_state_def split: option.splits)
  show ?thesis
    unfolding e' using merged_own [OF _ _ assms(7)] merged_without [OF gone] by blast
qed

subsection \<open>An instance and its snapshot\<close>

definition own_lease :: in_flight_lease where
  "own_lease = \<lparr>lease_id = 5, acquired_at = 0, last_seen_at = 0, lease_kind = Kind_Api, weight_units = 1,
     locally_owned = True\<rparr>"

definition stale_snapshot :: "unit scheduler_states" where
  "stale_snapshot = [(1, (default_scheduler_state unit_f64)\<lparr>st_in_flight_leases :=
     [\<lparr>sl_id = 2, sl_acquired_at_ms = 0, sl_last_seen_at_ms = 0, sl_kind = ''api'', sl_weight_units = 1\<rparr>]\<rparr>)]"

theorem synchronised_counter_is_the_sum_of_leases_witness:
  "list_all (\<lambda>e. unat (in_flight_requests e) = sum_list (map (\<lambda>l. unat (weight_units l)) (in_flight_leases e)))
     (snd (apply_scheduler_states unit_f64 0 None 0 0 stale_snapshot (tombstones_empty, [example_entry])))"
proof -
  let ?held = "apply_scheduler_states unit_f64 0 None 0 0 stale_snapshot (tombstones_empty, [example_entry])"
  have "shared_pool_step (tombstones_empty, [example_entry]) ?held"
    by (rule shared_pool_step.synced)
       (simp_all add: stale_snapshot_def snapshot_ok_def few_leases_def example_entry_def)
  then have "shared_pool_step\<^sup>*\<^sup>* (tombstones_empty, [example_entry]) (fst ?held, snd ?held)" by auto
  from synchronised_counter_is_the_sum_of_leases [OF _ this] show ?thesis
    unfolding list_all_iff by (simp add: example_entry_def)
qed

theorem synchronisation_neither_loses_nor_revives_leases_witness:
  "list_ex (\<lambda>l. lease_id l = 5 \<and> locally_owned l) (in_flight_leases (snd (apply_scheduler_states unit_f64 0 None 0 7
      stale_snapshot (record_released_in_flight_lease_tombstone 5 tombstones_empty 1 2,
        [example_entry\<lparr>in_flight_leases := [own_lease], in_flight_requests := 1\<rparr>])) ! 0)) \<and>
   2 \<notin> lease_id ` set (in_flight_leases (snd (apply_scheduler_states unit_f64 0 None 0 7
      stale_snapshot (record_released_in_flight_lease_tombstone 5 tombstones_empty 1 2,
        [example_entry\<lparr>in_flight_leases := [own_lease], in_flight_requests := 1\<rparr>])) ! 0))"
proof -
  let ?t = "record_released_in_flight_lease_tombstone 5 tombstones_empty 1 2"
  let ?es = "[example_entry\<lparr>in_flight_leases := [own_lease], in_flight_requests := 1\<rparr>]"
  have len: "length (tomb_order ?t) \<le> TOMBSTONE_HARD_LIMIT"
    by (simp add: tombstones_empty_def record_released_in_flight_lease_tombstone_def
      tombstone_prune_def tombstone_insert_def saturating_duration_since_def TOMBSTONE_TTL_def
      TOMBSTONE_HARD_LIMIT_def secs_def)
  obtain t'' es' where run: "apply_scheduler_states unit_f64 0 None 0 7 stale_snapshot (?t, ?es) = (t'', es')"
    by fastforce
  have "tomb_run 5 ?t ?t" by (rule tomb_run.start)
  from synchronisation_neither_loses_nor_revives_leases [OF _ this _ len run, of 0] show ?thesis
    unfolding run
    by (auto simp: tombstones_empty_def TOMBSTONE_HARD_LIMIT_def TOMBSTONE_TTL_def secs_def own_lease_def
        example_entry_def list_ex_iff)
qed

end
