(* ===== verification/Transient_Failures.thy ===== *)
theory Transient_Failures
  imports Account_Reports
begin

text \<open>
  What keeps an account out of the schedule for a while (\<open>src/kiro/token_manager/manager.rs\<close>): the
  cool-down after a transient upstream error (\<open>report_transient_failure_kind\<close>), with its back-off,
  the merging of errors of one wave and the cap while most of the pool cools; the degradation points
  of suspicious answers; and the local reservation of a selection in the window of requests per
  minute.

  The report takes the lock of the entries twice; here it is one step.  The write to Redis is the
  value handed to it.  \<open>powi\<close> and the rounding of \<open>f64\<close> to whole milliseconds are the record \<open>M\<close>, the
  random draw of the jitter an argument.
\<close>

subsection \<open>Settings\<close>

datatype transient_failure_kind = TF_RateLimit | TF_Server | TF_Network | TF_Stream | TF_Protocol | TF_Auth

fun transient_kind_as_str :: "transient_failure_kind \<Rightarrow> string" where
  "transient_kind_as_str TF_RateLimit = ''rate_limit''"
| "transient_kind_as_str TF_Server = ''server''"
| "transient_kind_as_str TF_Network = ''network''"
| "transient_kind_as_str TF_Stream = ''stream''"
| "transient_kind_as_str TF_Protocol = ''protocol''"
| "transient_kind_as_str TF_Auth = ''auth''"

record 'f cooldown_config =
  credential_rate_limit_cooldown_secs :: u64
  credential_server_error_cooldown_secs :: u64
  credential_network_error_cooldown_secs :: u64
  credential_stream_error_cooldown_secs :: u64
  credential_protocol_error_cooldown_secs :: u64
  credential_auth_error_cooldown_secs :: u64
  credential_max_cooldown_secs :: u64
  credential_cooldown_backoff_multiplier :: 'f
  credential_cooldown_jitter_percent :: u32
  credential_probation_secs :: u64
  cooldown_ewma_alpha :: 'f

record 'f float_math =
  f_powi :: "'f \<Rightarrow> nat \<Rightarrow> 'f"
  f_round_u64 :: "'f \<Rightarrow> nat"

record 'f transient_settings =
  ts_base :: duration
  ts_max :: duration
  ts_multiplier :: 'f
  ts_jitter :: 'f
  ts_probation :: duration
  ts_alpha :: 'f

definition POOL_WIDE_COOLDOWN_CAP :: duration where "POOL_WIDE_COOLDOWN_CAP = secs 5"

fun base_cooldown_secs :: "'f cooldown_config \<Rightarrow> transient_failure_kind \<Rightarrow> u64" where
  "base_cooldown_secs cfg TF_RateLimit = credential_rate_limit_cooldown_secs cfg"
| "base_cooldown_secs cfg TF_Server = credential_server_error_cooldown_secs cfg"
| "base_cooldown_secs cfg TF_Network = credential_network_error_cooldown_secs cfg"
| "base_cooldown_secs cfg TF_Stream = credential_stream_error_cooldown_secs cfg"
| "base_cooldown_secs cfg TF_Protocol = credential_protocol_error_cooldown_secs cfg"
| "base_cooldown_secs cfg TF_Auth = credential_auth_error_cooldown_secs cfg"

definition jitter_offset :: "'f f64 \<Rightarrow> 'f cooldown_config \<Rightarrow> 'f \<Rightarrow> 'f" where
  "jitter_offset F cfg draw =
     (let percent = f_div F (f_of_nat F (unat (min (credential_cooldown_jitter_percent cfg) 100))) (f_lit F 100 1)
      in if f_eq F percent (f_lit F 0 1) then f_lit F 0 1
         else f_sub F (f_mul F (f_mul F draw percent) (f_lit F 2 1)) percent)"

definition transient_failure_settings ::
    "'f f64 \<Rightarrow> 'f cooldown_config \<Rightarrow> 'f \<Rightarrow> transient_failure_kind \<Rightarrow> 'f transient_settings" where
  "transient_failure_settings F cfg draw kind =
     \<lparr>ts_base = secs (unat (max (base_cooldown_secs cfg kind) 1)),
      ts_max = secs (unat (max (credential_max_cooldown_secs cfg) 1)),
      ts_multiplier = f_max F (credential_cooldown_backoff_multiplier cfg) (f_lit F 1 1),
      ts_jitter = f_add F (f_lit F 1 1) (jitter_offset F cfg draw),
      ts_probation = secs (unat (credential_probation_secs cfg)),
      ts_alpha = f_clamp F (f_lit F 1 100) (f_lit F 1 1) (cooldown_ewma_alpha cfg)\<rparr>"

definition local_cooldown_duration ::
    "'f f64 \<Rightarrow> 'f float_math \<Rightarrow> duration option \<Rightarrow> 'f transient_settings \<Rightarrow> u32 \<Rightarrow> duration" where
  "local_cooldown_duration F M retry_after ts streak =
     (let requested = (case retry_after of Some d \<Rightarrow> d | None \<Rightarrow>
            let ms = f_mul F (f_mul F (f_of_nat F (ts_base ts div 1000000))
                  (f_powi M (ts_multiplier ts) (unat (min (sat_sub streak 1) 20)))) (ts_jitter ts)
            in millis (f_round_u64 M (f_max F ms (f_lit F 1 1))))
      in clamp (secs 1) (ts_max ts) requested)"

definition transient_failure_coalesce_window :: "duration \<Rightarrow> duration" where
  "transient_failure_coalesce_window base = clamp (secs 1) (secs 5) base"

subsection \<open>The report of a transient failure\<close>

definition scope_of_model :: "string option \<Rightarrow> string option" where
  "scope_of_model model = (case model of None \<Rightarrow> None
     | Some m \<Rightarrow> if trim m = [] then None else Some (trim m))"

definition existing_until :: "'f credential_entry \<Rightarrow> string option \<Rightarrow> instant option" where
  "existing_until e model = (case map_option model_state_key model of
       Some key \<Rightarrow> map_option mc_until (map_of (model_cooldowns e) key)
     | None \<Rightarrow> cooldown_until e)"

definition health_of_scope :: "'f f64 \<Rightarrow> string option \<Rightarrow> 'f credential_entry \<Rightarrow> 'f scheduler_health_state" where
  "health_of_scope F model e = (case map_option model_state_key model of
       Some key \<Rightarrow> (case model_health e key of None \<Rightarrow> default_health F | Some h \<Rightarrow> h)
     | None \<Rightarrow> health e)"

definition is_pool_wide ::
    "transient_failure_kind \<Rightarrow> u64 \<Rightarrow> string option \<Rightarrow> instant \<Rightarrow> 'f credential_entry list \<Rightarrow> bool" where
  "is_pool_wide kind cid model now entries \<longleftrightarrow> kind \<noteq> TF_Auth \<and>
     (let others = filter (\<lambda>e. entry_id e \<noteq> cid \<and> \<not> disabled e) entries;
          cooling = filter (\<lambda>e. entry_cooldown_remaining e model now \<noteq> None) others
      in length others > 0 \<and> length cooling * 2 \<ge> length others)"

definition same_wave ::
    "transient_failure_kind \<Rightarrow> duration option \<Rightarrow> duration \<Rightarrow> instant option \<Rightarrow> clock_reading \<Rightarrow>
     'f scheduler_health_state \<Rightarrow> bool" where
  "same_wave kind retry_after window existing now h \<longleftrightarrow>
     retry_after = None \<and> (case existing of None \<Rightarrow> False | Some until \<Rightarrow> until > ck_instant now) \<and>
     last_error_kind h = Some (transient_kind_as_str kind) \<and>
     (case last_error_at_ms h of None \<Rightarrow> False
      | Some at_last \<Rightarrow> ck_millis now \<ge> at_last \<and> ck_millis now - at_last \<le> int (window div 1000000))"

definition streak_after :: "bool \<Rightarrow> u32 \<Rightarrow> u32" where
  "streak_after coalesced n = (if coalesced then max n 1 else sat_add n 1)"

definition pool_wide_duration :: "u64 \<Rightarrow> int \<Rightarrow> duration" where
  "pool_wide_duration cid now_ms =
     (let spread_ms = word_of_nat (POOL_WIDE_COOLDOWN_CAP div 1000000) :: u64;
          offset_ms = (cid * 0x9e3779b97f4a7c15 + word_of_int now_ms div 1000) mod max spread_ms 1
      in POOL_WIDE_COOLDOWN_CAP + millis (unat offset_ms))"

definition cooldown_until_after :: "bool \<Rightarrow> instant option \<Rightarrow> instant \<Rightarrow> instant" where
  "cooldown_until_after coalesced existing candidate = (case existing of
       None \<Rightarrow> candidate
     | Some u \<Rightarrow> if coalesced then u else if u \<ge> candidate then u else candidate)"

definition store_cooldown ::
    "string option \<Rightarrow> instant \<Rightarrow> string \<Rightarrow> 'f credential_entry \<Rightarrow> 'f credential_entry" where
  "store_cooldown model until reason e = (case model of
       Some m \<Rightarrow> (case map_of (model_cooldowns e) (model_state_key m) of
           Some c \<Rightarrow> if until > mc_until c then e\<lparr>model_cooldowns := AList.update (model_state_key m)
               \<lparr>mc_model = m, mc_until = until, mc_reason = Some reason\<rparr> (model_cooldowns e)\<rparr> else e
         | None \<Rightarrow> e\<lparr>model_cooldowns := AList.update (model_state_key m)
               \<lparr>mc_model = m, mc_until = until, mc_reason = Some reason\<rparr> (model_cooldowns e)\<rparr>)
     | None \<Rightarrow> if (case cooldown_until e of None \<Rightarrow> True | Some u \<Rightarrow> until > u)
         then e\<lparr>cooldown_until := Some until, cooldown_reason := Some reason\<rparr> else e)"

definition health_after_transient ::
    "'f f64 \<Rightarrow> 'f \<Rightarrow> transient_failure_kind \<Rightarrow> string \<Rightarrow> clock_reading \<Rightarrow> bool \<Rightarrow> int \<Rightarrow>
     'f scheduler_health_state \<Rightarrow> 'f scheduler_health_state" where
  "health_after_transient F alpha kind reason now coalesced block_ms h =
     h\<lparr>transient_failure_streak := streak_after coalesced (transient_failure_streak h),
       recent_error_rate := f_add F (recent_error_rate h)
         (f_mul F alpha (f_sub F (f_lit F 1 1) (recent_error_rate h))),
       last_error_kind := Some (transient_kind_as_str kind),
       last_error_reason := Some reason,
       last_error_at_ms := Some (ck_millis now),
       probation_until_ms := Some (max (case probation_until_ms h of None \<Rightarrow> 0 | Some t \<Rightarrow> t)
         (ck_millis now + block_ms))\<rparr>"

record transient_outcome =
  to_duration :: duration
  to_coalesced :: bool
  to_redis_retry_after :: "duration option"

definition transient_failure_on_entry ::
    "'f f64 \<Rightarrow> 'f float_math \<Rightarrow> 'f transient_settings \<Rightarrow> clock_reading \<Rightarrow> string option \<Rightarrow>
     transient_failure_kind \<Rightarrow> duration option \<Rightarrow> string \<Rightarrow> bool \<Rightarrow> 'f credential_entry \<Rightarrow>
     transient_outcome \<times> 'f credential_entry" where
  "transient_failure_on_entry F M ts now model kind retry_after reason pool_wide e =
     (let model = scope_of_model model;
          existing = existing_until e model;
          h = health_of_scope F model e;
          coalesced = same_wave kind retry_after (transient_failure_coalesce_window (ts_base ts)) existing now h;
          streak = streak_after coalesced (transient_failure_streak h);
          own = local_cooldown_duration F M retry_after ts streak;
          capped = (pool_wide \<and> retry_after = None \<and> own > POOL_WIDE_COOLDOWN_CAP);
          duration = (if capped then pool_wide_duration (entry_id e) (ck_millis now) else own);
          until = cooldown_until_after coalesced existing (ck_instant now + duration);
          left = saturating_duration_since until (ck_instant now);
          e = store_cooldown model until reason e;
          block_ms = int (left div 1000000) + int (ts_probation ts div 1000000);
          e = update_effective_health F model
                (health_after_transient F (ts_alpha ts) kind reason now coalesced block_ms) e
      in (\<lparr>to_duration = left, to_coalesced = coalesced,
            to_redis_retry_after = (if capped then Some duration else retry_after)\<rparr>,
          e\<lparr>entry_last_used_at := Some (ck_rfc3339 now)\<rparr>))"

definition report_transient_failure_kind ::
    "'f f64 \<Rightarrow> 'f float_math \<Rightarrow> 'f cooldown_config \<Rightarrow> 'f \<Rightarrow> dispatch_env \<Rightarrow> clock_reading \<Rightarrow> u64 \<Rightarrow>
     string option \<Rightarrow> transient_failure_kind \<Rightarrow> duration option \<Rightarrow> string \<Rightarrow> 'f credential_entry list \<Rightarrow>
     bool \<times> transient_outcome option \<times> 'f credential_entry list" where
  "report_transient_failure_kind F M cfg draw v now cid model kind retry_after reason entries =
     (case find (has_id cid) entries of
        None \<Rightarrow> (any_scheduler_available entries, None, entries)
      | Some e \<Rightarrow>
          if disabled e then (any_scheduler_available entries, None, entries)
          else
            let run = transient_failure_on_entry F M (transient_failure_settings F cfg draw kind) now model
                  kind retry_after reason (is_pool_wide kind cid model (ck_instant now) entries);
                entries' = find_update (has_id cid) (\<lambda>e. snd (run e)) entries
            in (list_ex (\<lambda>e. entry_id e \<noteq> cid \<and>
                  credential_is_dispatchable (v\<lparr>req_model := model, env_weight := 1\<rparr>) e) entries',
                Some (fst (run e)), entries'))"

subsection \<open>Degradation points and the hint for clients\<close>

definition record_degrade_failure ::
    "'f f64 \<Rightarrow> 'f success_config \<Rightarrow> int \<Rightarrow> u64 \<Rightarrow> string option \<Rightarrow> 'f \<Rightarrow> 'f credential_entry list \<Rightarrow>
     'f credential_entry list" where
  "record_degrade_failure F cfg now_ms cid model weight entries =
     (if f_is_nan F weight \<or> f_le F weight (f_lit F 0 1) then entries
      else if \<not> credential_degrade_enabled cfg then entries
      else find_update (has_id cid) (\<lambda>e. e\<lparr>degrade_scores := add_failure F (degrade_scores e) model weight now_ms
        (f_mul F (f_of_nat F (unat (max (credential_degrade_half_life_secs cfg) 1))) (f_lit F 1000 1))
        (credential_degrade_suspend_score cfg)\<rparr>) entries)"

definition cooldown_retry_after_hint_secs :: "instant \<Rightarrow> nat \<Rightarrow> 'f credential_entry list \<Rightarrow> nat" where
  "cooldown_retry_after_hint_secs now fallback_secs entries =
     (let waits = List.map_filter (\<lambda>e. map_option (\<lambda>d. d div secs 1 + 1) (entry_any_cooldown_remaining e now))
            (filter (\<lambda>e. \<not> disabled e) entries)
      in max (case min_option waits of None \<Rightarrow> max fallback_secs 1 | Some n \<Rightarrow> n) 1)"

subsection \<open>The window of requests per minute\<close>

definition later_of :: "instant option \<Rightarrow> instant \<Rightarrow> instant" where
  "later_of current available = (case current of None \<Rightarrow> available | Some c \<Rightarrow> max c available)"

definition apply_rate_limit_available_at_for_credential ::
    "u64 \<Rightarrow> instant \<Rightarrow> 'f credential_entry list \<Rightarrow> 'f credential_entry list" where
  "apply_rate_limit_available_at_for_credential cid available entries =
     find_update (has_id cid)
       (\<lambda>e. e\<lparr>rate_limit_available_at := Some (later_of (rate_limit_available_at e) available)\<rparr>) entries"

definition mark_rate_limited_at ::
    "u32 \<Rightarrow> u64 \<Rightarrow> instant \<Rightarrow> 'f credential_entry list \<Rightarrow> 'f credential_entry list" where
  "mark_rate_limited_at global_rpm cid now entries =
     find_update (has_id cid) (\<lambda>e. e\<lparr>rate_limit_available_at :=
       (if rate_limit_interval_for_rpm (effective_rpm e global_rpm) = None then None
        else map_option (\<lambda>d. now + d) (entry_rate_limit_window_remaining e global_rpm now))\<rparr>) entries"

datatype selection_admission = Selection_LocallyRecorded | Selection_RateLimited duration instant

definition reserve_on_entry ::
    "u32 \<Rightarrow> u32 \<Rightarrow> instant \<Rightarrow> 'f credential_entry \<Rightarrow> selection_admission \<times> 'f credential_entry" where
  "reserve_on_entry global_rpm weight now e =
     (let limit = effective_rpm e global_rpm;
          first_in_window = partition_point
            (\<lambda>selected_at. secs 60 < saturating_duration_since now selected_at) (selection_events e);
          in_window = length (selection_events e) - first_in_window
      in if limit > 0 \<and> unat limit < in_window + unat (effective_weight_for_limit weight limit)
         then let available = (case entry_rate_limit_window_remaining e global_rpm now of
                    None \<Rightarrow> now + secs 1 | Some d \<Rightarrow> now + d)
              in (Selection_RateLimited (saturating_duration_since available now) available,
                  e\<lparr>rate_limit_available_at := Some (later_of (rate_limit_available_at e) available)\<rparr>)
         else (Selection_LocallyRecorded, record_local_selection e now weight))"

definition reserve_local_selection ::
    "u32 \<Rightarrow> u64 \<Rightarrow> u32 \<Rightarrow> instant \<Rightarrow> 'f credential_entry list \<Rightarrow>
     selection_admission \<times> 'f credential_entry list" where
  "reserve_local_selection global_rpm cid request_weight now entries =
     (let weight = normalize_capacity_weight_units request_weight
      in case find (has_id cid) entries of
           None \<Rightarrow> (Selection_LocallyRecorded, entries)
         | Some e \<Rightarrow> (fst (reserve_on_entry global_rpm weight now e),
             find_update (has_id cid) (\<lambda>e. snd (reserve_on_entry global_rpm weight now e)) entries))"

subsection \<open>Lemmas on cool-downs\<close>

lemma settings_max: "secs 1 \<le> ts_max (transient_failure_settings F cfg draw kind)"
proof -
  have "1 \<le> unat (max (credential_max_cooldown_secs cfg) 1)"
    by (simp add: max_def word_le_nat_alt [symmetric] word_le_nat_alt)
  then show ?thesis by (simp add: transient_failure_settings_def secs_def)
qed

lemma own_duration_bounds:
  assumes "secs 1 \<le> ts_max ts"
  shows "secs 1 \<le> local_cooldown_duration F M retry_after ts streak \<and>
    local_cooldown_duration F M retry_after ts streak \<le> ts_max ts"
  using clamp_bounds [OF assms] by (simp add: local_cooldown_duration_def Let_def)

lemma pool_wide_duration_bounds:
  "POOL_WIDE_COOLDOWN_CAP \<le> pool_wide_duration cid now_ms \<and> pool_wide_duration cid now_ms < 2 * POOL_WIDE_COOLDOWN_CAP"
proof -
  have "unat (x mod 5000 :: u64) < 5000" for x
    by (simp add: unat_mod)
  then show ?thesis
    by (simp add: pool_wide_duration_def POOL_WIDE_COOLDOWN_CAP_def secs_def millis_def max_def)
qed

lemma existing_until_health [simp]:
  "existing_until (update_effective_health F m f e) model = existing_until e model"
  "existing_until (e\<lparr>entry_last_used_at := u\<rparr>) model = existing_until e model"
  by (auto simp: existing_until_def update_effective_health_def split: option.splits)

lemma stored_until:
  assumes "\<And>u0. existing_until e model = Some u0 \<Longrightarrow> u0 \<le> until"
  shows "existing_until (store_cooldown model until reason e) model = Some until"
  using assms
  by (auto simp: existing_until_def store_cooldown_def AList.update_conv' le_less split: option.splits)

lemma cooldown_until_after_bounds:
  assumes "now < candidate" "coalesced \<Longrightarrow> \<exists>u. existing = Some u \<and> now < u"
  shows "now < cooldown_until_after coalesced existing candidate"
    "existing = Some u0 \<Longrightarrow> u0 \<le> cooldown_until_after coalesced existing candidate"
    "cooldown_until_after coalesced existing candidate \<le> max (case existing of None \<Rightarrow> 0 | Some u0 \<Rightarrow> u0) candidate"
  using assms by (auto simp: cooldown_until_after_def split: option.splits)

lemma cooling_until:
  assumes "existing_until e (scope_of_model model) = Some u" "t \<le> u"
  shows "entry_cooldown_remaining e model t \<noteq> None"
proof -
  have "longer_wait a b \<noteq> None" if "a \<noteq> None \<or> b \<noteq> None" for a b :: "duration option"
    using that by (cases a; cases b) simp_all
  moreover have "entry_global_cooldown_remaining e t \<noteq> None \<or> entry_model_cooldown_remaining e model t \<noteq> None"
    using assms
    by (auto simp: existing_until_def scope_of_model_def entry_global_cooldown_remaining_def model_state_key_def
        entry_model_cooldown_remaining_def entry_model_cooldown_def checked_duration_since_def
        split: option.splits if_splits)
  ultimately show ?thesis by (simp add: entry_cooldown_remaining_def)
qed

lemma store_cooldown_fields [simp]:
  "failure_count (store_cooldown model until reason e) = failure_count e"
  "disabled (store_cooldown model until reason e) = disabled e"
  "entry_id (store_cooldown model until reason e) = entry_id e"
  by (auto simp: store_cooldown_def split: option.splits)

lemma update_health_fields [simp]:
  "failure_count (update_effective_health F model f e) = failure_count e"
  "disabled (update_effective_health F model f e) = disabled e"
  "entry_id (update_effective_health F model f e) = entry_id e"
  by (auto simp: update_effective_health_def split: option.splits)

lemma transient_on_entry:
  fixes F M ts now model kind retry_after reason pool_wide e
  assumes "secs 1 \<le> ts_max ts"
  defines "r \<equiv> transient_failure_on_entry F M ts now model kind retry_after reason pool_wide e"
    and "old \<equiv> (case existing_until e (scope_of_model model) of None \<Rightarrow> 0 | Some u0 \<Rightarrow> u0)"
  shows "\<exists>u. existing_until (snd r) (scope_of_model model) = Some u \<and> ck_instant now < u \<and> old \<le> u \<and>
      u \<le> max old (ck_instant now + max (ts_max ts) (2 * POOL_WIDE_COOLDOWN_CAP)) \<and>
      (pool_wide \<and> retry_after = None \<longrightarrow> u \<le> max old (ck_instant now + 2 * POOL_WIDE_COOLDOWN_CAP)) \<and>
      (to_coalesced (fst r) \<longrightarrow> u = old) \<and> to_duration (fst r) = u - ck_instant now"
    "failure_count (snd r) = failure_count e" "disabled (snd r) = disabled e" "entry_id (snd r) = entry_id e"
proof -
  define scope where "scope = scope_of_model model"
  define h where "h = health_of_scope F scope e"
  define co where "co = same_wave kind retry_after (transient_failure_coalesce_window (ts_base ts))
    (existing_until e scope) now h"
  define own where "own = local_cooldown_duration F M retry_after ts (streak_after co (transient_failure_streak h))"
  define d where "d = (if pool_wide \<and> retry_after = None \<and> own > POOL_WIDE_COOLDOWN_CAP
    then pool_wide_duration (entry_id e) (ck_millis now) else own)"
  define u where "u = cooldown_until_after co (existing_until e scope) (ck_instant now + d)"
  have own: "secs 1 \<le> own" "own \<le> ts_max ts"
    using own_duration_bounds [OF assms(1)] by (simp_all add: own_def)
  have d: "0 < d" "d \<le> max (ts_max ts) (2 * POOL_WIDE_COOLDOWN_CAP)"
    "pool_wide \<and> retry_after = None \<Longrightarrow> d \<le> 2 * POOL_WIDE_COOLDOWN_CAP"
    using own pool_wide_duration_bounds [of "entry_id e" "ck_millis now"]
    by (auto simp: d_def secs_def POOL_WIDE_COOLDOWN_CAP_def)
  have wave: "co \<Longrightarrow> \<exists>u. existing_until e scope = Some u \<and> ck_instant now < u"
    by (auto simp: co_def same_wave_def split: option.splits)
  have bounds: "ck_instant now < u" "existing_until e scope = Some u0 \<Longrightarrow> u0 \<le> u"
    "u \<le> max old (ck_instant now + d)" for u0
    using cooldown_until_after_bounds [OF _ wave] d(1)
    by (simp_all add: u_def old_def scope_def)
  have r: "snd r = (update_effective_health F scope (health_after_transient F (ts_alpha ts) kind reason now co
      (int ((u - ck_instant now) div 1000000) + int (ts_probation ts div 1000000)))
      (store_cooldown scope u reason e))\<lparr>entry_last_used_at := Some (ck_rfc3339 now)\<rparr>"
    and o: "to_coalesced (fst r) = co" "to_duration (fst r) = u - ck_instant now"
    unfolding r_def transient_failure_on_entry_def Let_def scope_def h_def co_def own_def d_def u_def
      saturating_duration_since_def by (simp_all only: prod.sel transient_outcome.select_convs)
  have "existing_until (snd r) scope = Some u"
    unfolding r using stored_until [of e scope u reason] bounds(2) by simp
  moreover have "u = old" if co
    using wave [OF that] that by (auto simp: u_def old_def scope_def cooldown_until_after_def)
  moreover have "old \<le> u" using bounds(2) by (auto simp: old_def scope_def split: option.splits)
  ultimately show "\<exists>u. existing_until (snd r) (scope_of_model model) = Some u \<and> ck_instant now < u \<and> old \<le> u \<and>
      u \<le> max old (ck_instant now + max (ts_max ts) (2 * POOL_WIDE_COOLDOWN_CAP)) \<and>
      (pool_wide \<and> retry_after = None \<longrightarrow> u \<le> max old (ck_instant now + 2 * POOL_WIDE_COOLDOWN_CAP)) \<and>
      (to_coalesced (fst r) \<longrightarrow> u = old) \<and> to_duration (fst r) = u - ck_instant now"
    using bounds(1,3) d(2,3) o by (intro exI [of _ u]) (auto simp: scope_def)
  show "failure_count (snd r) = failure_count e" "disabled (snd r) = disabled e" "entry_id (snd r) = entry_id e"
    by (simp_all add: r)
qed

lemma find_updated:
  assumes "find (has_id cid) entries = Some e" "entry_id (f e) = entry_id e"
  shows "find (has_id cid) (find_update (has_id cid) f entries) = Some (f e)"
  using assms by (induction entries) (auto split: if_splits)

subsection \<open>Lemmas on the window\<close>

lemma clamp_idem: "clamp 1 64 (clamp 1 64 (w :: u32)) = clamp 1 64 w"
  by (auto simp: clamp_def)

lemma reserve_on_entry_cases:
  fixes now weight
  assumes "sorted (selection_events e)" "effective_rpm e g > 0"
  defines "n \<equiv> within RPM_WINDOW now (selection_events e)" and "lim \<equiv> unat (effective_rpm e g)"
    and "w \<equiv> unat (clamp 1 64 weight)"
  shows "fst (reserve_on_entry g (clamp 1 64 weight) now e) = Selection_LocallyRecorded \<longleftrightarrow> n + min w lim \<le> lim"
    "snd (reserve_on_entry g (clamp 1 64 weight) now e) =
      (if n + min w lim \<le> lim then record_local_selection e now (clamp 1 64 weight)
       else e\<lparr>rate_limit_available_at := Some (later_of (rate_limit_available_at e)
         (case entry_rate_limit_window_remaining e g now of None \<Rightarrow> now + secs 1 | Some d \<Rightarrow> now + d))\<rparr>)"
proof -
  have count: "length (selection_events e) - partition_point
      (\<lambda>selected_at. secs 60 < saturating_duration_since now selected_at) (selection_events e) = n"
    using length_after_partition_point [OF assms(1), of RPM_WINDOW now]
    by (simp add: n_def aged_def [abs_def] RPM_WINDOW_def)
  have weight: "unat (effective_weight_for_limit (clamp 1 64 weight) (effective_rpm e g)) = min w lim"
    using assms(2)
    by (simp add: effective_weight_for_limit_def normalize_capacity_weight_units_def clamp_idem w_def lim_def
        min_def word_le_nat_alt)
  show "fst (reserve_on_entry g (clamp 1 64 weight) now e) = Selection_LocallyRecorded \<longleftrightarrow> n + min w lim \<le> lim"
    "snd (reserve_on_entry g (clamp 1 64 weight) now e) =
      (if n + min w lim \<le> lim then record_local_selection e now (clamp 1 64 weight)
       else e\<lparr>rate_limit_available_at := Some (later_of (rate_limit_available_at e)
         (case entry_rate_limit_window_remaining e g now of None \<Rightarrow> now + secs 1 | Some d \<Rightarrow> now + d))\<rparr>)"
    unfolding reserve_on_entry_def Let_def count weight using assms(2) by (auto simp: lim_def)
qed

subsection \<open>Properties\<close>

text \<open>C18. A transient error takes an enabled account out of the schedule for the model it concerns, and
  only for a bounded time: the cool-down ends after the present and never earlier than one already
  running; it lasts at most the configured maximum or twice the cap of pool-wide errors, whichever
  is longer, and at most twice the cap when most of the pool cools and the upstream named no delay;
  an error of the same wave leaves it as it is.  The account is neither disabled nor charged with a
  failure.\<close>

theorem transient_failure_cools_the_account:
  assumes "find (has_id cid) entries = Some e" "\<not> disabled e"
    and "report_transient_failure_kind F M cfg draw v now cid model kind retry_after reason entries = (alt, out, entries')"
  defines "old \<equiv> (case existing_until e (scope_of_model model) of None \<Rightarrow> 0 | Some u0 \<Rightarrow> u0)"
    and "longest \<equiv> secs (unat (max (credential_max_cooldown_secs cfg) 1))"
  shows "\<exists>e' res u. find (has_id cid) entries' = Some e' \<and> out = Some res \<and>
    existing_until e' (scope_of_model model) = Some u \<and> ck_instant now < u \<and> old \<le> u \<and>
    u \<le> max old (ck_instant now + max longest (2 * POOL_WIDE_COOLDOWN_CAP)) \<and>
    (is_pool_wide kind cid model (ck_instant now) entries \<and> retry_after = None \<longrightarrow>
      u \<le> max old (ck_instant now + 2 * POOL_WIDE_COOLDOWN_CAP)) \<and>
    (to_coalesced res \<longrightarrow> u = old) \<and>
    (\<forall>t\<le>u. entry_cooldown_remaining e' model t \<noteq> None) \<and>
    failure_count e' = failure_count e \<and> \<not> disabled e'"
proof -
  let ?ts = "transient_failure_settings F cfg draw kind"
  let ?run = "transient_failure_on_entry F M ?ts now model kind retry_after reason
    (is_pool_wide kind cid model (ck_instant now) entries)"
  have out: "out = Some (fst (?run e))" and ents: "entries' = find_update (has_id cid) (\<lambda>e. snd (?run e)) entries"
    using assms(1-3) by (auto simp: report_transient_failure_kind_def Let_def)
  note on = transient_on_entry [OF settings_max [of F cfg draw kind], where M = M and e = e and now = now
      and model = model and kind = kind and retry_after = retry_after and reason = reason
      and pool_wide = "is_pool_wide kind cid model (ck_instant now) entries" and F = F]
  have found: "find (has_id cid) entries' = Some (snd (?run e))"
    unfolding ents by (rule find_updated [OF assms(1)]) (rule on(4))
  have max: "ts_max ?ts = longest" by (simp add: transient_failure_settings_def longest_def)
  from on(1) [unfolded max, folded old_def] obtain u where u:
    "existing_until (snd (?run e)) (scope_of_model model) = Some u" "ck_instant now < u" "old \<le> u"
    "u \<le> max old (ck_instant now + max longest (2 * POOL_WIDE_COOLDOWN_CAP))"
    "is_pool_wide kind cid model (ck_instant now) entries \<and> retry_after = None \<longrightarrow>
      u \<le> max old (ck_instant now + 2 * POOL_WIDE_COOLDOWN_CAP)"
    "to_coalesced (fst (?run e)) \<longrightarrow> u = old" by blast
  show ?thesis
    by (intro exI [of _ "snd (?run e)"] exI [of _ "fst (?run e)"] exI [of _ u])
       (simp add: found out u on(2,3) assms(2) cooling_until [OF u(1)])
qed

text \<open>C19. On a single instance the limit of requests per minute holds for what is dispatched: a selection
  is recorded exactly if its weight, counted at most as the limit itself, still fits into the last
  sixty seconds; then the window holds at most the limit, unless the request was the only one in it.
  A refused request leaves the window alone and is told a time that is not before any other limit
  known for the account.\<close>

theorem local_reservation_respects_the_rate:
  assumes "find (has_id cid) entries = Some e" "sorted (selection_events e)" "effective_rpm e g > 0"
    and "reserve_local_selection g cid weight now entries = (adm, entries')"
  defines "n \<equiv> within RPM_WINDOW now (selection_events e)" and "lim \<equiv> unat (effective_rpm e g)"
    and "w \<equiv> unat (clamp 1 64 weight)"
  shows "\<exists>e'. find (has_id cid) entries' = Some e' \<and>
    (if n + min w lim \<le> lim
     then adm = Selection_LocallyRecorded \<and>
       within RPM_WINDOW now (selection_events e') = n + w \<and> (n + w \<le> lim \<or> n = 0)
     else (\<exists>wait at. adm = Selection_RateLimited wait at) \<and> selection_events e' = selection_events e \<and>
       (\<exists>at. rate_limit_available_at e' = Some at \<and> now \<le> at \<and> (\<forall>at0. rate_limit_available_at e = Some at0 \<longrightarrow> at0 \<le> at)))"
proof -
  let ?run = "reserve_on_entry g (clamp 1 64 weight) now"
  have adm: "adm = fst (?run e)" and ents: "entries' = find_update (has_id cid) (\<lambda>e. snd (?run e)) entries"
    using assms(1,4) by (auto simp: reserve_local_selection_def normalize_capacity_weight_units_def Let_def)
  note on = reserve_on_entry_cases [OF assms(2,3), where now = now and weight = weight, folded n_def lim_def w_def]
  have "entry_id (snd (?run e)) = entry_id e"
    by (simp add: on(2) record_local_selection_def prune_local_selection_events_def Let_def)
  then have found: "find (has_id cid) entries' = Some (snd (?run e))"
    unfolding ents by (rule find_updated [OF assms(1)])
  have rec: "within RPM_WINDOW now (selection_events (record_local_selection e now (clamp 1 64 weight))) = n + w"
    using record_local_selection_within [OF assms(2), of RPM_WINDOW now "clamp 1 64 weight"]
    by (simp add: n_def w_def clamp_idem RPM_WINDOW_def SELECTION_WINDOW_5M_def secs_def)
  show ?thesis
  proof (cases "n + min w lim \<le> lim")
    case True
    then show ?thesis using found adm on rec by (auto simp: min_def split: if_splits)
  next
    case False
    then have "\<exists>wait at. adm = Selection_RateLimited wait at"
      using adm on(1) by (metis selection_admission.exhaust)
    with False show ?thesis using found on(2) by (auto simp: later_of_def split: option.splits)
  qed
qed

subsection \<open>A pool of two accounts\<close>

definition six_seconds :: "unit float_math" where
  "six_seconds = \<lparr>f_powi = \<lambda>_ _. (), f_round_u64 = \<lambda>_. 6000\<rparr>"

definition short_maximum :: "unit cooldown_config" where
  "short_maximum = \<lparr>credential_rate_limit_cooldown_secs = 6, credential_server_error_cooldown_secs = 6,
     credential_network_error_cooldown_secs = 6, credential_stream_error_cooldown_secs = 6,
     credential_protocol_error_cooldown_secs = 6, credential_auth_error_cooldown_secs = 6,
     credential_max_cooldown_secs = 6, credential_cooldown_backoff_multiplier = (),
     credential_cooldown_jitter_percent = 0, credential_probation_secs = 0, cooldown_ewma_alpha = ()\<rparr>"

definition no_limits :: dispatch_env where
  "no_limits = \<lparr>proxy_resources = Map.empty, req_model = None, env_now = 0, env_clock = 0,
     env_max_concurrent = 0, env_rpm = 0, env_weight = 1, env_tiers = Map.empty, env_excluded = {},
     env_lowercase = id\<rparr>"

definition noon :: clock_reading where
  "noon = \<lparr>ck_instant = secs 100, ck_millis = 0, ck_rfc3339 = ''t''\<rparr>"

definition reported_in :: "unit credential_entry list \<Rightarrow> bool \<times> transient_outcome option \<times> unit credential_entry list" where
  "reported_in entries = report_transient_failure_kind unit_f64 six_seconds short_maximum () no_limits noon 1 None
     TF_Server None ''502'' entries"

definition cooling_neighbour :: "unit credential_entry" where
  "cooling_neighbour = example_entry\<lparr>entry_id := 2, cooldown_until := Some (secs 200)\<rparr>"

lemmas transient_defs = reported_in_def report_transient_failure_kind_def transient_failure_on_entry_def
  transient_failure_settings_def local_cooldown_duration_def is_pool_wide_def pool_wide_duration_def
  POOL_WIDE_COOLDOWN_CAP_def scope_of_model_def existing_until_def same_wave_def cooldown_until_after_def
  noon_def six_seconds_def short_maximum_def no_limits_def example_entry_def Let_def clamp_def secs_def millis_def
  saturating_duration_since_def

lemma cap_for_account_1: "pool_wide_duration 1 0 = millis 8485"
  by (simp add: pool_wide_duration_def POOL_WIDE_COOLDOWN_CAP_def secs_def millis_def)

text \<open>The cap on cool-downs while most of the pool cools can lengthen one: with a configured maximum of
  six seconds an account cools six seconds when it fails alone and eight and a half when its
  neighbour cools as well.\<close>

theorem pool_wide_cap_lengthens_a_cooldown:
  "map_option to_duration (fst (snd (reported_in [example_entry]))) = Some (secs 6) \<and>
   map_option to_duration (fst (snd (reported_in [example_entry, cooling_neighbour]))) = Some (millis 8485)"
  using cap_for_account_1
  by (simp add: transient_defs cooling_neighbour_def entry_cooldown_remaining_def longer_wait_def
      entry_global_cooldown_remaining_def entry_model_cooldown_remaining_def entry_model_cooldown_def
      checked_duration_since_def)

theorem transient_failure_cools_the_account_witness:
  "\<exists>e'. find (has_id 1) (snd (snd (reported_in [example_entry]))) = Some e' \<and>
     entry_cooldown_remaining e' None (secs 100) \<noteq> None"
proof -
  obtain alt out es where run: "reported_in [example_entry] = (alt, out, es)" by (cases "reported_in [example_entry]")
  have "find (has_id 1) [example_entry] = Some example_entry" "\<not> disabled example_entry"
    by (simp_all add: example_entry_def)
  from transient_failure_cools_the_account [OF this run [unfolded reported_in_def]] show ?thesis
    unfolding run by (auto simp: noon_def less_imp_le)
qed

theorem local_reservation_respects_the_rate_witness:
  "\<exists>e'. find (has_id 1) (snd (reserve_local_selection 0 1 1 (secs 75) [example_entry])) = Some e' \<and>
     within RPM_WINDOW (secs 75) (selection_events e') = 2"
proof -
  obtain adm es where run: "reserve_local_selection 0 1 1 (secs 75) [example_entry] = (adm, es)" by fastforce
  have "find (has_id 1) [example_entry] = Some example_entry" "sorted (selection_events example_entry)"
    "effective_rpm example_entry 0 > 0"
    by (simp_all add: example_entry_def example_credentials_def effective_rpm_def secs_def)
  from local_reservation_respects_the_rate [OF this run] show ?thesis
    unfolding run
    by (auto simp: example_entry_def example_credentials_def effective_rpm_def within_def RPM_WINDOW_def secs_def clamp_def)
qed

end
