(* ===== verification/Dispatch_Progress.thy ===== *)
theory Dispatch_Progress
  imports Request_Admission
begin

text \<open>
  How fast the queue moves (\<open>src/kiro/token_manager/dispatch_progress.rs\<close>): the window of recent
  dispatches, the time of the last one, the recent rate and the delay a client is told when the queue
  is full.  \<open>record_dispatch\<close> takes two locks in turn; its halves are functions of their own.  The
  division, comparison and rounding up of \<open>f64\<close> are arguments.
\<close>

definition RATE_WINDOW :: duration where "RATE_WINDOW = secs 30"
definition SHORT_RATE_HORIZON :: duration where "SHORT_RATE_HORIZON = secs 5"
definition MIN_RATE_SPAN :: duration where "MIN_RATE_SPAN = secs 1"
definition MAX_SAMPLES :: nat where "MAX_SAMPLES = 4096"
definition QUEUE_FULL_RETRY_AFTER_MIN_SECS :: nat where "QUEUE_FULL_RETRY_AFTER_MIN_SECS = 1"
definition QUEUE_FULL_RETRY_AFTER_MAX_SECS :: nat where "QUEUE_FULL_RETRY_AFTER_MAX_SECS = 60"

record dispatch_progress =
  dispatched_at :: "instant list"
  last_dispatch_at :: "instant option"

definition progress_new :: dispatch_progress where
  "progress_new = \<lparr>dispatched_at = [], last_dispatch_at = None\<rparr>"

definition prune_samples :: "instant \<Rightarrow> instant list \<Rightarrow> instant list" where
  "prune_samples now samples = dropWhile (\<lambda>at. RATE_WINDOW < saturating_duration_since now at) samples"

definition record_sample :: "instant \<Rightarrow> dispatch_progress \<Rightarrow> dispatch_progress" where
  "record_sample now p =
     (let samples = prune_samples now (dispatched_at p);
          samples = (if length samples \<ge> MAX_SAMPLES then tl samples else samples)
      in p\<lparr>dispatched_at := samples @ [now]\<rparr>)"

definition record_last :: "instant \<Rightarrow> dispatch_progress \<Rightarrow> dispatch_progress" where
  "record_last now p =
     (if (case last_dispatch_at p of None \<Rightarrow> True | Some previous \<Rightarrow> previous < now)
      then p\<lparr>last_dispatch_at := Some now\<rparr> else p)"

definition record_dispatch :: "instant \<Rightarrow> dispatch_progress \<Rightarrow> dispatch_progress" where
  "record_dispatch now p = record_last now (record_sample now p)"

definition earlier_instant :: "instant option \<Rightarrow> instant \<Rightarrow> instant option" where
  "earlier_instant current at = Some (case current of None \<Rightarrow> at | Some c \<Rightarrow> min c at)"

definition rate_since :: "('f, 'm) f64_scheme \<Rightarrow> instant \<Rightarrow> nat \<Rightarrow> instant option \<Rightarrow> 'f" where
  "rate_since F now count oldest = (case oldest of None \<Rightarrow> f_lit F 0 1
     | Some at \<Rightarrow> f_div F (f_of_nat F count)
         (as_secs_f64 F (max (saturating_duration_since now at) MIN_RATE_SPAN)))"

definition scan_sample ::
    "instant \<Rightarrow> instant \<Rightarrow> instant option \<times> nat \<times> instant option \<Rightarrow> instant option \<times> nat \<times> instant option" where
  "scan_sample now at acc = (case acc of (oldest, short_count, short_oldest) \<Rightarrow>
     (earlier_instant oldest at,
      if saturating_duration_since now at \<le> SHORT_RATE_HORIZON
      then (short_count + 1, earlier_instant short_oldest at) else (short_count, short_oldest)))"

definition recent_rate_per_sec :: "('f, 'm) f64_scheme \<Rightarrow> instant \<Rightarrow> dispatch_progress \<Rightarrow> 'f \<times> dispatch_progress" where
  "recent_rate_per_sec F now p =
     (let samples = prune_samples now (dispatched_at p);
          (oldest, short_count, short_oldest) = fold (scan_sample now) samples (None, 0, None)
      in (f_max F (rate_since F now (length samples) oldest) (rate_since F now short_count short_oldest),
          p\<lparr>dispatched_at := samples\<rparr>))"

definition queue_full_retry_after_secs ::
    "('f, 'm) f64_scheme \<Rightarrow> ('f \<Rightarrow> nat) \<Rightarrow> u32 \<Rightarrow> instant \<Rightarrow> dispatch_progress \<Rightarrow> nat \<times> dispatch_progress" where
  "queue_full_retry_after_secs F ceil_u64 queued now p =
     (let (rate, p) = recent_rate_per_sec F now p
      in (if f_le F rate (f_lit F 0 1) then QUEUE_FULL_RETRY_AFTER_MAX_SECS
          else clamp QUEUE_FULL_RETRY_AFTER_MIN_SECS QUEUE_FULL_RETRY_AFTER_MAX_SECS
            (ceil_u64 (f_div F (f_of_nat F (unat (max queued 1))) rate)), p))"

subsection \<open>What the window holds\<close>

datatype progress_event = Sampled instant | Noted instant | Asked instant

fun progress_step :: "('f, 'm) f64_scheme \<Rightarrow> progress_event \<Rightarrow> dispatch_progress \<Rightarrow> dispatch_progress" where
  "progress_step F (Sampled now) p = record_sample now p"
| "progress_step F (Noted now) p = record_last now p"
| "progress_step F (Asked now) p = snd (recent_rate_per_sec F now p)"

fun event_time :: "progress_event \<Rightarrow> instant" where
  "event_time (Sampled t) = t" | "event_time (Noted t) = t" | "event_time (Asked t) = t"

definition sampled :: "progress_event list \<Rightarrow> instant list" where
  "sampled es = List.map_filter (\<lambda>e. case e of Sampled t \<Rightarrow> Some t | _ \<Rightarrow> None) es"

definition stale :: "instant \<Rightarrow> instant \<Rightarrow> bool" where
  "stale now t \<longleftrightarrow> RATE_WINDOW < now - t"

text \<open>The dispatches recorded last, as many as the window can hold.\<close>

definition latest_samples :: "instant list \<Rightarrow> instant list" where
  "latest_samples ts = drop (length ts - MAX_SAMPLES) ts"

lemma prune_stale: "prune_samples now ts = dropWhile (stale now) ts"
  by (simp add: prune_samples_def stale_def [abs_def] saturating_duration_since_def)

lemma stale_later: "stale now t \<Longrightarrow> now \<le> later \<Longrightarrow> stale later t"
  by (auto simp: stale_def)

lemma sampled_snoc:
  "sampled (es @ [Sampled t]) = sampled es @ [t]"
  "sampled (es @ [Noted t]) = sampled es" "sampled (es @ [Asked t]) = sampled es"
  by (simp_all add: sampled_def map_filter_def)

lemma progress_fields:
  "dispatched_at (record_last now p) = dispatched_at p"
  "last_dispatch_at (record_sample now p) = last_dispatch_at p"
  "last_dispatch_at (snd (recent_rate_per_sec F now p)) = last_dispatch_at p"
  "dispatched_at (snd (recent_rate_per_sec F now p)) = prune_samples now (dispatched_at p)"
  by (simp_all add: record_last_def record_sample_def recent_rate_per_sec_def Let_def case_prod_beta)

definition run_progress :: "('f, 'm) f64_scheme \<Rightarrow> progress_event list \<Rightarrow> dispatch_progress" where
  "run_progress F es = fold (progress_step F) es progress_new"

lemma run_progress_snoc: "run_progress F (es @ [e]) = progress_step F e (run_progress F es)"
  by (simp add: run_progress_def)

definition noted :: "progress_event list \<Rightarrow> instant list" where
  "noted es = List.map_filter (\<lambda>e. case e of Noted t \<Rightarrow> Some t | _ \<Rightarrow> None) es"

lemma noted_snoc:
  "noted (es @ [Noted t]) = noted es @ [t]"
  "noted (es @ [Sampled t]) = noted es" "noted (es @ [Asked t]) = noted es"
  by (simp_all add: noted_def map_filter_def)

lemma last_dispatch_run:
  "last_dispatch_at (run_progress F es) = (if noted es = [] then None else Some (Max (set (noted es))))"
proof (induction es rule: rev_induct)
  case Nil
  then show ?case by (simp add: run_progress_def progress_new_def noted_def map_filter_def)
next
  case (snoc e es)
  show ?case
  proof (cases e)
    case (Noted t)
    then show ?thesis
      using snoc by (auto simp: run_progress_snoc noted_snoc record_last_def max_def simp del: Max_less_iff Max_ge_iff Max_gr_iff Max_le_iff)
  qed (use snoc in \<open>simp_all add: run_progress_snoc noted_snoc progress_fields\<close>)
qed

text \<open>
  The window is a suffix of what was recorded: \<open>dropped now k ts\<close> says why its first \<open>k\<close>
  dispatches are not in it, seen at a time \<open>now\<close> behind every call so far.
\<close>

definition dropped :: "instant \<Rightarrow> nat \<Rightarrow> instant list \<Rightarrow> bool" where
  "dropped now k ts \<longleftrightarrow> (\<forall>i<k. i + MAX_SAMPLES < length ts \<or> stale now (ts ! i))"

lemma dropWhile_drop:
  obtains n where "dropWhile P (drop k xs) = drop n xs" "k \<le> n" "n \<le> max k (length xs)"
    "\<forall>i. k \<le> i \<longrightarrow> i < n \<longrightarrow> P (xs ! i)"
proof
  let ?n = "k + length (takeWhile P (drop k xs))"
  show "dropWhile P (drop k xs) = drop ?n xs" by (simp add: dropWhile_eq_drop add.commute)
  show "?n \<le> max k (length xs)" using length_takeWhile_le [of P "drop k xs"] by auto
  show "\<forall>i. k \<le> i \<longrightarrow> i < ?n \<longrightarrow> P (xs ! i)"
  proof (intro allI impI)
    fix i assume i: "k \<le> i" "i < ?n"
    then have "P (takeWhile P (drop k xs) ! (i - k))"
      by (metis add_diff_inverse_nat nat_add_left_cancel_less not_less nth_mem set_takeWhileD)
    with i show "P (xs ! i)"
      using length_takeWhile_le [of P "drop k xs"] by (simp add: takeWhile_nth)
  qed
qed simp

lemma run_progress_window:
  "\<exists>k\<le>length (sampled es). dispatched_at (run_progress F es) = drop k (sampled es) \<and>
     length (sampled es) \<le> k + MAX_SAMPLES \<and>
     (\<forall>now. list_all (\<lambda>e. event_time e \<le> now) es \<longrightarrow> dropped now k (sampled es))"
proof (induction es rule: rev_induct)
  case Nil
  then show ?case
    by (simp add: run_progress_def progress_new_def sampled_def map_filter_def dropped_def)
next
  case (snoc e es)
  let ?s = "sampled es"
  obtain k where k: "k \<le> length ?s" "dispatched_at (run_progress F es) = drop k ?s"
    "length ?s \<le> k + MAX_SAMPLES"
    "\<And>now. list_all (\<lambda>e. event_time e \<le> now) es \<Longrightarrow> dropped now k ?s"
    using snoc.IH by blast
  obtain n where n: "dropWhile (stale (event_time e)) (drop k ?s) = drop n ?s" "k \<le> n"
    "n \<le> length ?s" "\<forall>i. k \<le> i \<longrightarrow> i < n \<longrightarrow> stale (event_time e) (?s ! i)"
    using dropWhile_drop [of "stale (event_time e)" k ?s] k(1) by (auto simp: max_def)
  have old: "dropped now n ?s" if "list_all (\<lambda>x. event_time x \<le> now) (es @ [e])" for now
    using k(4) [of now] n(4) that stale_later [of "event_time e" _ now]
    by (auto simp: dropped_def) (meson not_less)
  show ?case
  proof (cases e)
    case (Sampled t)
    define m where "m = (if MAX_SAMPLES \<le> length ?s - n then Suc n else n)"
    have "dispatched_at (run_progress F (es @ [e])) = drop m (?s @ [t])"
      using Sampled k(2) n(1,3)
      by (auto simp: run_progress_snoc record_sample_def prune_stale m_def Let_def MAX_SAMPLES_def
          drop_Suc tl_drop)
    moreover have "m \<le> length ?s" "length ?s + 1 \<le> m + MAX_SAMPLES"
      using n(2,3) k(3) by (auto simp: m_def MAX_SAMPLES_def)
    moreover have "dropped now m (?s @ [t])" if "list_all (\<lambda>x. event_time x \<le> now) (es @ [e])" for now
      using old [OF that] n(3) by (auto simp: dropped_def m_def nth_append less_Suc_eq split: if_splits)
    ultimately show ?thesis using Sampled by (intro exI [of _ m]) (auto simp: sampled_snoc)
  next
    case (Noted t)
    then show ?thesis
      using k by (intro exI [of _ k]) (auto simp: run_progress_snoc progress_fields sampled_snoc)
  next
    case (Asked t)
    with n k(3) old show ?thesis
      by (intro exI [of _ n]) (auto simp: run_progress_snoc progress_fields sampled_snoc k(2) prune_stale)
  qed
qed

lemma window_at:
  assumes "list_all (\<lambda>e. event_time e \<le> now) es"
  shows "dropWhile (stale now) (dispatched_at (run_progress F es)) =
    dropWhile (stale now) (latest_samples (sampled es))"
proof -
  let ?s = "sampled es" and ?m = "length (sampled es) - MAX_SAMPLES"
  obtain k where k: "k \<le> length ?s" "dispatched_at (run_progress F es) = drop k ?s"
    "length ?s \<le> k + MAX_SAMPLES" "dropped now k ?s"
    using run_progress_window [of es F] assms by blast
  then have "drop ?m ?s = take (k - ?m) (drop ?m ?s) @ drop k ?s"
    by (metis add.commute append_take_drop_id drop_drop le_add_diff_inverse le_diff_conv)
  moreover have "stale now x" if x: "x \<in> set (take (k - ?m) (drop ?m ?s))" for x
  proof -
    obtain i where i: "i < k - ?m" "x = ?s ! (?m + i)"
      using x k(1,3) by (auto simp: in_set_conv_nth)
    have "?m + i < k" "\<not> ?m + i + MAX_SAMPLES < length ?s" using i(1) by linarith+
    with k(4) i(2) show ?thesis by (auto simp: dropped_def)
  qed
  ultimately show ?thesis
    by (metis dropWhile_append2 k(2) latest_samples_def)
qed

lemma filter_dropWhile: "filter (\<lambda>x. \<not> P x) (dropWhile P xs) = filter (\<lambda>x. \<not> P x) xs"
  by (induction xs) auto

lemma dropWhile_stale_sorted:
  "sorted ts \<Longrightarrow> dropWhile (stale now) ts = filter (\<lambda>t. \<not> stale now t) ts"
proof (induction ts)
  case (Cons t ts)
  have "filter (\<lambda>t. \<not> stale now t) ts = ts" if "\<not> stale now t"
    using Cons.prems that by (intro filter_True) (auto simp: stale_def)
  with Cons show ?case by auto
qed simp

subsection \<open>Property\<close>

text \<open>C20. The estimate of the queue's speed rests on the true history, in whatever order concurrent
  dispatches record their times.  Asked at a time \<open>now\<close> that is not before any earlier call, the
  window is what is left of the latest 4096 recorded dispatches when the leading ones older than
  thirty seconds are dropped: no dispatch of the last thirty seconds among them is missing or
  counted twice; an older one stays only behind a newer one that was recorded first, so that with
  dispatches recorded in order of time the window is exactly the dispatches of the last thirty
  seconds.  The last dispatch is the latest one ever noted, and the delay told to a client is
  between one and sixty seconds.\<close>

theorem dispatch_window_is_the_history:
  assumes "list_all (\<lambda>e. event_time e \<le> now) es"
  shows "dispatched_at (snd (recent_rate_per_sec F now (run_progress F es))) =
      dropWhile (stale now) (latest_samples (sampled es)) \<and>
    filter (\<lambda>t. \<not> stale now t) (dispatched_at (snd (recent_rate_per_sec F now (run_progress F es)))) =
      filter (\<lambda>t. \<not> stale now t) (latest_samples (sampled es)) \<and>
    (sorted (sampled es) \<longrightarrow>
      dispatched_at (snd (recent_rate_per_sec F now (run_progress F es))) =
        filter (\<lambda>t. \<not> stale now t) (latest_samples (sampled es))) \<and>
    last_dispatch_at (run_progress F es) = (if noted es = [] then None else Some (Max (set (noted es)))) \<and>
    1 \<le> fst (queue_full_retry_after_secs F ceil_u64 queued now (run_progress F es)) \<and>
    fst (queue_full_retry_after_secs F ceil_u64 queued now (run_progress F es)) \<le> 60"
proof -
  have window: "dispatched_at (snd (recent_rate_per_sec F now (run_progress F es))) =
      dropWhile (stale now) (latest_samples (sampled es))"
    using window_at [OF assms, of F] by (simp add: progress_fields prune_stale)
  have "sorted (latest_samples (sampled es))" if "sorted (sampled es)"
    using that by (simp add: latest_samples_def sorted_wrt_drop)
  moreover have "1 \<le> clamp 1 60 n \<and> clamp 1 60 n \<le> 60" for n :: nat by (rule clamp_bounds) simp
  ultimately show ?thesis
    by (auto simp: window filter_dropWhile dropWhile_stale_sorted last_dispatch_run
        queue_full_retry_after_secs_def case_prod_beta Let_def
        QUEUE_FULL_RETRY_AFTER_MIN_SECS_def QUEUE_FULL_RETRY_AFTER_MAX_SECS_def)
qed

theorem dispatch_window_is_the_history_witness:
  "dispatched_at (snd (recent_rate_per_sec unit_f64 (secs 40)
     (run_progress unit_f64 [Sampled (secs 1), Noted (secs 1), Sampled (secs 20), Sampled (secs 2)]))) =
     [secs 20, secs 2]"
  using dispatch_window_is_the_history
    [of "secs 40" "[Sampled (secs 1), Noted (secs 1), Sampled (secs 20), Sampled (secs 2)]" unit_f64]
  by (simp add: sampled_def map_filter_simps stale_def RATE_WINDOW_def secs_def MAX_SAMPLES_def
      latest_samples_def)

end
