(* ===== verification/Prompt_Cache.thy ===== *)
theory Prompt_Cache
  imports Prelude "HOL-Library.AList" "HOL-Library.Char_ord" "HOL-Library.List_Lexorder"
    "HOL-Library.Product_Lexorder" "HOL-Library.Option_ord" "HOL-Library.Multiset"
begin

text \<open>
  The table of the simulated prompt cache (\<open>src/anthropic/prompt_cache.rs\<close>): entries per scope
  and fingerprint with their expiry, the counter of all entries, the throttled removal of expired
  entries, insertion, and the limits per scope, for the whole table and by estimated bytes with the
  eviction of the least recently used entries.

  A \<open>HashMap\<close> is an association list with distinct keys in its iteration order, a \<open>DateTime\<close> the
  number of nanoseconds since the epoch, a fingerprint the list of its bytes; \<open>i32\<close> counts of tokens
  are integers, with the saturation of the source written out.  Text and fingerprints are compared
  byte by byte, \<open>None\<close> comes before \<open>Some\<close>.
\<close>

subsection \<open>Model\<close>

definition DEFAULT_PROMPT_CACHE_TTL :: duration where "DEFAULT_PROMPT_CACHE_TTL = 5 * 60 * 1000000000"
definition HOUR_PROMPT_CACHE_TTL :: duration where "HOUR_PROMPT_CACHE_TTL = 60 * 60 * 1000000000"
definition DEFAULT_MAX_ENTRIES_PER_ACCOUNT :: nat where "DEFAULT_MAX_ENTRIES_PER_ACCOUNT = 200"
definition DEFAULT_MAX_ENTRIES_GLOBAL :: nat where "DEFAULT_MAX_ENTRIES_GLOBAL = 20000"
definition DEFAULT_MAX_ENTRY_TTL :: duration where "DEFAULT_MAX_ENTRY_TTL = 24 * 60 * 60 * 1000000000"
definition DEFAULT_ESTIMATED_BYTES_LIMIT :: u64 where "DEFAULT_ESTIMATED_BYTES_LIMIT = 256 * 1024 * 1024"
definition ESTIMATED_ENTRY_BYTES :: u64 where "ESTIMATED_ENTRY_BYTES = 256"
definition PRUNE_EXPIRED_MIN_INTERVAL :: int where "PRUNE_EXPIRED_MIN_INTERVAL = 1000000000"
definition USIZE_MAX :: nat where "USIZE_MAX = 2 ^ 64 - 1"

record prompt_cache_scope =
  conversation_id :: string
  route_namespace :: "string option"

type_synonym fingerprint = "u8 list"

record prompt_cache_entry =
  pe_expires_at :: int
  pe_ttl :: duration
  pe_last_used_at :: int
  pe_cached_tokens :: int

type_synonym cache_entries = "(fingerprint \<times> prompt_cache_entry) list"
type_synonym scope_entries = "(prompt_cache_scope \<times> cache_entries) list"

record prompt_cache_bounds =
  max_entries_per_account :: nat
  max_entries_global :: nat
  entry_ttl :: duration
  estimated_bytes_limit :: u64
  write_ttl :: "duration option"

record prompt_cache_state =
  by_scope :: scope_entries
  total_entries :: nat
  last_pruned_at :: "int option"

definition default_bounds :: prompt_cache_bounds where
  "default_bounds = \<lparr>max_entries_per_account = DEFAULT_MAX_ENTRIES_PER_ACCOUNT,
     max_entries_global = DEFAULT_MAX_ENTRIES_GLOBAL, entry_ttl = DEFAULT_MAX_ENTRY_TTL,
     estimated_bytes_limit = DEFAULT_ESTIMATED_BYTES_LIMIT, write_ttl = None\<rparr>"

definition bounds_from_config :: "nat \<Rightarrow> nat \<Rightarrow> u64 \<Rightarrow> u64 \<Rightarrow> prompt_cache_bounds" where
  "bounds_from_config per_account global ttl_secs bytes =
     \<lparr>max_entries_per_account = per_account, max_entries_global = global,
      entry_ttl = unat (max ttl_secs 1) * 1000000000, estimated_bytes_limit = bytes, write_ttl = None\<rparr>"

datatype cache_write_ttl = FiveMinutes | OneHour

definition with_write_ttl :: "prompt_cache_bounds \<Rightarrow> cache_write_ttl \<Rightarrow> prompt_cache_bounds" where
  "with_write_ttl b t = b\<lparr>write_ttl := Some (case t of FiveMinutes \<Rightarrow> DEFAULT_PROMPT_CACHE_TTL
     | OneHour \<Rightarrow> HOUR_PROMPT_CACHE_TTL)\<rparr>"

definition effective_ttl :: "prompt_cache_bounds \<Rightarrow> duration \<Rightarrow> duration" where
  "effective_ttl b ttl = min ttl (entry_ttl b)"

definition write_entry_ttl :: "prompt_cache_bounds \<Rightarrow> duration \<Rightarrow> duration" where
  "write_entry_ttl b breakpoint_ttl =
     effective_ttl b (case write_ttl b of Some t \<Rightarrow> t | None \<Rightarrow> breakpoint_ttl)"

definition max_entries_by_bytes :: "prompt_cache_bounds \<Rightarrow> nat" where
  "max_entries_by_bytes b =
     (if estimated_bytes_limit b = 0 then USIZE_MAX
      else unat (estimated_bytes_limit b div ESTIMATED_ENTRY_BYTES))"

text \<open>
  \<open>chrono::Duration::from_std(d).unwrap_or_default()\<close>: durations beyond \<open>i64::MAX\<close> milliseconds
  are replaced by zero.
\<close>

definition chrono_duration :: "duration \<Rightarrow> int" where
  "chrono_duration d = (if d \<le> (2 ^ 63 - 1) * 1000000 then int d else 0)"

definition prompt_cache_default :: prompt_cache_state where
  "prompt_cache_default = \<lparr>by_scope = [], total_entries = 0, last_pruned_at = None\<rparr>"

definition live_at :: "int \<Rightarrow> prompt_cache_entry \<Rightarrow> bool" where
  "live_at now e \<longleftrightarrow> now < pe_expires_at e"

definition total_cache_entries :: "scope_entries \<Rightarrow> nat" where
  "total_cache_entries es = sum_list (map (\<lambda>(_, m). length m) es)"

definition prune_expired_locked :: "int \<Rightarrow> scope_entries \<Rightarrow> scope_entries" where
  "prune_expired_locked now es =
     filter (\<lambda>(_, m). m \<noteq> []) (map (\<lambda>(s, m). (s, filter (\<lambda>(_, e). live_at now e) m)) es)"

definition prune_expired :: "int \<Rightarrow> prompt_cache_state \<Rightarrow> prompt_cache_state" where
  "prune_expired now st =
     (let es = prune_expired_locked now (by_scope st)
      in st\<lparr>by_scope := es, total_entries := total_cache_entries es, last_pruned_at := Some now\<rparr>)"

definition prune_expired_if_due :: "int \<Rightarrow> prompt_cache_state \<Rightarrow> prompt_cache_state" where
  "prune_expired_if_due now st =
     (if (case last_pruned_at st of None \<Rightarrow> False
          | Some at_last \<Rightarrow> at_last \<le> now \<and> now - at_last < PRUNE_EXPIRED_MIN_INTERVAL)
      then st else prune_expired now st)"

definition cache_insert ::
    "prompt_cache_scope \<Rightarrow> fingerprint \<Rightarrow> prompt_cache_entry \<Rightarrow> prompt_cache_state \<Rightarrow> prompt_cache_state" where
  "cache_insert s f e st =
     (let m = (case map_of (by_scope st) s of Some m \<Rightarrow> m | None \<Rightarrow> [])
      in st\<lparr>by_scope := AList.update s (AList.update f e m) (by_scope st),
           total_entries := (if map_of m f = None then total_entries st + 1 else total_entries st)\<rparr>)"

subsection \<open>Eviction\<close>

text \<open>
  \<open>select_nth_unstable_by\<close> of the standard library puts the element of rank \<open>n\<close> in place \<open>n\<close>,
  smaller ones before and the others after it, in an order it leaves open; the definition is the
  textbook selection around the first element.  The lemmas use the documented behaviour only.
\<close>

function select_nth :: "('a \<Rightarrow> 'k::linorder) \<Rightarrow> nat \<Rightarrow> 'a list \<Rightarrow> 'a list" where
  "select_nth key n [] = []"
| "select_nth key n (p # xs) =
     (let lo = filter (\<lambda>x. key x < key p) xs; hi = filter (\<lambda>x. \<not> key x < key p) xs in
      if n < length lo then select_nth key n lo @ p # hi
      else if n = length lo then lo @ p # hi
      else lo @ p # select_nth key (n - length lo - 1) hi)"
  by pat_completeness auto
termination
  by (relation "measure (\<lambda>(_, _, xs). length xs)") (auto simp: less_Suc_eq_le)

type_synonym candidate = "prompt_cache_scope \<times> fingerprint \<times> prompt_cache_entry"

definition eviction_key :: "candidate \<Rightarrow> int \<times> int \<times> string \<times> string option \<times> fingerprint" where
  "eviction_key c = (case c of (s, f, e) \<Rightarrow>
     (pe_last_used_at e, pe_expires_at e, conversation_id s, route_namespace s, f))"

definition eviction_candidates :: "scope_entries \<Rightarrow> (prompt_cache_scope \<Rightarrow> bool) \<Rightarrow> candidate list" where
  "eviction_candidates es include_scope =
     concat (map (\<lambda>(s, m). map (\<lambda>(f, e). (s, f, e)) m) (filter (\<lambda>(s, _). include_scope s) es))"

definition remove_entry ::
    "candidate \<Rightarrow> scope_entries \<times> nat \<Rightarrow> scope_entries \<times> nat" where
  "remove_entry c acc = (case (c, acc) of ((s, f, _), (es, removed)) \<Rightarrow>
     (case map_of es s of
        None \<Rightarrow> (es, removed)
      | Some m \<Rightarrow>
          (case map_of m f of
             None \<Rightarrow> (es, removed)
           | Some _ \<Rightarrow>
               (let m = AList.delete f m
                in (if m = [] then AList.delete s es else AList.update s m es, removed + 1)))))"

definition remove_oldest_entries_locked ::
    "scope_entries \<Rightarrow> nat \<Rightarrow> (prompt_cache_scope \<Rightarrow> bool) \<Rightarrow> scope_entries \<times> nat" where
  "remove_oldest_entries_locked es remove_count include_scope =
     (if remove_count = 0 then (es, 0)
      else
        (let candidates = eviction_candidates es include_scope;
             candidates = (if remove_count < length candidates
               then take remove_count (select_nth eviction_key remove_count candidates) else candidates)
         in fold remove_entry candidates (es, 0)))"

definition enforce_scope_bound ::
    "prompt_cache_scope \<Rightarrow> prompt_cache_bounds \<Rightarrow> int \<Rightarrow> prompt_cache_state \<Rightarrow> prompt_cache_state" where
  "enforce_scope_bound s b now st =
     (case map_of (by_scope st) s of
        None \<Rightarrow> st
      | Some m \<Rightarrow>
          if 0 < max_entries_per_account b \<and> max_entries_per_account b < length m then
            (let m' = filter (\<lambda>(_, e). live_at now e) m;
                 st = st\<lparr>by_scope := AList.update s m' (by_scope st),
                         total_entries := total_entries st - (length m - length m')\<rparr>;
                 overflow = length m' - max_entries_per_account b
             in if 0 < overflow then
                  (let (es, removed) = remove_oldest_entries_locked (by_scope st) overflow (\<lambda>x. x = s)
                   in st\<lparr>by_scope := es, total_entries := total_entries st - removed\<rparr>)
                else if m' = [] then st\<lparr>by_scope := AList.delete s (by_scope st)\<rparr>
                else st)
          else st)"

definition global_entry_limit :: "prompt_cache_bounds \<Rightarrow> nat" where
  "global_entry_limit b =
     min (if max_entries_global b = 0 then USIZE_MAX else max_entries_global b) (max_entries_by_bytes b)"

definition enforce_global_bound ::
    "prompt_cache_bounds \<Rightarrow> int \<Rightarrow> prompt_cache_state \<Rightarrow> prompt_cache_state" where
  "enforce_global_bound b now st =
     (let limit = global_entry_limit b;
          st = (if limit < total_entries st then prune_expired now st else st)
      in if limit < total_entries st then
           (let (es, removed) = remove_oldest_entries_locked (by_scope st) (total_entries st - limit) (\<lambda>_. True)
            in st\<lparr>by_scope := es, total_entries := total_entries st - removed\<rparr>)
         else st)"

definition enforce_bounds ::
    "prompt_cache_scope \<Rightarrow> prompt_cache_bounds \<Rightarrow> int \<Rightarrow> prompt_cache_state \<Rightarrow> prompt_cache_state" where
  "enforce_bounds s b now st = enforce_global_bound b now (enforce_scope_bound s b now st)"

subsection \<open>The table as a map\<close>

definition cached :: "scope_entries \<Rightarrow> prompt_cache_scope \<times> fingerprint \<Rightarrow> prompt_cache_entry option" where
  "cached es k = (case map_of es (fst k) of None \<Rightarrow> None | Some m \<Rightarrow> map_of m (snd k))"

definition entries_ok :: "scope_entries \<Rightarrow> bool" where
  "entries_ok es \<longleftrightarrow> distinct (map fst es) \<and> list_all (\<lambda>(_, m). m \<noteq> [] \<and> distinct (map fst m)) es"

definition cache_ok :: "prompt_cache_state \<Rightarrow> bool" where
  "cache_ok st \<longleftrightarrow> entries_ok (by_scope st) \<and> total_entries st = total_cache_entries (by_scope st)"

definition scope_size :: "scope_entries \<Rightarrow> prompt_cache_scope \<Rightarrow> nat" where
  "scope_size es s = (case map_of es s of None \<Rightarrow> 0 | Some m \<Rightarrow> length m)"

lemma cached_Nil [simp]: "cached [] k = None"
  by (simp add: cached_def)

lemma cached_Cons:
  "cached ((s, m) # es) k = (if fst k = s then map_of m (snd k) else cached es k)"
  by (simp add: cached_def)

lemma entries_ok_Nil [simp]: "entries_ok []"
  by (simp add: entries_ok_def)

lemma entries_ok_Cons [simp]:
  "entries_ok ((s, m) # es) \<longleftrightarrow> s \<notin> fst ` set es \<and> m \<noteq> [] \<and> distinct (map fst m) \<and> entries_ok es"
  by (auto simp: entries_ok_def)

lemma entries_okD:
  "entries_ok es \<Longrightarrow> map_of es s = Some m \<Longrightarrow> m \<noteq> [] \<and> distinct (map fst m)"
  by (auto simp: entries_ok_def list_all_iff dest: map_of_SomeD)

lemma cached_absent: "s \<notin> fst ` set es \<Longrightarrow> cached es (s, f) = None"
  by (simp add: cached_def map_of_eq_None_iff [THEN iffD2])

lemma dom_cached_Cons:
  "s \<notin> fst ` set es \<Longrightarrow> dom (cached ((s, m) # es)) = Pair s ` dom (map_of m) \<union> dom (cached es)"
  by (force simp: cached_Cons dom_def cached_absent split: if_splits)

lemma finite_dom_cached: "finite (dom (cached es))"
proof (rule finite_subset)
  show "dom (cached es) \<subseteq> (\<Union>(s, m) \<in> set es. Pair s ` dom (map_of m))"
    by (force simp: cached_def dom_def split: option.splits dest: map_of_SomeD)
  show "finite (\<Union>(s, m) \<in> set es. Pair s ` dom (map_of m))"
    by (auto simp: finite_dom_map_of)
qed

lemma card_dom_alist: "distinct (map fst m) \<Longrightarrow> card (dom (map_of m)) = length m"
  by (metis dom_map_of_conv_image_fst distinct_card length_map list.set_map)

lemma total_is_card: "entries_ok es \<Longrightarrow> total_cache_entries es = card (dom (cached es))"
proof (induction es)
  case (Cons x es)
  obtain s m where x: "x = (s, m)" by fastforce
  have s: "s \<notin> fst ` set es" and m: "distinct (map fst m)" and es: "entries_ok es" using Cons.prems x by auto
  have "Pair s ` dom (map_of m) \<inter> dom (cached es) = {}" using s by (auto simp: cached_absent)
  then have "card (dom (cached (x # es))) = card (Pair s ` dom (map_of m)) + card (dom (cached es))"
    unfolding x dom_cached_Cons [OF s]
    by (intro card_Un_disjoint) (auto simp: finite_dom_map_of finite_dom_cached)
  also have "card (Pair s ` dom (map_of m)) = length m"
    by (simp add: card_image inj_on_def card_dom_alist [OF m])
  finally show ?case using Cons.IH es x by (simp add: total_cache_entries_def)
qed (simp add: total_cache_entries_def dom_def)

lemma scope_size_is_card:
  assumes "entries_ok es"
  shows "scope_size es s = card {f. cached es (s, f) \<noteq> None}"
proof (cases "map_of es s")
  case (Some m)
  then have "card (dom (map_of m)) = length m" using entries_okD [OF assms Some] card_dom_alist by blast
  with Some show ?thesis by (simp add: scope_size_def cached_def dom_def)
qed (simp add: scope_size_def cached_def)

subsection \<open>The operations on the map\<close>

lemma entries_ok_update:
  assumes "entries_ok es" "m \<noteq> []" "distinct (map fst m)"
  shows "entries_ok (AList.update s m es)"
  using assms by (induction es) (auto simp: dom_update, force)

lemma cached_update:
  "cached (AList.update s m es) k = (if fst k = s then map_of m (snd k) else cached es k)"
  by (auto simp: cached_def update_conv)

lemma entries_ok_delete: "entries_ok es \<Longrightarrow> entries_ok (AList.delete s es)"
  by (auto simp: AList.delete_eq entries_ok_def list_all_iff distinct_map_filter)

lemma cached_delete: "cached (AList.delete s es) k = (if fst k = s then None else cached es k)"
  by (auto simp: cached_def delete_conv' split: option.split)

lemma prune_entries_ok:
  assumes "entries_ok es"
  shows "entries_ok (prune_expired_locked now es)"
  using assms
proof (induction es)
  case (Cons x es)
  obtain s m where x: "x = (s, m)" by fastforce
  have "fst ` set (prune_expired_locked now es) \<subseteq> fst ` set es"
    by (force simp: prune_expired_locked_def)
  moreover have "distinct (map fst (filter (\<lambda>(_, e). live_at now e) m))"
    using Cons.prems x by (auto intro: distinct_map_filter)
  ultimately show ?case using Cons x by (auto simp: prune_expired_locked_def)
qed (simp add: prune_expired_locked_def)

lemma map_of_filter_value:
  "distinct (map fst m) \<Longrightarrow>
   map_of (filter (\<lambda>(_, e). P e) m) k = (case map_of m k of Some e \<Rightarrow> if P e then Some e else None | None \<Rightarrow> None)"
  by (induction m) (auto split: option.split simp: rev_image_eqI dest: map_of_SomeD)

lemma prune_cached:
  assumes "entries_ok es"
  shows "cached (prune_expired_locked now es) k =
    (case cached es k of Some e \<Rightarrow> if live_at now e then Some e else None | None \<Rightarrow> None)"
  using assms
proof (induction es)
  case (Cons x es)
  obtain s m where x: "x = (s, m)" by fastforce
  let ?m = "filter (\<lambda>(_, e). live_at now e) m"
  have step: "prune_expired_locked now (x # es) =
      (if ?m = [] then prune_expired_locked now es else (s, ?m) # prune_expired_locked now es)"
    by (simp add: prune_expired_locked_def x)
  have m: "map_of ?m f = (case map_of m f of Some e \<Rightarrow> if live_at now e then Some e else None | None \<Rightarrow> None)" for f
    using Cons.prems x by (intro map_of_filter_value) simp
  have s: "cached es (s, f) = None" for f using Cons.prems x by (intro cached_absent) simp
  show ?case
  proof (cases "fst k = s")
    case True
    then have k: "k = (s, snd k)" by (cases k) auto
    have "cached (prune_expired_locked now es) k = None"
      using Cons.IH Cons.prems x s [of "snd k"] k by (metis option.case(1) entries_ok_Cons)
    then show ?thesis using True m [of "snd k"] unfolding step by (auto simp: x cached_Cons)
  next
    case False
    then show ?thesis using Cons.IH Cons.prems unfolding step by (simp add: x cached_Cons)
  qed
qed (simp add: prune_expired_locked_def)

lemma cache_insert_cached:
  "cached (by_scope (cache_insert s f e st)) = (cached (by_scope st))((s, f) \<mapsto> e)"
  by (auto simp: cache_insert_def Let_def cached_update fun_eq_iff update_conv cached_def split: option.split)

lemma cache_insert_entries_ok:
  assumes "entries_ok (by_scope st)"
  shows "entries_ok (by_scope (cache_insert s f e st))"
proof -
  let ?m = "case map_of (by_scope st) s of Some m \<Rightarrow> m | None \<Rightarrow> []"
  have "distinct (map fst ?m)" using entries_okD [OF assms] by (auto split: option.split)
  then show ?thesis using assms
    by (auto simp: cache_insert_def Let_def distinct_update intro!: entries_ok_update)
qed

lemma cache_insert_ok:
  assumes "cache_ok st"
  shows "cache_ok (cache_insert s f e st)"
proof -
  let ?st = "cache_insert s f e st"
  have ok: "entries_ok (by_scope st)" and ok': "entries_ok (by_scope ?st)"
    using assms cache_insert_entries_ok by (auto simp: cache_ok_def)
  have "total_entries ?st = (if cached (by_scope st) (s, f) = None then total_entries st + 1 else total_entries st)"
    by (simp add: cache_insert_def Let_def cached_def split: option.split)
  also have "\<dots> = card (dom (cached (by_scope ?st)))"
    using assms ok finite_dom_cached [of "by_scope st"]
    by (auto simp: cache_insert_cached cache_ok_def total_is_card insert_absorb domIff)
  finally show ?thesis using ok' by (simp add: cache_ok_def total_is_card)
qed

lemma prune_expired_ok: "cache_ok st \<Longrightarrow> cache_ok (prune_expired now st)"
  by (simp add: cache_ok_def prune_expired_def Let_def prune_entries_ok)

lemma prune_if_due_ok: "cache_ok st \<Longrightarrow> cache_ok (prune_expired_if_due now st)"
  by (simp add: prune_expired_if_due_def prune_expired_ok)

subsection \<open>Eviction removes exactly the least recently used entries\<close>

definition oldest :: "(nat \<Rightarrow> 'a list \<Rightarrow> 'a list) \<Rightarrow> nat \<Rightarrow> 'a list \<Rightarrow> 'a list" where
  "oldest sel n xs = (if n < length xs then take n (sel n xs) else xs)"

text \<open>
  What the documentation promises of \<open>select_nth_unstable_by\<close>: a reordering with nothing larger
  before and nothing smaller after the place \<open>n\<close>.
\<close>

locale nth_selection =
  fixes key :: "'a \<Rightarrow> 'k::linorder" and sel :: "nat \<Rightarrow> 'a list \<Rightarrow> 'a list"
  assumes sel_permutes: "mset (sel n xs) = mset xs"
    and sel_splits: "n < length xs \<Longrightarrow> x \<in> set (take n (sel n xs)) \<Longrightarrow> y \<in> set (drop n (sel n xs)) \<Longrightarrow> key x \<le> key y"
begin

lemma oldest_subset: "set (oldest sel n xs) \<subseteq> set xs"
  by (metis (full_types) oldest_def order_refl sel_permutes set_mset_mset set_take_subset)

lemma distinct_oldest: "distinct xs \<Longrightarrow> distinct (oldest sel n xs)"
  by (metis distinct_take mset_eq_imp_distinct_iff oldest_def sel_permutes)

lemma length_oldest: "length (oldest sel n xs) = min n (length xs)"
  by (auto simp: oldest_def mset_eq_length [OF sel_permutes])

lemma oldest_before_rest:
  assumes "x \<in> set (oldest sel n xs)" "y \<in> set xs" "y \<notin> set (oldest sel n xs)"
  shows "key x \<le> key y"
proof (cases "n < length xs")
  case True
  have "set xs = set (take n (sel n xs)) \<union> set (drop n (sel n xs))"
    by (metis append_take_drop_id sel_permutes set_append set_mset_mset)
  then have "y \<in> set (drop n (sel n xs))" using assms True by (auto simp: oldest_def)
  then show ?thesis using True assms(1) by (auto simp: oldest_def intro: sel_splits)
qed (use assms in \<open>simp add: oldest_def\<close>)

end

text \<open>A set of \<open>n\<close> elements with smaller keys than all others is unique.\<close>

lemma lowest_unique:
  fixes key :: "'a \<Rightarrow> 'k::linorder"
  assumes "finite C" "inj_on key C" "X \<subseteq> C" "Y \<subseteq> C" "card X = card Y"
    and X: "\<And>x y. x \<in> X \<Longrightarrow> y \<in> C \<Longrightarrow> y \<notin> X \<Longrightarrow> key x \<le> key y"
    and Y: "\<And>x y. x \<in> Y \<Longrightarrow> y \<in> C \<Longrightarrow> y \<notin> Y \<Longrightarrow> key x \<le> key y"
  shows "X = Y"
proof (rule ccontr)
  assume neq: "X \<noteq> Y"
  have fin: "finite X" "finite Y" using assms(1,3,4) finite_subset by auto
  have "\<not> X \<subseteq> Y" using neq card_subset_eq [OF fin(2)] assms(5) by blast
  moreover have "\<not> Y \<subseteq> X" using neq card_subset_eq [OF fin(1)] assms(5) by metis
  ultimately obtain a b where ab: "a \<in> X" "a \<notin> Y" "b \<in> Y" "b \<notin> X" by blast
  then have "key a \<le> key b" "key b \<le> key a" using X [of a b] Y [of b a] assms(3,4) by auto
  then have "a = b" using ab assms(2-4) by (meson inj_onD order_antisym subsetD)
  with ab show False by blast
qed

context nth_selection
begin

lemma oldest_is_full_sort:
  assumes "distinct xs" "inj_on key (set xs)"
  shows "set (oldest sel n xs) = set (take n (sort_key key xs))"
proof (rule lowest_unique [where C = "set xs" and key = key])
  let ?s = "sort_key key xs"
  have d: "distinct ?s" using assms(1) by simp
  show "set (take n ?s) \<subseteq> set xs" using set_take_subset [of n ?s] by simp
  show "card (set (oldest sel n xs)) = card (set (take n ?s))"
    using d by (simp add: distinct_card distinct_oldest assms(1) length_oldest min.commute del: distinct_sort)
  fix x y assume x: "x \<in> set (take n ?s)" and y: "y \<in> set xs" "y \<notin> set (take n ?s)"
  have "set xs = set (take n ?s) \<union> set (drop n ?s)"
    by (metis append_take_drop_id set_append set_sort)
  then have "y \<in> set (drop n ?s)" using y by blast
  moreover have "sorted (map key (take n ?s @ drop n ?s))" by simp
  ultimately show "key x \<le> key y" using x by (simp only: map_append sorted_append) auto
qed (use assms in \<open>auto intro: oldest_before_rest oldest_subset [THEN subsetD]\<close>)

end

lemma select_nth_permutes: "mset (select_nth key n xs) = mset xs"
proof (induction key n xs rule: select_nth.induct)
  case (2 key n p xs)
  have "mset (filter (\<lambda>x. key x < key p) xs) + mset (filter (\<lambda>x. \<not> key x < key p) xs) = mset xs"
    by (simp add: mset_filter multiset_partition [symmetric])
  then show ?case using 2 by (auto simp: Let_def)
qed simp

lemma length_select_nth [simp]: "length (select_nth key n xs) = length xs"
  by (rule mset_eq_length) (rule select_nth_permutes)

lemma set_select_nth [simp]: "set (select_nth key n xs) = set xs"
  by (metis select_nth_permutes set_mset_mset)

lemma select_nth_splits:
  assumes "n < length xs" "x \<in> set (take n (select_nth key n xs))" "y \<in> set (drop n (select_nth key n xs))"
  shows "key x \<le> key y"
  using assms
proof (induction key n xs arbitrary: x y rule: select_nth.induct)
  case (2 key n p xs)
  define lo hi where lo: "lo = filter (\<lambda>x. key x < key p) xs" and hi: "hi = filter (\<lambda>x. \<not> key x < key p) xs"
  note defs = lo [symmetric] hi [symmetric]
  have low: "key a < key p" if "a \<in> set lo" for a using that by (simp add: lo)
  have high: "key p \<le> key a" if "a \<in> set hi" for a using that by (simp add: hi not_less)
  have len: "length lo + length hi = length xs" unfolding lo hi by (rule sum_length_filter_compl)
  consider "n < length lo" | "n = length lo" | "length lo < n" by linarith
  then show ?case
  proof cases
    case 1
    have x: "x \<in> set (take n (select_nth key n lo))" using 2(4) 1 by (simp add: Let_def defs)
    then have "x \<in> set lo" by (auto dest: in_set_takeD)
    moreover have "y \<in> set (drop n (select_nth key n lo)) \<or> y = p \<or> y \<in> set hi"
      using 2(5) 1 by (auto simp: Let_def defs)
    ultimately show ?thesis
      using 2(1) [OF lo hi 1 1 x] low high by (meson order_less_imp_le order_trans)
  next
    case 2
    then show ?thesis using 2 "2.prems" low high
      by (auto simp: Let_def defs intro: order_less_imp_le order_trans [OF order_less_imp_le])
  next
    case 3
    let ?r = "select_nth key (n - length lo - 1) hi"
    have n: "n - length lo - 1 < length hi" using 3 len 2(3) by simp
    have split: "take n (lo @ p # ?r) = lo @ p # take (n - length lo - 1) ?r"
      "drop n (lo @ p # ?r) = drop (n - length lo - 1) ?r"
      using 3 by (simp_all add: take_Cons' drop_Cons')
    have y: "y \<in> set (drop (n - length lo - 1) ?r)" using 2(5) 3 split by (simp add: Let_def defs)
    then have "y \<in> set hi" by (auto dest: in_set_dropD)
    moreover have "x \<in> set lo \<or> x = p \<or> x \<in> set (take (n - length lo - 1) ?r)"
      using 2(4) 3 split by (auto simp: Let_def defs)
    ultimately show ?thesis
      using 2(2) [OF lo hi _ _ n _ y] 3 low high by (metis less_not_sym nat_neq_iff order_less_imp_le order_trans)
  qed
qed simp

interpretation eviction: nth_selection eviction_key "select_nth eviction_key"
  by unfold_locales (auto simp: select_nth_permutes intro: select_nth_splits)

lemma candidates_Cons:
  "eviction_candidates ((s, m) # es) inc =
    (if inc s then map (Pair s) m else []) @ eviction_candidates es inc"
  by (simp add: eviction_candidates_def)

lemma set_candidates:
  assumes "entries_ok es"
  shows "set (eviction_candidates es inc) = {(s, f, e). inc s \<and> cached es (s, f) = Some e}"
  using assms
proof (induction es)
  case (Cons x es)
  obtain s m where x: "x = (s, m)" by fastforce
  have "(f, e) \<in> set m \<longleftrightarrow> map_of m f = Some e" for f e using Cons.prems x by simp
  moreover have "cached es (s, f) = None" for f using Cons.prems x by (simp add: cached_absent)
  ultimately show ?case using Cons x by (auto simp: candidates_Cons cached_Cons split: if_splits)
qed (simp add: eviction_candidates_def)

lemma distinct_candidates: "entries_ok es \<Longrightarrow> distinct (eviction_candidates es inc)"
proof (induction es)
  case (Cons x es)
  obtain s m where x: "x = (s, m)" by fastforce
  have m: "distinct (map (Pair s) m)" using Cons.prems x by (simp add: distinct_map inj_on_def)
  have "entries_ok es" and s: "s \<notin> fst ` set es" using Cons.prems x by simp_all
  then have "set (map (Pair s) m) \<inter> set (eviction_candidates es inc) = {}"
    by (auto simp: set_candidates cached_absent)
  then show ?case using m Cons.IH \<open>entries_ok es\<close> by (simp add: x candidates_Cons del: set_map)
qed (simp add: eviction_candidates_def)

lemma length_candidates:
  assumes "entries_ok es"
  shows "length (eviction_candidates es (\<lambda>_. True)) = total_cache_entries es"
    "length (eviction_candidates es (\<lambda>x. x = s)) = scope_size es s"
proof -
  show "length (eviction_candidates es (\<lambda>_. True)) = total_cache_entries es"
    by (induction es) (auto simp: eviction_candidates_def total_cache_entries_def)
  show "length (eviction_candidates es (\<lambda>x. x = s)) = scope_size es s"
    using assms
  proof (induction es)
    case (Cons x es)
    obtain s' m where x: "x = (s', m)" by fastforce
    have "map_of es s' = None" using Cons.prems x by (simp add: map_of_eq_None_iff)
    then show ?case using Cons x by (auto simp: candidates_Cons scope_size_def)
  qed (simp add: eviction_candidates_def scope_size_def)
qed

lemma scope_eqI: "conversation_id a = conversation_id b \<Longrightarrow> route_namespace a = route_namespace b \<Longrightarrow> a = b"
  for a b :: prompt_cache_scope
  by (rule prompt_cache_scope.equality) simp_all

lemma eviction_key_inj:
  assumes "entries_ok es"
  shows "inj_on eviction_key (set (eviction_candidates es inc))"
proof (rule inj_onI)
  fix x y assume xy: "x \<in> set (eviction_candidates es inc)" "y \<in> set (eviction_candidates es inc)"
    and key: "eviction_key x = eviction_key y"
  obtain s f e s' f' e' where s: "x = (s, f, e)" "y = (s', f', e')" using prod_cases3 by metis
  have "s = s'" "f = f'" using key s by (auto simp: eviction_key_def intro: scope_eqI)
  then show "x = y" using xy s by (simp add: set_candidates assms)
qed

definition candidate_key :: "candidate \<Rightarrow> prompt_cache_scope \<times> fingerprint" where
  "candidate_key c = (fst c, fst (snd c))"

lemma remove_entry_cached:
  assumes "entries_ok es" "remove_entry c (es, n) = (es', n')"
  shows "entries_ok es'" "cached es' = (cached es)(candidate_key c := None)"
    "n' = (if cached es (candidate_key c) = None then n else n + 1)"
proof -
  obtain s f e where c: "c = (s, f, e)" using prod_cases3 by blast
  note defs = remove_entry_def c candidate_key_def Let_def
  have "entries_ok es' \<and> cached es' = (cached es)((s, f) := None) \<and> n' = (if cached es (s, f) = None then n else n + 1)"
  proof (cases "map_of es s")
    case None
    then show ?thesis using assms by (auto simp: defs cached_def fun_eq_iff)
  next
    case m: (Some m)
    show ?thesis
    proof (cases "map_of m f")
      case None
      then show ?thesis using assms m by (auto simp: defs cached_def fun_eq_iff)
    next
      case (Some e')
      let ?m = "AList.delete f m"
      have m': "map_of ?m = (map_of m)(f := None)" by (rule delete_conv')
      have out: "es' = (if ?m = [] then AList.delete s es else AList.update s ?m es)" "n' = n + 1"
        using assms(2) m Some by (auto simp: defs)
      have d: "distinct (map fst ?m)" using entries_okD [OF assms(1) m] by (simp add: distinct_delete)
      have "entries_ok es'" using assms(1) d by (simp add: out entries_ok_delete entries_ok_update)
      moreover have "cached es' k = ((cached es)((s, f) := None)) k" for k
      proof (cases "fst k = s")
        case True
        have "cached es' k = map_of ?m (snd k)" using True by (auto simp: out cached_delete cached_update)
        then show ?thesis using True m m' by (cases k) (auto simp: cached_def)
      next
        case False
        then show ?thesis by (cases k) (auto simp: out cached_delete cached_update)
      qed
      ultimately show ?thesis using m Some by (auto simp: out cached_def)
    qed
  qed
  then show "entries_ok es'" "cached es' = (cached es)(candidate_key c := None)"
    "n' = (if cached es (candidate_key c) = None then n else n + 1)"
    by (simp_all add: c candidate_key_def)
qed

lemma remove_entries_cached:
  assumes "entries_ok es" "fold remove_entry cs (es, n) = (es', n')" "distinct (map candidate_key cs)"
    "\<And>c. c \<in> set cs \<Longrightarrow> cached es (candidate_key c) \<noteq> None"
  shows "entries_ok es' \<and> cached es' = (cached es) |` (- candidate_key ` set cs) \<and> n' = n + length cs"
  using assms
proof (induction cs arbitrary: es n)
  case Nil
  then show ?case by (simp add: restrict_map_def)
next
  case (Cons c cs)
  obtain es1 n1 where step: "remove_entry c (es, n) = (es1, n1)" by fastforce
  note s = remove_entry_cached [OF Cons.prems(1) step]
  have "cached es1 (candidate_key c') \<noteq> None" if "c' \<in> set cs" for c'
    using that Cons.prems(3,4) s(2) by (auto simp: rev_image_eqI)
  then have "entries_ok es' \<and> cached es' = (cached es1) |` (- candidate_key ` set cs) \<and> n' = n1 + length cs"
    using Cons.IH [OF s(1)] Cons.prems(2,3) step by simp
  then show ?case using s Cons.prems(4) [of c]
    by (auto simp: restrict_map_def fun_eq_iff)
qed

lemma candidate_key_inj: "entries_ok es \<Longrightarrow> inj_on candidate_key (set (eviction_candidates es inc))"
  by (auto simp: inj_on_def candidate_key_def set_candidates)

definition least_recent :: "nat \<Rightarrow> scope_entries \<Rightarrow> (prompt_cache_scope \<Rightarrow> bool) \<Rightarrow> (prompt_cache_scope \<times> fingerprint) set" where
  "least_recent n es inc =
     candidate_key ` set (take n (sort_key eviction_key (eviction_candidates es inc)))"

lemma remove_oldest_spec:
  assumes ok: "entries_ok es" and r: "remove_oldest_entries_locked es n inc = (es', r)"
  shows "entries_ok es'" "cached es' = cached es |` (- least_recent n es inc)"
    "r = min n (length (eviction_candidates es inc))"
proof -
  let ?cs = "eviction_candidates es inc" and ?old = "oldest (select_nth eviction_key) n (eviction_candidates es inc)"
  have old: "set ?old = set (take n (sort_key eviction_key ?cs))"
    using eviction.oldest_is_full_sort distinct_candidates eviction_key_inj ok by blast
  have "entries_ok es' \<and> cached es' = cached es |` (- least_recent n es inc) \<and> r = min n (length ?cs)"
  proof (cases "n = 0")
    case True
    then show ?thesis using ok r by (simp add: remove_oldest_entries_locked_def least_recent_def restrict_map_def)
  next
    case False
    have "fold remove_entry ?old (es, 0) = (es', r)"
      using r False by (auto simp: remove_oldest_entries_locked_def oldest_def Let_def)
    moreover have "inj_on candidate_key (set ?old)"
      using candidate_key_inj [OF ok] eviction.oldest_subset by (rule inj_on_subset)
    then have "distinct (map candidate_key ?old)"
      by (simp add: distinct_map eviction.distinct_oldest distinct_candidates ok)
    moreover have "cached es (candidate_key c) \<noteq> None" if "c \<in> set ?old" for c
      using that eviction.oldest_subset [of n ?cs] by (auto simp: set_candidates ok candidate_key_def)
    ultimately have "entries_ok es' \<and> cached es' = cached es |` (- candidate_key ` set ?old) \<and> r = 0 + length ?old"
      by (intro remove_entries_cached ok)
    then show ?thesis unfolding old least_recent_def eviction.length_oldest by simp
  qed
  then show "entries_ok es'" "cached es' = cached es |` (- least_recent n es inc)"
    "r = min n (length ?cs)" by blast+
qed

lemma card_least_recent:
  assumes "entries_ok es"
  shows "card (least_recent n es inc) = min n (length (eviction_candidates es inc))"
proof -
  let ?cs = "eviction_candidates es inc" and ?t = "take n (sort_key eviction_key (eviction_candidates es inc))"
  have "set ?t \<subseteq> set ?cs" using set_take_subset [of n "sort_key eviction_key ?cs"] by simp
  then have "inj_on candidate_key (set ?t)" using candidate_key_inj [OF assms] inj_on_subset by blast
  moreover have "distinct ?t" by (intro distinct_take) (simp add: distinct_candidates assms)
  ultimately show ?thesis by (simp add: least_recent_def card_image distinct_card min.commute)
qed

lemma least_recent_subset:
  assumes "entries_ok es"
  shows "least_recent n es inc \<subseteq> {k. inc (fst k) \<and> cached es k \<noteq> None}"
  using set_take_subset [of n "sort_key eviction_key (eviction_candidates es inc)"] assms
  by (force simp: least_recent_def set_candidates candidate_key_def)

lemma remove_oldest_total:
  assumes ok: "entries_ok es" and r: "remove_oldest_entries_locked es n inc = (es', r)"
  shows "total_cache_entries es' = total_cache_entries es - r"
proof -
  note s = remove_oldest_spec [OF assms]
  have sub: "least_recent n es inc \<subseteq> dom (cached es)" using least_recent_subset [OF ok] by blast
  have "dom (cached es') = dom (cached es) - least_recent n es inc" by (auto simp: s(2))
  then show ?thesis
    using sub finite_dom_cached [of es]
    by (simp add: total_is_card s(1,3) ok card_Diff_subset finite_subset card_least_recent)
qed

lemma remove_oldest_scope_size:
  assumes ok: "entries_ok es" and r: "remove_oldest_entries_locked es n (\<lambda>x. x = s) = (es', r)"
  shows "scope_size es' s = scope_size es s - n"
proof -
  note sp = remove_oldest_spec [OF assms]
  let ?F = "\<lambda>es. {f. cached es (s, f) \<noteq> None}" and ?L = "least_recent n es (\<lambda>x. x = s)"
  have L: "?L = Pair s ` {f. (s, f) \<in> ?L}" using least_recent_subset [OF ok] by force
  have "card (Pair s ` {f. (s, f) \<in> ?L}) = card {f. (s, f) \<in> ?L}" by (simp add: card_image inj_on_def)
  then have card: "card {f. (s, f) \<in> ?L} = min n (scope_size es s)"
    using card_least_recent [OF ok] length_candidates(2) [OF ok] L by metis
  have fin: "finite (?F es)"
    by (rule finite_subset [of _ "snd ` dom (cached es)"]) (force simp: finite_dom_cached)+
  have sub: "{f. (s, f) \<in> ?L} \<subseteq> ?F es" using least_recent_subset [OF ok] by force
  have "?F es' = ?F es - {f. (s, f) \<in> ?L}" by (auto simp: sp(2) restrict_map_def)
  then have "scope_size es' s = card (?F es) - card {f. (s, f) \<in> ?L}"
    using scope_size_is_card [OF sp(1)] card_Diff_subset [OF finite_subset [OF sub fin] sub] by simp
  then show ?thesis using scope_size_is_card [OF ok] card by simp
qed

subsection \<open>The limits\<close>

lemma cached_scope_filter:
  assumes "map_of es s = Some m" "distinct (map fst m)"
  shows "cached (AList.update s (filter (\<lambda>(_, e). P e) m) es) k =
    (if fst k = s then (case cached es k of Some e \<Rightarrow> if P e then Some e else None | None \<Rightarrow> None) else cached es k)"
  using assms unfolding cached_update by (auto simp: cached_def map_of_filter_value)

lemma total_update:
  "entries_ok es \<Longrightarrow> map_of es s = Some m \<Longrightarrow>
   total_cache_entries (AList.update s m' es) + length m = total_cache_entries es + length m'"
  by (induction es) (auto simp: total_cache_entries_def split: if_splits)

lemma total_delete:
  "entries_ok es \<Longrightarrow> map_of es s = Some m \<Longrightarrow> total_cache_entries (AList.delete s es) + length m = total_cache_entries es"
  by (induction es) (auto simp: total_cache_entries_def split: if_splits)

lemma scope_size_mono:
  assumes "entries_ok es" "entries_ok es'" "dom (cached es') \<subseteq> dom (cached es)"
  shows "scope_size es' s \<le> scope_size es s"
proof -
  have "finite {f. cached es (s, f) \<noteq> None}"
    by (rule finite_subset [of _ "snd ` dom (cached es)"]) (force simp: finite_dom_cached)+
  moreover have "{f. cached es' (s, f) \<noteq> None} \<subseteq> {f. cached es (s, f) \<noteq> None}"
    using assms(3) by (auto simp: dom_def)
  ultimately show ?thesis using assms(1,2) by (simp add: scope_size_is_card card_mono)
qed

lemma prune_expired_le: "entries_ok (by_scope st) \<Longrightarrow> cached (by_scope (prune_expired now st)) \<subseteq>\<^sub>m cached (by_scope st)"
  by (auto simp: prune_expired_def Let_def map_le_def prune_cached split: option.splits if_splits)

lemma enforce_scope_id:
  "max_entries_per_account b = 0 \<or> scope_size (by_scope st) s \<le> max_entries_per_account b \<Longrightarrow>
   enforce_scope_bound s b now st = st"
  by (auto simp: enforce_scope_bound_def scope_size_def split: option.splits)

lemma enforce_scope_spec:
  assumes ok: "cache_ok st" and st'_def: "st' = enforce_scope_bound s b now st"
  shows "cache_ok st'" "cached (by_scope st') \<subseteq>\<^sub>m cached (by_scope st)"
    "0 < max_entries_per_account b \<Longrightarrow> scope_size (by_scope st') s \<le> max_entries_per_account b"
proof -
  let ?M = "max_entries_per_account b" and ?es = "by_scope st"
  have t: "entries_ok ?es" using ok by (simp add: cache_ok_def)
  have "cache_ok st' \<and> cached (by_scope st') \<subseteq>\<^sub>m cached ?es \<and> (0 < ?M \<longrightarrow> scope_size (by_scope st') s \<le> ?M)"
  proof (cases "?M = 0 \<or> scope_size ?es s \<le> ?M")
    case True
    then show ?thesis using ok by (auto simp: st'_def enforce_scope_id)
  next
    case False
    then obtain m where m: "map_of ?es s = Some m" "0 < ?M" "?M < length m"
      by (auto simp: scope_size_def split: option.splits)
    define m' es1 where m': "m' = filter (\<lambda>(_, e). live_at now e) m" and es1: "es1 = AList.update s m' ?es"
    have dm: "distinct (map fst m)" using entries_okD [OF t m(1)] by simp
    have len: "length m' \<le> length m" by (simp add: m')
    have total1: "total_cache_entries es1 = total_entries st - (length m - length m')"
      using total_update [OF t m(1), of m'] ok len by (simp add: es1 cache_ok_def)
    have le1: "cached es1 \<subseteq>\<^sub>m cached ?es"
      unfolding es1 m' by (auto simp: map_le_def cached_scope_filter m(1) dm split: if_splits option.splits)
    have size1: "scope_size es1 s = length m'" by (simp add: scope_size_def es1 update_conv)
    consider "?M < length m'" | "m' = []" | "m' \<noteq> []" "length m' \<le> ?M" by fastforce
    then show ?thesis
    proof cases
      case 1
      obtain es2 r where r: "remove_oldest_entries_locked es1 (length m' - ?M) (\<lambda>x. x = s) = (es2, r)" by fastforce
      have ok1: "entries_ok es1" unfolding es1
        using 1 t dm by (intro entries_ok_update) (auto simp: m' distinct_map_filter)
      have st': "st' = st\<lparr>by_scope := es2, total_entries := total_entries st - (length m - length m') - r\<rparr>"
        using m 1 r by (simp add: st'_def enforce_scope_bound_def Let_def m' [symmetric] es1 [symmetric])
      have "cached es2 \<subseteq>\<^sub>m cached es1" by (auto simp: remove_oldest_spec(2) [OF ok1 r] map_le_def)
      then show ?thesis
        using remove_oldest_spec(1) [OF ok1 r] remove_oldest_total [OF ok1 r] remove_oldest_scope_size [OF ok1 r] total1 size1 le1 1
        by (auto simp: st' cache_ok_def intro: map_le_trans)
    next
      case 2
      have "st' = st\<lparr>by_scope := AList.delete s es1, total_entries := total_entries st - (length m - length m')\<rparr>"
        using m 2 es1 by (simp add: st'_def enforce_scope_bound_def Let_def m' [symmetric])
      moreover have "AList.delete s es1 = AList.delete s ?es" unfolding es1 by (rule delete_update_same)
      ultimately show ?thesis using 2 total_delete [OF t m(1)] ok t
        by (auto simp: cache_ok_def entries_ok_delete cached_delete map_le_def scope_size_def delete_conv')
    next
      case 3
      have "st' = st\<lparr>by_scope := es1, total_entries := total_entries st - (length m - length m')\<rparr>"
        using m 3 by (simp add: st'_def enforce_scope_bound_def Let_def m' [symmetric] es1 [symmetric])
      moreover have "entries_ok es1" unfolding es1 using 3 t dm by (intro entries_ok_update) (auto simp: m' distinct_map_filter)
      ultimately show ?thesis using 3 total1 size1 le1 by (simp add: cache_ok_def)
    qed
  qed
  then show "cache_ok st'" "cached (by_scope st') \<subseteq>\<^sub>m cached (by_scope st)"
    "0 < max_entries_per_account b \<Longrightarrow> scope_size (by_scope st') s \<le> max_entries_per_account b" by blast+
qed

lemma enforce_global_spec:
  assumes ok: "cache_ok st" and st'_def: "st' = enforce_global_bound b now st"
  shows "cache_ok st'" "cached (by_scope st') \<subseteq>\<^sub>m cached (by_scope st)" "total_entries st' \<le> global_entry_limit b"
proof -
  let ?l = "global_entry_limit b"
  define st1 where st1: "st1 = (if ?l < total_entries st then prune_expired now st else st)"
  have ok1: "cache_ok st1" and le1: "cached (by_scope st1) \<subseteq>\<^sub>m cached (by_scope st)"
    using ok prune_expired_ok prune_expired_le by (auto simp: st1 cache_ok_def)
  then have t1: "entries_ok (by_scope st1)" by (simp add: cache_ok_def)
  have "cache_ok st' \<and> cached (by_scope st') \<subseteq>\<^sub>m cached (by_scope st) \<and> total_entries st' \<le> ?l"
  proof (cases "?l < total_entries st1")
    case True
    obtain es2 r where r: "remove_oldest_entries_locked (by_scope st1) (total_entries st1 - ?l) (\<lambda>_. True) = (es2, r)" by fastforce
    have st': "st' = st1\<lparr>by_scope := es2, total_entries := total_entries st1 - r\<rparr>"
      using True r by (simp add: st'_def enforce_global_bound_def Let_def st1 [symmetric])
    have "cached es2 \<subseteq>\<^sub>m cached (by_scope st1)" by (auto simp: remove_oldest_spec(2) [OF t1 r] map_le_def)
    moreover have "r = total_entries st1 - ?l"
      using remove_oldest_spec(3) [OF t1 r] length_candidates(1) [OF t1] ok1 by (simp add: cache_ok_def)
    ultimately show ?thesis
      using remove_oldest_spec(1) [OF t1 r] remove_oldest_total [OF t1 r] ok1 le1 True
      by (auto simp: st' cache_ok_def intro: map_le_trans)
  next
    case False
    then have "st' = st1" by (simp add: st'_def enforce_global_bound_def Let_def st1 [symmetric])
    then show ?thesis using False ok1 le1 by simp
  qed
  then show "cache_ok st'" "cached (by_scope st') \<subseteq>\<^sub>m cached (by_scope st)" "total_entries st' \<le> ?l" by blast+
qed

lemma enforce_bounds_spec:
  assumes ok: "cache_ok st" and st'_def: "st' = enforce_bounds s b now st"
  shows "cache_ok st'" "cached (by_scope st') \<subseteq>\<^sub>m cached (by_scope st)" "total_entries st' \<le> global_entry_limit b"
    "0 < max_entries_per_account b \<Longrightarrow> scope_size (by_scope st') s \<le> max_entries_per_account b"
proof -
  note sc = enforce_scope_spec [OF ok refl, where s = s and b = b and now = now]
  note gl = enforce_global_spec [OF sc(1) refl, where b = b and now = now]
  show ok': "cache_ok st'" and "total_entries st' \<le> global_entry_limit b"
    using gl(1,3) by (simp_all add: st'_def enforce_bounds_def)
  show "cached (by_scope st') \<subseteq>\<^sub>m cached (by_scope st)"
    using gl(2) sc(2) by (auto simp: st'_def enforce_bounds_def intro: map_le_trans)
  show "scope_size (by_scope st') s \<le> max_entries_per_account b" if "0 < max_entries_per_account b"
    using scope_size_mono [OF _ _ map_le_implies_dom_le [OF gl(2)], of s] sc(1,3) gl(1) that
    by (force simp: st'_def enforce_bounds_def cache_ok_def)
qed

lemma enforce_bounds_id:
  "max_entries_per_account b = 0 \<or> scope_size (by_scope st) s \<le> max_entries_per_account b \<Longrightarrow>
   total_entries st \<le> global_entry_limit b \<Longrightarrow> enforce_bounds s b now st = st"
  by (simp add: enforce_bounds_def enforce_scope_id enforce_global_bound_def Let_def)

subsection \<open>Eviction and the full sort\<close>

lemma sort_key_unique:
  assumes "distinct xs" "distinct ys" "set xs = set ys" "inj_on key (set xs)"
  shows "sort_key key xs = sort_key key ys"
proof -
  have "map key (sort_key key xs) = map key (sort_key key ys)"
  proof (rule sorted_distinct_set_unique)
    show "distinct (map key (sort_key key xs))" "distinct (map key (sort_key key ys))"
      using assms by (simp_all add: distinct_map)
    show "set (map key (sort_key key xs)) = set (map key (sort_key key ys))" using assms(3) by simp
  qed simp_all
  moreover have "inj_on key (set (sort_key key xs) \<union> set (sort_key key ys))" using assms(3,4) by simp
  ultimately show ?thesis by (rule map_inj_on)
qed

lemma least_recent_cong:
  assumes "entries_ok es" "entries_ok es2" "cached es2 = cached es"
  shows "least_recent n es2 inc = least_recent n es inc"
proof -
  have "set (eviction_candidates es2 inc) = set (eviction_candidates es inc)"
    using assms by (simp add: set_candidates)
  then have "sort_key eviction_key (eviction_candidates es2 inc) = sort_key eviction_key (eviction_candidates es inc)"
    by (intro sort_key_unique distinct_candidates eviction_key_inj assms)
  then show ?thesis by (simp only: least_recent_def)
qed

text \<open>C24. An eviction that selects its victims without sorting removes the same entries as sorting all
  candidates by (last use, expiry, conversation, route, fingerprint) and removing the first \<open>n\<close> of
  them; the number it returns is the number of entries removed, no scope is left empty, and the
  outcome does not depend on the iteration order of the hash maps.
\<close>

theorem eviction_is_a_full_sort:
  assumes "entries_ok es" "remove_oldest_entries_locked es n inc = (es', r)"
  shows "cached es' = cached es |` (- candidate_key ` set (take n (sort_key eviction_key (eviction_candidates es inc)))) \<and>
    r = min n (length (eviction_candidates es inc)) \<and> total_cache_entries es' = total_cache_entries es - r \<and>
    entries_ok es' \<and>
    (\<forall>es2. entries_ok es2 \<and> cached es2 = cached es \<longrightarrow>
      cached (fst (remove_oldest_entries_locked es2 n inc)) = cached es')"
proof (intro conjI allI impI)
  note s = remove_oldest_spec [OF assms]
  show "cached es' = cached es |` (- candidate_key ` set (take n (sort_key eviction_key (eviction_candidates es inc))))"
    using s(2) by (simp add: least_recent_def)
  show "r = min n (length (eviction_candidates es inc))" "entries_ok es'" by (rule s(3) s(1))+
  show "total_cache_entries es' = total_cache_entries es - r" by (rule remove_oldest_total [OF assms])
  fix es2 assume es2: "entries_ok es2 \<and> cached es2 = cached es"
  obtain es3 r3 where r3: "remove_oldest_entries_locked es2 n inc = (es3, r3)" by fastforce
  then show "cached (fst (remove_oldest_entries_locked es2 n inc)) = cached es'"
    using remove_oldest_spec(2) [OF _ r3] s(2) least_recent_cong [OF assms(1)] es2 by simp
qed

definition sample_scope :: "string \<Rightarrow> prompt_cache_scope" where
  "sample_scope c = \<lparr>conversation_id = c, route_namespace = None\<rparr>"

definition sample_entry :: "int \<Rightarrow> prompt_cache_entry" where
  "sample_entry t = \<lparr>pe_expires_at = t + 300, pe_ttl = 300, pe_last_used_at = t, pe_cached_tokens = 2000\<rparr>"

definition sample_table :: scope_entries where
  "sample_table = [(sample_scope ''a'', [([1], sample_entry 30), ([2], sample_entry 10)]),
     (sample_scope ''b'', [([3], sample_entry 10)])]"

theorem eviction_is_a_full_sort_witness:
  "cached (fst (remove_oldest_entries_locked sample_table 2 (\<lambda>_. True))) =
     cached sample_table |` (- candidate_key `
       set (take 2 (sort_key eviction_key (eviction_candidates sample_table (\<lambda>_. True))))) \<and>
   remove_oldest_entries_locked sample_table 2 (\<lambda>_. True) = ([(sample_scope ''a'', [([1], sample_entry 30)])], 2) \<and>
   cached (fst (remove_oldest_entries_locked (rev sample_table) 2 (\<lambda>_. True))) =
     cached [(sample_scope ''a'', [([1], sample_entry 30)])]"
proof -
  have t: "entries_ok sample_table" "entries_ok (rev sample_table)" by code_simp+
  have r: "remove_oldest_entries_locked sample_table 2 (\<lambda>_. True) = ([(sample_scope ''a'', [([1], sample_entry 30)])], 2)"
    by code_simp
  have "cached (rev sample_table) k = cached sample_table k" for k
    by (simp add: sample_table_def cached_def sample_scope_def)
  then have c: "cached (rev sample_table) = cached sample_table" by blast
  show ?thesis
    using eviction_is_a_full_sort [OF t(1) r] t(2) c r by simp
qed

end
