(* ===== verification/Cache_Canonical.thy ===== *)
theory Cache_Canonical
  imports Degrade Prompt_Cache
begin

text \<open>
  How the simulated prompt cache reads JSON (\<open>src/anthropic/prompt_cache.rs\<close>,
  \<open>src/token.rs\<close>): the canonical text of a value, which leaves \<open>cache_control\<close> markers out and
  blanks positions and generated ids, the lifetime a marker asks for, the blocks that are skipped,
  and the estimate of tokens.

  \<open>serde_json::Value\<close> is the datatype \<open>json\<close> over an arbitrary type of numbers; an object is its list
  of members with distinct keys.  Printing of numbers and strings, \<open>Number::as_u64\<close> and \<open>Number::from\<close> belong to the
  \<open>serde_json\<close> crate and are fields of the argument \<open>J\<close>; the Unicode \<open>to_lowercase\<close> is another.
\<close>

subsection \<open>JSON values\<close>

datatype 'n json =
  JNull | JBool bool | JNumber 'n | JString string | JArray "'n json list" | JObject "(string \<times> 'n json) list"

record 'n serde =
  num_text :: "'n \<Rightarrow> string"
  str_text :: "string \<Rightarrow> string"
  num_as_u64 :: "'n \<Rightarrow> u64 option"
  num_of_i32 :: "int \<Rightarrow> 'n"
  lowercase :: "string \<Rightarrow> string"

fun jget :: "string \<Rightarrow> 'n json \<Rightarrow> 'n json option" where
  "jget k (JObject ms) = map_of ms k"
| "jget k _ = None"

fun json_str :: "'n json \<Rightarrow> string option" where
  "json_str (JString s) = Some s"
| "json_str _ = None"

definition is_null :: "'n json \<Rightarrow> bool" where
  "is_null v \<longleftrightarrow> (case v of JNull \<Rightarrow> True | _ \<Rightarrow> False)"

subsection \<open>Canonical text\<close>

definition is_cache_position_key :: "string \<Rightarrow> bool" where
  "is_cache_position_key key \<longleftrightarrow>
     key \<in> {''tool_index'', ''system_index'', ''message_index'', ''block_index''}"

definition is_ascii_hexdigit :: "char \<Rightarrow> bool" where
  "is_ascii_hexdigit c \<longleftrightarrow> (let n = of_char c :: nat in
     48 \<le> n \<and> n \<le> 57 \<or> 65 \<le> n \<and> n \<le> 70 \<or> 97 \<le> n \<and> n \<le> 102)"

definition looks_like_uuid :: "string \<Rightarrow> bool" where
  "looks_like_uuid v \<longleftrightarrow> length v = 36 \<and>
     list_all (\<lambda>(i, c). if i \<in> {8, 13, 18, 23} then c = CHR ''-'' else is_ascii_hexdigit c) (enumerate 0 v)"

definition is_cache_volatile_id_value :: "string \<Rightarrow> (string \<times> 'n json) list \<Rightarrow> bool" where
  "is_cache_volatile_id_value i ms \<longleftrightarrow>
     (case Option.bind (map_of ms ''type'') json_str of None \<Rightarrow> [] | Some k \<Rightarrow> k)
       \<in> {''tool_use'', ''tool_result'', ''message''} \<or>
     starts_with i ''toolu_'' \<or> starts_with i ''srvtoolu_'' \<or> starts_with i ''msg_'' \<or>
     starts_with i ''req_'' \<or> looks_like_uuid i"

definition is_cache_volatile_key :: "string \<Rightarrow> 'n json option \<Rightarrow> (string \<times> 'n json) list \<Rightarrow> bool" where
  "is_cache_volatile_key key v ms \<longleftrightarrow>
     key \<in> {''tool_use_id'', ''toolUseId'', ''request_id'', ''requestId'', ''message_id'', ''messageId''} \<or>
     key = ''id'' \<and> (case Option.bind v json_str of None \<Rightarrow> False | Some i \<Rightarrow> is_cache_volatile_id_value i ms)"

fun comma_join :: "string list \<Rightarrow> string" where
  "comma_join [] = []"
| "comma_join [x] = x"
| "comma_join (x # y # xs) = x @ '','' @ comma_join (y # xs)"

definition blanked :: "(string \<times> 'n json) list \<Rightarrow> string \<Rightarrow> 'n json \<Rightarrow> bool" where
  "blanked ms key v \<longleftrightarrow> is_cache_position_key key \<or> is_cache_volatile_key key (Some v) ms"

text \<open>The keys are sorted and looked up again; with distinct keys that is sorting the members.\<close>

fun canonicalize_cache_value :: "('n, 'm) serde_scheme \<Rightarrow> 'n json \<Rightarrow> string" where
  "canonicalize_cache_value J JNull = ''null''"
| "canonicalize_cache_value J (JBool b) = (if b then ''true'' else ''false'')"
| "canonicalize_cache_value J (JNumber n) = num_text J n"
| "canonicalize_cache_value J (JString s) = str_text J s"
| "canonicalize_cache_value J (JArray vs) =
     ''['' @ comma_join (map (canonicalize_cache_value J) vs) @ '']''"
| "canonicalize_cache_value J (JObject ms) =
     ''{'' @ comma_join (map (\<lambda>(key, text). str_text J key @ '':'' @ text)
       (sort_key fst (filter (\<lambda>(key, _). key \<noteq> ''cache_control'')
         (map (\<lambda>(key, v). (key, if blanked ms key v then ''null'' else canonicalize_cache_value J v)) ms)))) @ ''}''"

fun strip_cache_control_from_value :: "'n json \<Rightarrow> 'n json" where
  "strip_cache_control_from_value (JObject ms) =
     JObject (filter (\<lambda>(key, _). key \<noteq> ''cache_control'')
       (map (\<lambda>(key, v). (key, strip_cache_control_from_value v)) ms))"
| "strip_cache_control_from_value (JArray vs) = JArray (map strip_cache_control_from_value vs)"
| "strip_cache_control_from_value v = v"

subsection \<open>Lifetimes\<close>

text \<open>
  \<open>str::parse::<u64>\<close>: an optional plus sign and at least one digit, no more than \<open>u64::MAX\<close>.
  Products of seconds wrap around, as in a release build.
\<close>

definition parse_u64 :: "string \<Rightarrow> u64 option" where
  "parse_u64 s =
     (let ds = (case s of c # cs \<Rightarrow> if c = CHR ''+'' then cs else s | [] \<Rightarrow> []);
          n = foldl (\<lambda>a c. a * 10 + (of_char c - 48)) (0::nat) ds
      in if ds \<noteq> [] \<and> list_all is_ascii_digit ds \<and> n < 2 ^ 64 then Some (word_of_nat n) else None)"

definition from_secs :: "u64 \<Rightarrow> duration" where
  "from_secs n = unat n * 1000000000"

definition parse_ttl :: "('n, 'm) serde_scheme \<Rightarrow> 'n json \<Rightarrow> duration option" where
  "parse_ttl J v = (case v of
     JNumber n \<Rightarrow> map_option from_secs (num_as_u64 J n)
   | JString s \<Rightarrow>
       (let trimmed = lowercase J (trim s) in
        case strip_suffix trimmed ''h'' of
          Some raw \<Rightarrow> map_option (\<lambda>hours. from_secs (hours * 60 * 60)) (parse_u64 raw)
        | None \<Rightarrow>
            (case strip_suffix trimmed ''m'' of
               Some raw \<Rightarrow> map_option (\<lambda>mins. from_secs (mins * 60)) (parse_u64 raw)
             | None \<Rightarrow>
                 (case strip_suffix trimmed ''s'' of
                    Some raw \<Rightarrow> map_option from_secs (parse_u64 raw)
                  | None \<Rightarrow> map_option from_secs (parse_u64 trimmed))))
   | _ \<Rightarrow> None)"

definition normalize_ttl :: "duration \<Rightarrow> duration" where
  "normalize_ttl ttl = (if DEFAULT_PROMPT_CACHE_TTL < ttl then HOUR_PROMPT_CACHE_TTL else DEFAULT_PROMPT_CACHE_TTL)"

definition extract_prompt_cache_ttl :: "('n, 'm) serde_scheme \<Rightarrow> 'n json \<Rightarrow> duration option" where
  "extract_prompt_cache_ttl J v =
     Option.bind (jget ''cache_control'' v) (\<lambda>cache.
       if is_null cache then None
       else Option.bind (Option.bind (jget ''type'' cache) json_str) (\<lambda>cache_type.
         if to_ascii_lowercase cache_type \<noteq> ''ephemeral'' then None
         else Some (normalize_ttl
           (case Option.bind (jget ''ttl'' cache) (parse_ttl J) of
              Some t \<Rightarrow> t | None \<Rightarrow> DEFAULT_PROMPT_CACHE_TTL))))"

subsection \<open>Skipped blocks\<close>

text \<open>\<open>is_anthropic_billing_header_block\<close> descends through members named \<open>block\<close>.\<close>

definition billing_header_object :: "('n, 'm) serde_scheme \<Rightarrow> 'n json \<Rightarrow> bool" where
  "billing_header_object J v \<longleftrightarrow> (case v of
     JObject ms \<Rightarrow>
       (case Option.bind (map_of ms ''type'') json_str of Some kind \<Rightarrow> kind = ''text'' | None \<Rightarrow> True) \<and>
       (case Option.bind (map_of ms ''text'') json_str of
          Some text \<Rightarrow> starts_with (lowercase J (trim_start text)) ''x-anthropic-billing-header:''
        | None \<Rightarrow> False)
   | _ \<Rightarrow> False)"

lemma jget_size [termination_simp]: "jget k v = Some w \<Longrightarrow> size w < size v"
proof (cases v)
  case (JObject ms)
  assume "jget k v = Some w"
  then have "(k, w) \<in> set ms" using JObject by (auto dest: map_of_SomeD)
  then have "size_prod (\<lambda>_. 0) size (k, w) \<le> size_list (size_prod (\<lambda>_. 0) size) ms"
    by (rule size_list_estimation') simp
  then show ?thesis using JObject by simp
qed simp_all

fun is_anthropic_billing_header_block :: "('n, 'm) serde_scheme \<Rightarrow> 'n json \<Rightarrow> bool" where
  "is_anthropic_billing_header_block J v =
     (case jget ''block'' v of
        Some b \<Rightarrow> is_anthropic_billing_header_block J b
      | None \<Rightarrow> billing_header_object J v)"

declare is_anthropic_billing_header_block.simps [simp del]

subsection \<open>Estimated tokens\<close>

text \<open>\<open>str::chars\<close>: the code points of the UTF-8 bytes of a \<open>String\<close>.\<close>

definition cont_bits :: "nat list \<Rightarrow> nat \<Rightarrow> nat" where
  "cont_bits bs i = (if i < length bs then bs ! i mod 64 else 0)"

function code_points :: "nat list \<Rightarrow> nat list" where
  "code_points [] = []"
| "code_points (b # bs) =
     (if b < 0x80 then b # code_points bs
      else if b < 0xE0 then ((b mod 32) * 64 + cont_bits bs 0) # code_points (drop 1 bs)
      else if b < 0xF0 then ((b mod 16) * 4096 + cont_bits bs 0 * 64 + cont_bits bs 1) # code_points (drop 2 bs)
      else ((b mod 8) * 262144 + cont_bits bs 0 * 4096 + cont_bits bs 1 * 64 + cont_bits bs 2) # code_points (drop 3 bs))"
  by pat_completeness auto
termination by (relation "measure length") auto

definition is_non_western_char :: "nat \<Rightarrow> bool" where
  "is_non_western_char c \<longleftrightarrow> \<not> (c \<le> 0x7F \<or> 0x80 \<le> c \<and> c \<le> 0xFF \<or> 0x100 \<le> c \<and> c \<le> 0x24F \<or>
     0x1E00 \<le> c \<and> c \<le> 0x1EFF \<or> 0x2C60 \<le> c \<and> c \<le> 0x2C7F \<or> 0xA720 \<le> c \<and> c \<le> 0xA7FF \<or>
     0xAB30 \<le> c \<and> c \<le> 0xAB6F)"

text \<open>The casts from \<open>f64\<close>, which saturate, after rounding where the source rounds first.\<close>

record 'f f64_casts = "'f f64" +
  f_as_u64 :: "'f \<Rightarrow> u64"
  f_round_i32 :: "'f \<Rightarrow> int"
  f_floor_i32 :: "'f \<Rightarrow> int"
  f_floor_usize :: "'f \<Rightarrow> nat"
  f_is_finite :: "'f \<Rightarrow> bool"

definition count_tokens :: "('f, 'm) f64_casts_scheme \<Rightarrow> string \<Rightarrow> u64" where
  "count_tokens F text =
     (let char_units = foldl (f_add F) (f_lit F 0 1)
            (map (\<lambda>c. if is_non_western_char c then f_lit F 4 1 else f_lit F 1 1) (code_points (map of_char text)));
          tokens = f_div F char_units (f_lit F 4 1)
      in f_as_u64 F
        (if f_less F tokens (f_lit F 100 1) then f_mul F tokens (f_lit F 15 10)
         else if f_less F tokens (f_lit F 200 1) then f_mul F tokens (f_lit F 13 10)
         else if f_less F tokens (f_lit F 300 1) then f_mul F tokens (f_lit F 125 100)
         else if f_less F tokens (f_lit F 800 1) then f_mul F tokens (f_lit F 12 10)
         else f_mul F tokens (f_lit F 1 1)))"

text \<open>\<open>as i32\<close> keeps the low 32 bits.\<close>

definition as_i32 :: "u64 \<Rightarrow> int" where
  "as_i32 n = sint (ucast n :: 32 word)"

subsection \<open>Markers and the order of members do not matter\<close>

lemma parts_without_marker:
  "filter (\<lambda>(key, _). key \<noteq> k) (map (\<lambda>(key, v). (key, g key v)) (filter (\<lambda>(key, _). key \<noteq> k) (map (\<lambda>(key, v). (key, h v)) ms))) =
   filter (\<lambda>(key, _). key \<noteq> k) (map (\<lambda>(key, v). (key, g key (h v))) ms)"
  by (induction ms) auto

lemma map_of_without:
  "k \<noteq> k' \<Longrightarrow> map_of (filter (\<lambda>(key, _). key \<noteq> k') (map (\<lambda>(key, v). (key, h v)) ms)) k = map_option h (map_of ms k)"
  by (induction ms) auto

lemma json_str_strip [simp]: "json_str (strip_cache_control_from_value v) = json_str v"
  by (cases v) simp_all

lemma blanked_strip:
  assumes "key \<noteq> ''cache_control''"
  shows "blanked (filter (\<lambda>(key, _). key \<noteq> ''cache_control'') (map (\<lambda>(key, v). (key, strip_cache_control_from_value v)) ms))
      key (strip_cache_control_from_value v) = blanked ms key v"
proof -
  have "Option.bind (map_of (filter (\<lambda>(key, _). key \<noteq> ''cache_control'')
      (map (\<lambda>(key, v). (key, strip_cache_control_from_value v)) ms)) ''type'') json_str = Option.bind (map_of ms ''type'') json_str"
    by (simp add: map_of_without) (cases "map_of ms ''type''"; simp)
  then have "is_cache_volatile_id_value i (filter (\<lambda>(key, _). key \<noteq> ''cache_control'')
      (map (\<lambda>(key, v). (key, strip_cache_control_from_value v)) ms)) = is_cache_volatile_id_value i ms" for i
    by (simp only: is_cache_volatile_id_value_def)
  then show ?thesis by (cases "json_str v") (simp_all add: blanked_def is_cache_volatile_key_def)
qed

lemma filter_map_cong:
  "(\<And>key v. (key, v) \<in> set ms \<Longrightarrow> key \<noteq> k \<Longrightarrow> g key v = g' key v) \<Longrightarrow>
   filter (\<lambda>(key, _). key \<noteq> k) (map (\<lambda>(key, v). (key, g key v)) ms) =
   filter (\<lambda>(key, _). key \<noteq> k) (map (\<lambda>(key, v). (key, g' key v)) ms)"
  by (induction ms) auto

lemma canonical_strip: "canonicalize_cache_value J (strip_cache_control_from_value v) = canonicalize_cache_value J v"
proof (induction v rule: strip_cache_control_from_value.induct)
  case (1 ms)
  have "filter (\<lambda>(key, _). key \<noteq> ''cache_control'')
      (map (\<lambda>(key, v). (key, if blanked (filter (\<lambda>(key, _). key \<noteq> ''cache_control'') (map (\<lambda>(key, v). (key, strip_cache_control_from_value v)) ms)) key (strip_cache_control_from_value v)
         then ''null'' else canonicalize_cache_value J (strip_cache_control_from_value v))) ms) =
    filter (\<lambda>(key, _). key \<noteq> ''cache_control'')
      (map (\<lambda>(key, v). (key, if blanked ms key v then ''null'' else canonicalize_cache_value J v)) ms)"
    using 1 by (intro filter_map_cong) (simp add: blanked_strip)
  then show ?case by (simp add: parts_without_marker)
next
  case (2 vs)
  then show ?case by (simp cong: map_cong)
qed simp_all

lemma canonical_up_to_markers:
  "strip_cache_control_from_value v = strip_cache_control_from_value w \<Longrightarrow>
   canonicalize_cache_value J v = canonicalize_cache_value J w"
  by (metis canonical_strip)

end
