(* ===== verification/Cache_Blocks.thy ===== *)
theory Cache_Blocks
  imports Cache_Canonical Stop_Sequences
begin

text \<open>
  From a request to its cache profile (\<open>src/anthropic/prompt_cache.rs\<close>): the blocks of the three
  cache strategies, the stable prefix of the current user message, and the profile with one
  fingerprint per prefix of blocks.  The SHA-256 of the \<open>sha2\<close> crate is the argument \<open>sha\<close>; of the
  request and the policies the records hold the fields this code reads.
\<close>

subsection \<open>Requests and policies\<close>

record 'n cache_message =
  msg_role :: string
  msg_content :: "'n json"

record 'n system_message =
  sys_text :: string
  sys_cache_control :: "'n json option"

record 'n cache_tool =
  tool_type :: "string option"
  tool_name :: string
  tool_description :: string
  tool_input_schema :: "(string \<times> 'n json) list"
  tool_max_uses :: "int option"
  tool_cache_control :: "'n json option"

record 'n messages_request =
  mr_messages :: "'n cache_message list"
  mr_system :: "'n system_message list option"
  mr_tools :: "'n cache_tool list option"
  mr_tool_choice :: "'n json option"
  mr_user_id :: "string option"

record 'f kiro_rs_tool_policy =
  kp_coverage_ratio :: 'f
  kp_max_coverage_tokens :: int
  kp_incremental_create_enabled :: bool
  kp_max_new_creation_tokens_per_request :: int
  kp_cache_current_user_stable_prefix :: bool
  kp_current_user_stable_prefix_max_tokens :: int
  kp_reported_input_min_tokens :: int
  kp_reported_input_max_tokens :: int

definition kiro_policy_normalized ::
    "('f, 'm) f64_casts_scheme \<Rightarrow> 'f kiro_rs_tool_policy \<Rightarrow> 'f kiro_rs_tool_policy" where
  "kiro_policy_normalized F p =
     (let ratio = (if f_is_finite F (kp_coverage_ratio p) then kp_coverage_ratio p else f_lit F 1 1);
          lo = max (kp_reported_input_min_tokens p) 0; hi = max (kp_reported_input_max_tokens p) 0
      in p\<lparr>kp_coverage_ratio := f_clamp F (f_lit F 0 1) (f_lit F 1 1) ratio,
           kp_max_coverage_tokens := max (kp_max_coverage_tokens p) 0,
           kp_max_new_creation_tokens_per_request := max (kp_max_new_creation_tokens_per_request p) 0,
           kp_reported_input_min_tokens := (if 0 < hi \<and> hi < lo then hi else lo),
           kp_reported_input_max_tokens := hi,
           kp_current_user_stable_prefix_max_tokens :=
             (if kp_cache_current_user_stable_prefix p
              then max (kp_current_user_stable_prefix_max_tokens p) 0 else 0)\<rparr>)"

record 'f stable_segment_policy =
  sp_coverage_ratio :: 'f
  sp_max_coverage_tokens :: int
  sp_min_total_input_tokens :: int
  sp_min_segment_tokens :: int
  sp_incremental_create_enabled :: bool
  sp_max_new_creation_tokens_per_request :: int
  sp_include_tools :: bool
  sp_include_system :: bool
  sp_include_history :: bool
  sp_history_message_limit :: nat
  sp_honor_explicit_cache_control :: bool
  sp_auto_cache_system :: bool
  sp_auto_cache_tools :: bool
  sp_auto_cache_history_message_ends :: bool
  sp_cache_current_user_stable_prefix :: bool
  sp_current_user_stable_prefix_max_tokens :: int
  sp_default_ttl_secs :: u64
  sp_extended_ttl_secs :: u64

definition stable_policy_normalized ::
    "('f, 'm) f64_casts_scheme \<Rightarrow> 'f stable_segment_policy \<Rightarrow> 'f stable_segment_policy" where
  "stable_policy_normalized F p =
     (let ratio = (if f_is_finite F (sp_coverage_ratio p) then sp_coverage_ratio p else f_lit F 90 100);
          default_secs = max (sp_default_ttl_secs p) 1
      in p\<lparr>sp_coverage_ratio := f_clamp F (f_lit F 0 1) (f_lit F 1 1) ratio,
           sp_max_coverage_tokens := max (sp_max_coverage_tokens p) 0,
           sp_min_total_input_tokens := max (sp_min_total_input_tokens p) 0,
           sp_min_segment_tokens := max (sp_min_segment_tokens p) 0,
           sp_max_new_creation_tokens_per_request := max (sp_max_new_creation_tokens_per_request p) 0,
           sp_default_ttl_secs := default_secs,
           sp_extended_ttl_secs := max (sp_extended_ttl_secs p) default_secs,
           sp_current_user_stable_prefix_max_tokens :=
             (if sp_cache_current_user_stable_prefix p
              then max (sp_current_user_stable_prefix_max_tokens p) 0 else 0)\<rparr>)"

definition stable_segment_default_ttl :: "('f, 'm) f64_casts_scheme \<Rightarrow> 'f stable_segment_policy \<Rightarrow> duration" where
  "stable_segment_default_ttl F p = from_secs (sp_default_ttl_secs (stable_policy_normalized F p))"

definition stable_segment_extended_ttl :: "('f, 'm) f64_casts_scheme \<Rightarrow> 'f stable_segment_policy \<Rightarrow> duration" where
  "stable_segment_extended_ttl F p = from_secs (sp_extended_ttl_secs (stable_policy_normalized F p))"

subsection \<open>Blocks\<close>

record 'n cache_block =
  cb_value :: "'n json"
  cb_tokens :: int
  cb_ttl :: "duration option"
  cb_is_message_end :: bool

definition block_of_value :: "'n json \<Rightarrow> 'n json" where
  "block_of_value v = (case jget ''block'' v of Some b \<Rightarrow> b | None \<Rightarrow> v)"

definition block_tokens :: "('f, 'a) f64_casts_scheme \<Rightarrow> ('n, 'b) serde_scheme \<Rightarrow> 'n json \<Rightarrow> int" where
  "block_tokens F J v = as_i32 (count_tokens F (canonicalize_cache_value J v))"

definition append_cache_block ::
    "('f, 'a) f64_casts_scheme \<Rightarrow> ('n, 'b) serde_scheme \<Rightarrow> 'n cache_block list \<Rightarrow> 'n json \<Rightarrow> bool \<Rightarrow> 'n cache_block list" where
  "append_cache_block F J blocks v is_message_end =
     (if is_anthropic_billing_header_block J (block_of_value v) then blocks
      else blocks @ [\<lparr>cb_value = v, cb_tokens = block_tokens F J v,
        cb_ttl = extract_prompt_cache_ttl J (block_of_value v), cb_is_message_end = is_message_end\<rparr>])"

definition or_else :: "'a option \<Rightarrow> 'a option \<Rightarrow> 'a option" where
  "or_else x y = (case x of Some a \<Rightarrow> Some a | None \<Rightarrow> y)"

definition append_cache_block_with_forced_ttl ::
    "('f, 'a) f64_casts_scheme \<Rightarrow> ('n, 'b) serde_scheme \<Rightarrow> 'n cache_block list \<Rightarrow> 'n json \<Rightarrow> duration option
     \<Rightarrow> 'n cache_block list" where
  "append_cache_block_with_forced_ttl F J blocks v forced_ttl =
     (if is_anthropic_billing_header_block J (block_of_value v) then blocks
      else blocks @ [\<lparr>cb_value = v, cb_tokens = block_tokens F J v,
        cb_ttl = or_else forced_ttl (extract_prompt_cache_ttl J (block_of_value v)), cb_is_message_end = False\<rparr>])"

definition append_stable_segment_cache_block ::
    "('f, 'a) f64_casts_scheme \<Rightarrow> ('n, 'b) serde_scheme \<Rightarrow> 'n cache_block list \<Rightarrow> 'n json \<Rightarrow> duration option
     \<Rightarrow> bool \<Rightarrow> bool \<Rightarrow> 'n cache_block list" where
  "append_stable_segment_cache_block F J blocks v ttl honor is_message_end =
     (let v = (if honor then v else strip_cache_control_from_value v) in
      if is_anthropic_billing_header_block J (block_of_value v) then blocks
      else blocks @ [\<lparr>cb_value = v, cb_tokens = block_tokens F J v,
        cb_ttl = or_else ttl (if honor then extract_prompt_cache_ttl J (block_of_value v) else None),
        cb_is_message_end = is_message_end\<rparr>])"

definition stable_segment_explicit_ttl ::
    "('f, 'a) f64_casts_scheme \<Rightarrow> ('n, 'b) serde_scheme \<Rightarrow> 'n json \<Rightarrow> 'f stable_segment_policy \<Rightarrow> duration option" where
  "stable_segment_explicit_ttl F J v p =
     map_option (\<lambda>ttl. if HOUR_PROMPT_CACHE_TTL \<le> ttl then stable_segment_extended_ttl F p
       else stable_segment_default_ttl F p)
       (if jget ''cache_control'' v \<noteq> None then extract_prompt_cache_ttl J v
        else extract_prompt_cache_ttl J (JObject [(''cache_control'', v)]))"

definition opt_member :: "string \<Rightarrow> 'n json option \<Rightarrow> (string \<times> 'n json) list" where
  "opt_member k v = (case v of Some x \<Rightarrow> [(k, x)] | None \<Rightarrow> [])"

definition opt_json :: "'n json option \<Rightarrow> 'n json" where
  "opt_json v = (case v of Some x \<Rightarrow> x | None \<Rightarrow> JNull)"

definition text_block :: "string \<Rightarrow> (string \<times> 'n json) list" where
  "text_block t = [(''text'', JString t), (''type'', JString ''text'')]"

definition prelude_value :: "'n messages_request \<Rightarrow> 'n json" where
  "prelude_value req = JObject [(''kind'', JString ''request_prelude''), (''tool_choice'', opt_json (mr_tool_choice req))]"

definition tool_value :: "('n, 'b) serde_scheme \<Rightarrow> bool \<Rightarrow> 'n cache_tool \<Rightarrow> 'n json" where
  "tool_value J marked t = JObject ((if marked then opt_member ''cache_control'' (tool_cache_control t) else []) @
     [(''description'', JString (tool_description t)), (''input_schema'', JObject (tool_input_schema t)),
      (''kind'', JString ''tool''),
      (''max_uses'', opt_json (map_option (\<lambda>n. JNumber (num_of_i32 J n)) (tool_max_uses t))),
      (''name'', JString (tool_name t)), (''type'', opt_json (map_option JString (tool_type t)))])"

definition system_value :: "bool \<Rightarrow> 'n system_message \<Rightarrow> 'n json" where
  "system_value marked s = JObject [(''block'',
       JObject ((if marked then opt_member ''cache_control'' (sys_cache_control s) else []) @ text_block (sys_text s))),
     (''kind'', JString ''system'')]"

definition message_value :: "string \<Rightarrow> 'n json \<Rightarrow> 'n json" where
  "message_value role block = JObject [(''block'', block), (''kind'', JString ''message''), (''role'', JString role)]"

definition append_tool_block where
  "append_tool_block F J blocks t = append_cache_block F J blocks (tool_value J True t) False"

definition append_system_block where
  "append_system_block F J blocks s = append_cache_block F J blocks (system_value True s) False"

definition append_stable_segment_tool_block where
  "append_stable_segment_tool_block F J p blocks t =
     (let honor = sp_honor_explicit_cache_control p;
          explicit_ttl = (if honor then Option.bind (tool_cache_control t) (\<lambda>c. stable_segment_explicit_ttl F J c p) else None);
          ttl = or_else explicit_ttl (if sp_auto_cache_tools p then Some (stable_segment_default_ttl F p) else None)
      in append_stable_segment_cache_block F J blocks (tool_value J honor t) ttl honor False)"

definition append_stable_segment_system_block where
  "append_stable_segment_system_block F J p blocks s =
     (let honor = sp_honor_explicit_cache_control p;
          explicit_ttl = (if honor then Option.bind (sys_cache_control s) (\<lambda>c. stable_segment_explicit_ttl F J c p) else None);
          ttl = or_else explicit_ttl (if sp_auto_cache_system p then Some (stable_segment_default_ttl F p) else None)
      in append_stable_segment_cache_block F J blocks (system_value honor s) ttl honor False)"

definition append_message_blocks where
  "append_message_blocks F J blocks m = (case msg_content m of
     JString text \<Rightarrow> append_cache_block F J blocks (message_value (msg_role m) (JObject (text_block text))) True
   | JArray items \<Rightarrow>
       foldl (\<lambda>bs (i, item). append_cache_block F J bs (message_value (msg_role m) item) (i = length items - 1))
         blocks (enumerate 0 items)
   | JNull \<Rightarrow> blocks
   | other \<Rightarrow> append_cache_block F J blocks (message_value (msg_role m) other) True)"

definition append_stable_segment_message_blocks where
  "append_stable_segment_message_blocks F J p auto_breakpoint blocks m =
     (let honor = sp_honor_explicit_cache_control p;
          auto_ttl = Some (stable_segment_default_ttl F p);
          explicit = (\<lambda>v. if honor then Option.bind (jget ''cache_control'' v) (\<lambda>c. stable_segment_explicit_ttl F J c p) else None)
      in case msg_content m of
     JString text \<Rightarrow> append_stable_segment_cache_block F J blocks (message_value (msg_role m) (JObject (text_block text)))
       (if auto_breakpoint then auto_ttl else None) honor False
   | JArray items \<Rightarrow>
       foldl (\<lambda>bs (i, item). append_stable_segment_cache_block F J bs (message_value (msg_role m) item)
           (or_else (explicit item) (if auto_breakpoint \<and> i + 1 = length items then auto_ttl else None)) honor False)
         blocks (enumerate 0 items)
   | JNull \<Rightarrow> blocks
   | other \<Rightarrow> append_stable_segment_cache_block F J blocks (message_value (msg_role m) other)
       (or_else (explicit other) (if auto_breakpoint then auto_ttl else None)) honor False)"

definition append_kiro_rs_tool_message_blocks where
  "append_kiro_rs_tool_message_blocks F J auto_breakpoint blocks m =
     (let auto_ttl = Some DEFAULT_PROMPT_CACHE_TTL;
          explicit = (\<lambda>v. Option.bind (jget ''cache_control'' v) (extract_prompt_cache_ttl J))
      in case msg_content m of
     JString text \<Rightarrow> append_cache_block_with_forced_ttl F J blocks (message_value (msg_role m) (JObject (text_block text)))
       (if auto_breakpoint then auto_ttl else None)
   | JArray items \<Rightarrow>
       foldl (\<lambda>bs (i, item). append_cache_block_with_forced_ttl F J bs (message_value (msg_role m) item)
           (or_else (explicit item) (if auto_breakpoint \<and> i + 1 = length items then auto_ttl else None)))
         blocks (enumerate 0 items)
   | JNull \<Rightarrow> blocks
   | other \<Rightarrow> append_cache_block_with_forced_ttl F J blocks (message_value (msg_role m) other)
       (or_else (explicit other) (if auto_breakpoint then auto_ttl else None)))"

definition message_has_explicit_cache_control :: "'n cache_message \<Rightarrow> bool" where
  "message_has_explicit_cache_control m \<longleftrightarrow> (case msg_content m of
     JArray items \<Rightarrow> list_ex (\<lambda>item. jget ''cache_control'' item \<noteq> None) items
   | other \<Rightarrow> jget ''cache_control'' other \<noteq> None)"

subsection \<open>The stable prefix of the current user message\<close>

fun floor_boundary :: "string \<Rightarrow> nat \<Rightarrow> nat" where
  "floor_boundary s 0 = 0"
| "floor_boundary s (Suc n) = (if is_char_boundary s (Suc n) then Suc n else floor_boundary s n)"

lemma floor_boundary_le: "floor_boundary s n \<le> n"
  by (induction n) auto

lemma length_trim_end_take: "length (trim_end (take n s)) \<le> n"
  using trim_end_prefix [of "take n s"] by auto

lemma ninth_tenth_less: "n * 9 div 10 \<noteq> 0 \<Longrightarrow> n * 9 div 10 < (n::nat)"
  by linarith

lemma shrink_less [termination_simp]:
  assumes "length s * 9 div 10 \<noteq> 0"
  shows "length (trim_end (take (floor_boundary s (length s * 9 div 10)) s)) < length s"
proof -
  have "length (trim_end (take (floor_boundary s (length s * 9 div 10)) s)) \<le> length s * 9 div 10"
    using length_trim_end_take floor_boundary_le order_trans by blast
  then show ?thesis using ninth_tenth_less [OF assms] by linarith
qed

definition nine_tenths :: "string \<Rightarrow> string" where
  "nine_tenths s = trim_end (take (floor_boundary s (length s * 9 div 10)) s)"

lemma nine_tenths_less [termination_simp]: "length s * 9 div 10 \<noteq> 0 \<Longrightarrow> length (nine_tenths s) < length s"
  by (simp add: nine_tenths_def shrink_less)

definition prefix_value :: "string \<Rightarrow> string \<Rightarrow> 'n json" where
  "prefix_value role text = JObject [(''block'', JObject (text_block text)),
     (''kind'', JString ''current_user_stable_prefix''), (''role'', JString role)]"

text \<open>The loop changes only the text of the block it is given.\<close>

function shrink_current_user_prefix_value_to_token_cap ::
    "('f, 'a) f64_casts_scheme \<Rightarrow> ('n, 'b) serde_scheme \<Rightarrow> string \<Rightarrow> int \<Rightarrow> string \<Rightarrow> 'n json option" where
  "shrink_current_user_prefix_value_to_token_cap F J role max_tokens text =
     (if max_tokens \<le> 0 then None
      else if block_tokens F J (prefix_value role text) \<le> max_tokens then Some (prefix_value role text)
      else if length text * 9 div 10 = 0 then None
      else if nine_tenths text = [] then None
      else shrink_current_user_prefix_value_to_token_cap F J role max_tokens (nine_tenths text))"
  by pat_completeness auto
termination
  by (relation "measure (\<lambda>(_, _, _, _, text). length text)") (auto simp: nine_tenths_less)

function shrink_prefix :: "('f, 'a) f64_casts_scheme \<Rightarrow> int \<Rightarrow> string \<Rightarrow> string option" where
  "shrink_prefix F max_tokens prefix =
     (if prefix \<noteq> [] \<and> max_tokens < as_i32 (count_tokens F prefix) then
        (if length prefix * 9 div 10 = 0 then None else shrink_prefix F max_tokens (nine_tenths prefix))
      else if prefix = [] then None else Some prefix)"
  by pat_completeness auto
termination
  by (relation "measure (\<lambda>(_, _, prefix). length prefix)") (auto simp: nine_tenths_less)

declare shrink_current_user_prefix_value_to_token_cap.simps [simp del] shrink_prefix.simps [simp del]

definition stable_prefix_text_with_token_cap ::
    "('f, 'a) f64_casts_scheme \<Rightarrow> string \<Rightarrow> int \<Rightarrow> string option" where
  "stable_prefix_text_with_token_cap F text max_tokens =
     (let trimmed = trim text; full_tokens = as_i32 (count_tokens F trimmed) in
      if trimmed = [] \<or> max_tokens \<le> 0 then None
      else if full_tokens \<le> max_tokens then Some trimmed
      else
        (let max_chars = min (max (f_floor_usize F (f_mul F (f_of_nat F (length trimmed))
               (f_div F (f_of_int F max_tokens) (f_of_int F full_tokens)))) 1) (length trimmed)
         in shrink_prefix F max_tokens (trim_end (take (floor_boundary trimmed max_chars) trimmed))))"

definition join_lines :: "string list \<Rightarrow> string" where
  "join_lines ts = (case ts of [] \<Rightarrow> [] | t # ts \<Rightarrow> t @ concat (map (\<lambda>t. CHR 0x0A # t) ts))"

definition current_user_stable_prefix_text ::
    "('f, 'a) f64_casts_scheme \<Rightarrow> 'n json \<Rightarrow> int \<Rightarrow> string option" where
  "current_user_stable_prefix_text F content max_tokens = (case content of
     JString text \<Rightarrow> stable_prefix_text_with_token_cap F text max_tokens
   | JArray items \<Rightarrow>
       stable_prefix_text_with_token_cap F (join_lines (List.map_filter (\<lambda>item.
         if Option.bind (jget ''type'' item) json_str = Some ''text''
         then Option.bind (jget ''text'' item) json_str else None) items)) max_tokens
   | _ \<Rightarrow> None)"

definition append_current_user_stable_prefix_block ::
    "('f, 'a) f64_casts_scheme \<Rightarrow> ('n, 'b) serde_scheme \<Rightarrow> 'n cache_block list \<Rightarrow> 'n cache_message \<Rightarrow> int
     \<Rightarrow> duration \<Rightarrow> 'n cache_block list" where
  "append_current_user_stable_prefix_block F J blocks m max_tokens ttl =
     (if max_tokens \<le> 0 then blocks
      else case current_user_stable_prefix_text F (msg_content m) max_tokens of
        None \<Rightarrow> blocks
      | Some text \<Rightarrow>
          if trim text = [] then blocks
          else (case shrink_current_user_prefix_value_to_token_cap F J (msg_role m) max_tokens text of
            None \<Rightarrow> blocks
          | Some v \<Rightarrow> append_cache_block_with_forced_ttl F J blocks v (Some ttl)))"

definition append_kiro_rs_tool_current_user_stable_prefix_block where
  "append_kiro_rs_tool_current_user_stable_prefix_block F J blocks m p =
     append_current_user_stable_prefix_block F J blocks m
       (max (kp_current_user_stable_prefix_max_tokens p) 0) DEFAULT_PROMPT_CACHE_TTL"

subsection \<open>The blocks of the three strategies\<close>

definition opt_list :: "'a list option \<Rightarrow> 'a list" where
  "opt_list xs = (case xs of Some ys \<Rightarrow> ys | None \<Rightarrow> [])"

definition flatten_cache_blocks ::
    "('f, 'a) f64_casts_scheme \<Rightarrow> ('n, 'b) serde_scheme \<Rightarrow> 'n messages_request \<Rightarrow> 'n cache_block list" where
  "flatten_cache_blocks F J req =
     (let blocks = append_cache_block F J [] (prelude_value req) False;
          blocks = foldl (append_tool_block F J) blocks (opt_list (mr_tools req));
          blocks = foldl (append_system_block F J) blocks (opt_list (mr_system req))
      in foldl (append_message_blocks F J) blocks (mr_messages req))"

definition mark_last_block :: "'n cache_block list \<Rightarrow> 'n cache_block list" where
  "mark_last_block blocks = (if blocks = [] then []
     else butlast blocks @ [(last blocks)\<lparr>cb_ttl := or_else (cb_ttl (last blocks)) (Some DEFAULT_PROMPT_CACHE_TTL)\<rparr>])"

definition kiro_rs_tool_cache_blocks ::
    "('f, 'a) f64_casts_scheme \<Rightarrow> ('n, 'b) serde_scheme \<Rightarrow> 'n messages_request \<Rightarrow> 'f kiro_rs_tool_policy
     \<Rightarrow> 'n cache_block list" where
  "kiro_rs_tool_cache_blocks F J req p =
     (let p = kiro_policy_normalized F p;
          blocks = foldl (append_tool_block F J) [] (opt_list (mr_tools req));
          system = opt_list (mr_system req);
          marked = dropWhile (\<lambda>s. sys_cache_control s = None) system;
          blocks = foldl (append_system_block F J) blocks (if marked = [] then system else marked);
          blocks = mark_last_block blocks;
          cache_prefix = (kp_cache_current_user_stable_prefix p \<and> 0 < kp_current_user_stable_prefix_max_tokens p);
          last_idx = length (mr_messages req) - 1
      in foldl (\<lambda>bs (i, m).
           if cache_prefix \<and> i = last_idx \<and> msg_role m = ''user'' \<and> \<not> message_has_explicit_cache_control m
           then append_kiro_rs_tool_current_user_stable_prefix_block F J bs m p
           else append_kiro_rs_tool_message_blocks F J (i \<noteq> last_idx) bs m)
         blocks (enumerate 0 (mr_messages req)))"

definition stable_segment_cache_blocks ::
    "('f, 'a) f64_casts_scheme \<Rightarrow> ('n, 'b) serde_scheme \<Rightarrow> 'n messages_request \<Rightarrow> 'f stable_segment_policy
     \<Rightarrow> 'n cache_block list" where
  "stable_segment_cache_blocks F J req p =
     (let p = stable_policy_normalized F p;
          msgs = mr_messages req;
          ends_with_user = (msgs \<noteq> [] \<and> to_ascii_lowercase (msg_role (last msgs)) = ''user'');
          blocks = append_stable_segment_cache_block F J [] (prelude_value req) None
            (sp_honor_explicit_cache_control p) False;
          blocks = (if sp_include_tools p
            then foldl (append_stable_segment_tool_block F J p) blocks (opt_list (mr_tools req)) else blocks);
          blocks = (if sp_include_system p
            then foldl (append_stable_segment_system_block F J p) blocks (opt_list (mr_system req)) else blocks);
          history = (if ends_with_user then butlast msgs else msgs);
          start = (if sp_history_message_limit p = 0 then 0 else length history - sp_history_message_limit p);
          blocks = (if sp_include_history p
            then foldl (append_stable_segment_message_blocks F J p (sp_auto_cache_history_message_ends p)) blocks (drop start history)
            else blocks)
      in if sp_cache_current_user_stable_prefix p \<and> 0 < sp_current_user_stable_prefix_max_tokens p \<and> ends_with_user \<and>
            \<not> message_has_explicit_cache_control (last msgs)
         then append_current_user_stable_prefix_block F J blocks (last msgs)
           (sp_current_user_stable_prefix_max_tokens p) (stable_segment_default_ttl F p)
         else blocks)"

subsection \<open>Profiles\<close>

record lookup_point =
  lp_fingerprint :: fingerprint
  lp_cumulative_tokens :: int

record prompt_cache_profile =
  pr_breakpoints :: "duration list"
  pr_lookup_points :: "lookup_point list"
  pr_total_input_tokens :: int
  pr_model :: string
  pr_suppress_first_turn_fallback_read :: bool

fun nat_text :: "nat \<Rightarrow> string" where
  "nat_text n = (if n < 10 then [char_of (48 + n)] else nat_text (n div 10) @ [char_of (48 + n mod 10)])"

declare nat_text.simps [simp del]

definition hash_chunk :: "string \<Rightarrow> u8 list" where
  "hash_chunk s = bytes_of_string (nat_text (length s)) @ [0] @ bytes_of_string s @ [0]"

text \<open>\<open>i32\<close> addition, which wraps around in a release build.\<close>

definition add_i32 :: "int \<Rightarrow> int \<Rightarrow> int" where
  "add_i32 a b = sint (word_of_int (a + b) :: 32 word)"

text \<open>The loop of \<open>build_profile_with_blocks\<close>: breakpoints, lookup points and the sum of tokens.\<close>

fun scan_blocks ::
    "(u8 list \<Rightarrow> fingerprint) \<Rightarrow> ('n, 'b) serde_scheme \<Rightarrow> bool \<Rightarrow> u8 list \<Rightarrow> int \<Rightarrow> duration option \<Rightarrow> 'n cache_block list
     \<Rightarrow> duration list \<times> lookup_point list \<times> int" where
  "scan_blocks sha J every hashed cumulative active [] = ([], [], cumulative)"
| "scan_blocks sha J every hashed cumulative active (b # bs) =
     (let hashed = hashed @ hash_chunk (canonicalize_cache_value J (cb_value b));
          cumulative = add_i32 cumulative (cb_tokens b);
          breakpoint = (case cb_ttl b of Some t \<Rightarrow> Some t | None \<Rightarrow> if cb_is_message_end b then active else None);
          active = or_else (cb_ttl b) active;
          (breakpoints, points, total) = scan_blocks sha J every hashed cumulative active bs
      in ((case breakpoint of Some t \<Rightarrow> t # breakpoints | None \<Rightarrow> breakpoints),
          (if every \<or> breakpoint \<noteq> None
           then \<lparr>lp_fingerprint = sha hashed, lp_cumulative_tokens = cumulative\<rparr> # points else points),
          total))"

definition build_profile_with_blocks ::
    "(u8 list \<Rightarrow> fingerprint) \<Rightarrow> ('n, 'b) serde_scheme \<Rightarrow> 'n cache_block list \<Rightarrow> int \<Rightarrow> string \<Rightarrow> bool \<Rightarrow> bool \<Rightarrow> bool
     \<Rightarrow> prompt_cache_profile option" where
  "build_profile_with_blocks sha J blocks total_input_tokens cache_model synthesize every suppress =
     (if blocks = [] then None
      else
        (let (breakpoints, points, cumulative) = scan_blocks sha J every [] 0 None blocks;
             breakpoints = (if breakpoints = [] \<and> synthesize then [DEFAULT_PROMPT_CACHE_TTL] else breakpoints)
         in if breakpoints = [] then None
            else Some \<lparr>pr_breakpoints = breakpoints, pr_lookup_points = points,
              pr_total_input_tokens = max total_input_tokens cumulative, pr_model = cache_model,
              pr_suppress_first_turn_fallback_read = suppress\<rparr>))"

definition is_first_turn :: "'n messages_request \<Rightarrow> bool" where
  "is_first_turn req \<longleftrightarrow> \<not> list_ex (\<lambda>m. to_ascii_lowercase (msg_role m) = ''assistant'') (mr_messages req)"

definition is_valid_uuid :: "string \<Rightarrow> bool" where
  "is_valid_uuid v \<longleftrightarrow> length v = 36 \<and>
     list_all (\<lambda>(i, c). if i \<in> {8, 13, 18, 23} then c = CHR ''-'' else is_ascii_hexdigit c) (enumerate 0 v)"

text \<open>\<open>&s[..n]\<close> panics and \<open>s.get(..n)\<close> fails unless \<open>n\<close> is a boundary between characters.\<close>

definition str_slice_to :: "string \<Rightarrow> nat \<Rightarrow> ('e, string) outcome" where
  "str_slice_to s n = (if n \<le> length s \<and> is_char_boundary s n then Ok (take n s) else Panic)"

definition str_get_to :: "string \<Rightarrow> nat \<Rightarrow> string option" where
  "str_get_to s n = (if n \<le> length s \<and> is_char_boundary s n then Some (take n s) else None)"

text \<open>\<open>from_str\<close> is \<open>serde_json::from_str\<close>.\<close>

definition json_session_id :: "(string \<Rightarrow> 'n json option) \<Rightarrow> string \<Rightarrow> string option" where
  "json_session_id from_str user_id =
     Option.bind (Option.bind (from_str user_id) (jget ''session_id'')) json_str"

definition metadata_user_id_has_session_id ::
    "(string \<Rightarrow> 'n json option) \<Rightarrow> string \<Rightarrow> (unit, bool) outcome" where
  "metadata_user_id_has_session_id from_str user_id =
     (if case json_session_id from_str user_id of None \<Rightarrow> False | Some s \<Rightarrow> is_valid_uuid s then Ok True
      else case str_find user_id ''session_'' of
        None \<Rightarrow> Ok False
      | Some pos \<Rightarrow>
          (let session_part = drop (pos + 8) user_id in
           if 36 \<le> length session_part
           then obind (str_slice_to session_part 36) (\<lambda>s. Ok (is_valid_uuid s)) else Ok False))"

text \<open>\<open>converter.rs\<close> has a check of its own under the name \<open>is_valid_uuid\<close>: 36 bytes of which four are
  dashes, wherever they stand.\<close>

definition converter_is_valid_uuid :: "string \<Rightarrow> bool" where
  "converter_is_valid_uuid s \<longleftrightarrow> length s = 36 \<and> length (filter (\<lambda>c. c = CHR ''-'') s) = 4"

definition extract_session_id :: "(string \<Rightarrow> 'n json option) \<Rightarrow> string \<Rightarrow> string option" where
  "extract_session_id from_str user_id =
     (case Option.bind (json_session_id from_str user_id) (\<lambda>s. if converter_is_valid_uuid s then Some s else None) of
        Some s \<Rightarrow> Some s
      | None \<Rightarrow>
          (case str_find user_id ''session_'' of
             None \<Rightarrow> None
           | Some pos \<Rightarrow> Option.bind (str_get_to (drop (pos + 8) user_id) 36)
               (\<lambda>s. if converter_is_valid_uuid s then Some s else None)))"

definition build_high_cache_profile_for_model ::
    "('f, 'a) f64_casts_scheme \<Rightarrow> (u8 list \<Rightarrow> fingerprint) \<Rightarrow> ('n, 'b) serde_scheme \<Rightarrow> (string \<Rightarrow> 'n json option)
     \<Rightarrow> 'n messages_request \<Rightarrow> int \<Rightarrow> string \<Rightarrow> (unit, prompt_cache_profile option) outcome" where
  "build_high_cache_profile_for_model F sha J from_str req total_input_tokens cache_model =
     obind (case mr_user_id req of None \<Rightarrow> Ok False | Some u \<Rightarrow> metadata_user_id_has_session_id from_str u) (\<lambda>has_id.
       Ok (build_profile_with_blocks sha J (flatten_cache_blocks F J req) total_input_tokens cache_model True True
         (\<not> has_id \<and> is_first_turn req)))"

definition build_kiro_rs_tool_profile_for_model where
  "build_kiro_rs_tool_profile_for_model F sha J req total_input_tokens cache_model p =
     build_profile_with_blocks sha J (kiro_rs_tool_cache_blocks F J req p) total_input_tokens cache_model False False False"

definition build_stable_segment_profile_for_model where
  "build_stable_segment_profile_for_model F sha J req total_input_tokens cache_model p =
     build_profile_with_blocks sha J (stable_segment_cache_blocks F J req (stable_policy_normalized F p))
       total_input_tokens cache_model False False False"

end
