(* ===== verification/Cache_Usage.thy ===== *)
theory Cache_Usage
  imports Cache_Blocks
begin

text \<open>
  Reading and writing the simulated prompt cache (\<open>src/anthropic/prompt_cache.rs\<close>): the usage a
  request is told, for the three strategies, and the entries its success leaves.  \<open>Utc::now()\<close> is the
  argument \<open>now\<close>; the lock makes every operation one step on the table.
\<close>

subsection \<open>Model\<close>

definition DEFAULT_MIN_CACHEABLE_TOKENS :: int where "DEFAULT_MIN_CACHEABLE_TOKENS = 1024"
definition EXTENDED_MIN_CACHEABLE_TOKENS :: int where "EXTENDED_MIN_CACHEABLE_TOKENS = 4096"
definition HAIKU_3_MIN_CACHEABLE_TOKENS :: int where "HAIKU_3_MIN_CACHEABLE_TOKENS = 2048"

record 'f prompt_cache_usage =
  pu_cache_creation_input_tokens :: int
  pu_cache_read_input_tokens :: int
  pu_cache_creation_5m_input_tokens :: int
  pu_cache_creation_1h_input_tokens :: int
  pu_effective_cache_ratio :: "'f option"

definition usage_default :: "'f prompt_cache_usage" where
  "usage_default = \<lparr>pu_cache_creation_input_tokens = 0, pu_cache_read_input_tokens = 0,
     pu_cache_creation_5m_input_tokens = 0, pu_cache_creation_1h_input_tokens = 0, pu_effective_cache_ratio = None\<rparr>"

definition min_cacheable_tokens_for_model :: "(string \<Rightarrow> string) \<Rightarrow> string \<Rightarrow> int" where
  "min_cacheable_tokens_for_model lower model =
     (let m = map (\<lambda>c. if c = CHR ''_'' then CHR ''-'' else c) (lower model) in
      if str_contains m ''haiku'' then
        (if str_contains m ''3-5'' \<or> str_contains m ''3.5'' then HAIKU_3_MIN_CACHEABLE_TOKENS
         else EXTENDED_MIN_CACHEABLE_TOKENS)
      else if str_contains m ''opus'' \<and>
        (m = ''opus'' \<or> m = ''opusplan'' \<or> str_contains m ''4-5'' \<or> str_contains m ''4.5'' \<or>
         str_contains m ''4-6'' \<or> str_contains m ''4.6'' \<or> str_contains m ''4-7'' \<or> str_contains m ''4.7'')
      then EXTENDED_MIN_CACHEABLE_TOKENS
      else DEFAULT_MIN_CACHEABLE_TOKENS)"

definition cache_jitter_seed :: "prompt_cache_profile \<Rightarrow> u64" where
  "cache_jitter_seed p = (if pr_lookup_points p = [] then 0
     else from_be_bytes (take 8 (lp_fingerprint (last (pr_lookup_points p)))))"

definition deterministic_ratio_unit :: "('f, 'm) f64_casts_scheme \<Rightarrow> prompt_cache_profile \<Rightarrow> 'f" where
  "deterministic_ratio_unit F p = (if pr_lookup_points p = [] then f_lit F 1 2
     else f_div F (f_of_nat F (unat (from_be_bytes (take 8 (lp_fingerprint (last (pr_lookup_points p)))) :: u64)))
       (f_of_nat F (2 ^ 64 - 1)))"

definition effective_cache_read_ratio ::
    "('f, 'm) f64_casts_scheme \<Rightarrow> prompt_cache_profile \<Rightarrow> 'f \<Rightarrow> 'f" where
  "effective_cache_read_ratio F p target_read_ratio =
     (let target = f_clamp F (f_lit F 0 1) (f_lit F 99 100) target_read_ratio in
      if f_le F target (f_lit F 0 1) then f_lit F 0 1
      else
        (let low = f_max F (f_sub F target (f_lit F 3 100)) (f_lit F 0 1);
             high = f_min F (f_add F target (f_lit F 3 100)) (f_lit F 99 100)
         in if f_le F high low then low
            else f_add F low (f_mul F (deterministic_ratio_unit F p) (f_sub F high low))))"

definition target_cache_tokens :: "('f, 'm) f64_casts_scheme \<Rightarrow> int \<Rightarrow> 'f \<Rightarrow> int \<Rightarrow> int" where
  "target_cache_tokens F total_input_tokens ratio min_tokens =
     (if total_input_tokens \<le> 1 then 0
      else
        (let target = f_round_i32 F (f_mul F (f_of_int F total_input_tokens)
               (f_clamp F (f_lit F 0 1) (f_lit F 99 100) ratio));
             target = clamp 0 (total_input_tokens - 1) target
         in if min_tokens \<le> target then target else 0))"

definition target_ttl_breakdown :: "prompt_cache_profile \<Rightarrow> int \<Rightarrow> int \<times> int" where
  "target_ttl_breakdown p creation =
     (if creation \<le> 0 then (0, 0)
      else if HOUR_PROMPT_CACHE_TTL \<le> (if pr_breakpoints p = [] then DEFAULT_PROMPT_CACHE_TTL else last (pr_breakpoints p))
      then (0, creation) else (creation, 0))"

definition usage_of :: "prompt_cache_profile \<Rightarrow> int \<Rightarrow> int \<Rightarrow> 'f option \<Rightarrow> 'f prompt_cache_usage" where
  "usage_of p creation read_tokens ratio =
     (let (cache5m, cache1h) = target_ttl_breakdown p creation in
      \<lparr>pu_cache_creation_input_tokens = creation, pu_cache_read_input_tokens = read_tokens,
       pu_cache_creation_5m_input_tokens = cache5m, pu_cache_creation_1h_input_tokens = cache1h,
       pu_effective_cache_ratio = ratio\<rparr>)"

definition creation_only_usage :: "prompt_cache_profile \<Rightarrow> int \<Rightarrow> 'f \<Rightarrow> 'f prompt_cache_usage" where
  "creation_only_usage p target_tokens ratio = usage_of p target_tokens 0 (Some ratio)"

text \<open>
  The loop over the lookup points from the longest prefix on: the first point that is long enough and
  has an entry that is still alive; its entry is renewed.
\<close>

fun read_points ::
    "int \<Rightarrow> prompt_cache_bounds \<Rightarrow> (lookup_point \<Rightarrow> bool) \<Rightarrow> lookup_point list \<Rightarrow> cache_entries
     \<Rightarrow> (lookup_point \<times> prompt_cache_entry) option \<times> cache_entries" where
  "read_points now b eligible [] m = (None, m)"
| "read_points now b eligible (p # ps) m =
     (if \<not> eligible p then read_points now b eligible ps m
      else case map_of m (lp_fingerprint p) of
        None \<Rightarrow> read_points now b eligible ps m
      | Some e \<Rightarrow>
          if pe_expires_at e \<le> now then read_points now b eligible ps m
          else (Some (p, e), AList.update (lp_fingerprint p)
            (e\<lparr>pe_last_used_at := now, pe_expires_at := now + chrono_duration (effective_ttl b (pe_ttl e))\<rparr>) m))"

definition read_scope ::
    "int \<Rightarrow> prompt_cache_bounds \<Rightarrow> (lookup_point \<Rightarrow> bool) \<Rightarrow> prompt_cache_scope \<Rightarrow> lookup_point list \<Rightarrow> prompt_cache_state
     \<Rightarrow> (lookup_point \<times> prompt_cache_entry) option \<times> prompt_cache_state" where
  "read_scope now b eligible s points st = (case map_of (by_scope st) s of
     None \<Rightarrow> (None, st)
   | Some m \<Rightarrow>
       (let (found, m) = read_points now b eligible (rev points) m
        in (found, st\<lparr>by_scope := AList.update s m (by_scope st)\<rparr>)))"

definition compute_with_bounds ::
    "('f, 'm) f64_casts_scheme \<Rightarrow> (string \<Rightarrow> string) \<Rightarrow> int \<Rightarrow> prompt_cache_scope option \<Rightarrow> prompt_cache_profile option
     \<Rightarrow> 'f \<Rightarrow> prompt_cache_bounds \<Rightarrow> prompt_cache_state \<Rightarrow> 'f prompt_cache_usage \<times> prompt_cache_state" where
  "compute_with_bounds F lower now scope profile target_read_ratio b st = (case (scope, profile) of
     (Some s, Some p) \<Rightarrow>
       if pr_breakpoints p = [] then (usage_default, st)
       else
         (let min_tokens = min_cacheable_tokens_for_model lower (pr_model p);
              ratio = effective_cache_read_ratio F p target_read_ratio;
              target = target_cache_tokens F (pr_total_input_tokens p) ratio min_tokens
          in if target \<le> 0 then (usage_default, st)
             else if pr_suppress_first_turn_fallback_read p then (creation_only_usage p target ratio, st)
             else
               (let st = prune_expired_if_due now st in
                case map_of (by_scope st) s of
                  None \<Rightarrow> (creation_only_usage p target ratio, st)
                | Some _ \<Rightarrow>
                    (let (found, st) = read_scope now b (\<lambda>point. min_tokens \<le> lp_cumulative_tokens point) s (pr_lookup_points p) st;
                         matched = (case found of None \<Rightarrow> 0 | Some (_, e) \<Rightarrow> max (min (pe_cached_tokens e) target) 0)
                     in (usage_of p (max (target - matched) 0) matched (Some ratio), st))))
   | _ \<Rightarrow> (usage_default, st))"

definition new_entry :: "int \<Rightarrow> duration \<Rightarrow> int \<Rightarrow> prompt_cache_entry" where
  "new_entry now ttl tokens = \<lparr>pe_expires_at = now + chrono_duration ttl, pe_ttl = ttl,
     pe_last_used_at = now, pe_cached_tokens = tokens\<rparr>"

text \<open>The loop that writes an entry for every lookup point \<open>tokens_of\<close> gives a number of tokens for.\<close>

definition write_points ::
    "int \<Rightarrow> duration \<Rightarrow> prompt_cache_scope \<Rightarrow> (lookup_point \<Rightarrow> int option) \<Rightarrow> lookup_point list
     \<Rightarrow> prompt_cache_state \<Rightarrow> prompt_cache_state" where
  "write_points now ttl s tokens_of points st =
     foldl (\<lambda>st p. case tokens_of p of None \<Rightarrow> st
       | Some n \<Rightarrow> cache_insert s (lp_fingerprint p) (new_entry now ttl n) st) st points"

definition last_breakpoint_ttl :: "duration \<Rightarrow> prompt_cache_profile \<Rightarrow> duration" where
  "last_breakpoint_ttl d p = (if pr_breakpoints p = [] then d else last (pr_breakpoints p))"

definition scaled_tokens :: "('f, 'm) f64_casts_scheme \<Rightarrow> int \<Rightarrow> int \<Rightarrow> int \<Rightarrow> lookup_point \<Rightarrow> int option" where
  "scaled_tokens F flat_total target min_tokens p =
     (let scaled = f_round_i32 F (f_mul F (f_div F (f_of_int F (lp_cumulative_tokens p)) (f_of_int F flat_total))
            (f_of_int F target));
          cached_tokens = max (min scaled target) 0
      in if cached_tokens < min_tokens then None else Some cached_tokens)"

definition update_with_bounds ::
    "('f, 'm) f64_casts_scheme \<Rightarrow> (string \<Rightarrow> string) \<Rightarrow> int \<Rightarrow> prompt_cache_scope option \<Rightarrow> prompt_cache_profile option
     \<Rightarrow> 'f \<Rightarrow> prompt_cache_bounds \<Rightarrow> prompt_cache_state \<Rightarrow> prompt_cache_state" where
  "update_with_bounds F lower now scope profile target_read_ratio b st = (case (scope, profile) of
     (Some s, Some p) \<Rightarrow>
       if pr_breakpoints p = [] \<or> pr_lookup_points p = [] then st
       else
         (let min_tokens = min_cacheable_tokens_for_model lower (pr_model p);
              ratio = effective_cache_read_ratio F p target_read_ratio;
              target = target_cache_tokens F (pr_total_input_tokens p) ratio min_tokens;
              flat_total = lp_cumulative_tokens (last (pr_lookup_points p))
          in if target \<le> 0 \<or> flat_total \<le> 0 then st
             else enforce_bounds s b now
               (write_points now (write_entry_ttl b (last_breakpoint_ttl DEFAULT_PROMPT_CACHE_TTL p)) s
                 (scaled_tokens F flat_total target min_tokens) (pr_lookup_points p)
                 (prune_expired_if_due now st)))
   | _ \<Rightarrow> st)"

definition apply_coverage_limits :: "('f, 'm) f64_casts_scheme \<Rightarrow> int \<Rightarrow> 'f \<Rightarrow> int \<Rightarrow> int" where
  "apply_coverage_limits F covered ratio max_coverage =
     (let covered = max covered 0;
          covered = (if f_less F ratio (f_lit F 1 1) then f_floor_i32 F (f_mul F (f_of_int F covered) ratio) else covered);
          covered = (if 0 < max_coverage then min covered max_coverage else covered)
      in max covered 0)"

definition apply_kiro_rs_tool_coverage_policy where
  "apply_kiro_rs_tool_coverage_policy F covered p =
     (let p = kiro_policy_normalized F p in apply_coverage_limits F covered (kp_coverage_ratio p) (kp_max_coverage_tokens p))"

definition apply_stable_segment_coverage_policy where
  "apply_stable_segment_coverage_policy F covered p =
     (let p = stable_policy_normalized F p in apply_coverage_limits F covered (sp_coverage_ratio p) (sp_max_coverage_tokens p))"

text \<open>The common end of the two segment strategies.\<close>

definition segment_usage ::
    "('f, 'm) f64_casts_scheme \<Rightarrow> prompt_cache_profile \<Rightarrow> int \<Rightarrow> bool \<Rightarrow> int \<Rightarrow> (lookup_point \<times> prompt_cache_entry) option
     \<Rightarrow> 'f prompt_cache_usage" where
  "segment_usage F p covered incremental max_new found =
     (let read_tokens = (case found of None \<Rightarrow> 0
            | Some (point, e) \<Rightarrow> max (min (min (lp_cumulative_tokens point) (pe_cached_tokens e)) covered) 0);
          creation = max (covered - read_tokens) 0;
          creation = (if \<not> incremental \<and> 0 < read_tokens then 0 else creation);
          creation = (if 0 < max_new then min creation max_new else creation)
      in usage_of p creation read_tokens
        (if 0 < pr_total_input_tokens p
         then Some (f_div F (f_of_int F covered) (f_of_int F (pr_total_input_tokens p))) else None))"

definition compute_kiro_rs_tool_profile_with_bounds ::
    "('f, 'm) f64_casts_scheme \<Rightarrow> int \<Rightarrow> prompt_cache_scope option \<Rightarrow> prompt_cache_profile option \<Rightarrow> prompt_cache_bounds
     \<Rightarrow> 'f kiro_rs_tool_policy \<Rightarrow> prompt_cache_state \<Rightarrow> 'f prompt_cache_usage \<times> prompt_cache_state" where
  "compute_kiro_rs_tool_profile_with_bounds F now scope profile b policy st =
     (let policy = kiro_policy_normalized F policy in case (scope, profile) of
     (Some s, Some p) \<Rightarrow>
       if pr_lookup_points p = [] \<or> lp_cumulative_tokens (last (pr_lookup_points p)) \<le> 0 then (usage_default, st)
       else
         (let covered = apply_kiro_rs_tool_coverage_policy F (lp_cumulative_tokens (last (pr_lookup_points p))) policy in
          if covered \<le> 0 then (usage_default, st)
          else
            (let (found, st) = read_scope now b (\<lambda>_. True) s (pr_lookup_points p) (prune_expired_if_due now st)
             in (segment_usage F p covered (kp_incremental_create_enabled policy)
                   (kp_max_new_creation_tokens_per_request policy) found, st)))
   | _ \<Rightarrow> (usage_default, st))"

definition compute_stable_segment_profile_with_bounds ::
    "('f, 'm) f64_casts_scheme \<Rightarrow> int \<Rightarrow> prompt_cache_scope option \<Rightarrow> prompt_cache_profile option \<Rightarrow> prompt_cache_bounds
     \<Rightarrow> 'f stable_segment_policy \<Rightarrow> prompt_cache_state \<Rightarrow> 'f prompt_cache_usage \<times> prompt_cache_state" where
  "compute_stable_segment_profile_with_bounds F now scope profile b policy st =
     (let policy = stable_policy_normalized F policy in case (scope, profile) of
     (Some s, Some p) \<Rightarrow>
       if pr_total_input_tokens p < sp_min_total_input_tokens policy \<or> pr_lookup_points p = [] then (usage_default, st)
       else
         (let covered = apply_stable_segment_coverage_policy F (max (lp_cumulative_tokens (last (pr_lookup_points p))) 0) policy in
          if covered < max (sp_min_segment_tokens policy) 1 then (usage_default, st)
          else
            (let (found, st) = read_scope now b (\<lambda>point. sp_min_segment_tokens policy \<le> lp_cumulative_tokens point) s (pr_lookup_points p) (prune_expired_if_due now st)
             in (segment_usage F p covered (sp_incremental_create_enabled policy)
                   (sp_max_new_creation_tokens_per_request policy) found, st)))
   | _ \<Rightarrow> (usage_default, st))"

definition update_stable_segment_profile_with_bounds ::
    "('f, 'm) f64_casts_scheme \<Rightarrow> int \<Rightarrow> prompt_cache_scope option \<Rightarrow> prompt_cache_profile option \<Rightarrow> prompt_cache_bounds
     \<Rightarrow> 'f stable_segment_policy \<Rightarrow> int \<Rightarrow> prompt_cache_state \<Rightarrow> prompt_cache_state" where
  "update_stable_segment_profile_with_bounds F now scope profile b policy committed st = (case (scope, profile) of
     (Some s, Some p) \<Rightarrow>
       (let policy = stable_policy_normalized F policy; committed = max committed 0 in
        if pr_total_input_tokens p < sp_min_total_input_tokens policy \<or> pr_lookup_points p = [] \<or>
           committed < max (sp_min_segment_tokens policy) 1
        then st
        else enforce_bounds s b now
          (write_points now (write_entry_ttl b (last_breakpoint_ttl (stable_segment_default_ttl F policy) p)) s
            (\<lambda>point. if lp_cumulative_tokens point < sp_min_segment_tokens policy then None
              else let n = max (min (lp_cumulative_tokens point) committed) 0
                   in if n < max (sp_min_segment_tokens policy) 1 then None else Some n)
            (pr_lookup_points p) (prune_expired_if_due now st)))
   | _ \<Rightarrow> st)"

definition update_kiro_rs_tool_profile_with_bounds ::
    "int \<Rightarrow> prompt_cache_scope option \<Rightarrow> prompt_cache_profile option \<Rightarrow> prompt_cache_bounds \<Rightarrow> int
     \<Rightarrow> prompt_cache_state \<Rightarrow> prompt_cache_state" where
  "update_kiro_rs_tool_profile_with_bounds now scope profile b committed st = (case (scope, profile) of
     (Some s, Some p) \<Rightarrow>
       (let committed = max committed 0 in
        if pr_lookup_points p = [] \<or> committed \<le> 0 then st
        else enforce_bounds s b now
          (write_points now (write_entry_ttl b (last_breakpoint_ttl DEFAULT_PROMPT_CACHE_TTL p)) s
            (\<lambda>point. let n = max (min (lp_cumulative_tokens point) committed) 0 in if n \<le> 0 then None else Some n)
            (pr_lookup_points p) (prune_expired_if_due now st)))
   | _ \<Rightarrow> st)"

text \<open>A plan keeps the profile with the usage, so that the success of the request can be committed.\<close>

record 'f cache_plan =
  plan_profile :: "prompt_cache_profile option"
  plan_usage :: "'f prompt_cache_usage"
  plan_committed_cache_tokens :: int

definition sat_i32 :: "int \<Rightarrow> int" where
  "sat_i32 x = max (- (2 ^ 31)) (min x (2 ^ 31 - 1))"

definition plan_of :: "prompt_cache_profile option \<Rightarrow> 'f prompt_cache_usage \<Rightarrow> 'f cache_plan" where
  "plan_of profile usage = \<lparr>plan_profile = profile, plan_usage = usage,
     plan_committed_cache_tokens =
       max (sat_i32 (pu_cache_read_input_tokens usage + pu_cache_creation_input_tokens usage)) 0\<rparr>"

definition compute_kiro_rs_tool_with_bounds where
  "compute_kiro_rs_tool_with_bounds F sha J now scope req total_input_tokens cache_model b policy st =
     (let policy = kiro_policy_normalized F policy;
          profile = build_kiro_rs_tool_profile_for_model F sha J req total_input_tokens cache_model policy;
          (usage, st) = compute_kiro_rs_tool_profile_with_bounds F now scope profile b policy st
      in (plan_of profile usage, st))"

definition commit_kiro_rs_tool_success_with_bounds where
  "commit_kiro_rs_tool_success_with_bounds now scope plan b st =
     update_kiro_rs_tool_profile_with_bounds now scope (plan_profile plan) b (plan_committed_cache_tokens plan) st"

definition compute_stable_segment_with_profile_bounds where
  "compute_stable_segment_with_profile_bounds F now scope profile b policy st =
     (let policy = stable_policy_normalized F policy;
          (usage, st) = compute_stable_segment_profile_with_bounds F now scope profile b policy st
      in (plan_of profile usage, st))"

definition commit_stable_segment_success_with_bounds where
  "commit_stable_segment_success_with_bounds F now scope plan b policy st =
     update_stable_segment_profile_with_bounds F now scope (plan_profile plan) b policy (plan_committed_cache_tokens plan) st"

subsection \<open>Every operation keeps the table well-formed\<close>

definition live :: "int \<Rightarrow> scope_entries \<Rightarrow> prompt_cache_scope \<times> fingerprint \<Rightarrow> prompt_cache_entry option" where
  "live now es k = (case cached es k of Some e \<Rightarrow> if live_at now e then Some e else None | None \<Rightarrow> None)"

definition live_in :: "int \<Rightarrow> cache_entries \<Rightarrow> fingerprint \<Rightarrow> prompt_cache_entry option" where
  "live_in now m f = (case map_of m f of Some e \<Rightarrow> if live_at now e then Some e else None | None \<Rightarrow> None)"

definition first_live :: "(lookup_point \<Rightarrow> bool) \<Rightarrow> (fingerprint \<Rightarrow> prompt_cache_entry option) \<Rightarrow> lookup_point list
    \<Rightarrow> (lookup_point \<times> prompt_cache_entry) option" where
  "first_live eligible L ps = map_option (\<lambda>p. (p, the (L (lp_fingerprint p))))
     (List.find (\<lambda>p. eligible p \<and> L (lp_fingerprint p) \<noteq> None) ps)"

lemma first_live_Nil [simp]: "first_live eligible L [] = None"
  by (simp add: first_live_def)

lemma first_live_Cons [simp]: "first_live eligible L (p # ps) =
    (if eligible p \<and> L (lp_fingerprint p) \<noteq> None then Some (p, the (L (lp_fingerprint p))) else first_live eligible L ps)"
  by (auto simp: first_live_def)

lemma first_live_None: "(\<And>f. L f = None) \<Longrightarrow> first_live eligible L ps = None"
  by (induction ps) auto

lemma read_points_found: "fst (read_points now b eligible ps m) = first_live eligible (live_in now m) ps"
  by (induction ps) (auto simp: live_in_def live_at_def split: option.split)

lemma read_points_entries:
  assumes "read_points now b eligible ps m = (found, m')"
  shows "case found of None \<Rightarrow> m' = m
    | Some (p, e) \<Rightarrow> map_of m (lp_fingerprint p) = Some e \<and>
        m' = AList.update (lp_fingerprint p) (e\<lparr>pe_last_used_at := now,
           pe_expires_at := now + chrono_duration (effective_ttl b (pe_ttl e))\<rparr>) m"
  using assms by (induction ps) (auto split: if_splits option.splits)

lemma read_points_keys:
  assumes "read_points now b eligible ps m = (found, m')" "distinct (map fst m)"
  shows "dom (map_of m') = dom (map_of m)" "distinct (map fst m')" "length m' = length m"
proof -
  show dom: "dom (map_of m') = dom (map_of m)"
    using read_points_entries [OF assms(1)] by (auto simp: update_conv' split: option.splits if_splits)
  show d: "distinct (map fst m')"
    using read_points_entries [OF assms(1)] assms(2) by (auto simp: distinct_update split: option.splits)
  show "length m' = length m" using card_dom_alist [OF d] card_dom_alist [OF assms(2)] dom by simp
qed

lemma read_scope_found:
  assumes "read_scope now b eligible s points st = (found, st')"
  shows "found = first_live eligible (\<lambda>f. live now (by_scope st) (s, f)) (rev points)"
proof (cases "map_of (by_scope st) s")
  case None
  then show ?thesis using assms by (simp add: read_scope_def live_def cached_def first_live_None)
next
  case (Some m)
  have "live_in now m = (\<lambda>f. live now (by_scope st) (s, f))"
    using Some by (simp add: live_in_def live_def cached_def fun_eq_iff)
  then show ?thesis using assms Some read_points_found [of now b eligible "rev points" m]
    by (auto simp: read_scope_def split: prod.splits)
qed

lemma read_scope_ok:
  assumes ok: "cache_ok st" and r: "read_scope now b eligible s points st = (found, st')"
  shows "cache_ok st' \<and> dom (cached (by_scope st')) = dom (cached (by_scope st)) \<and> total_entries st' = total_entries st"
proof (cases "map_of (by_scope st) s")
  case None
  then show ?thesis using r ok by (simp add: read_scope_def)
next
  case (Some m)
  have t: "entries_ok (by_scope st)" using ok by (simp add: cache_ok_def)
  obtain m' where m': "read_points now b eligible (rev points) m = (found, m')"
    and st': "st' = st\<lparr>by_scope := AList.update s m' (by_scope st)\<rparr>"
    using r Some by (auto simp: read_scope_def split: prod.splits)
  have dm: "m \<noteq> []" "distinct (map fst m)" using entries_okD [OF t Some] by auto
  note keys = read_points_keys [OF m' dm(2)]
  have "entries_ok (by_scope st')" using t dm keys(2,3) by (auto simp: st' intro!: entries_ok_update)
  moreover have "total_cache_entries (by_scope st') = total_cache_entries (by_scope st)"
    using total_update [OF t Some, of m'] keys(3) by (simp add: st')
  moreover have "(cached (by_scope st') k \<noteq> None) = (cached (by_scope st) k \<noteq> None)" for k
    using keys(1) Some by (cases "fst k = s") (auto simp: st' cached_update dom_def set_eq_iff, auto simp: cached_def)
  then have "dom (cached (by_scope st')) = dom (cached (by_scope st))" by (simp add: dom_def)
  ultimately show ?thesis using ok by (simp add: cache_ok_def st')
qed

lemma write_points_ok: "cache_ok st \<Longrightarrow> cache_ok (write_points now ttl s tokens_of points st)"
  unfolding write_points_def
  by (induction points arbitrary: st) (auto simp: cache_insert_ok split: option.split)

lemma write_points_other:
  "fst k \<noteq> s \<Longrightarrow> cached (by_scope (write_points now ttl s tokens_of points st)) k = cached (by_scope st) k"
  unfolding write_points_def
  by (induction points arbitrary: st) (auto simp: cache_insert_cached split: option.split)

subsection \<open>The states of the cache\<close>

datatype 'f cache_operation =
  High_Compute "prompt_cache_scope option" "prompt_cache_profile option" 'f
| High_Update "prompt_cache_scope option" "prompt_cache_profile option" 'f
| Kiro_Compute "prompt_cache_scope option" "prompt_cache_profile option" "'f kiro_rs_tool_policy"
| Kiro_Commit "prompt_cache_scope option" "'f cache_plan"
| Stable_Compute "prompt_cache_scope option" "prompt_cache_profile option" "'f stable_segment_policy"
| Stable_Commit "prompt_cache_scope option" "'f cache_plan" "'f stable_segment_policy"

fun run_operation ::
    "('f, 'm) f64_casts_scheme \<Rightarrow> (string \<Rightarrow> string) \<Rightarrow> int \<Rightarrow> prompt_cache_bounds \<Rightarrow> 'f cache_operation
     \<Rightarrow> prompt_cache_state \<Rightarrow> prompt_cache_state" where
  "run_operation F lower now b (High_Compute s p r) st = snd (compute_with_bounds F lower now s p r b st)"
| "run_operation F lower now b (High_Update s p r) st = update_with_bounds F lower now s p r b st"
| "run_operation F lower now b (Kiro_Compute s p pol) st = snd (compute_kiro_rs_tool_profile_with_bounds F now s p b pol st)"
| "run_operation F lower now b (Kiro_Commit s plan) st = commit_kiro_rs_tool_success_with_bounds now s plan b st"
| "run_operation F lower now b (Stable_Compute s p pol) st =
     snd (compute_stable_segment_with_profile_bounds F now s p b pol st)"
| "run_operation F lower now b (Stable_Commit s plan pol) st =
     commit_stable_segment_success_with_bounds F now s plan b pol st"

inductive cache_reach ::
    "('f, 'm) f64_casts_scheme \<Rightarrow> (string \<Rightarrow> string) \<Rightarrow> prompt_cache_bounds set \<Rightarrow> prompt_cache_state \<Rightarrow> bool"
  for F lower B where
  start: "cache_reach F lower B prompt_cache_default"
| step: "cache_reach F lower B st \<Longrightarrow> b \<in> B \<Longrightarrow> cache_reach F lower B (run_operation F lower now b op st)"

definition only_reads :: "prompt_cache_state \<Rightarrow> prompt_cache_state \<Rightarrow> bool" where
  "only_reads st st' \<longleftrightarrow> cache_ok st' \<and> dom (cached (by_scope st')) \<subseteq> dom (cached (by_scope st)) \<and>
     total_entries st' \<le> total_entries st"

lemma only_reads_refl: "cache_ok st \<Longrightarrow> only_reads st st"
  by (simp add: only_reads_def)

lemma prune_only_reads:
  assumes "cache_ok st"
  shows "only_reads st (prune_expired_if_due now st)"
proof -
  have "cached (by_scope (prune_expired now st)) \<subseteq>\<^sub>m cached (by_scope st)" "cache_ok (prune_expired now st)"
    using assms prune_expired_ok by (auto simp: prune_expired_le cache_ok_def)
  then have "only_reads st (prune_expired now st)"
    using assms finite_dom_cached [of "by_scope st"]
    by (auto simp: only_reads_def cache_ok_def total_is_card card_mono dest: map_le_implies_dom_le)
  then show ?thesis using assms by (auto simp: prune_expired_if_due_def only_reads_refl)
qed

lemma read_only_reads:
  assumes "cache_ok st" "read_scope now b eligible s points (prune_expired_if_due now st) = (found, st')"
  shows "only_reads st st'"
  using prune_only_reads [OF assms(1), of now] read_scope_ok [OF prune_if_due_ok [OF assms(1)] assms(2)]
  by (simp add: only_reads_def)

lemma operation_shape:
  assumes "cache_ok st"
  shows "only_reads st (run_operation F lower now b op st) \<or>
    (\<exists>s ttl tokens_of points. run_operation F lower now b op st =
      enforce_bounds s b now (write_points now ttl s tokens_of points (prune_expired_if_due now st)))"
proof (cases op)
  case (High_Compute s p r)
  then show ?thesis using assms
    by (auto simp: compute_with_bounds_def Let_def only_reads_refl prune_only_reads read_only_reads
        split: option.splits prod.splits)
next
  case (High_Update s p r)
  then show ?thesis using assms
    by (auto simp: update_with_bounds_def Let_def only_reads_refl split: option.splits)
next
  case (Kiro_Compute s p pol)
  then show ?thesis using assms
    by (auto simp: compute_kiro_rs_tool_profile_with_bounds_def Let_def only_reads_refl read_only_reads
        split: option.splits prod.splits)
next
  case (Kiro_Commit s plan)
  then show ?thesis using assms
    by (auto simp: commit_kiro_rs_tool_success_with_bounds_def update_kiro_rs_tool_profile_with_bounds_def Let_def
        only_reads_refl split: option.splits)
next
  case (Stable_Compute s p pol)
  then show ?thesis using assms
    by (auto simp: compute_stable_segment_with_profile_bounds_def compute_stable_segment_profile_with_bounds_def Let_def
        only_reads_refl read_only_reads split: option.splits prod.splits if_splits)
next
  case (Stable_Commit s plan pol)
  then show ?thesis using assms
    by (auto simp: commit_stable_segment_success_with_bounds_def update_stable_segment_profile_with_bounds_def Let_def
        only_reads_refl split: option.splits)
qed

lemma operation_ok: "cache_ok st \<Longrightarrow> cache_ok (run_operation F lower now b op st)"
  using operation_shape [of st F lower now b op]
  by (auto simp: only_reads_def intro!: enforce_bounds_spec(1) [OF _ refl] write_points_ok prune_if_due_ok)

lemma reach_ok: "cache_reach F lower B st \<Longrightarrow> cache_ok st"
  by (induction rule: cache_reach.induct)
    (simp_all add: operation_ok, simp add: cache_ok_def prompt_cache_default_def total_cache_entries_def)

lemma operation_limits:
  assumes ok: "cache_ok st" and st': "st' = run_operation F lower now b op st"
  shows "total_entries st' \<le> max (total_entries st) (global_entry_limit b)"
    "0 < max_entries_per_account b \<Longrightarrow>
      scope_size (by_scope st') s \<le> max (scope_size (by_scope st) s) (max_entries_per_account b)"
proof -
  have size: "scope_size (by_scope st2) s \<le> scope_size (by_scope st1) s"
    if "cache_ok st1" "cache_ok st2" "dom (cached (by_scope st2)) \<subseteq> dom (cached (by_scope st1))" for st1 st2 s
    using that by (intro scope_size_mono) (simp_all add: cache_ok_def)
  consider "only_reads st st'"
    | s1 ttl tokens_of points where "st' = enforce_bounds s1 b now (write_points now ttl s1 tokens_of points (prune_expired_if_due now st))"
    using operation_shape [OF ok, of F lower now b op] st' by auto
  then have "total_entries st' \<le> max (total_entries st) (global_entry_limit b) \<and>
    (0 < max_entries_per_account b \<longrightarrow> scope_size (by_scope st') s \<le> max (scope_size (by_scope st) s) (max_entries_per_account b))"
  proof cases
    case 1
    then show ?thesis using size [OF ok, of st' s] by (auto simp: only_reads_def)
  next
    case 2
    let ?w = "write_points now ttl s1 tokens_of points (prune_expired_if_due now st)"
    have w: "cache_ok ?w" using ok by (intro write_points_ok prune_if_due_ok)
    note e = enforce_bounds_spec [OF w 2]
    have "scope_size (by_scope st') s \<le> scope_size (by_scope st) s" if "s \<noteq> s1"
    proof -
      have "scope_size (by_scope ?w) s = scope_size (by_scope (prune_expired_if_due now st)) s"
        using w prune_if_due_ok [OF ok, of now] that
        by (simp add: scope_size_is_card cache_ok_def write_points_other)
      then show ?thesis
        using size [OF w e(1) map_le_implies_dom_le [OF e(2)], of s] size [OF ok prune_if_due_ok [OF ok], of now s] prune_only_reads [OF ok, of now]
        by (auto simp: only_reads_def)
    qed
    then show ?thesis using e(3,4) by (cases "s = s1") auto
  qed
  then show "total_entries st' \<le> max (total_entries st) (global_entry_limit b)"
    "0 < max_entries_per_account b \<Longrightarrow> scope_size (by_scope st') s \<le> max (scope_size (by_scope st) s) (max_entries_per_account b)"
    by blast+
qed

text \<open>C22. In every state the cache can reach, whatever requests read and commit under whatever limits,
  its counter is the number of entries it holds, no scope is empty and no key occurs twice; it never
  holds more entries than the largest total limit any operation ran under, and, if no operation ran
  with the limit per scope switched off, no scope holds more than the largest of those limits.
\<close>

theorem prompt_cache_stays_within_limits:
  assumes "cache_reach F lower B st" "\<forall>b \<in> B. global_entry_limit b \<le> G"
  shows "entries_ok (by_scope st) \<and> total_entries st = total_cache_entries (by_scope st) \<and> total_entries st \<le> G \<and>
    ((\<forall>b \<in> B. 0 < max_entries_per_account b \<and> max_entries_per_account b \<le> M) \<longrightarrow>
      (\<forall>s. scope_size (by_scope st) s \<le> M))"
proof -
  have "total_entries st \<le> G" using assms
  proof induction
    case (step st b now op)
    then show ?case using operation_limits(1) [OF reach_ok [OF step(1)] refl, where F = F and lower = lower and now = now and b = b and op = op]
      by (meson max.bounded_iff order_trans)
  qed (simp add: prompt_cache_default_def)
  moreover have "scope_size (by_scope st) s \<le> M"
    if "\<forall>b \<in> B. 0 < max_entries_per_account b \<and> max_entries_per_account b \<le> M" for s
    using assms(1)
  proof induction
    case (step st b now op)
    then show ?case using that operation_limits(2) [OF reach_ok [OF step(1)] refl, where F = F and lower = lower and now = now and b = b and op = op and s = s]
      by (meson max.bounded_iff order_trans)
  qed (simp add: prompt_cache_default_def scope_size_def)
  ultimately show ?thesis using reach_ok [OF assms(1)] by (simp add: cache_ok_def)
qed

definition sample_bounds :: prompt_cache_bounds where
  "sample_bounds = \<lparr>max_entries_per_account = 2, max_entries_global = 3, entry_ttl = 600, estimated_bytes_limit = 0, write_ttl = None\<rparr>"

definition sample_plan :: "u8 \<Rightarrow> unit cache_plan" where
  "sample_plan x = plan_of (Some \<lparr>pr_breakpoints = [300],
     pr_lookup_points = [\<lparr>lp_fingerprint = [x], lp_cumulative_tokens = 300\<rparr>],
     pr_total_input_tokens = 400, pr_model = ''m'', pr_suppress_first_turn_fallback_read = False\<rparr>)
     (usage_default\<lparr>pu_cache_creation_input_tokens := 300\<rparr>)"

definition unit_casts :: "unit f64_casts" where
  "unit_casts = \<lparr>f_lit = \<lambda>_ _. (), f_of_nat = \<lambda>_. (), f_of_int = \<lambda>_. (), f_add = \<lambda>_ _. (), f_sub = \<lambda>_ _. (),
     f_mul = \<lambda>_ _. (), f_div = \<lambda>_ _. (), f_max = \<lambda>_ _. (), f_min = \<lambda>_ _. (), f_clamp = \<lambda>_ _ _. (),
     f_powf = \<lambda>_ _. (), f_ln_1p = \<lambda>_. (), f_less = \<lambda>_ _. False, f_le = \<lambda>_ _. False, f_eq = \<lambda>_ _. True,
     f_is_nan = \<lambda>_. False, f_as_u64 = \<lambda>_. 0, f_round_i32 = \<lambda>_. 0, f_floor_i32 = \<lambda>_. 0, f_floor_usize = \<lambda>_. 0,
     f_is_finite = \<lambda>_. True\<rparr>"

definition sample_state :: prompt_cache_state where
  "sample_state = run_operation unit_casts id 20 sample_bounds (Kiro_Commit (Some (sample_scope ''b'')) (sample_plan 2))
     (run_operation unit_casts id 10 sample_bounds (Kiro_Commit (Some (sample_scope ''a'')) (sample_plan 1)) prompt_cache_default)"

lemmas sample_eval = sample_state_def sample_plan_def sample_bounds_def sample_scope_def prompt_cache_default_def plan_of_def
  usage_default_def sat_i32_def commit_kiro_rs_tool_success_with_bounds_def update_kiro_rs_tool_profile_with_bounds_def
  write_points_def cache_insert_def new_entry_def prune_expired_if_due_def prune_expired_def prune_expired_locked_def
  total_cache_entries_def enforce_bounds_def enforce_scope_bound_def enforce_global_bound_def global_entry_limit_def
  max_entries_by_bytes_def USIZE_MAX_def live_at_def PRUNE_EXPIRED_MIN_INTERVAL_def write_entry_ttl_def effective_ttl_def
  last_breakpoint_ttl_def chrono_duration_def scope_size_def Let_def

theorem prompt_cache_stays_within_limits_witness:
  "total_entries sample_state \<le> 3 \<and> (\<forall>s. scope_size (by_scope sample_state) s \<le> 2) \<and>
   total_entries sample_state = 2 \<and> scope_size (by_scope sample_state) (sample_scope ''b'') = 1"
proof -
  have r: "cache_reach unit_casts id {sample_bounds} sample_state"
    unfolding sample_state_def by (intro cache_reach.intros) simp_all
  have g: "\<forall>b \<in> {sample_bounds}. global_entry_limit b \<le> 3"
    by (simp add: sample_bounds_def global_entry_limit_def)
  have m: "\<forall>b \<in> {sample_bounds}. 0 < max_entries_per_account b \<and> max_entries_per_account b \<le> 2"
    by (simp add: sample_bounds_def)
  have "total_entries sample_state = 2" "scope_size (by_scope sample_state) (sample_scope ''b'') = 1"
    by (simp_all add: sample_eval)
  then show ?thesis using prompt_cache_stays_within_limits [OF r g, of 2] m by simp
qed

end
