(* ===== verification/Cache_Growth.thy ===== *)
theory Cache_Growth
  imports Cache_Usage
begin

text \<open>
  What the simulated prompt cache promises its clients: the usage told to a request depends on the
  entries of its own scope that are still alive and on nothing else, its parts add up, and a
  conversation that grows reads what its previous request committed.
\<close>

subsection \<open>Own and live entries\<close>

lemma live_prune:
  assumes "cache_ok st"
  shows "live now (by_scope (prune_expired_if_due now st)) k = live now (by_scope st) k"
proof -
  have "live now (by_scope (prune_expired now st)) k = live now (by_scope st) k"
    using assms by (auto simp: prune_expired_def Let_def live_def prune_cached cache_ok_def split: option.split)
  then show ?thesis by (simp add: prune_expired_if_due_def)
qed

definition matched_tokens :: "(lookup_point \<times> prompt_cache_entry) option \<Rightarrow> int \<Rightarrow> int" where
  "matched_tokens found target = (case found of None \<Rightarrow> 0 | Some (_, e) \<Rightarrow> max (min (pe_cached_tokens e) target) 0)"

text \<open>The usage of the three strategies as a function of the live entries of the scope.\<close>

lemma compute_high_usage:
  assumes "cache_ok st" "pr_breakpoints p \<noteq> []"
    "mt = min_cacheable_tokens_for_model lower (pr_model p)" "ratio = effective_cache_read_ratio F p r"
    "target = target_cache_tokens F (pr_total_input_tokens p) ratio mt"
  shows "fst (compute_with_bounds F lower now (Some s) (Some p) r b st) =
    (if target \<le> 0 then usage_default
     else if pr_suppress_first_turn_fallback_read p then creation_only_usage p target ratio
     else let m = matched_tokens (first_live (\<lambda>point. mt \<le> lp_cumulative_tokens point)
         (\<lambda>f. live now (by_scope st) (s, f)) (rev (pr_lookup_points p))) target
       in usage_of p (max (target - m) 0) m (Some ratio))"
proof -
  let ?st = "prune_expired_if_due now st" and ?ok = "\<lambda>point. mt \<le> lp_cumulative_tokens point"
  let ?L = "\<lambda>f. live now (by_scope st) (s, f)"
  obtain found st' where r: "read_scope now b ?ok s (pr_lookup_points p) ?st = (found, st')" by fastforce
  have found: "found = first_live ?ok ?L (rev (pr_lookup_points p))"
    using read_scope_found [OF r] by (simp add: live_prune assms(1))
  show ?thesis
  proof (cases "map_of (by_scope ?st) s")
    case None
    then have "found = None" using r by (simp add: read_scope_def)
    then show ?thesis using assms(2-5) None found
      by (simp add: compute_with_bounds_def Let_def creation_only_usage_def matched_tokens_def)
  next
    case (Some m)
    then show ?thesis using assms(2-5) r
      by (simp add: compute_with_bounds_def Let_def matched_tokens_def found)
  qed
qed

lemma compute_kiro_usage:
  assumes "cache_ok st"
  shows "fst (compute_kiro_rs_tool_profile_with_bounds F now (Some s) (Some p) b policy st) =
    (let policy = kiro_policy_normalized F policy; flat = lp_cumulative_tokens (last (pr_lookup_points p));
         covered = apply_kiro_rs_tool_coverage_policy F flat policy in
     if pr_lookup_points p = [] \<or> flat \<le> 0 \<or> covered \<le> 0 then usage_default
     else segment_usage F p covered (kp_incremental_create_enabled policy) (kp_max_new_creation_tokens_per_request policy)
       (first_live (\<lambda>_. True) (\<lambda>f. live now (by_scope st) (s, f)) (rev (pr_lookup_points p))))"
proof -
  obtain found st' where r: "read_scope now b (\<lambda>_. True) s (pr_lookup_points p) (prune_expired_if_due now st) = (found, st')"
    by fastforce
  have "found = first_live (\<lambda>_. True) (\<lambda>f. live now (by_scope st) (s, f)) (rev (pr_lookup_points p))"
    using read_scope_found [OF r] by (simp add: live_prune assms)
  then show ?thesis using r by (simp add: compute_kiro_rs_tool_profile_with_bounds_def Let_def)
qed

lemma compute_stable_usage:
  assumes "cache_ok st"
  shows "fst (compute_stable_segment_profile_with_bounds F now (Some s) (Some p) b policy st) =
    (let policy = stable_policy_normalized F policy;
         covered = apply_stable_segment_coverage_policy F (max (lp_cumulative_tokens (last (pr_lookup_points p))) 0) policy in
     if pr_total_input_tokens p < sp_min_total_input_tokens policy \<or> pr_lookup_points p = [] \<or>
        covered < max (sp_min_segment_tokens policy) 1 then usage_default
     else segment_usage F p covered (sp_incremental_create_enabled policy) (sp_max_new_creation_tokens_per_request policy)
       (first_live (\<lambda>point. sp_min_segment_tokens policy \<le> lp_cumulative_tokens point)
         (\<lambda>f. live now (by_scope st) (s, f)) (rev (pr_lookup_points p))))"
proof -
  let ?pol = "stable_policy_normalized F policy"
  obtain found st' where r: "read_scope now b (\<lambda>point. sp_min_segment_tokens ?pol \<le> lp_cumulative_tokens point) s
      (pr_lookup_points p) (prune_expired_if_due now st) = (found, st')"
    by fastforce
  have "found = first_live (\<lambda>point. sp_min_segment_tokens ?pol \<le> lp_cumulative_tokens point)
      (\<lambda>f. live now (by_scope st) (s, f)) (rev (pr_lookup_points p))"
    using read_scope_found [OF r] by (simp add: live_prune assms)
  then show ?thesis using r by (simp add: compute_stable_segment_profile_with_bounds_def Let_def)
qed

text \<open>C23. The usage a request is told depends only on the entries of its own scope that have not
  expired: other conversations and routes, expired entries that the throttled clean-up has not removed
  yet and the time of that clean-up make no difference.
\<close>

theorem usage_depends_on_own_live_entries:
  assumes "cache_reach F lower B st" "cache_reach F lower B' st2"
    "\<forall>f. live now (by_scope st) (s, f) = live now (by_scope st2) (s, f)"
  shows "fst (compute_with_bounds F lower now (Some s) (Some p) r b st) =
      fst (compute_with_bounds F lower now (Some s) (Some p) r b st2) \<and>
    fst (compute_kiro_rs_tool_profile_with_bounds F now (Some s) (Some p) b kp st) =
      fst (compute_kiro_rs_tool_profile_with_bounds F now (Some s) (Some p) b kp st2) \<and>
    fst (compute_stable_segment_profile_with_bounds F now (Some s) (Some p) b sp st) =
      fst (compute_stable_segment_profile_with_bounds F now (Some s) (Some p) b sp st2)"
proof -
  have ok: "cache_ok st" "cache_ok st2" using assms(1,2) reach_ok by auto
  have L: "(\<lambda>f. live now (by_scope st) (s, f)) = (\<lambda>f. live now (by_scope st2) (s, f))" using assms(3) by simp
  have "fst (compute_with_bounds F lower now (Some s) (Some p) r b st) =
      fst (compute_with_bounds F lower now (Some s) (Some p) r b st2)"
  proof (cases "pr_breakpoints p = []")
    case True
    then show ?thesis by (simp add: compute_with_bounds_def)
  next
    case False
    show ?thesis unfolding compute_high_usage [OF ok(1) False refl refl refl] compute_high_usage [OF ok(2) False refl refl refl]
      by (simp only: L)
  qed
  then show ?thesis
    by (simp only: compute_kiro_usage [OF ok(1)] compute_kiro_usage [OF ok(2)] compute_stable_usage [OF ok(1)]
        compute_stable_usage [OF ok(2)] L)
qed

lemma sample_live:
  "live 20 (by_scope sample_state) (sample_scope ''c'', f) = live 20 (by_scope prompt_cache_default) (sample_scope ''c'', f)"
  by (simp add: sample_eval live_def cached_def)

theorem usage_depends_on_own_live_entries_witness:
  "\<forall>kp. fst (compute_kiro_rs_tool_profile_with_bounds unit_casts 20 (Some (sample_scope ''c'')) (plan_profile (sample_plan 2)) sample_bounds kp sample_state) =
   fst (compute_kiro_rs_tool_profile_with_bounds unit_casts 20 (Some (sample_scope ''c'')) (plan_profile (sample_plan 2)) sample_bounds kp prompt_cache_default)"
proof -
  have r: "cache_reach unit_casts id {sample_bounds} sample_state" "cache_reach unit_casts id {sample_bounds} prompt_cache_default"
    unfolding sample_state_def by (intro cache_reach.intros; simp)+
  obtain p where p: "plan_profile (sample_plan 2) = Some p" by (simp add: sample_plan_def plan_of_def)
  show ?thesis using usage_depends_on_own_live_entries [OF r, of 20 "sample_scope ''c''" p] sample_live unfolding p by blast
qed

subsection \<open>A request extends the previous one\<close>

lemma scan_append:
  "scan_blocks sha J every h c a (bs @ cs) =
    (let (b1, p1, c1) = scan_blocks sha J every h c a bs;
         (b2, p2, c2) = scan_blocks sha J every (h @ concat (map (\<lambda>b. hash_chunk (canonicalize_cache_value J (cb_value b))) bs))
           c1 (foldl (\<lambda>a b. or_else (cb_ttl b) a) a bs) cs
     in (b1 @ b2, p1 @ p2, c2))"
  by (induction bs arbitrary: h c a) (auto simp: Let_def split: prod.splits option.splits)

definition extends :: "('a list \<Rightarrow> 'b \<Rightarrow> 'a list) \<Rightarrow> bool" where
  "extends f \<longleftrightarrow> (\<forall>blocks x. \<exists>cs. f blocks x = blocks @ cs)"

lemma extends_foldl: "extends f \<Longrightarrow> \<exists>cs. foldl f blocks xs = blocks @ cs"
proof (induction xs arbitrary: blocks)
  case (Cons x xs)
  obtain cs where "f blocks x = blocks @ cs" using Cons.prems by (auto simp: extends_def)
  moreover obtain ds where "foldl f (blocks @ cs) xs = (blocks @ cs) @ ds" using Cons by blast
  ultimately show ?case by simp
qed simp

lemma append_cache_block_extends: "\<exists>cs. append_cache_block F J blocks v e = blocks @ cs"
  by (simp add: append_cache_block_def)

lemma append_message_extends: "extends (append_message_blocks F J)"
proof -
  have items: "\<exists>cs. foldl (\<lambda>bs (i, item). append_cache_block F J bs (message_value r item) (i = n)) blocks xs = blocks @ cs"
    for r n blocks xs
    by (rule extends_foldl) (auto simp: extends_def append_cache_block_extends)
  show ?thesis unfolding extends_def append_message_blocks_def
    by (auto simp: append_cache_block_extends items split: json.split)
qed

lemma flatten_grows:
  "\<exists>cs. flatten_cache_blocks F J (req\<lparr>mr_messages := mr_messages req @ ms\<rparr>) = flatten_cache_blocks F J req @ cs"
  using extends_foldl [OF append_message_extends, of F J _ ms]
  by (simp add: flatten_cache_blocks_def Let_def prelude_value_def)

lemma scan_length: "length (fst (snd (scan_blocks sha J True h c a bs))) = length bs"
  by (induction bs arbitrary: h c a) (auto simp: Let_def split_beta)

lemma built_profile:
  assumes "build_profile_with_blocks sha J bs inp m syn True first = Some p"
  shows "pr_breakpoints p \<noteq> []" "pr_lookup_points p \<noteq> []" "pr_model p = m" "pr_suppress_first_turn_fallback_read p = first"
  using assms scan_length [of sha J "[]" 0 None bs]
  by (auto simp: build_profile_with_blocks_def split: prod.splits if_splits)

lemma profile_grows:
  assumes "build_profile_with_blocks sha J bs inp m True True first = Some p"
    "build_profile_with_blocks sha J (bs @ cs) inp' m True True False = Some p'"
  shows "\<exists>qs. pr_lookup_points p' = pr_lookup_points p @ qs"
  using assms by (auto simp: build_profile_with_blocks_def Let_def scan_append split: prod.splits if_splits)

subsection \<open>Writing and reading back\<close>

lemma write_last:
  assumes "points \<noteq> []" "tokens_of (last points) = Some n"
  shows "cached (by_scope (write_points now ttl s tokens_of points st)) (s, lp_fingerprint (last points)) = Some (new_entry now ttl n)"
proof -
  obtain qs q where "points = qs @ [q]" using assms(1) rev_exhaust by blast
  then show ?thesis using assms(2) by (simp add: write_points_def cache_insert_cached)
qed

lemma length_update_le: "length (AList.update k v xs) \<le> Suc (length xs)"
  by (induction xs) auto

lemma cache_insert_room:
  "scope_size (by_scope (cache_insert s f e st)) s \<le> Suc (scope_size (by_scope st) s)"
  "total_entries (cache_insert s f e st) \<le> Suc (total_entries st)"
  by (auto simp: cache_insert_def Let_def scope_size_def update_conv' intro: order_trans [OF length_update_le] split: option.split)

lemma write_points_room:
  "scope_size (by_scope (write_points now ttl s tokens_of points st)) s \<le> scope_size (by_scope st) s + length points \<and>
   total_entries (write_points now ttl s tokens_of points st) \<le> total_entries st + length points"
proof (induction points arbitrary: st)
  case (Cons p ps)
  let ?st = "case tokens_of p of None \<Rightarrow> st | Some n \<Rightarrow> cache_insert s (lp_fingerprint p) (new_entry now ttl n) st"
  have "scope_size (by_scope ?st) s \<le> Suc (scope_size (by_scope st) s)" "total_entries ?st \<le> Suc (total_entries st)"
    using cache_insert_room [of s "lp_fingerprint p"] by (auto split: option.split)
  moreover have "write_points now ttl s tokens_of (p # ps) st = write_points now ttl s tokens_of ps ?st"
    by (simp add: write_points_def)
  ultimately show ?case using Cons.IH [of ?st] by (simp only: list.size) linarith
qed (simp add: write_points_def)

definition has_room :: "prompt_cache_bounds \<Rightarrow> prompt_cache_scope \<Rightarrow> nat \<Rightarrow> prompt_cache_state \<Rightarrow> bool" where
  "has_room b s n st \<longleftrightarrow>
     (max_entries_per_account b = 0 \<or> scope_size (by_scope st) s + n \<le> max_entries_per_account b) \<and>
     total_entries st + n \<le> global_entry_limit b"

lemma written_entries_stay:
  assumes "cache_ok st" "has_room b s (length points) st"
  shows "enforce_bounds s b now (write_points now ttl s tokens_of points (prune_expired_if_due now st)) =
    write_points now ttl s tokens_of points (prune_expired_if_due now st)"
proof (rule enforce_bounds_id)
  let ?st = "prune_expired_if_due now st"
  have r: "only_reads st ?st" by (rule prune_only_reads [OF assms(1)])
  then have "scope_size (by_scope ?st) s \<le> scope_size (by_scope st) s"
    using assms(1) by (intro scope_size_mono) (auto simp: only_reads_def cache_ok_def)
  then show "max_entries_per_account b = 0 \<or>
      scope_size (by_scope (write_points now ttl s tokens_of points ?st)) s \<le> max_entries_per_account b"
    using assms(2) write_points_room [of now ttl s tokens_of points ?st] by (auto simp: has_room_def)
  show "total_entries (write_points now ttl s tokens_of points ?st) \<le> global_entry_limit b"
    using assms(2) r write_points_room [of now ttl s tokens_of points ?st] by (auto simp: has_room_def only_reads_def)
qed

text \<open>
  Dividing a number by itself and multiplying by \<open>t\<close> is exact: what IEEE arithmetic promises for the
  share of the last lookup point.
\<close>

definition f64_exact :: "('f, 'm) f64_casts_scheme \<Rightarrow> bool" where
  "f64_exact F \<longleftrightarrow> (\<forall>x t. 0 < x \<and> x < 2 ^ 31 \<and> 0 \<le> t \<and> t < 2 ^ 31 \<longrightarrow>
     f_round_i32 F (f_mul F (f_div F (f_of_int F x) (f_of_int F x)) (f_of_int F t)) = t)"

lemma target_bounds:
  assumes "0 < target_cache_tokens F n r mt"
  shows "mt \<le> target_cache_tokens F n r mt \<and> target_cache_tokens F n r mt < n"
  using assms clamp_bounds [of 0 "n - 1"]
  by (auto simp: target_cache_tokens_def Let_def split: if_splits)

lemma last_point_scaled:
  assumes "f64_exact F" "0 < lp_cumulative_tokens q" "lp_cumulative_tokens q < 2 ^ 31" "mt \<le> t" "0 \<le> t" "t < 2 ^ 31"
  shows "scaled_tokens F (lp_cumulative_tokens q) t mt q = Some t"
  using assms by (simp add: scaled_tokens_def Let_def f64_exact_def)

lemma first_live_skips:
  assumes "\<And>q. q \<in> set qs \<Longrightarrow> L (lp_fingerprint q) = None" "ps \<noteq> []" "eligible (last ps)" "L (lp_fingerprint (last ps)) = Some e"
  shows "first_live eligible L (rev (ps @ qs)) = Some (last ps, e)"
proof -
  have "first_live eligible L (rev qs @ xs) = first_live eligible L xs" for xs
    using assms(1) by (induction qs rule: rev_induct) auto
  moreover have "rev ps = last ps # rev (butlast ps)" using assms(2) by (metis append_butlast_last_id rev_eq_Cons_iff rev_rev_ident)
  then have "first_live eligible L (rev ps) = Some (last ps, e)" using assms(3,4) by (simp only: first_live_Cons) simp
  ultimately show ?thesis by simp
qed

text \<open>C21. In the high-cache strategy a conversation that grows reads what its previous request
  committed.  After a request with the blocks \<open>bs\<close> has been committed, the next request of the same
  conversation and model, whose blocks only add to \<open>bs\<close> (as more messages do), reads all the tokens
  committed for the whole of \<open>bs\<close>, up to its own share of cacheable tokens, and creates the rest.
  This needs that the reads of the next request are not suppressed as those of a first turn, that
  the flat total of \<open>bs\<close> is at least the minimum of the model (otherwise that point is not committed)
  and the totals fit in an \<open>i32\<close>, that both requests have a positive share, that the cache has room
  for the points of the first request, that its entries are still alive, and that no longer prefix
  of the next request is cached.
\<close>

theorem growing_conversation_reads_its_prefix:
  assumes reach: "cache_reach F lower B st" and exact: "f64_exact F"
    and p: "build_profile_with_blocks sha J bs inp m True True first = Some p"
    and p': "build_profile_with_blocks sha J (bs @ cs) inp' m True True False = Some p'"
    and mt: "mt = min_cacheable_tokens_for_model lower m"
    and target: "target = target_cache_tokens F (pr_total_input_tokens p) (effective_cache_read_ratio F p r) mt"
    and target': "target' = target_cache_tokens F (pr_total_input_tokens p') (effective_cache_read_ratio F p' r') mt"
    and pos: "0 < target" "0 < target'"
    and flat: "flat = lp_cumulative_tokens (last (pr_lookup_points p))" "mt \<le> flat" "flat < 2 ^ 31" "pr_total_input_tokens p < 2 ^ 31"
    and room: "has_room b s (length (pr_lookup_points p)) st"
    and st': "st' = update_with_bounds F lower now (Some s) (Some p) r b st"
    and ttl: "now' < now + chrono_duration (write_entry_ttl b (last_breakpoint_ttl DEFAULT_PROMPT_CACHE_TTL p))"
    and new: "\<forall>q \<in> set (drop (length (pr_lookup_points p)) (pr_lookup_points p')). cached (by_scope st') (s, lp_fingerprint q) = None"
  shows "fst (compute_with_bounds F lower now' (Some s) (Some p') r' b' st') =
      usage_of p' (target' - min target target') (min target target') (Some (effective_cache_read_ratio F p' r')) \<and>
    (\<forall>req ms. \<exists>cs. flatten_cache_blocks F J (req\<lparr>mr_messages := mr_messages req @ ms\<rparr>) = flatten_cache_blocks F J req @ cs)"
proof -
  have ok: "cache_ok st" by (rule reach_ok [OF reach])
  have nonempty: "pr_breakpoints p \<noteq> []" "pr_breakpoints p' \<noteq> []" "pr_lookup_points p \<noteq> []" "pr_model p = m" "pr_model p' = m"
    "\<not> pr_suppress_first_turn_fallback_read p'"
    using built_profile [OF p] built_profile [OF p'] by simp_all
  obtain qs where qs: "pr_lookup_points p' = pr_lookup_points p @ qs" using profile_grows [OF p p'] by blast
  have "1024 \<le> mt" by (simp add: mt min_cacheable_tokens_for_model_def Let_def DEFAULT_MIN_CACHEABLE_TOKENS_def
      EXTENDED_MIN_CACHEABLE_TOKENS_def HAIKU_3_MIN_CACHEABLE_TOKENS_def)
  then have "0 < flat" using flat(2) by simp
  have t: "mt \<le> target" "target < 2 ^ 31" using target_bounds pos(1) flat(4) unfolding target by force+
  let ?ttl = "write_entry_ttl b (last_breakpoint_ttl DEFAULT_PROMPT_CACHE_TTL p)" and ?q = "last (pr_lookup_points p)"
  have scaled: "scaled_tokens F flat target mt ?q = Some target"
    using last_point_scaled [OF exact, of ?q mt target] \<open>0 < flat\<close> flat t pos by simp
  have st'_eq: "st' = write_points now ?ttl s (scaled_tokens F flat target mt) (pr_lookup_points p) (prune_expired_if_due now st)"
    using nonempty pos \<open>0 < flat\<close> written_entries_stay [OF ok room]
    by (simp add: st' update_with_bounds_def Let_def mt [symmetric] target [symmetric] flat(1) [symmetric])
  have ok': "cache_ok st'" unfolding st'_eq by (intro write_points_ok prune_if_due_ok ok)
  have "cached (by_scope st') (s, lp_fingerprint ?q) = Some (new_entry now ?ttl target)"
    unfolding st'_eq using nonempty(3) scaled by (intro write_last)
  then have hit: "live now' (by_scope st') (s, lp_fingerprint ?q) = Some (new_entry now ?ttl target)"
    using ttl by (simp add: live_def live_at_def new_entry_def)
  have "first_live (\<lambda>point. mt \<le> lp_cumulative_tokens point) (\<lambda>f. live now' (by_scope st') (s, f)) (rev (pr_lookup_points p')) =
      Some (?q, new_entry now ?ttl target)"
    unfolding qs using new flat(1,2) hit nonempty(3) by (intro first_live_skips) (auto simp: qs live_def)
  then have "fst (compute_with_bounds F lower now' (Some s) (Some p') r' b' st') =
      usage_of p' (target' - min target target') (min target target') (Some (effective_cache_read_ratio F p' r'))"
    using compute_high_usage [OF ok' nonempty(2) refl refl refl, of F lower now' s r' b'] nonempty pos target' mt
    by (simp add: matched_tokens_def new_entry_def Let_def)
  then show ?thesis using flatten_grows by blast
qed

text \<open>An instance with exact arithmetic, in which the share of cacheable tokens is everything but one.\<close>

definition token_f64 :: "int f64_casts" where
  "token_f64 = \<lparr>f_lit = \<lambda>_ _. 0, f_of_nat = \<lambda>_. 0, f_of_int = id, f_add = \<lambda>_ _. 0, f_sub = \<lambda>_ _. 0,
     f_mul = \<lambda>x y. if x = 1 then y else x, f_div = \<lambda>x y. if x = y then 1 else 0, f_max = max, f_min = min,
     f_clamp = \<lambda>_ _ _. 0, f_powf = \<lambda>_ _. 0, f_ln_1p = \<lambda>_. 0, f_less = (<), f_le = (\<le>), f_eq = (=),
     f_is_nan = \<lambda>_. False, f_as_u64 = \<lambda>_. 0, f_round_i32 = id, f_floor_i32 = id, f_floor_usize = nat,
     f_is_finite = \<lambda>_. True\<rparr>"

definition unit_serde :: "unit serde" where
  "unit_serde = \<lparr>num_text = \<lambda>_. ''0'', str_text = id, num_as_u64 = \<lambda>_. Some 0, num_of_i32 = \<lambda>_. (), lowercase = id\<rparr>"

definition length_sha :: "u8 list \<Rightarrow> fingerprint" where
  "length_sha bytes = [word_of_nat (length bytes)]"

definition sample_block :: "int \<Rightarrow> unit cache_block" where
  "sample_block n = \<lparr>cb_value = JNull, cb_tokens = n, cb_ttl = None, cb_is_message_end = True\<rparr>"

lemma token_f64_exact: "f64_exact token_f64"
  by (simp add: f64_exact_def token_f64_def)

lemma sample_profiles:
  "build_profile_with_blocks length_sha unit_serde [sample_block 2000] 0 ''m'' True True False =
     Some \<lparr>pr_breakpoints = [DEFAULT_PROMPT_CACHE_TTL], pr_lookup_points = [\<lparr>lp_fingerprint = [7], lp_cumulative_tokens = 2000\<rparr>],
       pr_total_input_tokens = 2000, pr_model = ''m'', pr_suppress_first_turn_fallback_read = False\<rparr>"
  "build_profile_with_blocks length_sha unit_serde ([sample_block 2000] @ [sample_block 500]) 0 ''m'' True True False =
     Some \<lparr>pr_breakpoints = [DEFAULT_PROMPT_CACHE_TTL], pr_lookup_points = [\<lparr>lp_fingerprint = [7], lp_cumulative_tokens = 2000\<rparr>,
         \<lparr>lp_fingerprint = [14], lp_cumulative_tokens = 2500\<rparr>],
       pr_total_input_tokens = 2500, pr_model = ''m'', pr_suppress_first_turn_fallback_read = False\<rparr>"
  by (simp_all add: build_profile_with_blocks_def sample_block_def hash_chunk_def bytes_of_string_def nat_text.simps
      add_i32_def length_sha_def or_else_def Let_def)

lemma sample_targets:
  "target_cache_tokens token_f64 2000 x 1024 = 1999" "target_cache_tokens token_f64 2500 x 1024 = 2499"
  "min_cacheable_tokens_for_model id ''m'' = 1024"
  by (simp_all add: target_cache_tokens_def token_f64_def clamp_def Let_def min_cacheable_tokens_for_model_def
      DEFAULT_MIN_CACHEABLE_TOKENS_def)

lemma write_points_fresh:
  "f \<notin> lp_fingerprint ` set points \<Longrightarrow>
   cached (by_scope (write_points now ttl s tokens_of points st)) (s, f) = cached (by_scope st) (s, f)"
  unfolding write_points_def
  by (induction points arbitrary: st) (auto simp: cache_insert_cached split: option.split)

lemma update_fresh:
  assumes ok: "cache_ok st" and none: "cached (by_scope st) (s, f) = None" and f: "f \<notin> lp_fingerprint ` set (pr_lookup_points p)"
  shows "cached (by_scope (update_with_bounds F lower now (Some s) (Some p) r b st)) (s, f) = None"
proof -
  have "cached (by_scope (prune_expired_if_due now st)) (s, f) = None"
    using prune_only_reads [OF ok, of now] none by (auto simp: only_reads_def dom_def)
  then have "cached (by_scope (enforce_bounds s b now (write_points now ttl s tk (pr_lookup_points p) (prune_expired_if_due now st)))) (s, f) = None"
    for ttl tk
    using enforce_bounds_spec(2) [OF write_points_ok [OF prune_if_due_ok [OF ok]] refl, where s = s and b = b and now = now] f
    by (metis domIff map_le_implies_dom_le subsetD write_points_fresh)
  then show ?thesis using none by (simp add: update_with_bounds_def Let_def)
qed

theorem growing_conversation_reads_its_prefix_witness:
  "\<exists>p p'. build_profile_with_blocks length_sha unit_serde [sample_block 2000] 0 ''m'' True True False = Some p \<and>
    build_profile_with_blocks length_sha unit_serde ([sample_block 2000] @ [sample_block 500]) 0 ''m'' True True False = Some p' \<and>
    fst (compute_with_bounds token_f64 id 1 (Some (sample_scope ''a'')) (Some p') 0 default_bounds
      (update_with_bounds token_f64 id 0 (Some (sample_scope ''a'')) (Some p) 0 default_bounds prompt_cache_default)) =
    usage_of p' 500 1999 (Some (effective_cache_read_ratio token_f64 p' 0))"
proof -
  let ?p = "\<lparr>pr_breakpoints = [DEFAULT_PROMPT_CACHE_TTL], pr_lookup_points = [\<lparr>lp_fingerprint = [7], lp_cumulative_tokens = 2000\<rparr>],
       pr_total_input_tokens = 2000, pr_model = ''m'', pr_suppress_first_turn_fallback_read = False\<rparr>"
  let ?p' = "\<lparr>pr_breakpoints = [DEFAULT_PROMPT_CACHE_TTL], pr_lookup_points = [\<lparr>lp_fingerprint = [7], lp_cumulative_tokens = 2000\<rparr>,
         \<lparr>lp_fingerprint = [14], lp_cumulative_tokens = 2500\<rparr>],
       pr_total_input_tokens = 2500, pr_model = ''m'', pr_suppress_first_turn_fallback_read = False\<rparr>"
  let ?st = "update_with_bounds token_f64 id 0 (Some (sample_scope ''a'')) (Some ?p) 0 default_bounds prompt_cache_default"
  have reach: "cache_reach token_f64 id {default_bounds} prompt_cache_default" by (rule cache_reach.start)
  have limit: "max_entries_per_account default_bounds = 200" "global_entry_limit default_bounds = 20000"
    by (simp_all add: default_bounds_def global_entry_limit_def max_entries_by_bytes_def ESTIMATED_ENTRY_BYTES_def
        DEFAULT_MAX_ENTRIES_PER_ACCOUNT_def DEFAULT_MAX_ENTRIES_GLOBAL_def DEFAULT_ESTIMATED_BYTES_LIMIT_def)
  have room: "has_room default_bounds (sample_scope ''a'') 1 prompt_cache_default"
    by (simp add: has_room_def limit prompt_cache_default_def scope_size_def)
  have ttl: "1 < (0::int) + chrono_duration (write_entry_ttl default_bounds (last_breakpoint_ttl DEFAULT_PROMPT_CACHE_TTL ?p))"
    by (simp add: default_bounds_def write_entry_ttl_def effective_ttl_def last_breakpoint_ttl_def chrono_duration_def
        DEFAULT_PROMPT_CACHE_TTL_def DEFAULT_MAX_ENTRY_TTL_def)
  have "cached (by_scope ?st) (sample_scope ''a'', [14]) = None"
    by (rule update_fresh) (simp_all add: prompt_cache_default_def cache_ok_def total_cache_entries_def)
  then have new: "\<forall>q \<in> set (drop (length (pr_lookup_points ?p)) (pr_lookup_points ?p')).
      cached (by_scope ?st) (sample_scope ''a'', lp_fingerprint q) = None"
    by simp
  let ?t = "\<lambda>p. target_cache_tokens token_f64 (pr_total_input_tokens p) (effective_cache_read_ratio token_f64 p 0)
      (min_cacheable_tokens_for_model id ''m'')"
  have t: "?t ?p = 1999" "?t ?p' = 2499" by (simp_all add: sample_targets)
  have pos: "0 < ?t ?p" "0 < ?t ?p'" unfolding t by simp_all
  have flat: "min_cacheable_tokens_for_model id ''m'' \<le> lp_cumulative_tokens (last (pr_lookup_points ?p))"
    "lp_cumulative_tokens (last (pr_lookup_points ?p)) < 2 ^ 31" "pr_total_input_tokens ?p < 2 ^ 31"
    by (simp_all add: sample_targets)
  have room': "has_room default_bounds (sample_scope ''a'') (length (pr_lookup_points ?p)) prompt_cache_default"
    using room by simp
  have "fst (compute_with_bounds token_f64 id 1 (Some (sample_scope ''a'')) (Some ?p') 0 default_bounds ?st) =
      usage_of ?p' (2499 - min 1999 2499) (min 1999 2499) (Some (effective_cache_read_ratio token_f64 ?p' 0))"
    using growing_conversation_reads_its_prefix [OF reach token_f64_exact sample_profiles refl refl refl pos refl flat room' refl ttl new]
    unfolding t by (rule conjunct1)
  then show ?thesis using sample_profiles by simp
qed

subsection \<open>The parts of the usage\<close>

lemma usage_of_breakdown:
  "0 \<le> c \<Longrightarrow> pu_cache_creation_5m_input_tokens (usage_of p c r q) + pu_cache_creation_1h_input_tokens (usage_of p c r q) = c"
  by (simp add: usage_of_def target_ttl_breakdown_def)

lemma usage_of_fields [simp]:
  "pu_cache_creation_input_tokens (usage_of p c r q) = c" "pu_cache_read_input_tokens (usage_of p c r q) = r"
  by (simp_all add: usage_of_def split_beta)

definition usage_adds_up :: "int \<Rightarrow> 'f prompt_cache_usage \<Rightarrow> bool" where
  "usage_adds_up n u \<longleftrightarrow> 0 \<le> pu_cache_read_input_tokens u \<and> 0 \<le> pu_cache_creation_input_tokens u \<and>
     pu_cache_read_input_tokens u + pu_cache_creation_input_tokens u \<le> n \<and>
     pu_cache_creation_5m_input_tokens u + pu_cache_creation_1h_input_tokens u = pu_cache_creation_input_tokens u"

lemma usage_default_adds_up: "0 \<le> n \<Longrightarrow> usage_adds_up n usage_default"
  by (simp add: usage_adds_up_def usage_default_def)

lemma segment_adds_up: "0 \<le> covered \<Longrightarrow> usage_adds_up covered (segment_usage F p covered inc mx found)"
  by (auto simp: usage_adds_up_def segment_usage_def Let_def usage_of_breakdown split: option.split)

lemma usage_adds_up_mono: "usage_adds_up n u \<Longrightarrow> n \<le> m \<Longrightarrow> usage_adds_up m u"
  by (simp add: usage_adds_up_def)

lemma high_adds_up:
  fixes F :: "('f, 'm) f64_casts_scheme"
  assumes "cache_ok st"
  shows "usage_adds_up (max (pr_total_input_tokens p - 1) 0) (fst (compute_with_bounds F lower now (Some s) (Some p) r b st))"
proof (cases "pr_breakpoints p = []")
  case True
  then show ?thesis by (simp add: compute_with_bounds_def usage_default_adds_up)
next
  case False
  let ?t = "target_cache_tokens F (pr_total_input_tokens p) (effective_cache_read_ratio F p r)
      (min_cacheable_tokens_for_model lower (pr_model p))"
  define M where M: "M = max (pr_total_input_tokens p - 1) 0"
  have le: "?t \<le> M" if "0 < ?t" using target_bounds [OF that] unfolding M by linarith
  have "usage_adds_up ?t (usage_of p (max (?t - m) 0) m q)" if "m = matched_tokens found ?t" "0 < ?t" for m found and q :: "'f option"
    using that by (auto simp: usage_adds_up_def usage_of_breakdown matched_tokens_def split: option.splits)
  then have read: "usage_adds_up M (usage_of p (max (?t - matched_tokens found ?t) 0) (matched_tokens found ?t) q)" if "0 < ?t" for found and q :: "'f option"
    using le that usage_adds_up_mono by blast
  have created: "usage_adds_up M (creation_only_usage p ?t q)" if "0 < ?t" for q :: 'f
    using that le by (simp add: usage_adds_up_def usage_of_breakdown creation_only_usage_def)
  have none: "usage_adds_up M (usage_default :: 'f prompt_cache_usage)" by (rule usage_default_adds_up) (simp add: M)
  show ?thesis
    unfolding compute_high_usage [OF assms False refl refl refl] M [symmetric]
    using read created none by (simp add: Let_def not_le)
qed

text \<open>The usage told to a client adds up: nothing is negative, the tokens read and the tokens created
  together stay below the input of the request (high-cache strategy) or within the tokens the policy
  covers (segment strategies), and the two lifetimes of created tokens sum up to the tokens created.\<close>

theorem cache_usage_adds_up:
  assumes "cache_reach F lower B st"
  shows "usage_adds_up (max (pr_total_input_tokens p - 1) 0)
      (fst (compute_with_bounds F lower now (Some s) (Some p) r b st)) \<and>
    usage_adds_up (apply_kiro_rs_tool_coverage_policy F (lp_cumulative_tokens (last (pr_lookup_points p))) (kiro_policy_normalized F kp))
      (fst (compute_kiro_rs_tool_profile_with_bounds F now (Some s) (Some p) b kp st)) \<and>
    usage_adds_up (apply_stable_segment_coverage_policy F (max (lp_cumulative_tokens (last (pr_lookup_points p))) 0) (stable_policy_normalized F sp))
      (fst (compute_stable_segment_profile_with_bounds F now (Some s) (Some p) b sp st))"
proof -
  have ok: "cache_ok st" by (rule reach_ok [OF assms])
  have nonneg: "0 \<le> apply_kiro_rs_tool_coverage_policy F n q" "0 \<le> apply_stable_segment_coverage_policy F n q'" for n q q'
    by (simp_all add: apply_kiro_rs_tool_coverage_policy_def apply_stable_segment_coverage_policy_def apply_coverage_limits_def Let_def)
  show ?thesis unfolding compute_kiro_usage [OF ok] compute_stable_usage [OF ok]
    by (intro conjI high_adds_up [OF ok]) (simp_all add: Let_def usage_default_adds_up segment_adds_up nonneg)
qed

theorem cache_usage_adds_up_witness:
  "\<forall>p. usage_adds_up (max (pr_total_input_tokens p - 1) 0)
     (fst (compute_with_bounds unit_casts id 20 (Some (sample_scope ''a'')) (Some p) () sample_bounds sample_state))"
proof -
  have "cache_reach unit_casts id {sample_bounds} sample_state"
    unfolding sample_state_def by (intro cache_reach.intros) simp_all
  from cache_usage_adds_up [OF this] show ?thesis by blast
qed

subsection \<open>Session ids and explicit lifetimes\<close>

lemma str_find_session: "str_find (''session_'' @ s) ''session_'' = Some 0"
  by (simp add: starts_with_def)

lemma strict_uuid_is_lenient:
  assumes "is_valid_uuid s"
  shows "converter_is_valid_uuid s"
proof -
  have len: "length s = 36" using assms by (simp add: is_valid_uuid_def)
  have at: "if i \<in> {8, 13, 18, 23} then s ! i = CHR ''-'' else is_ascii_hexdigit (s ! i)" if "i < 36" for i
    using assms that len by (simp add: is_valid_uuid_def list_all_length nth_enumerate_eq)
  have "{i. i < length s \<and> s ! i = CHR ''-''} = {8, 13, 18, 23}"
  proof (intro set_eqI iffI)
    fix i assume "i \<in> {i. i < length s \<and> s ! i = CHR ''-''}"
    then show "i \<in> {8, 13, 18, 23}" using at [of i] len by (auto simp: is_ascii_hexdigit_def split: if_splits)
  next
    fix i :: nat assume "i \<in> {8, 13, 18, 23}"
    then show "i \<in> {i. i < length s \<and> s ! i = CHR ''-''}" using at [of i] len by auto
  qed
  then show ?thesis by (simp add: converter_is_valid_uuid_def len length_filter_conv_card)
qed

definition json_names_a_session :: "(string \<Rightarrow> 'n json option) \<Rightarrow> string \<Rightarrow> bool" where
  "json_names_a_session from_str u \<longleftrightarrow> (\<exists>s. json_session_id from_str u = Some s \<and> is_valid_uuid s)"

lemma session_check_found:
  assumes "metadata_user_id_has_session_id from_str u = Ok True"
  shows "extract_session_id from_str u \<noteq> None"
  using assms strict_uuid_is_lenient
  by (auto simp: metadata_user_id_has_session_id_def extract_session_id_def str_slice_to_def str_get_to_def Let_def
      split: option.splits if_splits bind_splits)

text \<open>C37. The check for a session id in the metadata of a request panics exactly when the text is not a
  JSON object with a valid id, has \<open>session_\<close> in it with at least 36 bytes behind it, and byte 36 of
  them lies inside a character.  The extraction of \<open>converter.rs\<close> never panics, and finds an id
  wherever the check does; not the other way round, because its own test of an id is the weaker one.
  A client can choose both user ids shown here.\<close>

theorem session_check_panics_inside_a_character:
  "(metadata_user_id_has_session_id from_str u = Panic \<longleftrightarrow>
      \<not> json_names_a_session from_str u \<and>
      (\<exists>pos. str_find u ''session_'' = Some pos \<and> 36 \<le> length (drop (pos + 8) u) \<and>
        \<not> is_char_boundary (drop (pos + 8) u) 36)) \<and>
   \<not> (metadata_user_id_has_session_id from_str u = Ok True \<and> extract_session_id from_str u = None) \<and>
   metadata_user_id_has_session_id (\<lambda>_. None :: unit json option)
     (''session_'' @ replicate 35 (CHR ''a'') @ [CHR 0xC3, CHR 0xA9]) = Panic \<and>
   metadata_user_id_has_session_id (\<lambda>_. None :: unit json option) (''session_----'' @ replicate 32 (CHR ''z'')) = Ok False \<and>
   extract_session_id (\<lambda>_. None :: unit json option) (''session_----'' @ replicate 32 (CHR ''z'')) =
     Some (''----'' @ replicate 32 (CHR ''z''))"
proof (intro conjI)
  show "metadata_user_id_has_session_id from_str u = Panic \<longleftrightarrow> \<not> json_names_a_session from_str u \<and>
      (\<exists>pos. str_find u ''session_'' = Some pos \<and> 36 \<le> length (drop (pos + 8) u) \<and>
        \<not> is_char_boundary (drop (pos + 8) u) 36)"
    by (auto simp: metadata_user_id_has_session_id_def json_names_a_session_def str_slice_to_def Let_def
        split: option.split)
  show "\<not> (metadata_user_id_has_session_id from_str u = Ok True \<and> extract_session_id from_str u = None)"
    using session_check_found by blast
  have "\<not> is_char_boundary (replicate 35 (CHR ''a'') @ [CHR 0xC3, CHR 0xA9]) 36"
    by (simp add: is_char_boundary_def is_cont_def nth_append)
  then show "metadata_user_id_has_session_id (\<lambda>_. None :: unit json option)
     (''session_'' @ replicate 35 (CHR ''a'') @ [CHR 0xC3, CHR 0xA9]) = Panic"
    by (simp add: metadata_user_id_has_session_id_def json_session_id_def str_find_session str_slice_to_def
        del: append_Cons replicate.simps)
  let ?id = "''----'' @ replicate 32 (CHR ''z'')"
  have found: "str_find (''session_----'' @ replicate 32 (CHR ''z'')) ''session_'' = Some 0"
    using str_find_session [of ?id] by simp
  have whole: "is_char_boundary ?id 36" by (simp add: is_char_boundary_def)
  show "metadata_user_id_has_session_id (\<lambda>_. None :: unit json option) (''session_----'' @ replicate 32 (CHR ''z'')) = Ok False"
    unfolding metadata_user_id_has_session_id_def found
    using whole by (simp add: json_session_id_def str_slice_to_def is_valid_uuid_def is_ascii_hexdigit_def del: replicate.simps)
  show "extract_session_id (\<lambda>_. None :: unit json option) (''session_----'' @ replicate 32 (CHR ''z'')) = Some ?id"
    unfolding extract_session_id_def found
    using whole by (simp add: json_session_id_def str_get_to_def converter_is_valid_uuid_def del: replicate.simps)
qed

definition hour_item :: "unit json" where
  "hour_item = JObject [(''cache_control'', JObject [(''ttl'', JString ''1h''), (''type'', JString ''ephemeral'')]),
     (''text'', JString ''hi''), (''type'', JString ''text'')]"

definition text_message :: "string \<Rightarrow> unit json \<Rightarrow> unit cache_message" where
  "text_message role content = \<lparr>msg_role = role, msg_content = content\<rparr>"

definition hour_conversation :: "unit json \<Rightarrow> unit messages_request" where
  "hour_conversation current =
     \<lparr>mr_messages = [text_message ''user'' (JString ''hi''), text_message ''assistant'' (JArray [hour_item]),
        text_message ''user'' current],
      mr_system = None, mr_tools = None, mr_tool_choice = None, mr_user_id = None\<rparr>"

definition lifetimes_of :: "prompt_cache_state \<Rightarrow> duration set" where
  "lifetimes_of st = pe_ttl ` ran (cached (by_scope st))"

lemma hour_item_ttl: "extract_prompt_cache_ttl unit_serde hour_item = Some HOUR_PROMPT_CACHE_TTL"
proof -
  have "trim ''1h'' = ''1h''" by code_simp
  moreover have "parse_u64 ''1'' = Some 1" by (simp add: parse_u64_def is_ascii_digit_def)
  ultimately have "parse_ttl unit_serde (JString ''1h'') = Some HOUR_PROMPT_CACHE_TTL"
    by (simp add: parse_ttl_def unit_serde_def strip_suffix_def from_secs_def HOUR_PROMPT_CACHE_TTL_def)
  then show ?thesis
    by (simp add: extract_prompt_cache_ttl_def hour_item_def is_null_def to_ascii_lowercase_def ascii_lower_def Let_def
        normalize_ttl_def DEFAULT_PROMPT_CACHE_TTL_def HOUR_PROMPT_CACHE_TTL_def)
qed

lemma inner_marker_unseen: "Option.bind (jget ''cache_control'' hour_item) (extract_prompt_cache_ttl unit_serde) = None"
  by (simp add: hour_item_def extract_prompt_cache_ttl_def)

lemma not_billing:
  "\<not> is_anthropic_billing_header_block unit_serde hour_item"
  "\<not> is_anthropic_billing_header_block unit_serde (JObject (text_block ''hi''))"
  "\<not> is_anthropic_billing_header_block unit_serde (JObject (text_block ''next''))"
  "\<not> is_anthropic_billing_header_block unit_serde (prelude_value (hour_conversation v))"
proof -
  have t: "trim_start ''hi'' = ''hi''" "trim_start ''next'' = ''next''" by code_simp+
  show "\<not> is_anthropic_billing_header_block unit_serde hour_item"
    by (simp add: is_anthropic_billing_header_block.simps [of _ hour_item])
      (simp add: hour_item_def billing_header_object_def unit_serde_def starts_with_def t)
  show "\<not> is_anthropic_billing_header_block unit_serde (JObject (text_block ''hi''))"
    "\<not> is_anthropic_billing_header_block unit_serde (JObject (text_block ''next''))"
    by (simp_all add: is_anthropic_billing_header_block.simps [of _ "JObject _"])
      (simp_all add: text_block_def billing_header_object_def unit_serde_def starts_with_def t)
  show "\<not> is_anthropic_billing_header_block unit_serde (prelude_value (hour_conversation v))"
    by (simp add: is_anthropic_billing_header_block.simps [of _ "prelude_value _"])
      (simp add: prelude_value_def billing_header_object_def unit_serde_def starts_with_def)
qed

lemma unmarked_text: "extract_prompt_cache_ttl J (JObject (text_block t)) = None"
  by (simp add: extract_prompt_cache_ttl_def text_block_def)

lemma block_of_message: "block_of_value (message_value r v) = v"
  by (simp add: block_of_value_def message_value_def)

lemma scan_breakpoints:
  "fst (scan_blocks sha J every h c a (b # bs)) =
    (let t = (case cb_ttl b of Some t \<Rightarrow> Some t | None \<Rightarrow> if cb_is_message_end b then a else None);
         rest = fst (scan_blocks sha J every (h @ hash_chunk (canonicalize_cache_value J (cb_value b)))
           (add_i32 c (cb_tokens b)) (or_else (cb_ttl b) a) bs)
     in case t of Some t \<Rightarrow> t # rest | None \<Rightarrow> rest)"
  by (auto simp: Let_def or_else_def split: option.split prod.split)

lemma prefix_block_ttl:
  "append_current_user_stable_prefix_block F J bs m n ttl = bs \<or>
   (\<exists>b. append_current_user_stable_prefix_block F J bs m n ttl = bs @ [b] \<and> cb_ttl b = Some ttl)"
  by (auto simp: append_current_user_stable_prefix_block_def append_cache_block_with_forced_ttl_def or_else_def
      split: option.split)

lemma insert_lifetimes: "lifetimes_of (cache_insert s f (new_entry now ttl n) st) \<subseteq> insert ttl (lifetimes_of st)"
  by (auto simp: lifetimes_of_def cache_insert_cached new_entry_def ran_def split: if_splits)

lemma write_points_lifetimes:
  "lifetimes_of (write_points now ttl s tokens_of points st) \<subseteq> insert ttl (lifetimes_of st)"
proof (induction points arbitrary: st)
  case (Cons p ps)
  let ?st = "case tokens_of p of None \<Rightarrow> st | Some n \<Rightarrow> cache_insert s (lp_fingerprint p) (new_entry now ttl n) st"
  have "write_points now ttl s tokens_of (p # ps) st = write_points now ttl s tokens_of ps ?st"
    by (simp add: write_points_def)
  moreover have "lifetimes_of ?st \<subseteq> insert ttl (lifetimes_of st)"
    by (cases "tokens_of p") (simp_all add: insert_lifetimes subset_insertI)
  ultimately show ?case using Cons.IH [of ?st] by simp blast
qed (auto simp: write_points_def)

lemma committed_lifetimes:
  "lifetimes_of (enforce_bounds s b now (write_points now ttl s tokens_of points (prune_expired_if_due now prompt_cache_default)))
     \<subseteq> {ttl}"
proof -
  let ?w = "write_points now ttl s tokens_of points (prune_expired_if_due now prompt_cache_default)"
  have ok: "cache_ok prompt_cache_default" by (simp add: prompt_cache_default_def cache_ok_def total_cache_entries_def)
  have "lifetimes_of (prune_expired_if_due now prompt_cache_default) = {}"
    by (simp add: lifetimes_of_def prompt_cache_default_def prune_expired_if_due_def prune_expired_def prune_expired_locked_def
        cached_def ran_def Let_def)
  then have w: "lifetimes_of ?w \<subseteq> {ttl}" by (metis write_points_lifetimes)
  have "cached (by_scope (enforce_bounds s b now ?w)) \<subseteq>\<^sub>m cached (by_scope ?w)"
    by (rule enforce_bounds_spec(2) [OF write_points_ok [OF prune_if_due_ok [OF ok]] refl])
  then have "ran (cached (by_scope (enforce_bounds s b now ?w))) \<subseteq> ran (cached (by_scope ?w))"
    by (force simp: map_le_def ran_def dom_def)
  with w show ?thesis unfolding lifetimes_of_def by blast
qed

lemma hour_kiro_blocks:
  "\<exists>b1 b2. cb_ttl b1 = Some DEFAULT_PROMPT_CACHE_TTL \<and> cb_ttl b2 = Some DEFAULT_PROMPT_CACHE_TTL \<and>
    (\<exists>b3. kiro_rs_tool_cache_blocks F unit_serde (hour_conversation (JArray [hour_item])) p = [b1, b2, b3] \<and>
      cb_ttl b3 = Some HOUR_PROMPT_CACHE_TTL) \<and>
    (let bs = kiro_rs_tool_cache_blocks F unit_serde (hour_conversation (JString ''next'')) p in
     bs = [b1, b2] \<or>
     (\<exists>b3. bs = [b1, b2, b3] \<and> (cb_ttl b3 = Some DEFAULT_PROMPT_CACHE_TTL \<or> cb_ttl b3 = None \<and> \<not> cb_is_message_end b3)))"
proof -
  have marked: "message_has_explicit_cache_control (text_message r (JArray [hour_item]))" for r
    by (simp add: message_has_explicit_cache_control_def text_message_def hour_item_def)
  define b1 :: "unit cache_block" where "b1 = \<lparr>cb_value = message_value ''user'' (JObject (text_block ''hi'')),
    cb_tokens = block_tokens F unit_serde (message_value ''user'' (JObject (text_block ''hi''))),
    cb_ttl = Some DEFAULT_PROMPT_CACHE_TTL, cb_is_message_end = False\<rparr>"
  define b2 :: "unit cache_block" where "b2 = \<lparr>cb_value = message_value ''assistant'' hour_item,
    cb_tokens = block_tokens F unit_serde (message_value ''assistant'' hour_item),
    cb_ttl = Some DEFAULT_PROMPT_CACHE_TTL, cb_is_message_end = False\<rparr>"
  define b3 :: "unit json \<Rightarrow> duration option \<Rightarrow> unit cache_block" where "b3 = (\<lambda>v t. \<lparr>cb_value = message_value ''user'' v,
    cb_tokens = block_tokens F unit_serde (message_value ''user'' v), cb_ttl = t, cb_is_message_end = False\<rparr>)"
  note blocks = append_kiro_rs_tool_message_blocks_def append_cache_block_with_forced_ttl_def block_of_message
    not_billing inner_marker_unseen hour_item_ttl unmarked_text or_else_def text_message_def
  have first: "append_kiro_rs_tool_message_blocks F unit_serde True [] (text_message ''user'' (JString ''hi'')) = [b1]"
    and second: "append_kiro_rs_tool_message_blocks F unit_serde True [b1] (text_message ''assistant'' (JArray [hour_item])) = [b1, b2]"
    and third: "append_kiro_rs_tool_message_blocks F unit_serde False [b1, b2] (text_message ''user'' (JArray [hour_item])) =
        [b1, b2, b3 hour_item (Some HOUR_PROMPT_CACHE_TTL)]"
    and fourth: "append_kiro_rs_tool_message_blocks F unit_serde False [b1, b2] (text_message ''user'' (JString ''next'')) =
        [b1, b2, b3 (JObject (text_block ''next'')) None]"
    by (simp_all add: blocks b1_def b2_def b3_def)
  have "kiro_rs_tool_cache_blocks F unit_serde (hour_conversation (JArray [hour_item])) p =
      [b1, b2, b3 hour_item (Some HOUR_PROMPT_CACHE_TTL)]"
    by (simp add: kiro_rs_tool_cache_blocks_def hour_conversation_def opt_list_def mark_last_block_def Let_def marked
        first second third)
  moreover have "kiro_rs_tool_cache_blocks F unit_serde (hour_conversation (JString ''next'')) p \<in>
      {[b1, b2, b3 (JObject (text_block ''next'')) None],
       append_kiro_rs_tool_current_user_stable_prefix_block F unit_serde [b1, b2] (text_message ''user'' (JString ''next''))
         (kiro_policy_normalized F p)}"
    by (simp add: kiro_rs_tool_cache_blocks_def hour_conversation_def opt_list_def mark_last_block_def Let_def first second fourth)
  moreover have "append_kiro_rs_tool_current_user_stable_prefix_block F unit_serde [b1, b2] m q = [b1, b2] \<or>
      (\<exists>b. append_kiro_rs_tool_current_user_stable_prefix_block F unit_serde [b1, b2] m q = [b1, b2, b] \<and>
        cb_ttl b = Some DEFAULT_PROMPT_CACHE_TTL)" for m q
    using prefix_block_ttl [of F unit_serde "[b1, b2]" m _ DEFAULT_PROMPT_CACHE_TTL]
    by (simp add: append_kiro_rs_tool_current_user_stable_prefix_block_def)
  moreover have "cb_ttl b1 = Some DEFAULT_PROMPT_CACHE_TTL" "cb_ttl b2 = Some DEFAULT_PROMPT_CACHE_TTL"
    "cb_ttl (b3 v t) = t" "\<not> cb_is_message_end (b3 v t)" for v t
    by (simp_all add: b1_def b2_def b3_def)
  ultimately show ?thesis unfolding Let_def by (metis insertE singletonD)
qed

lemma profile_breakpoints:
  assumes "bs \<noteq> []" "fst (scan_blocks sha J every [] 0 None bs) = ts" "ts \<noteq> []"
  shows "\<exists>pr. build_profile_with_blocks sha J bs n model syn every first = Some pr \<and> pr_breakpoints pr = ts"
  using assms by (auto simp: build_profile_with_blocks_def Let_def split: prod.splits)

lemma hour_kiro_profile:
  "\<exists>pr. build_kiro_rs_tool_profile_for_model F sha unit_serde (hour_conversation (JString ''next'')) n model p = Some pr \<and>
     set (pr_breakpoints pr) = {DEFAULT_PROMPT_CACHE_TTL}"
  "\<exists>pr. build_kiro_rs_tool_profile_for_model F sha unit_serde (hour_conversation (JArray [hour_item])) n model p = Some pr \<and>
     pr_breakpoints pr \<noteq> [] \<and> last (pr_breakpoints pr) = HOUR_PROMPT_CACHE_TTL"
proof -
  let ?b = "\<lambda>v. kiro_rs_tool_cache_blocks F unit_serde (hour_conversation v) p"
  let ?scan = "\<lambda>v. fst (scan_blocks sha unit_serde False [] 0 None (?b v))"
  from hour_kiro_blocks [of F p] have "set (?scan (JString ''next'')) = {DEFAULT_PROMPT_CACHE_TTL}"
    and "last (?scan (JArray [hour_item])) = HOUR_PROMPT_CACHE_TTL" "?scan (JArray [hour_item]) \<noteq> []"
    and "?b (JString ''next'') \<noteq> []" "?b (JArray [hour_item]) \<noteq> []"
    by (auto simp: scan_breakpoints Let_def simp del: scan_blocks.simps(2))
  then show "\<exists>pr. build_kiro_rs_tool_profile_for_model F sha unit_serde (hour_conversation (JString ''next'')) n model p = Some pr \<and>
     set (pr_breakpoints pr) = {DEFAULT_PROMPT_CACHE_TTL}"
    "\<exists>pr. build_kiro_rs_tool_profile_for_model F sha unit_serde (hour_conversation (JArray [hour_item])) n model p = Some pr \<and>
     pr_breakpoints pr \<noteq> [] \<and> last (pr_breakpoints pr) = HOUR_PROMPT_CACHE_TTL"
    unfolding build_kiro_rs_tool_profile_for_model_def
    by (metis profile_breakpoints empty_set insert_not_empty)+
qed

lemma hour_high_profile:
  "\<exists>pr. build_high_cache_profile_for_model F sha unit_serde from_str (hour_conversation (JString ''next'')) n model = Ok (Some pr) \<and>
     set (pr_breakpoints pr) = {HOUR_PROMPT_CACHE_TTL}"
proof -
  let ?b = "flatten_cache_blocks F unit_serde (hour_conversation (JString ''next''))"
  have "\<exists>b1 b2 b3 b4. ?b = [b1, b2, b3, b4] \<and> cb_ttl b1 = None \<and> \<not> cb_is_message_end b1 \<and> cb_ttl b2 = None \<and>
      cb_ttl b3 = Some HOUR_PROMPT_CACHE_TTL \<and> cb_ttl b4 = None \<and> cb_is_message_end b4"
    using not_billing(4) [of "JString ''next''"]
    by (simp add: flatten_cache_blocks_def hour_conversation_def text_message_def opt_list_def append_message_blocks_def
        append_cache_block_def block_of_message not_billing hour_item_ttl unmarked_text)
      (simp add: prelude_value_def block_of_value_def extract_prompt_cache_ttl_def)
  then have "set (fst (scan_blocks sha unit_serde True [] 0 None ?b)) = {HOUR_PROMPT_CACHE_TTL}" "?b \<noteq> []"
    by (auto simp: scan_breakpoints Let_def or_else_def simp del: scan_blocks.simps(2))
  then show ?thesis
    using profile_breakpoints [of ?b sha unit_serde True _ n model True]
    by (simp add: build_high_cache_profile_for_model_def hour_conversation_def) (metis empty_set insert_not_empty)
qed

lemma updates_lifetimes:
  "lifetimes_of (update_kiro_rs_tool_profile_with_bounds now (Some s) (Some pr) b committed prompt_cache_default)
     \<subseteq> {write_entry_ttl b (last_breakpoint_ttl DEFAULT_PROMPT_CACHE_TTL pr)}"
  "lifetimes_of (update_with_bounds F lower now (Some s) (Some pr) r b prompt_cache_default)
     \<subseteq> {write_entry_ttl b (last_breakpoint_ttl DEFAULT_PROMPT_CACHE_TTL pr)}"
proof -
  have "lifetimes_of prompt_cache_default = {}"
    by (simp add: lifetimes_of_def prompt_cache_default_def cached_def ran_def)
  then show "lifetimes_of (update_kiro_rs_tool_profile_with_bounds now (Some s) (Some pr) b committed prompt_cache_default)
     \<subseteq> {write_entry_ttl b (last_breakpoint_ttl DEFAULT_PROMPT_CACHE_TTL pr)}"
    "lifetimes_of (update_with_bounds F lower now (Some s) (Some pr) r b prompt_cache_default)
     \<subseteq> {write_entry_ttl b (last_breakpoint_ttl DEFAULT_PROMPT_CACHE_TTL pr)}"
    unfolding update_kiro_rs_tool_profile_with_bounds_def update_with_bounds_def
    by (simp_all add: Let_def committed_lifetimes)
qed

lemma last_in_one: "set xs = {x} \<Longrightarrow> xs \<noteq> [] \<and> last xs = x"
  by (cases xs rule: rev_cases) auto

text \<open>C38. The kiro-rs-tool strategy looks for the marker of a content block inside the marker itself and
  never finds one, so the end of an earlier message gets the default lifetime of five minutes although
  the client asked for an hour there.  In the conversation shown here, whose only marker is that one,
  the whole request is then kept for the default lifetime under every policy (unless the route sets a
  lifetime of its own, or bounds it), while the high-cache strategy keeps the same request for the hour.
  The lifetime of a request is that of its last breakpoint: a marker on the last message, which is looked
  up in the block itself, still counts.\<close>

theorem explicit_hour_is_lost_at_the_message_end:
  "extract_prompt_cache_ttl unit_serde hour_item = Some HOUR_PROMPT_CACHE_TTL \<and>
   (\<exists>pr. build_kiro_rs_tool_profile_for_model F sha unit_serde (hour_conversation (JString ''next'')) n model p = Some pr \<and>
     set (pr_breakpoints pr) = {DEFAULT_PROMPT_CACHE_TTL} \<and>
     lifetimes_of (update_kiro_rs_tool_profile_with_bounds now (Some s) (Some pr) b committed prompt_cache_default)
       \<subseteq> {write_entry_ttl b DEFAULT_PROMPT_CACHE_TTL}) \<and>
   (\<exists>pr. build_high_cache_profile_for_model F sha unit_serde from_str (hour_conversation (JString ''next'')) n model = Ok (Some pr) \<and>
     set (pr_breakpoints pr) = {HOUR_PROMPT_CACHE_TTL} \<and>
     lifetimes_of (update_with_bounds F lower now (Some s) (Some pr) r b prompt_cache_default)
       \<subseteq> {write_entry_ttl b HOUR_PROMPT_CACHE_TTL}) \<and>
   (\<exists>pr. build_kiro_rs_tool_profile_for_model F sha unit_serde (hour_conversation (JArray [hour_item])) n model p = Some pr \<and>
     pr_breakpoints pr \<noteq> [] \<and> last (pr_breakpoints pr) = HOUR_PROMPT_CACHE_TTL \<and>
     lifetimes_of (update_kiro_rs_tool_profile_with_bounds now (Some s) (Some pr) b committed prompt_cache_default)
       \<subseteq> {write_entry_ttl b HOUR_PROMPT_CACHE_TTL})"
proof -
  have all: "last_breakpoint_ttl DEFAULT_PROMPT_CACHE_TTL pr = t" if "set (pr_breakpoints pr) = {t}" for pr t
    using last_in_one [OF that] by (simp add: last_breakpoint_ttl_def)
  have kept: "last_breakpoint_ttl DEFAULT_PROMPT_CACHE_TTL pr = HOUR_PROMPT_CACHE_TTL"
    if "pr_breakpoints pr \<noteq> []" "last (pr_breakpoints pr) = HOUR_PROMPT_CACHE_TTL" for pr
    using that by (simp add: last_breakpoint_ttl_def)
  show ?thesis
    using hour_item_ttl hour_kiro_profile [of F sha n model p] hour_high_profile [of F sha from_str n model] updates_lifetimes all kept
    by metis
qed

end
