(* ===== verification/Spec2Isabelle.thy ===== *)
theory Spec2Isabelle
  imports Event_Decoder Selection Session_Bindings Lease_Guard Attempt_Budget Rotation Tool_Pairing
    Redis_Breaker Upstream_Faults Runtime_Lag Risk_Circuit Stop_Sequences Admission_Wakeups Key_Limits
    Log_Throttle Flush_Progress Health_Races Auto_Heal Scheduler_Sync Transient_Failures Dispatch_Progress
    Cache_Growth
begin

text \<open>
  Verification of kiro.rs, a proxy in Rust that offers the Anthropic API on top of a pool of Kiro
  accounts.  All paths below are under the repository's \<open>src/\<close>.

  \<^bold>\<open>The program.\<close>  A request passes the admission middleware (\<open>anthropic/request_admission.rs\<close>), which
  checks the usage limits of its API key (\<open>anthropic/request_key_limits.rs\<close>), its rate, and makes it
  queue for one of the key's places.  It arrives at the Axum handlers (\<open>anthropic/handlers.rs\<close>), is converted
  to the upstream format (\<open>anthropic/converter.rs\<close>, with the pairing of tool uses and results in
  \<open>converter/tool_pairing.rs\<close>) and given to the provider (\<open>kiro/provider.rs\<close>), which asks the
  scheduler (\<open>kiro/token_manager/\<close>) for an account.  The scheduler keeps one entry per account,
  selects a candidate, takes a lease on it (and one in Redis, so that several processes share the
  limits) and hands out a guard; the guard's drop releases the lease locally and through a
  dispatcher that retries until Redis has applied the release.  Waiting requests are woken by a
  capacity signal.  The provider retries within attempt budgets and rotates over regions and
  rounds.  The answer is a binary event stream (\<open>kiro/parser/\<close>), which is decoded and turned into
  server-sent events (\<open>anthropic/stream.rs\<close>), cut at stop sequences (\<open>anthropic/stop_sequence.rs\<close>).
  The usage told to the client simulates a prompt cache per conversation and route
  (\<open>anthropic/prompt_cache.rs\<close>), to which successful requests are committed.
  The outcome is reported to the scheduler, which counts it against the account at once, queues it,
  and writes the queues to PostgreSQL (\<open>storage/postgres.rs\<close>) in the background, where the instances
  share the health of the accounts.
  Three safeguards watch the whole: the breaker around the scheduler's Redis calls, the pool-wide
  risk circuit, and the attribution of upstream faults to accounts.

  \<^bold>\<open>Theories and what they model.\<close>

    \<^item> \<open>Prelude\<close>: machine integers with saturation, results with errors and panics, byte slices.
      \<open>Utf8\<close>: lossy decoding and character boundaries.  \<open>Rust_Str\<close>: the string functions used.
    \<^item> \<open>Event_Headers\<close>, \<open>Event_Frame\<close>, \<open>Event_Decoder\<close>: \<open>kiro/parser/\<close> \<open>header.rs\<close>, \<open>frame.rs\<close>, \<open>error.rs\<close> and
      \<open>decoder.rs\<close>: the wire format and the resumable decoder with its recovery.  \<open>prefix_parser\<close> is
      the contract a frame parser offers the decoder.
    \<^item> \<open>Model_Support\<close>, \<open>Account_State\<close>: \<open>model/model_support.rs\<close>, \<open>account_state.rs\<close>, \<open>types.rs\<close> and the
      fields of \<open>credentials.rs\<close> the scheduler reads: which models an account may take, the records.
    \<^item> \<open>Availability\<close>: \<open>cooldown.rs\<close>, \<open>rpm.rs\<close>, \<open>capacity.rs\<close>, \<open>queue.rs\<close>, \<open>strategy.rs\<close> (windows and scores).
      \<open>Degrade\<close>: \<open>degrade.rs\<close>.  \<open>Selection\<close>: \<open>selection.rs\<close>; the stages of the choice share the contract
      \<open>selection_stage\<close>.  \<open>Session_Bindings\<close>: \<open>sticky.rs\<close>.
    \<^item> \<open>Leases\<close>: local leases and the queue in \<open>manager.rs\<close> and \<open>concurrency.rs\<close>; \<open>entry_operation\<close> is the
      contract of an operation on one entry.  \<open>Release_Dispatcher\<close>, \<open>Lease_Guard\<close>: the rest of
      \<open>concurrency.rs\<close>.  \<open>Capacity_Signal\<close>: \<open>common/capacity_signal.rs\<close>.
    \<^item> \<open>Attempt_Budget\<close>: \<open>anthropic/inference_attempt_budget.rs\<close>, with the contract \<open>bounded_counter\<close> of
      its two atomic counters.  \<open>Rotation\<close>: \<open>kiro/retry_pipeline.rs\<close> and the one place of
      \<open>kiro/provider.rs\<close> that moves the cursor, the decision after a transient error.
    \<^item> \<open>Tool_Pairing\<close>: \<open>converter/tool_pairing.rs\<close> and its use in \<open>converter.rs\<close>.
      \<open>Stop_Sequences\<close>: \<open>anthropic/stop_sequence.rs\<close>.
    \<^item> \<open>Admission_Gate\<close>, \<open>Admission_Wakeups\<close>, \<open>Request_Admission\<close>: \<open>anthropic/request_admission.rs\<close>: the
      concurrency gate of a key with its numbered queue, as the contract \<open>fifo_service\<close> promises it; its limits
      and wake-ups; the table of key states, rate limit, back-off, rejection log, permits.  \<open>Key_Limits\<close>:
      \<open>anthropic/request_key_limits.rs\<close>, the hash scripts of \<open>storage/redis_cache.rs\<close> it uses, and the middleware.
      \<open>Log_Throttle\<close>: \<open>common/log_throttle.rs\<close>.
    \<^item> \<open>Runtime_Store\<close>: the rows, the ledger of operations with its ageing and clean-up, and the
      transactions of \<open>storage/postgres.rs\<close> on the health of an account; \<open>versioned_store\<close> is the contract the instances rely on.
      \<open>Runtime_Queue\<close>: the queued changes of \<open>manager.rs\<close>, taking rows over
      (\<open>apply_runtime_state_if_newer\<close> and its callers), \<open>flush_pending_runtime_mutations_until\<close>, reloading.
      \<open>Account_Reports\<close>: \<open>report_*_deferred\<close> and the automatic healing of \<open>manager.rs\<close>.
      \<open>Health_Consistency\<close>: one instance and its database as a step relation and what holds in every
      reachable state; \<open>Flush_Progress\<close>, \<open>Auto_Heal\<close>: what a flush and a round of healing achieve;
      \<open>Health_Races\<close>: three runs in which the local view goes wrong.
    \<^item> \<open>Scheduler_Sync\<close>: \<open>redis_runtime.rs\<close>, taking the state of all instances over from Redis, over the
      lease operations of \<open>Leases\<close> and the tombstones of \<open>Release_Dispatcher\<close>.  \<open>Transient_Failures\<close>:
      \<open>report_transient_failure_kind\<close>, the degradation points and the local window of requests per
      minute in \<open>manager.rs\<close>.  \<open>Dispatch_Progress\<close>: \<open>dispatch_progress.rs\<close>.
    \<^item> \<open>Prompt_Cache\<close>, \<open>Cache_Canonical\<close>, \<open>Cache_Blocks\<close>, \<open>Cache_Usage\<close>: \<open>anthropic/prompt_cache.rs\<close> with
      \<open>count_tokens\<close> of \<open>token.rs\<close> and \<open>extract_session_id\<close> of \<open>converter.rs\<close>, which has a test of session ids
      of its own: the table of the simulated prompt cache with its eviction (\<open>nth_selection\<close> is the contract of the selection it uses), the canonical text of
      JSON values, the blocks and profiles of a request, reading and committing.  \<open>Cache_Growth\<close>: what
      clients can rely on.
    \<^item> \<open>Redis_Breaker\<close>, \<open>Upstream_Faults\<close>, \<open>Risk_Circuit\<close>: the safeguards of \<open>manager.rs\<close>.
      \<open>Runtime_Lag\<close>: \<open>common/runtime_lag.rs\<close>; the breaker's contract \<open>lag_meter\<close> is interpreted on it here.

  \<^bold>\<open>State and operations.\<close>  A struct is a record with the source's field names (with a prefix where
  two would clash), an enum a datatype, an operation a function from the old state to the result
  and the new state, an error a value.  Code under a lock is one function; where the source
  releases the lock or is atomic only per access (the dispatcher, the budgets, the capacity
  signal, the breaker, the admission gate, the key table, the log throttle), each critical section or atomic access is its own function and a
  transition relation interleaves them.  A report and an attempt of the flush on one account, which
  take several locks in turn, are single steps in \<open>Health_Consistency\<close>; the attempt is made of the
  functions of its locks, which \<open>Health_Races\<close> interleaves with a report.  A database transaction is a
  function to an error or a result with the new tables.  Integers keep their width, wrapping or saturating as in
  the source; durations and instants are natural numbers of nanoseconds.  A hash map that is
  iterated is an association list in iteration order.

  \<^bold>\<open>Parameters.\<close>  What is not in the repository is an argument: the CRC-32 of the \<open>crc\<close> crate, the
  operations of \<open>f64\<close>, Unicode lower-casing, random draws, the clock, JSON values and their
  accessors (\<open>serde_json\<close>), the calendar and the time stamps of \<open>chrono\<close>, SHA-256, operation ids, whether the
  database answers, the answers and the numbers of Redis.
  \<open>tokio\<close>'s \<open>Notify\<close> is taken as documented: \<open>notify_waiters\<close> completes the notifications enabled
  before it.  Hypotheses about them are stated where they are
  used (for instance \<open>json_laws\<close>, \<open>f64_exact\<close>) and hold for the concrete instances of the witnesses.

  \<^bold>\<open>What is shown.\<close>  The decoder finds every message of a stream however it is cut; a damaged one
  ends the response after the messages before it, and costs the decoder nothing but itself; leases, counters, permits and reservations add up under all
  interleavings, and no release is lost; the selection is total, sound and respects tiers and
  degradation; rate limits are sliding windows; budgets are never exceeded by concurrent callers;
  a failing request stays within the rounds and endpoints of its rotation plan and, in berserk
  mode, goes through them in order; requests of a key are admitted in order of arrival, within its limits, none is
  left asleep unless the limit is switched off, usage is counted once and limits fail closed; tool uses and results are paired; stop sequences are never shown and do not
  depend on the cut of the stream; a health report changes the database once however often it is
  repeated within the thirty days of the ledger, not at all after a reset, the revision and the
  generation of a row count its changes, and what an instance holds of an account is the database's row
  once its queue is empty; a flush leaves no queue out; healing is rationed; the shared state neither
  loses nor revives leases; cool-downs are bounded and never shortened; the prompt cache keeps within its limits, evicts the least recently used entries, answers from
  live entries of the own conversation only, and a growing conversation reads what it committed; the breaker, the circuit and the fault log open on evidence and
  never stick.  Some theorems record where the code does less than its comments say.

  \<^bold>\<open>Bounds.\<close>  All recursions are structural or have a termination proof; the decoder's drain is proved
  to end rather than cut by fuel.  Sequence numbers and generations are
  64-bit: theorems that need it assume fewer than \<open>2 ^ 64\<close> events.

  \<^bold>\<open>Not modelled.\<close>  HTTP, the rest of the SQL and the Lua scripts (\<open>storage/\<close>, \<open>http_client.rs\<close>,
  \<open>external_pool.rs\<close>), the ledger of statistics batches, the throttle around the clean-up of the
  ledgers, the blocking variants of the reports
  and the administrator's patches, the Axum handlers and the admin service, token refresh, the JSON-to-JSON conversion of requests and answers
  (\<open>converter.rs\<close> outside the pairing, \<open>stream.rs\<close>, \<open>payload_guard.rs\<close>), usage records, pricing and the reshaping of
  reported usage (\<open>cache.rs\<close>, \<open>usage.rs\<close>, \<open>prompt_cache_creation_control.rs\<close>), configuration defaults, and the asynchronous orchestration in \<open>provider.rs\<close> and
  \<open>manager.rs\<close> around the modelled operations.  Next in line are the
  administrator's patches, the scripts of the scheduler in Redis and the dispatch queue across
  processes.
\<close>

section \<open>The process's own delay and the Redis breaker\<close>

lemma overdue_probe_excuses:
  assumes "rounds_ok t0 rounds now" "t0 \<le> asked" "asked + millis 70 \<le> now"
  shows "LOCAL_LAG_EXCUSES_TIMEOUT \<le> recent_max_at now (probe_sleep asked (probe_rounds rounds (runtime_lag_new t0)))"
proof -
  have "50000 \<le> (now - t0) div 1000 - (asked - t0) div 1000 - 20000"
    using assms(2,3) by (simp add: millis_def)
  then show ?thesis
    using recent_max_asleep [OF assms(1,2)] assms(3) by (simp add: millis_def LOCAL_LAG_EXCUSES_TIMEOUT_def le_max_iff_disj)
qed

lemma punctual_probe_excuses_nothing:
  assumes "rounds_ok t0 rounds now" "list_all (\<lambda>r. now - snd r < secs 2 \<longrightarrow> late_of r < millis 50) rounds"
  shows "recent_max_at now (probe_rounds rounds (runtime_lag_new t0)) < LOCAL_LAG_EXCUSES_TIMEOUT"
  using recent_max_source [OF assms(1)]
proof
  assume "\<exists>r \<in> set rounds. now - snd r < secs 2 \<and>
    recent_max_at now (probe_rounds rounds (runtime_lag_new t0)) = late_of r div 1000 * 1000"
  then obtain r where "late_of r < millis 50"
    "recent_max_at now (probe_rounds rounds (runtime_lag_new t0)) = late_of r div 1000 * 1000"
    using assms(2) by (auto simp: list_all_iff)
  moreover have "late_of r div 1000 * 1000 \<le> late_of r" by simp
  ultimately show ?thesis by (simp add: LOCAL_LAG_EXCUSES_TIMEOUT_def)
qed (simp add: LOCAL_LAG_EXCUSES_TIMEOUT_def millis_def)

definition stalled :: "runtime_lag \<Rightarrow> instant \<Rightarrow> bool" where
  "stalled l now \<longleftrightarrow> (\<exists>t0 rounds asked. rounds_ok t0 rounds now \<and> t0 \<le> asked \<and> asked + millis 70 \<le> now \<and>
     l = probe_sleep asked (probe_rounds rounds (runtime_lag_new t0)))"

definition punctual :: "runtime_lag \<Rightarrow> instant \<Rightarrow> bool" where
  "punctual m now \<longleftrightarrow> (\<exists>t0 rounds l asked. rounds_ok t0 rounds now \<and>
     list_all (\<lambda>r. now - snd r < secs 2 \<longrightarrow> late_of r < millis 50) rounds \<and>
     l = probe_rounds rounds (runtime_lag_new t0) \<and>
     (m = l \<or> t0 \<le> asked \<and> asked \<le> now \<and> now + 1000 \<le> asked + millis 70 \<and> m = probe_sleep asked l))"

lemma sleeping_probe_excuses_nothing:
  assumes "rounds_ok t0 rounds now" "list_all (\<lambda>r. now - snd r < secs 2 \<longrightarrow> late_of r < millis 50) rounds"
    and "t0 \<le> asked" "asked \<le> now" "now + 1000 \<le> asked + millis 70"
  shows "recent_max_at now (probe_sleep asked (probe_rounds rounds (runtime_lag_new t0))) <
    LOCAL_LAG_EXCUSES_TIMEOUT"
proof -
  have "(now - t0) div 1000 - (asked - t0) div 1000 - 20000 < 50000"
    using assms(3-5) by (simp add: millis_def)
  then show ?thesis
    using recent_max_asleep [OF assms(1,3,4)] punctual_probe_excuses_nothing [OF assms(1,2)]
    by (simp add: LOCAL_LAG_EXCUSES_TIMEOUT_def millis_def)
qed

text \<open>The probe of the process meets the contract the breaker relies on.\<close>

interpretation probe: lag_meter "\<lambda>l now. recent_max_at now l" stalled punctual
  by unfold_locales (auto simp: stalled_def punctual_def overdue_probe_excuses
      punctual_probe_excuses_nothing sleeping_probe_excuses_nothing)

text \<open>C34. A timeout of a Redis call other than a recovery probe is blamed on Redis only while the process
  itself is on time, up to a safety valve.  When the probe task of the process should have woken
  at least 50 ms ago, the timeout leaves the breaker's phase, generation and count of failures as
  they are, as long as fewer than twenty timeouts in a row have been excused.  It counts against
  the capacity breaker, and the third in a row opens it, when every round of the probe that ended
  in the last two seconds was less than 50 ms late and the probe is between two rounds or asleep
  and not yet 50 ms overdue (less one microsecond, the resolution of the meter); and it counts as
  well, however late the process is, once twenty timeouts in a row have been excused.
\<close>

theorem own_delay_is_not_blamed_on_redis:
  assumes "rounds_ok t0 rounds now" "is_timeout_failure err" "\<not> adm_recovery_probe a"
  defines "l \<equiv> probe_rounds rounds (runtime_lag_new t0)"
  shows "(t0 \<le> asked \<and> asked + millis 70 \<le> now \<and> bs_consecutive_excused_timeouts (stats b) < 20 \<longrightarrow>
      phase (admission_failure now (recent_max_at now (probe_sleep asked l)) err a b) = phase b \<and>
      failure_generation (admission_failure now (recent_max_at now (probe_sleep asked l)) err a b) = failure_generation b \<and>
      consecutive_failures (admission_failure now (recent_max_at now (probe_sleep asked l)) err a b) = consecutive_failures b) \<and>
    (br_kind b = CapacityBreaker \<and> failure_generation b = adm_failure_generation a \<and>
      (list_all (\<lambda>r. now - snd r < secs 2 \<longrightarrow> late_of r < millis 50) rounds \<and>
         (m = l \<or> t0 \<le> asked \<and> asked \<le> now \<and> now + 1000 \<le> asked + millis 70 \<and> m = probe_sleep asked l) \<or>
       20 \<le> bs_consecutive_excused_timeouts (stats b)) \<longrightarrow>
      counts_timeout now b (admission_failure now (recent_max_at now m) err a b))"
proof -
  have "t0 \<le> asked \<and> asked + millis 70 \<le> now \<Longrightarrow> stalled (probe_sleep asked l) now"
    "list_all (\<lambda>r. now - snd r < secs 2 \<longrightarrow> late_of r < millis 50) rounds \<Longrightarrow>
       m = l \<or> t0 \<le> asked \<and> asked \<le> now \<and> now + 1000 \<le> asked + millis 70 \<and> m = probe_sleep asked l \<Longrightarrow>
       punctual m now"
    using assms(1) unfolding stalled_def punctual_def l_def by blast+
  then show ?thesis
    using probe.timeout_of_stalled_process_is_excused [OF assms(2,3)]
      probe.timeout_of_punctual_process_counts [OF assms(2,3)] counted_timeout_opens [OF assms(2,3)]
    by blast
qed

theorem own_delay_is_not_blamed_on_redis_witness:
  "phase (admission_failure (millis 900) (recent_max_at (millis 900)
      (probe_sleep (millis 600) (probe_rounds [(0, millis 23), (millis 500, millis 600)] (runtime_lag_new 0))))
      [DEADLINE_TEXT] (sample_admission False) ((breaker_new CapacityBreaker 7)\<lparr>consecutive_failures := 2\<rparr>)) = Closed \<and>
   phase (admission_failure (millis 900) (recent_max_at (millis 900)
      (probe_sleep (millis 850) (probe_rounds [(0, millis 23), (millis 500, millis 521)] (runtime_lag_new 0))))
      [DEADLINE_TEXT] (sample_admission False) ((breaker_new CapacityBreaker 7)\<lparr>consecutive_failures := 2\<rparr>)) \<noteq> Closed"
proof -
  let ?b = "(breaker_new CapacityBreaker 7)\<lparr>consecutive_failures := 2\<rparr>"
  have t: "is_timeout_failure [DEADLINE_TEXT]" by code_simp
  have r: "rounds_ok 0 [(0, millis 23), (millis 500, millis 600)] (millis 900)"
    "rounds_ok 0 [(0, millis 23), (millis 500, millis 521)] (millis 900)"
    by (simp_all add: rounds_ok_def millis_def)
  show ?thesis
    using own_delay_is_not_blamed_on_redis [OF r(1) t, of "sample_admission False" "millis 600" ?b]
      own_delay_is_not_blamed_on_redis [OF r(2) t, of "sample_admission False" "millis 850" ?b
        "probe_sleep (millis 850) (probe_rounds [(0, millis 23), (millis 500, millis 521)] (runtime_lag_new 0))"]
    by (auto simp: sample_admission_def breaker_new_def late_of_def millis_def PROBE_INTERVAL_def
        counts_timeout_def)
qed

end
